(* ===== verification/Rpcsx_Prelude.thy ===== *)
theory Rpcsx_Prelude
  imports Main "HOL-Library.Word" "HOL-Library.Multiset"
begin

text \<open>
  Shared vocabulary of the development: the machine types of \<^verbatim>\<open>util/types.hpp\<close>, wrap-around
  of signed integers, the error codes of \<^verbatim>\<open>rpcs3/Emu/Cell/ErrorCodes.h\<close>, and the list and
  word lemmas the component theories use. The collections \<open>lv2_simps\<close> (unfolding rules of the
  kernel operations) and \<open>wrap_simps\<close> (removal of wrap-around under range hypotheses) are filled
  by the component theories.
\<close>

unbundle bit_operations_syntax

named_theorems lv2_simps \<open>unfolding rules of kernel operations\<close>
named_theorems wrap_simps \<open>removal of integer wrap-around under range hypotheses\<close>

section \<open>Machine types\<close>

type_synonym u8 = "8 word"
type_synonym u16 = "16 word"
type_synonym u32 = "32 word"
type_synonym u64 = "64 word"

text \<open>
  Signed quantities that the code compares and counts with (\<open>s32\<close>, \<open>s64\<close>) are integers; every
  arithmetic result is passed through \<open>s32\<close> or \<open>s64\<close>, which is the two's complement wrap-around
  of that width. \<open>wrap_u32\<close> reads an integer modulo \<open>2 ^ 32\<close>, as a conversion to \<open>u32\<close> does.
\<close>

definition s32 :: "int \<Rightarrow> int" where
  "s32 x = signed_take_bit 31 x"

definition s64 :: "int \<Rightarrow> int" where
  "s64 x = signed_take_bit 63 x"

definition wrap_u32 :: "int \<Rightarrow> int" where
  "wrap_u32 x = x mod 2 ^ 32"

lemma s32_id [wrap_simps]: "- (2 ^ 31) \<le> x \<Longrightarrow> x < 2 ^ 31 \<Longrightarrow> s32 x = x"
  by (simp add: s32_def signed_take_bit_int_eq_self)

lemma s64_id [wrap_simps]: "- (2 ^ 63) \<le> x \<Longrightarrow> x < 2 ^ 63 \<Longrightarrow> s64 x = x"
  by (simp add: s64_def signed_take_bit_int_eq_self)

lemma wrap_u32_id [wrap_simps]: "0 \<le> x \<Longrightarrow> x < 2 ^ 32 \<Longrightarrow> wrap_u32 x = x"
  by (simp add: wrap_u32_def)

lemma wrap_u32_neg: "- (2 ^ 32) \<le> x \<Longrightarrow> x < 0 \<Longrightarrow> wrap_u32 x = x + 2 ^ 32"
proof -
  assume "- (2 ^ 32) \<le> x" "x < 0"
  then have "0 \<le> x + 2 ^ 32" "x + 2 ^ 32 < 2 ^ 32" by simp_all
  moreover have "(x + 2 ^ 32) mod 2 ^ 32 = x mod 2 ^ 32" by simp
  ultimately show ?thesis unfolding wrap_u32_def by (metis mod_pos_pos_trivial)
qed

lemma wrap_u32_range: "0 \<le> wrap_u32 x \<and> wrap_u32 x < 2 ^ 32"
  by (simp add: wrap_u32_def)

lemma s32_range: "- (2 ^ 31) \<le> s32 x \<and> s32 x < 2 ^ 31"
  using signed_take_bit_int_greater_eq_minus_exp [of 31 x] signed_take_bit_int_less_exp [of 31 x]
  by (simp add: s32_def)

lemma s64_range: "- (2 ^ 63) \<le> s64 x \<and> s64 x < 2 ^ 63"
  using signed_take_bit_int_greater_eq_minus_exp [of 63 x] signed_take_bit_int_less_exp [of 63 x]
  by (simp add: s64_def)

text \<open>Unsigned 64-bit instants and durations are natural numbers up to \<open>umax64\<close>.\<close>

definition umax64 :: nat where
  "umax64 = 2 ^ 64 - 1"

section \<open>Error codes\<close>

text \<open>
  \<^verbatim>\<open>CellNotAnError\<close> and \<^verbatim>\<open>CellError\<close> are 32-bit values returned by every system call and stored,
  zero-extended, in the 64-bit register \<^verbatim>\<open>gpr[3]\<close>.
\<close>

abbreviation CELL_OK :: "'a::len word" where "CELL_OK \<equiv> 0"
abbreviation CELL_EAGAIN :: "'a::len word" where "CELL_EAGAIN \<equiv> 0x80010001"
abbreviation CELL_EINVAL :: "'a::len word" where "CELL_EINVAL \<equiv> 0x80010002"
abbreviation CELL_ESRCH :: "'a::len word" where "CELL_ESRCH \<equiv> 0x80010005"
abbreviation CELL_EDEADLK :: "'a::len word" where "CELL_EDEADLK \<equiv> 0x80010008"
abbreviation CELL_ENOENT :: "'a::len word" where "CELL_ENOENT \<equiv> 0x80010006"
abbreviation CELL_EPERM :: "'a::len word" where "CELL_EPERM \<equiv> 0x80010009"
abbreviation CELL_EBUSY :: "'a::len word" where "CELL_EBUSY \<equiv> 0x8001000A"
abbreviation CELL_ETIMEDOUT :: "'a::len word" where "CELL_ETIMEDOUT \<equiv> 0x8001000B"
abbreviation CELL_EFAULT :: "'a::len word" where "CELL_EFAULT \<equiv> 0x8001000D"
abbreviation CELL_EKRESOURCE :: "'a::len word" where "CELL_EKRESOURCE \<equiv> 0x80010011"
abbreviation CELL_ECANCELED :: "'a::len word" where "CELL_ECANCELED \<equiv> 0x80010013"
abbreviation CELL_EEXIST :: "'a::len word" where "CELL_EEXIST \<equiv> 0x80010014"
abbreviation CELL_EISCONN :: "'a::len word" where "CELL_EISCONN \<equiv> 0x80010015"
abbreviation CELL_ENOTCONN :: "'a::len word" where "CELL_ENOTCONN \<equiv> 0x80010016"

type_synonym error_code = u32

section \<open>Options and lists\<close>

lemma option_eqI: "(\<And>q. x = Some q \<longleftrightarrow> y = Some q) \<Longrightarrow> x = y"
  by (cases x; cases y) auto

lemma sorted_map_remove1: "sorted (map f xs) \<Longrightarrow> sorted (map f (remove1 x xs))"
proof (induction xs)
  case (Cons y ys)
  then show ?case using set_remove1_subset [of x ys] by auto
qed simp

lemma length_remove1_in: "x \<in> set xs \<Longrightarrow> Suc (length (remove1 x xs)) = length xs"
  by (induction xs) auto

lemma remove1_last: "distinct xs \<Longrightarrow> xs \<noteq> [] \<Longrightarrow> remove1 (last xs) xs = butlast xs"
proof (induction xs)
  case (Cons x xs)
  then show ?case by (cases "xs = []") auto
qed simp

lemma rev_remove1: "distinct xs \<Longrightarrow> rev (remove1 x xs) = remove1 x (rev xs)"
  by (simp add: distinct_remove1_removeAll removeAll_filter_not_eq rev_filter)

lemma card_distinct_bound:
  assumes "distinct xs" and "set xs \<subseteq> {a..<b::nat}"
  shows "length xs \<le> b - a"
proof -
  have "length xs = card (set xs)" using assms(1) by (simp add: distinct_card)
  also have "\<dots> \<le> card {a..<b}" using assms(2) by (intro card_mono) auto
  finally show ?thesis by simp
qed

lemma unat_inc: "(c :: u32) \<noteq> 0xffffffff \<Longrightarrow> unat (c + 1) = unat c + 1"
proof -
  assume c: "c \<noteq> 0xffffffff"
  have "1 + c \<noteq> 0"
  proof
    assume "1 + c = 0"
    then have "c = - 1" by (metis add.inverse_unique minus_minus)
    with c show False by simp
  qed
  then show ?thesis by (simp add: unatSuc add.commute)
qed

lemma unat_dec: "(c :: u32) \<noteq> 0 \<Longrightarrow> unat (c - 1) = unat c - 1"
  by (simp add: unat_minus_one)

end
