(* ===== verification/Lv2_Thread.thy ===== *)
theory Lv2_Thread
  imports Rpcsx_Prelude
begin

text \<open>
  The thread side of the lv2 kernel: the state flags of \<^verbatim>\<open>rpcs3/Emu/CPU/CPUThread.h\<close>, the part
  of \<^verbatim>\<open>ppu_thread\<close> (\<^verbatim>\<open>rpcs3/Emu/Cell/PPUThread.h\<close>) that the kernel reads and writes, and the
  global scheduler variables of \<^verbatim>\<open>kernel/cellos/src/lv2.cpp\<close> as one record. A thread is identified
  by its id; the class of a thread is the top byte of the id.
\<close>

section \<open>Thread flags\<close>

datatype cpu_flag =
    F_stop | F_exit | F_wait | F_temp | F_pause | F_suspend | F_ret | F_again | F_signal
  | F_memory | F_pending | F_pending_recheck | F_notify | F_yield | F_preempt
  | F_req_exit | F_dbg_global_pause | F_dbg_pause | F_dbg_step

definition is_stopped :: "cpu_flag set \<Rightarrow> bool" where
  "is_stopped st \<longleftrightarrow> F_stop \<in> st \<or> F_exit \<in> st \<or> F_again \<in> st \<or> F_req_exit \<in> st"

definition is_paused :: "cpu_flag set \<Rightarrow> bool" where
  "is_paused st \<longleftrightarrow>
     (F_suspend \<in> st \<or> F_dbg_global_pause \<in> st \<or> F_dbg_pause \<in> st) \<and> \<not> is_stopped st"

section \<open>Threads\<close>

type_synonym tid = nat

definition id_type :: "tid \<Rightarrow> nat" where
  "id_type t = t div 2 ^ 24"

definition is_ppu :: "tid \<Rightarrow> bool" where
  "is_ppu t \<longleftrightarrow> id_type t = 1"

definition is_spu :: "tid \<Rightarrow> bool" where
  "is_spu t \<longleftrightarrow> id_type t = 2"

text \<open>
  The priority word packs a signed 13-bit priority, a signed 50-bit enqueue order and one bit;
  storing into a bit field keeps its low bits.
\<close>

record ppu_prio_t =
  pr_prio :: int
  pr_order :: int
  preserve_bit :: bool

definition put_prio :: "int \<Rightarrow> ppu_prio_t \<Rightarrow> ppu_prio_t" where
  "put_prio v p = p\<lparr>pr_prio := signed_take_bit 12 v\<rparr>"

definition put_order :: "int \<Rightarrow> ppu_prio_t \<Rightarrow> ppu_prio_t" where
  "put_order v p = p\<lparr>pr_order := signed_take_bit 49 v\<rparr>"

record ppu_thread =
  prio :: ppu_prio_t
  state :: "cpu_flag set"
  gpr :: "nat \<Rightarrow> u64"
  ack_suspend :: bool
  cancel_sleep :: int
  start_time :: nat
  end_time :: nat
  raddr :: nat
  hw_sleep_time :: nat
  res_notify :: nat
  res_notify_postpone_streak :: nat

section \<open>Scheduler state\<close>

text \<open>
  The static members of \<^verbatim>\<open>lv2_obj\<close> and the file-static variables of \<^verbatim>\<open>lv2.cpp\<close>. The intrusive
  list \<open>g_ppu\<close> is the list of its elements (theory \<open>Lv2_Queue\<close> relates pointer lists to lists);
  \<open>to_notify\<close> collects the threads whose state word the host is asked to notify, through
  \<^verbatim>\<open>g_to_notify\<close> or directly. \<open>g_to_awake\<close> is thread-local in the code: it is filled and drained
  within one kernel operation, so one field serves the thread that is executing.
\<close>

record lv2 =
  ppus :: "tid \<Rightarrow> ppu_thread"
  g_ppu :: "tid list"
  g_pending :: nat
  g_waiting :: "(nat \<times> tid) list"
  g_to_sleep :: "tid list"
  g_to_awake :: "tid list"
  g_scheduler_ready :: bool
  g_priority_order_tag :: nat
  to_notify :: "tid list"
  s_yield_frequency :: nat
  s_max_allowed_yield_tsc :: nat
  s_last_yield_tsc :: nat
  g_lv2_preempts_taken :: nat
  rsx_yield :: bool
  cfg_ppu_threads :: nat
  cfg_all_timers :: bool

definition upd_ppu :: "tid \<Rightarrow> (ppu_thread \<Rightarrow> ppu_thread) \<Rightarrow> lv2 \<Rightarrow> lv2" where
  "upd_ppu t f s = s\<lparr>ppus := (ppus s)(t := f (ppus s t))\<rparr>"

definition add_flags :: "tid \<Rightarrow> cpu_flag set \<Rightarrow> lv2 \<Rightarrow> lv2" where
  "add_flags t F = upd_ppu t (\<lambda>p. p\<lparr>state := state p \<union> F\<rparr>)"

definition del_flags :: "tid \<Rightarrow> cpu_flag set \<Rightarrow> lv2 \<Rightarrow> lv2" where
  "del_flags t F = upd_ppu t (\<lambda>p. p\<lparr>state := state p - F\<rparr>)"

definition set_gpr :: "tid \<Rightarrow> nat \<Rightarrow> u64 \<Rightarrow> lv2 \<Rightarrow> lv2" where
  "set_gpr t r v = upd_ppu t (\<lambda>p. p\<lparr>gpr := (gpr p)(r := v)\<rparr>)"

abbreviation flags_of :: "lv2 \<Rightarrow> tid \<Rightarrow> cpu_flag set" where
  "flags_of s t \<equiv> state (ppus s t)"

abbreviation prio_of :: "lv2 \<Rightarrow> tid \<Rightarrow> int" where
  "prio_of s t \<equiv> pr_prio (prio (ppus s t))"

abbreviation order_of :: "lv2 \<Rightarrow> tid \<Rightarrow> int" where
  "order_of s t \<equiv> pr_order (prio (ppus s t))"

abbreviation gpr_of :: "lv2 \<Rightarrow> tid \<Rightarrow> nat \<Rightarrow> u64" where
  "gpr_of s t \<equiv> gpr (ppus s t)"

text \<open>A fresh thread and the scheduler variables at program start.\<close>

definition fresh_thread :: ppu_thread where
  "fresh_thread = \<lparr>prio = \<lparr>pr_prio = 0, pr_order = 0, preserve_bit = False\<rparr>, state = {F_stop, F_wait},
     gpr = (\<lambda>_. 0), ack_suspend = False, cancel_sleep = 0, start_time = 0, end_time = umax64,
     raddr = 0, hw_sleep_time = 0, res_notify = 0, res_notify_postpone_streak = 0\<rparr>"

definition lv2_boot :: "nat \<Rightarrow> lv2" where
  "lv2_boot hw_threads = \<lparr>ppus = (\<lambda>_. fresh_thread), g_ppu = [], g_pending = 0, g_waiting = [],
     g_to_sleep = [], g_to_awake = [], g_scheduler_ready = False, g_priority_order_tag = 0,
     to_notify = [], s_yield_frequency = 0, s_max_allowed_yield_tsc = 0, s_last_yield_tsc = 0,
     g_lv2_preempts_taken = 0, rsx_yield = False, cfg_ppu_threads = hw_threads,
     cfg_all_timers = False\<rparr>"

section \<open>Frame lemmas\<close>

lemma ppus_upd_ppu [simp]: "ppus (upd_ppu t f s) = (ppus s)(t := f (ppus s t))"
  by (simp add: upd_ppu_def)

lemma upd_ppu_frame [simp]:
  "g_ppu (upd_ppu t f s) = g_ppu s" "g_pending (upd_ppu t f s) = g_pending s"
  "g_waiting (upd_ppu t f s) = g_waiting s" "g_to_sleep (upd_ppu t f s) = g_to_sleep s"
  "g_to_awake (upd_ppu t f s) = g_to_awake s"
  "g_scheduler_ready (upd_ppu t f s) = g_scheduler_ready s"
  "g_priority_order_tag (upd_ppu t f s) = g_priority_order_tag s"
  "to_notify (upd_ppu t f s) = to_notify s"
  "s_yield_frequency (upd_ppu t f s) = s_yield_frequency s"
  "cfg_ppu_threads (upd_ppu t f s) = cfg_ppu_threads s"
  "cfg_all_timers (upd_ppu t f s) = cfg_all_timers s"
  by (simp_all add: upd_ppu_def)

lemmas flag_defs = add_flags_def del_flags_def set_gpr_def

lemma ppu_ids_bound:
  assumes "distinct xs" and "\<forall>t\<in>set xs. is_ppu t"
  shows "length xs \<le> 2 ^ 24"
proof -
  have "t div 2 ^ 24 = 1 \<Longrightarrow> 2 ^ 24 \<le> t \<and> t < 2 ^ 25" for t :: nat
    using div_mult_mod_eq [of t "2 ^ 24"] mod_less_divisor [of "2 ^ 24" t] by simp
  then have "set xs \<subseteq> {2 ^ 24..<2 ^ 25}"
    using assms(2) by (auto simp: is_ppu_def id_type_def)
  with assms(1) have "length xs \<le> 2 ^ 25 - 2 ^ 24" by (rule card_distinct_bound)
  then show ?thesis by simp
qed

lemma ppu_ids_small: "distinct xs \<Longrightarrow> \<forall>t\<in>set xs. is_ppu t \<Longrightarrow> length xs < 2 ^ 32"
  using ppu_ids_bound [of xs] by simp

lemma is_ppu_pos: "is_ppu t \<Longrightarrow> 0 < t"
  by (cases t) (auto simp: is_ppu_def id_type_def)

lemma is_ppu_range: "is_ppu t \<longleftrightarrow> 0x1000000 \<le> t \<and> t < 0x2000000"
proof -
  have "t div 0x1000000 = 1 \<longleftrightarrow> 0x1000000 \<le> t \<and> t < 0x2000000" by auto
  then show ?thesis by (simp add: is_ppu_def id_type_def)
qed

end
