(* ===== verification/Lv2_Queue.thy ===== *)
theory Lv2_Queue
  imports Lv2_Thread
begin

text \<open>
  Intrusive waiter lists of \<^verbatim>\<open>kernel/cellos/include/cellos/sys_sync.h\<close>: \<^verbatim>\<open>lv2_obj::unqueue\<close>,
  \<^verbatim>\<open>lv2_obj::schedule\<close> and \<^verbatim>\<open>lv2_obj::emplace\<close>. They are modelled twice: on a heap of
  \<^verbatim>\<open>next_cpu\<close> pointers, statement by statement (suffix \<open>_ptr\<close>; a walk over a cyclic list does not
  return, hence \<open>option\<close>), and on lists. The refinement lemmas show that the pointer programs return
  on every well-formed list and compute the list functions, which the kernel objects then use. The
  locale \<open>sleep_queue\<close> is the contract the kernel objects rely on; it is interpreted for both.
\<close>

section \<open>Protocols\<close>

abbreviation SYS_SYNC_FIFO :: u32 where "SYS_SYNC_FIFO \<equiv> 1"
abbreviation SYS_SYNC_PRIORITY :: u32 where "SYS_SYNC_PRIORITY \<equiv> 2"
abbreviation SYS_SYNC_PRIORITY_INHERIT :: u32 where "SYS_SYNC_PRIORITY_INHERIT \<equiv> 3"
abbreviation SYS_SYNC_RETRY :: u32 where "SYS_SYNC_RETRY \<equiv> 4"

definition prio_before :: "ppu_prio_t \<Rightarrow> ppu_prio_t \<Rightarrow> bool" where
  "prio_before p q \<longleftrightarrow>
     pr_prio p < pr_prio q \<or> (pr_prio p = pr_prio q \<and> pr_order p < pr_order q)"

section \<open>Queues as lists\<close>

definition unqueue :: "tid list \<Rightarrow> tid \<Rightarrow> tid option \<times> tid list" where
  "unqueue xs x = (if x \<in> set xs then (Some x, remove1 x xs) else (None, xs))"

fun sched_best :: "(tid \<Rightarrow> ppu_prio_t) \<Rightarrow> tid \<Rightarrow> tid list \<Rightarrow> tid" where
  "sched_best pr b [] = b"
| "sched_best pr b (x # xs) = sched_best pr (if prio_before (pr x) (pr b) then x else b) xs"

definition sched_pick :: "(tid \<Rightarrow> ppu_thread) \<Rightarrow> u32 \<Rightarrow> tid list \<Rightarrow> tid" where
  "sched_pick thr protocol xs =
     (if protocol = SYS_SYNC_FIFO then last xs
      else sched_best (\<lambda>t. prio (thr t)) (hd xs) (tl xs))"

definition schedule :: "(tid \<Rightarrow> ppu_thread) \<Rightarrow> u32 \<Rightarrow> tid list \<Rightarrow> tid option \<times> tid list" where
  "schedule thr protocol xs =
     (if xs = [] then (None, [])
      else let f = sched_pick thr protocol xs in
        (Some f, if F_again \<in> state (thr f) then xs else remove1 f xs))"

definition next_order_tag :: "lv2 \<Rightarrow> nat" where
  "next_order_tag s = (g_priority_order_tag s + 1) mod 2 ^ 64"

definition stamp_order :: "tid \<Rightarrow> lv2 \<Rightarrow> lv2" where
  "stamp_order t s =
     upd_ppu t (\<lambda>p. p\<lparr>prio := put_order (int (next_order_tag s)) (prio p)\<rparr>)
       (s\<lparr>g_priority_order_tag := next_order_tag s\<rparr>)"

definition emplace :: "tid \<Rightarrow> tid list \<Rightarrow> lv2 \<Rightarrow> tid list \<times> lv2" where
  "emplace t xs s =
     (t # xs,
      if preserve_bit (prio (ppus s t))
      then upd_ppu t (\<lambda>p. p\<lparr>prio := (prio p)\<lparr>preserve_bit := False\<rparr>\<rparr>)
             (s\<lparr>g_priority_order_tag := next_order_tag s\<rparr>)
      else stamp_order t s)"

section \<open>Queues as pointer lists\<close>

type_synonym heap = "tid \<Rightarrow> tid option"

partial_function (option) unqueue_walk ::
    "bool \<Rightarrow> heap \<Rightarrow> tid option \<Rightarrow> tid \<Rightarrow> (tid option \<times> heap) option" where
  "unqueue_walk modify h it x =
     (case it of
        None \<Rightarrow> Some (None, h)
      | Some i \<Rightarrow>
          (if h i = Some x
           then let h1 = h(i := h x) in Some (Some x, if modify then h1(x := None) else h1)
           else unqueue_walk modify h (h i) x))"

definition unqueue_ptr ::
    "bool \<Rightarrow> heap \<Rightarrow> tid option \<Rightarrow> tid \<Rightarrow> (tid option \<times> tid option \<times> heap) option" where
  "unqueue_ptr modify h fst_p x =
     (if fst_p = Some x
      then Some (Some x, h x, if modify then h(x := None) else h)
      else map_option (\<lambda>(r, h'). (r, fst_p, h')) (unqueue_walk modify h fst_p x))"

text \<open>\<open>parent\<close> is the location \<^verbatim>\<open>parent_found\<close> points to: the head pointer (\<open>None\<close>) or a node's link.\<close>

definition write_link ::
    "tid option \<Rightarrow> tid option \<Rightarrow> tid option \<times> heap \<Rightarrow> tid option \<times> heap" where
  "write_link parent v fh =
     (case parent of None \<Rightarrow> (v, snd fh) | Some p \<Rightarrow> (fst fh, (snd fh)(p := v)))"

partial_function (option) sched_last_walk ::
    "heap \<Rightarrow> tid option \<Rightarrow> tid \<Rightarrow> (tid \<times> tid option) option" where
  "sched_last_walk h parent it =
     (case h it of None \<Rightarrow> Some (it, parent) | Some n \<Rightarrow> sched_last_walk h (Some it) n)"

partial_function (option) sched_prio_walk ::
    "heap \<Rightarrow> (tid \<Rightarrow> ppu_prio_t) \<Rightarrow> tid option \<Rightarrow> tid \<Rightarrow> tid \<Rightarrow> (tid \<times> tid option) option" where
  "sched_prio_walk h pr parent found it =
     (case h it of
        None \<Rightarrow> Some (found, parent)
      | Some n \<Rightarrow>
          (if prio_before (pr n) (pr found) then sched_prio_walk h pr (Some it) n n
           else sched_prio_walk h pr parent found n))"

definition schedule_ptr ::
    "(tid \<Rightarrow> ppu_thread) \<Rightarrow> u32 \<Rightarrow> bool \<Rightarrow> heap \<Rightarrow> tid option
      \<Rightarrow> (tid option \<times> tid option \<times> heap) option" where
  "schedule_ptr thr protocol modify h fst_p =
     (case fst_p of
        None \<Rightarrow> Some (None, None, h)
      | Some it \<Rightarrow>
          if protocol = SYS_SYNC_FIFO then
            map_option
              (\<lambda>(f, parent).
                 let (fst', h') =
                   (if F_again \<in> state (thr f) then (fst_p, h) else write_link parent None (fst_p, h))
                 in (Some f, fst', h'))
              (sched_last_walk h None it)
          else
            map_option
              (\<lambda>(f, parent).
                 let (fst', h') =
                   (if F_again \<in> state (thr f) then (fst_p, h)
                    else let (f1, h1) = write_link parent (h f) (fst_p, h)
                         in (f1, if modify then h1(f := None) else h1))
                 in (Some f, fst', h'))
              (sched_prio_walk h (\<lambda>t. prio (thr t)) None it it))"

definition emplace_ptr :: "tid \<Rightarrow> heap \<Rightarrow> tid option \<Rightarrow> tid option \<times> heap" where
  "emplace_ptr t h fst_p = (Some t, h(t := fst_p))"

section \<open>Pointer lists represent lists\<close>

fun lseg :: "heap \<Rightarrow> tid option \<Rightarrow> tid list \<Rightarrow> bool" where
  "lseg h p [] \<longleftrightarrow> p = None"
| "lseg h p (x # xs) \<longleftrightarrow> p = Some x \<and> lseg h (h x) xs"

fun linked :: "heap \<Rightarrow> tid option \<Rightarrow> tid list \<Rightarrow> tid option \<Rightarrow> bool" where
  "linked h p [] q \<longleftrightarrow> p = q"
| "linked h p (x # xs) q \<longleftrightarrow> p = Some x \<and> linked h (h x) xs q"

lemma lseg_append: "lseg h p (xs @ ys) \<longleftrightarrow> (\<exists>q. linked h p xs q \<and> lseg h q ys)"
  by (induction xs arbitrary: p) auto

lemma lseg_unique: "lseg h p xs \<Longrightarrow> lseg h p ys \<Longrightarrow> xs = ys"
proof (induction xs arbitrary: p ys)
  case Nil
  then show ?case by (cases ys) auto
next
  case (Cons x xs)
  then show ?case by (cases ys) auto
qed

lemma lseg_suffix: "lseg h p (xs @ x # ys) \<Longrightarrow> lseg h (Some x) (x # ys)"
  by (auto simp: lseg_append)

lemma lseg_not_in_tail: "lseg h (h x) xs \<Longrightarrow> x \<notin> set xs"
proof
  assume l: "lseg h (h x) xs" and "x \<in> set xs"
  then obtain ys zs where xs: "xs = ys @ x # zs" by (auto simp: in_set_conv_decomp)
  with l have "lseg h (h x) zs" by (auto dest: lseg_suffix)
  with l have "xs = zs" by (rule lseg_unique)
  with xs show False by simp
qed

lemma lseg_distinct: "lseg h p xs \<Longrightarrow> distinct xs"
  by (induction xs arbitrary: p) (auto dest: lseg_not_in_tail)

lemma lseg_upd [simp]: "y \<notin> set xs \<Longrightarrow> lseg (h(y := v)) p xs = lseg h p xs"
  by (induction xs arbitrary: p) auto

lemma linked_upd [simp]: "y \<notin> set xs \<Longrightarrow> linked (h(y := v)) p xs q = linked h p xs q"
  by (induction xs arbitrary: p) auto

lemma linked_snoc: "linked h p (xs @ [x]) q \<longleftrightarrow> linked h p xs (Some x) \<and> h x = q"
  by (induction xs arbitrary: p) auto

text \<open>\<open>parent\<close> is the link that leads from \<open>pre\<close> to what follows it.\<close>

definition parent_of :: "tid list \<Rightarrow> tid option" where
  "parent_of pre = (if pre = [] then None else Some (last pre))"

lemma parent_of_snoc [simp]: "parent_of (pre @ [x]) = Some x"
  by (simp add: parent_of_def)

lemma write_link_removes:
  assumes l: "lseg h p (pre @ x # post)" and w: "write_link (parent_of pre) (h x) (p, h) = (p', h')"
  shows "lseg h' p' (pre @ post) \<and> (\<forall>y. y \<notin> set pre \<longrightarrow> h' y = h y)"
proof (cases pre rule: rev_cases)
  case Nil
  with l w show ?thesis by (auto simp: parent_of_def write_link_def)
next
  case (snoc qs q)
  from l have d: "distinct (pre @ x # post)" by (rule lseg_distinct)
  from w snoc have p': "p' = p" and h': "h' = h(q := h x)"
    by (simp_all add: write_link_def)
  from l snoc have "linked h p qs (Some q)" "lseg h (h x) post"
    by (auto simp: lseg_append linked_snoc)
  with d snoc have "linked h' p qs (Some q)" "h' q = h x" "lseg h' (h x) post"
    by (auto simp: h')
  then have "lseg h' p (pre @ post)" using snoc by (auto simp: lseg_append linked_snoc)
  then show ?thesis using p' h' snoc by auto
qed


section \<open>The walks return\<close>

lemma unqueue_walk_none:
  "lseg h p xs \<Longrightarrow> x \<notin> set (tl xs) \<Longrightarrow> unqueue_walk m h p x = Some (None, h)"
proof (induction xs arbitrary: p)
  case Nil
  then show ?case by (simp add: unqueue_walk.simps)
next
  case (Cons y ys)
  show ?case
  proof (cases ys)
    case Nil
    with Cons.prems show ?thesis by (simp add: unqueue_walk.simps)
  next
    case (Cons z zs)
    with Cons.prems have "h y = Some z" "z \<noteq> x" "lseg h (h y) ys" "x \<notin> set (tl ys)" by auto
    then show ?thesis
      using Cons.IH [of "h y"] Cons.prems(1) by (subst unqueue_walk.simps) simp
  qed
qed

lemma unqueue_walk_some:
  "lseg h p (pre @ q # x # post) \<Longrightarrow>
   unqueue_walk m h p x =
     Some (Some x, let h1 = h(q := h x) in if m then h1(x := None) else h1)"
proof (induction pre arbitrary: p)
  case Nil
  then show ?case by (auto simp: unqueue_walk.simps Let_def)
next
  case (Cons y ys)
  from Cons.prems have l: "lseg h (h y) (ys @ q # x # post)" and p: "p = Some y" by auto
  from Cons.prems have "distinct (y # ys @ q # x # post)" by (metis append_Cons lseg_distinct)
  with l have "h y \<noteq> Some x" by (cases ys) auto
  with Cons.IH [OF l] p show ?case by (subst unqueue_walk.simps) (simp add: Let_def fun_upd_def)
qed

lemma sched_last_walk_returns:
  "lseg h p (pre @ it # post) \<Longrightarrow>
   \<exists>qs. pre @ it # post = qs @ [last (it # post)] \<and>
     sched_last_walk h (parent_of pre) it = Some (last (it # post), parent_of qs)"
proof (induction post arbitrary: pre it)
  case Nil
  then have "lseg h (Some it) [it]" by (auto dest: lseg_suffix)
  then have "sched_last_walk h (parent_of pre) it = Some (it, parent_of pre)"
    by (simp add: sched_last_walk.simps)
  then show ?case by auto
next
  case (Cons n post)
  from Cons.prems have "lseg h (Some it) (it # n # post)" by (rule lseg_suffix)
  then have "h it = Some n" by simp
  then have step: "sched_last_walk h (parent_of pre) it = sched_last_walk h (parent_of (pre @ [it])) n"
    by (simp add: sched_last_walk.simps [of h "parent_of pre"])
  from Cons.prems have "lseg h p ((pre @ [it]) @ n # post)" by simp
  from Cons.IH [OF this] obtain qs
    where "(pre @ [it]) @ n # post = qs @ [last (n # post)]"
      "sched_last_walk h (parent_of (pre @ [it])) n = Some (last (n # post), parent_of qs)" by blast
  with step show ?case by auto
qed

lemma sched_prio_walk_returns:
  "lseg h p (pre @ f # mid @ it # post) \<or> (lseg h p (pre @ it # post) \<and> f = it \<and> mid = []) \<Longrightarrow>
   \<exists>qs rs. (if f = it then pre @ it # post else pre @ f # mid @ it # post) =
       qs @ sched_best pr f post # rs \<and>
     sched_prio_walk h pr (parent_of pre) f it = Some (sched_best pr f post, parent_of qs)"
proof (induction post arbitrary: pre f mid it)
  case Nil
  then have "lseg h (Some it) [it]"
    by (metis append.assoc append_Cons lseg_suffix)
  then have "sched_prio_walk h pr (parent_of pre) f it = Some (f, parent_of pre)"
    by (simp add: sched_prio_walk.simps)
  then show ?case by auto
next
  case (Cons n post)
  let ?xs = "if f = it then pre @ it # n # post else pre @ f # mid @ it # n # post"
  have "f \<noteq> it" if "lseg h p (pre @ f # mid @ it # n # post)"
    using lseg_distinct [OF that] by auto
  with Cons.prems have lx: "lseg h p ?xs" and m: "f = it \<Longrightarrow> mid = []" by auto
  obtain us where us: "?xs = us @ it # n # post" by (cases "f = it") auto
  with lx have "lseg h (Some it) (it # n # post)" by (metis lseg_suffix)
  then have hit: "h it = Some n" by simp
  have dx: "distinct ?xs" by (rule lseg_distinct [OF lx])
  show ?case
  proof (cases "prio_before (pr n) (pr f)")
    case True
    have st: "sched_prio_walk h pr (parent_of pre) f it
        = sched_prio_walk h pr (parent_of (us @ [it])) n n"
      using True hit by (simp add: sched_prio_walk.simps [of h pr "parent_of pre"])
    have "lseg h p ((us @ [it]) @ n # post)" using lx us by simp
    from Cons.IH [of "us @ [it]" n "[]" n] this obtain qs rs where
      "(us @ [it]) @ n # post = qs @ sched_best pr n post # rs"
      "sched_prio_walk h pr (parent_of (us @ [it])) n n = Some (sched_best pr n post, parent_of qs)"
      by auto
    with st True us show ?thesis by auto
  next
    case False
    have st: "sched_prio_walk h pr (parent_of pre) f it = sched_prio_walk h pr (parent_of pre) f n"
      using False hit by (simp add: sched_prio_walk.simps [of h pr "parent_of pre"])
    define mid' where "mid' = (if f = it then [] else mid @ [it])"
    have xs': "?xs = pre @ f # mid' @ n # post" by (simp add: mid'_def)
    with lx have "lseg h p (pre @ f # mid' @ n # post)" by simp
    moreover have "f \<noteq> n" using dx xs' by auto
    ultimately obtain qs rs where
      "pre @ f # mid' @ n # post = qs @ sched_best pr f post # rs"
      "sched_prio_walk h pr (parent_of pre) f n = Some (sched_best pr f post, parent_of qs)"
      using Cons.IH [of pre f mid' n] by auto
    with st False xs' show ?thesis by auto
  qed
qed


section \<open>Refinement\<close>

lemma lseg_drop_node: "lseg h p xs \<Longrightarrow> x \<notin> set xs \<Longrightarrow> lseg (if m then h(x := v) else h) p xs"
  by simp

theorem unqueue_ptr_refines:
  assumes l: "lseg h p xs"
  shows "\<exists>p' h'. unqueue_ptr m h p x = Some (fst (unqueue xs x), p', h')
     \<and> lseg h' p' (snd (unqueue xs x))
     \<and> (\<forall>y. y \<notin> set xs \<longrightarrow> h' y = h y) \<and> (m \<and> x \<in> set xs \<longrightarrow> h' x = None)"
proof (cases "x \<in> set xs")
  case False
  with l have "p \<noteq> Some x" by (cases xs) auto
  moreover from False have "x \<notin> set (tl xs)" by (cases xs) auto
  ultimately show ?thesis
    using l False by (simp add: unqueue_ptr_def unqueue_walk_none unqueue_def)
next
  case True
  then obtain pre post where xs: "xs = pre @ x # post" by (auto simp: in_set_conv_decomp)
  have d: "distinct xs" by (rule lseg_distinct [OF l])
  with xs have un: "unqueue xs x = (Some x, pre @ post)"
    by (simp add: unqueue_def remove1_append)
  show ?thesis
  proof (cases pre rule: rev_cases)
    case Nil
    with l xs d un show ?thesis by (auto simp: unqueue_ptr_def)
  next
    case (snoc qs q)
    with l xs have l': "lseg h p (qs @ q # x # post)" by simp
    define h1 where "h1 = h(q := h x)"
    have "write_link (parent_of pre) (h x) (p, h) = (p, h1)"
      using snoc by (simp add: write_link_def h1_def)
    from write_link_removes [OF l [unfolded xs] this]
    have r: "lseg h1 p (pre @ post)" "\<forall>y. y \<notin> set pre \<longrightarrow> h1 y = h y" by auto
    from d xs have x: "x \<notin> set (pre @ post)" by auto
    have "p \<noteq> Some x" using l' d xs snoc by (cases qs) auto
    then have "unqueue_ptr m h p x = Some (Some x, p, if m then h1(x := None) else h1)"
      using unqueue_walk_some [OF l', of m] by (simp add: unqueue_ptr_def h1_def Let_def)
    with r x un xs show ?thesis by auto
  qed
qed

lemma sched_best_in: "sched_best pr b xs \<in> insert b (set xs)"
proof (induction xs arbitrary: b)
  case (Cons x xs)
  from Cons [of x] Cons [of b] show ?case by auto
qed simp

lemma sched_pick_in: "xs \<noteq> [] \<Longrightarrow> sched_pick thr prot xs \<in> set xs"
  using sched_best_in [of "\<lambda>t. prio (thr t)" "hd xs" "tl xs"]
  by (cases xs) (auto simp: sched_pick_def)

theorem schedule_ptr_refines:
  assumes l: "lseg h p xs"
  shows "\<exists>p' h'. schedule_ptr thr prot m h p = Some (fst (schedule thr prot xs), p', h')
     \<and> lseg h' p' (snd (schedule thr prot xs)) \<and> (\<forall>y. y \<notin> set xs \<longrightarrow> h' y = h y)"
proof (cases xs)
  case Nil
  with l show ?thesis by (simp add: schedule_ptr_def schedule_def)
next
  case (Cons it post)
  with l have p: "p = Some it" by simp
  have d: "distinct xs" by (rule lseg_distinct [OF l])
  define f where "f = sched_pick thr prot xs"
  have sch: "schedule thr prot xs = (Some f, if F_again \<in> state (thr f) then xs else remove1 f xs)"
    using Cons by (simp add: schedule_def f_def Let_def)
  have found: "\<exists>qs rs. xs = qs @ f # rs \<and>
     (if prot = SYS_SYNC_FIFO then sched_last_walk h None it
      else sched_prio_walk h (\<lambda>t. prio (thr t)) None it it) = Some (f, parent_of qs)
     \<and> (prot = SYS_SYNC_FIFO \<longrightarrow> rs = [])"
  proof (cases "prot = SYS_SYNC_FIFO")
    case True
    with sched_last_walk_returns [of h p "[]" it post] l Cons show ?thesis
      by (auto simp: parent_of_def f_def sched_pick_def)
  next
    case False
    with sched_prio_walk_returns [of h p "[]" it "[]" it post "\<lambda>t. prio (thr t)"] l Cons
    show ?thesis by (auto simp: parent_of_def f_def sched_pick_def)
  qed
  then obtain qs rs where xs: "xs = qs @ f # rs"
    and w: "(if prot = SYS_SYNC_FIFO then sched_last_walk h None it
      else sched_prio_walk h (\<lambda>t. prio (thr t)) None it it) = Some (f, parent_of qs)"
    and rs: "prot = SYS_SYNC_FIFO \<longrightarrow> rs = []" by blast
  have rm: "remove1 f xs = qs @ rs" using xs d by (simp add: remove1_append)
  obtain p1 h1 where wl: "write_link (parent_of qs) (h f) (p, h) = (p1, h1)" by fastforce
  from write_link_removes [OF l [unfolded xs] wl]
  have r: "lseg h1 p1 (qs @ rs)" "\<forall>y. y \<notin> set qs \<longrightarrow> h1 y = h y" by auto
  have fn: "f \<notin> set (qs @ rs)" using xs d by auto
  have hf: "prot = SYS_SYNC_FIFO \<longrightarrow> h f = None"
    using rs l xs by (auto dest: lseg_suffix)
  show ?thesis
  proof (cases "F_again \<in> state (thr f)")
    case True
    with w l p sch show ?thesis by (auto simp: schedule_ptr_def split: if_splits)
  next
    case False
    define h2 where "h2 = (if m \<and> prot \<noteq> SYS_SYNC_FIFO then h1(f := None) else h1)"
    have "schedule_ptr thr prot m h p = Some (Some f, p1, h2)"
      using w wl hf False p by (auto simp: schedule_ptr_def h2_def split: if_splits)
    moreover have "lseg h2 p1 (qs @ rs)" using r(1) fn by (simp add: h2_def)
    moreover have "\<forall>y. y \<notin> set xs \<longrightarrow> h2 y = h y" using r(2) xs by (auto simp: h2_def)
    ultimately show ?thesis using sch False rm by auto
  qed
qed

lemma emplace_ptr_refines:
  "lseg h p xs \<Longrightarrow> t \<notin> set xs \<Longrightarrow> lseg (snd (emplace_ptr t h p)) (fst (emplace_ptr t h p)) (t # xs)"
  by (simp add: emplace_ptr_def)


section \<open>Which waiter is selected\<close>

lemma prio_before_trans: "prio_before a b \<Longrightarrow> prio_before b c \<Longrightarrow> prio_before a c"
  by (auto simp: prio_before_def)

lemma prio_before_irrefl [simp]: "\<not> prio_before a a"
  by (simp add: prio_before_def)

lemma prio_before_linear: "\<not> prio_before a b \<Longrightarrow> prio_before c b \<Longrightarrow> prio_before c a"
  by (auto simp: prio_before_def)

lemma sched_best_minimal: "y \<in> insert b (set xs) \<Longrightarrow> \<not> prio_before (pr y) (pr (sched_best pr b xs))"
proof (induction xs arbitrary: b y)
  case Nil
  then show ?case by simp
next
  case (Cons x xs)
  let ?b = "if prio_before (pr x) (pr b) then x else b"
  have all: "z \<in> insert ?b (set xs) \<Longrightarrow> \<not> prio_before (pr z) (pr (sched_best pr ?b xs))" for z
    using Cons.IH [of z ?b] by simp
  show ?case
  proof (cases "y \<in> insert ?b (set xs)")
    case True
    with all show ?thesis by simp
  next
    case False
    with Cons.prems have y: "\<not> prio_before (pr y) (pr ?b)"
      using prio_before_trans [of "pr b" "pr x" "pr b"] by (auto split: if_splits)
    have "\<not> prio_before (pr ?b) (pr (sched_best pr ?b xs))" using all by blast
    with y have "\<not> prio_before (pr y) (pr (sched_best pr ?b xs))"
      using prio_before_linear by blast
    then show ?thesis by simp
  qed
qed

text \<open>Selection and removal, in the form the kernel objects use.\<close>

lemma schedule_None [simp]: "fst (schedule thr prot xs) = None \<longleftrightarrow> xs = []"
  by (simp add: schedule_def Let_def)

lemma schedule_Nil [simp]: "schedule thr prot [] = (None, [])"
  by (simp add: schedule_def)

lemma schedule_Some:
  assumes "schedule thr prot xs = (Some f, ys)" and "F_again \<notin> state (thr f)"
  shows "f \<in> set xs \<and> ys = remove1 f xs \<and> f = sched_pick thr prot xs"
  using assms sched_pick_in [of xs thr prot]
  by (auto simp: schedule_def Let_def split: if_splits)

lemma schedule_again:
  assumes "schedule thr prot xs = (Some f, ys)" and "F_again \<in> state (thr f)"
  shows "f \<in> set xs \<and> ys = xs"
  using assms sched_pick_in [of xs thr prot]
  by (auto simp: schedule_def Let_def split: if_splits)

lemma schedule_set: "schedule thr prot xs = (r, ys) \<Longrightarrow> set ys \<subseteq> set xs"
  using set_remove1_subset [of _ xs] by (auto simp: schedule_def Let_def split: if_splits)

lemma schedule_distinct: "distinct xs \<Longrightarrow> schedule thr prot xs = (r, ys) \<Longrightarrow> distinct ys"
  by (auto simp: schedule_def Let_def split: if_splits)

lemma schedule_cong:
  assumes "\<And>t. t \<in> set xs \<Longrightarrow> prio (thr t) = prio (thr' t) \<and> (F_again \<in> state (thr t) \<longleftrightarrow> F_again \<in> state (thr' t))"
  shows "schedule thr prot xs = schedule thr' prot xs"
proof -
  have best: "(\<And>t. t \<in> insert b (set ys) \<Longrightarrow> pr t = pr' t) \<Longrightarrow> sched_best pr b ys = sched_best pr' b ys"
    for b ys and pr pr' :: "tid \<Rightarrow> ppu_prio_t"
    by (induction ys arbitrary: b) auto
  have "sched_pick thr prot xs = sched_pick thr' prot xs" if "xs \<noteq> []"
    using that assms by (cases xs) (auto simp: sched_pick_def intro: best)
  then show ?thesis using assms sched_pick_in [of xs thr prot] by (auto simp: schedule_def Let_def)
qed

lemma unqueue_Some_iff [simp]: "fst (unqueue xs x) = Some y \<longleftrightarrow> y = x \<and> x \<in> set xs"
  by (auto simp: unqueue_def)

lemma unqueue_None_iff [simp]: "fst (unqueue xs x) = None \<longleftrightarrow> x \<notin> set xs"
  by (auto simp: unqueue_def)

section \<open>The queue contract\<close>

text \<open>
  What a kernel object needs of its waiter queue: pushing a thread, removing a given thread, and
  taking the thread that waited longest. \<open>rep q xs\<close> says that \<open>q\<close> holds the waiters \<open>xs\<close>, most
  recent first; \<open>ok t\<close> that \<open>t\<close> may be taken (it is not restarting its system call).
\<close>

fun push_all :: "(tid \<Rightarrow> 'q \<Rightarrow> 'q) \<Rightarrow> tid list \<Rightarrow> 'q \<Rightarrow> 'q" where
  "push_all push [] q = q"
| "push_all push (t # ts) q = push_all push ts (push t q)"

fun drain :: "('q \<Rightarrow> (tid option \<times> 'q) option) \<Rightarrow> nat \<Rightarrow> 'q \<Rightarrow> tid list option" where
  "drain take_oldest 0 q = Some []"
| "drain take_oldest (Suc n) q =
     (case take_oldest q of
        None \<Rightarrow> None
      | Some (None, q') \<Rightarrow> Some []
      | Some (Some t, q') \<Rightarrow> map_option (\<lambda>ts. t # ts) (drain take_oldest n q'))"

locale sleep_queue =
  fixes ok :: "tid \<Rightarrow> bool"
    and rep :: "'q \<Rightarrow> tid list \<Rightarrow> bool"
    and push :: "tid \<Rightarrow> 'q \<Rightarrow> 'q"
    and take_out :: "tid \<Rightarrow> 'q \<Rightarrow> (bool \<times> 'q) option"
    and take_oldest :: "'q \<Rightarrow> (tid option \<times> 'q) option"
  assumes rep_distinct: "rep q xs \<Longrightarrow> distinct xs"
    and rep_push: "rep q xs \<Longrightarrow> ok t \<Longrightarrow> t \<notin> set xs \<Longrightarrow> rep (push t q) (t # xs)"
    and rep_take_out: "rep q xs \<Longrightarrow>
      \<exists>q'. take_out t q = Some (t \<in> set xs, q') \<and> rep q' (remove1 t xs)"
    and rep_take_none: "rep q [] \<Longrightarrow> \<exists>q'. take_oldest q = Some (None, q') \<and> rep q' []"
    and rep_take_oldest: "rep q (xs @ [x]) \<Longrightarrow> \<exists>q'. take_oldest q = Some (Some x, q') \<and> rep q' xs"
begin

lemma rep_push_all:
  "rep q xs \<Longrightarrow> distinct ts \<Longrightarrow> set ts \<inter> set xs = {} \<Longrightarrow> \<forall>t\<in>set ts. ok t
    \<Longrightarrow> rep (push_all push ts q) (rev ts @ xs)"
proof (induction ts arbitrary: q xs)
  case (Cons t ts)
  then have "rep (push t q) (t # xs)" by (auto intro: rep_push)
  moreover from Cons.prems have "distinct ts" "set ts \<inter> set (t # xs) = {}" "\<forall>t\<in>set ts. ok t" by auto
  ultimately have "rep (push_all push ts (push t q)) (rev ts @ t # xs)" by (rule Cons.IH)
  then show ?case by simp
qed simp

lemma drain_returns: "rep q xs \<Longrightarrow> length xs \<le> n \<Longrightarrow> drain take_oldest n q = Some (rev xs)"
proof (induction n arbitrary: q xs)
  case (Suc n)
  show ?case
  proof (cases xs rule: rev_cases)
    case Nil
    with Suc.prems rep_take_none [of q] show ?thesis by auto
  next
    case (snoc ys y)
    with Suc.prems rep_take_oldest [of q ys y] obtain q'
      where "take_oldest q = Some (Some y, q')" "rep q' ys" by auto
    with Suc.IH [of q' ys] Suc.prems snoc show ?thesis by simp
  qed
qed simp

text \<open>
  Waiters leave in the order in which they arrived, and a waiter that leaves on its own does not
  disturb the order of the others.
\<close>

lemma drain_take_out:
  assumes "rep q []" and "distinct ts" and "\<forall>t\<in>set ts. ok t"
  shows "drain take_oldest (length ts) (push_all push ts q) = Some ts
    \<and> (\<exists>q'. take_out t (push_all push ts q) = Some (t \<in> set ts, q')
          \<and> drain take_oldest (length ts) q' = Some (remove1 t ts))"
proof -
  have r: "rep (push_all push ts q) (rev ts)" using rep_push_all [OF assms(1,2)] assms(3) by simp
  from rep_take_out [OF this, of t] obtain q'
    where q': "take_out t (push_all push ts q) = Some (t \<in> set ts, q')" "rep q' (remove1 t (rev ts))"
    by auto
  have "rev (remove1 t (rev ts)) = remove1 t ts"
    using assms(2) by (simp add: rev_remove1)
  moreover have "length (remove1 t (rev ts)) \<le> length ts" by (simp add: length_remove1)
  ultimately show ?thesis using drain_returns [OF q'(2)] q'(1) drain_returns [OF r] by auto
qed

end

text \<open>The code's pointer lists satisfy the contract; so do the lists of the model.\<close>

definition ptr_push :: "tid \<Rightarrow> tid option \<times> heap \<Rightarrow> tid option \<times> heap" where
  "ptr_push t q = emplace_ptr t (snd q) (fst q)"

definition ptr_take_out :: "tid \<Rightarrow> tid option \<times> heap \<Rightarrow> (bool \<times> tid option \<times> heap) option" where
  "ptr_take_out t q = map_option (\<lambda>(r, q'). (r \<noteq> None, q')) (unqueue_ptr True (snd q) (fst q) t)"

definition ptr_take_oldest ::
    "(tid \<Rightarrow> ppu_thread) \<Rightarrow> tid option \<times> heap \<Rightarrow> (tid option \<times> tid option \<times> heap) option" where
  "ptr_take_oldest thr q = schedule_ptr thr SYS_SYNC_FIFO True (snd q) (fst q)"


definition ptr_rep :: "(tid \<Rightarrow> ppu_thread) \<Rightarrow> tid option \<times> heap \<Rightarrow> tid list \<Rightarrow> bool" where
  "ptr_rep thr q xs \<longleftrightarrow> lseg (snd q) (fst q) xs \<and> (\<forall>x\<in>set xs. F_again \<notin> state (thr x))"

definition list_take_out :: "tid \<Rightarrow> tid list \<Rightarrow> (bool \<times> tid list) option" where
  "list_take_out t xs = (case unqueue xs t of (r, ys) \<Rightarrow> Some (r \<noteq> None, ys))"

definition list_rep :: "(tid \<Rightarrow> ppu_thread) \<Rightarrow> tid list \<Rightarrow> tid list \<Rightarrow> bool" where
  "list_rep thr q xs \<longleftrightarrow> q = xs \<and> distinct xs \<and> (\<forall>x\<in>set xs. F_again \<notin> state (thr x))"

lemma schedule_fifo_snoc:
  assumes "distinct (xs @ [x])" and "F_again \<notin> state (thr x)"
  shows "schedule thr SYS_SYNC_FIFO (xs @ [x]) = (Some x, xs)"
  using assms by (simp add: schedule_def sched_pick_def Let_def remove1_append)

interpretation ptr_q: sleep_queue "\<lambda>t. F_again \<notin> state (thr t)" "ptr_rep thr"
  ptr_push ptr_take_out "ptr_take_oldest thr" for thr
proof (unfold_locales, goal_cases)
  case (1 q xs)
  then show ?case by (auto simp: ptr_rep_def dest: lseg_distinct)
next
  case (2 q xs t)
  then show ?case using emplace_ptr_refines [of "snd q" "fst q" xs t]
    by (auto simp: ptr_rep_def ptr_push_def)
next
  case (3 q xs t)
  then have l: "lseg (snd q) (fst q) xs" and a: "\<forall>x\<in>set xs. F_again \<notin> state (thr x)"
    by (auto simp: ptr_rep_def)
  from unqueue_ptr_refines [OF l, of True t] obtain p' h'
    where "unqueue_ptr True (snd q) (fst q) t = Some (fst (unqueue xs t), p', h')"
      "lseg h' p' (snd (unqueue xs t))" by blast
  moreover have "snd (unqueue xs t) = remove1 t xs" by (simp add: unqueue_def remove1_idem)
  moreover have "fst (unqueue xs t) \<noteq> None \<longleftrightarrow> t \<in> set xs" by (simp add: unqueue_def)
  ultimately show ?case
    using a set_remove1_subset [of t xs] by (auto simp: ptr_take_out_def ptr_rep_def)
next
  case (4 q)
  then show ?case
    using schedule_ptr_refines [of "snd q" "fst q" "[]" thr SYS_SYNC_FIFO True]
    by (auto simp: ptr_rep_def ptr_take_oldest_def)
next
  case (5 q xs x)
  then have l: "lseg (snd q) (fst q) (xs @ [x])" and a: "\<forall>x\<in>set (xs @ [x]). F_again \<notin> state (thr x)"
    by (auto simp: ptr_rep_def)
  have "schedule thr SYS_SYNC_FIFO (xs @ [x]) = (Some x, xs)"
    using lseg_distinct [OF l] a by (intro schedule_fifo_snoc) auto
  with schedule_ptr_refines [OF l, of thr SYS_SYNC_FIFO True] a show ?case
    by (auto simp: ptr_rep_def ptr_take_oldest_def)
qed

interpretation list_q: sleep_queue "\<lambda>t. F_again \<notin> state (thr t)" "list_rep thr"
  "(#)" list_take_out "\<lambda>q. Some (schedule thr SYS_SYNC_FIFO q)" for thr
proof (unfold_locales, goal_cases)
  case (3 q xs t)
  then show ?case using set_remove1_subset [of t xs]
    by (auto simp: list_rep_def list_take_out_def unqueue_def remove1_idem)
next
  case (5 q xs x)
  then show ?case using schedule_fifo_snoc [of xs x thr] by (auto simp: list_rep_def)
qed (auto simp: list_rep_def)

section \<open>Properties\<close>

lemma lseg_sample: "lseg ((\<lambda>_. None)(1 := Some 2, 2 := Some (3::tid))) (Some 1) [1, 2, 3]"
  by simp

text \<open>C22: On every well-formed intrusive list the pointer programs \<^verbatim>\<open>unqueue\<close> and \<^verbatim>\<open>schedule\<close> return,
  compute what the list functions of the model compute, leave a well-formed list behind, and write
  no link outside it; a thread that is removed no longer points into the list.\<close>

theorem waiter_lists_refine:
  assumes "lseg h p xs"
  shows "(\<exists>p' h'. unqueue_ptr m h p x = Some (fst (unqueue xs x), p', h') \<and> lseg h' p' (snd (unqueue xs x))
       \<and> (\<forall>y. y \<notin> set xs \<longrightarrow> h' y = h y) \<and> (m \<and> x \<in> set xs \<longrightarrow> h' x = None))
    \<and> (\<exists>p' h'. schedule_ptr thr protocol m h p = Some (fst (schedule thr protocol xs), p', h')
       \<and> lseg h' p' (snd (schedule thr protocol xs)) \<and> (\<forall>y. y \<notin> set xs \<longrightarrow> h' y = h y))"
  using unqueue_ptr_refines [OF assms] schedule_ptr_refines [OF assms] by blast

theorem waiter_lists_refine_witness:
  "\<exists>p' h'. unqueue_ptr True ((\<lambda>_. None)(1 := Some 2, 2 := Some 3)) (Some 1) 2 = Some (Some 2, p', h')
     \<and> lseg h' p' [1, 3]"
  using conjunct1 [OF waiter_lists_refine [OF lseg_sample, of True 2]] by (auto simp: unqueue_def)

text \<open>The thread \<^verbatim>\<open>schedule\<close> selects is a waiter that no other waiter precedes: the one that has
  waited longest under \<^verbatim>\<open>SYS_SYNC_FIFO\<close>, otherwise one of the most urgent priority and, within it,
  of the earliest enqueue order. Exactly that thread leaves the list.\<close>

theorem schedule_ptr_selects:
  assumes "lseg h p xs" and "xs \<noteq> []" and "\<forall>x\<in>set xs. F_again \<notin> state (thr x)"
  shows "\<exists>f p' h'. schedule_ptr thr protocol m h p = Some (Some f, p', h') \<and> f \<in> set xs
    \<and> lseg h' p' (remove1 f xs)
    \<and> (if protocol = SYS_SYNC_FIFO then f = last xs
       else \<forall>y\<in>set xs. \<not> prio_before (prio (thr y)) (prio (thr f)))"
proof -
  let ?f = "sched_pick thr protocol xs"
  have f: "?f \<in> set xs" using assms(2) by (rule sched_pick_in)
  then have "schedule thr protocol xs = (Some ?f, remove1 ?f xs)"
    using assms(2,3) by (simp add: schedule_def Let_def)
  moreover have "\<not> prio_before (prio (thr y)) (prio (thr ?f))" if "y \<in> set xs" "protocol \<noteq> SYS_SYNC_FIFO" for y
    using that assms(2) sched_best_minimal [of y "hd xs" "tl xs" "\<lambda>t. prio (thr t)"]
    by (cases xs) (auto simp: sched_pick_def)
  moreover have "?f = last xs" if "protocol = SYS_SYNC_FIFO" using that by (simp add: sched_pick_def)
  moreover obtain p' h' where "schedule_ptr thr protocol m h p = Some (fst (schedule thr protocol xs), p', h')"
    "lseg h' p' (snd (schedule thr protocol xs))"
    using schedule_ptr_refines [OF assms(1), of thr protocol m] by blast
  ultimately show ?thesis using f by (intro exI [of _ ?f] exI [of _ p'] exI [of _ h']) simp
qed

theorem schedule_ptr_selects_witness:
  "\<exists>p' h'. schedule_ptr (\<lambda>t. fresh_thread\<lparr>prio := \<lparr>pr_prio = (if t = 2 then -1 else 0), pr_order = 0,
       preserve_bit = False\<rparr>\<rparr>) SYS_SYNC_PRIORITY True ((\<lambda>_. None)(1 := Some 2, 2 := Some 3)) (Some 1)
     = Some (Some 2, p', h') \<and> lseg h' p' [1, 3]"
proof -
  let ?thr = "\<lambda>t::tid. fresh_thread\<lparr>prio := \<lparr>pr_prio = (if t = 2 then -1 else 0), pr_order = 0,
       preserve_bit = False\<rparr>\<rparr>"
  have "\<forall>x\<in>set [1, 2, 3]. F_again \<notin> state (?thr x)" by (simp add: fresh_thread_def)
  from schedule_ptr_selects [OF lseg_sample _ this, of SYS_SYNC_PRIORITY True] show ?thesis
    by (auto simp: prio_before_def)
qed

text \<open>Threads that are queued one after the other are taken out by \<^verbatim>\<open>SYS_SYNC_FIFO\<close> scheduling
  in the order in which they arrived, and a thread that leaves in between (a timeout) does not
  disturb the order of the others.\<close>

theorem waiters_served_in_order:
  assumes "distinct ts" and "\<forall>t\<in>set ts. F_again \<notin> state (thr t)"
  shows "drain (ptr_take_oldest thr) (length ts) (push_all ptr_push ts (None, h)) = Some ts
    \<and> (\<exists>q. ptr_take_out t (push_all ptr_push ts (None, h)) = Some (t \<in> set ts, q)
          \<and> drain (ptr_take_oldest thr) (length ts) q = Some (remove1 t ts))"
  using ptr_q.drain_take_out [of thr "(None, h)" ts t] assms by (simp add: ptr_rep_def)

theorem waiters_served_in_order_witness:
  "drain (ptr_take_oldest (\<lambda>_. fresh_thread)) 3 (push_all ptr_push [5, 9, 7] (None, \<lambda>_. None)) = Some [5, 9, 7]"
proof -
  have "F_again \<notin> state fresh_thread" by (simp add: fresh_thread_def)
  then have "drain (ptr_take_oldest (\<lambda>_. fresh_thread)) (length [5, 9, 7::tid])
      (push_all ptr_push [5, 9, 7] (None, \<lambda>_. None)) = Some [5, 9, 7]"
    by (intro conjunct1 [OF waiters_served_in_order]) simp_all
  moreover have "length [5, 9, 7::tid] = 3" by simp
  ultimately show ?thesis by metis
qed

end
