(* ===== verification/Lv2_Scheduler.thy ===== *)
theory Lv2_Scheduler
  imports Lv2_Queue
begin

text \<open>
  The lv2 thread scheduler of \<^verbatim>\<open>kernel/cellos/src/lv2.cpp\<close>: \<^verbatim>\<open>sleep_unlocked\<close>,
  \<^verbatim>\<open>awake_unlocked\<close>, \<^verbatim>\<open>schedule_all\<close> and the operations built from them. Every operation runs
  under \<^verbatim>\<open>lv2_obj::g_mutex\<close>, so it is one transition of the scheduler state. \<open>None\<close> is a failed
  \<^verbatim>\<open>ensure\<close>. The thread that executes is the parameter \<open>cur\<close> (\<^verbatim>\<open>cpu_thread::get_current\<close>); the
  guest clock and the time-stamp counter are parameters. Unlocking of guest memory
  (\<^verbatim>\<open>vm::temporary_unlock\<close>), reservation notification and logging have no counterpart.

  The invariant \<open>sched_inv\<close> says that the run queue is duplicate-free and ordered by priority, that
  the timeout queue is ordered by deadline and disjoint from the run queue, and that \<open>g_pending\<close>
  counts the threads that have been told to suspend and have not yet acknowledged.
\<close>

section \<open>Sleeping\<close>

definition dec_pending :: "lv2 \<Rightarrow> lv2" where
  "dec_pending s = s\<lparr>g_pending := (g_pending s + 2 ^ 32 - 1) mod 2 ^ 32\<rparr>"

definition inc_pending :: "lv2 \<Rightarrow> lv2" where
  "inc_pending s = s\<lparr>g_pending := (g_pending s + 1) mod 2 ^ 32\<rparr>"

definition deadline :: "nat \<Rightarrow> nat \<Rightarrow> nat" where
  "deadline now timeout = now + min timeout (umax64 - now)"

fun insert_waiting :: "nat \<Rightarrow> tid \<Rightarrow> (nat \<times> tid) list \<Rightarrow> (nat \<times> tid) list" where
  "insert_waiting w t [] = [(w, t)]"
| "insert_waiting w t ((v, u) # r) =
     (if v > w then (w, t) # (v, u) # r else (v, u) # insert_waiting w t r)"

definition register_timeout :: "nat \<Rightarrow> tid \<Rightarrow> nat \<Rightarrow> lv2 \<Rightarrow> lv2" where
  "register_timeout timeout t now s =
     (if timeout = 0 then s
      else s\<lparr>g_waiting := insert_waiting (deadline now timeout) t (g_waiting s)\<rparr>)"

definition acknowledge :: "tid \<Rightarrow> lv2 \<Rightarrow> lv2" where
  "acknowledge t s =
     (if ack_suspend (ppus s t)
      then dec_pending (upd_ppu t (\<lambda>p. p\<lparr>ack_suspend := False\<rparr>) s) else s)"

definition sleep_unlocked :: "tid \<Rightarrow> nat \<Rightarrow> nat \<Rightarrow> lv2 \<Rightarrow> (bool \<times> lv2) option" where
  "sleep_unlocked t timeout now s =
     (if is_ppu t then
        let ret = (cancel_sleep (ppus s t) \<noteq> 2);
            s2 = upd_ppu t (\<lambda>p. p\<lparr>cancel_sleep := 0\<rparr>) (acknowledge t s)
        in if F_signal \<in> flags_of s2 t then Some (False, s2)
           else if timeout \<noteq> 0 \<and> F_notify \<in> flags_of s2 t then None
           else
             let s3 = add_flags t {F_suspend} s2 in
             if t \<notin> set (g_ppu s3) then
               (if t \<in> set (g_to_sleep s3)
                then Some (True, upd_ppu t (\<lambda>p. p\<lparr>start_time := now\<rparr>)
                       (s3\<lparr>g_to_sleep := remove1 t (g_to_sleep s3)\<rparr>))
                else Some (False, s3))
             else
               let s4 = upd_ppu t
                     (\<lambda>p. p\<lparr>raddr := 0, start_time := now,
                            end_time := (if timeout \<noteq> 0 then deadline now timeout else umax64)\<rparr>)
                     (s3\<lparr>g_ppu := remove1 t (g_ppu s3)\<rparr>)
               in Some (ret, register_timeout timeout t now s4)
      else if is_spu t then
        (if t \<in> set (g_to_sleep s)
         then Some (True, s\<lparr>g_to_sleep := remove1 t (g_to_sleep s)\<rparr>)
         else Some (False, s))
      else Some (True, register_timeout timeout t now s))"

section \<open>Waking\<close>

datatype thread_cmd = Yield_cmd | Enqueue_cmd | Set_prio_cmd int

definition set_prio :: "tid \<Rightarrow> int \<Rightarrow> bool \<Rightarrow> bool \<Rightarrow> lv2 \<Rightarrow> lv2" where
  "set_prio t v order_last order_first s =
     (let tag = int (next_order_tag s);
          s1 = (if order_first \<or> order_last then s\<lparr>g_priority_order_tag := next_order_tag s\<rparr> else s)
      in upd_ppu t
           (\<lambda>p. p\<lparr>prio :=
              (let q = put_prio v (prio p) in
               if order_first then put_order (NOT tag) q
               else if order_last then put_order tag q else q)\<rparr>) s1)"

fun count_non_sleeping_threads :: "nat \<Rightarrow> tid list \<Rightarrow> nat \<Rightarrow> bool \<times> nat" where
  "count_non_sleeping_threads n [] c = (False, c)"
| "count_non_sleeping_threads n (t # ts) c =
     (if c = n then (True, c) else count_non_sleeping_threads n ts (Suc c))"

fun emplace_run :: "(tid \<Rightarrow> int) \<Rightarrow> tid \<Rightarrow> tid list \<Rightarrow> tid list option" where
  "emplace_run pr t [] = Some [t]"
| "emplace_run pr t (x # xs) =
     (if x = t then None
      else if pr x > pr t then Some (t # x # xs)
      else map_option ((#) x) (emplace_run pr t xs))"

fun remove_waiting :: "tid \<Rightarrow> (nat \<times> tid) list \<Rightarrow> (nat \<times> tid) list" where
  "remove_waiting t [] = []"
| "remove_waiting t ((w, u) # r) = (if u = t then r else (w, u) # remove_waiting t r)"

definition emplace_thread :: "tid \<Rightarrow> lv2 \<Rightarrow> bool \<times> lv2" where
  "emplace_thread t s =
     (case emplace_run (prio_of s) t (g_ppu s) of
        None \<Rightarrow>
          (False, if cancel_sleep (ppus s t) = 1 then upd_ppu t (\<lambda>p. p\<lparr>cancel_sleep := 2\<rparr>) s else s)
      | Some q \<Rightarrow> (True, s\<lparr>g_ppu := q, g_waiting := remove_waiting t (g_waiting s)\<rparr>))"

fun emplace_threads :: "tid list \<Rightarrow> bool \<times> int \<times> lv2 \<Rightarrow> bool \<times> int \<times> lv2" where
  "emplace_threads [] r = r"
| "emplace_threads (t # ts) (changed, lowest, s) =
     (case emplace_thread t s of
        (True, s') \<Rightarrow> emplace_threads ts (True, min (prio_of s' t) lowest, s')
      | (False, s') \<Rightarrow> emplace_threads ts (changed, lowest, s'))"

definition notify_one :: "tid \<Rightarrow> lv2 \<Rightarrow> lv2" where
  "notify_one t s = s\<lparr>to_notify := to_notify s @ [t]\<rparr>"

definition suspend_thread :: "tid \<Rightarrow> lv2 \<Rightarrow> lv2" where
  "suspend_thread t s =
     (if F_suspend \<in> flags_of s t then s
      else let s1 = add_flags t {F_suspend}
                 (inc_pending (upd_ppu t (\<lambda>p. p\<lparr>ack_suspend := True\<rparr>) s))
           in if is_paused (flags_of s1 t - {F_suspend}) then notify_one t s1 else s1)"

definition suspend_excess :: "lv2 \<Rightarrow> lv2" where
  "suspend_excess s = fold suspend_thread (drop (cfg_ppu_threads s) (g_ppu s)) s"

definition acknowledge_current :: "tid option \<Rightarrow> lv2 \<Rightarrow> lv2 option" where
  "acknowledge_current cur s =
     (case cur of
        None \<Rightarrow> Some s
      | Some c \<Rightarrow>
          if is_ppu c \<and> ack_suspend (ppus s c)
          then (if g_pending s = 0 then None else Some (acknowledge c s))
          else Some s)"

definition hw_thread_delay :: "tid option \<Rightarrow> bool \<Rightarrow> bool \<Rightarrow> int \<Rightarrow> lv2 \<Rightarrow> lv2" where
  "hw_thread_delay cur changed has_free lowest s =
     (case cur of
        None \<Rightarrow> s
      | Some c \<Rightarrow>
          if is_ppu c \<and> changed \<and> has_free \<and> prio_of s c > lowest then
            let is_create_thread = (gpr_of s c 11 = 0x35) in
            if is_create_thread \<or> cfg_all_timers s then
              upd_ppu c
                (\<lambda>p. p\<lparr>state := insert F_yield (state p),
                       hw_sleep_time :=
                         (if F_yield \<notin> state p \<or> hw_sleep_time p \<noteq> 0
                          then (hw_sleep_time p + (if is_create_thread then 51 else 35)) mod 2 ^ 32
                          else 30000)\<rparr>) s
            else s
          else s)"

text \<open>The common tail of \<^verbatim>\<open>awake_unlocked\<close>: enqueue, suspend what no longer fits, acknowledge.\<close>

definition awake_tail :: "tid option \<Rightarrow> tid option \<Rightarrow> bool \<Rightarrow> lv2 \<Rightarrow> (bool \<times> lv2) option" where
  "awake_tail cur cpu yielded s =
     (let has_free =
            (snd (count_non_sleeping_threads (cfg_ppu_threads s) (g_ppu s) 0) < cfg_ppu_threads s);
          todo = (case cpu of Some t \<Rightarrow> if yielded then g_to_awake s else [t] | None \<Rightarrow> g_to_awake s);
          (changed, lowest, s1) = emplace_threads todo (yielded, 2 ^ 31 - 1, s);
          s2 = suspend_excess s1
      in case acknowledge_current cur s2 of
           None \<Rightarrow> None
         | Some s3 \<Rightarrow> Some (changed, hw_thread_delay cur changed has_free lowest s3))"

text \<open>Rotation of a thread behind the other threads of its priority; the second result is the
  position it ends at.\<close>

definition rotate_run :: "(tid \<Rightarrow> int) \<Rightarrow> tid \<Rightarrow> tid list \<Rightarrow> (nat \<times> tid list) option" where
  "rotate_run pr t xs =
     (let pre = takeWhile (\<lambda>x. x \<noteq> t) xs; rest = tl (dropWhile (\<lambda>x. x \<noteq> t) xs);
          same = takeWhile (\<lambda>x. pr x = pr t) rest; after = dropWhile (\<lambda>x. pr x = pr t) rest
      in if t \<notin> set xs \<or> same = [] then None
         else Some (length pre + length same, pre @ same @ t # after))"

definition awake_unlocked ::
    "tid option \<Rightarrow> nat \<Rightarrow> tid option \<Rightarrow> thread_cmd \<Rightarrow> lv2 \<Rightarrow> (bool \<times> lv2) option" where
  "awake_unlocked cur now cpu cmd s =
     (case cmd of
        Enqueue_cmd \<Rightarrow> awake_tail cur cpu False s
      | Set_prio_cmd v \<Rightarrow>
          (case cpu of
             None \<Rightarrow> None
           | Some t \<Rightarrow>
               let old = prio_of s t in
               if old = v \<and> cur = Some t then Some (True, set_prio t v False False s)
               else if t \<notin> set (g_ppu s) then Some (True, set_prio t v (old > v) (old < v) s)
               else awake_tail cur cpu False
                      (set_prio t v False False (s\<lparr>g_ppu := remove1 t (g_ppu s)\<rparr>)))
      | Yield_cmd \<Rightarrow>
          (case cpu of
             None \<Rightarrow> Some (False, s)
           | Some t \<Rightarrow>
               (case rotate_run (prio_of s) t (g_ppu s) of
                  None \<Rightarrow> Some (False, s)
                | Some (i, q) \<Rightarrow>
                    let s1 = s\<lparr>g_ppu := q\<rparr> in
                    if i < cfg_ppu_threads s then Some (False, s1)
                    else awake_tail cur cpu True (upd_ppu t (\<lambda>p. p\<lparr>start_time := now\<rparr>) s1))))"

section \<open>Dispatching\<close>

definition wake_thread :: "tid \<Rightarrow> lv2 \<Rightarrow> lv2" where
  "wake_thread t s =
     (if F_suspend \<notin> flags_of s t then s
      else
        let remove_yield = (if start_time (ppus s t) = 0 then {F_suspend} else {F_yield, F_preempt});
            old = flags_of s t;
            s1 = upd_ppu t
              (\<lambda>p. p\<lparr>start_time := 0,
                     state := insert F_signal (state p) - {F_suspend} - remove_yield\<rparr>) s
        in if F_wait \<in> old \<and> F_signal \<notin> old then notify_one t s1 else s1)"

definition wake_threads :: "lv2 \<Rightarrow> lv2" where
  "wake_threads s =
     (if g_pending s = 0 \<and> g_scheduler_ready s
      then fold wake_thread (take (cfg_ppu_threads s) (g_ppu s)) s else s)"

fun expire_timeouts :: "tid option \<Rightarrow> nat \<Rightarrow> (nat \<times> tid) list \<Rightarrow> lv2 \<Rightarrow> lv2 option" where
  "expire_timeouts cur now [] s = Some (s\<lparr>g_waiting := []\<rparr>)"
| "expire_timeouts cur now ((w, t) # r) s =
     (if w \<le> now then
        (if cur = Some t then expire_timeouts cur now r s
         else if F_notify \<in> flags_of s t then None
         else expire_timeouts cur now r (notify_one t (add_flags t {F_notify} s)))
      else Some (s\<lparr>g_waiting := (w, t) # r\<rparr>))"

definition preempt_candidate :: "tid option \<Rightarrow> lv2 \<Rightarrow> tid option" where
  "preempt_candidate cur s =
     (case find (\<lambda>t. F_preempt \<notin> flags_of s t \<and> F_wait \<notin> flags_of s t)
             (take (cfg_ppu_threads s) (g_ppu s)) of
        Some t \<Rightarrow> Some t
      | None \<Rightarrow>
          if g_ppu s \<noteq> [] \<and> F_preempt \<notin> flags_of s (hd (g_ppu s)) then Some (hd (g_ppu s))
          else (case cur of
                  Some c \<Rightarrow> if F_suspend \<notin> flags_of s c then Some c else None
                | None \<Rightarrow> None))"

definition preempt_one :: "tid option \<Rightarrow> nat \<Rightarrow> lv2 \<Rightarrow> lv2" where
  "preempt_one cur tsc s =
     (let freq = s_yield_frequency s; last = s_last_yield_tsc s in
      if freq \<noteq> 0 \<and> tsc \<ge> last \<and> tsc \<le> s_max_allowed_yield_tsc s \<and> tsc - last \<ge> freq then
        (case preempt_candidate cur s of
           None \<Rightarrow> s
         | Some t \<Rightarrow>
             if F_preempt \<in> flags_of s t then s
             else (add_flags t {F_preempt} s)
                    \<lparr>s_last_yield_tsc := tsc,
                     g_lv2_preempts_taken := (g_lv2_preempts_taken s + 1) mod 2 ^ 32,
                     rsx_yield := True\<rparr>)
      else s)"

definition schedule_all :: "tid option \<Rightarrow> nat \<Rightarrow> nat \<Rightarrow> lv2 \<Rightarrow> lv2 option" where
  "schedule_all cur now tsc s =
     (let s1 = wake_threads s in
      map_option (preempt_one cur tsc) (expire_timeouts cur now (g_waiting s1) s1))"

section \<open>The operations kernel objects call\<close>

definition clear_res_notify :: "tid \<Rightarrow> lv2 \<Rightarrow> lv2" where
  "clear_res_notify t s =
     (if is_ppu t \<and> res_notify (ppus s t) \<noteq> 0
      then upd_ppu t (\<lambda>p. p\<lparr>res_notify := 0, res_notify_postpone_streak := 0\<rparr>) s else s)"

definition sleep :: "tid option \<Rightarrow> tid \<Rightarrow> nat \<Rightarrow> nat \<Rightarrow> nat \<Rightarrow> lv2 \<Rightarrow> (bool \<times> lv2) option" where
  "sleep cur t timeout now tsc s =
     (case sleep_unlocked t timeout now (clear_res_notify t s) of
        None \<Rightarrow> None
      | Some (r, s1) \<Rightarrow>
          (case (if g_to_awake s1 = [] then Some s1
                 else map_option snd (awake_unlocked cur now None Enqueue_cmd s1)) of
             None \<Rightarrow> None
           | Some s2 \<Rightarrow>
               map_option (\<lambda>s3. (r, s3\<lparr>g_to_awake := []\<rparr>)) (schedule_all cur now tsc s2)))"

definition awake ::
    "tid option \<Rightarrow> tid option \<Rightarrow> thread_cmd \<Rightarrow> nat \<Rightarrow> nat \<Rightarrow> lv2 \<Rightarrow> (bool \<times> lv2) option" where
  "awake cur t cmd now tsc s =
     (case awake_unlocked cur now t cmd
             (case cur of Some c \<Rightarrow> clear_res_notify c s | None \<Rightarrow> s) of
        None \<Rightarrow> None
      | Some (r, s1) \<Rightarrow> map_option (\<lambda>s2. (r, s2)) (schedule_all cur now tsc s1))"

definition append_awake :: "tid \<Rightarrow> lv2 \<Rightarrow> lv2" where
  "append_awake t s = s\<lparr>g_to_awake := g_to_awake s @ [t]\<rparr>"

definition awake_all :: "tid option \<Rightarrow> nat \<Rightarrow> nat \<Rightarrow> lv2 \<Rightarrow> lv2 option" where
  "awake_all cur now tsc s =
     map_option (\<lambda>(r, s1). s1\<lparr>g_to_awake := []\<rparr>) (awake cur None Enqueue_cmd now tsc s)"

fun next_in :: "tid \<Rightarrow> tid list \<Rightarrow> tid option" where
  "next_in t (x # y # xs) = (if x = t then Some y else next_in t (y # xs))"
| "next_in t _ = None"

definition yield :: "tid option \<Rightarrow> tid \<Rightarrow> nat \<Rightarrow> nat \<Rightarrow> lv2 \<Rightarrow> (bool \<times> lv2) option" where
  "yield cur t now tsc s =
     (let s1 = (if is_ppu t then upd_ppu t (\<lambda>p. p\<lparr>raddr := 0\<rparr>) s else s) in
      if is_ppu t \<and> next_in t (g_ppu s1) = None then Some (False, s1)
      else awake cur (Some t) Yield_cmd now tsc s1)"

definition set_priority ::
    "tid option \<Rightarrow> tid \<Rightarrow> int \<Rightarrow> nat \<Rightarrow> nat \<Rightarrow> lv2 \<Rightarrow> lv2 option" where
  "set_priority cur t v now tsc s =
     (if wrap_u32 (v + 512) < 3712
      then map_option snd (awake cur (Some t) (Set_prio_cmd v) now tsc s) else None)"

definition make_scheduler_ready :: "tid option \<Rightarrow> nat \<Rightarrow> nat \<Rightarrow> lv2 \<Rightarrow> lv2 option" where
  "make_scheduler_ready cur now tsc s =
     awake_all cur now tsc (s\<lparr>g_scheduler_ready := True\<rparr>)"

definition set_future_sleep :: "tid \<Rightarrow> lv2 \<Rightarrow> lv2" where
  "set_future_sleep t s = s\<lparr>g_to_sleep := g_to_sleep s @ [t]\<rparr>"

definition set_yield_frequency :: "nat \<Rightarrow> nat \<Rightarrow> lv2 \<Rightarrow> lv2" where
  "set_yield_frequency freq max_tsc s =
     s\<lparr>s_yield_frequency := freq, s_max_allowed_yield_tsc := max_tsc, g_lv2_preempts_taken := 0\<rparr>"

definition lv2_cleanup :: "lv2 \<Rightarrow> lv2" where
  "lv2_cleanup s =
     s\<lparr>g_ppu := [], g_scheduler_ready := False, g_to_sleep := [], g_waiting := [],
       g_pending := 0, s_yield_frequency := 0\<rparr>"


section \<open>The scheduler invariant\<close>

definition run_inv :: "lv2 \<Rightarrow> bool" where
  "run_inv s \<longleftrightarrow> distinct (g_ppu s) \<and> (\<forall>t\<in>set (g_ppu s). is_ppu t)
     \<and> sorted (map (prio_of s) (g_ppu s))
     \<and> (\<forall>t. signed_take_bit 12 (prio_of s t) = prio_of s t)"

definition wait_inv :: "(nat \<times> tid) list \<Rightarrow> lv2 \<Rightarrow> bool" where
  "wait_inv ws s \<longleftrightarrow> sorted (map fst ws) \<and> distinct (map snd ws)
     \<and> (\<forall>t\<in>snd ` set ws. t \<notin> set (g_ppu s) \<and> F_notify \<notin> flags_of s t)"

definition ack_inv :: "lv2 \<Rightarrow> bool" where
  "ack_inv s \<longleftrightarrow> (\<forall>t. ack_suspend (ppus s t) \<longrightarrow> t \<in> set (g_ppu s) \<and> F_suspend \<in> flags_of s t)
     \<and> g_pending s = card {t. ack_suspend (ppus s t)}"

text \<open>Every runnable thread beyond the hardware threads is suspended.\<close>

definition proc_inv :: "lv2 \<Rightarrow> bool" where
  "proc_inv s \<longleftrightarrow> (\<forall>t\<in>set (drop (cfg_ppu_threads s) (g_ppu s)). F_suspend \<in> flags_of s t)"

definition sched_inv :: "lv2 \<Rightarrow> bool" where
  "sched_inv s \<longleftrightarrow> run_inv s \<and> wait_inv (g_waiting s) s \<and> ack_inv s \<and> proc_inv s"

lemmas inv_defs = sched_inv_def run_inv_def wait_inv_def ack_inv_def proc_inv_def

text \<open>Updates of thread fields the invariant does not read.\<close>

lemma inv_upd_neutral:
  assumes "\<And>p. prio (f p) = prio p" "\<And>p. ack_suspend (f p) = ack_suspend p"
    and "\<And>p. F_suspend \<in> state p \<Longrightarrow> F_suspend \<in> state (f p)"
    and "\<And>p. F_notify \<in> state (f p) \<Longrightarrow> F_notify \<in> state p"
  shows "run_inv s \<Longrightarrow> run_inv (upd_ppu t f s)" "wait_inv ws s \<Longrightarrow> wait_inv ws (upd_ppu t f s)"
    "ack_inv s \<Longrightarrow> ack_inv (upd_ppu t f s)" "proc_inv s \<Longrightarrow> proc_inv (upd_ppu t f s)"
proof -
  have pr: "prio_of (upd_ppu t f s) = prio_of s" using assms(1) by auto
  have ak: "{u. ack_suspend (ppus (upd_ppu t f s) u)} = {u. ack_suspend (ppus s u)}"
    using assms(2) by auto
  show "run_inv s \<Longrightarrow> run_inv (upd_ppu t f s)" unfolding run_inv_def pr using assms(1) by simp
  show "wait_inv ws s \<Longrightarrow> wait_inv ws (upd_ppu t f s)"
    using assms(4) by (auto simp: wait_inv_def)
  show "ack_inv s \<Longrightarrow> ack_inv (upd_ppu t f s)"
    unfolding ack_inv_def ak using assms(2,3) by auto
  show "proc_inv s \<Longrightarrow> proc_inv (upd_ppu t f s)" using assms(3) by (auto simp: proc_inv_def)
qed

lemma sched_upd_neutral:
  assumes "\<And>p. prio (f p) = prio p" "\<And>p. ack_suspend (f p) = ack_suspend p"
    and "\<And>p. F_suspend \<in> state p \<Longrightarrow> F_suspend \<in> state (f p)"
    and "\<And>p. F_notify \<in> state (f p) \<Longrightarrow> F_notify \<in> state p"
    and "sched_inv s"
  shows "sched_inv (upd_ppu t f s)"
  using inv_upd_neutral [of f, OF assms(1-4)] assms(5) by (simp add: sched_inv_def)

lemma acks_finite: "run_inv s \<Longrightarrow> ack_inv s \<Longrightarrow> finite {t. ack_suspend (ppus s t)}"
  by (rule finite_subset [of _ "set (g_ppu s)"]) (auto simp: ack_inv_def)

lemma acks_small: "run_inv s \<Longrightarrow> ack_inv s \<Longrightarrow> g_pending s < 2 ^ 32"
proof -
  assume r: "run_inv s" and a: "ack_inv s"
  have "card {t. ack_suspend (ppus s t)} \<le> card (set (g_ppu s))"
    using a by (intro card_mono) (auto simp: ack_inv_def)
  also have "\<dots> \<le> length (g_ppu s)" by (rule card_length)
  also have "\<dots> < 2 ^ 32" using r by (intro ppu_ids_small) (auto simp: run_inv_def)
  finally show ?thesis using a by (simp add: ack_inv_def)
qed

lemma pending_zero: "run_inv s \<Longrightarrow> ack_inv s \<Longrightarrow> g_pending s = 0 \<Longrightarrow> \<not> ack_suspend (ppus s t)"
proof -
  assume r: "run_inv s" and a: "ack_inv s" and z: "g_pending s = 0"
  have "card {t. ack_suspend (ppus s t)} = 0" using a z by (simp add: ack_inv_def)
  then have "{t. ack_suspend (ppus s t)} = {}" using acks_finite [OF r a] by simp
  then show ?thesis by simp
qed

lemma pending_pos: "run_inv s \<Longrightarrow> ack_inv s \<Longrightarrow> ack_suspend (ppus s t) \<Longrightarrow> 0 < g_pending s"
  using pending_zero [of s t] by auto

lemma pred_mod: "0 < n \<Longrightarrow> n < 2 ^ 32 \<Longrightarrow> (n + 2 ^ 32 - 1) mod 2 ^ 32 = n - (1::nat)"
proof -
  assume "0 < n" "n < 2 ^ 32"
  then have "n + 2 ^ 32 - 1 = (n - 1) + 2 ^ 32" by simp
  then have "(n + 2 ^ 32 - 1) mod 2 ^ 32 = ((n - 1) + 2 ^ 32) mod 2 ^ 32" by (rule arg_cong)
  also have "\<dots> = (n - 1) mod 2 ^ 32" by (rule mod_add_self2)
  also have "\<dots> = n - 1" using \<open>n < 2 ^ 32\<close> by (intro mod_less) simp
  finally show ?thesis .
qed

lemma acknowledge_frame [simp]:
  "g_ppu (acknowledge t s) = g_ppu s" "g_waiting (acknowledge t s) = g_waiting s"
  "g_to_sleep (acknowledge t s) = g_to_sleep s" "g_to_awake (acknowledge t s) = g_to_awake s"
  "g_scheduler_ready (acknowledge t s) = g_scheduler_ready s"
  "cfg_ppu_threads (acknowledge t s) = cfg_ppu_threads s"
  "g_priority_order_tag (acknowledge t s) = g_priority_order_tag s"
  "to_notify (acknowledge t s) = to_notify s"
  "prio (ppus (acknowledge t s) u) = prio (ppus s u)"
  "flags_of (acknowledge t s) u = flags_of s u" "gpr (ppus (acknowledge t s) u) = gpr (ppus s u)"
  "cancel_sleep (ppus (acknowledge t s) u) = cancel_sleep (ppus s u)"
  by (simp_all add: acknowledge_def dec_pending_def)

lemma acknowledge_ack [simp]:
  "ack_suspend (ppus (acknowledge t s) u) \<longleftrightarrow> u \<noteq> t \<and> ack_suspend (ppus s u)"
  by (auto simp: acknowledge_def dec_pending_def)

lemma acknowledge_inv:
  assumes r: "run_inv s" and a: "ack_inv s"
  shows "run_inv (acknowledge t s)" "ack_inv (acknowledge t s)"
    "wait_inv ws s \<Longrightarrow> wait_inv ws (acknowledge t s)" "proc_inv s \<Longrightarrow> proc_inv (acknowledge t s)"
proof -
  show "proc_inv s \<Longrightarrow> proc_inv (acknowledge t s)" by (simp add: proc_inv_def)
  show "run_inv (acknowledge t s)" using r by (simp add: run_inv_def)
  show "wait_inv ws s \<Longrightarrow> wait_inv ws (acknowledge t s)" by (simp add: wait_inv_def)
  let ?A = "{u. ack_suspend (ppus s u)}"
  have A: "{u. ack_suspend (ppus (acknowledge t s) u)} = ?A - {t}" by auto
  have "g_pending (acknowledge t s) = card (?A - {t})"
  proof (cases "t \<in> ?A")
    case True
    then have "g_pending (acknowledge t s) = (g_pending s + 2 ^ 32 - 1) mod 2 ^ 32"
      by (simp add: acknowledge_def dec_pending_def)
    also have "\<dots> = g_pending s - 1"
      using pending_pos [OF r a, of t] True acks_small [OF r a] by (intro pred_mod) auto
    also have "\<dots> = card (?A - {t})" using a True by (simp add: ack_inv_def)
    finally show ?thesis .
  next
    case False
    then show ?thesis using a by (simp add: acknowledge_def ack_inv_def)
  qed
  then show "ack_inv (acknowledge t s)" using a A by (auto simp: ack_inv_def)
qed

lemma acknowledge_sched: "sched_inv s \<Longrightarrow> sched_inv (acknowledge t s)"
  using acknowledge_inv [of s] by (simp add: sched_inv_def)

subsection \<open>Sleeping\<close>

lemma set_insert_waiting: "set (insert_waiting w t ws) = insert (w, t) (set ws)"
  by (induction w t ws rule: insert_waiting.induct) auto

lemma sorted_insert_waiting:
  "sorted (map fst ws) \<Longrightarrow> sorted (map fst (insert_waiting w t ws))"
  by (induction w t ws rule: insert_waiting.induct) (auto simp: set_insert_waiting)

lemma distinct_insert_waiting:
  "distinct (map snd ws) \<Longrightarrow> t \<notin> snd ` set ws \<Longrightarrow> distinct (map snd (insert_waiting w t ws))"
  by (induction w t ws rule: insert_waiting.induct) (auto simp: set_insert_waiting image_iff)

lemma set_drop_remove1: "set (drop n (remove1 t xs)) \<subseteq> set (drop n xs)"
proof (induction xs arbitrary: n)
  case (Cons x xs)
  show ?case
  proof (cases n)
    case 0
    then show ?thesis using set_remove1_subset [of t "x # xs"] by simp
  next
    case (Suc m)
    have "set (drop (Suc m) xs) \<subseteq> set (drop m xs)" by (rule set_drop_subset_set_drop) simp
    with Suc Cons.IH [of m] show ?thesis by auto
  qed
qed simp

text \<open>A running thread leaves the run queue, with or without a registered timeout.\<close>

lemma sched_remove_run:
  assumes i: "sched_inv s" and a: "\<not> ack_suspend (ppus s t)"
  shows "sched_inv (s\<lparr>g_ppu := remove1 t (g_ppu s)\<rparr>)"
  using i a set_drop_remove1 [of "cfg_ppu_threads s" t "g_ppu s"]
  by (auto simp: inv_defs sorted_map_remove1)

lemma sched_register_timeout:
  assumes i: "sched_inv s" and t: "t \<notin> set (g_ppu s)" "t \<notin> snd ` set (g_waiting s)"
    and n: "timeout \<noteq> 0 \<Longrightarrow> F_notify \<notin> flags_of s t"
  shows "sched_inv (register_timeout timeout t now s)"
proof (cases "timeout = 0")
  case False
  have "wait_inv (insert_waiting (deadline now timeout) t (g_waiting s)) s"
    using i t n False
    by (simp add: inv_defs sorted_insert_waiting distinct_insert_waiting set_insert_waiting)
  with False i show ?thesis
    by (simp add: inv_defs register_timeout_def)
qed (use i in \<open>simp add: register_timeout_def\<close>)

lemma sched_add_suspend: "sched_inv s \<Longrightarrow> sched_inv (add_flags t {F_suspend} s)"
  unfolding add_flags_def by (rule sched_upd_neutral) auto

lemma sched_to_sleep [simp]: "sched_inv (s\<lparr>g_to_sleep := x\<rparr>) = sched_inv s"
  "sched_inv (s\<lparr>g_to_awake := x\<rparr>) = sched_inv s" "sched_inv (s\<lparr>to_notify := n\<rparr>) = sched_inv s"
  "sched_inv (s\<lparr>g_scheduler_ready := b\<rparr>) = sched_inv s"
  by (simp_all add: inv_defs)

lemma sleep_unlocked_ppu:
  assumes i: "sched_inv s" and p: "is_ppu t"
    and n: "timeout \<noteq> 0 \<Longrightarrow> F_notify \<notin> flags_of s t"
  shows "\<exists>r s'. sleep_unlocked t timeout now s = Some (r, s') \<and> sched_inv s'
    \<and> (F_signal \<notin> flags_of s t \<longrightarrow> t \<notin> set (g_ppu s') \<and> F_suspend \<in> flags_of s' t)
    \<and> g_to_awake s' = g_to_awake s"
proof -
  define s2 where "s2 = upd_ppu t (\<lambda>p. p\<lparr>cancel_sleep := 0\<rparr>) (acknowledge t s)"
  define s3 where "s3 = add_flags t {F_suspend} s2"
  define s4 where "s4 = upd_ppu t
     (\<lambda>p. p\<lparr>raddr := 0, start_time := now,
            end_time := (if timeout \<noteq> 0 then deadline now timeout else umax64)\<rparr>)
     (s3\<lparr>g_ppu := remove1 t (g_ppu s3)\<rparr>)"
  have i2: "sched_inv s2" unfolding s2_def
    by (rule sched_upd_neutral) (auto intro: acknowledge_sched i)
  have i3: "sched_inv s3" unfolding s3_def by (rule sched_add_suspend) (rule i2)
  have a3: "\<not> ack_suspend (ppus s3 t)" by (simp add: s3_def s2_def add_flags_def)
  have g: "g_ppu s3 = g_ppu s" "g_waiting s3 = g_waiting s" "g_to_awake s3 = g_to_awake s"
    by (simp_all add: s3_def s2_def add_flags_def)
  have f2: "flags_of s2 t = flags_of s t" by (simp add: s2_def)
  have f3: "flags_of s3 t = insert F_suspend (flags_of s t)" by (simp add: s3_def s2_def add_flags_def)
  have d: "distinct (g_ppu s)" using i by (simp add: inv_defs)
  have i4: "sched_inv s4" unfolding s4_def
    by (rule sched_upd_neutral) (use sched_remove_run [OF i3 a3] in simp_all)
  have i5: "sched_inv (register_timeout timeout t now s4)" if "t \<in> set (g_ppu s)"
  proof (rule sched_register_timeout [OF i4])
    show "t \<notin> set (g_ppu s4)" using d g by (simp add: s4_def)
    show "t \<notin> snd ` set (g_waiting s4)" using i that g by (auto simp: s4_def inv_defs)
    show "F_notify \<notin> flags_of s4 t" if "timeout \<noteq> 0" using n [OF that] f3 by (simp add: s4_def)
  qed
  have u: "sleep_unlocked t timeout now s =
    (if F_signal \<in> flags_of s t then Some (False, s2)
     else if t \<notin> set (g_ppu s) then
       (if t \<in> set (g_to_sleep s3)
        then Some (True, upd_ppu t (\<lambda>p. p\<lparr>start_time := now\<rparr>) (s3\<lparr>g_to_sleep := remove1 t (g_to_sleep s3)\<rparr>))
        else Some (False, s3))
     else Some (cancel_sleep (ppus s t) \<noteq> 2, register_timeout timeout t now s4))"
    using p n by (auto simp: sleep_unlocked_def Let_def s2_def [symmetric] s3_def [symmetric]
      s4_def f2 g(1))
  have i6: "sched_inv (upd_ppu t (\<lambda>p. p\<lparr>start_time := now\<rparr>) (s3\<lparr>g_to_sleep := q\<rparr>))" for q
    by (rule sched_upd_neutral) (simp_all add: i3)
  show ?thesis
    unfolding u using i2 i3 i5 i6 d g f3
    by (auto simp: s2_def s4_def register_timeout_def)
qed

lemma sleep_unlocked_spu:
  assumes "sched_inv s" and "is_spu t"
  shows "\<exists>r s'. sleep_unlocked t timeout now s = Some (r, s') \<and> sched_inv s' \<and> g_to_awake s' = g_to_awake s"
  using assms by (auto simp: sleep_unlocked_def is_ppu_def is_spu_def)

subsection \<open>Waking\<close>

text \<open>The run queue position: behind every thread of the same or a more urgent priority.\<close>

lemma emplace_run_pos:
  "t \<notin> set xs \<Longrightarrow>
   emplace_run pr t xs = Some (takeWhile (\<lambda>x. pr x \<le> pr t) xs @ t # dropWhile (\<lambda>x. pr x \<le> pr t) xs)"
  by (induction pr t xs rule: emplace_run.induct) auto

lemma emplace_run_mem: "sorted (map pr xs) \<Longrightarrow> t \<in> set xs \<Longrightarrow> emplace_run pr t xs = None"
  by (induction pr t xs rule: emplace_run.induct) fastforce+

lemma sorted_insert_pos:
  assumes "sorted (map pr xs)"
  shows "sorted (map pr (takeWhile (\<lambda>x. pr x \<le> pr t) xs @ t # dropWhile (\<lambda>x. pr x \<le> pr t) xs))"
  using assms
proof (induction xs)
  case (Cons x xs)
  then show ?case by (auto dest!: set_takeWhileD set_dropWhileD)
qed simp

lemma remove_waiting_subset: "set (remove_waiting t ws) \<subseteq> set ws"
  by (induction t ws rule: remove_waiting.induct) auto

lemma sorted_remove_waiting: "sorted (map fst ws) \<Longrightarrow> sorted (map fst (remove_waiting t ws))"
  by (induction t ws rule: remove_waiting.induct) (auto dest: subsetD [OF remove_waiting_subset])

lemma distinct_remove_waiting:
  "distinct (map snd ws) \<Longrightarrow> distinct (map snd (remove_waiting t ws))"
  by (induction t ws rule: remove_waiting.induct)
    (auto simp: image_iff dest: subsetD [OF remove_waiting_subset])

lemma set_remove_waiting:
  "distinct (map snd ws) \<Longrightarrow> snd ` set (remove_waiting t ws) = snd ` set ws - {t}"
  by (induction t ws rule: remove_waiting.induct) auto

lemmas waiting_removal = sorted_remove_waiting distinct_remove_waiting set_remove_waiting

text \<open>Between the insertion of threads and the suspension of the excess the last clause is open.\<close>

definition base_inv :: "lv2 \<Rightarrow> bool" where
  "base_inv s \<longleftrightarrow> run_inv s \<and> wait_inv (g_waiting s) s \<and> ack_inv s"

lemma sched_base: "sched_inv s \<longleftrightarrow> base_inv s \<and> proc_inv s"
  by (auto simp: sched_inv_def base_inv_def)

lemmas base_defs = base_inv_def run_inv_def wait_inv_def ack_inv_def

lemma base_upd_neutral:
  assumes "\<And>p. prio (f p) = prio p" "\<And>p. ack_suspend (f p) = ack_suspend p"
    and "\<And>p. F_suspend \<in> state p \<Longrightarrow> F_suspend \<in> state (f p)"
    and "\<And>p. F_notify \<in> state (f p) \<Longrightarrow> F_notify \<in> state p"
    and "base_inv s"
  shows "base_inv (upd_ppu t f s)"
  using inv_upd_neutral [of f, OF assms(1-4)] assms(5) by (simp add: base_inv_def)

definition run_insert :: "lv2 \<Rightarrow> tid \<Rightarrow> tid list" where
  "run_insert s t = takeWhile (\<lambda>x. prio_of s x \<le> prio_of s t) (g_ppu s)
     @ t # dropWhile (\<lambda>x. prio_of s x \<le> prio_of s t) (g_ppu s)"

lemma mset_run_insert: "mset (run_insert s t) = add_mset t (mset (g_ppu s))"
proof -
  have "mset (g_ppu s) = mset (takeWhile (\<lambda>x. prio_of s x \<le> prio_of s t) (g_ppu s)
      @ dropWhile (\<lambda>x. prio_of s x \<le> prio_of s t) (g_ppu s))" by simp
  then show ?thesis by (simp add: run_insert_def del: takeWhile_dropWhile_id)
qed

lemma set_run_insert [simp]: "set (run_insert s t) = insert t (set (g_ppu s))"
  using mset_run_insert [of s t] by (metis set_mset_add_mset_insert set_mset_mset)

lemma distinct_run_insert: "distinct (g_ppu s) \<Longrightarrow> t \<notin> set (g_ppu s) \<Longrightarrow> distinct (run_insert s t)"
  using mset_run_insert [of s t] by (metis distinct.simps(2) mset.simps(2) mset_eq_imp_distinct_iff)

lemma emplace_thread_new:
  "t \<notin> set (g_ppu s) \<Longrightarrow>
   emplace_thread t s = (True, s\<lparr>g_ppu := run_insert s t, g_waiting := remove_waiting t (g_waiting s)\<rparr>)"
  by (simp add: emplace_thread_def emplace_run_pos run_insert_def)

lemma emplace_thread_old:
  "run_inv s \<Longrightarrow> t \<in> set (g_ppu s) \<Longrightarrow>
   emplace_thread t s =
     (False, if cancel_sleep (ppus s t) = 1 then upd_ppu t (\<lambda>p. p\<lparr>cancel_sleep := 2\<rparr>) s else s)"
  by (simp add: emplace_thread_def emplace_run_mem run_inv_def)

lemma emplace_new_inv:
  assumes r: "run_inv s" and w: "wait_inv (g_waiting s) s" and t: "is_ppu t" "t \<notin> set (g_ppu s)"
    and a: "\<And>u. ack_suspend (ppus s u) \<Longrightarrow> (u = t \<or> u \<in> set (g_ppu s)) \<and> F_suspend \<in> flags_of s u"
    and c: "g_pending s = card {u. ack_suspend (ppus s u)}"
  shows "base_inv (snd (emplace_thread t s))"
proof -
  have "run_inv (s\<lparr>g_ppu := run_insert s t\<rparr>)"
    using r t sorted_insert_pos [of "prio_of s" "g_ppu s" t]
    by (simp add: run_inv_def distinct_run_insert) (simp add: run_insert_def)
  then show ?thesis
    using w a c t by (auto simp: emplace_thread_new base_defs waiting_removal)
qed

lemma emplace_thread_inv:
  assumes b: "base_inv s" and t: "is_ppu t"
  shows "base_inv (snd (emplace_thread t s))"
    "set (g_ppu (snd (emplace_thread t s))) = insert t (set (g_ppu s))"
proof -
  have r: "run_inv s" and w: "wait_inv (g_waiting s) s" and a: "ack_inv s"
    using b by (simp_all add: base_inv_def)
  show "base_inv (snd (emplace_thread t s))"
  proof (cases "t \<in> set (g_ppu s)")
    case True
    have "base_inv (upd_ppu t (\<lambda>p. p\<lparr>cancel_sleep := 2\<rparr>) s)"
      by (rule base_upd_neutral) (simp_all add: b)
    with b show ?thesis by (simp add: emplace_thread_old [OF r True])
  next
    case False
    with r w t a show ?thesis by (intro emplace_new_inv) (auto simp: ack_inv_def)
  qed
  show "set (g_ppu (snd (emplace_thread t s))) = insert t (set (g_ppu s))"
    using r by (cases "t \<in> set (g_ppu s)") (auto simp: emplace_thread_old emplace_thread_new)
qed

lemma emplace_thread_frame [simp]:
  "cfg_ppu_threads (snd (emplace_thread t s)) = cfg_ppu_threads s"
  "g_to_awake (snd (emplace_thread t s)) = g_to_awake s"
  "g_scheduler_ready (snd (emplace_thread t s)) = g_scheduler_ready s"
  "flags_of (snd (emplace_thread t s)) u = flags_of s u"
  "prio (ppus (snd (emplace_thread t s)) u) = prio (ppus s u)"
  by (auto simp: emplace_thread_def split: option.split)

lemma emplace_threads_step:
  "emplace_threads (t # ts) (c, l, s) =
     emplace_threads ts (if fst (emplace_thread t s) then (True, min (prio_of (snd (emplace_thread t s)) t) l,
       snd (emplace_thread t s)) else (c, l, snd (emplace_thread t s)))"
  by (cases "emplace_thread t s") (auto split: bool.split)

lemma emplace_threads_inv:
  assumes "base_inv s" and "\<forall>t\<in>set ts. is_ppu t"
  shows "base_inv (snd (snd (emplace_threads ts (c, l, s))))
    \<and> set (g_ppu (snd (snd (emplace_threads ts (c, l, s))))) = set ts \<union> set (g_ppu s)
    \<and> cfg_ppu_threads (snd (snd (emplace_threads ts (c, l, s)))) = cfg_ppu_threads s
    \<and> g_to_awake (snd (snd (emplace_threads ts (c, l, s)))) = g_to_awake s"
  using assms
proof (induction ts arbitrary: c l s)
  case (Cons t ts)
  have i: "base_inv (snd (emplace_thread t s))"
    "set (g_ppu (snd (emplace_thread t s))) = insert t (set (g_ppu s))"
    using emplace_thread_inv Cons.prems by auto
  show ?case
    unfolding emplace_threads_step using Cons.IH [OF i(1)] Cons.prems i(2) by simp
qed simp

lemma suspend_thread_frame [simp]:
  "g_ppu (suspend_thread t s) = g_ppu s" "g_waiting (suspend_thread t s) = g_waiting s"
  "g_to_awake (suspend_thread t s) = g_to_awake s"
  "cfg_ppu_threads (suspend_thread t s) = cfg_ppu_threads s"
  "prio (ppus (suspend_thread t s) u) = prio (ppus s u)"
  "flags_of (suspend_thread t s) u = (if u = t then insert F_suspend (flags_of s u) else flags_of s u)"
  "ack_suspend (ppus (suspend_thread t s) u) \<longleftrightarrow>
     ack_suspend (ppus s u) \<or> (u = t \<and> F_suspend \<notin> flags_of s t)"
  by (auto simp: suspend_thread_def Let_def add_flags_def inc_pending_def notify_one_def)

lemma suspend_thread_inv:
  assumes b: "base_inv s" and t: "t \<in> set (g_ppu s)"
  shows "base_inv (suspend_thread t s)"
proof (cases "F_suspend \<in> flags_of s t")
  case False
  let ?A = "{u. ack_suspend (ppus s u)}"
  have r: "run_inv s" and a: "ack_inv s" using b by (simp_all add: base_inv_def)
  have "?A \<subseteq> set (g_ppu s) - {t}" using a False by (auto simp: ack_inv_def)
  then have nin: "t \<notin> ?A" and "card ?A \<le> card (set (g_ppu s) - {t})"
    by (auto intro: card_mono)
  note this(2)
  also have "card (set (g_ppu s) - {t}) < card (set (g_ppu s))"
    using t by (intro psubset_card_mono) auto
  finally have "card ?A + 1 \<le> card (set (g_ppu s))" by simp
  also have "\<dots> \<le> length (g_ppu s)" by (rule card_length)
  also have "\<dots> < 2 ^ 32" using r by (intro ppu_ids_small) (auto simp: run_inv_def)
  finally have lt: "card ?A + 1 < 2 ^ 32" .
  have "g_pending (suspend_thread t s) = (g_pending s + 1) mod 2 ^ 32"
    using False by (simp add: suspend_thread_def Let_def add_flags_def inc_pending_def notify_one_def)
  also have "\<dots> = card ?A + 1" using a lt by (simp add: ack_inv_def)
  also have "\<dots> = card (insert t ?A)"
    using acks_finite [OF r a] nin by simp
  also have "insert t ?A = {u. ack_suspend (ppus (suspend_thread t s) u)}" using False by auto
  finally show ?thesis using b t by (auto simp: base_defs)
qed (use b in \<open>simp add: suspend_thread_def\<close>)

lemma suspend_fold:
  assumes "base_inv s" and "set ts \<subseteq> set (g_ppu s)"
  shows "base_inv (fold suspend_thread ts s) \<and> g_ppu (fold suspend_thread ts s) = g_ppu s
    \<and> cfg_ppu_threads (fold suspend_thread ts s) = cfg_ppu_threads s
    \<and> g_to_awake (fold suspend_thread ts s) = g_to_awake s
    \<and> (\<forall>u. flags_of (fold suspend_thread ts s) u
          = (if u \<in> set ts then insert F_suspend (flags_of s u) else flags_of s u))"
  using assms
proof (induction ts arbitrary: s)
  case (Cons t ts)
  have "base_inv (suspend_thread t s)" using Cons.prems by (intro suspend_thread_inv) auto
  with Cons.IH [of "suspend_thread t s"] Cons.prems show ?case by auto
qed simp

lemma suspend_excess_inv:
  assumes "base_inv s"
  shows "sched_inv (suspend_excess s)" "g_ppu (suspend_excess s) = g_ppu s"
    "cfg_ppu_threads (suspend_excess s) = cfg_ppu_threads s" "g_to_awake (suspend_excess s) = g_to_awake s"
  using suspend_fold [OF assms, of "drop (cfg_ppu_threads s) (g_ppu s)"] set_drop_subset [of "cfg_ppu_threads s" "g_ppu s"]
  by (auto simp: sched_base proc_inv_def suspend_excess_def)

lemma acknowledge_current_inv:
  assumes i: "sched_inv s"
  shows "\<exists>s'. acknowledge_current cur s = Some s' \<and> sched_inv s' \<and> g_ppu s' = g_ppu s
    \<and> cfg_ppu_threads s' = cfg_ppu_threads s \<and> g_to_awake s' = g_to_awake s"
proof -
  have "g_pending s \<noteq> 0" if "ack_suspend (ppus s c)" for c
    using pending_pos [of s c] i that by (simp add: sched_inv_def)
  then show ?thesis
    using i by (auto simp: acknowledge_current_def acknowledge_sched split: option.split)
qed

lemma hw_thread_delay_inv:
  assumes "sched_inv s"
  shows "sched_inv (hw_thread_delay cur c f l s)" "g_ppu (hw_thread_delay cur c f l s) = g_ppu s"
    "cfg_ppu_threads (hw_thread_delay cur c f l s) = cfg_ppu_threads s"
    "g_to_awake (hw_thread_delay cur c f l s) = g_to_awake s"
  by (auto simp: hw_thread_delay_def Let_def assms split: option.split intro!: sched_upd_neutral)

lemma awake_tail_base:
  assumes b: "base_inv (snd (snd (emplace_threads todo (y, 2 ^ 31 - 1, s))))"
    and todo: "todo = (case cpu of Some t \<Rightarrow> if y then g_to_awake s else [t] | None \<Rightarrow> g_to_awake s)"
  shows "\<exists>r s'. awake_tail cur cpu y s = Some (r, s') \<and> sched_inv s'
    \<and> g_ppu s' = g_ppu (snd (snd (emplace_threads todo (y, 2 ^ 31 - 1, s))))
    \<and> cfg_ppu_threads s' = cfg_ppu_threads (snd (snd (emplace_threads todo (y, 2 ^ 31 - 1, s))))
    \<and> g_to_awake s' = g_to_awake (snd (snd (emplace_threads todo (y, 2 ^ 31 - 1, s))))"
proof -
  obtain c l s1 where e: "emplace_threads todo (y, 2 ^ 31 - 1, s) = (c, l, s1)"
    by (cases "emplace_threads todo (y, 2 ^ 31 - 1, s)")
  then have s1: "base_inv s1" using b by simp
  note x = suspend_excess_inv [OF s1]
  obtain s3 where s3: "acknowledge_current cur (suspend_excess s1) = Some s3" "sched_inv s3"
    "g_ppu s3 = g_ppu s1" "cfg_ppu_threads s3 = cfg_ppu_threads s1" "g_to_awake s3 = g_to_awake s1"
    using acknowledge_current_inv [OF x(1)] x(2-4) by metis
  show ?thesis
    unfolding awake_tail_def Let_def todo [symmetric] e
    by (simp add: s3 hw_thread_delay_inv [OF s3(2)])
qed

lemma awake_tail_inv:
  assumes b: "base_inv s" and p: "\<forall>t\<in>set (g_to_awake s). is_ppu t" "\<And>t. cpu = Some t \<Longrightarrow> is_ppu t"
  shows "\<exists>r s'. awake_tail cur cpu y s = Some (r, s') \<and> sched_inv s'
    \<and> set (g_ppu s') = set (case cpu of Some t \<Rightarrow> if y then g_to_awake s else [t] | None \<Rightarrow> g_to_awake s) \<union> set (g_ppu s)
    \<and> g_to_awake s' = g_to_awake s"
proof -
  define todo where "todo = (case cpu of Some t \<Rightarrow> if y then g_to_awake s else [t] | None \<Rightarrow> g_to_awake s)"
  have "\<forall>t\<in>set todo. is_ppu t" using p by (auto simp: todo_def split: option.splits)
  note e = emplace_threads_inv [OF b this]
  from awake_tail_base [OF conjunct1 [OF e] todo_def] obtain r s' where
    "awake_tail cur cpu y s = Some (r, s')" "sched_inv s'" "set (g_ppu s') = set todo \<union> set (g_ppu s)"
    "g_to_awake s' = g_to_awake s"
    using e by metis
  then show ?thesis by (auto simp: todo_def split: option.splits)
qed

lemma rotate_run_props:
  assumes "rotate_run pr t xs = Some (i, q)" and "sorted (map pr xs)" and "distinct xs"
  shows "mset q = mset xs" "sorted (map pr q)"
    "i < n \<Longrightarrow> drop n q = drop n xs"
proof -
  define pre rest where "pre = takeWhile (\<lambda>x. x \<noteq> t) xs" and "rest = tl (dropWhile (\<lambda>x. x \<noteq> t) xs)"
  define same after where "same = takeWhile (\<lambda>x. pr x = pr t) rest"
    and "after = dropWhile (\<lambda>x. pr x = pr t) rest"
  have t: "t \<in> set xs" and i: "i = length pre + length same" and q: "q = pre @ same @ t # after"
    using assms(1) by (auto simp: rotate_run_def Let_def pre_def rest_def same_def after_def split: if_splits)
  obtain ys zs where xs: "xs = ys @ t # zs" and "t \<notin> set ys" using split_list_first [OF t] by blast
  then have "dropWhile (\<lambda>x. x \<noteq> t) xs = t # zs" by (subst xs, subst dropWhile_append2) auto
  with xs \<open>t \<notin> set ys\<close> have "pre = ys" "rest = zs" by (auto simp: pre_def rest_def takeWhile_tail)
  then have xs': "xs = pre @ t # same @ after" using xs by (simp add: same_def after_def)
  show "mset q = mset xs" by (simp add: q xs')
  have "pr x = pr t" if "x \<in> set same" for x using that by (auto simp: same_def dest: set_takeWhileD)
  then show "sorted (map pr q)" using assms(2) by (auto simp: q xs' sorted_append)
  show "drop n q = drop n xs" if "i < n"
    using less_imp_Suc_add [OF that] by (auto simp: q xs' i)
qed

lemma set_prio_frame [simp]:
  "g_ppu (set_prio t v l f s) = g_ppu s" "g_waiting (set_prio t v l f s) = g_waiting s"
  "g_pending (set_prio t v l f s) = g_pending s" "g_to_awake (set_prio t v l f s) = g_to_awake s"
  "cfg_ppu_threads (set_prio t v l f s) = cfg_ppu_threads s"
  "flags_of (set_prio t v l f s) u = flags_of s u"
  "ack_suspend (ppus (set_prio t v l f s) u) = ack_suspend (ppus s u)"
  "prio_of (set_prio t v l f s) u = (if u = t then signed_take_bit 12 v else prio_of s u)"
  by (auto simp: set_prio_def Let_def put_prio_def put_order_def)

lemma set_prio_inv:
  assumes i: "sched_inv s" and c: "t \<notin> set (g_ppu s) \<or> prio_of s t = v"
  shows "sched_inv (set_prio t v l f s)"
proof -
  have "map (prio_of (set_prio t v l f s)) (g_ppu s) = map (prio_of s) (g_ppu s)"
    using i c by (auto simp: sched_inv_def run_inv_def)
  then show ?thesis using i by (auto simp: inv_defs simp del: map_eq_conv)
qed

lemma requeue_inv:
  assumes i: "sched_inv s" and t: "is_ppu t" "t \<in> set (g_ppu s)"
  shows "base_inv (snd (emplace_thread t (set_prio t v False False (s\<lparr>g_ppu := remove1 t (g_ppu s)\<rparr>))))"
proof (rule emplace_new_inv)
  let ?s = "s\<lparr>g_ppu := remove1 t (g_ppu s)\<rparr>"
  have m: "map (prio_of (set_prio t v False False ?s)) (remove1 t (g_ppu s)) = map (prio_of s) (remove1 t (g_ppu s))"
    using i by (auto simp: inv_defs)
  show "run_inv (set_prio t v False False ?s)"
    using i by (simp add: run_inv_def m sched_inv_def sorted_map_remove1 del: map_eq_conv set_prio_frame(8))
      (auto simp: sorted_map_remove1 m)
  show "wait_inv (g_waiting (set_prio t v False False ?s)) (set_prio t v False False ?s)"
    using i by (auto simp: inv_defs)
qed (use i t in \<open>auto simp: inv_defs\<close>)

lemma rotate_inv:
  assumes i: "sched_inv s" and r: "rotate_run (prio_of s) t (g_ppu s) = Some (k, q)"
  shows "base_inv (s\<lparr>g_ppu := q\<rparr>)" "k < cfg_ppu_threads s \<Longrightarrow> sched_inv (s\<lparr>g_ppu := q\<rparr>)"
proof -
  have o: "sorted (map (prio_of s) (g_ppu s))" "distinct (g_ppu s)" using i by (simp_all add: inv_defs)
  note q = rotate_run_props [OF r o]
  have s: "set q = set (g_ppu s)" "distinct q"
    using q(1) o(2) by (auto dest: mset_eq_setD mset_eq_imp_distinct_iff)
  show b: "base_inv (s\<lparr>g_ppu := q\<rparr>)" using i s q(2) by (simp add: inv_defs base_inv_def)
  show "sched_inv (s\<lparr>g_ppu := q\<rparr>)" if "k < cfg_ppu_threads s"
    using b i q(3) [OF that] by (simp add: sched_base proc_inv_def)
qed

definition cmd_ok :: "tid option \<Rightarrow> thread_cmd \<Rightarrow> bool" where
  "cmd_ok cpu cmd \<longleftrightarrow> (case cpu of Some t \<Rightarrow> is_ppu t | None \<Rightarrow> cmd = Enqueue_cmd)"

lemma awake_unlocked_inv:
  assumes i: "sched_inv s" and p: "\<forall>t\<in>set (g_to_awake s). is_ppu t" and c: "cmd_ok cpu cmd"
  shows "\<exists>r s'. awake_unlocked cur now cpu cmd s = Some (r, s') \<and> sched_inv s' \<and> g_to_awake s' = g_to_awake s"
proof -
  have b: "base_inv s" using i by (simp add: sched_base)
  have cp: "\<And>t. cpu = Some t \<Longrightarrow> is_ppu t" using c by (simp add: cmd_ok_def)
  show ?thesis
  proof (cases cmd)
    case Enqueue_cmd
    then show ?thesis using awake_tail_inv [OF b p cp, where cpu = cpu and cur = cur and y = False] by (auto simp: awake_unlocked_def)
  next
    case (Set_prio_cmd v)
    with c obtain t where t: "cpu = Some t" "is_ppu t" by (auto simp: cmd_ok_def split: option.splits)
    let ?s = "set_prio t v False False (s\<lparr>g_ppu := remove1 t (g_ppu s)\<rparr>)"
    have tl: "\<exists>r s'. awake_tail cur (Some t) False ?s = Some (r, s') \<and> sched_inv s' \<and> g_to_awake s' = g_to_awake s" if "t \<in> set (g_ppu s)"
    proof -
      have "base_inv (snd (snd (emplace_threads [t] (False, 2 ^ 31 - 1, ?s))))"
        using requeue_inv [OF i t(2) that, of v] by (simp add: emplace_threads_step del: emplace_threads.simps(2))
      from awake_tail_base [OF this, of "Some t" cur] show ?thesis
        by (auto simp: emplace_threads_step simp del: emplace_threads.simps(2))
    qed
    then show ?thesis
      using i t(1) Set_prio_cmd by (auto simp: awake_unlocked_def Let_def intro!: set_prio_inv)
  next
    case Yield_cmd
    with c obtain t where t: "cpu = Some t" by (auto simp: cmd_ok_def split: option.splits)
    show ?thesis
    proof (cases "rotate_run (prio_of s) t (g_ppu s)")
      case None
      then show ?thesis using i t Yield_cmd by (auto simp: awake_unlocked_def)
    next
      case (Some kq)
      obtain k q where kq: "kq = (k, q)" by (cases kq)
      note ri = rotate_inv [OF i Some [unfolded kq]]
      have "base_inv (upd_ppu t (\<lambda>p. p\<lparr>start_time := now\<rparr>) (s\<lparr>g_ppu := q\<rparr>))"
        by (rule base_upd_neutral) (simp_all add: ri)
      from awake_tail_inv [OF this _ cp, where cpu = cpu and cur = cur and y = True] p
      show ?thesis using t Yield_cmd Some ri(2) by (auto simp: awake_unlocked_def kq Let_def)
    qed
  qed
qed

subsection \<open>Dispatching\<close>

lemma wake_thread_frame [simp]:
  "g_ppu (wake_thread t s) = g_ppu s" "g_waiting (wake_thread t s) = g_waiting s"
  "g_pending (wake_thread t s) = g_pending s" "g_to_awake (wake_thread t s) = g_to_awake s"
  "cfg_ppu_threads (wake_thread t s) = cfg_ppu_threads s"
  "prio (ppus (wake_thread t s) u) = prio (ppus s u)"
  "ack_suspend (ppus (wake_thread t s) u) = ack_suspend (ppus s u)"
  "u \<noteq> t \<Longrightarrow> ppus (wake_thread t s) u = ppus s u"
  "F_suspend \<in> flags_of (wake_thread t s) u \<longleftrightarrow> u \<noteq> t \<and> F_suspend \<in> flags_of s u"
  "F_notify \<in> flags_of (wake_thread t s) u \<longleftrightarrow> F_notify \<in> flags_of s u"
  by (auto simp: wake_thread_def Let_def notify_one_def)

lemma wake_fold:
  "g_ppu (fold wake_thread ts s) = g_ppu s" "g_waiting (fold wake_thread ts s) = g_waiting s"
  "g_pending (fold wake_thread ts s) = g_pending s"
  "g_to_awake (fold wake_thread ts s) = g_to_awake s"
  "cfg_ppu_threads (fold wake_thread ts s) = cfg_ppu_threads s"
  "prio (ppus (fold wake_thread ts s) u) = prio (ppus s u)"
  "ack_suspend (ppus (fold wake_thread ts s) u) = ack_suspend (ppus s u)"
  "F_suspend \<in> flags_of (fold wake_thread ts s) u \<longleftrightarrow> u \<notin> set ts \<and> F_suspend \<in> flags_of s u"
  "F_notify \<in> flags_of (fold wake_thread ts s) u \<longleftrightarrow> F_notify \<in> flags_of s u"
  "u \<notin> set ts \<Longrightarrow> ppus (fold wake_thread ts s) u = ppus s u"
  by (induction ts arbitrary: s) auto

lemma set_take_drop_disjoint: "distinct xs \<Longrightarrow> x \<in> set (take n xs) \<Longrightarrow> x \<notin> set (drop n xs)"
  using set_take_disj_set_drop_if_distinct [of xs n n] by auto

lemma wake_threads_inv:
  assumes i: "sched_inv s"
  shows "sched_inv (wake_threads s)" "g_ppu (wake_threads s) = g_ppu s"
    "g_waiting (wake_threads s) = g_waiting s" "cfg_ppu_threads (wake_threads s) = cfg_ppu_threads s"
    "g_to_awake (wake_threads s) = g_to_awake s"
proof -
  show "sched_inv (wake_threads s)"
  proof (cases "g_pending s = 0 \<and> g_scheduler_ready s")
    case True
    have "\<not> ack_suspend (ppus s t)" for t using i True pending_zero [of s t] by (simp add: sched_inv_def)
    moreover have "x \<notin> set (drop n (g_ppu s))" if "x \<in> set (take n (g_ppu s))" for x n
      using i that by (auto simp: inv_defs dest: set_take_drop_disjoint)
    ultimately show ?thesis using i True by (auto simp: wake_threads_def inv_defs wake_fold)
  qed (use i in \<open>auto simp: wake_threads_def\<close>)
qed (auto simp: wake_threads_def wake_fold)

lemma inv_add_flags:
  "run_inv (add_flags t F s) = run_inv s" "ack_inv s \<Longrightarrow> ack_inv (add_flags t F s)"
  "proc_inv s \<Longrightarrow> proc_inv (add_flags t F s)"
  "F_notify \<notin> F \<Longrightarrow> wait_inv ws s \<Longrightarrow> wait_inv ws (add_flags t F s)"
proof -
  have "prio (ppus (add_flags t F s) u) = prio (ppus s u)" "g_ppu (add_flags t F s) = g_ppu s" for u
    by (auto simp: add_flags_def)
  then show "run_inv (add_flags t F s) = run_inv s" by (simp add: run_inv_def)
  have "{u. ack_suspend (ppus (add_flags t F s) u)} = {u. ack_suspend (ppus s u)}"
    by (auto simp: add_flags_def)
  then show "ack_inv s \<Longrightarrow> ack_inv (add_flags t F s)" unfolding ack_inv_def by (auto simp: add_flags_def)
qed (auto simp: proc_inv_def wait_inv_def add_flags_def)

lemma inv_notify_one [simp]:
  "run_inv (notify_one t s) = run_inv s" "ack_inv (notify_one t s) = ack_inv s"
  "proc_inv (notify_one t s) = proc_inv s" "wait_inv ws (notify_one t s) = wait_inv ws s"
  by (simp_all add: notify_one_def inv_defs)

lemma wait_inv_expire:
  assumes "wait_inv ((w, t) # r) s"
  shows "t \<notin> snd ` set r" "wait_inv r s" "F_notify \<notin> flags_of s t"
    "wait_inv r (add_flags t {F_notify} s)"
  using assms by (auto simp: wait_inv_def add_flags_def)

lemma inv_set_waiting [simp]:
  "run_inv (s\<lparr>g_waiting := ws\<rparr>) = run_inv s" "ack_inv (s\<lparr>g_waiting := ws\<rparr>) = ack_inv s"
  "proc_inv (s\<lparr>g_waiting := ws\<rparr>) = proc_inv s" "wait_inv vs (s\<lparr>g_waiting := ws\<rparr>) = wait_inv vs s"
  by (simp_all add: inv_defs)

definition expired :: "nat \<Rightarrow> (nat \<times> tid) list \<Rightarrow> tid list" where
  "expired now ws = map snd (takeWhile (\<lambda>(w, t). w \<le> now) ws)"

lemma expire_timeouts_inv:
  assumes "run_inv s" "ack_inv s" "proc_inv s" and "wait_inv ws s"
  shows "\<exists>s'. expire_timeouts cur now ws s = Some s' \<and> sched_inv s' \<and> g_ppu s' = g_ppu s
    \<and> g_to_awake s' = g_to_awake s \<and> cfg_ppu_threads s' = cfg_ppu_threads s
    \<and> g_waiting s' = dropWhile (\<lambda>(w, t). w \<le> now) ws
    \<and> (\<forall>u. flags_of s' u = flags_of s u \<union>
          (if cur \<noteq> Some u \<and> u \<in> set (expired now ws) then {F_notify} else {}))"
  using assms
proof (induction cur now ws s rule: expire_timeouts.induct)
  case (2 cur now w t r s)
  let ?s = "notify_one t (add_flags t {F_notify} s)"
  note w = wait_inv_expire [OF 2(6)]
  have i: "run_inv ?s" "ack_inv ?s" "proc_inv ?s" "wait_inv r ?s"
    using 2(3-5) w(4) by (simp_all add: inv_add_flags)
  consider "w > now" | "w \<le> now" "cur = Some t" | "w \<le> now" "cur \<noteq> Some t" by linarith
  then show ?case
  proof cases
    case 1
    then show ?thesis using 2(3-6) by (auto simp: sched_inv_def expired_def)
  next
    case 2
    then show ?thesis using "2.IH"(1) [OF 2] "2.prems" w(2) by (auto simp: expired_def)
  next
    case 3
    obtain s' where s': "expire_timeouts cur now r ?s = Some s'" "sched_inv s'" "g_ppu s' = g_ppu ?s"
      "g_to_awake s' = g_to_awake ?s" "cfg_ppu_threads s' = cfg_ppu_threads ?s"
      "g_waiting s' = dropWhile (\<lambda>(w, t). w \<le> now) r"
      "\<And>u. flags_of s' u = flags_of ?s u \<union>
          (if cur \<noteq> Some u \<and> u \<in> set (expired now r) then {F_notify} else {})"
      using "2.IH"(2) [OF 3 w(3) i] by blast
    show ?thesis
      by (rule exI [of _ s']) (use 3 w(3) s' in \<open>auto simp: expired_def notify_one_def add_flags_def\<close>)
  qed
qed (auto simp: sched_inv_def expired_def)

lemma preempt_one_inv:
  assumes "sched_inv s"
  shows "sched_inv (preempt_one cur tsc s)"
proof -
  have "g_waiting (add_flags t {F_preempt} s) = g_waiting s" for t by (simp add: add_flags_def)
  then have "sched_inv (add_flags t {F_preempt} s)" for t
    using assms by (simp add: sched_inv_def inv_add_flags)
  then have "sched_inv ((add_flags t {F_preempt} s)\<lparr>s_last_yield_tsc := a, g_lv2_preempts_taken := b,
      rsx_yield := c\<rparr>)" for t a b c by (simp add: inv_defs)
  then show ?thesis using assms by (auto simp: preempt_one_def Let_def split: option.split)
qed

lemma preempt_one_frame:
  "g_ppu (preempt_one cur tsc s) = g_ppu s"
  "g_waiting (preempt_one cur tsc s) = g_waiting s" "g_to_awake (preempt_one cur tsc s) = g_to_awake s"
  "cfg_ppu_threads (preempt_one cur tsc s) = cfg_ppu_threads s"
  "g \<noteq> F_preempt \<Longrightarrow> g \<in> flags_of (preempt_one cur tsc s) u \<longleftrightarrow> g \<in> flags_of s u"
  by (auto simp: preempt_one_def Let_def add_flags_def split: option.split)

lemma schedule_all_inv:
  assumes i: "sched_inv s"
  shows "\<exists>s'. schedule_all cur now tsc s = Some s' \<and> sched_inv s' \<and> g_ppu s' = g_ppu s
    \<and> cfg_ppu_threads s' = cfg_ppu_threads s \<and> g_to_awake s' = g_to_awake s
    \<and> g_waiting s' = dropWhile (\<lambda>(w, t). w \<le> now) (g_waiting s)
    \<and> (\<forall>u. F_suspend \<in> flags_of s' u \<longleftrightarrow> F_suspend \<in> flags_of (wake_threads s) u)
    \<and> (\<forall>u. F_notify \<in> flags_of s' u \<longleftrightarrow>
          F_notify \<in> flags_of s u \<or> (cur \<noteq> Some u \<and> u \<in> set (expired now (g_waiting s))))"
proof -
  note w = wake_threads_inv [OF i]
  have n: "F_notify \<in> flags_of (wake_threads s) u \<longleftrightarrow> F_notify \<in> flags_of s u" for u
    by (simp add: wake_threads_def wake_fold)
  have "run_inv (wake_threads s)" "ack_inv (wake_threads s)" "proc_inv (wake_threads s)"
    "wait_inv (g_waiting s) (wake_threads s)" using w(1,3) by (simp_all add: sched_inv_def)
  from expire_timeouts_inv [OF this, of cur now] obtain s' where
    s': "expire_timeouts cur now (g_waiting s) (wake_threads s) = Some s'" "sched_inv s'"
    "g_ppu s' = g_ppu s" "g_to_awake s' = g_to_awake s" "cfg_ppu_threads s' = cfg_ppu_threads s"
    "g_waiting s' = dropWhile (\<lambda>(w, t). w \<le> now) (g_waiting s)"
    "\<And>u. flags_of s' u = flags_of (wake_threads s) u \<union>
       (if cur \<noteq> Some u \<and> u \<in> set (expired now (g_waiting s)) then {F_notify} else {})"
    using w by auto
  show ?thesis
    by (rule exI [of _ "preempt_one cur tsc s'"])
      (auto simp: schedule_all_def Let_def w(3) s' preempt_one_inv preempt_one_frame n)
qed

section \<open>Correctness of the scheduler\<close>

lemma clear_res_notify_inv: "sched_inv s \<Longrightarrow> sched_inv (clear_res_notify t s)"
  by (auto simp: clear_res_notify_def intro!: sched_upd_neutral)

lemma clear_res_notify_frame [simp]:
  "g_ppu (clear_res_notify t s) = g_ppu s" "g_to_awake (clear_res_notify t s) = g_to_awake s"
  "flags_of (clear_res_notify t s) u = flags_of s u"
  "prio (ppus (clear_res_notify t s) u) = prio (ppus s u)"
  "cfg_ppu_threads (clear_res_notify t s) = cfg_ppu_threads s"
  by (auto simp: clear_res_notify_def)

lemma sleep_inv:
  assumes i: "sched_inv s" and t: "is_ppu t \<or> is_spu t"
    and n: "timeout \<noteq> 0 \<Longrightarrow> F_notify \<notin> flags_of s t" and p: "\<forall>u\<in>set (g_to_awake s). is_ppu u"
  shows "\<exists>r s'. sleep cur t timeout now tsc s = Some (r, s') \<and> sched_inv s' \<and> g_to_awake s' = []"
proof -
  let ?s = "clear_res_notify t s"
  have "sched_inv ?s" using i by (rule clear_res_notify_inv)
  then obtain r s1 where s1: "sleep_unlocked t timeout now ?s = Some (r, s1)" "sched_inv s1"
    "g_to_awake s1 = g_to_awake s"
    using sleep_unlocked_ppu [of ?s t timeout now] sleep_unlocked_spu [of ?s t timeout now] t n by force
  obtain s2 where s2: "(if g_to_awake s1 = [] then Some s1
      else map_option snd (awake_unlocked cur now None Enqueue_cmd s1)) = Some s2" "sched_inv s2"
    using awake_unlocked_inv [of s1 None Enqueue_cmd cur now] s1 p
    by (cases "g_to_awake s1 = []") (auto simp: cmd_ok_def)
  obtain s3 where "schedule_all cur now tsc s2 = Some s3" "sched_inv s3"
    using schedule_all_inv [OF s2(2)] by blast
  then show ?thesis using s1(1) s2(1) by (auto simp: sleep_def)
qed

lemma awake_inv:
  assumes i: "sched_inv s" and p: "\<forall>u\<in>set (g_to_awake s). is_ppu u" and c: "cmd_ok cpu cmd"
  shows "\<exists>r s'. awake cur cpu cmd now tsc s = Some (r, s') \<and> sched_inv s' \<and> g_to_awake s' = g_to_awake s"
proof -
  let ?s = "case cur of Some c \<Rightarrow> clear_res_notify c s | None \<Rightarrow> s"
  have "sched_inv ?s" and g: "g_to_awake ?s = g_to_awake s"
    using i by (auto simp: clear_res_notify_inv split: option.split)
  then obtain r s1 where s1: "awake_unlocked cur now cpu cmd ?s = Some (r, s1)" "sched_inv s1"
    "g_to_awake s1 = g_to_awake s"
    using awake_unlocked_inv [of ?s cpu cmd cur now] c p by auto
  obtain s2 where "schedule_all cur now tsc s1 = Some s2" "sched_inv s2" "g_to_awake s2 = g_to_awake s"
    using schedule_all_inv [OF s1(2), of cur now tsc] s1(3) by auto
  then show ?thesis using s1(1) by (simp add: awake_def)
qed

lemma yield_inv:
  assumes i: "sched_inv s" and p: "\<forall>u\<in>set (g_to_awake s). is_ppu u" and t: "is_ppu t"
  shows "\<exists>r s'. yield cur t now tsc s = Some (r, s') \<and> sched_inv s' \<and> g_to_awake s' = g_to_awake s"
proof -
  have "sched_inv (upd_ppu t (\<lambda>p. p\<lparr>raddr := 0\<rparr>) s)" by (rule sched_upd_neutral) (simp_all add: i)
  then show ?thesis
    using awake_inv [of "upd_ppu t (\<lambda>p. p\<lparr>raddr := 0\<rparr>) s" "Some t" Yield_cmd] p t
    by (auto simp: yield_def Let_def cmd_ok_def)
qed

lemma awake_all_inv:
  assumes "sched_inv s" and "\<forall>u\<in>set (g_to_awake s). is_ppu u"
  shows "\<exists>s'. awake_all cur now tsc s = Some s' \<and> sched_inv s' \<and> g_to_awake s' = []"
  using awake_inv [OF assms, of None Enqueue_cmd cur now tsc] by (auto simp: awake_all_def cmd_ok_def)

subsection \<open>What the scheduler leaves alone\<close>

text \<open>
  Waking, sleeping and dispatching touch no register and no priority, and of the thread flags only
  the scheduling ones.
\<close>

definition quiet_flags :: "cpu_flag set" where
  "quiet_flags = {F_suspend, F_notify, F_yield, F_preempt}"

definition sched_flags :: "cpu_flag set" where
  "sched_flags = insert F_signal quiet_flags"

definition thr_frame :: "cpu_flag set \<Rightarrow> lv2 \<Rightarrow> lv2 \<Rightarrow> bool" where
  "thr_frame F s s' \<longleftrightarrow> (\<forall>t. gpr (ppus s' t) = gpr (ppus s t) \<and> prio (ppus s' t) = prio (ppus s t)
     \<and> flags_of s' t - F = flags_of s t - F)
     \<and> g_priority_order_tag s' = g_priority_order_tag s"

lemma thr_frame_refl [simp]: "thr_frame F s s"
  by (simp add: thr_frame_def)

lemma thr_frame_trans: "thr_frame F s s' \<Longrightarrow> thr_frame F s' s'' \<Longrightarrow> thr_frame F s s''"
  by (simp add: thr_frame_def)

lemma thr_frame_flag: "thr_frame F s s' \<Longrightarrow> f \<notin> F \<Longrightarrow> f \<in> flags_of s' t \<longleftrightarrow> f \<in> flags_of s t"
  unfolding thr_frame_def by blast

lemma thr_frame_upd:
  assumes "\<And>p. gpr (f p) = gpr p" "\<And>p. prio (f p) = prio p" "\<And>p. state (f p) - F = state p - F"
  shows "thr_frame F s (upd_ppu t f s)"
  using assms by (simp add: thr_frame_def)

lemma thr_frame_fields [simp]:
  "thr_frame F s (s'\<lparr>g_ppu := a\<rparr>) = thr_frame F s s'" "thr_frame F s (s'\<lparr>g_waiting := b\<rparr>) = thr_frame F s s'"
  "thr_frame F s (s'\<lparr>g_pending := c\<rparr>) = thr_frame F s s'" "thr_frame F s (s'\<lparr>to_notify := d\<rparr>) = thr_frame F s s'"
  "thr_frame F s (s'\<lparr>g_to_awake := g\<rparr>) = thr_frame F s s'" "thr_frame F s (s'\<lparr>g_to_sleep := h\<rparr>) = thr_frame F s s'"
  "thr_frame F s (s'\<lparr>s_last_yield_tsc := i\<rparr>) = thr_frame F s s'" "thr_frame F s (s'\<lparr>g_lv2_preempts_taken := j\<rparr>) = thr_frame F s s'"
  "thr_frame F s (s'\<lparr>rsx_yield := k\<rparr>) = thr_frame F s s'"
  by (simp_all add: thr_frame_def)

lemma thr_frame_add: "G \<subseteq> F \<Longrightarrow> thr_frame F s (add_flags t G s)"
  unfolding add_flags_def by (rule thr_frame_upd) auto

lemma acknowledge_thr: "thr_frame F s (acknowledge t s)"
  by (auto simp: acknowledge_def dec_pending_def intro: thr_frame_upd)

lemma register_timeout_thr [simp]: "thr_frame F s (register_timeout a t b s') = thr_frame F s s'"
  by (simp add: register_timeout_def)

lemma sleep_unlocked_thr:
  assumes "sleep_unlocked t timeout now s = Some (r, s')"
  shows "thr_frame quiet_flags s s'"
proof -
  define s2 where "s2 = upd_ppu t (\<lambda>p. p\<lparr>cancel_sleep := 0\<rparr>) (acknowledge t s)"
  have 2: "thr_frame quiet_flags s s2" unfolding s2_def
    by (rule thr_frame_trans [OF acknowledge_thr]) (rule thr_frame_upd, auto)
  have 3: "thr_frame quiet_flags s (add_flags t {F_suspend} s2)"
    by (rule thr_frame_trans [OF 2]) (rule thr_frame_add, simp add: quiet_flags_def)
  have 4: "thr_frame quiet_flags s (upd_ppu t f ((add_flags t {F_suspend} s2)\<lparr>g_ppu := q\<rparr>))"
    "thr_frame quiet_flags s (upd_ppu t f ((add_flags t {F_suspend} s2)\<lparr>g_to_sleep := q\<rparr>))"
    if "\<And>p. gpr (f p) = gpr p" "\<And>p. prio (f p) = prio p" "\<And>p. state (f p) = state p" for f q
    by (rule thr_frame_trans [OF _ thr_frame_upd]; simp add: that 3)+
  show ?thesis
    using assms 2 3 by (auto simp: sleep_unlocked_def Let_def s2_def [symmetric] split: if_splits intro!: 4)
qed

lemma emplace_threads_thr: "thr_frame quiet_flags s (snd (snd (emplace_threads ts (c, l, s))))"
proof (induction ts arbitrary: c l s)
  case (Cons t ts)
  have "thr_frame quiet_flags s (snd (emplace_thread t s))"
    by (auto simp: emplace_thread_def intro: thr_frame_upd split: option.split)
  with Cons [where s = "snd (emplace_thread t s)"] show ?case
    unfolding emplace_threads_step by (auto intro: thr_frame_trans)
qed simp

lemma suspend_thread_thr: "thr_frame quiet_flags s (suspend_thread t s)"
proof -
  have "thr_frame quiet_flags s (add_flags t {F_suspend} (inc_pending (upd_ppu t (\<lambda>p. p\<lparr>ack_suspend := True\<rparr>) s)))"
    by (rule thr_frame_trans [OF _ thr_frame_add])
      (auto simp: inc_pending_def quiet_flags_def intro: thr_frame_upd)
  then show ?thesis by (simp add: suspend_thread_def Let_def notify_one_def)
qed

lemma fold_thr: "(\<And>t s. thr_frame F s (f t s)) \<Longrightarrow> thr_frame F s (fold f ts s)"
  by (induction ts arbitrary: s) (auto intro: thr_frame_trans)

lemma awake_tail_thr:
  assumes "awake_tail cur cpu y s = Some (r, s')"
  shows "thr_frame quiet_flags s s'"
proof -
  obtain todo c l s1 where 1: "emplace_threads todo (y, 2 ^ 31 - 1, s) = (c, l, s1)"
    and a: "\<exists>s2 f. acknowledge_current cur (suspend_excess s1) = Some s2 \<and> s' = hw_thread_delay cur c f l s2"
    using assms by (fastforce simp: awake_tail_def Let_def split: prod.splits option.splits)
  have "thr_frame quiet_flags s s1" using emplace_threads_thr [of s todo y "2 ^ 31 - 1"] 1 by simp
  moreover have "thr_frame quiet_flags s1 (suspend_excess s1)"
    unfolding suspend_excess_def by (rule fold_thr) (rule suspend_thread_thr)
  moreover have "thr_frame quiet_flags x y" if "acknowledge_current cur x = Some y" for x y
    using that by (auto simp: acknowledge_current_def acknowledge_thr split: option.splits if_splits)
  moreover have "thr_frame quiet_flags x (hw_thread_delay cur c f l x)" for f x
    by (auto simp: hw_thread_delay_def Let_def quiet_flags_def intro!: thr_frame_upd split: option.split)
  ultimately show ?thesis using a by (metis thr_frame_trans)
qed

lemma wake_thread_thr: "thr_frame sched_flags s (wake_thread t s)"
  by (auto simp: wake_thread_def Let_def notify_one_def sched_flags_def quiet_flags_def intro!: thr_frame_upd)

lemma expire_timeouts_thr: "expire_timeouts cur now ws s = Some s' \<Longrightarrow> thr_frame quiet_flags s s'"
proof (induction cur now ws s rule: expire_timeouts.induct)
  case (2 cur now w t r s)
  have "thr_frame quiet_flags s (notify_one t (add_flags t {F_notify} s))"
    using thr_frame_add [of "{F_notify}" quiet_flags s t] by (simp add: notify_one_def quiet_flags_def)
  with 2 show ?case by (auto split: if_splits intro: thr_frame_trans)
qed auto

lemma preempt_one_thr: "thr_frame quiet_flags s (preempt_one cur tsc s)"
  by (auto simp: preempt_one_def Let_def quiet_flags_def intro!: thr_frame_add split: option.split)

lemma quiet_sched: "thr_frame quiet_flags s s' \<Longrightarrow> thr_frame sched_flags s s'"
  unfolding thr_frame_def sched_flags_def by blast

lemma schedule_all_thr:
  assumes "schedule_all cur now tsc s = Some s'"
  shows "thr_frame sched_flags s s'"
proof -
  have "thr_frame sched_flags s (wake_threads s)" by (auto simp: wake_threads_def intro: fold_thr wake_thread_thr)
  moreover have "thr_frame sched_flags x (preempt_one cur tsc x)" for x
    using preempt_one_thr quiet_sched by blast
  moreover obtain y where "expire_timeouts cur now (g_waiting (wake_threads s)) (wake_threads s) = Some y"
    "s' = preempt_one cur tsc y"
    using assms by (auto simp: schedule_all_def Let_def)
  ultimately show ?thesis using expire_timeouts_thr quiet_sched by (metis thr_frame_trans)
qed

lemma sleep_thr:
  assumes "sleep cur t timeout now tsc s = Some (r, s')"
  shows "thr_frame sched_flags s s'"
proof -
  have c: "thr_frame sched_flags s (clear_res_notify t s)"
    by (auto simp: clear_res_notify_def intro: thr_frame_upd)
  have e: "thr_frame sched_flags x y" if "awake_unlocked cur now None Enqueue_cmd x = Some (q, y)" for q x y
    using that by (auto simp: awake_unlocked_def intro: quiet_sched awake_tail_thr)
  show ?thesis
    using assms c by (fastforce simp: sleep_def split: option.splits if_splits
      dest: quiet_sched [OF sleep_unlocked_thr] e schedule_all_thr intro: thr_frame_trans)
qed

lemma awake_thr:
  assumes "awake cur cpu Enqueue_cmd now tsc s = Some (r, s')"
  shows "thr_frame sched_flags s s'"
proof -
  have c: "thr_frame sched_flags s (clear_res_notify t s)" for t
    by (auto simp: clear_res_notify_def intro: thr_frame_upd)
  show ?thesis
    using assms c by (fastforce simp: awake_def awake_unlocked_def split: option.splits
      dest: quiet_sched [OF awake_tail_thr] schedule_all_thr intro: thr_frame_trans)
qed

text \<open>A signal is only raised for a thread that is in the run queue afterwards.\<close>

lemma schedule_all_signal:
  assumes "schedule_all cur now tsc s = Some s'" and "F_signal \<in> flags_of s' t"
  shows "F_signal \<in> flags_of s t \<or> t \<in> set (g_ppu s)"
proof -
  obtain y where y: "expire_timeouts cur now (g_waiting (wake_threads s)) (wake_threads s) = Some y"
    "s' = preempt_one cur tsc y"
    using assms by (auto simp: schedule_all_def Let_def)
  have "thr_frame quiet_flags (wake_threads s) s'"
    using expire_timeouts_thr [OF y(1)] preempt_one_thr y(2) by (metis thr_frame_trans)
  then have "F_signal \<in> flags_of (wake_threads s) t"
    using assms(2) thr_frame_flag [of quiet_flags "wake_threads s" s' F_signal t] by (simp add: quiet_flags_def)
  moreover have "ppus (wake_threads s) t = ppus s t" if "t \<notin> set (g_ppu s)"
    using that wake_fold(10) [of t "take (cfg_ppu_threads s) (g_ppu s)" s] set_take_subset [of "cfg_ppu_threads s" "g_ppu s"]
    by (auto simp: wake_threads_def)
  ultimately show ?thesis by auto
qed

subsection \<open>The operations as kernel objects use them\<close>

lemma awake_enqueue:
  assumes i: "sched_inv s" and p: "\<forall>u\<in>set (g_to_awake s). is_ppu u" and c: "\<And>t. cpu = Some t \<Longrightarrow> is_ppu t"
  shows "\<exists>r s'. awake cur cpu Enqueue_cmd now tsc s = Some (r, s') \<and> sched_inv s' \<and> g_to_awake s' = g_to_awake s
    \<and> set (g_ppu s') = set (case cpu of Some t \<Rightarrow> [t] | None \<Rightarrow> g_to_awake s) \<union> set (g_ppu s) \<and> thr_frame sched_flags s s'
    \<and> (\<forall>t. F_signal \<in> flags_of s' t \<longrightarrow> F_signal \<in> flags_of s t \<or> t \<in> set (g_ppu s'))"
proof -
  define s0 where "s0 = (case cur of Some c \<Rightarrow> clear_res_notify c s | None \<Rightarrow> s)"
  have s0: "base_inv s0" "g_to_awake s0 = g_to_awake s" "g_ppu s0 = g_ppu s"
    using i by (auto simp: s0_def clear_res_notify_inv sched_base [symmetric] conjunct1 [OF sched_base [THEN iffD1]] split: option.split)
  obtain r s1 where s1: "awake_tail cur cpu False s0 = Some (r, s1)" "sched_inv s1" "g_to_awake s1 = g_to_awake s"
    "set (g_ppu s1) = set (case cpu of Some t \<Rightarrow> [t] | None \<Rightarrow> g_to_awake s) \<union> set (g_ppu s)"
    using awake_tail_inv [OF s0(1) _ c, where cpu = cpu and cur = cur and y = False] p s0
    by (cases cpu) auto
  obtain s2 where s2: "schedule_all cur now tsc s1 = Some s2" "sched_inv s2" "g_ppu s2 = g_ppu s1"
    "g_to_awake s2 = g_to_awake s1"
    using schedule_all_inv [OF s1(2), of cur now tsc] by auto
  have "awake cur cpu Enqueue_cmd now tsc s = Some (r, s2)"
    using s1(1) s2(1) by (simp add: awake_def awake_unlocked_def s0_def)
  moreover have "F_signal \<in> flags_of s1 t \<longleftrightarrow> F_signal \<in> flags_of s t" for t
    using thr_frame_flag [OF awake_tail_thr [OF s1(1)], of F_signal t]
    by (auto simp: quiet_flags_def s0_def split: option.splits)
  ultimately show ?thesis
    using s1 s2 awake_thr [of cur cpu now tsc s r s2] schedule_all_signal [OF s2(1)] by auto
qed

lemma awake_all_enqueue:
  assumes "sched_inv s" and "\<forall>u\<in>set (g_to_awake s). is_ppu u"
  shows "\<exists>s'. awake_all cur now tsc s = Some s' \<and> sched_inv s' \<and> g_to_awake s' = []
    \<and> set (g_ppu s') = set (g_to_awake s) \<union> set (g_ppu s) \<and> thr_frame sched_flags s s'
    \<and> (\<forall>t. F_signal \<in> flags_of s' t \<longrightarrow> F_signal \<in> flags_of s t \<or> t \<in> set (g_ppu s'))"
  using awake_enqueue [OF assms, of None cur now tsc] by (auto simp: awake_all_def)

lemma sleep_dequeue:
  assumes i: "sched_inv s" and t: "is_ppu t" and n: "timeout \<noteq> 0 \<Longrightarrow> F_notify \<notin> flags_of s t"
    and e: "\<forall>u\<in>set (g_to_awake s). is_ppu u"
  shows "\<exists>r s'. sleep cur t timeout now tsc s = Some (r, s') \<and> sched_inv s' \<and> g_to_awake s' = []
    \<and> set (g_ppu s') = set (g_to_awake s) \<union> (set (g_ppu s) - (if F_signal \<in> flags_of s t then {} else {t})) \<and> thr_frame sched_flags s s'
    \<and> (\<forall>t. F_signal \<in> flags_of s' t \<longrightarrow> F_signal \<in> flags_of s t \<or> t \<in> set (g_ppu s'))"
proof -
  let ?s = "clear_res_notify t s"
  have "sched_inv ?s" using i by (rule clear_res_notify_inv)
  then obtain r s1 where s1: "sleep_unlocked t timeout now ?s = Some (r, s1)" "sched_inv s1"
    "g_to_awake s1 = g_to_awake s"
    using sleep_unlocked_ppu [of ?s t timeout now] t n by auto
  have d: "distinct (g_ppu s)" using i by (simp add: sched_inv_def run_inv_def)
  have g: "set (g_ppu s1) = set (g_ppu s) - (if F_signal \<in> flags_of s t then {} else {t})"
    using s1(1) t set_remove1_eq [OF d, of t]
    by (fastforce simp: sleep_unlocked_def Let_def add_flags_def register_timeout_def split: if_splits)
  obtain q s2 where s2: "awake_unlocked cur now None Enqueue_cmd s1 = Some (q, s2)" "sched_inv s2"
    "set (g_ppu s2) = set (g_to_awake s) \<union> set (g_ppu s1)" "thr_frame quiet_flags s1 s2"
    using awake_tail_inv [of s1 None cur False] awake_tail_thr [of cur None False s1] s1(2,3) e
    by (fastforce simp: sched_base awake_unlocked_def)
  define s3 where "s3 = (if g_to_awake s = [] then s1 else s2)"
  have f: "sched_inv s3" "set (g_ppu s3) = set (g_to_awake s) \<union> set (g_ppu s1)" "thr_frame quiet_flags s1 s3"
    using s1(2) s2 by (auto simp: s3_def)
  obtain s4 where s4: "schedule_all cur now tsc s3 = Some s4" "sched_inv s4" "g_ppu s4 = g_ppu s3"
    using schedule_all_inv [OF f(1), of cur now tsc] by auto
  have r: "sleep cur t timeout now tsc s = Some (r, s4\<lparr>g_to_awake := []\<rparr>)"
    using s1(1,3) s2(1) s4(1) by (cases "g_to_awake s = []") (simp_all add: sleep_def s3_def)
  have "F_signal \<in> flags_of s3 u \<longleftrightarrow> F_signal \<in> flags_of s u" for u
    using thr_frame_flag [OF sleep_unlocked_thr [OF s1(1)], of F_signal u] thr_frame_flag [OF f(3), of F_signal u]
    by (simp add: quiet_flags_def)
  with sleep_thr [OF r] r g f show ?thesis
    using s4 schedule_all_signal [OF s4(1)] by auto
qed

subsection \<open>Executions\<close>

text \<open>
  One kernel operation on the scheduler, or a change a thread makes to its own fields. A thread
  that sleeps with a timeout has consumed an earlier timeout notification.
\<close>

inductive sched_step :: "lv2 \<Rightarrow> lv2 \<Rightarrow> bool" where
  step_sleep: "sleep cur t timeout now tsc s = Some (r, s') \<Longrightarrow> is_ppu t \<or> is_spu t \<Longrightarrow>
    (timeout \<noteq> 0 \<longrightarrow> F_notify \<notin> flags_of s t) \<Longrightarrow> sched_step s s'"
| step_awake: "awake cur (Some t) Enqueue_cmd now tsc s = Some (r, s') \<Longrightarrow> is_ppu t \<Longrightarrow>
    g_to_awake s = [] \<Longrightarrow> sched_step s s'"
| step_yield: "yield cur t now tsc s = Some (r, s') \<Longrightarrow> is_ppu t \<Longrightarrow> g_to_awake s = [] \<Longrightarrow>
    sched_step s s'"
| step_priority: "set_priority cur t v now tsc s = Some s' \<Longrightarrow> is_ppu t \<Longrightarrow> g_to_awake s = [] \<Longrightarrow>
    sched_step s s'"
| step_append: "is_ppu t \<Longrightarrow> sched_step s (append_awake t s)"
| step_awake_all: "awake_all cur now tsc s = Some s' \<Longrightarrow> sched_step s s'"
| step_ready: "make_scheduler_ready cur now tsc s = Some s' \<Longrightarrow> sched_step s s'"
| step_future: "sched_step s (set_future_sleep t s)"
| step_frequency: "sched_step s (set_yield_frequency f m s)"
| step_local: "(\<And>p. prio (f p) = prio p) \<Longrightarrow> (\<And>p. ack_suspend (f p) = ack_suspend p) \<Longrightarrow>
    (\<And>p. F_suspend \<in> state p \<Longrightarrow> F_suspend \<in> state (f p)) \<Longrightarrow>
    (\<And>p. F_notify \<in> state (f p) \<Longrightarrow> F_notify \<in> state p) \<Longrightarrow> sched_step s (upd_ppu t f s)"

definition exec_inv :: "lv2 \<Rightarrow> bool" where
  "exec_inv s \<longleftrightarrow> sched_inv s \<and> (\<forall>u\<in>set (g_to_awake s). is_ppu u)"

lemma sched_step_inv: "sched_step s s' \<Longrightarrow> exec_inv s \<Longrightarrow> exec_inv s'"
proof (induction rule: sched_step.induct)
  case (step_sleep cur t timeout now tsc s r s')
  then show ?case using sleep_inv [of s t timeout cur now tsc] by (auto simp: exec_inv_def)
next
  case (step_awake cur t now tsc s r s')
  then show ?case
    using awake_inv [of s "Some t" Enqueue_cmd cur now tsc] by (auto simp: exec_inv_def cmd_ok_def)
next
  case (step_yield cur t now tsc s r s')
  then show ?case using yield_inv [of s t cur now tsc] by (auto simp: exec_inv_def)
next
  case (step_priority cur t v now tsc s s')
  then show ?case
    using awake_inv [of s "Some t" "Set_prio_cmd v" cur now tsc]
    by (auto simp: exec_inv_def cmd_ok_def set_priority_def split: if_splits)
next
  case (step_awake_all cur now tsc s s')
  then show ?case using awake_all_inv [of s cur now tsc] by (auto simp: exec_inv_def)
next
  case (step_ready cur now tsc s s')
  then show ?case
    using awake_all_inv [of "s\<lparr>g_scheduler_ready := True\<rparr>" cur now tsc]
    by (auto simp: exec_inv_def make_scheduler_ready_def)
next
  case (step_local f s t)
  then show ?case using sched_upd_neutral [of f s t] by (simp add: exec_inv_def)
qed (auto simp: exec_inv_def append_awake_def set_future_sleep_def set_yield_frequency_def inv_defs)

definition sched_init :: "lv2 \<Rightarrow> bool" where
  "sched_init s \<longleftrightarrow> g_ppu s = [] \<and> g_waiting s = [] \<and> g_to_awake s = [] \<and> g_pending s = 0
     \<and> (\<forall>t. \<not> ack_suspend (ppus s t) \<and> signed_take_bit 12 (prio_of s t) = prio_of s t)"

lemma exec_inv_init: "sched_init s \<Longrightarrow> exec_inv s"
  by (auto simp: exec_inv_def sched_init_def inv_defs)

lemma exec_inv_reachable: "sched_step\<^sup>*\<^sup>* s0 s \<Longrightarrow> sched_init s0 \<Longrightarrow> exec_inv s"
  by (induction rule: rtranclp_induct) (auto intro: sched_step_inv exec_inv_init)

lemma onproc_bound:
  assumes "sched_inv s"
  shows "card {t \<in> set (g_ppu s). F_suspend \<notin> flags_of s t} \<le> cfg_ppu_threads s"
proof -
  let ?n = "cfg_ppu_threads s"
  have "set (g_ppu s) = set (take ?n (g_ppu s)) \<union> set (drop ?n (g_ppu s))"
    by (metis append_take_drop_id set_append)
  then have "{t \<in> set (g_ppu s). F_suspend \<notin> flags_of s t} \<subseteq> set (take ?n (g_ppu s))"
    using assms by (auto simp: inv_defs)
  then have "card {t \<in> set (g_ppu s). F_suspend \<notin> flags_of s t} \<le> card (set (take ?n (g_ppu s)))"
    by (intro card_mono) auto
  also have "\<dots> \<le> length (take ?n (g_ppu s))" by (rule card_length)
  finally show ?thesis by simp
qed

lemma sorted_takeWhile_filter:
  "sorted (map f xs) \<Longrightarrow> takeWhile (\<lambda>x. f x \<le> c) xs = filter (\<lambda>x. f x \<le> c) xs"
  "sorted (map f xs) \<Longrightarrow> dropWhile (\<lambda>x. f x \<le> c) xs = filter (\<lambda>x. f x > c) xs"
  for c :: "'b::linorder"
proof (induction xs)
  case (Cons a xs)
  have "\<forall>x\<in>set xs. f a \<le> f x" "sorted (map f xs)" if "sorted (map f (a # xs))" using that by auto
  then show "sorted (map f (a # xs)) \<Longrightarrow> takeWhile (\<lambda>x. f x \<le> c) (a # xs) = filter (\<lambda>x. f x \<le> c) (a # xs)"
    "sorted (map f (a # xs)) \<Longrightarrow> dropWhile (\<lambda>x. f x \<le> c) (a # xs) = filter (\<lambda>x. f x > c) (a # xs)"
    using Cons.IH by (cases "f a \<le> c"; fastforce simp: filter_empty_conv empty_filter_conv intro!: filter_True [symmetric])+
qed auto

lemma awake_enqueue_run:
  assumes i: "sched_inv s" and t: "is_ppu t" "t \<notin> set (g_ppu s)" and p: "\<forall>u\<in>set (g_to_awake s). is_ppu u"
  shows "\<exists>r s'. awake cur (Some t) Enqueue_cmd now tsc s = Some (r, s') \<and> g_ppu s' = run_insert s t"
proof -
  define s0 where "s0 = (case cur of Some c \<Rightarrow> clear_res_notify c s | None \<Rightarrow> s)"
  have i': "sched_inv s0" and g: "g_ppu s0 = g_ppu s" "\<And>u. prio (ppus s0 u) = prio (ppus s u)"
    using i by (auto simp: s0_def clear_res_notify_inv split: option.split)
  have e: "snd (snd (emplace_threads [t] (False, 2 ^ 31 - 1, s0))) = snd (emplace_thread t s0)"
    by (simp add: emplace_threads_step del: emplace_threads.simps(2))
  have b: "base_inv (snd (emplace_thread t s0))"
    using i' t by (intro emplace_thread_inv) (auto simp: sched_base)
  have q: "g_ppu (snd (emplace_thread t s0)) = run_insert s t"
    using t g by (simp add: emplace_thread_new run_insert_def)
  obtain r s1 where s1: "awake_tail cur (Some t) False s0 = Some (r, s1)" "sched_inv s1"
    "g_ppu s1 = run_insert s t"
    using awake_tail_base [of "[t]" False s0 "Some t" cur, unfolded e q, OF b] by auto
  from schedule_all_inv [OF s1(2), of cur now tsc] s1 show ?thesis
    by (auto simp: awake_def awake_unlocked_def s0_def [symmetric])
qed

subsection \<open>Sample states\<close>

text \<open>Two runnable threads on a machine with one hardware thread, thread priorities by id, and one
  thread with a deadline.\<close>

definition sample_sched :: lv2 where
  "sample_sched = (lv2_boot 1)\<lparr>
     ppus := (\<lambda>t. fresh_thread\<lparr>prio := \<lparr>pr_prio = int (t mod 16), pr_order = 0, preserve_bit = False\<rparr>,
       state := (if t = 0x1000001 then {} else {F_suspend})\<rparr>),
     g_ppu := [0x1000001, 0x1000003], g_waiting := [(50, 0x1000002)], g_scheduler_ready := True\<rparr>"

lemma sample_prio: "signed_take_bit 12 (int (t mod 16)) = int (t mod 16)"
proof (rule signed_take_bit_int_eq_self)
  have "t mod 16 < 16" by simp
  then have "int (t mod 16) < 16" by linarith
  then show "int (t mod 16) < 2 ^ 12" by simp
qed simp

lemma sample_sched_inv: "sched_inv sample_sched" "is_ppu 0x1000001" "is_ppu 0x1000002" "g_to_awake sample_sched = []"
  by (simp_all add: sample_sched_def lv2_boot_def fresh_thread_def inv_defs is_ppu_def id_type_def sample_prio)

lemma boot_init: "sched_init (lv2_boot n)"
  by (simp add: sched_init_def lv2_boot_def fresh_thread_def)

lemma boot_step: "sched_step\<^sup>*\<^sup>* (lv2_boot n) (append_awake 0x1000001 (lv2_boot n))"
  by (intro r_into_rtranclp step_append) (simp add: is_ppu_def id_type_def)

subsection \<open>Properties\<close>

text \<open>C18: Starting from an empty scheduler, after any sequence of scheduler operations the run queue
  is duplicate-free and ordered by priority, the timeout queue is ordered by deadline and disjoint
  from it, \<^verbatim>\<open>g_pending\<close> is the exact number of outstanding suspension requests, and no more threads
  run than there are hardware threads.\<close>

theorem scheduler_safe:
  assumes "sched_init s0" and "sched_step\<^sup>*\<^sup>* s0 s"
  shows "sched_inv s \<and> card {t \<in> set (g_ppu s). F_suspend \<notin> flags_of s t} \<le> cfg_ppu_threads s"
  using exec_inv_reachable [OF assms(2,1)] onproc_bound [of s] by (auto simp: exec_inv_def)

theorem scheduler_safe_witness:
  "\<exists>s. awake_all None 10 0 (append_awake 0x1000001 (lv2_boot 1)) = Some s
     \<and> sched_inv s \<and> card {t \<in> set (g_ppu s). F_suspend \<notin> flags_of s t} \<le> cfg_ppu_threads s"
proof -
  let ?b = "append_awake 0x1000001 (lv2_boot 1)"
  have "exec_inv ?b" by (rule exec_inv_reachable [OF boot_step boot_init])
  then obtain s where s: "awake_all None 10 0 ?b = Some s" using awake_all_inv [of ?b None 10 0] by (auto simp: exec_inv_def)
  then have "sched_step\<^sup>*\<^sup>* (lv2_boot 1) s" using boot_step step_awake_all by (meson rtranclp.simps)
  from scheduler_safe [OF boot_init this] s show ?thesis by blast
qed



text \<open>A thread that is woken enters the run queue behind every thread of the same or a more
  urgent priority and ahead of every less urgent one, and the other threads keep their order: the
  queue is first-in first-out within a priority.\<close>

theorem awake_position:
  assumes "sched_inv s" and "is_ppu t" and "t \<notin> set (g_ppu s)" and "\<forall>u\<in>set (g_to_awake s). is_ppu u"
  shows "\<exists>r s'. awake cur (Some t) Enqueue_cmd now tsc s = Some (r, s')
    \<and> g_ppu s' = filter (\<lambda>u. prio_of s u \<le> prio_of s t) (g_ppu s)
        @ t # filter (\<lambda>u. prio_of s u > prio_of s t) (g_ppu s)"
proof -
  have "run_insert s t = filter (\<lambda>u. prio_of s u \<le> prio_of s t) (g_ppu s)
        @ t # filter (\<lambda>u. prio_of s u > prio_of s t) (g_ppu s)"
    using assms(1) by (simp add: run_insert_def sorted_takeWhile_filter inv_defs)
  then show ?thesis using awake_enqueue_run [OF assms] by simp
qed

theorem awake_position_witness:
  "\<exists>r s'. awake None (Some 0x1000002) Enqueue_cmd 10 0 sample_sched = Some (r, s')
     \<and> g_ppu s' = [0x1000001, 0x1000002, 0x1000003]"
  using awake_position [OF sample_sched_inv(1,3), of None 10 0] sample_sched_inv(4)
  by (simp add: sample_sched_def lv2_boot_def)

text \<open>C21: When no suspension is outstanding and the scheduler is ready, dispatching lets exactly the
  first \<^verbatim>\<open>ppu_threads\<close> entries of the run queue run; while a suspension is outstanding no thread is
  resumed.\<close>

theorem schedule_all_dispatch:
  assumes i: "sched_inv s"
  shows "\<exists>s'. schedule_all cur now tsc s = Some s' \<and> g_ppu s' = g_ppu s
    \<and> (if g_pending s = 0 \<and> g_scheduler_ready s
       then {t \<in> set (g_ppu s'). F_suspend \<notin> flags_of s' t} = set (take (cfg_ppu_threads s) (g_ppu s))
       else \<forall>t. F_suspend \<in> flags_of s' t \<longleftrightarrow> F_suspend \<in> flags_of s t)"
proof -
  let ?n = "cfg_ppu_threads s"
  have "set (g_ppu s) = set (take ?n (g_ppu s)) \<union> set (drop ?n (g_ppu s))"
    by (metis append_take_drop_id set_append)
  moreover have "F_suspend \<in> flags_of s t" if "t \<in> set (drop ?n (g_ppu s))" for t
    using i that by (auto simp: inv_defs)
  moreover have "t \<notin> set (drop ?n (g_ppu s))" if "t \<in> set (take ?n (g_ppu s))" for t
    using i that by (auto simp: inv_defs dest: set_take_drop_disjoint)
  moreover obtain s' where s': "schedule_all cur now tsc s = Some s'" "g_ppu s' = g_ppu s"
    "\<And>u. F_suspend \<in> flags_of s' u \<longleftrightarrow> F_suspend \<in> flags_of (wake_threads s) u"
    using schedule_all_inv [OF i, of cur now tsc] by auto
  ultimately show ?thesis
    by (intro exI [of _ s']) (auto simp: wake_threads_def wake_fold)
qed

theorem schedule_all_dispatch_witness:
  "\<exists>s'. schedule_all None 10 0 sample_sched = Some s'
     \<and> {t \<in> set (g_ppu s'). F_suspend \<notin> flags_of s' t} = {0x1000001}"
proof -
  have "g_pending sample_sched = 0 \<and> g_scheduler_ready sample_sched"
    "take (cfg_ppu_threads sample_sched) (g_ppu sample_sched) = [0x1000001]"
    by (simp_all add: sample_sched_def lv2_boot_def)
  then show ?thesis using schedule_all_dispatch [OF sample_sched_inv(1), of None 10 0] by auto
qed

text \<open>Dispatching notifies exactly the threads whose deadline has passed, other than the caller,
  and unregisters exactly the expired deadlines.\<close>

theorem schedule_all_timeouts:
  assumes i: "sched_inv s"
  shows "\<exists>s'. schedule_all cur now tsc s = Some s'
    \<and> g_waiting s' = filter (\<lambda>(w, t). w > now) (g_waiting s)
    \<and> {t. F_notify \<in> flags_of s' t} - {t. F_notify \<in> flags_of s t}
        = {t. cur \<noteq> Some t \<and> (\<exists>w\<le>now. (w, t) \<in> set (g_waiting s))}"
proof -
  have o: "sorted (map fst (g_waiting s))"
    and n: "\<forall>t\<in>snd ` set (g_waiting s). F_notify \<notin> flags_of s t" using i by (auto simp: inv_defs)
  have c: "(\<lambda>(w, t). w \<le> now) = (\<lambda>x. fst x \<le> now)" "(\<lambda>(w, t). w > now) = (\<lambda>x. fst x > now)" by auto
  have d: "dropWhile (\<lambda>(w, t). w \<le> now) (g_waiting s) = filter (\<lambda>(w, t). w > now) (g_waiting s)"
    and e: "set (expired now (g_waiting s)) = {t. \<exists>w\<le>now. (w, t) \<in> set (g_waiting s)}"
    using sorted_takeWhile_filter [OF o, of now] by (auto simp: c expired_def image_iff)
  obtain s' where s': "schedule_all cur now tsc s = Some s'"
    "g_waiting s' = filter (\<lambda>(w, t). w > now) (g_waiting s)"
    "\<And>u. F_notify \<in> flags_of s' u \<longleftrightarrow>
          F_notify \<in> flags_of s u \<or> (cur \<noteq> Some u \<and> (\<exists>w\<le>now. (w, u) \<in> set (g_waiting s)))"
    using schedule_all_inv [OF i, of cur now tsc] unfolding d e by blast
  then show ?thesis using n by (auto simp: image_iff)
qed

theorem schedule_all_timeouts_witness:
  "\<exists>s'. schedule_all None 60 0 sample_sched = Some s' \<and> g_waiting s' = []
     \<and> F_notify \<in> flags_of s' 0x1000002"
proof -
  have "g_waiting sample_sched = [(50, 0x1000002)]" by (simp add: sample_sched_def)
  then show ?thesis using schedule_all_timeouts [OF sample_sched_inv(1), of None 60 0] by auto
qed

text \<open>A thread that sleeps leaves the run queue, is marked suspended, and, when it gives a
  timeout, is registered with the deadline \<open>now + timeout\<close> saturated at the largest 64-bit time.\<close>

theorem sleep_unlocked_effect:
  assumes "sched_inv s" and "is_ppu t" and "t \<in> set (g_ppu s)" and "F_signal \<notin> flags_of s t"
    and "timeout \<noteq> 0 \<longrightarrow> F_notify \<notin> flags_of s t" and "now \<le> umax64"
  shows "\<exists>r s'. sleep_unlocked t timeout now s = Some (r, s') \<and> sched_inv s'
    \<and> g_ppu s' = remove1 t (g_ppu s) \<and> t \<notin> set (g_ppu s') \<and> F_suspend \<in> flags_of s' t
    \<and> set (g_waiting s') = set (g_waiting s) \<union> (if timeout = 0 then {} else {(min (now + timeout) umax64, t)})"
proof -
  have dl: "deadline now timeout = min (now + timeout) umax64" using assms(6) by (simp add: deadline_def)
  obtain r s' where s': "sleep_unlocked t timeout now s = Some (r, s')" "sched_inv s'"
    "t \<notin> set (g_ppu s')" "F_suspend \<in> flags_of s' t"
    using sleep_unlocked_ppu [OF assms(1,2), of timeout now] assms(4,5) by auto
  then have "g_ppu s' = remove1 t (g_ppu s)"
    "set (g_waiting s') = set (g_waiting s) \<union> (if timeout = 0 then {} else {(deadline now timeout, t)})"
    using assms(2,3,4)
    by (auto simp: sleep_unlocked_def Let_def add_flags_def register_timeout_def set_insert_waiting split: if_splits)
  with s' dl show ?thesis by simp
qed

theorem sleep_unlocked_effect_witness:
  "\<exists>r s'. sleep_unlocked 0x1000001 20 100 sample_sched = Some (r, s') \<and> g_ppu s' = [0x1000003]
     \<and> set (g_waiting s') = {(50, 0x1000002), (120, 0x1000001)}"
proof -
  have "0x1000001 \<in> set (g_ppu sample_sched)" "flags_of sample_sched 0x1000001 = {}"
    "remove1 0x1000001 (g_ppu sample_sched) = [0x1000003]" "g_waiting sample_sched = [(50, 0x1000002)]"
    by (simp_all add: sample_sched_def)
  then show ?thesis
    using sleep_unlocked_effect [OF sample_sched_inv(1,2), of 20 100]
    by (auto simp: umax64_def)
qed

end
