(* ===== verification/Lv2_Running.thy ===== *)
theory Lv2_Running
  imports Lv2_Scheduler
begin

text \<open>
  Threads that are executing while others call the scheduler. A thread that executes kernel code has
  no pending signal, and if it was told to suspend it has not acknowledged yet. What other threads do
  keeps it so: a suspended thread is only signalled when nobody owes an acknowledgement.
  \<^verbatim>\<open>cancel_sleep\<close> is only changed by waking the thread itself. These are the facts behind
  \<^verbatim>\<open>sys_mutex_lock\<close>, which enqueues the thread before it calls \<^verbatim>\<open>sleep\<close>.
\<close>

definition unsignalled :: "lv2 \<Rightarrow> tid \<Rightarrow> bool" where
  "unsignalled s t \<longleftrightarrow> F_signal \<notin> flags_of s t \<and> (F_suspend \<in> flags_of s t \<longrightarrow> ack_suspend (ppus s t))"

definition run_frame :: "tid \<Rightarrow> lv2 \<Rightarrow> lv2 \<Rightarrow> bool" where
  "run_frame t s s' \<longleftrightarrow> (unsignalled s t \<longrightarrow> unsignalled s' t) \<and> cancel_sleep (ppus s' t) = cancel_sleep (ppus s t)"

lemma run_frame_refl [simp]: "run_frame t s s"
  by (simp add: run_frame_def)

lemma run_frame_trans: "run_frame t s s' \<Longrightarrow> run_frame t s' s'' \<Longrightarrow> run_frame t s s''"
  by (simp add: run_frame_def)

lemma run_frame_same: "ppus s' t = ppus s t \<Longrightarrow> run_frame t s s'"
  by (simp add: run_frame_def unsignalled_def)

lemma run_frame_suspend: "run_frame t s (suspend_thread u s)"
  by (auto simp: suspend_thread_def run_frame_def unsignalled_def Let_def notify_one_def inc_pending_def add_flags_def)

lemma run_frame_fold: "(\<And>u s. run_frame t s (f u s)) \<Longrightarrow> run_frame t s (fold f us s)"
  by (induction us arbitrary: s) (auto intro: run_frame_trans)

lemma emplace_thread_unsig: "unsignalled (snd (emplace_thread u s)) t = unsignalled s t"
  by (auto simp: emplace_thread_def unsignalled_def split: option.split)

lemma emplace_thread_run: "u \<noteq> t \<Longrightarrow> run_frame t s (snd (emplace_thread u s))"
  using emplace_thread_unsig [of u s t] by (auto simp: run_frame_def emplace_thread_def split: option.split)

lemma acknowledge_current_run: "c \<noteq> t \<Longrightarrow> acknowledge_current (Some c) s = Some s' \<Longrightarrow> ppus s' t = ppus s t"
  by (auto simp: acknowledge_current_def acknowledge_def dec_pending_def split: if_splits)

lemma hw_thread_delay_run: "c \<noteq> t \<Longrightarrow> ppus (hw_thread_delay (Some c) a b l s) t = ppus s t"
  by (auto simp: hw_thread_delay_def Let_def)

lemma awake_tail_run:
  assumes "awake_tail (Some c) (Some u) False s = Some (r, s')" and "c \<noteq> t"
  shows "unsignalled s t \<Longrightarrow> unsignalled s' t"
    and "cancel_sleep (ppus s' t) = cancel_sleep (ppus (snd (emplace_thread u s)) t)"
proof -
  define s1 where "s1 = snd (snd (emplace_threads [u] (False, 2 ^ 31 - 1, s)))"
  have s1: "s1 = snd (emplace_thread u s)"
    by (simp add: s1_def emplace_threads_step del: emplace_threads.simps(2))
  obtain s3 a b l where s3: "acknowledge_current (Some c) (suspend_excess s1) = Some s3" "s' = hw_thread_delay (Some c) a b l s3"
    using assms(1) by (auto simp: awake_tail_def Let_def s1_def split: prod.splits option.splits)
  have "run_frame t s1 (suspend_excess s1)"
    unfolding suspend_excess_def by (rule run_frame_fold) (rule run_frame_suspend)
  moreover have "ppus s' t = ppus (suspend_excess s1) t"
    using s3 acknowledge_current_run [OF assms(2) s3(1)] hw_thread_delay_run [OF assms(2)] by simp
  ultimately show "unsignalled s t \<Longrightarrow> unsignalled s' t"
    "cancel_sleep (ppus s' t) = cancel_sleep (ppus (snd (emplace_thread u s)) t)"
    using emplace_thread_unsig [of u s t] by (auto simp: run_frame_def unsignalled_def s1)
qed

lemma wake_threads_run:
  assumes i: "sched_inv s" and u: "unsignalled s t"
  shows "ppus (wake_threads s) t = ppus s t"
proof (cases "g_pending s = 0")
  case True
  have "{x. ack_suspend (ppus s x)} \<subseteq> set (g_ppu s)" "g_pending s = card {x. ack_suspend (ppus s x)}"
    using i by (auto simp: sched_inv_def ack_inv_def)
  then have "{x. ack_suspend (ppus s x)} = {}" using True by (metis List.finite_set card_0_eq finite_subset)
  then have n: "F_suspend \<notin> flags_of s t" using u by (auto simp: unsignalled_def)
  have "ppus (fold wake_thread ts x) t = ppus x t" if "F_suspend \<notin> flags_of x t" for ts x
    using that
  proof (induction ts arbitrary: x)
    case (Cons v ts)
    have "ppus (wake_thread v x) t = ppus x t" using Cons.prems by (auto simp: wake_thread_def Let_def notify_one_def)
    then show ?case using Cons by simp
  qed simp
  then show ?thesis using n by (simp add: wake_threads_def)
qed (simp add: wake_threads_def)

lemma expire_timeouts_run: "expire_timeouts cur now ws s = Some s' \<Longrightarrow> run_frame t s s'"
proof (induction cur now ws s rule: expire_timeouts.induct)
  case (2 cur now w u r s)
  have "run_frame t s (notify_one u (add_flags u {F_notify} s))"
    by (auto simp: run_frame_def unsignalled_def notify_one_def add_flags_def)
  with 2 show ?case by (auto split: if_splits intro: run_frame_trans run_frame_same)
qed (auto simp: run_frame_def unsignalled_def)

lemma schedule_all_run:
  assumes "schedule_all cur now tsc s = Some s'" "sched_inv s"
  shows "unsignalled s t \<Longrightarrow> unsignalled s' t" "cancel_sleep (ppus s' t) = cancel_sleep (ppus s t)"
proof -
  obtain y where y: "expire_timeouts cur now (g_waiting (wake_threads s)) (wake_threads s) = Some y"
    "s' = preempt_one cur tsc y"
    using assms by (auto simp: schedule_all_def Let_def)
  have p: "run_frame t y (preempt_one cur tsc y)"
    by (auto simp: preempt_one_def Let_def run_frame_def unsignalled_def add_flags_def split: option.split)
  have c: "cancel_sleep (ppus (fold wake_thread ts x) t) = cancel_sleep (ppus x t)" for ts x
    by (induction ts arbitrary: x) (auto simp: wake_thread_def Let_def notify_one_def)
  show "unsignalled s t \<Longrightarrow> unsignalled s' t"
    using wake_threads_run [OF assms(2), of t] expire_timeouts_run [OF y(1), of t] p y(2) by (auto simp: run_frame_def unsignalled_def)
  show "cancel_sleep (ppus s' t) = cancel_sleep (ppus s t)"
    using expire_timeouts_run [OF y(1), of t] p y(2) c by (auto simp: run_frame_def wake_threads_def split: if_splits)
qed

lemma clear_res_notify_run: "unsignalled (clear_res_notify c s) t = unsignalled s t"
  "cancel_sleep (ppus (clear_res_notify c s) t) = cancel_sleep (ppus s t)"
  by (auto simp: clear_res_notify_def unsignalled_def)

lemma awake_run:
  assumes a: "awake (Some c) (Some u) Enqueue_cmd now tsc s = Some (r, s')" and i: "sched_inv s" "g_to_awake s = []" "is_ppu u" and t: "c \<noteq> t"
  shows "unsignalled s t \<Longrightarrow> unsignalled s' t"
    and "cancel_sleep (ppus s' t) = (if u = t \<and> t \<in> set (g_ppu s) \<and> cancel_sleep (ppus s t) = 1 then 2 else cancel_sleep (ppus s t))"
proof -
  define s0 where "s0 = clear_res_notify c s"
  obtain s1 where s1: "awake_tail (Some c) (Some u) False s0 = Some (r, s1)" "schedule_all (Some c) now tsc s1 = Some s'"
    using a by (auto simp: awake_def awake_unlocked_def s0_def split: option.splits)
  have "sched_inv s0" using i(1) by (simp add: s0_def clear_res_notify_inv)
  moreover have "g_to_awake s0 = []" using i(2) by (simp add: s0_def clear_res_notify_def)
  ultimately have "\<exists>r s'. awake_tail (Some c) (Some u) False s0 = Some (r, s') \<and> sched_inv s'"
    using awake_tail_inv [of s0 "Some u" "Some c" False] i(3) by (simp add: sched_base) blast
  then have "sched_inv s1" using s1(1) by simp
  note sa = schedule_all_run [OF s1(2) this, of t]
  show "unsignalled s t \<Longrightarrow> unsignalled s' t"
    using sa(1) awake_tail_run(1) [OF s1(1) t] by (simp add: s0_def clear_res_notify_run)
  have "sorted (map (prio_of s0) (g_ppu s0))" using \<open>sched_inv s0\<close> by (simp add: sched_inv_def run_inv_def)
  then have "emplace_run (prio_of s0) u (g_ppu s0) = None \<longleftrightarrow> u \<in> set (g_ppu s0)"
    using emplace_run_mem [of "prio_of s0" "g_ppu s0" u] emplace_run_pos [of u "g_ppu s0" "prio_of s0"]
    by (cases "u \<in> set (g_ppu s0)") simp_all
  then have "cancel_sleep (ppus (snd (emplace_thread u s0)) t)
      = (if u = t \<and> t \<in> set (g_ppu s0) \<and> cancel_sleep (ppus s0 t) = 1 then 2 else cancel_sleep (ppus s0 t))"
    by (auto simp: emplace_thread_def split: option.split)
  then show "cancel_sleep (ppus s' t) = (if u = t \<and> t \<in> set (g_ppu s) \<and> cancel_sleep (ppus s t) = 1 then 2 else cancel_sleep (ppus s t))"
    using sa(2) awake_tail_run(2) [OF s1(1) t] by (simp add: s0_def clear_res_notify_run)
qed

lemma sleep_unlocked_other:
  assumes "sleep_unlocked c timeout now s = Some (r, s')" "is_ppu c" "t \<noteq> c"
  shows "ppus s' t = ppus s t"
proof -
  have a: "ppus (acknowledge c s) t = ppus s t" using assms(3) by (simp add: acknowledge_def dec_pending_def)
  have r: "ppus (register_timeout n c now x) t = ppus x t" for n x by (simp add: register_timeout_def)
  show ?thesis using assms by (auto simp: sleep_unlocked_def Let_def add_flags_def a r split: if_splits)
qed

lemma sleep_unlocked_queue:
  assumes "sleep_unlocked c timeout now s = Some (r, s')" "is_ppu c" "t \<noteq> c"
  shows "t \<in> set (g_ppu s') \<longleftrightarrow> t \<in> set (g_ppu s)"
  using assms by (fastforce simp: sleep_unlocked_def Let_def add_flags_def register_timeout_def split: if_splits)

lemma sleep_run:
  assumes a: "sleep (Some c) c timeout now tsc s = Some (r, s')" and i: "sched_inv s" "g_to_awake s = []" "is_ppu c"
    "timeout \<noteq> 0 \<Longrightarrow> F_notify \<notin> flags_of s c"
  shows "c \<noteq> t \<Longrightarrow> unsignalled s t \<Longrightarrow> unsignalled s' t"
    and "cancel_sleep (ppus s' t) = (if t = c then 0 else cancel_sleep (ppus s t))"
    and "F_signal \<notin> flags_of s c \<Longrightarrow> c \<in> set (g_ppu s) \<Longrightarrow> r \<longleftrightarrow> cancel_sleep (ppus s c) \<noteq> 2"
proof -
  let ?s = "clear_res_notify c s"
  have "sched_inv ?s" using i(1) by (rule clear_res_notify_inv)
  then obtain s1 where s1: "sleep_unlocked c timeout now ?s = Some (r, s1)" "sched_inv s1" "g_to_awake s1 = []"
    using sleep_unlocked_ppu [of ?s c timeout now] i a by (auto simp: sleep_def split: option.splits if_splits)
  obtain s3 where s3: "schedule_all (Some c) now tsc s1 = Some s3" "s' = s3\<lparr>g_to_awake := []\<rparr>"
    using a s1 by (auto simp: sleep_def)
  have o': "ppus s1 t = ppus ?s t" if "t \<noteq> c"
    using sleep_unlocked_other [OF s1(1) i(3) that] .
  have c0: "cancel_sleep (ppus s1 c) = 0"
    using s1(1) i(3) by (auto simp: sleep_unlocked_def Let_def add_flags_def register_timeout_def split: if_splits)
  note sa = schedule_all_run [OF s3(1) s1(2), of t]
  show "unsignalled s' t" if "c \<noteq> t" "unsignalled s t"
    using sa(1) o' that s3(2) clear_res_notify_run(1) [of c s t] by (auto simp: unsignalled_def)
  show "cancel_sleep (ppus s' t) = (if t = c then 0 else cancel_sleep (ppus s t))"
    using sa(2) o' c0 s3(2) by (auto simp: clear_res_notify_run)
  show "r \<longleftrightarrow> cancel_sleep (ppus s c) \<noteq> 2" if "F_signal \<notin> flags_of s c" "c \<in> set (g_ppu s)"
    using s1(1) i(3) that by (auto simp: sleep_unlocked_def Let_def add_flags_def clear_res_notify_run split: if_splits)
qed

text \<open>A timeout is only notified to a thread in the timeout queue, which is not runnable.\<close>

lemma expire_timeouts_notify:
  "expire_timeouts cur now ws s = Some s' \<Longrightarrow> F_notify \<in> flags_of s' t \<Longrightarrow> F_notify \<in> flags_of s t \<or> t \<in> snd ` set ws"
proof (induction cur now ws s rule: expire_timeouts.induct)
  case (2 cur now w u r s)
  show ?case
  proof (cases "w \<le> now \<and> cur \<noteq> Some u")
    case True
    then show ?thesis using 2 by (auto simp: notify_one_def add_flags_def split: if_splits)
  next
    case False
    then show ?thesis using 2 by (auto split: if_splits)
  qed
qed auto

lemma schedule_all_notify:
  assumes "schedule_all cur now tsc s = Some s'" "sched_inv s" "t \<in> set (g_ppu s)" "F_notify \<in> flags_of s' t"
  shows "F_notify \<in> flags_of s t"
proof -
  obtain y where y: "expire_timeouts cur now (g_waiting (wake_threads s)) (wake_threads s) = Some y"
    "s' = preempt_one cur tsc y"
    using assms(1) by (auto simp: schedule_all_def Let_def)
  have "F_notify \<in> flags_of y t"
    using assms(4) y(2) by (auto simp: preempt_one_def Let_def add_flags_def split: option.splits if_splits)
  moreover have "t \<notin> snd ` set (g_waiting (wake_threads s))"
    using assms(2,3) wake_threads_inv [OF assms(2)] by (auto simp: sched_inv_def wait_inv_def)
  ultimately have "F_notify \<in> flags_of (wake_threads s) t" using expire_timeouts_notify [OF y(1)] by blast
  then show ?thesis using wake_fold(9) by (auto simp: wake_threads_def split: if_splits)
qed

lemma quiet_notify:
  "F_notify \<in> flags_of (acknowledge c s) t \<longleftrightarrow> F_notify \<in> flags_of s t"
  "F_notify \<in> flags_of (clear_res_notify c s) t \<longleftrightarrow> F_notify \<in> flags_of s t"
  "F_notify \<in> flags_of (suspend_thread c s) t \<longleftrightarrow> F_notify \<in> flags_of s t"
  "F_notify \<in> flags_of (snd (emplace_thread c s)) t \<longleftrightarrow> F_notify \<in> flags_of s t"
  "F_notify \<in> flags_of (hw_thread_delay cur a b l s) t \<longleftrightarrow> F_notify \<in> flags_of s t"
  by (auto simp: acknowledge_def dec_pending_def clear_res_notify_def suspend_thread_def Let_def notify_one_def inc_pending_def
      add_flags_def emplace_thread_def hw_thread_delay_def split: option.split)

lemma awake_notify:
  assumes a: "awake (Some c) (Some u) Enqueue_cmd now tsc s = Some (r, s')" and i: "sched_inv s" "g_to_awake s = []" "is_ppu u"
    and t: "t \<in> set (g_ppu s)" "F_notify \<in> flags_of s' t"
  shows "F_notify \<in> flags_of s t"
proof -
  define s0 where "s0 = clear_res_notify c s"
  obtain s1 where s1: "awake_tail (Some c) (Some u) False s0 = Some (r, s1)" "schedule_all (Some c) now tsc s1 = Some s'"
    using a by (auto simp: awake_def awake_unlocked_def s0_def split: option.splits)
  have "sched_inv s0" using i(1) by (simp add: s0_def clear_res_notify_inv)
  moreover have "g_to_awake s0 = []" "g_ppu s0 = g_ppu s" using i(2) by (simp_all add: s0_def clear_res_notify_def)
  ultimately have "sched_inv s1" "t \<in> set (g_ppu s1)"
    using awake_tail_inv [of s0 "Some u" "Some c" False] i(3) s1(1) t(1) by (auto simp: sched_base)
  then have n: "F_notify \<in> flags_of s1 t" using schedule_all_notify [OF s1(2)] t(2) by blast
  define e where "e = snd (snd (emplace_threads [u] (False, 2 ^ 31 - 1, s0)))"
  have e: "e = snd (emplace_thread u s0)" by (simp add: e_def emplace_threads_step del: emplace_threads.simps(2))
  obtain s3 a b l where s3: "acknowledge_current (Some c) (suspend_excess e) = Some s3" "s1 = hw_thread_delay (Some c) a b l s3"
    using s1(1) by (auto simp: awake_tail_def Let_def e_def split: prod.splits option.splits)
  have f: "F_notify \<in> flags_of (fold suspend_thread ts x) t \<longleftrightarrow> F_notify \<in> flags_of x t" for ts x
    by (induction ts arbitrary: x) (auto simp: quiet_notify)
  have "F_notify \<in> flags_of s3 t" using n s3(2) by (simp add: quiet_notify)
  then have "F_notify \<in> flags_of e t"
    using s3(1) f by (auto simp: acknowledge_current_def suspend_excess_def quiet_notify split: if_splits)
  then show ?thesis by (simp add: e quiet_notify s0_def)
qed

lemma sleep_notify:
  assumes a: "sleep (Some c) c timeout now tsc s = Some (r, s')" and i: "sched_inv s" "g_to_awake s = []" "is_ppu c"
    "timeout \<noteq> 0 \<Longrightarrow> F_notify \<notin> flags_of s c" and t: "t \<noteq> c" "t \<in> set (g_ppu s)" "F_notify \<in> flags_of s' t"
  shows "F_notify \<in> flags_of s t"
proof -
  let ?s = "clear_res_notify c s"
  have "sched_inv ?s" using i(1) by (rule clear_res_notify_inv)
  then obtain s1 where s1: "sleep_unlocked c timeout now ?s = Some (r, s1)" "sched_inv s1" "g_to_awake s1 = []"
    using sleep_unlocked_ppu [of ?s c timeout now] i a by (auto simp: sleep_def split: option.splits if_splits)
  obtain s3 where s3: "schedule_all (Some c) now tsc s1 = Some s3" "s' = s3\<lparr>g_to_awake := []\<rparr>"
    using a s1 by (auto simp: sleep_def)
  have "t \<in> set (g_ppu s1)" using sleep_unlocked_queue [OF s1(1) i(3) t(1)] t(2) by simp
  then have "F_notify \<in> flags_of s1 t" using schedule_all_notify [OF s3(1) s1(2)] t(3) s3(2) by auto
  then show ?thesis using sleep_unlocked_other [OF s1(1) i(3) t(1)] quiet_notify(2) [of c s t] by simp
qed

end
