(* ===== verification/Id_Manager.thy ===== *)
theory Id_Manager
  imports Rpcsx_Prelude
begin

text \<open>
  The id manager of \<^verbatim>\<open>rpcs3/Emu/IdManager.h\<close> and \<^verbatim>\<open>IdManager.cpp\<close>: objects of several types share one
  table (\<^verbatim>\<open>id_map<T>\<close>), an id encodes a table index and an invalidation counter, and every slot keeps
  the id value it had last. Every function runs under \<^verbatim>\<open>id_manager::g_mutex\<close>, so each is one
  transition. An object is its address \<open>'p\<close>. Saving and loading of the table and its private copy for
  thread shutdown are not modelled.
\<close>

section \<open>Id traits and table\<close>

record id_traits =
  tr_base :: u32
  tr_step :: u32
  tr_count :: u32
  tr_type :: u32
  uses_lowest_id :: bool
  invl_range :: "nat \<times> nat"

definition invalid_id :: "id_traits \<Rightarrow> u32" where
  "invalid_id tr = (if tr_base tr = 0 then -1 else 0)"

definition mask_out :: "id_traits \<Rightarrow> u32" where
  "mask_out tr = push_bit (fst (invl_range tr)) (push_bit (snd (invl_range tr)) 1 - 1)"

definition get_index :: "id_traits \<Rightarrow> u32 \<Rightarrow> u32" where
  "get_index tr idn =
     (let diff = (idn AND NOT (mask_out tr)) - tr_base tr in
      if diff mod tr_step tr \<noteq> 0 then tr_count tr else diff div tr_step tr)"

record id_key =
  m_value :: u32
  m_base :: u32

abbreviation no_type :: u32 where "no_type \<equiv> -1"

definition empty_key :: id_key where
  "empty_key = \<lparr>m_value = 0, m_base = no_type\<rparr>"

definition clear_key :: "id_key \<Rightarrow> id_key" where
  "clear_key k = k\<lparr>m_base := no_type\<rparr>"

record 'p id_map =
  vec_data :: "'p option list"
  vec_keys :: "id_key list"
  highest_index :: nat
  last_id :: u32

definition empty_map :: "nat \<Rightarrow> 'p id_map" where
  "empty_map n = \<lparr>vec_data = replicate n None, vec_keys = replicate n empty_key,
     highest_index = 0, last_id = 0\<rparr>"

section \<open>Operations\<close>

definition next_id :: "id_traits \<Rightarrow> nat \<Rightarrow> u32 \<Rightarrow> u32" where
  "next_id tr i old =
     (let next = tr_base tr + tr_step tr * of_nat i in
      next OR ((old + push_bit (fst (invl_range tr)) 1)
        AND (if snd (invl_range tr) \<noteq> 0 then mask_out tr else 0)))"

text \<open>The search for a free slot over the \<open>n\<close> slots from \<open>i\<close> on.\<close>

fun find_free :: "nat \<Rightarrow> nat \<Rightarrow> id_key list \<Rightarrow> nat option" where
  "find_free i 0 ks = None"
| "find_free i (Suc n) ks = (if m_base (ks ! i) = no_type then Some i else find_free (Suc i) n ks)"

definition store_key :: "nat \<Rightarrow> u32 \<Rightarrow> id_traits \<Rightarrow> 'p id_map \<Rightarrow> 'p id_map" where
  "store_key i idn tr m =
     m\<lparr>vec_keys := (vec_keys m)[i := \<lparr>m_value = idn, m_base = tr_type tr\<rparr>], last_id := idn\<rparr>"

text \<open>The first component is the allocated slot; the whole is \<open>None\<close> when \<^verbatim>\<open>ensure(index < count)\<close> fails.\<close>

definition allocate_id :: "id_traits \<Rightarrow> u32 \<Rightarrow> 'p id_map \<Rightarrow> (nat option \<times> 'p id_map) option" where
  "allocate_id tr dst m =
     (let count = unat (tr_count tr) in
      if dst \<noteq> invalid_id tr then
        let index = get_index tr dst in
        if index \<ge> tr_count tr then None
        else
          let i = unat index; m1 = m\<lparr>highest_index := max (highest_index m) (i + 1)\<rparr> in
          if m_base (vec_keys m1 ! i) \<noteq> no_type then Some (None, m1)
          else Some (Some i, store_key i dst tr m1)
      else if \<not> uses_lowest_id tr \<and> highest_index m < count then
        let i = highest_index m; idn = tr_base tr + tr_step tr * of_nat i in
        Some (Some i, (store_key i idn tr m)\<lparr>highest_index := i + 1\<rparr>)
      else
        let m1 = (if uses_lowest_id tr then m\<lparr>highest_index := count\<rparr> else m) in
        case find_free 0 count (vec_keys m1) of
          None \<Rightarrow> Some (None, m1)
        | Some i \<Rightarrow> Some (Some i, store_key i (next_id tr i (m_value (vec_keys m1 ! i))) tr m1))"

text \<open>\<open>same_type\<close> is the test \<^verbatim>\<open>std::is_same_v<T, Type>\<close>: the container's own type accepts every key.\<close>

definition find_index :: "bool \<Rightarrow> id_traits \<Rightarrow> u32 \<Rightarrow> u32 \<Rightarrow> 'p id_map \<Rightarrow> (nat \<times> 'p) option" where
  "find_index same_type tr index idn m =
     (if unat index \<ge> highest_index m then None
      else case vec_data m ! unat index of
        None \<Rightarrow> None
      | Some p \<Rightarrow>
          if (same_type \<or> m_base (vec_keys m ! unat index) = tr_type tr)
             \<and> (snd (invl_range tr) = 0 \<or> m_value (vec_keys m ! unat index) = idn)
          then Some (unat index, p) else None)"

definition find_id :: "bool \<Rightarrow> id_traits \<Rightarrow> u32 \<Rightarrow> 'p id_map \<Rightarrow> (nat \<times> 'p) option" where
  "find_id same_type tr idn m = find_index same_type tr (get_index tr idn) idn m"

text \<open>The provider runs with the id already stored (\<^verbatim>\<open>idm::last_id\<close>) and may fail.\<close>

definition create_id ::
    "id_traits \<Rightarrow> (u32 \<Rightarrow> 's \<Rightarrow> 'p option \<times> 's) \<Rightarrow> u32 \<Rightarrow> 'p id_map \<Rightarrow> 's
      \<Rightarrow> ('p option \<times> 'p id_map \<times> 's) option" where
  "create_id tr provider dst m s =
     (case allocate_id tr dst m of
        None \<Rightarrow> None
      | Some (None, m1) \<Rightarrow> Some (None, m1, s)
      | Some (Some i, m1) \<Rightarrow>
          (case provider (last_id m1) s of
             (Some p, s') \<Rightarrow> Some (Some p, m1\<lparr>vec_data := (vec_data m1)[i := Some p]\<rparr>, s')
           | (None, s') \<Rightarrow> Some (None, m1\<lparr>vec_keys := (vec_keys m1)[i := empty_key]\<rparr>, s')))"

definition clear_all :: "'p id_map \<Rightarrow> 'p id_map" where
  "clear_all m =
     m\<lparr>vec_data := map (\<lambda>_. None) (vec_data m), vec_keys := map clear_key (vec_keys m)\<rparr>"

definition idm_import ::
    "id_traits \<Rightarrow> (u32 \<Rightarrow> 's \<Rightarrow> 'p option \<times> 's) \<Rightarrow> u32 \<Rightarrow> 'p id_map \<Rightarrow> 's
      \<Rightarrow> (u32 \<times> 'p id_map \<times> 's) option" where
  "idm_import tr provider dst m s =
     map_option (\<lambda>(r, m', s'). (if r \<noteq> None then last_id m' else invalid_id tr, m', s'))
       (create_id tr provider dst m s)"

definition check_unlocked :: "bool \<Rightarrow> id_traits \<Rightarrow> u32 \<Rightarrow> 'p id_map \<Rightarrow> 'p option" where
  "check_unlocked same_type tr idn m = map_option snd (find_id same_type tr idn m)"

text \<open>\<^verbatim>\<open>idm::get\<close> and \<^verbatim>\<open>idm::check\<close> with a function: the object, if the id is valid.\<close>

definition idm_get :: "id_traits \<Rightarrow> u32 \<Rightarrow> 'p id_map \<Rightarrow> 'p option" where
  "idm_get tr idn m =
     (let index = get_index tr idn in
      if index \<ge> tr_count tr then None else map_option snd (find_index False tr index idn m))"

definition clear_slot :: "nat \<Rightarrow> 'p id_map \<Rightarrow> 'p id_map" where
  "clear_slot i m =
     m\<lparr>vec_data := (vec_data m)[i := None], vec_keys := (vec_keys m)[i := clear_key (vec_keys m ! i)]\<rparr>"

definition idm_remove :: "bool \<Rightarrow> id_traits \<Rightarrow> u32 \<Rightarrow> 'p id_map \<Rightarrow> bool \<times> 'p id_map" where
  "idm_remove same_type tr idn m =
     (case find_id same_type tr idn m of None \<Rightarrow> (False, m) | Some (i, p) \<Rightarrow> (True, clear_slot i m))"

definition idm_remove_verify :: "bool \<Rightarrow> id_traits \<Rightarrow> u32 \<Rightarrow> 'p \<Rightarrow> 'p id_map \<Rightarrow> bool \<times> 'p id_map" where
  "idm_remove_verify same_type tr idn q m =
     (case find_id same_type tr idn m of
        None \<Rightarrow> (False, m)
      | Some (i, p) \<Rightarrow> if p = q then (True, clear_slot i m) else (False, m))"

definition idm_withdraw :: "bool \<Rightarrow> id_traits \<Rightarrow> u32 \<Rightarrow> 'p id_map \<Rightarrow> 'p option \<times> 'p id_map" where
  "idm_withdraw same_type tr idn m =
     (case find_id same_type tr idn m of None \<Rightarrow> (None, m) | Some (i, p) \<Rightarrow> (Some p, clear_slot i m))"

text \<open>\<^verbatim>\<open>idm::withdraw\<close> with a function: the id is kept when the function reports an error.\<close>

definition idm_withdraw_if ::
    "id_traits \<Rightarrow> u32 \<Rightarrow> ('p \<Rightarrow> 's \<Rightarrow> error_code \<times> 's) \<Rightarrow> 'p id_map \<Rightarrow> 's
      \<Rightarrow> ('p \<times> error_code) option \<times> 'p id_map \<times> 's" where
  "idm_withdraw_if tr idn f m s =
     (let index = get_index tr idn in
      if index \<ge> tr_count tr then (None, m, s)
      else case find_index False tr index idn m of
        None \<Rightarrow> (None, m, s)
      | Some (i, p) \<Rightarrow>
          (case f p s of
             (e, s') \<Rightarrow> if e \<noteq> 0 then (Some (p, e), m, s') else (Some (p, e), clear_slot i m, s')))"

text \<open>\<^verbatim>\<open>idm::select\<close>: the objects of the given types in table order, up to the first one accepted.\<close>

fun select_from :: "(u32 \<Rightarrow> bool) \<Rightarrow> (u32 \<Rightarrow> 'p \<Rightarrow> 's \<Rightarrow> bool \<times> 's) \<Rightarrow> nat \<Rightarrow> 'p id_map \<Rightarrow> nat \<Rightarrow> 's
      \<Rightarrow> 'p option \<times> 's" where
  "select_from types f i m 0 s = (None, s)"
| "select_from types f i m (Suc n) s =
     (case vec_data m ! i of
        Some p \<Rightarrow>
          if types (m_base (vec_keys m ! i)) then
            (case f (m_value (vec_keys m ! i)) p s of
               (True, s') \<Rightarrow> (Some p, s')
             | (False, s') \<Rightarrow> select_from types f (Suc i) m n s')
          else select_from types f (Suc i) m n s
      | None \<Rightarrow> select_from types f (Suc i) m n s)"

definition idm_select :: "(u32 \<Rightarrow> bool) \<Rightarrow> (u32 \<Rightarrow> 'p \<Rightarrow> 's \<Rightarrow> bool \<times> 's) \<Rightarrow> 'p id_map \<Rightarrow> 's \<Rightarrow> 'p option \<times> 's" where
  "idm_select types f m s = select_from types f 0 m (length (vec_data m)) s"

section \<open>Ids of kernel objects\<close>

text \<open>
  Kernel objects (\<^verbatim>\<open>lv2_obj\<close>) share one table of 8192 slots, use ids in steps of 256 from a base that
  identifies the class, and keep the invalidation counter in the low byte.
\<close>

definition lv2_traits :: "u32 \<Rightarrow> id_traits" where
  "lv2_traits b = \<lparr>tr_base = b, tr_step = 0x100, tr_count = 8192, tr_type = b,
     uses_lowest_id = False, invl_range = (0, 8)\<rparr>"

definition good_base :: "u32 \<Rightarrow> bool" where
  "good_base b \<longleftrightarrow> take_bit 8 b = 0 \<and> 0 < b \<and> unat b + 8192 * 256 \<le> 2 ^ 32"

definition slot_base :: "u32 \<Rightarrow> nat \<Rightarrow> u32" where
  "slot_base b i = b + 0x100 * of_nat i"

lemma lv2_traits_sel [simp]:
  "tr_base (lv2_traits b) = b" "tr_step (lv2_traits b) = 0x100" "tr_count (lv2_traits b) = 8192"
  "tr_type (lv2_traits b) = b" "uses_lowest_id (lv2_traits b) = False"
  "invl_range (lv2_traits b) = (0, 8)"
  by (simp_all add: lv2_traits_def)

lemma lv2_traits_mask [simp]: "mask_out (lv2_traits b) = mask 8"
  by (simp add: mask_out_def mask_eq_exp_minus_1)

lemma unat_slot_base:
  assumes "good_base b" and "i < 8192"
  shows "unat (slot_base b i) = unat b + 256 * i"
proof -
  have m: "unat (0x100 * of_nat i :: u32) = 256 * i"
    using assms(2) by (subst unat_mult_lem [THEN iffD1]) (simp_all add: unat_of_nat)
  have "unat b + unat (0x100 * of_nat i :: u32) < 2 ^ 32" using assms m by (simp add: good_base_def)
  then show ?thesis using m by (simp add: slot_base_def unat_add_lem [THEN iffD1])
qed

lemma unat_low_byte: "unat (take_bit 8 x) = unat x mod 256" for x :: u32
  by (simp only: unsigned_take_bit_eq take_bit_nat_def) simp

lemma slot_base_low: "good_base b \<Longrightarrow> i < 8192 \<Longrightarrow> take_bit 8 (slot_base b i) = 0"
proof -
  assume g: "good_base b" and i: "i < 8192"
  have "unat b mod 256 = 0"
    using g unat_low_byte [of b] by (simp add: good_base_def)
  then have "unat (take_bit 8 (slot_base b i)) = 0"
    by (simp add: unat_low_byte unat_slot_base [OF g i])
  then show ?thesis by (simp only: unat_eq_zero)
qed

lemma strip_counter:
  assumes "take_bit 8 x = 0"
  shows "(x OR take_bit 8 c) AND NOT (mask 8) = (x :: u32)" "take_bit 8 (x OR take_bit 8 c) = take_bit 8 c"
proof -
  have "\<not> bit x n" if "n < 8" for n
    using arg_cong [OF assms, of "\<lambda>y. bit y n"] that by (simp add: bit_simps)
  then show "(x OR take_bit 8 c) AND NOT (mask 8) = x" "take_bit 8 (x OR take_bit 8 c) = take_bit 8 c"
    by (auto intro!: bit_eqI simp: bit_simps)
qed

lemma get_index_slot:
  assumes "good_base b" and "i < 8192"
  shows "get_index (lv2_traits b) (slot_base b i OR take_bit 8 c) = of_nat i"
proof -
  have m: "unat (0x100 * of_nat i :: u32) = 256 * i"
    using assms(2) by (subst unat_mult_lem [THEN iffD1]) (simp_all add: unat_of_nat)
  have "(0x100 * of_nat i :: u32) mod 0x100 = 0"
    by (rule word_unat_eq_iff [THEN iffD2]) (simp add: unat_mod m)
  moreover have "(0x100 * of_nat i :: u32) div 0x100 = of_nat i"
    using assms(2) by (intro word_unat_eq_iff [THEN iffD2]) (simp add: unat_div m unat_of_nat)
  ultimately show ?thesis
    unfolding get_index_def lv2_traits_mask strip_counter(1) [OF slot_base_low [OF assms]]
    by (simp add: slot_base_def)
qed

section \<open>The table invariant\<close>

text \<open>
  A slot is occupied exactly when its key has a type, its id value is the slot's id of that type
  with some counter, and slots beyond \<open>highest_index\<close> were never used.
\<close>

definition slot_id :: "u32 \<Rightarrow> nat \<Rightarrow> u32 \<Rightarrow> bool" where
  "slot_id b i v \<longleftrightarrow> v = slot_base b i OR take_bit 8 v"

definition table_inv :: "'p id_map \<Rightarrow> bool" where
  "table_inv m \<longleftrightarrow> length (vec_data m) = 8192 \<and> length (vec_keys m) = 8192 \<and> highest_index m \<le> 8192
     \<and> (\<forall>i<8192. vec_data m ! i \<noteq> None \<longleftrightarrow> m_base (vec_keys m ! i) \<noteq> no_type)
     \<and> (\<forall>i<8192. m_base (vec_keys m ! i) \<noteq> no_type \<longrightarrow>
          good_base (m_base (vec_keys m ! i)) \<and> slot_id (m_base (vec_keys m ! i)) i (m_value (vec_keys m ! i)))
     \<and> (\<forall>i<8192. highest_index m \<le> i \<longrightarrow> vec_keys m ! i = empty_key)"

lemma table_inv_empty: "table_inv (empty_map 8192)"
  by (simp add: table_inv_def empty_map_def empty_key_def)

lemma good_base_type: "good_base b \<Longrightarrow> b \<noteq> no_type"
  by (auto simp: good_base_def)

lemma slot_id_index: "good_base b \<Longrightarrow> i < 8192 \<Longrightarrow> slot_id b i v \<Longrightarrow> get_index (lv2_traits b) v = of_nat i"
  unfolding slot_id_def using get_index_slot by metis

lemma slot_id_or: "good_base b \<Longrightarrow> i < 8192 \<Longrightarrow> slot_id b i (slot_base b i OR take_bit 8 c)"
  by (simp add: slot_id_def strip_counter slot_base_low)

lemma slot_id_base: "good_base b \<Longrightarrow> i < 8192 \<Longrightarrow> slot_id b i (slot_base b i)"
  by (simp add: slot_id_def slot_base_low)

lemma unat_small: "i < 8192 \<Longrightarrow> unat (of_nat i :: u32) = i"
  by (simp add: unat_of_nat)

text \<open>What a lookup returns, slot by slot.\<close>

lemma find_id_iff:
  assumes "table_inv m" and "good_base b"
  shows "find_id False (lv2_traits b) v m = Some (i, p) \<longleftrightarrow>
    i < 8192 \<and> vec_data m ! i = Some p \<and> vec_keys m ! i = \<lparr>m_value = v, m_base = b\<rparr>"
proof
  assume f: "find_id False (lv2_traits b) v m = Some (i, p)"
  then have "unat (get_index (lv2_traits b) v) < highest_index m" "i = unat (get_index (lv2_traits b) v)"
    "vec_data m ! i = Some p" "m_base (vec_keys m ! i) = b" "m_value (vec_keys m ! i) = v"
    by (auto simp: find_id_def find_index_def split: if_splits option.splits)
  then show "i < 8192 \<and> vec_data m ! i = Some p \<and> vec_keys m ! i = \<lparr>m_value = v, m_base = b\<rparr>"
    using assms(1) by (auto simp: table_inv_def)
next
  assume a: "i < 8192 \<and> vec_data m ! i = Some p \<and> vec_keys m ! i = \<lparr>m_value = v, m_base = b\<rparr>"
  then have "slot_id b i v" "i < highest_index m"
    using assms good_base_type [OF assms(2)] by (auto simp: table_inv_def not_le [symmetric] empty_key_def)
  moreover have "get_index (lv2_traits b) v = of_nat i"
    using a assms(2) \<open>slot_id b i v\<close> by (intro slot_id_index) auto
  ultimately show "find_id False (lv2_traits b) v m = Some (i, p)"
    using a by (simp add: find_id_def find_index_def unat_small)
qed

lemma idm_get_iff:
  assumes "table_inv m" and "good_base b"
  shows "idm_get (lv2_traits b) v m = Some p \<longleftrightarrow>
    (\<exists>i<8192. vec_data m ! i = Some p \<and> vec_keys m ! i = \<lparr>m_value = v, m_base = b\<rparr>)"
proof -
  have "idm_get (lv2_traits b) v m = map_option snd (find_id False (lv2_traits b) v m)"
  proof (cases "8192 \<le> get_index (lv2_traits b) v")
    case True
    then have "8192 \<le> unat (get_index (lv2_traits b) v)" by (simp add: word_le_nat_alt)
    then show ?thesis
      using assms(1) True by (simp add: idm_get_def find_id_def find_index_def table_inv_def Let_def)
  qed (simp add: idm_get_def find_id_def Let_def)
  then show ?thesis using find_id_iff [OF assms, of v] by auto
qed

lemma find_free_Some: "find_free i n ks = Some j \<Longrightarrow> i \<le> j \<and> j < i + n \<and> m_base (ks ! j) = no_type"
  by (induction i n ks rule: find_free.induct) (auto split: if_splits)

lemma find_free_None: "find_free i n ks = None \<longleftrightarrow> (\<forall>j. i \<le> j \<and> j < i + n \<longrightarrow> m_base (ks ! j) \<noteq> no_type)"
proof (induction i n ks rule: find_free.induct)
  case (2 i n ks)
  have "{j. i \<le> j \<and> j < i + Suc n} = insert i {j. Suc i \<le> j \<and> j < Suc i + n}" by auto
  then have "(\<forall>j. i \<le> j \<and> j < i + Suc n \<longrightarrow> P j) \<longleftrightarrow> P i \<and> (\<forall>j. Suc i \<le> j \<and> j < Suc i + n \<longrightarrow> P j)" for P
    by (metis (mono_tags, lifting) insert_iff mem_Collect_eq)
  with 2 show ?case by auto
qed auto

text \<open>The slot a new object gets: unoccupied, with an id the slot did not have last.\<close>

definition fresh_slot :: "u32 \<Rightarrow> nat \<Rightarrow> u32 \<Rightarrow> 'p id_map \<Rightarrow> bool" where
  "fresh_slot b i v m \<longleftrightarrow> i < 8192 \<and> m_base (vec_keys m ! i) = no_type \<and> slot_id b i v
     \<and> v \<noteq> m_value (vec_keys m ! i)"

lemma next_id_slot: "next_id (lv2_traits b) i old = slot_base b i OR take_bit 8 (old + 1)"
  by (simp add: next_id_def slot_base_def take_bit_eq_mask)

lemma next_id_differs:
  assumes "good_base b" and "i < 8192"
  shows "slot_base b i OR take_bit 8 (old + 1) \<noteq> old"
proof
  assume e: "slot_base b i OR take_bit 8 (old + 1) = old"
  have "take_bit 8 (slot_base b i OR take_bit 8 (old + 1)) = take_bit 8 (old + 1)"
    by (rule strip_counter) (rule slot_base_low [OF assms])
  with e have "unat (take_bit 8 (old + 1)) = unat (take_bit 8 old)" by simp
  then have eq: "unat (old + 1) mod 256 = unat old mod 256" by (simp only: unat_low_byte)
  have "unat (old + 1) = (unat old + 1) mod 2 ^ 32" by (simp add: unat_word_ariths)
  then have "unat (old + 1) mod 256 = (unat old + 1) mod 256" by (simp add: mod_mod_cancel)
  with eq show False by (simp add: mod_Suc split: if_splits)
qed

lemma allocate_new:
  assumes t: "table_inv m" and g: "good_base b"
  shows "(\<exists>i v h. fresh_slot b i v m \<and> i < h \<and> highest_index m \<le> h \<and> h \<le> 8192 \<and>
       allocate_id (lv2_traits b) 0 m
         = Some (Some i, m\<lparr>vec_keys := (vec_keys m)[i := \<lparr>m_value = v, m_base = b\<rparr>], last_id := v, highest_index := h\<rparr>))
    \<or> (highest_index m = 8192 \<and> (\<forall>i<8192. m_base (vec_keys m ! i) \<noteq> no_type) \<and> allocate_id (lv2_traits b) 0 m = Some (None, m))"
proof -
  have inv0: "invalid_id (lv2_traits b) = 0" using g by (auto simp: invalid_id_def good_base_def)
  consider (grow) "highest_index m < 8192" | (full) "highest_index m = 8192" "find_free 0 8192 (vec_keys m) = None"
    | (reuse) i where "highest_index m = 8192" "find_free 0 8192 (vec_keys m) = Some i"
    using t by (cases "find_free 0 8192 (vec_keys m)"; fastforce simp: table_inv_def le_less)
  then show ?thesis
  proof cases
    case grow
    let ?i = "highest_index m"
    have "vec_keys m ! ?i = empty_key" using t grow by (simp add: table_inv_def)
    moreover have "slot_base b ?i \<noteq> 0"
      using unat_slot_base [OF g grow] g by (metis add_is_0 good_base_def unat_0 word_less_nat_alt not_less0)
    ultimately have "fresh_slot b ?i (slot_base b ?i) m"
      using grow slot_id_base [OF g grow] by (simp add: fresh_slot_def empty_key_def)
    with grow show ?thesis
      by (intro disjI1 exI [of _ ?i] exI [of _ "slot_base b ?i"] exI [of _ "Suc ?i"])
        (simp add: allocate_id_def inv0 store_key_def slot_base_def Let_def)
  next
    case full
    have "\<forall>i<8192. m_base (vec_keys m ! i) \<noteq> no_type" using full(2) by (simp add: find_free_None)
    with full show ?thesis by (simp add: allocate_id_def inv0 Let_def)
  next
    case (reuse i)
    let ?v = "slot_base b i OR take_bit 8 (m_value (vec_keys m ! i) + 1)"
    have i: "i < 8192" "m_base (vec_keys m ! i) = no_type" using find_free_Some [OF reuse(2)] by auto
    then have "fresh_slot b i ?v m"
      by (simp add: fresh_slot_def slot_id_or [OF g] next_id_differs [OF g])
    with i reuse show ?thesis
      by (intro disjI1 exI [of _ i] exI [of _ ?v] exI [of _ 8192])
        (simp add: allocate_id_def inv0 store_key_def next_id_slot Let_def)
  qed
qed

lemma get_None_fresh:
  assumes "table_inv m" and "good_base b" and "fresh_slot b i v m"
  shows "idm_get (lv2_traits b) v m = None"
proof (rule ccontr)
  assume "idm_get (lv2_traits b) v m \<noteq> None"
  then obtain p j where j: "j < 8192" "vec_keys m ! j = \<lparr>m_value = v, m_base = b\<rparr>"
    using idm_get_iff [OF assms(1,2), of v] by auto
  then have "slot_id b j v" using assms(1) good_base_type [OF assms(2)] by (auto simp: table_inv_def)
  then have "(of_nat i :: u32) = of_nat j"
    using slot_id_index [OF assms(2), of _ v] j(1) assms(3) by (metis fresh_slot_def)
  then have "i = j" using unat_small j(1) assms(3) by (metis fresh_slot_def)
  then show False using assms(3) j good_base_type [OF assms(2)] by (auto simp: fresh_slot_def)
qed

text \<open>Filling a fresh slot.\<close>

definition fill :: "u32 \<Rightarrow> nat \<Rightarrow> u32 \<Rightarrow> nat \<Rightarrow> 'p \<Rightarrow> 'p id_map \<Rightarrow> 'p id_map" where
  "fill b i v h p m = m\<lparr>vec_data := (vec_data m)[i := Some p],
     vec_keys := (vec_keys m)[i := \<lparr>m_value = v, m_base = b\<rparr>], highest_index := h, last_id := v\<rparr>"

lemma fill_inv:
  assumes "table_inv m" and "good_base b" and "fresh_slot b i v m" and "i < h" "highest_index m \<le> h" "h \<le> 8192"
  shows "table_inv (fill b i v h p m)"
  using assms good_base_type [OF assms(2)]
  by (auto simp: table_inv_def fill_def fresh_slot_def nth_list_update)

lemma fill_get:
  assumes t: "table_inv m" and g: "good_base b" and f: "fresh_slot b i v m"
    and h: "i < h" "highest_index m \<le> h" "h \<le> 8192" and c: "good_base c"
  shows "idm_get (lv2_traits c) w (fill b i v h p m) = (if c = b \<and> w = v then Some p else idm_get (lv2_traits c) w m)"
proof -
  note i = fill_inv [OF t g f h, of p]
  have n: "vec_data (fill b i v h p m) ! j = (if j = i then Some p else vec_data m ! j)"
    "vec_keys (fill b i v h p m) ! j = (if j = i then \<lparr>m_value = v, m_base = b\<rparr> else vec_keys m ! j)" if "j < 8192" for j
    using that t by (auto simp: fill_def table_inv_def nth_list_update)
  have old: "vec_keys m ! i \<noteq> \<lparr>m_value = w, m_base = c\<rparr>"
    using f good_base_type [OF c] by (auto simp: fresh_slot_def)
  have "idm_get (lv2_traits c) w (fill b i v h p m) = Some q \<longleftrightarrow>
      (if c = b \<and> w = v then q = p else idm_get (lv2_traits c) w m = Some q)" for q
  proof -
    have "idm_get (lv2_traits c) w (fill b i v h p m) = Some q \<longleftrightarrow>
      (c = b \<and> w = v \<and> q = p) \<or> idm_get (lv2_traits c) w m = Some q"
      unfolding idm_get_iff [OF i c] idm_get_iff [OF t c]
      using f old by (auto simp: n fresh_slot_def cong: conj_cong split: if_splits)
    moreover have "idm_get (lv2_traits b) v m = None" by (rule get_None_fresh [OF t g f])
    ultimately show ?thesis by auto
  qed
  then show ?thesis by (intro option_eqI) auto
qed

text \<open>A slot whose provider failed is free again; no lookup changes.\<close>

definition spoil :: "nat \<Rightarrow> nat \<Rightarrow> u32 \<Rightarrow> 'p id_map \<Rightarrow> 'p id_map" where
  "spoil i h v m = m\<lparr>vec_keys := (vec_keys m)[i := empty_key], highest_index := h, last_id := v\<rparr>"

lemma spoil_inv:
  assumes "table_inv m" and "fresh_slot b i w m" and "i < h" "highest_index m \<le> h" "h \<le> 8192"
  shows "table_inv (spoil i h v m)"
  using assms by (auto simp: table_inv_def spoil_def fresh_slot_def nth_list_update empty_key_def)

lemma spoil_get:
  assumes t: "table_inv m" and f: "fresh_slot b i x m" and h: "i < h" "highest_index m \<le> h" "h \<le> 8192"
    and c: "good_base c"
  shows "idm_get (lv2_traits c) w (spoil i h v m) = idm_get (lv2_traits c) w m"
proof -
  note i = spoil_inv [OF t f h, of v]
  have n: "vec_data (spoil i h v m) ! j = vec_data m ! j"
    "vec_keys (spoil i h v m) ! j = (if j = i then empty_key else vec_keys m ! j)" if "j < 8192" for j
    using that t by (auto simp: spoil_def table_inv_def nth_list_update)
  have old: "vec_keys m ! i \<noteq> \<lparr>m_value = w, m_base = c\<rparr>"
    using f good_base_type [OF c] by (auto simp: fresh_slot_def)
  have "idm_get (lv2_traits c) w (spoil i h v m) = Some q \<longleftrightarrow> idm_get (lv2_traits c) w m = Some q" for q
    unfolding idm_get_iff [OF i c] idm_get_iff [OF t c]
    using f old good_base_type [OF c]
    by (auto simp: n fresh_slot_def empty_key_def cong: conj_cong split: if_splits)
  then show ?thesis by (intro option_eqI) auto
qed

lemma create_new:
  assumes t: "table_inv m" and g: "good_base b"
  shows "(\<exists>i v h. fresh_slot b i v m \<and> i < h \<and> highest_index m \<le> h \<and> h \<le> 8192 \<and>
       create_id (lv2_traits b) provider 0 m s =
         (case provider v s of (Some p, s') \<Rightarrow> Some (Some p, fill b i v h p m, s')
                             | (None, s') \<Rightarrow> Some (None, spoil i h v m, s')))
    \<or> ((\<forall>i<8192. vec_data m ! i \<noteq> None) \<and> create_id (lv2_traits b) provider 0 m s = Some (None, m, s))"
  using allocate_new [OF t g]
proof (elim disjE exE conjE)
  fix i v h
  assume a: "fresh_slot b i v m" "i < h" "highest_index m \<le> h" "h \<le> 8192"
    "allocate_id (lv2_traits b) 0 m
      = Some (Some i, m\<lparr>vec_keys := (vec_keys m)[i := \<lparr>m_value = v, m_base = b\<rparr>], last_id := v, highest_index := h\<rparr>)"
  show ?thesis
    by (intro disjI1 exI [of _ i] exI [of _ v] exI [of _ h] conjI a)
      (simp add: create_id_def a(5) fill_def spoil_def split: prod.split option.split)
next
  assume a: "\<forall>i<8192. m_base (vec_keys m ! i) \<noteq> no_type" "allocate_id (lv2_traits b) 0 m = Some (None, m)"
  then show ?thesis using t by (intro disjI2) (auto simp: table_inv_def create_id_def)
qed

text \<open>Removing an id.\<close>

lemma clear_slot_inv:
  assumes "table_inv m" and "i < 8192"
  shows "table_inv (clear_slot i m)"
  using assms by (auto simp: table_inv_def clear_slot_def clear_key_def empty_key_def nth_list_update)

lemma clear_slot_get:
  assumes t: "table_inv m" and i: "i < 8192" and k: "vec_keys m ! i = \<lparr>m_value = v, m_base = b\<rparr>"
    and g: "good_base b" and c: "good_base c"
  shows "idm_get (lv2_traits c) w (clear_slot i m) = (if c = b \<and> w = v then None else idm_get (lv2_traits c) w m)"
proof -
  have n: "vec_data (clear_slot i m) ! j = (if j = i then None else vec_data m ! j)"
    "vec_keys (clear_slot i m) ! j = (if j = i then clear_key (vec_keys m ! i) else vec_keys m ! j)" if "j < 8192" for j
    using that t by (auto simp: clear_slot_def table_inv_def nth_list_update)
  have u: "j = i" if "j < 8192" "vec_keys m ! j = \<lparr>m_value = v, m_base = b\<rparr>" for j
  proof -
    have "slot_id b j v" "slot_id b i v"
      using t i k that good_base_type [OF g] by (auto simp: table_inv_def)
    then have "(of_nat i :: u32) = of_nat j" using slot_id_index [OF g, of _ v] i that(1) by metis
    then show ?thesis using unat_small i that(1) by metis
  qed
  have "idm_get (lv2_traits c) w (clear_slot i m) = Some q \<longleftrightarrow>
      \<not> (c = b \<and> w = v) \<and> idm_get (lv2_traits c) w m = Some q" for q
  proof -
    let ?K = "\<lparr>m_value = w, m_base = c\<rparr>"
    have "(\<exists>j<8192. vec_data (clear_slot i m) ! j = Some q \<and> vec_keys (clear_slot i m) ! j = ?K)
        \<longleftrightarrow> (\<exists>j<8192. j \<noteq> i \<and> vec_data m ! j = Some q \<and> vec_keys m ! j = ?K)"
      by (auto simp: n cong: conj_cong split: if_splits)
    moreover have "(\<exists>j<8192. j \<noteq> i \<and> vec_data m ! j = Some q \<and> vec_keys m ! j = ?K)
        \<longleftrightarrow> \<not> (c = b \<and> w = v) \<and> (\<exists>j<8192. vec_data m ! j = Some q \<and> vec_keys m ! j = ?K)"
      using k u by (metis id_key.ext_inject)
    ultimately show ?thesis
      unfolding idm_get_iff [OF clear_slot_inv [OF t i] c] idm_get_iff [OF t c] by simp
  qed
  then show ?thesis by (intro option_eqI) auto
qed

lemma remove_known:
  assumes "table_inv m" and "good_base b" and "idm_get (lv2_traits b) v m = Some p"
  shows "\<exists>i<8192. vec_keys m ! i = \<lparr>m_value = v, m_base = b\<rparr> \<and> vec_data m ! i = Some p
    \<and> find_id False (lv2_traits b) v m = Some (i, p)"
  using assms(3) find_id_iff [OF assms(1,2), of v _ p] unfolding idm_get_iff [OF assms(1,2)] by blast

lemma find_None: "table_inv m \<Longrightarrow> good_base b \<Longrightarrow> find_id False (lv2_traits b) v m = None \<longleftrightarrow> idm_get (lv2_traits b) v m = None"
proof -
  assume t: "table_inv m" and g: "good_base b"
  have "(\<exists>i p. find_id False (lv2_traits b) v m = Some (i, p)) \<longleftrightarrow> (\<exists>p. idm_get (lv2_traits b) v m = Some p)"
    unfolding find_id_iff [OF t g] idm_get_iff [OF t g] by blast
  then show ?thesis
    by (cases "find_id False (lv2_traits b) v m"; cases "idm_get (lv2_traits b) v m") auto
qed

section \<open>The handle contract\<close>

text \<open>
  What the kernel relies on: a new handle resolves to the object it was created for and was not
  valid before, no other handle changes, a destroyed handle is invalid and the next object does not
  get the same handle.
\<close>

fun create_all :: "('p \<Rightarrow> 'm \<Rightarrow> u32 option \<times> 'm) \<Rightarrow> 'p list \<Rightarrow> 'm \<Rightarrow> u32 list option \<times> 'm" where
  "create_all create [] m = (Some [], m)"
| "create_all create (p # ps) m =
     (case create p m of
        (None, m') \<Rightarrow> (None, m')
      | (Some v, m') \<Rightarrow> (case create_all create ps m' of (r, m'') \<Rightarrow> (map_option (\<lambda>vs. v # vs) r, m'')))"

locale handle_table =
  fixes inv :: "'m \<Rightarrow> bool"
    and lookup :: "u32 \<Rightarrow> 'm \<Rightarrow> 'p option"
    and create :: "'p \<Rightarrow> 'm \<Rightarrow> u32 option \<times> 'm"
    and destroy :: "u32 \<Rightarrow> 'm \<Rightarrow> bool \<times> 'm"
  assumes inv_create: "inv m \<Longrightarrow> inv (snd (create p m))"
    and inv_destroy: "inv m \<Longrightarrow> inv (snd (destroy v m))"
    and create_fresh: "inv m \<Longrightarrow> create p m = (Some v, m') \<Longrightarrow> lookup v m = None"
    and create_lookup: "inv m \<Longrightarrow> create p m = (Some v, m') \<Longrightarrow>
          lookup w m' = (if w = v then Some p else lookup w m)"
    and destroy_lookup: "inv m \<Longrightarrow> lookup w (snd (destroy v m)) = (if w = v then None else lookup w m)"
    and destroy_valid: "inv m \<Longrightarrow> fst (destroy v m) \<longleftrightarrow> lookup v m \<noteq> None"
    and no_reuse: "inv m \<Longrightarrow> fst (destroy v m) \<Longrightarrow> create p (snd (destroy v m)) = (Some w, m') \<Longrightarrow> w \<noteq> v"
begin

lemma stale_handle:
  assumes "inv m" and "lookup v m = Some p" and "create q (snd (destroy v m)) = (Some w, m')"
  shows "lookup v m' = None" "lookup w m' = Some q"
  using assms destroy_lookup [OF assms(1), of v v] create_lookup [OF inv_destroy [OF assms(1)] assms(3)]
    no_reuse [OF assms(1) _ assms(3)] destroy_valid [OF assms(1), of v] by auto

lemma create_all_inv: "inv m \<Longrightarrow> inv (snd (create_all create ps m))"
proof (induction ps arbitrary: m)
  case (Cons p ps)
  have "inv (snd (create p m))" using Cons.prems by (rule inv_create)
  with Cons.IH [of "snd (create p m)"] show ?case by (auto split: prod.split option.split)
qed simp

lemma create_all_lookup:
  assumes "inv m" and "create_all create ps m = (Some vs, m')"
  shows "length vs = length ps \<and> distinct vs \<and> (\<forall>i<length ps. lookup (vs ! i) m' = Some (ps ! i))
    \<and> (\<forall>w. w \<notin> set vs \<longrightarrow> lookup w m' = lookup w m) \<and> (\<forall>v\<in>set vs. lookup v m = None)"
  using assms
proof (induction ps arbitrary: m vs)
  case (Cons p ps)
  from Cons.prems(2) obtain v m1 vs1 where c: "create p m = (Some v, m1)"
    and r: "create_all create ps m1 = (Some vs1, m')" and vs: "vs = v # vs1"
    by (auto split: prod.splits option.splits)
  have i1: "inv m1" using inv_create [OF Cons.prems(1), of p] c by simp
  note l = create_lookup [OF Cons.prems(1) c]
  note IH = Cons.IH [OF i1 r]
  have v: "v \<notin> set vs1" using IH l [of v] by auto
  have "lookup (vs ! i) m' = Some ((p # ps) ! i)" if "i < length (p # ps)" for i
    using that IH v l [of v] by (cases i) (auto simp: vs)
  moreover have "lookup w m' = lookup w m" if "w \<notin> set vs" for w using that IH l [of w] by (auto simp: vs)
  moreover have "lookup w m = None" if "w \<in> set vs" for w
    using that IH l [of w] create_fresh [OF Cons.prems(1) c] v by (auto simp: vs split: if_splits)
  ultimately show ?case using IH v vs by auto
qed auto

end

definition obj_create :: "u32 \<Rightarrow> 'p \<Rightarrow> 'p id_map \<Rightarrow> u32 option \<times> 'p id_map" where
  "obj_create b p m =
     (case create_id (lv2_traits b) (\<lambda>_ s. (Some p, s)) (invalid_id (lv2_traits b)) m () of
        Some (Some q, m', _) \<Rightarrow> (Some (last_id m'), m')
      | Some (None, m', _) \<Rightarrow> (None, m')
      | None \<Rightarrow> (None, m))"

lemma invalid_lv2: "good_base b \<Longrightarrow> invalid_id (lv2_traits b) = 0"
  by (auto simp: invalid_id_def good_base_def)

lemma obj_create_cases:
  assumes "table_inv m" and "good_base b"
  obtains (ok) i v h where "fresh_slot b i v m" "i < h" "highest_index m \<le> h" "h \<le> 8192"
      "obj_create b p m = (Some v, fill b i v h p m)"
    | (full) "\<forall>i<8192. vec_data m ! i \<noteq> None" "obj_create b p m = (None, m)"
proof -
  have "last_id (fill b i v h p m) = v" for i v h by (simp add: fill_def)
  then show ?thesis
    using create_new [OF assms, of "\<lambda>_ s. (Some p, s)" "()"] ok full
    by (auto simp: obj_create_def invalid_lv2 assms(2))
qed

lemma obj_create_inv: "table_inv m \<Longrightarrow> good_base b \<Longrightarrow> table_inv (snd (obj_create b p m))"
  by (rule obj_create_cases [of m b p]) (auto intro: fill_inv)

lemma obj_remove_inv: "table_inv m \<Longrightarrow> good_base b \<Longrightarrow> table_inv (snd (idm_remove False (lv2_traits b) v m))"
  by (auto simp: idm_remove_def find_id_iff intro: clear_slot_inv split: option.split)

lemma obj_remove_get:
  assumes t: "table_inv m" and g: "good_base b" and c: "good_base c"
  shows "idm_get (lv2_traits c) w (snd (idm_remove False (lv2_traits b) v m))
    = (if c = b \<and> w = v then None else idm_get (lv2_traits c) w m)"
proof (cases "idm_get (lv2_traits b) v m")
  case None
  then show ?thesis using find_None [OF t g, of v] by (auto simp: idm_remove_def)
next
  case (Some p)
  from remove_known [OF t g Some] obtain i where "i < 8192"
    "vec_keys m ! i = \<lparr>m_value = v, m_base = b\<rparr>" "find_id False (lv2_traits b) v m = Some (i, p)" by blast
  then show ?thesis using clear_slot_get [OF t _ _ g c] by (simp add: idm_remove_def)
qed

lemma obj_no_reuse:
  assumes t: "table_inv m" and g: "good_base b" and v: "idm_get (lv2_traits b) v m = Some p"
    and c: "obj_create b q (snd (idm_remove False (lv2_traits b) v m)) = (Some w, m')"
  shows "w \<noteq> v"
proof -
  let ?m = "snd (idm_remove False (lv2_traits b) v m)"
  from remove_known [OF t g v] obtain i where i: "i < 8192"
    "vec_keys m ! i = \<lparr>m_value = v, m_base = b\<rparr>" "find_id False (lv2_traits b) v m = Some (i, p)" by blast
  have k: "m_value (vec_keys ?m ! i) = v"
    using i t by (simp add: idm_remove_def clear_slot_def table_inv_def clear_key_def)
  have si: "slot_id b i v" using t i good_base_type [OF g] by (auto simp: table_inv_def)
  show ?thesis
  proof (rule obj_create_cases [OF obj_remove_inv [OF t g] g, of v q])
    fix j x h assume f: "fresh_slot b j x ?m" and "obj_create b q ?m = (Some x, fill b j x h q ?m)"
    then have x: "x = w" using c by simp
    show ?thesis
    proof
      assume "w = v"
      then have "(of_nat i :: u32) = of_nat j"
        using slot_id_index [OF g, of _ v] i(1) si f x by (metis fresh_slot_def)
      then have "i = j" using unat_small i(1) f by (metis fresh_slot_def)
      then show False using f k x \<open>w = v\<close> by (auto simp: fresh_slot_def)
    qed
  qed (use c in auto)
qed

interpretation lv2_ids: handle_table "\<lambda>m. good_base b \<and> table_inv m" "idm_get (lv2_traits b)"
  "obj_create b" "idm_remove False (lv2_traits b)" for b
proof (unfold_locales, goal_cases)
  case (3 m p v m')
  then have t: "table_inv m" "good_base b" by auto
  show ?case by (rule obj_create_cases [OF t, of p]) (use 3 t in \<open>auto intro: get_None_fresh\<close>)
next
  case (4 m p v m' w)
  then have t: "table_inv m" "good_base b" by auto
  show ?case by (rule obj_create_cases [OF t, of p]) (use 4 t in \<open>auto simp: fill_get\<close>)
next
  case (6 m v)
  then show ?case using find_None [of m b v] by (auto simp: idm_remove_def split: option.split)
next
  case (7 m v p w m')
  then have "find_id False (lv2_traits b) v m \<noteq> None" by (auto simp: idm_remove_def split: option.splits)
  then have "idm_get (lv2_traits b) v m \<noteq> None" using find_None [of m b v] 7(1) by simp
  then show ?case using obj_no_reuse [of m b v] 7 by auto
qed (auto simp: obj_create_inv obj_remove_inv obj_remove_get)

section \<open>Properties\<close>

lemma obj_create_grow:
  assumes "good_base b" and "highest_index m < 8192"
  shows "obj_create b p m = (Some (slot_base b (highest_index m)),
    fill b (highest_index m) (slot_base b (highest_index m)) (Suc (highest_index m)) p m)"
  using assms
  by (simp add: obj_create_def invalid_lv2 create_id_def allocate_id_def Let_def store_key_def slot_base_def fill_def)

lemma sema_base: "good_base 0x96000000"
  by (simp add: good_base_def)

text \<open>The empty table of kernel objects and the table after one semaphore was created.\<close>

definition no_objects :: "nat id_map" where
  "no_objects = empty_map 8192"

definition one_object :: "nat id_map" where
  "one_object = snd (obj_create 0x96000000 7 no_objects)"

lemma no_objects_facts: "table_inv no_objects" "highest_index no_objects = 0" "vec_data no_objects ! 0 = None"
  unfolding no_objects_def by (rule table_inv_empty) (simp_all add: empty_map_def)

lemma one_object_facts: "obj_create 0x96000000 7 no_objects = (Some 0x96000000, one_object)"
  "table_inv one_object" "highest_index one_object = 1"
  "idm_get (lv2_traits 0x96000000) 0x96000000 one_object = Some 7"
proof -
  show c: "obj_create 0x96000000 7 no_objects = (Some 0x96000000, one_object)"
    unfolding one_object_def using obj_create_grow [OF sema_base, of no_objects 7]
    by (simp add: no_objects_facts slot_base_def)
  show "table_inv one_object"
    unfolding one_object_def by (rule obj_create_inv [OF no_objects_facts(1) sema_base])
  show "highest_index one_object = 1"
    unfolding one_object_def using obj_create_grow [OF sema_base, of no_objects 7]
    by (simp add: no_objects_facts fill_def)
  show "idm_get (lv2_traits 0x96000000) 0x96000000 one_object = Some 7"
    using lv2_ids.create_lookup [OF _ c]
      sema_base no_objects_facts(1) by simp
qed

text \<open>C23: Objects that are created one after the other get pairwise different ids that were not valid
  before; every id resolves to its own object, and no id that existed before changes its meaning.\<close>

theorem ids_resolve:
  assumes "table_inv m" and "good_base b" and "create_all (obj_create b) ps m = (Some vs, m')"
  shows "table_inv m' \<and> length vs = length ps \<and> distinct vs
    \<and> (\<forall>i<length ps. idm_get (lv2_traits b) (vs ! i) m' = Some (ps ! i))
    \<and> (\<forall>v\<in>set vs. idm_get (lv2_traits b) v m = None)
    \<and> (\<forall>w. w \<notin> set vs \<longrightarrow> idm_get (lv2_traits b) w m' = idm_get (lv2_traits b) w m)"
  using lv2_ids.create_all_lookup [of b m ps vs m'] lv2_ids.create_all_inv [of b m ps] assms by auto

theorem ids_resolve_witness:
  "\<exists>m'. create_all (obj_create 0x96000000) [7, 9] no_objects = (Some [0x96000000, 0x96000100], m')
     \<and> idm_get (lv2_traits 0x96000000) 0x96000100 m' = Some 9"
proof -
  obtain m' where c: "create_all (obj_create 0x96000000) [7, 9] no_objects = (Some [0x96000000, 0x96000100], m')"
    using obj_create_grow [OF sema_base, of one_object 9] one_object_facts(1,3) by (simp add: slot_base_def)
  from conjunct1 [OF conjunct2 [OF conjunct2 [OF conjunct2 [OF ids_resolve [OF no_objects_facts(1) sema_base c]]]]]
  have "idm_get (lv2_traits 0x96000000) ([0x96000000, 0x96000100] ! 1) m' = Some ([7, 9] ! 1)"
    by (metis One_nat_def length_Cons lessI list.size(3))
  with c show ?thesis by auto
qed

text \<open>C24: An id that was destroyed stays invalid when the next object of the class is created, even in
  the same slot, because the invalidation counter differs; the id of another class that is valid
  keeps its object through both operations.\<close>

theorem stale_id_rejected:
  assumes "table_inv m" and "good_base b" and "idm_get (lv2_traits b) v m = Some p"
    and "obj_create b q (snd (idm_remove False (lv2_traits b) v m)) = (Some w, m')"
  shows "idm_get (lv2_traits b) v m' = None \<and> idm_get (lv2_traits b) w m' = Some q
    \<and> (\<forall>c u. good_base c \<and> c \<noteq> b \<longrightarrow> idm_get (lv2_traits c) u m' = idm_get (lv2_traits c) u m)"
proof -
  let ?m = "snd (idm_remove False (lv2_traits b) v m)"
  have t: "table_inv ?m" by (rule obj_remove_inv [OF assms(1,2)])
  have "idm_get (lv2_traits c) u m' = idm_get (lv2_traits c) u m" if "good_base c" "c \<noteq> b" for c u
    by (rule obj_create_cases [OF t assms(2), of q])
      (use assms that t in \<open>auto simp: fill_get obj_remove_get\<close>)
  then show ?thesis using lv2_ids.stale_handle [of b m v p q w m'] assms by auto
qed

theorem stale_id_rejected_witness:
  "\<exists>w m'. obj_create 0x96000000 9 (snd (idm_remove False (lv2_traits 0x96000000) 0x96000000 one_object)) = (Some w, m')
     \<and> idm_get (lv2_traits 0x96000000) 0x96000000 m' = None"
proof -
  let ?m = "snd (idm_remove False (lv2_traits 0x96000000) 0x96000000 one_object)"
  have "highest_index ?m = 1"
    by (simp add: idm_remove_def clear_slot_def one_object_facts(3) split: option.split)
  then obtain w m' where c: "obj_create 0x96000000 9 ?m = (Some w, m')"
    using obj_create_grow [OF sema_base, of ?m 9] by simp
  with stale_id_rejected [OF one_object_facts(2) sema_base one_object_facts(4) c] show ?thesis by blast
qed

text \<open>C25: Creating an object fails exactly when all 8192 slots of the shared table are occupied.\<close>

theorem create_fails_only_when_full:
  assumes "table_inv m" and "good_base b"
  shows "fst (obj_create b p m) = None \<longleftrightarrow> (\<forall>i<8192. vec_data m ! i \<noteq> None)"
proof (rule obj_create_cases [OF assms, of p])
  fix i v h assume f: "fresh_slot b i v m" and "obj_create b p m = (Some v, fill b i v h p m)"
  moreover have "vec_data m ! i = None" using f assms(1) by (auto simp: fresh_slot_def table_inv_def)
  ultimately show ?thesis by (auto simp: fresh_slot_def)
qed auto

theorem create_fails_only_when_full_witness: "fst (obj_create 0x96000000 7 no_objects) \<noteq> None"
proof -
  have "\<exists>i<8192. vec_data no_objects ! i = None" by (rule exI [of _ 0]) (simp add: no_objects_facts)
  then show ?thesis using create_fails_only_when_full [OF no_objects_facts(1) sema_base, of 7] by blast
qed

text \<open>
  When a provider fails, \<^verbatim>\<open>*key_ptr = {}\<close> also forgets the slot's counter. In a full table (here of
  one slot) an id that was destroyed is then handed out again and the stale handle is accepted.
\<close>

definition one_slot :: id_traits where
  "one_slot = (lv2_traits 0x100)\<lparr>tr_count := 1\<rparr>"

definition counter_run :: "nat id_map \<Rightarrow> u32 list" where
  "counter_run m =
     (case create_id one_slot (\<lambda>_ s. (Some 1, s)) 0 m () of
        Some (_, m1, _) \<Rightarrow>
          (case create_id one_slot (\<lambda>_ s. (Some 2, s)) 0 (snd (idm_remove False one_slot (last_id m1) m1)) () of
             Some (_, m2, _) \<Rightarrow>
               (case create_id one_slot (\<lambda>_ s. (None, s)) 0 (snd (idm_remove False one_slot (last_id m2) m2)) () of
                  Some (_, m3, _) \<Rightarrow>
                    (case create_id one_slot (\<lambda>_ s. (Some 4, s)) 0 m3 () of
                       Some (_, m4, _) \<Rightarrow> [last_id m1, last_id m2, last_id m4]
                     | None \<Rightarrow> [])
                | None \<Rightarrow> [])
           | None \<Rightarrow> [])
      | None \<Rightarrow> [])"

lemma failed_creation_resets_counter: "counter_run (empty_map 1) = [0x100, 0x101, 0x101]"
  by code_simp

end
