(* ===== verification/Lv2_Object.thy ===== *)
theory Lv2_Object
  imports Lv2_Running Id_Manager
begin

text \<open>
  Kernel objects: the classes derived from \<^verbatim>\<open>lv2_obj\<close> as records extending \<open>lv2_obj\<close>, the kernel
  state (scheduler, id table, IPC tables, object store), \<^verbatim>\<open>lv2_obj::create\<close> and
  \<^verbatim>\<open>lv2_obj::on_id_destroy\<close> of \<^verbatim>\<open>sys_sync.h\<close>, the \<^verbatim>\<open>ipc_manager\<close> of \<^verbatim>\<open>IPC.h\<close>, and one iteration of
  the wait loop the blocking system calls share. An object is stored under its address; several ids
  can refer to one object through an IPC key, and \<open>obj_exists\<close> counts the ids. \<open>None\<close> is a failed
  \<^verbatim>\<open>ensure\<close> or a null dereference. The address of an object is what \<^verbatim>\<open>shared_ptr\<close> holds; objects are
  never reclaimed in the model.
\<close>

section \<open>Object classes\<close>

record lv2_obj =
  obj_exists :: u32

record lv2_sema = lv2_obj +
  sem_protocol :: u32
  sem_key :: u64
  sem_name :: u64
  sem_max :: int
  sem_val :: int
  sem_sq :: "tid list"

record lv2_mutex = lv2_obj +
  mtx_protocol :: u32
  mtx_recursive :: u32
  mtx_adaptive :: u32
  mtx_key :: u64
  mtx_name :: u64
  cond_count :: u32
  lock_count :: u32
  mtx_owner :: tid
  mtx_sq :: "tid list"

record lv2_cond = lv2_obj +
  cond_key :: u64
  cond_name :: u64
  cond_mtx_id :: u32
  cond_mutex :: nat
  cond_sq :: "tid list"

record lv2_rwlock = lv2_obj +
  rw_protocol :: u32
  rw_key :: u64
  rw_name :: u64
  rw_owner :: int
  rw_rq :: "tid list"
  rw_wq :: "tid list"

record lv2_event_flag = lv2_obj +
  ef_protocol :: u32
  ef_key :: u64
  ef_type :: u32
  ef_name :: u64
  ef_pattern :: u64
  ef_sq :: "tid list"

type_synonym lv2_event = "u64 \<times> u64 \<times> u64 \<times> u64"

record lv2_event_queue = lv2_obj +
  eq_id :: u32
  eq_protocol :: u32
  eq_type :: u32
  eq_size :: nat
  eq_name :: u64
  eq_key :: u64
  eq_events :: "lv2_event list"
  eq_sq :: "tid list"
  eq_pq :: "tid list"

record lv2_event_port = lv2_obj +
  port_type :: u32
  port_name :: u64
  is_busy :: nat
  port_queue :: "nat option"

record lv2_lwmutex = lv2_obj +
  lwm_protocol :: u32
  lwm_control :: u32
  lwm_name :: u64
  lwcond_waiters :: u32
  lwm_signaled :: u32
  lwm_sq :: "tid list"

record lv2_lwcond = lv2_obj +
  lwc_name :: u64
  lwc_lwid :: u32
  lwc_protocol :: u32
  lwc_control :: u32
  lwmutex_waiters :: u32
  lwc_sq :: "tid list"

datatype lv2_object =
    O_sema lv2_sema | O_mutex lv2_mutex | O_cond lv2_cond | O_rwlock lv2_rwlock
  | O_event_flag lv2_event_flag | O_event_queue lv2_event_queue | O_event_port lv2_event_port
  | O_lwmutex lv2_lwmutex | O_lwcond lv2_lwcond

abbreviation sema_base_id :: u32 where "sema_base_id \<equiv> 0x96000000"
abbreviation mutex_base_id :: u32 where "mutex_base_id \<equiv> 0x85000000"
abbreviation cond_base_id :: u32 where "cond_base_id \<equiv> 0x86000000"
abbreviation rwlock_base_id :: u32 where "rwlock_base_id \<equiv> 0x88000000"
abbreviation event_flag_base_id :: u32 where "event_flag_base_id \<equiv> 0x98000000"
abbreviation event_queue_base_id :: u32 where "event_queue_base_id \<equiv> 0x8D000000"
abbreviation event_port_base_id :: u32 where "event_port_base_id \<equiv> 0x0E000000"
abbreviation lwmutex_base_id :: u32 where "lwmutex_base_id \<equiv> 0x95000000"
abbreviation lwcond_base_id :: u32 where "lwcond_base_id \<equiv> 0x97000000"

abbreviation SYS_SYNC_PROCESS_SHARED :: u32 where "SYS_SYNC_PROCESS_SHARED \<equiv> 0x100"
abbreviation SYS_SYNC_NOT_PROCESS_SHARED :: u32 where "SYS_SYNC_NOT_PROCESS_SHARED \<equiv> 0x200"
abbreviation SYS_SYNC_NEWLY_CREATED :: u32 where "SYS_SYNC_NEWLY_CREATED \<equiv> 1"
abbreviation SYS_SYNC_NOT_CREATE :: u32 where "SYS_SYNC_NOT_CREATE \<equiv> 2"
abbreviation SYS_SYNC_NOT_CARE :: u32 where "SYS_SYNC_NOT_CARE \<equiv> 3"

section \<open>Kernel state\<close>

type_synonym object_store = "nat \<Rightarrow> lv2_object option"

record kernel =
  sched :: lv2
  ids :: "nat id_map"
  ipc :: "u32 \<Rightarrow> u64 \<Rightarrow> nat option option"
  store :: object_store
  store_top :: nat

text \<open>The caller, the guest time and the time-stamp counter of a system call.\<close>

record env =
  cur :: tid
  e_now :: nat
  e_tsc :: nat

definition obj_sleep :: "env \<Rightarrow> nat \<Rightarrow> lv2 \<Rightarrow> (bool \<times> lv2) option" where
  "obj_sleep e timeout s = sleep (Some (cur e)) (cur e) timeout (e_now e) (e_tsc e) s"

definition obj_awake :: "env \<Rightarrow> tid \<Rightarrow> lv2 \<Rightarrow> lv2 option" where
  "obj_awake e t s = map_option snd (awake (Some (cur e)) (Some t) Enqueue_cmd (e_now e) (e_tsc e) s)"

definition obj_awake_all :: "env \<Rightarrow> lv2 \<Rightarrow> lv2 option" where
  "obj_awake_all e s = awake_all (Some (cur e)) (e_now e) (e_tsc e) s"

definition append_all :: "tid list \<Rightarrow> lv2 \<Rightarrow> lv2" where
  "append_all ts s = fold append_awake ts s"

definition enter :: "env \<Rightarrow> kernel \<Rightarrow> kernel" where
  "enter e k = k\<lparr>sched := add_flags (cur e) {F_wait} (sched k)\<rparr>"

section \<open>Creation\<close>

definition get_exists :: "lv2_object \<Rightarrow> u32" where
  "get_exists x =
     (case x of O_sema o' \<Rightarrow> obj_exists o' | O_mutex o' \<Rightarrow> obj_exists o' | O_cond o' \<Rightarrow> obj_exists o'
      | O_rwlock o' \<Rightarrow> obj_exists o' | O_event_flag o' \<Rightarrow> obj_exists o'
      | O_event_queue o' \<Rightarrow> obj_exists o' | O_event_port o' \<Rightarrow> obj_exists o'
      | O_lwmutex o' \<Rightarrow> obj_exists o' | O_lwcond o' \<Rightarrow> obj_exists o')"

definition set_exists :: "u32 \<Rightarrow> lv2_object \<Rightarrow> lv2_object" where
  "set_exists n x =
     (case x of O_sema o' \<Rightarrow> O_sema (o'\<lparr>obj_exists := n\<rparr>) | O_mutex o' \<Rightarrow> O_mutex (o'\<lparr>obj_exists := n\<rparr>)
      | O_cond o' \<Rightarrow> O_cond (o'\<lparr>obj_exists := n\<rparr>) | O_rwlock o' \<Rightarrow> O_rwlock (o'\<lparr>obj_exists := n\<rparr>)
      | O_event_flag o' \<Rightarrow> O_event_flag (o'\<lparr>obj_exists := n\<rparr>)
      | O_event_queue o' \<Rightarrow> O_event_queue (o'\<lparr>obj_exists := n\<rparr>)
      | O_event_port o' \<Rightarrow> O_event_port (o'\<lparr>obj_exists := n\<rparr>)
      | O_lwmutex o' \<Rightarrow> O_lwmutex (o'\<lparr>obj_exists := n\<rparr>) | O_lwcond o' \<Rightarrow> O_lwcond (o'\<lparr>obj_exists := n\<rparr>))"

definition obj_check :: "nat option \<Rightarrow> object_store \<Rightarrow> bool" where
  "obj_check p h =
     (case p of None \<Rightarrow> False
      | Some q \<Rightarrow> (case h q of None \<Rightarrow> False | Some x \<Rightarrow> get_exists x \<noteq> 0))"

text \<open>\<^verbatim>\<open>on_id_create\<close>: the handle count; a condition variable also registers with its mutex.\<close>

definition on_id_create :: "nat \<Rightarrow> object_store \<Rightarrow> error_code \<times> object_store" where
  "on_id_create p h =
     (case h p of
        None \<Rightarrow> (CELL_ESRCH, h)
      | Some x \<Rightarrow>
          let h1 = h(p := Some (set_exists (get_exists x + 1) x)) in
          (case x of
             O_cond c \<Rightarrow>
               if obj_check (Some (cond_mutex c)) h1 then
                 (case h1 (cond_mutex c) of
                    Some (O_mutex m) \<Rightarrow>
                      (CELL_OK, h1(cond_mutex c := Some (O_mutex (m\<lparr>cond_count := cond_count m + 1\<rparr>))))
                  | _ \<Rightarrow> (CELL_OK, h1))
               else (CELL_ESRCH, h1)
           | _ \<Rightarrow> (CELL_OK, h1)))"

record create_st =
  cs_store :: object_store
  cs_top :: nat
  cs_ipc :: "u64 \<Rightarrow> nat option option"
  cs_error :: error_code
  cs_crash :: bool

definition finalize_construct :: "nat option \<Rightarrow> create_st \<Rightarrow> nat option \<times> create_st" where
  "finalize_construct r st =
     (case r of
        None \<Rightarrow> (None, st\<lparr>cs_crash := True\<rparr>)
      | Some p \<Rightarrow>
          (case on_id_create p (cs_store st) of
             (err, h) \<Rightarrow> (if err \<noteq> 0 then None else Some p, st\<lparr>cs_store := h, cs_error := err\<rparr>)))"

definition ipc_add ::
    "u64 \<Rightarrow> (create_st \<Rightarrow> nat option \<times> create_st) \<Rightarrow> bool \<Rightarrow> create_st \<Rightarrow> bool \<times> nat option \<times> create_st" where
  "ipc_add key provider peek_ptr st =
     (case cs_ipc st key of
        Some (Some p) \<Rightarrow> (False, if peek_ptr then Some p else None, st)
      | _ \<Rightarrow>
          (case provider st of
             (r, st1) \<Rightarrow> (r \<noteq> None, r, st1\<lparr>cs_ipc := (cs_ipc st1)(key \<mapsto> r)\<rparr>)))"

definition ipc_get :: "u64 \<Rightarrow> (u64 \<Rightarrow> nat option option) \<Rightarrow> nat option" where
  "ipc_get key m = (case m key of Some r \<Rightarrow> r | None \<Rightarrow> None)"

definition ipc_remove :: "u64 \<Rightarrow> (u64 \<Rightarrow> nat option option) \<Rightarrow> bool \<times> (u64 \<Rightarrow> nat option option)" where
  "ipc_remove key m = (m key \<noteq> None, m(key := None))"

definition create_provider ::
    "u32 \<Rightarrow> u64 \<Rightarrow> u32 \<Rightarrow> (u32 \<Rightarrow> lv2_object) \<Rightarrow> u32 \<Rightarrow> create_st \<Rightarrow> nat option \<times> create_st" where
  "create_provider pshared ipc_key flags mk lastid st =
     (let p = cs_top st;
          st1 = st\<lparr>cs_store := (cs_store st)(p \<mapsto> mk lastid), cs_top := Suc p\<rparr>
      in if pshared \<noteq> SYS_SYNC_PROCESS_SHARED then finalize_construct (Some p) st1
         else if flags = SYS_SYNC_NOT_CREATE then
           (case ipc_get ipc_key (cs_ipc st1) of
              None \<Rightarrow> (None, st1\<lparr>cs_error := CELL_ESRCH\<rparr>)
            | Some q \<Rightarrow> finalize_construct (Some q) st1)
         else
           (case ipc_add ipc_key (finalize_construct (Some p)) (flags \<noteq> SYS_SYNC_NEWLY_CREATED) st1 of
              (added, r, st2) \<Rightarrow>
                if added then (r, st2)
                else if flags = SYS_SYNC_NEWLY_CREATED then (r, st2\<lparr>cs_error := CELL_EEXIST\<rparr>)
                else finalize_construct r st2))"

definition valid_create :: "u32 \<Rightarrow> u64 \<Rightarrow> u32 \<Rightarrow> bool \<Rightarrow> bool" where
  "valid_create pshared ipc_key flags key_not_zero =
     (if pshared = SYS_SYNC_PROCESS_SHARED then
        \<not> (key_not_zero \<and> ipc_key = 0)
        \<and> (flags = SYS_SYNC_NEWLY_CREATED \<or> flags = SYS_SYNC_NOT_CARE \<or> flags = SYS_SYNC_NOT_CREATE)
      else pshared = SYS_SYNC_NOT_PROCESS_SHARED)"

definition create ::
    "u32 \<Rightarrow> u32 \<Rightarrow> u64 \<Rightarrow> u32 \<Rightarrow> (u32 \<Rightarrow> lv2_object) \<Rightarrow> bool \<Rightarrow> kernel \<Rightarrow> (error_code \<times> kernel) option" where
  "create base pshared ipc_key flags mk key_not_zero k =
     (if \<not> valid_create pshared ipc_key flags key_not_zero then Some (CELL_EINVAL, k)
      else
        case idm_import (lv2_traits base) (create_provider pshared ipc_key flags mk)
               (invalid_id (lv2_traits base)) (ids k)
               \<lparr>cs_store = store k, cs_top = store_top k, cs_ipc = ipc k base,
                cs_error = CELL_EAGAIN, cs_crash = False\<rparr> of
          None \<Rightarrow> None
        | Some (v, m, st) \<Rightarrow>
            if cs_crash st then None
            else Some (if v = 0 then cs_error st else CELL_OK,
                       k\<lparr>ids := m, store := cs_store st, store_top := cs_top st,
                         ipc := (ipc k)(base := cs_ipc st)\<rparr>))"

definition get_key :: "u32 \<Rightarrow> u64 \<Rightarrow> u64" where
  "get_key pshared ipc_key = (if pshared = SYS_SYNC_PROCESS_SHARED then ipc_key else 0)"

text \<open>\<^verbatim>\<open>idm::make\<close>: an object with one id and no IPC key.\<close>

definition make_obj :: "u32 \<Rightarrow> (u32 \<Rightarrow> lv2_object) \<Rightarrow> kernel \<Rightarrow> (u32 \<times> kernel) option" where
  "make_obj base mk k =
     map_option (\<lambda>(v, m, h, top). (v, k\<lparr>ids := m, store := h, store_top := top\<rparr>))
       (idm_import (lv2_traits base) (\<lambda>lastid (h, top). (Some top, h(top \<mapsto> mk lastid), Suc top))
          (invalid_id (lv2_traits base)) (ids k) (store k, store_top k))"

section \<open>Destruction\<close>

text \<open>\<^verbatim>\<open>on_id_destroy\<close> with the default test for a shared object: a non-zero key.\<close>

definition on_id_destroy :: "u32 \<Rightarrow> nat \<Rightarrow> u64 \<Rightarrow> kernel \<Rightarrow> kernel" where
  "on_id_destroy base p key k =
     (case store k p of
        None \<Rightarrow> k
      | Some x \<Rightarrow>
          let k1 = k\<lparr>store := (store k)(p \<mapsto> set_exists (get_exists x - 1) x)\<rparr> in
          if get_exists x = 1 \<and> key \<noteq> 0
          then k1\<lparr>ipc := (ipc k1)(base := snd (ipc_remove key (ipc k1 base)))\<rparr> else k1)"

text \<open>\<^verbatim>\<open>idm::withdraw\<close> on the kernel state: the error of the function, \<open>None\<close> if there is no object.\<close>

definition withdraw_obj :: "u32 \<Rightarrow> u32 \<Rightarrow> (nat \<Rightarrow> kernel \<Rightarrow> error_code \<times> kernel) \<Rightarrow> kernel
      \<Rightarrow> (nat \<times> error_code) option \<times> kernel" where
  "withdraw_obj base v f k =
     (case idm_withdraw_if (lv2_traits base) v f (ids k) k of
        (r, m, k') \<Rightarrow> (r, k'\<lparr>ids := m\<rparr>))"

section \<open>Lookup\<close>

definition obj_at :: "u32 \<Rightarrow> u32 \<Rightarrow> kernel \<Rightarrow> (nat \<times> lv2_object) option" where
  "obj_at base v k =
     (case idm_get (lv2_traits base) v (ids k) of
        None \<Rightarrow> None
      | Some p \<Rightarrow> map_option (\<lambda>x. (p, x)) (store k p))"

section \<open>Waking\<close>

text \<open>The result of a blocking system call's first phase: it returns, or the thread enters the wait loop.\<close>

datatype sys_result = Done error_code | Blocked

text \<open>\<^verbatim>\<open>for (...) append(ensure(schedule(sq, protocol)))\<close>: \<open>n\<close> waiters move to the wake list.\<close>

fun wake_n :: "nat \<Rightarrow> u32 \<Rightarrow> tid list \<Rightarrow> lv2 \<Rightarrow> (tid list \<times> lv2) option" where
  "wake_n 0 protocol q s = Some (q, s)"
| "wake_n (Suc n) protocol q s =
     (case schedule (ppus s) protocol q of
        (None, _) \<Rightarrow> None
      | (Some f, q') \<Rightarrow> wake_n n protocol q' (append_awake f s))"

definition some_again :: "lv2 \<Rightarrow> tid list \<Rightarrow> bool" where
  "some_again s q \<longleftrightarrow> (\<exists>t\<in>set q. F_again \<in> flags_of s t)"

section \<open>Waiting\<close>

text \<open>
  One iteration of the loop \<^verbatim>\<open>while (auto state = +ppu.state)\<close> of a blocking system call. The oracles
  are the results of \<^verbatim>\<open>lv2_obj::wait_timeout\<close> (only consulted with a timeout) and of
  \<^verbatim>\<open>ppu.check_state\<close>. \<open>queued\<close> looks the thread up in the object's queues, \<open>expire\<close> is what the object
  does when the wait has timed out. \<open>W_break\<close> leads to \<^verbatim>\<open>return not_an_error(ppu.gpr[3])\<close>.
\<close>

datatype wait_step = W_continue | W_break | W_return

definition wait_iter ::
    "(tid \<Rightarrow> 'o \<Rightarrow> bool) \<Rightarrow> (tid \<Rightarrow> lv2 \<Rightarrow> 'o \<Rightarrow> (lv2 \<times> 'o) option) \<Rightarrow> tid \<Rightarrow> bool \<Rightarrow> bool
      \<Rightarrow> lv2 \<Rightarrow> 'o \<Rightarrow> (wait_step \<times> lv2 \<times> 'o) option" where
  "wait_iter queued expire t timed_out check_state s x =
     (if flags_of s t = {} then Some (W_break, s, x)
      else if F_signal \<in> flags_of s t then Some (W_break, del_flags t {F_signal} s, x)
      else if is_stopped (flags_of s t) then
        (if queued t x then Some (W_return, add_flags t {F_again} s, x) else Some (W_break, s, x))
      else if timed_out then
        (if check_state then Some (W_continue, s, x)
         else map_option (\<lambda>(s', x'). (W_break, s', x')) (expire t (add_flags t {F_wait} s) x))
      else Some (W_continue, s, x))"

section \<open>Properties of waking and sleeping\<close>

text \<open>The state between system calls: the scheduler invariant and an empty wake list.\<close>

definition kernel_ready :: "lv2 \<Rightarrow> bool" where
  "kernel_ready s \<longleftrightarrow> sched_inv s \<and> g_to_awake s = []"

definition waiters_ok :: "tid list \<Rightarrow> bool" where
  "waiters_ok q \<longleftrightarrow> distinct q \<and> (\<forall>t\<in>set q. is_ppu t)"

text \<open>The effect of a scheduler call on the threads: registers, priorities and all but the scheduling
  flags are unchanged, and only threads in the run queue are signalled.\<close>

definition sched_frame :: "lv2 \<Rightarrow> lv2 \<Rightarrow> bool" where
  "sched_frame s s' \<longleftrightarrow> thr_frame sched_flags s s'
     \<and> (\<forall>t. F_signal \<in> flags_of s' t \<longrightarrow> F_signal \<in> flags_of s t \<or> t \<in> set (g_ppu s'))"

lemma sched_frame_gpr: "sched_frame s s' \<Longrightarrow> gpr (ppus s' t) = gpr (ppus s t)"
  and sched_frame_prio: "sched_frame s s' \<Longrightarrow> prio (ppus s' t) = prio (ppus s t)"
  by (auto simp: sched_frame_def thr_frame_def)

lemma sched_frame_again: "sched_frame s s' \<Longrightarrow> F_again \<in> flags_of s' t \<longleftrightarrow> F_again \<in> flags_of s t"
  using thr_frame_flag [of sched_flags s s' F_again t]
  by (auto simp: sched_frame_def sched_flags_def quiet_flags_def)

lemma sched_frame_wait: "sched_frame s s' \<Longrightarrow> F_wait \<in> flags_of s' t \<longleftrightarrow> F_wait \<in> flags_of s t"
  using thr_frame_flag [of sched_flags s s' F_wait t]
  by (auto simp: sched_frame_def sched_flags_def quiet_flags_def)

lemma sched_frame_stop: "sched_frame s s' \<Longrightarrow> F_stop \<in> flags_of s' t \<longleftrightarrow> F_stop \<in> flags_of s t"
  using thr_frame_flag [of sched_flags s s' F_stop t]
  by (auto simp: sched_frame_def sched_flags_def quiet_flags_def)

lemma sched_frame_signal:
  "sched_frame s s' \<Longrightarrow> F_signal \<notin> flags_of s t \<Longrightarrow> t \<notin> set (g_ppu s') \<Longrightarrow> F_signal \<notin> flags_of s' t"
  by (auto simp: sched_frame_def)

lemma boot_ready: "kernel_ready (lv2_boot n)"
  using exec_inv_init [OF boot_init, of n] by (simp add: kernel_ready_def exec_inv_def lv2_boot_def)

lemma append_all_alt: "append_all ts s = s\<lparr>g_to_awake := g_to_awake s @ ts\<rparr>"
  unfolding append_all_def by (induction ts arbitrary: s) (auto simp: append_awake_def)

lemma append_awake_frame [simp]: "ppus (append_awake t s) = ppus s" "sched_inv (append_awake t s) = sched_inv s"
  "g_ppu (append_awake t s) = g_ppu s"
  by (simp_all add: append_awake_def)

text \<open>\<open>wake_n\<close> moves the selected waiters to the wake list; it fails only on a too short queue.\<close>

lemma wake_n_spec:
  assumes "\<not> some_again s q" and "n \<le> length q" and "distinct q"
  shows "\<exists>ws q'. wake_n n protocol q s = Some (q', append_all ws s) \<and> length ws = n \<and> distinct (ws @ q')
    \<and> set (ws @ q') = set q"
  using assms
proof (induction n arbitrary: q s)
  case 0
  then show ?case by (auto simp: append_all_def intro!: exI [of _ "[]"])
next
  case (Suc n)
  define f where "f = sched_pick (ppus s) protocol q"
  have f: "f \<in> set q" unfolding f_def using Suc.prems(2) by (intro sched_pick_in) auto
  then have sch: "schedule (ppus s) protocol q = (Some f, remove1 f q)"
    using Suc.prems(1) by (auto simp: schedule_def Let_def some_again_def f_def [symmetric])
  have 1: "\<not> some_again (append_awake f s) (remove1 f q)"
    using Suc.prems(1) set_remove1_subset [of f q] by (auto simp: some_again_def)
  have 2: "n \<le> length (remove1 f q)" using length_remove1_in [OF f] Suc.prems(2) by simp
  obtain ws q' where w: "wake_n n protocol (remove1 f q) (append_awake f s)
      = Some (q', append_all ws (append_awake f s))" "length ws = n" "distinct (ws @ q')"
    "set (ws @ q') = set (remove1 f q)"
    using Suc.IH [OF 1 2 distinct_remove1 [OF Suc.prems(3)]] by blast
  have r: "set (ws @ q') = set q - {f}" using w(4) Suc.prems(3) by simp
  then have "distinct ((f # ws) @ q')" using w(3) by (simp only: append_Cons distinct.simps) blast
  moreover have "set ((f # ws) @ q') = set q" using r f by (simp only: append_Cons list.set) blast
  moreover have "wake_n (Suc n) protocol q s = Some (q', append_all (f # ws) s)"
    by (simp add: sch w(1) append_all_def)
  ultimately show ?case using w(2) by (intro exI [of _ "f # ws"] exI [of _ q'] conjI) simp_all
qed

lemma obj_awake_all_spec:
  assumes "sched_inv s" and "g_to_awake s = ws" and "\<forall>t\<in>set ws. is_ppu t"
  shows "\<exists>s'. obj_awake_all e s = Some s' \<and> kernel_ready s' \<and> set (g_ppu s') = set ws \<union> set (g_ppu s) \<and> sched_frame s s'"
  using awake_all_enqueue [of s "Some (cur e)" "e_now e" "e_tsc e"] assms
  by (auto simp: obj_awake_all_def kernel_ready_def sched_frame_def)

lemma obj_awake_spec:
  assumes "kernel_ready s" and "is_ppu t"
  shows "\<exists>s'. obj_awake e t s = Some s' \<and> kernel_ready s' \<and> set (g_ppu s') = insert t (set (g_ppu s)) \<and> sched_frame s s'"
  using awake_enqueue [of s "Some t" "Some (cur e)" "e_now e" "e_tsc e"] assms
  by (auto simp: obj_awake_def kernel_ready_def sched_frame_def)

lemma obj_sleep_pending:
  assumes "sched_inv s" and "\<forall>t\<in>set (g_to_awake s). is_ppu t" and "is_ppu (cur e)" and "timeout \<noteq> 0 \<Longrightarrow> F_notify \<notin> flags_of s (cur e)"
  shows "\<exists>r s'. obj_sleep e timeout s = Some (r, s') \<and> kernel_ready s'
    \<and> set (g_ppu s') = set (g_to_awake s) \<union> (set (g_ppu s) - (if F_signal \<in> flags_of s (cur e) then {} else {cur e})) \<and> sched_frame s s'"
  using sleep_dequeue [of s "cur e" timeout "Some (cur e)" "e_now e" "e_tsc e"] assms
  by (auto simp: obj_sleep_def kernel_ready_def sched_frame_def)

lemma obj_sleep_spec:
  assumes "kernel_ready s" and "is_ppu (cur e)" and "timeout \<noteq> 0 \<Longrightarrow> F_notify \<notin> flags_of s (cur e)"
  shows "\<exists>r s'. obj_sleep e timeout s = Some (r, s') \<and> kernel_ready s'
    \<and> set (g_ppu s') = set (g_ppu s) - (if F_signal \<in> flags_of s (cur e) then {} else {cur e}) \<and> sched_frame s s'"
  using obj_sleep_pending [of s e timeout] assms by (simp add: kernel_ready_def)

lemma kernel_ready_upd:
  assumes "\<And>p. prio (f p) = prio p" "\<And>p. ack_suspend (f p) = ack_suspend p"
    and "\<And>p. F_suspend \<in> state p \<Longrightarrow> F_suspend \<in> state (f p)"
    and "\<And>p. F_notify \<in> state (f p) \<Longrightarrow> F_notify \<in> state p"
    and "kernel_ready s"
  shows "kernel_ready (upd_ppu t f s)"
  using sched_upd_neutral [OF assms(1-4), of s t] assms(5) by (simp add: kernel_ready_def)

lemma set_gpr_frame [simp]:
  "g_ppu (set_gpr t r v s) = g_ppu s" "flags_of (set_gpr t r v s) u = flags_of s u"
  "prio (ppus (set_gpr t r v s) u) = prio (ppus s u)" "g_to_awake (set_gpr t r v s) = g_to_awake s"
  "gpr (ppus (set_gpr t r v s) u) = (if u = t then (gpr (ppus s t))(r := v) else gpr (ppus s u))"
  by (simp_all add: set_gpr_def)

lemma kernel_ready_gpr [simp]: "kernel_ready (set_gpr t r v s) = kernel_ready s"
proof -
  have "sched_inv (set_gpr t r v s) = sched_inv s"
  proof
    have undo: "set_gpr t r (gpr_of s t r) (set_gpr t r v s) = s"
      by (simp add: set_gpr_def upd_ppu_def)
    have fwd: "sched_inv x \<Longrightarrow> sched_inv (set_gpr t r w x)" for x w
      unfolding set_gpr_def by (rule sched_upd_neutral) auto
    show "sched_inv (set_gpr t r v s) \<Longrightarrow> sched_inv s" using fwd [of "set_gpr t r v s" "gpr_of s t r"] undo by simp
    show "sched_inv s \<Longrightarrow> sched_inv (set_gpr t r v s)" by (rule fwd)
  qed
  then show ?thesis by (simp add: kernel_ready_def set_gpr_def)
qed

lemma kernel_ready_flags:
  assumes "F_notify \<notin> F" and "kernel_ready s"
  shows "kernel_ready (add_flags t F s)"
  unfolding add_flags_def by (rule kernel_ready_upd) (use assms in auto)

lemma kernel_ready_del:
  assumes "F_suspend \<notin> F" and "kernel_ready s"
  shows "kernel_ready (del_flags t F s)"
  unfolding del_flags_def by (rule kernel_ready_upd) (use assms in auto)

text \<open>\<open>emplace\<close> changes the enqueue order of the thread only.\<close>

lemma sched_upd_order:
  assumes "\<And>p. pr_prio (prio (f p)) = pr_prio (prio p)" "\<And>p. ack_suspend (f p) = ack_suspend p"
    and "\<And>p. state (f p) = state p" and "sched_inv s"
  shows "sched_inv (upd_ppu t f s)"
proof -
  have p: "prio_of (upd_ppu t f s) u = prio_of s u" "flags_of (upd_ppu t f s) u = flags_of s u"
    "ack_suspend (ppus (upd_ppu t f s) u) = ack_suspend (ppus s u)" for u using assms(1-3) by auto
  show ?thesis using assms(4) by (simp add: inv_defs p del: ppus_upd_ppu)
qed

lemma emplace_frame:
  "fst (emplace t q s) = t # q" "kernel_ready s \<Longrightarrow> kernel_ready (snd (emplace t q s))"
  "g_ppu (snd (emplace t q s)) = g_ppu s" "flags_of (snd (emplace t q s)) u = flags_of s u"
  "gpr (ppus (snd (emplace t q s)) u) = gpr (ppus s u)"
  "u \<noteq> t \<Longrightarrow> prio (ppus (snd (emplace t q s)) u) = prio (ppus s u)"
proof -
  have tag: "sched_inv (s\<lparr>g_priority_order_tag := n\<rparr>) = sched_inv s" for n by (simp add: inv_defs)
  show "kernel_ready (snd (emplace t q s))" if "kernel_ready s"
    using that by (auto simp: emplace_def stamp_order_def kernel_ready_def put_order_def tag intro!: sched_upd_order)
qed (auto simp: emplace_def stamp_order_def)

lemma ready_stamp [simp]: "kernel_ready s \<Longrightarrow> kernel_ready (stamp_order t s)"
proof -
  assume "kernel_ready s"
  moreover have "sched_inv (s\<lparr>g_priority_order_tag := n\<rparr>) = sched_inv s" for n by (simp add: inv_defs)
  ultimately show ?thesis by (auto simp: stamp_order_def kernel_ready_def put_order_def intro!: sched_upd_order)
qed

section \<open>Objects in the store\<close>

lemma obj_at_sched [simp]: "obj_at b v (k\<lparr>sched := s\<rparr>) = obj_at b v k"
  by (simp add: obj_at_def split: option.split)

lemma obj_at_put: "obj_at b v k = Some (p, x) \<Longrightarrow> obj_at b v (k\<lparr>store := (store k)(p \<mapsto> y)\<rparr>) = Some (p, y)"
  by (auto simp: obj_at_def split: option.splits)

lemma enter_sel [simp]: "obj_at b v (enter e k) = obj_at b v k" "store (enter e k) = store k" "ids (enter e k) = ids k"
  "ipc (enter e k) = ipc k" "store_top (enter e k) = store_top k" "sched (enter e k) = add_flags (cur e) {F_wait} (sched k)"
  by (simp_all add: enter_def)

lemma add_wait_frame [simp]: "g_ppu (add_flags t F s) = g_ppu s" "gpr (ppus (add_flags t F s) u) = gpr (ppus s u)"
  "prio (ppus (add_flags t F s) u) = prio (ppus s u)" "g_to_awake (add_flags t F s) = g_to_awake s"
  "cancel_sleep (ppus (add_flags t F s) u) = cancel_sleep (ppus s u)"
  "flags_of (add_flags t F s) u = (if u = t then flags_of s t \<union> F else flags_of s u)"
  by (auto simp: add_flags_def)

lemma enter_ready: "kernel_ready (sched k) \<Longrightarrow> kernel_ready (sched (enter e k))"
  by (simp add: kernel_ready_flags)

section \<open>Creating and sharing objects\<close>

definition boot_kernel :: "nat \<Rightarrow> kernel" where
  "boot_kernel n = \<lparr>sched = lv2_boot n, ids = no_objects, ipc = (\<lambda>_ _. None), store = (\<lambda>_. None), store_top = 0\<rparr>"

definition kernel_inv :: "kernel \<Rightarrow> bool" where
  "kernel_inv k \<longleftrightarrow> table_inv (ids k) \<and> (\<forall>p\<ge>store_top k. store k p = None)"

text \<open>Objects whose creation only counts the handle.\<close>

fun plain :: "lv2_object \<Rightarrow> bool" where
  "plain (O_cond _) = False"
| "plain _ = True"

lemma exists_sel [simp]: "get_exists (set_exists n x) = n" "plain (set_exists n x) = plain x"
  by (cases x; simp add: get_exists_def set_exists_def)+

lemma on_id_create_plain:
  assumes "h p = Some x" "plain x"
  shows "on_id_create p h = (CELL_OK, h(p := Some (set_exists (get_exists x + 1) x)))"
  using assms by (cases x) (simp_all add: on_id_create_def Let_def)

lemma slot_id_nonzero:
  assumes "good_base b" "i < 8192" "slot_id b i v"
  shows "v \<noteq> 0"
proof
  assume "v = 0"
  then have "slot_base b i = 0" using assms(3) by (simp add: slot_id_def)
  then show False using unat_slot_base [OF assms(1,2)] assms(1) by (simp add: good_base_def word_less_nat_alt)
qed

text \<open>\<^verbatim>\<open>create\<close> on a table with a free slot: the id is allocated first and given up when the provider fails.\<close>

lemma create_cases:
  assumes t: "kernel_inv k" and b: "good_base b" and f: "\<exists>i<8192. vec_data (ids k) ! i = None"
    and v: "valid_create pshared key flags kz"
  obtains i v h st r where "fresh_slot b i v (ids k)" "i < h" "highest_index (ids k) \<le> h" "h \<le> 8192" "v \<noteq> 0"
    "create_provider pshared key flags mk v \<lparr>cs_store = store k, cs_top = store_top k, cs_ipc = ipc k b,
       cs_error = CELL_EAGAIN, cs_crash = False\<rparr> = (r, st)"
    "create b pshared key flags mk kz k = (if cs_crash st then None else
       Some (if r = None then cs_error st else CELL_OK,
         k\<lparr>ids := (case r of Some p \<Rightarrow> fill b i v h p (ids k) | None \<Rightarrow> spoil i h v (ids k)),
           store := cs_store st, store_top := cs_top st, ipc := (ipc k)(b := cs_ipc st)\<rparr>))"
proof -
  define st0 where "st0 = \<lparr>cs_store = store k, cs_top = store_top k, cs_ipc = ipc k b, cs_error = CELL_EAGAIN, cs_crash = False\<rparr>"
  have ti: "table_inv (ids k)" using t by (simp add: kernel_inv_def)
  obtain i v h where i: "fresh_slot b i v (ids k)" "i < h" "highest_index (ids k) \<le> h" "h \<le> 8192"
    "create_id (lv2_traits b) (create_provider pshared key flags mk) 0 (ids k) st0 =
         (case create_provider pshared key flags mk v st0 of (Some p, s') \<Rightarrow> Some (Some p, fill b i v h p (ids k), s')
                             | (None, s') \<Rightarrow> Some (None, spoil i h v (ids k), s'))"
    using create_new [OF ti b, of "create_provider pshared key flags mk" st0] f by blast
  obtain r st where r: "create_provider pshared key flags mk v st0 = (r, st)" by force
  have v0: "v \<noteq> 0" using slot_id_nonzero [OF b] i(1) by (auto simp: fresh_slot_def)
  have "create b pshared key flags mk kz k = (if cs_crash st then None else
       Some (if r = None then cs_error st else CELL_OK,
         k\<lparr>ids := (case r of Some p \<Rightarrow> fill b i v h p (ids k) | None \<Rightarrow> spoil i h v (ids k)),
           store := cs_store st, store_top := cs_top st, ipc := (ipc k)(b := cs_ipc st)\<rparr>))"
    using i(5) r v v0 by (cases r) (simp_all add: create_def idm_import_def invalid_lv2 [OF b] st0_def fill_def)
  with i v0 r show ?thesis using that by (simp add: st0_def)
qed

lemmas provider_defs = create_provider_def finalize_construct_def ipc_add_def ipc_get_def Let_def

lemma create_private:
  assumes t: "kernel_inv k" and b: "good_base b" and f: "\<exists>i<8192. vec_data (ids k) ! i = None"
    and mk: "\<And>v. plain (mk v)" "\<And>v. get_exists (mk v) = 0"
  obtains v k' where "create b SYS_SYNC_NOT_PROCESS_SHARED key flags mk kz k = Some (CELL_OK, k')" "v = last_id (ids k')"
    "kernel_inv k'" "sched k' = sched k" "ipc k' = ipc k" "idm_get (lv2_traits b) v (ids k) = None"
    "store k' = (store k)(store_top k \<mapsto> set_exists 1 (mk v))"
    "\<And>c w. good_base c \<Longrightarrow> idm_get (lv2_traits c) w (ids k')
       = (if c = b \<and> w = v then Some (store_top k) else idm_get (lv2_traits c) w (ids k))"
proof -
  have ti: "table_inv (ids k)" using t by (simp add: kernel_inv_def)
  have v: "valid_create SYS_SYNC_NOT_PROCESS_SHARED key flags kz" by (simp add: valid_create_def)
  from t b f v show ?thesis
  proof (rule create_cases [where mk = mk])
    fix i v h st r
    assume i: "fresh_slot b i v (ids k)" "i < h" "highest_index (ids k) \<le> h" "h \<le> 8192" "v \<noteq> 0"
      and p: "create_provider SYS_SYNC_NOT_PROCESS_SHARED key flags mk v \<lparr>cs_store = store k, cs_top = store_top k,
        cs_ipc = ipc k b, cs_error = CELL_EAGAIN, cs_crash = False\<rparr> = (r, st)"
      and c: "create b SYS_SYNC_NOT_PROCESS_SHARED key flags mk kz k = (if cs_crash st then None else
       Some (if r = None then cs_error st else CELL_OK,
         k\<lparr>ids := (case r of Some p \<Rightarrow> fill b i v h p (ids k) | None \<Rightarrow> spoil i h v (ids k)),
           store := cs_store st, store_top := cs_top st, ipc := (ipc k)(b := cs_ipc st)\<rparr>))"
    define k' where "k' = k\<lparr>ids := fill b i v h (store_top k) (ids k), store := (store k)(store_top k \<mapsto> set_exists 1 (mk v)),
      store_top := Suc (store_top k)\<rparr>"
    have "r = Some (store_top k)" "cs_store st = (store k)(store_top k \<mapsto> set_exists 1 (mk v))"
      "cs_top st = Suc (store_top k)" "cs_ipc st = ipc k b" "\<not> cs_crash st"
      using p on_id_create_plain [of "(store k)(store_top k \<mapsto> mk v)" "store_top k" "mk v"] mk
      by (auto simp: provider_defs)
    with c have "create b SYS_SYNC_NOT_PROCESS_SHARED key flags mk kz k = Some (CELL_OK, k')" by (simp add: k'_def)
    then show ?thesis
    proof (rule that)
      show "v = last_id (ids k')" by (simp add: k'_def fill_def)
    qed (use t fill_inv [OF ti b i(1-4)] fill_get [OF ti b i(1-4)] get_None_fresh [OF ti b i(1)] in
        \<open>auto simp: kernel_inv_def k'_def\<close>)
  qed
qed


text \<open>A private and a shared semaphore in a fresh kernel; \<open>shared_kernel\<close> has one object under key 5.\<close>

definition plain_sema :: lv2_object where
  "plain_sema = O_sema \<lparr>obj_exists = 0, sem_protocol = SYS_SYNC_FIFO, sem_key = 5, sem_name = 0, sem_max = 4,
     sem_val = 1, sem_sq = []\<rparr>"

definition shared_kernel :: "nat \<Rightarrow> kernel" where
  "shared_kernel n = (boot_kernel n)\<lparr>ipc := (\<lambda>b key. if b = sema_base_id \<and> key = 5 then Some (Some 0) else None),
     store := [0 \<mapsto> set_exists 1 plain_sema], store_top := 1\<rparr>"

lemma boot_kernel_inv: "kernel_inv (boot_kernel n)" "kernel_inv (shared_kernel n)"
  "\<exists>i<8192. vec_data (ids (boot_kernel n)) ! i = None" "\<exists>i<8192. vec_data (ids (shared_kernel n)) ! i = None"
  using no_objects_facts by (auto simp: kernel_inv_def boot_kernel_def shared_kernel_def intro!: exI [of _ 0])


lemma on_id_destroy_sel:
  "store k p = Some x \<Longrightarrow> store (on_id_destroy b p key k) = (store k)(p \<mapsto> set_exists (get_exists x - 1) x)"
  "ids (on_id_destroy b p key k) = ids k" "sched (on_id_destroy b p key k) = sched k" "store_top (on_id_destroy b p key k) = store_top k"
  by (simp_all add: on_id_destroy_def Let_def split: option.split)

lemma on_id_destroy_ipc:
  "store k p = Some x \<Longrightarrow> ipc_get key' (ipc (on_id_destroy b p key k) b)
     = (if get_exists x = 1 \<and> key \<noteq> 0 \<and> key' = key then None else ipc_get key' (ipc k b))"
  by (simp add: on_id_destroy_def Let_def ipc_remove_def ipc_get_def)

text \<open>
  A condition variable whose mutex has been destroyed: its \<^verbatim>\<open>on_id_create\<close> fails inside
  \<^verbatim>\<open>ipc_manager::add\<close>. \<^verbatim>\<open>SYS_SYNC_NOT_CARE\<close> then dereferences the empty result, and
  \<^verbatim>\<open>SYS_SYNC_NEWLY_CREATED\<close> reports \<^verbatim>\<open>CELL_EEXIST\<close> for a key that is not in use.
\<close>

lemma orphan_cond_creation:
  assumes t: "kernel_inv k" and f: "\<exists>i<8192. vec_data (ids k) ! i = None" and key: "key \<noteq> 0"
    and n: "ipc_get key (ipc k cond_base_id) = None"
    and mk: "\<And>v. mk v = O_cond c" and dead: "\<not> obj_check (Some (cond_mutex c)) (store k)" "cond_mutex c < store_top k"
  shows "create cond_base_id SYS_SYNC_PROCESS_SHARED key SYS_SYNC_NOT_CARE mk True k = None"
    and "\<exists>k'. create cond_base_id SYS_SYNC_PROCESS_SHARED key SYS_SYNC_NEWLY_CREATED mk True k = Some (CELL_EEXIST, k')"
proof -
  have b: "good_base cond_base_id" by (simp add: good_base_def)
  have o': "fst (on_id_create (store_top k) ((store k)(store_top k \<mapsto> mk v))) = CELL_ESRCH" for v
    using dead by (auto simp: on_id_create_def Let_def mk obj_check_def set_exists_def split: option.splits)
  define H where "H v = snd (on_id_create (store_top k) ((store k)(store_top k \<mapsto> mk v)))" for v
  have h': "on_id_create (store_top k) ((store k)(store_top k \<mapsto> mk v)) = (CELL_ESRCH, H v)" for v
    by (intro prod_eqI) (simp_all add: o' H_def)
  have v: "valid_create SYS_SYNC_PROCESS_SHARED key SYS_SYNC_NOT_CARE True" "valid_create SYS_SYNC_PROCESS_SHARED key SYS_SYNC_NEWLY_CREATED True"
    using key by (simp_all add: valid_create_def)
  show "create cond_base_id SYS_SYNC_PROCESS_SHARED key SYS_SYNC_NOT_CARE mk True k = None"
    using t b f v(1) by (rule create_cases [where mk = mk]) (use n h' in \<open>auto simp: provider_defs split: option.splits\<close>)
  show "\<exists>k'. create cond_base_id SYS_SYNC_PROCESS_SHARED key SYS_SYNC_NEWLY_CREATED mk True k = Some (CELL_EEXIST, k')"
    using t b f v(2) by (rule create_cases [where mk = mk]) (use n h' in \<open>auto simp: provider_defs split: option.splits\<close>)
qed

section \<open>Destroying objects\<close>

lemma find_index_get:
  assumes "table_inv m" "good_base b"
  shows "get_index (lv2_traits b) v < 8192 \<and> find_index False (lv2_traits b) (get_index (lv2_traits b) v) v m = Some (i, p)
    \<longleftrightarrow> i < 8192 \<and> vec_data m ! i = Some p \<and> vec_keys m ! i = \<lparr>m_value = v, m_base = b\<rparr>"
proof -
  have "get_index (lv2_traits b) v < 8192" if "find_index False (lv2_traits b) (get_index (lv2_traits b) v) v m = Some (i, p)"
    using that assms(1) by (auto simp: find_index_def table_inv_def word_less_nat_alt split: if_splits)
  then show ?thesis using find_id_iff [OF assms, of v i p] by (auto simp: find_id_def)
qed

lemma withdraw_unknown:
  assumes t: "table_inv (ids k)" and b: "good_base b" and n: "idm_get (lv2_traits b) v (ids k) = None"
  shows "withdraw_obj b v f k = (None, k)"
proof -
  have "find_index False (lv2_traits b) (get_index (lv2_traits b) v) v (ids k) = None \<or> \<not> get_index (lv2_traits b) v < 8192"
    using n by (auto simp: idm_get_def Let_def split: if_splits)
  then show ?thesis by (auto simp: withdraw_obj_def idm_withdraw_if_def Let_def)
qed

lemma withdraw_known:
  assumes t: "table_inv (ids k)" and b: "good_base b" and s: "idm_get (lv2_traits b) v (ids k) = Some p"
    and f: "f p k = (err, k1)" "ids k1 = ids k"
  obtains m where "withdraw_obj b v f k = (Some (p, err), if err \<noteq> 0 then k1 else k1\<lparr>ids := m\<rparr>)" "table_inv m"
    "\<And>c w. good_base c \<Longrightarrow> idm_get (lv2_traits c) w m = (if c = b \<and> w = v then None else idm_get (lv2_traits c) w (ids k))"
proof -
  obtain i where i: "i < 8192" "vec_data (ids k) ! i = Some p" "vec_keys (ids k) ! i = \<lparr>m_value = v, m_base = b\<rparr>"
    using s idm_get_iff [OF t b] by blast
  then have g: "get_index (lv2_traits b) v < 8192" "find_index False (lv2_traits b) (get_index (lv2_traits b) v) v (ids k) = Some (i, p)"
    using find_index_get [OF t b, of v i p] by auto
  have "withdraw_obj b v f k = (Some (p, err), if err \<noteq> 0 then k1 else k1\<lparr>ids := clear_slot i (ids k)\<rparr>)"
    using g f by (auto simp: withdraw_obj_def idm_withdraw_if_def Let_def not_le)
  then show ?thesis using that clear_slot_inv [OF t i(1)] clear_slot_get [OF t i(1,3) b] by blast
qed

lemma good_bases [simp]: "good_base sema_base_id" "good_base mutex_base_id" "good_base cond_base_id" "good_base rwlock_base_id"
  "good_base event_flag_base_id" "good_base event_queue_base_id" "good_base event_port_base_id" "good_base lwmutex_base_id"
  "good_base lwcond_base_id"
  by (simp_all add: good_base_def)

lemma create_private_at:
  assumes t: "kernel_inv k" and b: "good_base b" and f: "\<exists>i<8192. vec_data (ids k) ! i = None"
    and mk: "\<And>v. plain (mk v)" "\<And>v. get_exists (mk v) = 0"
  obtains k' where "create b SYS_SYNC_NOT_PROCESS_SHARED key flags mk kz k = Some (CELL_OK, k')" "kernel_inv k'"
    "sched k' = sched k" "obj_at b (last_id (ids k')) k = None"
    "obj_at b (last_id (ids k')) k' = Some (store_top k, set_exists 1 (mk (last_id (ids k'))))"
  using t b f mk
proof (rule create_private [where key = key and flags = flags and kz = kz])
  fix v k'
  assume "create b SYS_SYNC_NOT_PROCESS_SHARED key flags mk kz k = Some (CELL_OK, k')" "v = last_id (ids k')"
    "kernel_inv k'" "sched k' = sched k" "idm_get (lv2_traits b) v (ids k) = None"
    "store k' = (store k)(store_top k \<mapsto> set_exists 1 (mk v))"
    "\<And>c w. good_base c \<Longrightarrow> idm_get (lv2_traits c) w (ids k')
       = (if c = b \<and> w = v then Some (store_top k) else idm_get (lv2_traits c) w (ids k))"
  with b show ?thesis by (intro that [of k']) (simp_all add: obj_at_def)
qed

lemma withdraw_busy:
  assumes "kernel_inv k" "good_base b" "obj_at b v k = Some (p, x)" "f p k = (err, k)" "err \<noteq> 0"
  shows "withdraw_obj b v f k = (Some (p, err), k)"
proof -
  have "idm_get (lv2_traits b) v (ids k) = Some p" "table_inv (ids k)"
    using assms(1,3) by (auto simp: obj_at_def kernel_inv_def split: option.splits)
  from this(2) assms(2) this(1) assms(4) refl show ?thesis by (rule withdraw_known) (use assms(5) in simp)
qed

lemma withdraw_destroy:
  assumes k: "kernel_inv k" and b: "good_base b" and at: "obj_at b v k = Some (p, x)"
    and f: "f p k = (CELL_OK, on_id_destroy b p key k)"
  obtains k' where "withdraw_obj b v f k = (Some (p, CELL_OK), k')" "kernel_inv k'" "sched k' = sched k"
    "idm_get (lv2_traits b) v (ids k') = None" "ipc k' = ipc (on_id_destroy b p key k)"
    "\<And>w q y. w \<noteq> v \<Longrightarrow> obj_at b w k = Some (q, y) \<Longrightarrow>
       obj_at b w k' = Some (q, if q = p then set_exists (get_exists x - 1) x else y)"
proof -
  have g: "idm_get (lv2_traits b) v (ids k) = Some p" "table_inv (ids k)" "store k p = Some x"
    using k at by (auto simp: obj_at_def kernel_inv_def split: option.splits)
  have "p < store_top k" using k g(3) by (metis kernel_inv_def not_le option.distinct(1))
  from g(2) b g(1) f on_id_destroy_sel(2) show ?thesis
  proof (rule withdraw_known)
    fix m assume m: "withdraw_obj b v f k = (Some (p, CELL_OK), if CELL_OK \<noteq> 0 then on_id_destroy b p key k else (on_id_destroy b p key k)\<lparr>ids := m\<rparr>)"
      "table_inv m" and mg: "\<And>c w. good_base c \<Longrightarrow> idm_get (lv2_traits c) w m = (if c = b \<and> w = v then None else idm_get (lv2_traits c) w (ids k))"
    then show ?thesis
      using k b g(3) \<open>p < store_top k\<close> mg [OF b] on_id_destroy_sel(1) [OF g(3)]
      by (intro that [of "(on_id_destroy b p key k)\<lparr>ids := m\<rparr>"])
        (auto simp: kernel_inv_def on_id_destroy_sel obj_at_def split: option.splits if_splits)
  qed
qed

lemma obj_at_none: "idm_get (lv2_traits b) v (ids k) = None \<Longrightarrow> obj_at b v k = None"
  by (simp add: obj_at_def)

lemma withdraw_none:
  "kernel_inv k \<Longrightarrow> good_base b \<Longrightarrow> idm_get (lv2_traits b) v (ids k) = None \<Longrightarrow> withdraw_obj b v f (enter e k) = (None, enter e k)"
  by (rule withdraw_unknown) (simp_all add: kernel_inv_def)

lemma kernel_inv_enter [simp]: "kernel_inv (enter e k) = kernel_inv k"
  by (simp add: kernel_inv_def)

section \<open>Running threads\<close>

lemma obj_awake_run:
  assumes "obj_awake e u s = Some s'" "kernel_ready s" "is_ppu u" "cur e \<noteq> t"
  shows "unsignalled s t \<Longrightarrow> unsignalled s' t"
    and "cancel_sleep (ppus s' t) = (if u = t \<and> t \<in> set (g_ppu s) \<and> cancel_sleep (ppus s t) = 1 then 2 else cancel_sleep (ppus s t))"
    and "t \<in> set (g_ppu s) \<Longrightarrow> F_notify \<in> flags_of s' t \<Longrightarrow> F_notify \<in> flags_of s t"
  using assms awake_run [of "cur e" u "e_now e" "e_tsc e" s _ s' t] awake_notify [of "cur e" u "e_now e" "e_tsc e" s _ s' t]
  by (auto simp: obj_awake_def kernel_ready_def)

lemma obj_sleep_run:
  assumes "obj_sleep e n s = Some (r, s')" "kernel_ready s" "is_ppu (cur e)" "n \<noteq> 0 \<Longrightarrow> F_notify \<notin> flags_of s (cur e)"
  shows "cur e \<noteq> t \<Longrightarrow> unsignalled s t \<Longrightarrow> unsignalled s' t"
    and "cancel_sleep (ppus s' t) = (if t = cur e then 0 else cancel_sleep (ppus s t))"
    and "F_signal \<notin> flags_of s (cur e) \<Longrightarrow> cur e \<in> set (g_ppu s) \<Longrightarrow> r \<longleftrightarrow> cancel_sleep (ppus s (cur e)) \<noteq> 2"
    and "cur e \<noteq> t \<Longrightarrow> t \<in> set (g_ppu s) \<Longrightarrow> F_notify \<in> flags_of s' t \<Longrightarrow> F_notify \<in> flags_of s t"
proof -
  have s: "sleep (Some (cur e)) (cur e) n (e_now e) (e_tsc e) s = Some (r, s')" "sched_inv s" "g_to_awake s = []"
    using assms by (auto simp: obj_sleep_def kernel_ready_def)
  note r = sleep_run [OF s assms(3,4)]
  show "unsignalled s' t" if "cur e \<noteq> t" "unsignalled s t" using r(1) that by simp
  show "cancel_sleep (ppus s' t) = (if t = cur e then 0 else cancel_sleep (ppus s t))" using r(2) .
  show "r \<longleftrightarrow> cancel_sleep (ppus s (cur e)) \<noteq> 2" if "F_signal \<notin> flags_of s (cur e)" "cur e \<in> set (g_ppu s)" using r(3) that by simp
  show "F_notify \<in> flags_of s t" if "cur e \<noteq> t" "t \<in> set (g_ppu s)" "F_notify \<in> flags_of s' t"
    using sleep_notify [OF s assms(3,4)] that by auto
qed

end
