(* ===== verification/Sys_Semaphore.thy ===== *)
theory Sys_Semaphore
  imports Lv2_Object
begin

text \<open>
  Counting semaphores (\<^verbatim>\<open>kernel/cellos/src/sys_semaphore.cpp\<close>). A negative value counts the queued
  threads. The lock-free fast paths (\<^verbatim>\<open>compare_and_swap_test\<close>, \<^verbatim>\<open>try_dec\<close>) and the sections under
  \<^verbatim>\<open>sema.mutex\<close> are separate definitions; the system calls compose them, and the relation
  \<open>sema_step\<close> at the end interleaves them for any number of threads, with the locked sections cut at
  every access to the atomic value. Guest memory writes are returned as values.
\<close>

section \<open>Operations on a semaphore\<close>

definition sema_wait_fast :: "lv2_sema \<Rightarrow> lv2_sema option" where
  "sema_wait_fast x = (if sem_val x > 0 then Some (x\<lparr>sem_val := s32 (sem_val x - 1)\<rparr>) else None)"

text \<open>\<^verbatim>\<open>sema.val-- <= 0\<close>\<close>

definition sema_dec :: "lv2_sema \<Rightarrow> bool \<times> lv2_sema" where
  "sema_dec x = (sem_val x \<le> 0, x\<lparr>sem_val := s32 (sem_val x - 1)\<rparr>)"

definition sema_enqueue :: "env \<Rightarrow> nat \<Rightarrow> lv2 \<Rightarrow> lv2_sema \<Rightarrow> (lv2 \<times> lv2_sema) option" where
  "sema_enqueue e timeout s x =
     (case obj_sleep e timeout s of
        None \<Rightarrow> None
      | Some (_, s1) \<Rightarrow> let (q, s2) = emplace (cur e) (sem_sq x) s1 in Some (s2, x\<lparr>sem_sq := q\<rparr>))"

definition sema_wait_slow :: "env \<Rightarrow> nat \<Rightarrow> lv2 \<Rightarrow> lv2_sema \<Rightarrow> (bool \<times> lv2 \<times> lv2_sema) option" where
  "sema_wait_slow e timeout s x =
     (case sema_dec x of
        (True, x1) \<Rightarrow> map_option (\<lambda>(s2, x2). (False, s2, x2)) (sema_enqueue e timeout s x1)
      | (False, x1) \<Rightarrow> Some (True, s, x1))"

definition sema_unqueue :: "tid \<Rightarrow> lv2_sema \<Rightarrow> bool \<times> lv2_sema" where
  "sema_unqueue t x =
     (case unqueue (sem_sq x) t of (None, _) \<Rightarrow> (False, x) | (Some _, q) \<Rightarrow> (True, x\<lparr>sem_sq := q\<rparr>))"

text \<open>The \<^verbatim>\<open>fetch_op\<close> after a timeout; the \<^verbatim>\<open>ensure\<close> is on the old value.\<close>

definition sema_undo :: "tid \<Rightarrow> lv2 \<Rightarrow> lv2_sema \<Rightarrow> (lv2 \<times> lv2_sema) option" where
  "sema_undo t s x =
     (if 0 > sem_val x
      then Some (set_gpr t 3 CELL_ETIMEDOUT s, x\<lparr>sem_val := s32 (sem_val x + 1)\<rparr>) else None)"

definition sema_expire :: "tid \<Rightarrow> lv2 \<Rightarrow> lv2_sema \<Rightarrow> (lv2 \<times> lv2_sema) option" where
  "sema_expire t s x =
     (case sema_unqueue t x of (False, x1) \<Rightarrow> Some (s, x1) | (True, x1) \<Rightarrow> sema_undo t s x1)"

definition sema_trywait :: "lv2_sema \<Rightarrow> bool \<times> lv2_sema" where
  "sema_trywait x =
     (if sem_val x > 0 then (True, x\<lparr>sem_val := s32 (sem_val x - 1)\<rparr>) else (False, x))"

definition sema_post_fast :: "int \<Rightarrow> lv2_sema \<Rightarrow> lv2_sema option" where
  "sema_post_fast cnt x =
     (if sem_val x \<ge> 0 \<and> cnt > 0 \<and> cnt \<le> s32 (sem_max x - sem_val x)
      then Some (x\<lparr>sem_val := s32 (sem_val x + cnt)\<rparr>) else None)"

definition sema_to_awake :: "int \<Rightarrow> int \<Rightarrow> nat" where
  "sema_to_awake val cnt = nat (min (- (min val 0)) cnt)"

definition sema_take :: "int \<Rightarrow> lv2_sema \<Rightarrow> bool \<times> lv2_sema" where
  "sema_take cnt x =
     (if wrap_u32 cnt \<le> wrap_u32 (sem_max x - sem_val x)
      then (True, x\<lparr>sem_val := s32 (sem_val x + cnt)\<rparr>) else (False, x))"

definition sema_wake :: "env \<Rightarrow> nat \<Rightarrow> lv2 \<Rightarrow> lv2_sema \<Rightarrow> (lv2 \<times> lv2_sema) option" where
  "sema_wake e n s x =
     (case wake_n n (sem_protocol x) (sem_sq x) s of
        None \<Rightarrow> None
      | Some (q, s1) \<Rightarrow>
          map_option (\<lambda>s2. (s2, x\<lparr>sem_sq := q\<rparr>)) (if n > 0 then obj_awake_all e s1 else Some s1))"

definition sema_post_slow :: "env \<Rightarrow> int \<Rightarrow> lv2 \<Rightarrow> lv2_sema \<Rightarrow> (error_code \<times> lv2 \<times> lv2_sema) option" where
  "sema_post_slow e cnt s x =
     (if some_again s (sem_sq x) then Some (CELL_OK, add_flags (cur e) {F_again} s, x)
      else
        (case sema_take cnt x of
           (False, x1) \<Rightarrow> Some (CELL_EBUSY, s, x1)
         | (True, x1) \<Rightarrow>
             map_option (\<lambda>(s2, x2). (CELL_OK, s2, x2)) (sema_wake e (sema_to_awake (sem_val x) cnt) s x1)))"

section \<open>System calls\<close>

record sys_semaphore_attribute_t =
  sa_protocol :: u32
  sa_pshared :: u32
  sa_ipc_key :: u64
  sa_flags :: u32
  sa_name :: u64

definition new_sema :: "u32 \<Rightarrow> u64 \<Rightarrow> u64 \<Rightarrow> int \<Rightarrow> int \<Rightarrow> lv2_sema" where
  "new_sema protocol key name maxv val =
     \<lparr>obj_exists = 0, sem_protocol = take_bit 8 protocol, sem_key = key, sem_name = name, sem_max = maxv,
      sem_val = val, sem_sq = []\<rparr>"

definition sema_at :: "u32 \<Rightarrow> kernel \<Rightarrow> (nat \<times> lv2_sema) option" where
  "sema_at v k = (case obj_at sema_base_id v k of Some (p, O_sema x) \<Rightarrow> Some (p, x) | _ \<Rightarrow> None)"

definition put_sema :: "nat \<Rightarrow> lv2_sema \<Rightarrow> kernel \<Rightarrow> kernel" where
  "put_sema p x k = k\<lparr>store := (store k)(p \<mapsto> O_sema x)\<rparr>"

definition sys_semaphore_create ::
    "env \<Rightarrow> bool \<Rightarrow> sys_semaphore_attribute_t option \<Rightarrow> int \<Rightarrow> int \<Rightarrow> kernel
      \<Rightarrow> (error_code \<times> u32 option \<times> kernel) option" where
  "sys_semaphore_create e id_ptr attr initial_val max_val k =
     (let k1 = enter e k in
      case attr of
        None \<Rightarrow> Some (CELL_EFAULT, None, k1)
      | Some a \<Rightarrow>
          if \<not> id_ptr then Some (CELL_EFAULT, None, k1)
          else if max_val \<le> 0 \<or> initial_val > max_val \<or> initial_val < 0 then Some (CELL_EINVAL, None, k1)
          else if sa_protocol a \<noteq> SYS_SYNC_FIFO \<and> sa_protocol a \<noteq> SYS_SYNC_PRIORITY
            then Some (CELL_EINVAL, None, k1)
          else
            let key = get_key (sa_pshared a) (sa_ipc_key a) in
            (case create sema_base_id (sa_pshared a) key (sa_flags a)
                    (\<lambda>_. O_sema (new_sema (sa_protocol a) key (sa_name a) max_val initial_val)) True k1 of
               None \<Rightarrow> None
             | Some (err, k2) \<Rightarrow>
                 if err \<noteq> 0 then Some (err, None, k2) else Some (CELL_OK, Some (last_id (ids k2)), k2)))"

definition sys_semaphore_destroy :: "env \<Rightarrow> u32 \<Rightarrow> kernel \<Rightarrow> error_code \<times> kernel" where
  "sys_semaphore_destroy e v k =
     (case withdraw_obj sema_base_id v
             (\<lambda>p k1. case store k1 p of
                Some (O_sema x) \<Rightarrow>
                  if sem_val x < 0 then (CELL_EBUSY, k1)
                  else (CELL_OK, on_id_destroy sema_base_id p (sem_key x) k1)
              | _ \<Rightarrow> (CELL_ESRCH, k1)) (enter e k) of
        (None, k1) \<Rightarrow> (CELL_ESRCH, k1)
      | (Some (p, err), k1) \<Rightarrow> (err, k1))"

definition sys_semaphore_wait :: "env \<Rightarrow> u32 \<Rightarrow> nat \<Rightarrow> kernel \<Rightarrow> (sys_result \<times> kernel) option" where
  "sys_semaphore_wait e v timeout k =
     (let k1 = enter e k in
      case sema_at v k1 of
        None \<Rightarrow> Some (Done CELL_ESRCH, k1)
      | Some (p, x) \<Rightarrow>
          (case sema_wait_fast x of
             Some x1 \<Rightarrow> Some (Done CELL_OK, put_sema p x1 k1)
           | None \<Rightarrow>
               (case sema_wait_slow e timeout (sched k1) x of
                  None \<Rightarrow> None
                | Some (True, s, x1) \<Rightarrow> Some (Done CELL_OK, put_sema p x1 (k1\<lparr>sched := s\<rparr>))
                | Some (False, s, x1) \<Rightarrow>
                    Some (Blocked, put_sema p x1 (k1\<lparr>sched := set_gpr (cur e) 3 CELL_OK s\<rparr>)))))"

definition sys_semaphore_wait_iter ::
    "env \<Rightarrow> nat \<Rightarrow> nat \<Rightarrow> bool \<Rightarrow> bool \<Rightarrow> kernel \<Rightarrow> (wait_step \<times> kernel) option" where
  "sys_semaphore_wait_iter e p timeout timed_out check_state k =
     (case store k p of
        Some (O_sema x) \<Rightarrow>
          map_option (\<lambda>(w, s, x1). (w, put_sema p x1 (k\<lparr>sched := s\<rparr>)))
            (wait_iter (\<lambda>t y. t \<in> set (sem_sq y)) sema_expire (cur e) (timeout \<noteq> 0 \<and> timed_out) check_state
               (sched k) x)
      | _ \<Rightarrow> None)"

definition sys_semaphore_trywait :: "env \<Rightarrow> u32 \<Rightarrow> kernel \<Rightarrow> error_code \<times> kernel" where
  "sys_semaphore_trywait e v k =
     (let k1 = enter e k in
      case sema_at v k1 of
        None \<Rightarrow> (CELL_ESRCH, k1)
      | Some (p, x) \<Rightarrow>
          (case sema_trywait x of
             (False, x1) \<Rightarrow> (CELL_EBUSY, put_sema p x1 k1)
           | (True, x1) \<Rightarrow> (CELL_OK, put_sema p x1 k1)))"

definition sys_semaphore_post :: "env \<Rightarrow> u32 \<Rightarrow> int \<Rightarrow> kernel \<Rightarrow> (error_code \<times> kernel) option" where
  "sys_semaphore_post e v cnt k =
     (let k1 = enter e k in
      case sema_at v k1 of
        None \<Rightarrow> Some (CELL_ESRCH, k1)
      | Some (p, x) \<Rightarrow>
          (case sema_post_fast cnt x of
             Some x1 \<Rightarrow> Some (CELL_OK, put_sema p x1 k1)
           | None \<Rightarrow>
               if cnt \<le> 0 then Some (CELL_EINVAL, k1)
               else map_option (\<lambda>(err, s, x1). (err, put_sema p x1 (k1\<lparr>sched := s\<rparr>)))
                      (sema_post_slow e cnt (sched k1) x)))"

definition sys_semaphore_get_value :: "env \<Rightarrow> u32 \<Rightarrow> bool \<Rightarrow> kernel \<Rightarrow> error_code \<times> int option \<times> kernel" where
  "sys_semaphore_get_value e v count_ptr k =
     (let k1 = enter e k in
      case sema_at v k1 of
        None \<Rightarrow> (CELL_ESRCH, None, k1)
      | Some (p, x) \<Rightarrow>
          if \<not> count_ptr then (CELL_EFAULT, None, k1) else (CELL_OK, Some (max 0 (sem_val x)), k1))"

section \<open>Interleaved execution\<close>

text \<open>
  Any number of threads use one semaphore. A thread that holds \<^verbatim>\<open>sema.mutex\<close> is in one of the
  positions \<open>S_enq\<close> (decremented, not yet asleep), \<open>S_expire\<close> (timed out and unqueued, value not yet
  restored) and \<open>S_wake\<close> (posted, waiters not yet woken); the lock-free operations of other threads
  run in between. \<open>ss_posted\<close>, \<open>ss_taken\<close> and \<open>ss_granted\<close> are ghost state: units posted, units
  obtained, and the waiting threads that have been given a unit.
\<close>

datatype sema_pc =
    S_idle | S_enq nat | S_wait nat | S_expire | S_wake nat | S_ret u64 | S_again

record sema_sys =
  ss_lv2 :: lv2
  ss_sem :: lv2_sema
  ss_lock :: "tid option"
  ss_pc :: "tid \<Rightarrow> sema_pc"
  ss_posted :: int
  ss_taken :: int
  ss_granted :: "tid set"

definition go :: "tid \<Rightarrow> sema_pc \<Rightarrow> sema_sys \<Rightarrow> sema_sys" where
  "go t pc z = z\<lparr>ss_pc := (ss_pc z)(t := pc)\<rparr>"

text \<open>
  What the rest of the system may do in between: it does not wake, signal or stop the threads that
  sleep on the semaphore or are about to, and leaves the registers of threads in a call alone; a
  thread that was woken stays runnable.
\<close>

definition sema_other :: "sema_sys \<Rightarrow> lv2 \<Rightarrow> bool" where
  "sema_other z s' \<longleftrightarrow> kernel_ready s'
     \<and> (\<forall>t. (t \<in> set (sem_sq (ss_sem z)) \<or> (\<exists>n. ss_pc z t = S_enq n)) \<longrightarrow>
          (t \<in> set (g_ppu s') \<longrightarrow> t \<in> set (g_ppu (ss_lv2 z)))
          \<and> (\<forall>f\<in>{F_signal, F_wait, F_again}. f \<in> flags_of s' t \<longleftrightarrow> f \<in> flags_of (ss_lv2 z) t))
     \<and> (\<forall>t n. ss_pc z t = S_enq n \<longrightarrow> F_notify \<in> flags_of s' t \<longrightarrow> F_notify \<in> flags_of (ss_lv2 z) t)
     \<and> (\<forall>t. ss_pc z t \<noteq> S_idle \<longrightarrow> gpr_of s' t 3 = gpr_of (ss_lv2 z) t 3)
     \<and> (\<forall>t\<in>ss_granted z. t \<in> set (g_ppu s'))"

inductive sema_step :: "sema_sys \<Rightarrow> sema_sys \<Rightarrow> bool" where
  s_wait_fast: "ss_pc z t = S_idle \<Longrightarrow> sema_wait_fast (ss_sem z) = Some x \<Longrightarrow>
    sema_step z (go t (S_ret CELL_OK) (z\<lparr>ss_sem := x, ss_taken := ss_taken z + 1\<rparr>))"
| s_wait_dec: "ss_pc z t = S_idle \<Longrightarrow> is_ppu t \<Longrightarrow> ss_lock z = None \<Longrightarrow>
    F_signal \<notin> flags_of (ss_lv2 z) t \<Longrightarrow>
    (n \<noteq> 0 \<longrightarrow> F_notify \<notin> flags_of (ss_lv2 z) t) \<Longrightarrow> sema_dec (ss_sem z) = (True, x) \<Longrightarrow>
    sema_step z (go t (S_enq n) (z\<lparr>ss_lv2 := add_flags t {F_wait} (ss_lv2 z), ss_sem := x, ss_lock := Some t\<rparr>))"
| s_wait_take: "ss_pc z t = S_idle \<Longrightarrow> ss_lock z = None \<Longrightarrow> sema_dec (ss_sem z) = (False, x) \<Longrightarrow>
    sema_step z (go t (S_ret CELL_OK) (z\<lparr>ss_sem := x, ss_taken := ss_taken z + 1\<rparr>))"
| s_wait_enq: "ss_pc z (cur e) = S_enq n \<Longrightarrow> sema_enqueue e n (ss_lv2 z) (ss_sem z) = Some (s, x) \<Longrightarrow>
    sema_step z (go (cur e) (S_wait n) (z\<lparr>ss_lv2 := set_gpr (cur e) 3 CELL_OK s, ss_sem := x, ss_lock := None\<rparr>))"
| s_wait_break: "ss_pc z t = S_wait n \<Longrightarrow> ss_lock z = None \<or> \<not> is_stopped (flags_of (ss_lv2 z) t) \<Longrightarrow>
    wait_iter (\<lambda>t y. t \<in> set (sem_sq y)) sema_expire t False c (ss_lv2 z) (ss_sem z) = Some (W_break, s, x) \<Longrightarrow>
    sema_step z (go t (S_ret (gpr_of s t 3)) (z\<lparr>ss_lv2 := s, ss_sem := x, ss_granted := ss_granted z - {t}\<rparr>))"
| s_wait_stop: "ss_pc z t = S_wait n \<Longrightarrow> ss_lock z = None \<Longrightarrow>
    wait_iter (\<lambda>t y. t \<in> set (sem_sq y)) sema_expire t False c (ss_lv2 z) (ss_sem z) = Some (W_return, s, x) \<Longrightarrow>
    sema_step z (go t S_again (z\<lparr>ss_lv2 := s, ss_sem := x\<rparr>))"
| s_wait_late: "ss_pc z t = S_wait n \<Longrightarrow> n \<noteq> 0 \<Longrightarrow> ss_lock z = None \<Longrightarrow> sema_unqueue t (ss_sem z) = (False, x) \<Longrightarrow>
    sema_step z (go t (S_ret (gpr_of (ss_lv2 z) t 3))
      (z\<lparr>ss_lv2 := add_flags t {F_wait} (ss_lv2 z), ss_sem := x, ss_granted := ss_granted z - {t}\<rparr>))"
| s_wait_timeout: "ss_pc z t = S_wait n \<Longrightarrow> n \<noteq> 0 \<Longrightarrow> ss_lock z = None \<Longrightarrow> sema_unqueue t (ss_sem z) = (True, x) \<Longrightarrow>
    sema_step z (go t S_expire (z\<lparr>ss_lv2 := add_flags t {F_wait} (ss_lv2 z), ss_sem := x, ss_lock := Some t\<rparr>))"
| s_wait_undo: "ss_pc z t = S_expire \<Longrightarrow> sema_undo t (ss_lv2 z) (ss_sem z) = Some (s, x) \<Longrightarrow>
    sema_step z (go t (S_ret (gpr_of s t 3)) (z\<lparr>ss_lv2 := s, ss_sem := x, ss_lock := None\<rparr>))"
| s_trywait: "ss_pc z t = S_idle \<Longrightarrow> sema_trywait (ss_sem z) = (b, x) \<Longrightarrow>
    sema_step z (go t (S_ret (if b then CELL_OK else CELL_EBUSY))
      (z\<lparr>ss_sem := x, ss_taken := ss_taken z + (if b then 1 else 0)\<rparr>))"
| s_post_fast: "ss_pc z t = S_idle \<Longrightarrow> sema_post_fast cnt (ss_sem z) = Some x \<Longrightarrow>
    sema_step z (go t (S_ret CELL_OK) (z\<lparr>ss_sem := x, ss_posted := ss_posted z + cnt\<rparr>))"
| s_post_again: "ss_pc z t = S_idle \<Longrightarrow> ss_lock z = None \<Longrightarrow> some_again (ss_lv2 z) (sem_sq (ss_sem z)) \<Longrightarrow>
    sema_step z (go t S_again (z\<lparr>ss_lv2 := add_flags t {F_again} (ss_lv2 z)\<rparr>))"
| s_post_full: "ss_pc z t = S_idle \<Longrightarrow> ss_lock z = None \<Longrightarrow> \<not> some_again (ss_lv2 z) (sem_sq (ss_sem z)) \<Longrightarrow>
    0 < cnt \<Longrightarrow> sema_take cnt (ss_sem z) = (False, x) \<Longrightarrow>
    sema_step z (go t (S_ret CELL_EBUSY) (z\<lparr>ss_sem := x\<rparr>))"
| s_post_take: "ss_pc z t = S_idle \<Longrightarrow> ss_lock z = None \<Longrightarrow> \<not> some_again (ss_lv2 z) (sem_sq (ss_sem z)) \<Longrightarrow>
    0 < cnt \<Longrightarrow> cnt < 2 ^ 31 \<Longrightarrow> sema_take cnt (ss_sem z) = (True, x) \<Longrightarrow>
    sema_step z (go t (S_wake (sema_to_awake (sem_val (ss_sem z)) cnt))
      (z\<lparr>ss_sem := x, ss_lock := Some t, ss_posted := ss_posted z + cnt\<rparr>))"
| s_post_wake: "ss_pc z (cur e) = S_wake n \<Longrightarrow> sema_wake e n (ss_lv2 z) (ss_sem z) = Some (s, x) \<Longrightarrow>
    sema_step z (go (cur e) (S_ret CELL_OK)
      (z\<lparr>ss_lv2 := s, ss_sem := x, ss_lock := None, ss_taken := ss_taken z + int n,
         ss_granted := ss_granted z \<union> (set (sem_sq (ss_sem z)) - set (sem_sq x))\<rparr>))"
| s_return: "ss_pc z t = S_ret r \<Longrightarrow> sema_step z (go t S_idle z)"
| s_other: "sema_other z s \<Longrightarrow> sema_step z (z\<lparr>ss_lv2 := s\<rparr>)"

definition sema_start :: "lv2 \<Rightarrow> lv2_sema \<Rightarrow> sema_sys" where
  "sema_start s x = \<lparr>ss_lv2 = s, ss_sem = x, ss_lock = None, ss_pc = (\<lambda>_. S_idle), ss_posted = 0, ss_taken = 0,
     ss_granted = {}\<rparr>"

section \<open>Invariant of the interleaved execution\<close>

fun missing :: "sema_pc \<Rightarrow> nat" where
  "missing (S_enq _) = 1"
| "missing S_expire = 1"
| "missing _ = 0"

fun pending :: "sema_pc \<Rightarrow> nat" where
  "pending (S_wake n) = n"
| "pending _ = 0"

fun critical :: "sema_pc \<Rightarrow> bool" where
  "critical (S_enq _) = True"
| "critical S_expire = True"
| "critical (S_wake _) = True"
| "critical _ = False"

definition held :: "sema_sys \<Rightarrow> sema_pc" where
  "held z = (case ss_lock z of None \<Rightarrow> S_idle | Some t \<Rightarrow> ss_pc z t)"

text \<open>The value counts the free units or the queued threads, up to what the lock holder still owes.\<close>

definition val_ok :: "int \<Rightarrow> nat \<Rightarrow> sema_pc \<Rightarrow> bool" where
  "val_ok v len h \<longleftrightarrow>
     (if v < 0 then int (len + missing h) = - v + int (pending h) else len = pending h \<and> missing h = 0)"

definition tok_ok :: "int \<Rightarrow> sema_sys \<Rightarrow> bool" where
  "tok_ok i z \<longleftrightarrow> 0 < sem_max (ss_sem z) \<and> sem_max (ss_sem z) < 2 ^ 31 \<and> sem_val (ss_sem z) \<le> sem_max (ss_sem z)
     \<and> val_ok (sem_val (ss_sem z)) (length (sem_sq (ss_sem z))) (held z)
     \<and> i + ss_posted z = ss_taken z + max (sem_val (ss_sem z)) 0 + int (pending (held z))"

definition lock_ok :: "sema_sys \<Rightarrow> bool" where
  "lock_ok z \<longleftrightarrow> (\<forall>t. critical (ss_pc z t) \<longleftrightarrow> ss_lock z = Some t)"

text \<open>A queued thread sleeps and is in its wait loop (or was stopped in it).\<close>

definition sleeper_ok :: "sema_sys \<Rightarrow> tid \<Rightarrow> bool" where
  "sleeper_ok z t \<longleftrightarrow> is_ppu t \<and> t \<notin> set (g_ppu (ss_lv2 z)) \<and> F_signal \<notin> flags_of (ss_lv2 z) t
     \<and> F_wait \<in> flags_of (ss_lv2 z) t \<and> t \<notin> ss_granted z \<and> ((\<exists>n. ss_pc z t = S_wait n) \<or> ss_pc z t = S_again \<and> F_again \<in> flags_of (ss_lv2 z) t)"

fun pc_ok :: "sema_sys \<Rightarrow> tid \<Rightarrow> sema_pc \<Rightarrow> bool" where
  "pc_ok z t (S_wait n) =
     (gpr_of (ss_lv2 z) t 3 = CELL_OK \<and> (t \<in> set (sem_sq (ss_sem z)) \<or> t \<in> ss_granted z))"
| "pc_ok z t (S_enq n) =
     (is_ppu t \<and> F_signal \<notin> flags_of (ss_lv2 z) t \<and> F_wait \<in> flags_of (ss_lv2 z) t
      \<and> (n \<noteq> 0 \<longrightarrow> F_notify \<notin> flags_of (ss_lv2 z) t))"
| "pc_ok z t (S_wake n) = (\<not> some_again (ss_lv2 z) (sem_sq (ss_sem z)))"
| "pc_ok z t _ = True"

definition queue_ok :: "sema_sys \<Rightarrow> bool" where
  "queue_ok z \<longleftrightarrow> kernel_ready (ss_lv2 z) \<and> distinct (sem_sq (ss_sem z))
     \<and> (\<forall>t\<in>set (sem_sq (ss_sem z)). sleeper_ok z t) \<and> (\<forall>t. pc_ok z t (ss_pc z t))
     \<and> (\<forall>t\<in>ss_granted z. t \<in> set (g_ppu (ss_lv2 z)) \<and> (\<exists>n. ss_pc z t = S_wait n))"

definition sema_inv :: "int \<Rightarrow> sema_sys \<Rightarrow> bool" where
  "sema_inv i z \<longleftrightarrow> tok_ok i z \<and> lock_ok z \<and> queue_ok z"

lemmas sema_inv_defs = sema_inv_def tok_ok_def lock_ok_def queue_ok_def

lemma go_sel [simp]:
  "ss_lv2 (go t pc z) = ss_lv2 z" "ss_sem (go t pc z) = ss_sem z" "ss_lock (go t pc z) = ss_lock z"
  "ss_pc (go t pc z) = (ss_pc z)(t := pc)" "ss_posted (go t pc z) = ss_posted z"
  "ss_taken (go t pc z) = ss_taken z" "ss_granted (go t pc z) = ss_granted z"
  by (simp_all add: go_def)

lemma queue_bound:
  assumes "sema_inv i z"
  shows "length (sem_sq (ss_sem z)) \<le> 2 ^ 24"
  using assms by (intro ppu_ids_bound) (auto simp: sema_inv_def queue_ok_def sleeper_ok_def)

lemma val_bound:
  assumes "sema_inv i z"
  shows "- (2 ^ 24) - 1 \<le> sem_val (ss_sem z)"
proof -
  have "missing h \<le> 1" for h by (cases h) auto
  then show ?thesis using queue_bound [OF assms] assms
    by (fastforce simp: sema_inv_def tok_ok_def val_ok_def dest: spec [of _ "held z"] split: if_splits)
qed

lemma sema_enqueue_spec:
  assumes "kernel_ready s" "is_ppu (cur e)" "F_signal \<notin> flags_of s (cur e)" "n \<noteq> 0 \<longrightarrow> F_notify \<notin> flags_of s (cur e)"
  shows "\<exists>s1 s'. sema_enqueue e n s x = Some (s', x\<lparr>sem_sq := cur e # sem_sq x\<rparr>) \<and> kernel_ready s'
    \<and> set (g_ppu s') = set (g_ppu s) - {cur e} \<and> sched_frame s s1 \<and> g_ppu s1 = g_ppu s'
    \<and> (\<forall>u. flags_of s' u = flags_of s1 u \<and> gpr (ppus s' u) = gpr (ppus s u))"
proof -
  obtain r s1 where s1: "obj_sleep e n s = Some (r, s1)" "kernel_ready s1" "set (g_ppu s1) = set (g_ppu s) - {cur e}"
    "sched_frame s s1" using obj_sleep_spec [of s e n] assms by auto
  show ?thesis
    using s1 emplace_frame(1-5) [where t = "cur e" and q = "sem_sq x" and s = s1]
    by (auto simp: sema_enqueue_def split_beta sched_frame_gpr)
qed

lemma sema_wake_spec:
  assumes "kernel_ready s" "waiters_ok (sem_sq x)" "\<not> some_again s (sem_sq x)" "n \<le> length (sem_sq x)"
  shows "\<exists>s' ws q. sema_wake e n s x = Some (s', x\<lparr>sem_sq := q\<rparr>) \<and> kernel_ready s' \<and> length ws = n
    \<and> distinct (ws @ q) \<and> set (ws @ q) = set (sem_sq x) \<and> set (g_ppu s') = set ws \<union> set (g_ppu s) \<and> sched_frame s s'"
proof -
  obtain ws q where w: "wake_n n (sem_protocol x) (sem_sq x) s = Some (q, append_all ws s)" "length ws = n"
    "distinct (ws @ q)" "set (ws @ q) = set (sem_sq x)"
    using wake_n_spec [of s "sem_sq x" n "sem_protocol x"] assms by (auto simp: waiters_ok_def)
  show ?thesis
  proof (cases "n = 0")
    case True
    then have "sema_wake e n s x = Some (s, x\<lparr>sem_sq := q\<rparr>)"
      using w(1,2) by (simp add: sema_wake_def append_all_def)
    moreover have "sched_frame s s" by (simp add: sched_frame_def)
    ultimately show ?thesis using assms(1) w True by (intro exI [of _ s] exI [of _ ws] exI [of _ q]) auto
  next
    case False
    have i: "sched_inv (append_all ws s)" "g_to_awake (append_all ws s) = ws"
      using assms(1) by (simp_all add: append_all_alt kernel_ready_def inv_defs)
    obtain s' where s': "obj_awake_all e (append_all ws s) = Some s'" "kernel_ready s'"
      "set (g_ppu s') = set ws \<union> set (g_ppu s)" "sched_frame (append_all ws s) s'"
      using obj_awake_all_spec [OF i, of e] w(4) assms(2) by (auto simp: waiters_ok_def append_all_alt)
    have "sched_frame s s'" using s'(4) by (simp add: sched_frame_def append_all_alt thr_frame_def)
    moreover have "sema_wake e n s x = Some (s', x\<lparr>sem_sq := q\<rparr>)"
      using w(1) s'(1) False by (simp add: sema_wake_def)
    ultimately show ?thesis using s' w by blast
  qed
qed

lemma sema_take_spec:
  assumes "- (2 ^ 25) \<le> sem_val x" "sem_val x \<le> sem_max x" "sem_max x < 2 ^ 31" "0 < cnt" "cnt < 2 ^ 31"
  shows "sema_take cnt x =
    (if cnt \<le> sem_max x - sem_val x then (True, x\<lparr>sem_val := sem_val x + cnt\<rparr>) else (False, x))"
proof -
  have "wrap_u32 cnt = cnt" "wrap_u32 (sem_max x - sem_val x) = sem_max x - sem_val x"
    using assms by (auto intro!: wrap_u32_id)
  moreover have "cnt \<le> sem_max x - sem_val x \<Longrightarrow> s32 (sem_val x + cnt) = sem_val x + cnt"
    using assms by (intro s32_id) auto
  ultimately show ?thesis by (simp add: sema_take_def)
qed

lemma lock_step: "sema_step z z' \<Longrightarrow> lock_ok z \<Longrightarrow> lock_ok z'"
  by (induction rule: sema_step.induct) (auto simp: lock_ok_def, (metis critical.simps(4-7))+)

lemma held_go: "ss_lock z = Some t \<Longrightarrow> held (go t pc z) = pc" "ss_lock z = None \<Longrightarrow> held (go t pc z) = S_idle"
  by (simp_all add: held_def)

lemma held_other: "lock_ok z \<Longrightarrow> \<not> critical (ss_pc z t) \<Longrightarrow> ss_lock z' = ss_lock z \<Longrightarrow> ss_pc z' = ss_pc z \<Longrightarrow> held (go t pc z') = held z"
  by (auto simp: held_def lock_ok_def split: option.split)

lemma tok_fast:
  assumes "tok_ok i z" "lock_ok z" "\<not> critical (ss_pc z t)" "v \<le> sem_max (ss_sem z)"
    and "0 \<le> sem_val (ss_sem z)" "0 \<le> v" "v - sem_val (ss_sem z) = p - k"
  shows "tok_ok i (go t pc (z\<lparr>ss_sem := (ss_sem z)\<lparr>sem_val := v\<rparr>, ss_posted := ss_posted z + p, ss_taken := ss_taken z + k\<rparr>))"
  using assms held_other [of z t "z\<lparr>ss_sem := (ss_sem z)\<lparr>sem_val := v\<rparr>, ss_posted := ss_posted z + p, ss_taken := ss_taken z + k\<rparr>" pc]
  by (simp add: tok_ok_def val_ok_def)

lemma tok_same:
  assumes "tok_ok i z" "held z' = held z" "ss_sem z' = ss_sem z" "ss_posted z' = ss_posted z" "ss_taken z' = ss_taken z"
  shows "tok_ok i z'"
  using assms by (simp add: tok_ok_def)

lemma wait_break_spec:
  assumes "wait_iter q f t False c s x = Some (w, s', x')"
  shows "x' = x" and "w = W_break \<Longrightarrow> s' = del_flags t {F_signal} s \<or> s' = s"
    and "w = W_return \<Longrightarrow> s' = add_flags t {F_again} s \<and> q t x"
    and "w = W_break \<Longrightarrow> flags_of s t = {} \<or> F_signal \<in> flags_of s t \<or> \<not> q t x"
  using assms by (auto simp: wait_iter_def split: if_splits)

lemma tok_step: "sema_step z z' \<Longrightarrow> sema_inv i z \<Longrightarrow> tok_ok i z'"
proof (induction rule: sema_step.induct)
  case (s_wait_fast z t x)
  then have "x = (ss_sem z)\<lparr>sem_val := sem_val (ss_sem z) - 1\<rparr>" "0 < sem_val (ss_sem z)"
    by (auto simp: sema_wait_fast_def sema_inv_defs s32_id split: if_splits)
  then show ?case using tok_fast [of i z t "sem_val (ss_sem z) - 1" 0 1 "S_ret CELL_OK"] s_wait_fast
    by (auto simp: sema_inv_def tok_ok_def)
next
  case (s_wait_dec z t n x)
  then have "x = (ss_sem z)\<lparr>sem_val := sem_val (ss_sem z) - 1\<rparr>" "sem_val (ss_sem z) \<le> 0"
    using val_bound [OF s_wait_dec(7)] by (auto simp: sema_dec_def sema_inv_defs s32_id)
  then show ?case using s_wait_dec by (auto simp: sema_inv_def tok_ok_def val_ok_def held_go held_def split: if_splits)
next
  case (s_wait_take z t x)
  then have "x = (ss_sem z)\<lparr>sem_val := sem_val (ss_sem z) - 1\<rparr>" "0 < sem_val (ss_sem z)"
    by (auto simp: sema_dec_def sema_inv_defs s32_id)
  then show ?case using tok_fast [of i z t "sem_val (ss_sem z) - 1" 0 1 "S_ret CELL_OK"] s_wait_take
    by (auto simp: sema_inv_def tok_ok_def)
next
  case (s_wait_enq z e n s x)
  then have l: "ss_lock z = Some (cur e)" by (metis critical.simps(1) lock_ok_def sema_inv_def)
  have "pc_ok z (cur e) (S_enq n)" using s_wait_enq by (metis queue_ok_def sema_inv_def)
  then have "x = (ss_sem z)\<lparr>sem_sq := cur e # sem_sq (ss_sem z)\<rparr>"
    using sema_enqueue_spec [of "ss_lv2 z" e n "ss_sem z"] s_wait_enq by (auto simp: sema_inv_def queue_ok_def)
  then show ?case using s_wait_enq l by (auto simp: sema_inv_def tok_ok_def val_ok_def held_def split: if_splits)
next
  case (s_wait_break z t n c s x)
  then show ?case using wait_break_spec(1) [OF s_wait_break(3)]
    by (auto intro!: tok_same [of i z] held_other simp: sema_inv_def)
next
  case (s_wait_stop z t n c s x)
  then show ?case using wait_break_spec(1) [OF s_wait_stop(3)]
    by (auto intro!: tok_same [of i z] held_other simp: sema_inv_def)
next
  case (s_wait_late z t n x)
  then have "x = ss_sem z" by (auto simp: sema_unqueue_def split: prod.splits option.splits)
  then show ?case using s_wait_late by (auto intro!: tok_same [of i z] held_other simp: sema_inv_def)
next
  case (s_wait_timeout z t n x)
  then have "x = (ss_sem z)\<lparr>sem_sq := remove1 t (sem_sq (ss_sem z))\<rparr>" "t \<in> set (sem_sq (ss_sem z))"
    by (auto simp: sema_unqueue_def unqueue_def split: if_splits)
  moreover from this have "int (length (sem_sq (ss_sem z))) = int (length (sem_sq x)) + 1"
    using length_remove1_in [of t "sem_sq (ss_sem z)"] by (cases "sem_sq (ss_sem z)") auto
  ultimately show ?case using s_wait_timeout by (auto simp: sema_inv_def tok_ok_def val_ok_def held_def split: if_splits)
next
  case (s_wait_undo z t s x)
  then have l: "ss_lock z = Some t" by (metis critical.simps(2) lock_ok_def sema_inv_def)
  have "x = (ss_sem z)\<lparr>sem_val := sem_val (ss_sem z) + 1\<rparr>" "sem_val (ss_sem z) < 0"
    using s_wait_undo val_bound [OF s_wait_undo(3)] by (auto simp: sema_undo_def s32_id split: if_splits)
  then show ?case using s_wait_undo l by (auto simp: sema_inv_def tok_ok_def val_ok_def held_def max_def split: if_splits simp del: length_0_conv)
next
  case (s_trywait z t b x)
  show ?case
  proof (cases b)
    case True
    then have "x = (ss_sem z)\<lparr>sem_val := sem_val (ss_sem z) - 1\<rparr>" "0 < sem_val (ss_sem z)"
      using s_trywait by (auto simp: sema_trywait_def sema_inv_defs s32_id split: if_splits)
    then show ?thesis using tok_fast [of i z t "sem_val (ss_sem z) - 1" 0 1 "S_ret CELL_OK"] s_trywait True
      by (auto simp: sema_inv_def tok_ok_def)
  next
    case False
    then have "x = ss_sem z" using s_trywait by (auto simp: sema_trywait_def split: if_splits)
    then show ?thesis using s_trywait False by (auto intro!: tok_same [of i z] held_other simp: sema_inv_def)
  qed
next
  case (s_post_fast z t cnt x)
  have m: "s32 (sem_max (ss_sem z) - sem_val (ss_sem z)) = sem_max (ss_sem z) - sem_val (ss_sem z)"
    if "0 \<le> sem_val (ss_sem z)" using s_post_fast(3) that by (intro s32_id) (auto simp: sema_inv_defs)
  then have v: "0 \<le> sem_val (ss_sem z)" "0 < cnt" "sem_val (ss_sem z) + cnt \<le> sem_max (ss_sem z)"
    using s_post_fast(2) by (auto simp: sema_post_fast_def split: if_splits)
  then have "x = (ss_sem z)\<lparr>sem_val := sem_val (ss_sem z) + cnt\<rparr>"
    using s_post_fast by (auto simp: sema_post_fast_def sema_inv_defs s32_id split: if_splits)
  then show ?case using tok_fast [of i z t "sem_val (ss_sem z) + cnt" cnt 0 "S_ret CELL_OK"] s_post_fast v
    by (auto simp: sema_inv_def)
next
  case (s_post_take z t cnt x)
  then have "x = (ss_sem z)\<lparr>sem_val := sem_val (ss_sem z) + cnt\<rparr>" "cnt \<le> sem_max (ss_sem z) - sem_val (ss_sem z)"
    using sema_take_spec [of "ss_sem z" cnt] val_bound [OF s_post_take(7)]
    by (auto simp: sema_inv_def tok_ok_def split: if_splits)
  then show ?case using s_post_take
    by (auto simp: sema_inv_def tok_ok_def val_ok_def held_def sema_to_awake_def min_def max_def split: if_splits)
next
  case (s_post_wake z e n s x)
  then have l: "ss_lock z = Some (cur e)" by (metis critical.simps(3) lock_ok_def sema_inv_def)
  have p: "pc_ok z (cur e) (S_wake n)" using s_post_wake by (metis queue_ok_def sema_inv_def)
  have n: "n \<le> length (sem_sq (ss_sem z))"
    using s_post_wake l by (auto simp: sema_inv_def tok_ok_def val_ok_def held_def split: if_splits)
  have "waiters_ok (sem_sq (ss_sem z))"
    using s_post_wake(3) by (auto simp: sema_inv_def queue_ok_def waiters_ok_def sleeper_ok_def)
  then obtain ws q where w: "x = (ss_sem z)\<lparr>sem_sq := q\<rparr>" "length ws = n" "distinct (ws @ q)" "set (ws @ q) = set (sem_sq (ss_sem z))"
    using sema_wake_spec [of "ss_lv2 z" "ss_sem z" n e] s_post_wake p n by (auto simp: sema_inv_def queue_ok_def)
  have "length (ws @ q) = length (sem_sq (ss_sem z))"
    using w s_post_wake(3) distinct_card [of "ws @ q"] distinct_card [of "sem_sq (ss_sem z)"]
    by (simp only: sema_inv_def queue_ok_def)
  then show ?case using w s_post_wake l by (auto simp: sema_inv_def tok_ok_def val_ok_def held_def split: if_splits)
next
  case (s_post_again z t)
  then show ?case by (auto intro!: tok_same [of i z] held_other simp: sema_inv_def)
next
  case (s_post_full z t cnt x)
  then have "x = ss_sem z" by (auto simp: sema_take_def split: if_splits)
  then show ?case using s_post_full by (auto intro!: tok_same [of i z] held_other simp: sema_inv_def)
next
  case (s_return z t r)
  then show ?case by (auto intro!: tok_same [of i z] held_other simp: sema_inv_def)
next
  case (s_other z s)
  then show ?case by (auto intro!: tok_same [of i z] simp: sema_inv_def held_def split: option.split)
qed

lemma queue_move:
  assumes q: "queue_ok z" "t \<notin> set (sem_sq (ss_sem z))"
    and z': "sem_sq (ss_sem z') = sem_sq (ss_sem z)" "ss_granted z' = ss_granted z - {t}" "ss_pc z' = ss_pc z"
    and s': "kernel_ready (ss_lv2 z')" "g_ppu (ss_lv2 z') = g_ppu (ss_lv2 z)"
      "\<And>u. u \<noteq> t \<Longrightarrow> ppus (ss_lv2 z') u = ppus (ss_lv2 z) u"
    and pc: "pc_ok (go t pc z') t pc"
  shows "queue_ok (go t pc z')"
proof -
  have "some_again (ss_lv2 z') (sem_sq (ss_sem z)) = some_again (ss_lv2 z) (sem_sq (ss_sem z))"
    using q(2) s'(3) by (auto simp: some_again_def) metis+
  then have "pc_ok (go t pc z') u (ss_pc z u)" if "u \<noteq> t" for u
    using q(1) that z' s' by (cases "ss_pc z u") (auto simp: queue_ok_def dest!: spec [of _ u])
  moreover have "sleeper_ok (go t pc z') u" if "u \<in> set (sem_sq (ss_sem z))" for u
    using q that z' s' by (cases "u = t") (auto simp: queue_ok_def sleeper_ok_def)
  ultimately show ?thesis using q z' s'(1,2) pc by (auto simp: queue_ok_def)
qed

lemma idle_not_queued: "queue_ok z \<Longrightarrow> (\<And>n. ss_pc z t \<noteq> S_wait n) \<Longrightarrow> ss_pc z t \<noteq> S_again \<Longrightarrow>
    t \<notin> set (sem_sq (ss_sem z)) \<and> t \<notin> ss_granted z"
  by (meson queue_ok_def sleeper_ok_def)

lemma queue_enq:
  assumes i: "sema_inv i z" and pc: "ss_pc z (cur e) = S_enq n"
    and op: "sema_enqueue e n (ss_lv2 z) (ss_sem z) = Some (s, x)"
  shows "queue_ok (go (cur e) (S_wait n) (z\<lparr>ss_lv2 := set_gpr (cur e) 3 CELL_OK s, ss_sem := x, ss_lock := None\<rparr>))"
    (is "queue_ok ?z")
proof -
  have q: "queue_ok z" and p: "pc_ok z (cur e) (S_enq n)" using i pc by (metis queue_ok_def sema_inv_def)+
  obtain s1 where s: "x = (ss_sem z)\<lparr>sem_sq := cur e # sem_sq (ss_sem z)\<rparr>" "kernel_ready s" "sched_frame (ss_lv2 z) s1"
    "set (g_ppu s1) = set (g_ppu (ss_lv2 z)) - {cur e}" "g_ppu s = g_ppu s1"
    "\<And>u. flags_of s u = flags_of s1 u" "\<And>u. gpr (ppus s u) = gpr (ppus (ss_lv2 z) u)"
    using sema_enqueue_spec [of "ss_lv2 z" e n "ss_sem z"] q p op by (auto simp: queue_ok_def)
  have new: "cur e \<notin> set (sem_sq (ss_sem z))" "cur e \<notin> ss_granted z" using idle_not_queued [OF q, of "cur e"] pc by auto
  have fl: "F_wait \<in> flags_of s u \<longleftrightarrow> F_wait \<in> flags_of (ss_lv2 z) u" for u using s(3,6) sched_frame_wait by simp
  have ag: "F_again \<in> flags_of s u \<longleftrightarrow> F_again \<in> flags_of (ss_lv2 z) u" for u using s(3,6) sched_frame_again by simp
  have sg: "F_signal \<notin> flags_of s u" if "F_signal \<notin> flags_of (ss_lv2 z) u" "u \<notin> set (g_ppu (ss_lv2 z)) \<or> u = cur e" for u
    using sched_frame_signal [OF s(3)] s(4,6) that by auto
  have "sleeper_ok ?z (cur e)" using p new sg [of "cur e"] fl s(4,5) by (auto simp: sleeper_ok_def)
  moreover have "sleeper_ok ?z u" if "u \<in> set (sem_sq (ss_sem z))" for u
    using q that fl ag sg [of u] s(4,5) new by (auto simp: queue_ok_def sleeper_ok_def)
  moreover have "pc_ok ?z u (ss_pc z u)" if "u \<noteq> cur e" for u
  proof -
    have "\<not> critical (ss_pc z u)" using i that pc by (metis critical.simps(1) lock_ok_def option.inject sema_inv_def)
    then show ?thesis using q that s(1,7) by (cases "ss_pc z u") (auto simp: queue_ok_def dest!: spec [of _ u])
  qed
  ultimately show ?thesis using q s(1,2,4,5) new by (auto simp: queue_ok_def)
qed

lemma queue_wake:
  assumes i: "sema_inv i z" and pc: "ss_pc z (cur e) = S_wake n"
    and op: "sema_wake e n (ss_lv2 z) (ss_sem z) = Some (s, x)"
  shows "queue_ok (go (cur e) (S_ret CELL_OK) (z\<lparr>ss_lv2 := s, ss_sem := x, ss_lock := None, ss_taken := ss_taken z + int n,
         ss_granted := ss_granted z \<union> (set (sem_sq (ss_sem z)) - set (sem_sq x))\<rparr>))" (is "queue_ok ?z")
proof -
  have q: "queue_ok z" and p: "pc_ok z (cur e) (S_wake n)" using i pc by (metis queue_ok_def sema_inv_def)+
  have l: "ss_lock z = Some (cur e)" using i pc by (metis critical.simps(3) lock_ok_def sema_inv_def)
  have n: "n \<le> length (sem_sq (ss_sem z))"
    using i l pc by (auto simp: sema_inv_def tok_ok_def val_ok_def held_def split: if_splits)
  have w: "waiters_ok (sem_sq (ss_sem z))" using q by (auto simp: queue_ok_def waiters_ok_def sleeper_ok_def)
  obtain ws q' where s: "x = (ss_sem z)\<lparr>sem_sq := q'\<rparr>" "kernel_ready s" "distinct (ws @ q')"
    "set (ws @ q') = set (sem_sq (ss_sem z))" "set (g_ppu s) = set ws \<union> set (g_ppu (ss_lv2 z))" "sched_frame (ss_lv2 z) s"
    using sema_wake_spec [of "ss_lv2 z" "ss_sem z" n e] q p w n op by (auto simp: queue_ok_def)
  have wset: "set (sem_sq (ss_sem z)) - set q' = set ws" using s(3,4) by auto
  have sub: "set q' \<subseteq> set (sem_sq (ss_sem z))" using s(4) by auto
  have me: "cur e \<notin> set (sem_sq (ss_sem z))" "cur e \<notin> ss_granted z" using idle_not_queued [OF q, of "cur e"] pc by auto
  have "sleeper_ok ?z u" if u: "u \<in> set q'" for u
  proof -
    have "sleeper_ok z u" using q u sub by (auto simp: queue_ok_def)
    moreover have "u \<notin> set ws" using s(3) u by auto
    ultimately show ?thesis using s(1,5) u me sub wset sched_frame_signal [OF s(6), of u] sched_frame_wait [OF s(6), of u]
        sched_frame_again [OF s(6), of u]
      by (auto simp: sleeper_ok_def)
  qed
  moreover have "pc_ok ?z u (ss_pc z u)" if "u \<noteq> cur e" for u
  proof -
    have "\<not> critical (ss_pc z u)" using i that l by (metis lock_ok_def option.inject sema_inv_def)
    then show ?thesis using q that s(1) sched_frame_gpr [OF s(6)] by (cases "ss_pc z u") (auto simp: queue_ok_def dest!: spec [of _ u])
  qed
  moreover have "\<exists>m. ss_pc z u = S_wait m" if "u \<in> set ws" for u
  proof -
    have "sleeper_ok z u" "F_again \<notin> flags_of (ss_lv2 z) u" using q p that s(4) by (auto simp: queue_ok_def some_again_def)
    then show ?thesis by (auto simp: sleeper_ok_def)
  qed
  ultimately show ?thesis using q s(1-3,5) me wset by (auto simp: queue_ok_def)
qed

lemma queue_stop:
  assumes q: "queue_ok z" and pc: "ss_pc z t = S_wait n" "t \<in> set (sem_sq (ss_sem z))" and l: "lock_ok z" "ss_lock z = None"
  shows "queue_ok (go t S_again (z\<lparr>ss_lv2 := add_flags t {F_again} (ss_lv2 z), ss_sem := ss_sem z\<rparr>))" (is "queue_ok ?z")
proof -
  have "kernel_ready (add_flags t {F_again} (ss_lv2 z))" using q by (intro kernel_ready_flags) (auto simp: queue_ok_def)
  moreover have "sleeper_ok ?z u" if "u \<in> set (sem_sq (ss_sem z))" for u
    using q that by (auto simp: queue_ok_def sleeper_ok_def add_flags_def)
  moreover have "pc_ok ?z u (ss_pc z u)" if "u \<noteq> t" for u
  proof -
    have "\<not> critical (ss_pc z u)" using l by (auto simp: lock_ok_def)
    then show ?thesis using q that
      by (cases "ss_pc z u") (auto simp: queue_ok_def add_flags_def dest!: spec [of _ u])
  qed
  moreover have "t \<notin> ss_granted z" using q pc by (auto simp: queue_ok_def sleeper_ok_def)
  ultimately show ?thesis using q by (auto simp: queue_ok_def add_flags_def)
qed

lemma queue_timeout:
  assumes q: "queue_ok z" and pc: "ss_pc z t = S_wait n" "t \<in> set (sem_sq (ss_sem z))" and l: "lock_ok z" "ss_lock z = None"
    and x: "x = (ss_sem z)\<lparr>sem_sq := remove1 t (sem_sq (ss_sem z))\<rparr>"
  shows "queue_ok (go t S_expire (z\<lparr>ss_lv2 := add_flags t {F_wait} (ss_lv2 z), ss_sem := x, ss_lock := Some t\<rparr>))"
    (is "queue_ok ?z")
proof -
  have r: "set (remove1 t (sem_sq (ss_sem z))) = set (sem_sq (ss_sem z)) - {t}" using q by (simp add: queue_ok_def)
  have "kernel_ready (add_flags t {F_wait} (ss_lv2 z))" using q by (intro kernel_ready_flags) (auto simp: queue_ok_def)
  moreover have "sleeper_ok ?z u" if "u \<in> set (sem_sq (ss_sem z)) - {t}" for u
    using q that by (auto simp: queue_ok_def sleeper_ok_def add_flags_def)
  moreover have "pc_ok ?z u (ss_pc z u)" if "u \<noteq> t" for u
  proof -
    have "\<not> critical (ss_pc z u)" using l by (auto simp: lock_ok_def)
    then show ?thesis using q that x r
      by (cases "ss_pc z u") (auto simp: queue_ok_def add_flags_def dest!: spec [of _ u])
  qed
  moreover have "t \<notin> ss_granted z" using q pc by (auto simp: queue_ok_def sleeper_ok_def)
  ultimately show ?thesis using q x r by (auto simp: queue_ok_def add_flags_def)
qed

lemma queue_other:
  assumes q: "queue_ok z" and o': "sema_other z s"
  shows "queue_ok (z\<lparr>ss_lv2 := s\<rparr>)" (is "queue_ok ?z")
proof -
  have again: "some_again s (sem_sq (ss_sem z)) = some_again (ss_lv2 z) (sem_sq (ss_sem z))"
    using o' by (auto simp: sema_other_def some_again_def)
  have "pc_ok ?z u (ss_pc z u)" for u
  proof -
    have "pc_ok z u (ss_pc z u)" "ss_pc z u \<noteq> S_idle \<Longrightarrow> gpr_of s u 3 = gpr_of (ss_lv2 z) u 3"
      using q o' by (auto simp: queue_ok_def sema_other_def)
    moreover have "F_notify \<in> flags_of s u \<Longrightarrow> F_notify \<in> flags_of (ss_lv2 z) u"
      "F_wait \<in> flags_of s u \<longleftrightarrow> F_wait \<in> flags_of (ss_lv2 z) u" "F_signal \<in> flags_of s u \<longleftrightarrow> F_signal \<in> flags_of (ss_lv2 z) u"
      if "ss_pc z u = S_enq n" for n using o' that by (auto simp: sema_other_def)
    ultimately show ?thesis using again by (cases "ss_pc z u") auto
  qed
  moreover have "sleeper_ok ?z u" if "u \<in> set (sem_sq (ss_sem z))" for u
    using q o' that by (auto simp: queue_ok_def sema_other_def sleeper_ok_def)
  ultimately show ?thesis using q o' by (auto simp: queue_ok_def sema_other_def)
qed

lemma queue_leave:
  assumes i: "sema_inv i z" and pc: "ss_pc z t = S_wait n"
    and op: "wait_iter (\<lambda>t y. t \<in> set (sem_sq y)) sema_expire t False c (ss_lv2 z) (ss_sem z) = Some (W_break, s, x)"
  shows "t \<notin> set (sem_sq (ss_sem z))" "t \<in> ss_granted z" "gpr_of s t 3 = CELL_OK"
proof -
  have q: "queue_ok z" and p: "pc_ok z t (S_wait n)" using i pc by (metis queue_ok_def sema_inv_def)+
  show 1: "t \<notin> set (sem_sq (ss_sem z))"
    using wait_break_spec(4) [OF op] q by (auto simp: queue_ok_def sleeper_ok_def)
  then show "t \<in> ss_granted z" using p by simp
  show "gpr_of s t 3 = CELL_OK" using wait_break_spec(2) [OF op] p by (auto simp: del_flags_def)
qed

lemma queue_ready: "sema_inv i z \<Longrightarrow> queue_ok z" "sema_inv i z \<Longrightarrow> kernel_ready (ss_lv2 z)"
  by (simp_all add: sema_inv_def queue_ok_def)

lemma queue_flags:
  assumes "sema_inv i z" "t \<notin> set (sem_sq (ss_sem z))" "F_notify \<notin> F"
    and "sem_sq (ss_sem z') = sem_sq (ss_sem z)" "ss_granted z' = ss_granted z - {t}" "ss_pc z' = ss_pc z"
    and "ss_lv2 z' = add_flags t F (ss_lv2 z)" "pc_ok (go t pc z') t pc"
  shows "queue_ok (go t pc z')"
  by (rule queue_move [of z]) (use queue_ready [OF assms(1)] kernel_ready_flags [OF assms(3), of "ss_lv2 z" t] assms in
    \<open>simp_all add: add_flags_def\<close>)

lemma queue_local:
  assumes "sema_inv i z" "ss_pc z t = S_idle \<or> ss_pc z t = S_ret r"
    and "sem_sq (ss_sem z') = sem_sq (ss_sem z)" "ss_granted z' = ss_granted z" "ss_pc z' = ss_pc z"
    and "ss_lv2 z' = ss_lv2 z" "pc_ok (go t pc z') t pc"
  shows "queue_ok (go t pc z')"
proof -
  have "t \<notin> set (sem_sq (ss_sem z))" "t \<notin> ss_granted z"
    using idle_not_queued [OF queue_ready(1) [OF assms(1)], of t] assms(2) by auto
  then show ?thesis by (intro queue_move [of z, OF queue_ready(1) [OF assms(1)]]) (use queue_ready [OF assms(1)] assms in simp_all)
qed

lemma sema_op_sq:
  "sema_wait_fast x = Some x' \<Longrightarrow> sem_sq x' = sem_sq x" "sema_dec x = (b, x') \<Longrightarrow> sem_sq x' = sem_sq x"
  "sema_trywait x = (b, x') \<Longrightarrow> sem_sq x' = sem_sq x" "sema_post_fast c x = Some x' \<Longrightarrow> sem_sq x' = sem_sq x"
  "sema_take c x = (b, x') \<Longrightarrow> sem_sq x' = sem_sq x"
  by (auto simp: sema_wait_fast_def sema_dec_def sema_trywait_def sema_post_fast_def sema_take_def split: if_splits)

lemma queue_step: "sema_step z z' \<Longrightarrow> sema_inv i z \<Longrightarrow> queue_ok z'"
proof (induction rule: sema_step.induct)
  case (s_wait_break z t n c s x)
  note b = queue_leave [OF s_wait_break(4,1,3)] and w = wait_break_spec(1,2) [OF s_wait_break(3)]
  have s: "kernel_ready s" "g_ppu s = g_ppu (ss_lv2 z)" "u \<noteq> t \<Longrightarrow> ppus s u = ppus (ss_lv2 z) u" for u
    using w(2) kernel_ready_del [of "{F_signal}" "ss_lv2 z" t] queue_ready [OF s_wait_break(4)]
    by (auto simp: del_flags_def)
  show ?case using b(1) w(1) s by (intro queue_move [OF queue_ready(1) [OF s_wait_break(4)]]) simp_all
next
  case (s_wait_stop z t n c s x)
  then show ?case using wait_break_spec(1,3) [OF s_wait_stop(3)] queue_stop [of z t n] by (simp add: sema_inv_def)
next
  case (s_wait_late z t n x)
  then have "x = ss_sem z" "t \<notin> set (sem_sq (ss_sem z))"
    by (auto simp: sema_unqueue_def unqueue_def split: if_splits)
  then show ?case by (intro queue_flags [OF s_wait_late(5), of t "{F_wait}"]) simp_all
next
  case (s_wait_timeout z t n x)
  then have "x = (ss_sem z)\<lparr>sem_sq := remove1 t (sem_sq (ss_sem z))\<rparr>" "t \<in> set (sem_sq (ss_sem z))"
    by (auto simp: sema_unqueue_def unqueue_def split: if_splits)
  then show ?case using s_wait_timeout queue_timeout [of z t n x] by (simp add: sema_inv_def)
next
  case (s_wait_enq z e n s x)
  then show ?case by (intro queue_enq) simp_all
next
  case (s_post_wake z e n s x)
  then show ?case by (intro queue_wake) simp_all
next
  case (s_other z s)
  then show ?case by (intro queue_other) (simp_all add: sema_inv_def)
next
  case (s_wait_undo z t s x)
  then have "t \<notin> set (sem_sq (ss_sem z)) \<and> t \<notin> ss_granted z"
    by (intro idle_not_queued) (simp_all add: sema_inv_def)
  then show ?case using queue_ready [OF s_wait_undo(3)] s_wait_undo(2) kernel_ready_gpr [unfolded set_gpr_def]
    by (intro queue_move [OF queue_ready(1) [OF s_wait_undo(3)]]) (auto simp: sema_undo_def set_gpr_def split: if_splits)
next
  case (s_wait_dec z t n x)
  then have "t \<notin> set (sem_sq (ss_sem z)) \<and> t \<notin> ss_granted z"
    by (intro idle_not_queued) (simp_all add: sema_inv_def)
  then show ?case using s_wait_dec sema_op_sq
    by (intro queue_flags [OF s_wait_dec(7), of t "{F_wait}"]) (auto simp: add_flags_def)
next
  case (s_post_again z t)
  then have "t \<notin> set (sem_sq (ss_sem z)) \<and> t \<notin> ss_granted z"
    by (intro idle_not_queued) (simp_all add: sema_inv_def)
  then show ?case by (intro queue_flags [OF s_post_again(4), of t "{F_again}"]) simp_all
qed (rule queue_local, assumption, blast, auto simp: sema_op_sq)+

lemma sema_inv_step: "sema_step z z' \<Longrightarrow> sema_inv i z \<Longrightarrow> sema_inv i z'"
  using lock_step tok_step queue_step by (meson sema_inv_def)

lemma sema_inv_start:
  assumes "kernel_ready s" "0 \<le> v" "v \<le> m" "0 < m" "m < 2 ^ 31"
  shows "sema_inv v (sema_start s (new_sema pr key name m v))"
  using assms by (simp add: sema_inv_defs sema_start_def new_sema_def val_ok_def held_def)

definition sema_runs :: "lv2 \<Rightarrow> lv2_sema \<Rightarrow> sema_sys \<Rightarrow> bool" where
  "sema_runs s x z \<longleftrightarrow> sema_step\<^sup>*\<^sup>* (sema_start s x) z"

lemma sema_runs_inv:
  assumes "kernel_ready s" "0 \<le> v" "v \<le> m" "0 < m" "m < 2 ^ 31" "sema_runs s (new_sema pr key name m v) z"
  shows "sema_inv v z"
  using assms(6) unfolding sema_runs_def
  by (induction rule: rtranclp_induct) (use sema_inv_start [OF assms(1-5)] sema_inv_step in blast)+

lemma sema_ensures:
  assumes i: "sema_inv i z"
  shows "ss_pc z (cur e) = S_enq n \<Longrightarrow> sema_enqueue e n (ss_lv2 z) (ss_sem z) \<noteq> None"
    and "ss_pc z t = S_expire \<Longrightarrow> sema_undo t (ss_lv2 z) (ss_sem z) \<noteq> None"
    and "ss_pc z (cur e) = S_wake n \<Longrightarrow> sema_wake e n (ss_lv2 z) (ss_sem z) \<noteq> None"
proof -
  have q: "queue_ok z" "kernel_ready (ss_lv2 z)" and p: "\<And>u. pc_ok z u (ss_pc z u)"
    using i by (auto simp: sema_inv_def queue_ok_def)
  have l: "critical (ss_pc z u) \<Longrightarrow> ss_lock z = Some u" for u using i by (simp add: sema_inv_def lock_ok_def)
  have v: "val_ok (sem_val (ss_sem z)) (length (sem_sq (ss_sem z))) (held z)" using i by (simp add: sema_inv_def tok_ok_def)
  show "sema_enqueue e n (ss_lv2 z) (ss_sem z) \<noteq> None" if "ss_pc z (cur e) = S_enq n"
    using sema_enqueue_spec [of "ss_lv2 z" e n "ss_sem z"] p [of "cur e"] q that by auto
  show "sema_undo t (ss_lv2 z) (ss_sem z) \<noteq> None" if "ss_pc z t = S_expire"
    using l [of t] that v by (auto simp: sema_undo_def val_ok_def held_def split: if_splits)
  show "sema_wake e n (ss_lv2 z) (ss_sem z) \<noteq> None" if "ss_pc z (cur e) = S_wake n"
  proof -
    have "n \<le> length (sem_sq (ss_sem z))" using l [of "cur e"] that v by (auto simp: val_ok_def held_def split: if_splits)
    then show ?thesis using sema_wake_spec [of "ss_lv2 z" "ss_sem z" n e] p [of "cur e"] q that
      by (auto simp: waiters_ok_def queue_ok_def sleeper_ok_def)
  qed
qed

section \<open>Properties\<close>

text \<open>C2: Units are conserved under every interleaving. Whenever no thread is inside \<^verbatim>\<open>sema.mutex\<close>, the
  units obtained by waiting threads plus the free units are the initial plus the posted ones, the value
  does not exceed the maximum, and the queue holds as many threads as the value is below zero.\<close>

theorem semaphore_conservation:
  assumes "kernel_ready s" "0 \<le> v" "v \<le> m" "0 < m" "m < 2 ^ 31"
    and "sema_runs s (new_sema pr key name m v) z" and "ss_lock z = None"
  shows "ss_taken z + max (sem_val (ss_sem z)) 0 = v + ss_posted z
    \<and> sem_val (ss_sem z) \<le> sem_max (ss_sem z)
    \<and> length (sem_sq (ss_sem z)) = nat (- sem_val (ss_sem z))"
  using sema_runs_inv [OF assms(1-6)] assms(7)
  by (auto simp: sema_inv_def tok_ok_def val_ok_def held_def split: if_splits)

lemma sema_run_sleep:
  assumes "kernel_ready s" "is_ppu t" "F_signal \<notin> flags_of s t"
  shows "\<exists>z. sema_runs s (new_sema pr key name m 0) z \<and> ss_lock z = None \<and> ss_pc z t = S_wait 0 \<and> ss_taken z = 0
    \<and> ss_posted z = 0 \<and> sem_val (ss_sem z) = -1 \<and> sem_sq (ss_sem z) = [t] \<and> sem_max (ss_sem z) = m
    \<and> (F_stop \<in> flags_of (ss_lv2 z) t \<longleftrightarrow> F_stop \<in> flags_of s t) \<and> (F_again \<in> flags_of (ss_lv2 z) t \<longleftrightarrow> F_again \<in> flags_of s t)
    \<and> ss_pc z = (\<lambda>_. S_idle)(t := S_wait 0)"
proof -
  define x0 where "x0 = new_sema pr key name m 0"
  define e where "e = \<lparr>cur = t, e_now = 0, e_tsc = 0\<rparr>"
  have x: "sema_dec x0 = (True, x0\<lparr>sem_val := - 1\<rparr>)" by (simp add: sema_dec_def new_sema_def s32_id x0_def)
  define z1 where "z1 = go t (S_enq 0) ((sema_start s x0)\<lparr>ss_lv2 := add_flags t {F_wait} (ss_lv2 (sema_start s x0)),
    ss_sem := x0\<lparr>sem_val := - 1\<rparr>, ss_lock := Some t\<rparr>)"
  have 1: "sema_step (sema_start s x0) z1"
    unfolding z1_def by (rule s_wait_dec) (use assms x in \<open>simp_all add: sema_start_def\<close>)
  have "kernel_ready (ss_lv2 z1)" "F_signal \<notin> flags_of (ss_lv2 z1) t"
    using assms by (auto simp: z1_def sema_start_def intro!: kernel_ready_flags)
  then obtain s1 s' where s': "sema_enqueue e 0 (ss_lv2 z1) (ss_sem z1) = Some (s', (ss_sem z1)\<lparr>sem_sq := t # sem_sq (ss_sem z1)\<rparr>)"
    "sched_frame (ss_lv2 z1) s1" "flags_of s' t = flags_of s1 t"
    using sema_enqueue_spec [of "ss_lv2 z1" e 0 "ss_sem z1"] assms(2) by (auto simp: e_def)
  have fl: "F_stop \<in> flags_of s' t \<longleftrightarrow> F_stop \<in> flags_of s t" "F_again \<in> flags_of s' t \<longleftrightarrow> F_again \<in> flags_of s t"
    using sched_frame_stop [OF s'(2), of t] sched_frame_again [OF s'(2), of t] s'(3)
    by (auto simp: z1_def sema_start_def add_flags_def)
  have "ss_pc z1 (cur e) = S_enq 0" by (simp add: z1_def e_def)
  then have 2: "sema_step z1 (go t (S_wait 0) (z1\<lparr>ss_lv2 := set_gpr t 3 CELL_OK s',
      ss_sem := (ss_sem z1)\<lparr>sem_sq := t # sem_sq (ss_sem z1)\<rparr>, ss_lock := None\<rparr>))" (is "sema_step z1 ?z2")
    using s_wait_enq [OF _ s'(1)] by (simp add: e_def)
  have "sema_runs s x0 ?z2" unfolding sema_runs_def using 1 2 by (meson converse_rtranclp_into_rtranclp r_into_rtranclp)
  then show ?thesis by (intro exI [of _ ?z2]) (simp add: fl, simp add: z1_def sema_start_def x0_def new_sema_def)
qed

theorem semaphore_conservation_witness:
  "\<exists>z. sema_runs (lv2_boot 2) (new_sema SYS_SYNC_FIFO 0 0 4 0) z \<and> ss_lock z = None \<and> sem_sq (ss_sem z) = [0x1000000]
     \<and> ss_taken z + max (sem_val (ss_sem z)) 0 = 0 + ss_posted z \<and> 1 = nat (- sem_val (ss_sem z))"
proof -
  have b: "kernel_ready (lv2_boot 2)" by (rule boot_ready)
  obtain z where z: "sema_runs (lv2_boot 2) (new_sema SYS_SYNC_FIFO 0 0 4 0) z" "ss_lock z = None" "sem_sq (ss_sem z) = [0x1000000]"
    using sema_run_sleep [OF b, of "0x1000000" SYS_SYNC_FIFO 0 0 4] by (auto simp: is_ppu_def id_type_def lv2_boot_def fresh_thread_def)
  then show ?thesis using semaphore_conservation [OF b _ _ _ _ z(1,2)] by auto
qed

lemma wait_position:
  assumes i: "sema_inv i z" and pc: "ss_pc z t = S_wait n"
  shows "if t \<in> set (sem_sq (ss_sem z)) then t \<notin> set (g_ppu (ss_lv2 z)) \<and> t \<notin> ss_granted z
    else t \<in> set (g_ppu (ss_lv2 z)) \<and> t \<in> ss_granted z"
proof -
  have "pc_ok z t (S_wait n)" using i pc by (metis queue_ok_def sema_inv_def)
  then show ?thesis using i by (auto simp: sema_inv_def queue_ok_def sleeper_ok_def)
qed

inductive_cases sema_stepE: "sema_step z z'"

lemma wait_exit:
  assumes i: "sema_inv i z" and st: "sema_step z z'" and r: "ss_pc z' t = S_ret r"
  shows "(\<exists>n. ss_pc z t = S_wait n) \<Longrightarrow> r = CELL_OK \<and> t \<in> ss_granted z"
    and "ss_pc z t = S_expire \<Longrightarrow> r = CELL_ETIMEDOUT \<and> t \<notin> ss_granted z \<and> ss_taken z' = ss_taken z"
proof -
  show "r = CELL_OK \<and> t \<in> ss_granted z" if "\<exists>n. ss_pc z t = S_wait n"
  proof -
    from that obtain n where n: "ss_pc z t = S_wait n" by blast
    then have p: "pc_ok z t (S_wait n)" using i by (metis queue_ok_def sema_inv_def)
    from st show ?thesis
    proof (cases rule: sema_step.cases)
      case (s_wait_break u m c s x)
      then show ?thesis using r n queue_leave [OF i, of u m c s x] by (auto split: if_splits)
    next
      case (s_wait_late u m x)
      then have "u \<notin> set (sem_sq (ss_sem z))" by (auto simp: sema_unqueue_def unqueue_def split: if_splits)
      then show ?thesis using s_wait_late r n p by (auto split: if_splits)
    qed (use r n in \<open>auto split: if_splits\<close>)
  qed
  show "r = CELL_ETIMEDOUT \<and> t \<notin> ss_granted z \<and> ss_taken z' = ss_taken z" if e: "ss_pc z t = S_expire"
  proof -
    have g: "t \<notin> ss_granted z" using idle_not_queued [OF queue_ready(1) [OF i], of t] e by simp
    from st show ?thesis
    proof (cases rule: sema_step.cases)
      case (s_wait_undo u s x)
      then show ?thesis using r e g by (auto simp: sema_undo_def split: if_splits)
    qed (use r e in \<open>auto split: if_splits\<close>)
  qed
qed


lemma sema_run_grant:
  assumes s: "kernel_ready s" "is_ppu t" "F_signal \<notin> flags_of s t" "F_again \<notin> flags_of s t" "F_stop \<in> flags_of s t"
    and m: "0 < m" "m < 2 ^ 31"
  shows "\<exists>z z'. sema_runs s (new_sema pr key name m 0) z \<and> sema_step z z' \<and> ss_pc z t = S_wait 0 \<and> (\<exists>r. ss_pc z' t = S_ret r)"
proof -
  obtain z1 where z1: "sema_runs s (new_sema pr key name m 0) z1" "ss_lock z1 = None" "sem_val (ss_sem z1) = -1"
    "sem_sq (ss_sem z1) = [t]" "sem_max (ss_sem z1) = m" "F_stop \<in> flags_of (ss_lv2 z1) t" "F_again \<notin> flags_of (ss_lv2 z1) t"
    "ss_pc z1 = (\<lambda>_. S_idle)(t := S_wait 0)" using sema_run_sleep [OF s(1-3), of pr key name m] s(4,5) by auto
  have i: "sema_inv 0 z1" using sema_runs_inv [OF s(1) _ _ _ _ z1(1)] m by simp
  define e where "e = \<lparr>cur = Suc t, e_now = 0, e_tsc = 0\<rparr>"
  have tk: "sema_take 1 (ss_sem z1) = (True, (ss_sem z1)\<lparr>sem_val := 0\<rparr>)"
    using sema_take_spec [of "ss_sem z1" 1] z1(3,5) m by simp
  have n: "sema_to_awake (- 1) 1 = 1" by (simp add: sema_to_awake_def)
  have st2: "sema_step z1 (go (Suc t) (S_wake 1) (z1\<lparr>ss_sem := (ss_sem z1)\<lparr>sem_val := 0\<rparr>, ss_lock := Some (Suc t), ss_posted := ss_posted z1 + 1\<rparr>))"
    (is "sema_step z1 ?z2") using s_post_take [of z1 "Suc t" 1] z1 tk n by (simp add: some_again_def)
  have w: "\<exists>s' ws q. sema_wake e 1 (ss_lv2 ?z2) (ss_sem ?z2) = Some (s', (ss_sem ?z2)\<lparr>sem_sq := q\<rparr>) \<and> length ws = 1
      \<and> distinct (ws @ q) \<and> set (ws @ q) = set (sem_sq (ss_sem ?z2)) \<and> sched_frame (ss_lv2 ?z2) s'"
    using sema_wake_spec [of "ss_lv2 ?z2" "ss_sem ?z2" 1 e] queue_ready(2) [OF i] z1 s(2)
    by (auto simp: waiters_ok_def some_again_def)
  then obtain s' q where s': "sema_wake e 1 (ss_lv2 ?z2) (ss_sem ?z2) = Some (s', (ss_sem ?z2)\<lparr>sem_sq := q\<rparr>)"
    "t \<notin> set q" "sched_frame (ss_lv2 ?z2) s'" using z1(4) by (auto simp: length_Suc_conv)
  have st3: "sema_step ?z2 (go (Suc t) (S_ret CELL_OK) (?z2\<lparr>ss_lv2 := s', ss_sem := (ss_sem ?z2)\<lparr>sem_sq := q\<rparr>, ss_lock := None,
      ss_taken := ss_taken ?z2 + 1, ss_granted := ss_granted ?z2 \<union> (set (sem_sq (ss_sem ?z2)) - set q)\<rparr>))"
    (is "sema_step ?z2 ?z3") using s_post_wake [OF _ s'(1)] by (simp add: e_def)
  have "\<exists>s4. wait_iter (\<lambda>t y. t \<in> set (sem_sq y)) sema_expire t False True (ss_lv2 ?z3) (ss_sem ?z3) = Some (W_break, s4, ss_sem ?z3)"
    using s'(2) z1(6) sched_frame_stop [OF s'(3), of t] by (auto simp: wait_iter_def is_stopped_def)
  then obtain z4 where "sema_step ?z3 z4" "\<exists>r. ss_pc z4 t = S_ret r"
    using s_wait_break [of ?z3 t 0 True] z1(8) by (auto simp: go_def)
  moreover have "sema_runs s (new_sema pr key name m 0) ?z3"
    using z1(1) st2 st3 unfolding sema_runs_def by (meson rtranclp.rtrancl_into_rtrancl)
  moreover have "ss_pc ?z3 t = S_wait 0" using z1(8) by simp
  ultimately show ?thesis by blast
qed


text \<open>C17: No \<^verbatim>\<open>ensure\<close> of the semaphore code fails, under any interleaving: the thread that goes to sleep,
  the one that undoes its decrement after a timeout and the one that wakes waiters all complete, and a
  post finds as many waiters in the queue as it has to wake.\<close>

theorem semaphore_never_stuck:
  fixes e :: env
  assumes "kernel_ready s" "0 \<le> v" "v \<le> m" "0 < m" "m < 2 ^ 31"
    and "sema_runs s (new_sema pr key name m v) z" and "ss_lock z = Some (cur e)"
  shows "\<exists>z'. sema_step z z' \<and> ss_lock z' = None"
proof -
  note i = sema_runs_inv [OF assms(1-6)]
  have "critical (ss_pc z (cur e))" using i assms(7) by (simp add: sema_inv_def lock_ok_def)
  then consider n where "ss_pc z (cur e) = S_enq n" | "ss_pc z (cur e) = S_expire" | n where "ss_pc z (cur e) = S_wake n"
    by (cases "ss_pc z (cur e)") auto
  then show ?thesis
  proof cases
    case (1 n)
    then show ?thesis using sema_ensures(1) [OF i] s_wait_enq [of z e n] by fastforce
  next
    case 2
    then show ?thesis using sema_ensures(2) [OF i] s_wait_undo [of z "cur e"] by fastforce
  next
    case (3 n)
    then show ?thesis using sema_ensures(3) [OF i] s_post_wake [of z e n] by fastforce
  qed
qed

theorem semaphore_never_stuck_witness:
  "\<exists>z z'. sema_runs (lv2_boot 2) (new_sema SYS_SYNC_FIFO 0 0 4 0) z \<and> ss_lock z = Some 0x1000000
     \<and> sema_step z z' \<and> ss_lock z' = None"
proof -
  define x0 where "x0 = new_sema SYS_SYNC_FIFO 0 0 4 0"
  have "\<exists>z. sema_step (sema_start (lv2_boot 2) x0) z \<and> ss_lock z = Some 0x1000000"
    using s_wait_dec [of "sema_start (lv2_boot 2) x0" "0x1000000" 0 "x0\<lparr>sem_val := - 1\<rparr>"]
    by (fastforce simp: sema_start_def x0_def new_sema_def sema_dec_def s32_id is_ppu_def id_type_def lv2_boot_def fresh_thread_def)
  then obtain z where z: "sema_runs (lv2_boot 2) x0 z" "ss_lock z = Some 0x1000000" unfolding sema_runs_def by blast
  show ?thesis
    using semaphore_never_stuck [OF boot_ready _ _ _ _ z(1) [unfolded x0_def], of "\<lparr>cur = 0x1000000, e_now = 0, e_tsc = 0\<rparr>"] z
    by (auto simp: x0_def)
qed

section \<open>Sequential behaviour of a post\<close>

definition sema_wf :: "lv2 \<Rightarrow> lv2_sema \<Rightarrow> bool" where
  "sema_wf s x \<longleftrightarrow> kernel_ready s \<and> waiters_ok (sem_sq x) \<and> 0 < sem_max x \<and> sem_max x < 2 ^ 31
     \<and> sem_val x \<le> sem_max x \<and> length (sem_sq x) = nat (- sem_val x)"

lemma sema_at_enter [simp]: "sema_at v (enter e k) = sema_at v k" "sema_at v (k\<lparr>sched := s\<rparr>) = sema_at v k"
  by (simp_all add: sema_at_def)

lemma sema_at_put: "sema_at v k = Some (p, x) \<Longrightarrow> sema_at v (put_sema p y k) = Some (p, y)"
  using obj_at_put [of sema_base_id v k p _ "O_sema y"] by (auto simp: sema_at_def put_sema_def split: option.splits lv2_object.splits)

lemma sema_post_slow_spec:
  assumes wf: "sema_wf s x" and a: "\<not> some_again s (sem_sq x)" and c: "0 < cnt" "cnt < 2 ^ 31"
  shows "if sem_max x - sem_val x < cnt then sema_post_slow e cnt s x = Some (CELL_EBUSY, s, x)
    else \<exists>s' q. sema_post_slow e cnt s x = Some (CELL_OK, s', x\<lparr>sem_val := sem_val x + cnt, sem_sq := q\<rparr>)
      \<and> sema_wf s' (x\<lparr>sem_val := sem_val x + cnt, sem_sq := q\<rparr>) \<and> set q \<subseteq> set (sem_sq x)
      \<and> set (g_ppu s') = (set (sem_sq x) - set q) \<union> set (g_ppu s)"
proof -
  have b: "- (2 ^ 24) \<le> sem_val x"
    using wf ppu_ids_bound [of "sem_sq x"] by (auto simp: sema_wf_def waiters_ok_def)
  have tk: "sema_take cnt x = (if cnt \<le> sem_max x - sem_val x then (True, x\<lparr>sem_val := sem_val x + cnt\<rparr>) else (False, x))"
    using sema_take_spec [of x cnt] b wf c by (simp add: sema_wf_def)
  show ?thesis
  proof (cases "sem_max x - sem_val x < cnt")
    case True
    then show ?thesis using tk a by (simp add: sema_post_slow_def)
  next
    case False
    define n where "n = sema_to_awake (sem_val x) cnt"
    define x1 where "x1 = x\<lparr>sem_val := sem_val x + cnt\<rparr>"
    have n: "n \<le> length (sem_sq x1)" "length (sem_sq x) - n = nat (- (sem_val x + cnt))"
      using wf c by (auto simp: n_def x1_def sema_to_awake_def sema_wf_def)
    obtain s' ws q where w: "sema_wake e n s x1 = Some (s', x1\<lparr>sem_sq := q\<rparr>)" "kernel_ready s'" "length ws = n"
      "distinct (ws @ q)" "set (ws @ q) = set (sem_sq x)" "set (g_ppu s') = set ws \<union> set (g_ppu s)"
      using sema_wake_spec [of s x1 n e] wf a n(1) by (auto simp: sema_wf_def x1_def)
    have "length (ws @ q) = length (sem_sq x)"
      using w(4,5) wf distinct_card [of "ws @ q"] distinct_card [of "sem_sq x"] by (simp only: sema_wf_def waiters_ok_def)
    then have "length q = nat (- (sem_val x + cnt))" using w(3) n by simp
    moreover have "set q \<subseteq> set (sem_sq x)" "set ws = set (sem_sq x) - set q" using w(4,5) by auto
    moreover have "sema_post_slow e cnt s x = Some (CELL_OK, s', x1\<lparr>sem_sq := q\<rparr>)"
      using a tk False w(1) by (simp add: sema_post_slow_def n_def [symmetric] x1_def [symmetric])
    ultimately show ?thesis using False w wf unfolding if_not_P [OF False]
      by (intro exI [of _ s'] exI [of _ q]) (auto simp: sema_wf_def waiters_ok_def x1_def)
  qed
qed

text \<open>\<^verbatim>\<open>sys_semaphore_post\<close> on a semaphore at rest. A count that is not positive is \<^verbatim>\<open>CELL_EINVAL\<close>, one
  that would exceed the maximum is \<^verbatim>\<open>CELL_EBUSY\<close>, and both leave the semaphore as it was; otherwise the
  value grows by the count, exactly the waiters that the new value does not account for leave the queue
  and become runnable, and nobody else does.\<close>

theorem semaphore_post_effect:
  fixes e :: env
  assumes "sema_at v k = Some (p, x)" and "sema_wf (sched k) x"
    and "\<forall>t\<in>set (sem_sq x). F_again \<notin> flags_of (sched k) t" and "cnt < 2 ^ 31"
  shows "\<exists>k'. (if cnt \<le> 0 then sys_semaphore_post e v cnt k = Some (CELL_EINVAL, k') \<and> sema_at v k' = Some (p, x)
     else if sem_max x - sem_val x < cnt
       then sys_semaphore_post e v cnt k = Some (CELL_EBUSY, k') \<and> sema_at v k' = Some (p, x)
     else sys_semaphore_post e v cnt k = Some (CELL_OK, k')
       \<and> (\<exists>q. sema_at v k' = Some (p, x\<lparr>sem_val := sem_val x + cnt, sem_sq := q\<rparr>)
            \<and> sema_wf (sched k') (x\<lparr>sem_val := sem_val x + cnt, sem_sq := q\<rparr>) \<and> set q \<subseteq> set (sem_sq x)
            \<and> set (g_ppu (sched k')) = (set (sem_sq x) - set q) \<union> set (g_ppu (sched k))))"
proof -
  define k1 where "k1 = enter e k"
  have at: "sema_at v k1 = Some (p, x)" using assms(1) by (simp add: k1_def)
  have wf: "sema_wf (sched k1) x" and g: "g_ppu (sched k1) = g_ppu (sched k)"
    using assms(2) enter_ready [of k e] by (auto simp: sema_wf_def k1_def)
  have na: "\<not> some_again (sched k1) (sem_sq x)" using assms(3) by (auto simp: some_again_def k1_def)
  show ?thesis
  proof (cases "sema_post_fast cnt x")
    case (Some x1)
    then have v: "0 \<le> sem_val x" "0 < cnt" "cnt \<le> sem_max x - sem_val x" "x1 = x\<lparr>sem_val := sem_val x + cnt\<rparr>"
      using wf by (auto simp: sema_post_fast_def sema_wf_def s32_id split: if_splits)
    then have "sem_sq x = []" "x1 = x\<lparr>sem_val := sem_val x + cnt, sem_sq := []\<rparr>" using wf by (auto simp: sema_wf_def)
    then show ?thesis using v wf g Some at sema_at_put [OF at, of x1]
      by (auto simp: sys_semaphore_post_def k1_def [symmetric] sema_wf_def put_sema_def)
  next
    case None
    show ?thesis
    proof (cases "cnt \<le> 0")
      case True
      then show ?thesis using at None by (simp add: sys_semaphore_post_def k1_def [symmetric])
    next
      case False
      then have "sys_semaphore_post e v cnt k
          = map_option (\<lambda>(err, s, x1). (err, put_sema p x1 (k1\<lparr>sched := s\<rparr>))) (sema_post_slow e cnt (sched k1) x)"
        using at None by (simp add: sys_semaphore_post_def k1_def [symmetric])
      then show ?thesis using sema_post_slow_spec [OF wf na, of cnt e] False assms(4) g sema_at_put [of v "k1\<lparr>sched := s\<rparr>" p x for s]
          sema_at_put [OF at] at by (auto simp: put_sema_def split: if_splits)
    qed
  qed
qed

section \<open>Creation and destruction\<close>

lemma sema_create_private:
  fixes e :: env
  assumes "kernel_inv k" "\<exists>i<8192. vec_data (ids k) ! i = None" "sa_pshared a = SYS_SYNC_NOT_PROCESS_SHARED"
    "sa_protocol a = SYS_SYNC_FIFO \<or> sa_protocol a = SYS_SYNC_PRIORITY" "0 \<le> i" "i \<le> m" "0 < m"
  obtains v k' where "sys_semaphore_create e True (Some a) i m k = Some (CELL_OK, Some v, k')" "kernel_inv k'"
    "sched k' = sched (enter e k)" "sema_at v k = None"
    "sema_at v k' = Some (store_top k, (new_sema (sa_protocol a) 0 (sa_name a) m i)\<lparr>obj_exists := 1\<rparr>)"
proof -
  define mk where "mk = (\<lambda>_::u32. O_sema (new_sema (sa_protocol a) 0 (sa_name a) m i))"
  have pl: "plain (mk w)" "get_exists (mk w) = 0" for w by (simp_all add: mk_def get_exists_def new_sema_def)
  have "kernel_inv (enter e k)" "\<exists>i<8192. vec_data (ids (enter e k)) ! i = None" using assms(1,2) by simp_all
  then show ?thesis
    by (rule create_private_at [OF _ good_bases(1) _ pl, where key = 0 and flags = "sa_flags a" and kz = True])
      (rule that, use assms(3-) in \<open>auto simp: sys_semaphore_create_def Let_def get_key_def mk_def sema_at_def set_exists_def\<close>)
qed

lemma sema_at_obj: "sema_at v k = Some (p, x) \<longleftrightarrow> obj_at sema_base_id v k = Some (p, O_sema x)"
  by (auto simp: sema_at_def split: option.splits lv2_object.splits)

lemma sema_destroy_spec:
  fixes e :: env
  assumes k: "kernel_inv k" and at: "sema_at v k = Some (p, x)"
  shows "if sem_val x < 0 then sys_semaphore_destroy e v k = (CELL_EBUSY, enter e k)
    else \<exists>k'. sys_semaphore_destroy e v k = (CELL_OK, k') \<and> kernel_inv k' \<and> sched k' = sched (enter e k) 
      \<and> idm_get (lv2_traits sema_base_id) v (ids k') = None"
proof -
  define f :: "nat \<Rightarrow> kernel \<Rightarrow> error_code \<times> kernel" where "f = (\<lambda>p k1. case store k1 p of
        Some (O_sema x) \<Rightarrow> if sem_val x < 0 then (CELL_EBUSY, k1) else (CELL_OK, on_id_destroy sema_base_id p (sem_key x) k1)
      | _ \<Rightarrow> (CELL_ESRCH, k1))"
  have o': "obj_at sema_base_id v (enter e k) = Some (p, O_sema x)" using at by (simp add: sema_at_obj)
  then have st: "store (enter e k) p = Some (O_sema x)" by (auto simp: obj_at_def split: option.splits)
  have k0: "kernel_inv (enter e k)" using k by simp
  show ?thesis
  proof (cases "sem_val x < 0")
    case True
    then show ?thesis using withdraw_busy [OF k0 good_bases(1) o', of f CELL_EBUSY] st
      by (simp add: sys_semaphore_destroy_def f_def)
  next
    case False
    have "f p (enter e k) = (CELL_OK, on_id_destroy sema_base_id p (sem_key x) (enter e k))"
      using False st by (simp add: f_def)
    with k0 good_bases(1) o' obtain k' where "withdraw_obj sema_base_id v f (enter e k) = (Some (p, CELL_OK), k')"
      "kernel_inv k'" "sched k' = sched (enter e k)" 
      "idm_get (lv2_traits sema_base_id) v (ids k') = None" by (rule withdraw_destroy)
    then show ?thesis using False by (simp add: sys_semaphore_destroy_def f_def)
  qed
qed


definition sample_attr :: sys_semaphore_attribute_t where
  "sample_attr = \<lparr>sa_protocol = SYS_SYNC_FIFO, sa_pshared = SYS_SYNC_NOT_PROCESS_SHARED, sa_ipc_key = 0, sa_flags = 0, sa_name = 0\<rparr>"


theorem semaphore_post_effect_witness:
  "\<exists>v k k'. sys_semaphore_create \<lparr>cur = 0x1000000, e_now = 0, e_tsc = 0\<rparr> True (Some sample_attr) 1 4 (boot_kernel 2) = Some (CELL_OK, Some v, k)
     \<and> sys_semaphore_post \<lparr>cur = 0x1000000, e_now = 0, e_tsc = 0\<rparr> v 2 k = Some (CELL_OK, k')
     \<and> map_option (\<lambda>(p, x). sem_val x) (sema_at v k') = Some 3"
proof -
  define e where "e = \<lparr>cur = 0x1000000, e_now = 0, e_tsc = 0\<rparr>"
  obtain v k where k: "sys_semaphore_create e True (Some sample_attr) 1 4 (boot_kernel 2) = Some (CELL_OK, Some v, k)"
    "sched k = sched (enter e (boot_kernel 2))"
    "sema_at v k = Some (store_top (boot_kernel 2), (new_sema SYS_SYNC_FIFO 0 0 4 1)\<lparr>obj_exists := 1\<rparr>)"
    by (rule sema_create_private [OF boot_kernel_inv(1) [of 2] boot_kernel_inv(3) [of 2], of sample_attr 1 4 e])
      (auto simp: sample_attr_def)
  have "kernel_ready (sched k)" using k(2) enter_ready [of "boot_kernel 2" e] boot_ready by (simp add: boot_kernel_def)
  then have w: "sema_wf (sched k) ((new_sema SYS_SYNC_FIFO 0 0 4 1)\<lparr>obj_exists := 1\<rparr>)"
    by (simp add: sema_wf_def new_sema_def waiters_ok_def)
  show ?thesis using semaphore_post_effect [OF k(3) w, where cnt = 2 and e = e] k(1) unfolding e_def [symmetric]
    by (auto simp: new_sema_def)
qed

end
