(* ===== verification/Sys_Mutex.thy ===== *)
theory Sys_Mutex
  imports Lv2_Object
begin

text \<open>
  Mutexes (\<^verbatim>\<open>kernel/cellos/include/cellos/sys_mutex.h\<close>, \<^verbatim>\<open>kernel/cellos/src/sys_mutex.cpp\<close>). The
  \<^verbatim>\<open>control\<close> word pairs the owner with the wait queue and is changed by compare-and-swap; whether a
  compare-and-swap succeeds is an argument. A thread enqueues itself in \<open>try_own\<close> before it calls
  \<^verbatim>\<open>sleep\<close>: when it is handed the mutex in between, \<^verbatim>\<open>cancel_sleep\<close> turns the sleep into a success. The
  relation \<open>mutex_step\<close> interleaves these phases for any number of threads. Storing into the raw owner
  word by \<^verbatim>\<open>reown\<close> and unlinking the node form one step, as both happen under \<^verbatim>\<open>mutex.mutex\<close> while the
  owner word is non-zero. Reservation notification has no counterpart.
\<close>

abbreviation SYS_SYNC_RECURSIVE :: u32 where "SYS_SYNC_RECURSIVE \<equiv> 0x10"
abbreviation SYS_SYNC_NOT_RECURSIVE :: u32 where "SYS_SYNC_NOT_RECURSIVE \<equiv> 0x20"

section \<open>Operations on a mutex\<close>

definition try_lock :: "bool \<Rightarrow> tid \<Rightarrow> lv2_mutex \<Rightarrow> error_code \<times> lv2_mutex" where
  "try_lock cas t x =
     (if mtx_owner x = 0 then if cas then (CELL_OK, x\<lparr>mtx_owner := t\<rparr>) else (CELL_EBUSY, x)
      else if mtx_owner x = t then
        if mtx_recursive x = SYS_SYNC_RECURSIVE then
          if lock_count x = 0xffffffff then (CELL_EKRESOURCE, x) else (CELL_OK, x\<lparr>lock_count := lock_count x + 1\<rparr>)
        else (CELL_EDEADLK, x)
      else (CELL_EBUSY, x))"

definition try_own :: "tid \<Rightarrow> lv2 \<Rightarrow> lv2_mutex \<Rightarrow> bool \<times> lv2 \<times> lv2_mutex" where
  "try_own t s x =
     (if mtx_owner x \<noteq> 0 then (False, stamp_order t s, x\<lparr>mtx_sq := t # mtx_sq x\<rparr>)
      else (True, s, x\<lparr>mtx_owner := t\<rparr>))"

definition try_unlock :: "bool \<Rightarrow> tid \<Rightarrow> lv2_mutex \<Rightarrow> error_code \<times> lv2_mutex" where
  "try_unlock cas t x =
     (if mtx_owner x \<noteq> t then (CELL_EPERM, x)
      else if lock_count x \<noteq> 0 then (CELL_OK, x\<lparr>lock_count := lock_count x - 1\<rparr>)
      else if mtx_sq x = [] \<and> cas then (CELL_OK, x\<lparr>mtx_owner := 0\<rparr>)
      else (CELL_EBUSY, x))"

definition reown :: "lv2 \<Rightarrow> lv2_mutex \<Rightarrow> tid option \<times> lv2_mutex" where
  "reown s x =
     (case schedule (ppus s) (mtx_protocol x) (mtx_sq x) of
        (None, _) \<Rightarrow> (None, x\<lparr>mtx_owner := 0\<rparr>)
      | (Some f, q) \<Rightarrow>
          (Some f, if F_again \<in> flags_of s f then x else x\<lparr>mtx_owner := f, mtx_sq := q\<rparr>))"

text \<open>The busy-waiting attempts of \<^verbatim>\<open>sys_mutex_lock\<close>; the list has one entry per attempt.\<close>

fun mutex_spin :: "bool list \<Rightarrow> tid \<Rightarrow> error_code \<Rightarrow> lv2_mutex \<Rightarrow> error_code \<times> lv2_mutex" where
  "mutex_spin [] t r x = (r, x)"
| "mutex_spin (cas # cs) t r x =
     (case try_lock cas t x of
        (r1, x1) \<Rightarrow> if r1 = CELL_OK \<or> mtx_sq x1 \<noteq> [] then (r1, x1) else mutex_spin cs t r1 x1)"

definition mutex_attempt :: "bool \<Rightarrow> bool list \<Rightarrow> tid \<Rightarrow> lv2_mutex \<Rightarrow> error_code \<times> lv2_mutex" where
  "mutex_attempt cas cs t x =
     (case try_lock cas t x of
        (r, x1) \<Rightarrow> if r = CELL_EBUSY \<and> mtx_sq x1 = [] then mutex_spin cs t r x1 else (r, x1))"

definition set_cancel_sleep :: "tid \<Rightarrow> int \<Rightarrow> lv2 \<Rightarrow> lv2" where
  "set_cancel_sleep t n s = upd_ppu t (\<lambda>p. p\<lparr>cancel_sleep := n\<rparr>) s"

definition mutex_sleep :: "env \<Rightarrow> nat \<Rightarrow> lv2 \<Rightarrow> (bool \<times> lv2) option" where
  "mutex_sleep e timeout s =
     map_option (\<lambda>(slept, s1). (slept, set_cancel_sleep (cur e) 0 s1)) (obj_sleep e timeout s)"

definition mutex_lock_slow :: "env \<Rightarrow> nat \<Rightarrow> lv2 \<Rightarrow> lv2_mutex \<Rightarrow> (bool \<times> lv2 \<times> lv2_mutex) option" where
  "mutex_lock_slow e timeout s x =
     (case try_own (cur e) (set_cancel_sleep (cur e) 1 s) x of
        (True, s1, x1) \<Rightarrow> Some (True, set_cancel_sleep (cur e) 0 s1, x1)
      | (False, s1, x1) \<Rightarrow> map_option (\<lambda>(slept, s2). (\<not> slept, s2, x1)) (mutex_sleep e timeout s1))"

definition mutex_wake :: "env \<Rightarrow> tid \<Rightarrow> lv2 \<Rightarrow> lv2 option" where
  "mutex_wake e f s =
     (if F_again \<in> flags_of s f then Some (add_flags (cur e) {F_again} s) else obj_awake e f s)"

definition mutex_unlock_slow :: "env \<Rightarrow> lv2 \<Rightarrow> lv2_mutex \<Rightarrow> (lv2 \<times> lv2_mutex) option" where
  "mutex_unlock_slow e s x =
     (case reown s x of
        (None, x1) \<Rightarrow> Some (s, x1)
      | (Some f, x1) \<Rightarrow> map_option (\<lambda>s1. (s1, x1)) (mutex_wake e f s))"

definition mutex_expire :: "tid \<Rightarrow> lv2 \<Rightarrow> lv2_mutex \<Rightarrow> (lv2 \<times> lv2_mutex) option" where
  "mutex_expire t s x =
     (if mtx_sq x = [] then Some (s, x)
      else case unqueue (mtx_sq x) t of
        (None, _) \<Rightarrow> Some (s, x)
      | (Some _, q) \<Rightarrow> Some (set_gpr t 3 CELL_ETIMEDOUT s, x\<lparr>mtx_sq := q\<rparr>))"

section \<open>System calls\<close>

record sys_mutex_attribute_t =
  ma_protocol :: u32
  ma_recursive :: u32
  ma_pshared :: u32
  ma_adaptive :: u32
  ma_ipc_key :: u64
  ma_flags :: u32
  ma_name :: u64

definition new_mutex :: "sys_mutex_attribute_t \<Rightarrow> u64 \<Rightarrow> lv2_mutex" where
  "new_mutex a key =
     \<lparr>obj_exists = 0, mtx_protocol = take_bit 8 (ma_protocol a), mtx_recursive = ma_recursive a,
      mtx_adaptive = ma_adaptive a, mtx_key = key, mtx_name = ma_name a, cond_count = 0, lock_count = 0,
      mtx_owner = 0, mtx_sq = []\<rparr>"

definition mutex_at :: "u32 \<Rightarrow> kernel \<Rightarrow> (nat \<times> lv2_mutex) option" where
  "mutex_at v k = (case obj_at mutex_base_id v k of Some (p, O_mutex x) \<Rightarrow> Some (p, x) | _ \<Rightarrow> None)"

definition put_mutex :: "nat \<Rightarrow> lv2_mutex \<Rightarrow> kernel \<Rightarrow> kernel" where
  "put_mutex p x k = k\<lparr>store := (store k)(p \<mapsto> O_mutex x)\<rparr>"

definition sys_mutex_create ::
    "env \<Rightarrow> bool \<Rightarrow> sys_mutex_attribute_t option \<Rightarrow> kernel \<Rightarrow> (error_code \<times> u32 option \<times> kernel) option" where
  "sys_mutex_create e id_ptr attr k =
     (let k1 = enter e k in
      case attr of
        None \<Rightarrow> Some (CELL_EFAULT, None, k1)
      | Some a \<Rightarrow>
          if \<not> id_ptr then Some (CELL_EFAULT, None, k1)
          else if ma_protocol a \<noteq> SYS_SYNC_FIFO \<and> ma_protocol a \<noteq> SYS_SYNC_PRIORITY
              \<and> ma_protocol a \<noteq> SYS_SYNC_PRIORITY_INHERIT then Some (CELL_EINVAL, None, k1)
          else if ma_recursive a \<noteq> SYS_SYNC_RECURSIVE \<and> ma_recursive a \<noteq> SYS_SYNC_NOT_RECURSIVE
            then Some (CELL_EINVAL, None, k1)
          else
            (case create mutex_base_id (ma_pshared a) (ma_ipc_key a) (ma_flags a)
                    (\<lambda>_. O_mutex (new_mutex a (get_key (ma_pshared a) (ma_ipc_key a)))) True k1 of
               None \<Rightarrow> None
             | Some (err, k2) \<Rightarrow>
                 if err \<noteq> 0 then Some (err, None, k2) else Some (CELL_OK, Some (last_id (ids k2)), k2)))"

definition sys_mutex_destroy :: "env \<Rightarrow> u32 \<Rightarrow> kernel \<Rightarrow> error_code \<times> kernel" where
  "sys_mutex_destroy e v k =
     (case withdraw_obj mutex_base_id v
             (\<lambda>p k1. case store k1 p of
                Some (O_mutex x) \<Rightarrow>
                  if mtx_owner x \<noteq> 0 then (CELL_EBUSY, k1)
                  else if cond_count x \<noteq> 0 then (CELL_EPERM, k1)
                  else (CELL_OK, on_id_destroy mutex_base_id p (mtx_key x) k1)
              | _ \<Rightarrow> (CELL_ESRCH, k1)) (enter e k) of
        (None, k1) \<Rightarrow> (CELL_ESRCH, k1)
      | (Some (p, err), k1) \<Rightarrow> (err, k1))"

definition sys_mutex_lock ::
    "env \<Rightarrow> u32 \<Rightarrow> nat \<Rightarrow> bool \<Rightarrow> bool list \<Rightarrow> kernel \<Rightarrow> (sys_result \<times> kernel) option" where
  "sys_mutex_lock e v timeout cas cs k =
     (let k1 = enter e k in
      case mutex_at v k1 of
        None \<Rightarrow> Some (Done CELL_ESRCH, k1)
      | Some (p, x) \<Rightarrow>
          (case mutex_attempt cas cs (cur e) x of
             (r, x1) \<Rightarrow>
               if r = CELL_EBUSY then
                 (case mutex_lock_slow e timeout (sched k1) x1 of
                    None \<Rightarrow> None
                  | Some (True, s, x2) \<Rightarrow> Some (Done CELL_OK, put_mutex p x2 (k1\<lparr>sched := s\<rparr>))
                  | Some (False, s, x2) \<Rightarrow>
                      Some (Blocked, put_mutex p x2 (k1\<lparr>sched := set_gpr (cur e) 3 CELL_OK s\<rparr>)))
               else Some (Done r, put_mutex p x1 k1)))"

definition sys_mutex_lock_iter ::
    "env \<Rightarrow> nat \<Rightarrow> nat \<Rightarrow> bool \<Rightarrow> bool \<Rightarrow> kernel \<Rightarrow> (wait_step \<times> kernel) option" where
  "sys_mutex_lock_iter e p timeout timed_out check_state k =
     (case store k p of
        Some (O_mutex x) \<Rightarrow>
          map_option (\<lambda>(w, s, x1). (w, put_mutex p x1 (k\<lparr>sched := s\<rparr>)))
            (wait_iter (\<lambda>t y. t \<in> set (mtx_sq y)) mutex_expire (cur e) (timeout \<noteq> 0 \<and> timed_out) check_state
               (sched k) x)
      | _ \<Rightarrow> None)"

definition sys_mutex_trylock :: "env \<Rightarrow> u32 \<Rightarrow> bool \<Rightarrow> kernel \<Rightarrow> error_code \<times> kernel" where
  "sys_mutex_trylock e v cas k =
     (let k1 = enter e k in
      case mutex_at v k1 of
        None \<Rightarrow> (CELL_ESRCH, k1)
      | Some (p, x) \<Rightarrow> (case try_lock cas (cur e) x of (r, x1) \<Rightarrow> (r, put_mutex p x1 k1)))"

definition sys_mutex_unlock :: "env \<Rightarrow> u32 \<Rightarrow> bool \<Rightarrow> kernel \<Rightarrow> (error_code \<times> kernel) option" where
  "sys_mutex_unlock e v cas k =
     (let k1 = enter e k in
      case mutex_at v k1 of
        None \<Rightarrow> Some (CELL_ESRCH, k1)
      | Some (p, x) \<Rightarrow>
          (case try_unlock cas (cur e) x of
             (r, x1) \<Rightarrow>
               if r = CELL_EBUSY
               then map_option (\<lambda>(s, x2). (CELL_OK, put_mutex p x2 (k1\<lparr>sched := s\<rparr>))) (mutex_unlock_slow e (sched k1) x1)
               else Some (r, put_mutex p x1 k1)))"

lemma ready_cancel [simp]: "kernel_ready s \<Longrightarrow> kernel_ready (set_cancel_sleep t n s)"
  unfolding set_cancel_sleep_def by (rule kernel_ready_upd) auto

end
