(* ===== verification/Mutex_Threads.thy ===== *)
theory Mutex_Threads
  imports Sys_Mutex
begin

text \<open>
  Any number of threads on one mutex, with the operations of \<open>Sys_Mutex\<close> cut at every point where
  another thread can run: between the failed \<^verbatim>\<open>try_lock\<close> and \<^verbatim>\<open>try_own\<close>, between enqueuing and
  \<^verbatim>\<open>sleep\<close>, between \<^verbatim>\<open>try_unlock\<close> and \<^verbatim>\<open>reown\<close>, and between \<^verbatim>\<open>reown\<close> and \<^verbatim>\<open>awake\<close>. \<open>mm_lock\<close> is
  \<^verbatim>\<open>mutex.mutex\<close>; \<open>mm_depth\<close> is ghost state: how often a thread has locked the mutex without unlocking
  it, as seen by the guest program.
\<close>

datatype mutex_pc =
    M_idle | M_own nat | M_sleep nat | M_wait nat | M_unlock | M_wake tid | M_ret u64 | M_again

record mutex_sys =
  mm_lv2 :: lv2
  mm_mtx :: lv2_mutex
  mm_lock :: "tid option"
  mm_pc :: "tid \<Rightarrow> mutex_pc"
  mm_depth :: "tid \<Rightarrow> nat"

definition mgo :: "tid \<Rightarrow> mutex_pc \<Rightarrow> mutex_sys \<Rightarrow> mutex_sys" where
  "mgo t pc z = z\<lparr>mm_pc := (mm_pc z)(t := pc)\<rparr>"

definition inc_depth :: "tid \<Rightarrow> mutex_sys \<Rightarrow> mutex_sys" where
  "inc_depth t z = z\<lparr>mm_depth := (mm_depth z)(t := mm_depth z t + 1)\<rparr>"

definition dec_depth :: "tid \<Rightarrow> mutex_sys \<Rightarrow> mutex_sys" where
  "dec_depth t z = z\<lparr>mm_depth := (mm_depth z)(t := mm_depth z t - 1)\<rparr>"

fun about_to_sleep :: "mutex_pc \<Rightarrow> bool" where
  "about_to_sleep (M_own _) = True"
| "about_to_sleep (M_sleep _) = True"
| "about_to_sleep _ = False"

text \<open>A thread that executes kernel code can go to sleep for \<open>n\<close> microseconds.\<close>

definition can_sleep :: "nat \<Rightarrow> lv2 \<Rightarrow> tid \<Rightarrow> bool" where
  "can_sleep n s t \<longleftrightarrow> is_ppu t \<and> t \<in> set (g_ppu s) \<and> unsignalled s t \<and> (n \<noteq> 0 \<longrightarrow> F_notify \<notin> flags_of s t)"

definition being_woken :: "mutex_sys \<Rightarrow> tid \<Rightarrow> bool" where
  "being_woken z t \<longleftrightarrow> (case mm_lock z of Some u \<Rightarrow> mm_pc z u = M_wake t | None \<Rightarrow> False)"

text \<open>
  What the rest of the system may do in between: it does not wake or signal the threads that sleep on
  the mutex, nor suspend a running thread past its acknowledgement, and leaves the registers of threads
  in a call and \<^verbatim>\<open>cancel_sleep\<close> alone; a runnable thread stays runnable.
\<close>

definition mutex_other :: "mutex_sys \<Rightarrow> lv2 \<Rightarrow> bool" where
  "mutex_other z s' \<longleftrightarrow> kernel_ready s'
     \<and> (\<forall>t. about_to_sleep (mm_pc z t) \<longrightarrow> unsignalled s' t \<and> cancel_sleep (ppus s' t) = cancel_sleep (ppus (mm_lv2 z) t)
          \<and> (F_notify \<in> flags_of s' t \<longrightarrow> F_notify \<in> flags_of (mm_lv2 z) t) \<and> (F_wait \<in> flags_of (mm_lv2 z) t \<longrightarrow> F_wait \<in> flags_of s' t))
     \<and> (\<forall>t. t \<in> set (mtx_sq (mm_mtx z)) \<or> being_woken z t \<longrightarrow>
          (t \<in> set (g_ppu s') \<longrightarrow> t \<in> set (g_ppu (mm_lv2 z)))
          \<and> (\<forall>f\<in>{F_signal, F_wait, F_again}. f \<in> flags_of s' t \<longleftrightarrow> f \<in> flags_of (mm_lv2 z) t))
     \<and> (\<forall>t. mm_pc z t \<noteq> M_idle \<longrightarrow> gpr_of s' t 3 = gpr_of (mm_lv2 z) t 3
          \<and> (t \<in> set (g_ppu (mm_lv2 z)) \<longrightarrow> t \<in> set (g_ppu s')))"

abbreviation queued_on :: "tid \<Rightarrow> lv2_mutex \<Rightarrow> bool" where
  "queued_on t y \<equiv> t \<in> set (mtx_sq y)"

inductive mutex_step :: "mutex_sys \<Rightarrow> mutex_sys \<Rightarrow> bool" where
  m_lock: "mm_pc z t = M_idle \<Longrightarrow> is_ppu t \<Longrightarrow> try_lock cas t (mm_mtx z) = (CELL_OK, x) \<Longrightarrow>
    mutex_step z (mgo t (M_ret CELL_OK) (inc_depth t (z\<lparr>mm_mtx := x\<rparr>)))"
| m_refused: "mm_pc z t = M_idle \<Longrightarrow> is_ppu t \<Longrightarrow> try_lock cas t (mm_mtx z) = (r, x) \<Longrightarrow> r \<noteq> CELL_OK \<Longrightarrow>
    mutex_step z (mgo t (M_ret (ucast r)) (z\<lparr>mm_mtx := x\<rparr>))"
| m_busy: "mm_pc z t = M_idle \<Longrightarrow> can_sleep n (mm_lv2 z) t \<Longrightarrow> try_lock cas t (mm_mtx z) = (CELL_EBUSY, x) \<Longrightarrow>
    mutex_step z (mgo t (M_own n)
      (z\<lparr>mm_mtx := x, mm_lv2 := set_cancel_sleep t 1 (add_flags t {F_wait} (mm_lv2 z))\<rparr>))"
| m_own: "mm_pc z t = M_own n \<Longrightarrow> try_own t (mm_lv2 z) (mm_mtx z) = (True, s, x) \<Longrightarrow>
    mutex_step z (mgo t (M_ret CELL_OK) (inc_depth t (z\<lparr>mm_mtx := x, mm_lv2 := set_cancel_sleep t 0 s\<rparr>)))"
| m_enqueue: "mm_pc z t = M_own n \<Longrightarrow> try_own t (mm_lv2 z) (mm_mtx z) = (False, s, x) \<Longrightarrow>
    mutex_step z (mgo t (M_sleep n) (z\<lparr>mm_mtx := x, mm_lv2 := s\<rparr>))"
| m_sleep: "mm_pc z (cur e) = M_sleep n \<Longrightarrow> mutex_sleep e n (mm_lv2 z) = Some (True, s) \<Longrightarrow>
    mutex_step z (mgo (cur e) (M_wait n) (z\<lparr>mm_lv2 := set_gpr (cur e) 3 CELL_OK s\<rparr>))"
| m_cancelled: "mm_pc z (cur e) = M_sleep n \<Longrightarrow> mutex_sleep e n (mm_lv2 z) = Some (False, s) \<Longrightarrow>
    mutex_step z (mgo (cur e) (M_ret CELL_OK) (inc_depth (cur e) (z\<lparr>mm_lv2 := s\<rparr>)))"
| m_break: "mm_pc z t = M_wait n \<Longrightarrow> mm_lock z = None \<or> \<not> is_stopped (flags_of (mm_lv2 z) t) \<Longrightarrow>
    wait_iter queued_on mutex_expire t False c (mm_lv2 z) (mm_mtx z) = Some (W_break, s, x) \<Longrightarrow>
    mutex_step z (mgo t (M_ret (gpr_of s t 3)) (inc_depth t (z\<lparr>mm_lv2 := s, mm_mtx := x\<rparr>)))"
| m_stop: "mm_pc z t = M_wait n \<Longrightarrow> mm_lock z = None \<Longrightarrow>
    wait_iter queued_on mutex_expire t False c (mm_lv2 z) (mm_mtx z) = Some (W_return, s, x) \<Longrightarrow>
    mutex_step z (mgo t M_again (z\<lparr>mm_lv2 := s, mm_mtx := x\<rparr>))"
| m_expire: "mm_pc z t = M_wait n \<Longrightarrow> n \<noteq> 0 \<Longrightarrow> mm_lock z = None \<Longrightarrow>
    mutex_expire t (add_flags t {F_wait} (mm_lv2 z)) (mm_mtx z) = Some (s, x) \<Longrightarrow>
    mutex_step z (mgo t (M_ret (gpr_of s t 3))
      ((if t \<in> set (mtx_sq (mm_mtx z)) then id else inc_depth t) (z\<lparr>mm_lv2 := s, mm_mtx := x\<rparr>)))"
| m_unlock: "mm_pc z t = M_idle \<Longrightarrow> is_ppu t \<Longrightarrow> try_unlock cas t (mm_mtx z) = (CELL_OK, x) \<Longrightarrow>
    mutex_step z (mgo t (M_ret CELL_OK) (dec_depth t (z\<lparr>mm_mtx := x\<rparr>)))"
| m_perm: "mm_pc z t = M_idle \<Longrightarrow> is_ppu t \<Longrightarrow> try_unlock cas t (mm_mtx z) = (CELL_EPERM, x) \<Longrightarrow>
    mutex_step z (mgo t (M_ret CELL_EPERM) (z\<lparr>mm_mtx := x\<rparr>))"
| m_unlock_busy: "mm_pc z t = M_idle \<Longrightarrow> is_ppu t \<Longrightarrow> try_unlock cas t (mm_mtx z) = (CELL_EBUSY, x) \<Longrightarrow>
    mutex_step z (mgo t M_unlock (z\<lparr>mm_mtx := x\<rparr>))"
| m_release: "mm_pc z t = M_unlock \<Longrightarrow> mm_lock z = None \<Longrightarrow> reown (mm_lv2 z) (mm_mtx z) = (None, x) \<Longrightarrow>
    mutex_step z (mgo t (M_ret CELL_OK) (dec_depth t (z\<lparr>mm_mtx := x\<rparr>)))"
| m_reown: "mm_pc z t = M_unlock \<Longrightarrow> mm_lock z = None \<Longrightarrow> reown (mm_lv2 z) (mm_mtx z) = (Some f, x) \<Longrightarrow>
    F_again \<notin> flags_of (mm_lv2 z) f \<Longrightarrow>
    mutex_step z (mgo t (M_wake f) (dec_depth t (z\<lparr>mm_mtx := x, mm_lock := Some t\<rparr>)))"
| m_reown_again: "mm_pc z t = M_unlock \<Longrightarrow> mm_lock z = None \<Longrightarrow> reown (mm_lv2 z) (mm_mtx z) = (Some f, x) \<Longrightarrow>
    F_again \<in> flags_of (mm_lv2 z) f \<Longrightarrow>
    mutex_step z (mgo t M_again (z\<lparr>mm_mtx := x, mm_lv2 := add_flags t {F_again} (mm_lv2 z)\<rparr>))"
| m_wake: "mm_pc z (cur e) = M_wake f \<Longrightarrow> mutex_wake e f (mm_lv2 z) = Some s \<Longrightarrow>
    mutex_step z (mgo (cur e) (M_ret CELL_OK) (z\<lparr>mm_lv2 := s, mm_lock := None\<rparr>))"
| m_return: "mm_pc z t = M_ret r \<Longrightarrow> mutex_step z (mgo t M_idle z)"
| m_other: "mutex_other z s \<Longrightarrow> mutex_step z (z\<lparr>mm_lv2 := s\<rparr>)"

definition mutex_start :: "lv2 \<Rightarrow> lv2_mutex \<Rightarrow> mutex_sys" where
  "mutex_start s x = \<lparr>mm_lv2 = s, mm_mtx = x, mm_lock = None, mm_pc = (\<lambda>_. M_idle), mm_depth = (\<lambda>_. 0)\<rparr>"

section \<open>Invariant\<close>

definition mlock_ok :: "mutex_sys \<Rightarrow> bool" where
  "mlock_ok z \<longleftrightarrow> (\<forall>t. (\<exists>f. mm_pc z t = M_wake f) \<longleftrightarrow> mm_lock z = Some t)"

text \<open>A thread in its wait loop that nobody has woken is not runnable and has no signal.\<close>

definition dozing :: "mutex_sys \<Rightarrow> tid \<Rightarrow> bool" where
  "dozing z t \<longleftrightarrow> t \<notin> set (g_ppu (mm_lv2 z)) \<and> F_signal \<notin> flags_of (mm_lv2 z) t \<and> F_wait \<in> flags_of (mm_lv2 z) t"

definition handed :: "mutex_sys \<Rightarrow> tid \<Rightarrow> bool" where
  "handed z t \<longleftrightarrow> mtx_owner (mm_mtx z) = t \<and> t \<noteq> 0 \<and> lock_count (mm_mtx z) = 0 \<and> t \<notin> set (mtx_sq (mm_mtx z))"

fun mpc_ok :: "mutex_sys \<Rightarrow> tid \<Rightarrow> mutex_pc \<Rightarrow> bool" where
  "mpc_ok z t (M_own n) =
     (can_sleep n (mm_lv2 z) t \<and> cancel_sleep (ppus (mm_lv2 z) t) = 1 \<and> F_wait \<in> flags_of (mm_lv2 z) t
      \<and> mtx_owner (mm_mtx z) \<noteq> t \<and> t \<notin> set (mtx_sq (mm_mtx z)))"
| "mpc_ok z t (M_sleep n) =
     (can_sleep n (mm_lv2 z) t \<and> F_wait \<in> flags_of (mm_lv2 z) t \<and> mm_depth z t = 0
      \<and> (if t \<in> set (mtx_sq (mm_mtx z)) then cancel_sleep (ppus (mm_lv2 z) t) = 1
         else handed z t \<and> cancel_sleep (ppus (mm_lv2 z) t) = (if being_woken z t then 1 else 2)))"
| "mpc_ok z t (M_wait n) =
     (is_ppu t \<and> gpr_of (mm_lv2 z) t 3 = CELL_OK \<and> mm_depth z t = 0
      \<and> (if t \<in> set (mtx_sq (mm_mtx z)) then dozing z t
         else handed z t \<and> (if being_woken z t then dozing z t else t \<in> set (g_ppu (mm_lv2 z)))))"
| "mpc_ok z t M_again = (t \<in> set (mtx_sq (mm_mtx z)) \<longrightarrow> dozing z t \<and> F_again \<in> flags_of (mm_lv2 z) t)"
| "mpc_ok z t M_unlock = (is_ppu t \<and> mtx_owner (mm_mtx z) = t \<and> lock_count (mm_mtx z) = 0 \<and> mm_depth z t = 1)"
| "mpc_ok z t (M_wake f) = (is_ppu f \<and> handed z f \<and> f \<noteq> t \<and> F_again \<notin> flags_of (mm_lv2 z) f
      \<and> (\<exists>n. mm_pc z f = M_sleep n \<or> mm_pc z f = M_wait n))"
| "mpc_ok z t _ = True"

fun in_queue_pc :: "mutex_pc \<Rightarrow> bool" where
  "in_queue_pc (M_sleep _) = True"
| "in_queue_pc (M_wait _) = True"
| "in_queue_pc M_again = True"
| "in_queue_pc _ = False"

definition owner_ok :: "mutex_sys \<Rightarrow> bool" where
  "owner_ok z \<longleftrightarrow> distinct (mtx_sq (mm_mtx z))
     \<and> (mtx_owner (mm_mtx z) = 0 \<longrightarrow> mtx_sq (mm_mtx z) = [] \<and> lock_count (mm_mtx z) = 0)
     \<and> (\<forall>t\<in>set (mtx_sq (mm_mtx z)). is_ppu t \<and> t \<noteq> mtx_owner (mm_mtx z) \<and> in_queue_pc (mm_pc z t))
     \<and> (\<forall>t. 0 < mm_depth z t \<longrightarrow> is_ppu t \<and> mtx_owner (mm_mtx z) = t \<and> mm_depth z t = unat (lock_count (mm_mtx z)) + 1)
     \<and> (\<forall>t. mtx_owner (mm_mtx z) = t \<and> t \<noteq> 0 \<and> mm_depth z t = 0 \<longrightarrow> (\<exists>n. mm_pc z t = M_sleep n \<or> mm_pc z t = M_wait n))"

definition mutex_inv :: "mutex_sys \<Rightarrow> bool" where
  "mutex_inv z \<longleftrightarrow> kernel_ready (mm_lv2 z) \<and> mlock_ok z \<and> owner_ok z \<and> (\<forall>t. mpc_ok z t (mm_pc z t))"

lemma mgo_sel [simp]:
  "mm_lv2 (mgo t pc z) = mm_lv2 z" "mm_mtx (mgo t pc z) = mm_mtx z" "mm_lock (mgo t pc z) = mm_lock z"
  "mm_pc (mgo t pc z) = (mm_pc z)(t := pc)" "mm_depth (mgo t pc z) = mm_depth z"
  "mm_lv2 (inc_depth t z) = mm_lv2 z" "mm_mtx (inc_depth t z) = mm_mtx z" "mm_lock (inc_depth t z) = mm_lock z"
  "mm_pc (inc_depth t z) = mm_pc z" "mm_depth (inc_depth t z) = (mm_depth z)(t := mm_depth z t + 1)"
  "mm_lv2 (dec_depth t z) = mm_lv2 z" "mm_mtx (dec_depth t z) = mm_mtx z" "mm_lock (dec_depth t z) = mm_lock z"
  "mm_pc (dec_depth t z) = mm_pc z" "mm_depth (dec_depth t z) = (mm_depth z)(t := mm_depth z t - 1)"
  by (simp_all add: mgo_def inc_depth_def dec_depth_def)

lemma owner_okD:
  assumes "owner_ok z"
  shows "distinct (mtx_sq (mm_mtx z))" "mtx_owner (mm_mtx z) = 0 \<Longrightarrow> mtx_sq (mm_mtx z) = [] \<and> lock_count (mm_mtx z) = 0"
    "t \<in> set (mtx_sq (mm_mtx z)) \<Longrightarrow> is_ppu t \<and> t \<noteq> mtx_owner (mm_mtx z) \<and> in_queue_pc (mm_pc z t)"
    "0 < mm_depth z t \<Longrightarrow> is_ppu t \<and> mtx_owner (mm_mtx z) = t \<and> mm_depth z t = unat (lock_count (mm_mtx z)) + 1"
    "mtx_owner (mm_mtx z) = t \<Longrightarrow> t \<noteq> 0 \<Longrightarrow> mm_depth z t = 0 \<Longrightarrow> \<exists>n. mm_pc z t = M_sleep n \<or> mm_pc z t = M_wait n"
  using assms unfolding owner_ok_def by blast+

lemma owner_okI:
  assumes "distinct (mtx_sq (mm_mtx z))" "mtx_owner (mm_mtx z) = 0 \<Longrightarrow> mtx_sq (mm_mtx z) = [] \<and> lock_count (mm_mtx z) = 0"
    "\<And>t. t \<in> set (mtx_sq (mm_mtx z)) \<Longrightarrow> is_ppu t \<and> t \<noteq> mtx_owner (mm_mtx z) \<and> in_queue_pc (mm_pc z t)"
    "\<And>t. 0 < mm_depth z t \<Longrightarrow> is_ppu t \<and> mtx_owner (mm_mtx z) = t \<and> mm_depth z t = unat (lock_count (mm_mtx z)) + 1"
    "\<And>t. mtx_owner (mm_mtx z) = t \<Longrightarrow> t \<noteq> 0 \<Longrightarrow> mm_depth z t = 0 \<Longrightarrow> \<exists>n. mm_pc z t = M_sleep n \<or> mm_pc z t = M_wait n"
  shows "owner_ok z"
  using assms unfolding owner_ok_def by blast

lemma mutex_invD:
  assumes "mutex_inv z"
  shows "kernel_ready (mm_lv2 z)" "mlock_ok z" "owner_ok z" "mpc_ok z t (mm_pc z t)"
  using assms by (auto simp: mutex_inv_def)

definition mlocal :: "tid \<Rightarrow> mutex_sys \<Rightarrow> mutex_sys \<Rightarrow> bool" where
  "mlocal t z z' \<longleftrightarrow> mm_lock z' = mm_lock z \<and> g_ppu (mm_lv2 z') = g_ppu (mm_lv2 z)
     \<and> (\<forall>v. v \<noteq> t \<longrightarrow> ppus (mm_lv2 z') v = ppus (mm_lv2 z) v \<and> mm_pc z' v = mm_pc z v \<and> mm_depth z' v = mm_depth z v
        \<and> (v \<in> set (mtx_sq (mm_mtx z')) \<longleftrightarrow> v \<in> set (mtx_sq (mm_mtx z)))
        \<and> (v \<noteq> 0 \<longrightarrow> (mtx_owner (mm_mtx z') = v \<longleftrightarrow> mtx_owner (mm_mtx z) = v))
        \<and> (v \<noteq> 0 \<and> mtx_owner (mm_mtx z) = v \<longrightarrow> lock_count (mm_mtx z') = lock_count (mm_mtx z)))"

lemma mlocal_woken:
  assumes "mlocal t z z'" "\<And>f. mm_pc z t \<noteq> M_wake f" "\<And>f. mm_pc z' t \<noteq> M_wake f"
  shows "being_woken z' v = being_woken z v"
proof -
  have "mm_pc z' u = M_wake v \<longleftrightarrow> mm_pc z u = M_wake v" for u using assms by (cases "u = t") (auto simp: mlocal_def)
  then show ?thesis using assms(1) by (simp add: being_woken_def mlocal_def split: option.split)
qed

lemma mlocal_ok:
  assumes l: "mlocal t z z'" and w: "\<And>f. mm_pc z t \<noteq> M_wake f" "\<And>f. mm_pc z' t \<noteq> M_wake f" "\<not> being_woken z t"
    and i: "mutex_inv z" and u: "u \<noteq> t"
  shows "mpc_ok z' u (mm_pc z u)"
proof -
  have same: "ppus (mm_lv2 z') u = ppus (mm_lv2 z) u" "mm_depth z' u = mm_depth z u" "g_ppu (mm_lv2 z') = g_ppu (mm_lv2 z)"
    "u \<in> set (mtx_sq (mm_mtx z')) \<longleftrightarrow> u \<in> set (mtx_sq (mm_mtx z))"
    "u \<noteq> 0 \<Longrightarrow> mtx_owner (mm_mtx z') = u \<longleftrightarrow> mtx_owner (mm_mtx z) = u"
    "u \<noteq> 0 \<Longrightarrow> mtx_owner (mm_mtx z) = u \<Longrightarrow> lock_count (mm_mtx z') = lock_count (mm_mtx z)"
    using l u by (auto simp: mlocal_def)
  have h: "handed z' v = handed z v" if "v \<noteq> t" for v using l that by (auto simp: handed_def mlocal_def)
  have cs: "can_sleep n (mm_lv2 z') u = can_sleep n (mm_lv2 z) u" "dozing z' u = dozing z u" for n
    using same by (auto simp: can_sleep_def unsignalled_def dozing_def)
  note b = mlocal_woken [OF l w(1,2)]
  note ok = mutex_invD(4) [OF i, of u]
  show ?thesis
  proof (cases "mm_pc z u")
    case (M_own n)
    then have "u \<noteq> 0" using ok by (auto simp: can_sleep_def dest: is_ppu_pos)
    then show ?thesis using M_own ok same cs by simp
  next
    case (M_wake f)
    then have "mm_lock z = Some u" using mutex_invD(2) [OF i] unfolding mlock_ok_def by blast
    then have "being_woken z f" using M_wake by (simp add: being_woken_def)
    then have "f \<noteq> t" using w(3) by auto
    then have "ppus (mm_lv2 z') f = ppus (mm_lv2 z) f" "mm_pc z' f = mm_pc z f" "handed z' f = handed z f"
      using l h by (simp_all add: mlocal_def)
    then show ?thesis using M_wake ok by simp
  next
    case M_unlock
    then have "u \<noteq> 0" using ok by (auto dest: is_ppu_pos)
    then show ?thesis using M_unlock ok same by simp
  next
    case (M_sleep n)
    then show ?thesis using ok same cs h [OF u] b by simp
  next
    case (M_wait n)
    then show ?thesis using ok same cs h [OF u] b by simp
  qed (use ok same cs in simp_all)
qed

lemma mlock_ok_pc:
  assumes "mlock_ok z" "mm_lock z' = mm_lock z" "\<And>u. u \<noteq> t \<Longrightarrow> mm_pc z' u = mm_pc z u"
    and "\<And>f. mm_pc z t \<noteq> M_wake f" "\<And>f. mm_pc z' t \<noteq> M_wake f"
  shows "mlock_ok z'"
  unfolding mlock_ok_def
proof
  fix v show "(\<exists>f. mm_pc z' v = M_wake f) \<longleftrightarrow> mm_lock z' = Some v"
    using assms by (cases "v = t") (auto simp: mlock_ok_def)
qed

lemma mlocal_inv:
  assumes l: "mlocal t z z'" and w: "\<And>f. mm_pc z t \<noteq> M_wake f" "\<And>f. mm_pc z' t \<noteq> M_wake f" "\<not> being_woken z t"
    and i: "mutex_inv z" and k: "kernel_ready (mm_lv2 z')" and o': "owner_ok z'" and pc: "mpc_ok z' t (mm_pc z' t)"
  shows "mutex_inv z'"
proof -
  have "mlock_ok z'" by (rule mlock_ok_pc [OF mutex_invD(2) [OF i], of z' t]) (use l w(1,2) in \<open>auto simp: mlocal_def\<close>)
  moreover have "mpc_ok z' u (mm_pc z' u)" for u
  proof (cases "u = t")
    case False
    then have "mm_pc z' u = mm_pc z u" using l by (simp add: mlocal_def)
    then show ?thesis using mlocal_ok [OF l w i False] by simp
  qed (use pc in simp)
  ultimately show ?thesis using k o' by (simp add: mutex_inv_def)
qed

text \<open>Steps that touch only the thread itself and the mutex.\<close>

lemma woken_pc:
  assumes "mutex_inv z" "being_woken z t"
  shows "\<exists>n. mm_pc z t = M_sleep n \<or> mm_pc z t = M_wait n"
proof -
  obtain u where "mm_pc z u = M_wake t" using assms(2) by (auto simp: being_woken_def split: option.splits)
  then show ?thesis using mutex_invD(4) [OF assms(1), of u] by simp
qed

lemma idle_facts:
  assumes "mutex_inv z" "mm_pc z t = M_idle"
  shows "\<not> being_woken z t" "t \<notin> set (mtx_sq (mm_mtx z))" "mtx_owner (mm_mtx z) = t \<Longrightarrow> t \<noteq> 0 \<Longrightarrow> 0 < mm_depth z t"
proof -
  show "\<not> being_woken z t" using woken_pc [OF assms(1), of t] assms(2) by auto
  show "t \<notin> set (mtx_sq (mm_mtx z))" using mutex_invD(3) [OF assms(1)] assms(2) by (auto simp: owner_ok_def)
  show "0 < mm_depth z t" if "mtx_owner (mm_mtx z) = t" "t \<noteq> 0"
    using mutex_invD(3) [OF assms(1)] assms(2) that by (force simp: owner_ok_def)
qed

lemma depth_unique: "owner_ok z \<Longrightarrow> mtx_owner (mm_mtx z) \<noteq> t \<Longrightarrow> mm_depth z t = 0"
  using owner_okD(4) by blast

lemma step_lock:
  assumes i: "mutex_inv z" and pc: "mm_pc z t = M_idle" and p: "is_ppu t" and op: "try_lock cas t (mm_mtx z) = (CELL_OK, x)"
  shows "mutex_inv (mgo t (M_ret CELL_OK) (inc_depth t (z\<lparr>mm_mtx := x\<rparr>)))" (is "mutex_inv ?z")
proof (rule mlocal_inv [OF _ _ _ _ i])
  note f = idle_facts [OF i pc] and o' = mutex_invD(3) [OF i] and t0 = is_ppu_pos [OF p]
  note oD = owner_okD [OF o'] and du = depth_unique [OF o']
  show "owner_ok ?z"
  proof (cases "mtx_owner (mm_mtx z) = 0")
    case True
    then have "x = (mm_mtx z)\<lparr>mtx_owner := t\<rparr>" using op by (auto simp: try_lock_def split: if_splits)
    moreover have "mm_depth z u = 0" for u using True oD(4) [of u] is_ppu_pos by fastforce
    ultimately show ?thesis using oD(2) f True t0 p by (intro owner_okI) (auto split: if_splits)
  next
    case False
    then have x: "mtx_owner (mm_mtx z) = t" "lock_count (mm_mtx z) \<noteq> 0xffffffff" "x = (mm_mtx z)\<lparr>lock_count := lock_count (mm_mtx z) + 1\<rparr>"
      using op by (auto simp: try_lock_def split: if_splits)
    have "0 < mm_depth z t" using f(3) x(1) t0 by simp
    then have d: "mm_depth z t = unat (lock_count (mm_mtx z)) + 1" using oD(4) by blast
    show ?thesis
    proof (rule owner_okI)
      fix u assume "0 < mm_depth ?z u"
      then have "u = t" using du x(1) by (auto split: if_splits)
      then show "is_ppu u \<and> mtx_owner (mm_mtx ?z) = u \<and> mm_depth ?z u = unat (lock_count (mm_mtx ?z)) + 1"
        using p x d unat_inc [OF x(2)] by simp
    next
      fix u assume "mtx_owner (mm_mtx ?z) = u" "mm_depth ?z u = 0"
      then show "\<exists>n. mm_pc ?z u = M_sleep n \<or> mm_pc ?z u = M_wait n" using x by simp
    next
      fix u assume "u \<in> set (mtx_sq (mm_mtx ?z))"
      then show "is_ppu u \<and> u \<noteq> mtx_owner (mm_mtx ?z) \<and> in_queue_pc (mm_pc ?z u)" using oD(3) [of u] x(3) f(2) by auto
    qed (use oD(1) x t0 in simp_all)
  qed
  show "mlocal t z ?z" using op t0 by (auto simp: mlocal_def try_lock_def split: if_splits)
qed (use idle_facts [OF i pc] pc mutex_invD(1) [OF i] in auto)

lemma owner_ok_pc:
  assumes "owner_ok z" "mm_mtx z' = mm_mtx z" "mm_depth z' = mm_depth z"
    and "\<And>u. u \<noteq> t \<Longrightarrow> mm_pc z' u = mm_pc z u" "t \<in> set (mtx_sq (mm_mtx z)) \<Longrightarrow> in_queue_pc (mm_pc z' t)"
    and "mtx_owner (mm_mtx z) = t \<Longrightarrow> t \<noteq> 0 \<Longrightarrow> mm_depth z t = 0 \<Longrightarrow> \<exists>n. mm_pc z' t = M_sleep n \<or> mm_pc z' t = M_wait n"
  shows "owner_ok z'"
proof (rule owner_okI)
  note oD = owner_okD [OF assms(1)]
  fix u show "u \<in> set (mtx_sq (mm_mtx z')) \<Longrightarrow> is_ppu u \<and> u \<noteq> mtx_owner (mm_mtx z') \<and> in_queue_pc (mm_pc z' u)"
    using oD(3) [of u] assms(2,4,5) by (cases "u = t") auto
  show "\<exists>n. mm_pc z' u = M_sleep n \<or> mm_pc z' u = M_wait n" if "mtx_owner (mm_mtx z') = u" "u \<noteq> 0" "mm_depth z' u = 0"
    using oD(5) [of u] assms(2-4,6) that by (cases "u = t") auto
qed (use owner_okD [OF assms(1)] assms(2,3) in auto)

lemma idle_owner_ok:
  assumes "mutex_inv z" "mm_pc z t = M_idle" "mm_mtx z' = mm_mtx z" "mm_depth z' = mm_depth z"
    and "\<And>u. u \<noteq> t \<Longrightarrow> mm_pc z' u = mm_pc z u"
  shows "owner_ok z'"
proof (rule owner_ok_pc [where t = t])
  note f = idle_facts [OF assms(1,2)]
  show "t \<in> set (mtx_sq (mm_mtx z)) \<Longrightarrow> in_queue_pc (mm_pc z' t)" using f(2) by simp
  show "mtx_owner (mm_mtx z) = t \<Longrightarrow> t \<noteq> 0 \<Longrightarrow> mm_depth z t = 0 \<Longrightarrow> \<exists>n. mm_pc z' t = M_sleep n \<or> mm_pc z' t = M_wait n"
    using f(3) by simp
qed (use assms mutex_invD(3) [OF assms(1)] in auto)

lemma try_lock_fail: "try_lock cas t x = (r, y) \<Longrightarrow> r \<noteq> CELL_OK \<Longrightarrow> y = x"
  by (auto simp: try_lock_def split: if_splits)

lemma try_lock_busy: "try_lock cas t x = (CELL_EBUSY, y) \<Longrightarrow> t \<noteq> 0 \<Longrightarrow> mtx_owner x \<noteq> t \<and> y = x"
  by (auto simp: try_lock_def split: if_splits)

text \<open>A thread in no call moves on without touching the mutex.\<close>

lemma step_idle:
  assumes i: "mutex_inv z" and pc: "mm_pc z t = M_idle" and m: "\<And>f. pc' \<noteq> M_wake f" "mpc_ok (mgo t pc' z) t pc'"
  shows "mutex_inv (mgo t pc' z)"
proof (rule mlocal_inv [OF _ _ _ _ i])
  show "owner_ok (mgo t pc' z)" using idle_owner_ok [OF i pc] by simp
qed (use m pc idle_facts [OF i pc] mutex_invD(1) [OF i] in \<open>auto simp: mlocal_def\<close>)

lemma step_busy:
  assumes i: "mutex_inv z" and pc: "mm_pc z t = M_idle" and c: "can_sleep n (mm_lv2 z) t"
    and op: "try_lock cas t (mm_mtx z) = (CELL_EBUSY, x)"
  shows "mutex_inv (mgo t (M_own n) (z\<lparr>mm_mtx := x, mm_lv2 := set_cancel_sleep t 1 (add_flags t {F_wait} (mm_lv2 z))\<rparr>))"
    (is "mutex_inv ?z")
proof (rule mlocal_inv [OF _ _ _ _ i])
  have x: "mtx_owner (mm_mtx z) \<noteq> t" "x = mm_mtx z" using try_lock_busy [OF op] c by (auto simp: can_sleep_def dest: is_ppu_pos)
  show "owner_ok ?z" using idle_owner_ok [OF i pc] x by simp
  show "mlocal t z ?z" by (simp add: mlocal_def x set_cancel_sleep_def add_flags_def)
  show "kernel_ready (mm_lv2 ?z)" using mutex_invD(1) [OF i] by (simp add: kernel_ready_flags)
  show "mpc_ok ?z t (mm_pc ?z t)"
    using c x idle_facts(2) [OF i pc] by (auto simp: can_sleep_def unsignalled_def set_cancel_sleep_def add_flags_def)
qed (use pc idle_facts [OF i pc] in auto)

lemma own_facts:
  assumes "mutex_inv z" "mm_pc z t = M_own n"
  shows "\<not> being_woken z t" "mpc_ok z t (M_own n)" "mm_depth z t = 0" "is_ppu t"
proof -
  show m: "mpc_ok z t (M_own n)" using mutex_invD(4) [OF assms(1), of t] assms(2) by simp
  show "\<not> being_woken z t" using woken_pc [OF assms(1), of t] assms(2) by auto
  show "mm_depth z t = 0" using m depth_unique [OF mutex_invD(3) [OF assms(1)]] by simp
  show "is_ppu t" using m by (simp add: can_sleep_def)
qed

lemma step_own:
  assumes i: "mutex_inv z" and pc: "mm_pc z t = M_own n" and op: "try_own t (mm_lv2 z) (mm_mtx z) = (True, s, x)"
  shows "mutex_inv (mgo t (M_ret CELL_OK) (inc_depth t (z\<lparr>mm_mtx := x, mm_lv2 := set_cancel_sleep t 0 s\<rparr>)))" (is "mutex_inv ?z")
proof (rule mlocal_inv [OF _ _ _ _ i])
  note f = own_facts [OF i pc] and oD = owner_okD [OF mutex_invD(3) [OF i]]
  have x: "mtx_owner (mm_mtx z) = 0" "s = mm_lv2 z" "x = (mm_mtx z)\<lparr>mtx_owner := t\<rparr>" using op by (auto simp: try_own_def split: if_splits)
  have d: "mm_depth z u = 0" for u using x(1) oD(4) [of u] is_ppu_pos by fastforce
  have t0: "0 < t" using f(4) by (rule is_ppu_pos)
  show "owner_ok ?z" using oD(2) x d f(4) t0 by (intro owner_okI) (auto split: if_splits)
  show "mlocal t z ?z" using x t0 by (simp add: mlocal_def set_cancel_sleep_def)
  show "kernel_ready (mm_lv2 ?z)" using mutex_invD(1) [OF i] x by simp
qed (use pc own_facts [OF i pc] in auto)

lemma step_enqueue:
  assumes i: "mutex_inv z" and pc: "mm_pc z t = M_own n" and op: "try_own t (mm_lv2 z) (mm_mtx z) = (False, s, x)"
  shows "mutex_inv (mgo t (M_sleep n) (z\<lparr>mm_mtx := x, mm_lv2 := s\<rparr>))" (is "mutex_inv ?z")
proof (rule mlocal_inv [OF _ _ _ _ i])
  note f = own_facts [OF i pc] and oD = owner_okD [OF mutex_invD(3) [OF i]]
  have x: "mtx_owner (mm_mtx z) \<noteq> 0" "s = stamp_order t (mm_lv2 z)" "x = (mm_mtx z)\<lparr>mtx_sq := t # mtx_sq (mm_mtx z)\<rparr>"
    using op by (auto simp: try_own_def split: if_splits)
  show "owner_ok ?z"
  proof (rule owner_okI)
    fix u assume "u \<in> set (mtx_sq (mm_mtx ?z))"
    then show "is_ppu u \<and> u \<noteq> mtx_owner (mm_mtx ?z) \<and> in_queue_pc (mm_pc ?z u)"
      using oD(3) [of u] f(2,4) x by (cases "u = t") auto
  next
    fix u assume "mtx_owner (mm_mtx ?z) = u" "u \<noteq> 0" "mm_depth ?z u = 0"
    then show "\<exists>n. mm_pc ?z u = M_sleep n \<or> mm_pc ?z u = M_wait n" using oD(5) [of u] x by (cases "u = t") auto
  qed (use oD(1,4) x f in auto)
  show "mlocal t z ?z" using x by (auto simp: mlocal_def stamp_order_def)
  show "kernel_ready (mm_lv2 ?z)" using mutex_invD(1) [OF i] x by simp
  show "mpc_ok ?z t (mm_pc ?z t)"
    using f(2,3) x by (auto simp: can_sleep_def unsignalled_def stamp_order_def)
qed (use pc own_facts [OF i pc] in auto)

text \<open>A thread in its wait loop: queued and asleep, or handed the mutex.\<close>

lemma wait_facts:
  assumes "mutex_inv z" "mm_pc z t = M_wait n"
  shows "mpc_ok z t (M_wait n)" "mm_depth z t = 0" "is_ppu t" "0 < t"
    "mm_lock z = None \<Longrightarrow> \<not> being_woken z t"
proof -
  show m: "mpc_ok z t (M_wait n)" using mutex_invD(4) [OF assms(1), of t] assms(2) by simp
  show "mm_depth z t = 0" "is_ppu t" using m by simp_all
  then show "0 < t" by (intro is_ppu_pos)
qed (simp add: being_woken_def)

lemma wait_iter_spec:
  assumes "wait_iter q f t False c s x = Some (w, s', x')"
  shows "x' = x" and "w = W_break \<Longrightarrow> s' = del_flags t {F_signal} s \<or> s' = s"
    and "w = W_return \<Longrightarrow> s' = add_flags t {F_again} s \<and> q t x"
    and "w = W_break \<Longrightarrow> flags_of s t = {} \<or> F_signal \<in> flags_of s t \<or> is_stopped (flags_of s t) \<and> \<not> q t x"
  using assms by (auto simp: wait_iter_def split: if_splits)

lemma wait_leave:
  assumes i: "mutex_inv z" and pc: "mm_pc z t = M_wait n" and l: "mm_lock z = None \<or> \<not> is_stopped (flags_of (mm_lv2 z) t)"
    and op: "wait_iter queued_on mutex_expire t False c (mm_lv2 z) (mm_mtx z) = Some (W_break, s, x)"
  shows "t \<notin> set (mtx_sq (mm_mtx z))" "\<not> being_woken z t" "handed z t" "gpr_of s t 3 = CELL_OK"
proof -
  note m = wait_facts(1) [OF i pc] and sp = wait_iter_spec [OF op]
  have nd: "\<not> dozing z t \<or> is_stopped (flags_of (mm_lv2 z) t) \<and> t \<notin> set (mtx_sq (mm_mtx z))"
    using sp(4) by (auto simp: dozing_def)
  have "t \<in> set (mtx_sq (mm_mtx z)) \<Longrightarrow> dozing z t" using m by simp
  then show q: "t \<notin> set (mtx_sq (mm_mtx z))" using nd by blast
  have "being_woken z t \<Longrightarrow> dozing z t" using m q by simp
  then show "\<not> being_woken z t" using nd l wait_facts(5) [OF i pc] by blast
  show "handed z t" using m q by simp
  show "gpr_of s t 3 = CELL_OK" using m sp(2) by (auto simp: del_flags_def)
qed

text \<open>A thread that was handed the mutex returns from the call.\<close>

lemma step_obtain:
  assumes i: "mutex_inv z" and h: "handed z t" "mm_depth z t = 0" "is_ppu t" "\<not> being_woken z t" "\<And>f. mm_pc z t \<noteq> M_wake f"
    and s: "kernel_ready s" "g_ppu s = g_ppu (mm_lv2 z)" "\<And>u. u \<noteq> t \<Longrightarrow> ppus s u = ppus (mm_lv2 z) u"
  shows "mutex_inv (mgo t (M_ret r) (inc_depth t (z\<lparr>mm_lv2 := s, mm_mtx := mm_mtx z\<rparr>)))" (is "mutex_inv ?z")
proof (rule mlocal_inv [OF _ _ _ _ i])
  note oD = owner_okD [OF mutex_invD(3) [OF i]]
  show "owner_ok ?z"
  proof (rule owner_okI)
    fix u assume "0 < mm_depth ?z u"
    then show "is_ppu u \<and> mtx_owner (mm_mtx ?z) = u \<and> mm_depth ?z u = unat (lock_count (mm_mtx ?z)) + 1"
      using h oD(4) [of u] by (cases "u = t") (auto simp: handed_def)
  next
    fix u assume "u \<in> set (mtx_sq (mm_mtx ?z))"
    then show "is_ppu u \<and> u \<noteq> mtx_owner (mm_mtx ?z) \<and> in_queue_pc (mm_pc ?z u)" using oD(3) [of u] h(1) by (auto simp: handed_def)
  next
    fix u assume "mtx_owner (mm_mtx ?z) = u" "u \<noteq> 0" "mm_depth ?z u = 0"
    then show "\<exists>n. mm_pc ?z u = M_sleep n \<or> mm_pc ?z u = M_wait n" using h(1) by (simp add: handed_def)
  qed (use oD(1,2) in auto)
  show "mlocal t z ?z" using s by (auto simp: mlocal_def)
qed (use h s in auto)

lemma step_stop:
  assumes i: "mutex_inv z" and pc: "mm_pc z t = M_wait n" and l: "mm_lock z = None" and q: "t \<in> set (mtx_sq (mm_mtx z))"
  shows "mutex_inv (mgo t M_again (z\<lparr>mm_lv2 := add_flags t {F_again} (mm_lv2 z), mm_mtx := mm_mtx z\<rparr>))" (is "mutex_inv ?z")
proof (rule mlocal_inv [OF _ _ _ _ i])
  note f = wait_facts [OF i pc]
  have "mtx_owner (mm_mtx z) \<noteq> t" using owner_okD(3) [OF mutex_invD(3) [OF i] q] by simp
  then show "owner_ok ?z" by (intro owner_ok_pc [OF mutex_invD(3) [OF i], where t = t]) auto
  show "mlocal t z ?z" by (simp add: mlocal_def add_flags_def)
  show "kernel_ready (mm_lv2 ?z)" using mutex_invD(1) [OF i] by (simp add: kernel_ready_flags)
  show "mpc_ok ?z t (mm_pc ?z t)" using f(1) q by (simp add: dozing_def add_flags_def)
qed (use pc l wait_facts(5) [OF i pc] in auto)

lemma step_timeout:
  assumes i: "mutex_inv z" and pc: "mm_pc z t = M_wait n" and l: "mm_lock z = None" and q: "t \<in> set (mtx_sq (mm_mtx z))"
    and x: "x = (mm_mtx z)\<lparr>mtx_sq := remove1 t (mtx_sq (mm_mtx z))\<rparr>"
  shows "mutex_inv (mgo t (M_ret r) (z\<lparr>mm_lv2 := set_gpr t 3 v (add_flags t {F_wait} (mm_lv2 z)), mm_mtx := x\<rparr>))" (is "mutex_inv ?z")
proof (rule mlocal_inv [OF _ _ _ _ i])
  note f = wait_facts [OF i pc] and oD = owner_okD [OF mutex_invD(3) [OF i]]
  have no: "mtx_owner (mm_mtx z) \<noteq> t" using oD(3) [OF q] by simp
  have r: "set (mtx_sq x) = set (mtx_sq (mm_mtx z)) - {t}" using oD(1) x by simp
  show "owner_ok ?z"
  proof (rule owner_okI)
    fix u assume "u \<in> set (mtx_sq (mm_mtx ?z))"
    then show "is_ppu u \<and> u \<noteq> mtx_owner (mm_mtx ?z) \<and> in_queue_pc (mm_pc ?z u)" using oD(3) [of u] r x by auto
  next
    fix u assume "mtx_owner (mm_mtx ?z) = u" "u \<noteq> 0" "mm_depth ?z u = 0"
    then show "\<exists>n. mm_pc ?z u = M_sleep n \<or> mm_pc ?z u = M_wait n" using oD(5) [of u] no x by auto
  qed (use oD(1,2,4) x in auto)
  show "mlocal t z ?z" using r x by (auto simp: mlocal_def set_gpr_def add_flags_def)
  show "kernel_ready (mm_lv2 ?z)" using mutex_invD(1) [OF i] by (simp add: kernel_ready_flags)
qed (use pc l wait_facts(5) [OF i pc] in auto)

text \<open>Unlocking.\<close>

lemma owner_idle:
  assumes i: "mutex_inv z" and pc: "mm_pc z t = M_idle" and t: "is_ppu t" "mtx_owner (mm_mtx z) = t"
  shows "mm_depth z t = unat (lock_count (mm_mtx z)) + 1"
  using idle_facts(3) [OF i pc t(2)] is_ppu_pos [OF t(1)] owner_okD(4) [OF mutex_invD(3) [OF i], of t] by simp

text \<open>The owner gives the mutex up; nobody waits.\<close>

lemma step_free:
  assumes i: "mutex_inv z" and o': "mtx_owner (mm_mtx z) = t" "is_ppu t" "lock_count (mm_mtx z) = 0" "mtx_sq (mm_mtx z) = []"
    and d: "mm_depth z t = 1" and w: "\<not> being_woken z t" "\<And>f. mm_pc z t \<noteq> M_wake f"
  shows "mutex_inv (mgo t (M_ret r) (dec_depth t (z\<lparr>mm_mtx := (mm_mtx z)\<lparr>mtx_owner := 0\<rparr>\<rparr>)))" (is "mutex_inv ?z")
proof (rule mlocal_inv [OF _ _ _ _ i])
  note du = depth_unique [OF mutex_invD(3) [OF i]]
  have "mm_depth ?z u = 0" for u using d du [of u] o'(1) by (cases "u = t") auto
  then show "owner_ok ?z" using o' by (intro owner_okI) simp_all
  show "mlocal t z ?z" using o' by (auto simp: mlocal_def)
qed (use w mutex_invD(1) [OF i] in auto)

lemma step_unlock:
  assumes i: "mutex_inv z" and pc: "mm_pc z t = M_idle" and p: "is_ppu t" and op: "try_unlock cas t (mm_mtx z) = (CELL_OK, x)"
  shows "mutex_inv (mgo t (M_ret CELL_OK) (dec_depth t (z\<lparr>mm_mtx := x\<rparr>)))" (is "mutex_inv ?z")
proof -
  have o': "mtx_owner (mm_mtx z) = t" using op by (auto simp: try_unlock_def split: if_splits)
  note d = owner_idle [OF i pc p o'] and f = idle_facts [OF i pc] and oD = owner_okD [OF mutex_invD(3) [OF i]]
  show ?thesis
  proof (cases "lock_count (mm_mtx z) = 0")
    case True
    then have "mtx_sq (mm_mtx z) = []" "x = (mm_mtx z)\<lparr>mtx_owner := 0\<rparr>" using op by (auto simp: try_unlock_def split: if_splits)
    then show ?thesis using step_free [OF i o' p True] d True f(1) pc by simp
  next
    case False
    then have x: "x = (mm_mtx z)\<lparr>lock_count := lock_count (mm_mtx z) - 1\<rparr>" using op o' by (simp add: try_unlock_def)
    have c: "unat (lock_count (mm_mtx z)) = unat (lock_count (mm_mtx z) - 1) + 1"
      using unat_dec [OF False] False by (simp add: unat_gt_0)
    show ?thesis
    proof (rule mlocal_inv [OF _ _ _ _ i])
      show "owner_ok ?z"
      proof (rule owner_okI)
        fix u assume "0 < mm_depth ?z u"
        then have "u = t" using depth_unique [OF mutex_invD(3) [OF i], of u] o' by (auto split: if_splits)
        then show "is_ppu u \<and> mtx_owner (mm_mtx ?z) = u \<and> mm_depth ?z u = unat (lock_count (mm_mtx ?z)) + 1"
          using p o' d c x by simp
      next
        fix u assume "u \<in> set (mtx_sq (mm_mtx ?z))"
        then show "is_ppu u \<and> u \<noteq> mtx_owner (mm_mtx ?z) \<and> in_queue_pc (mm_pc ?z u)" using oD(3) [of u] x f(2) by auto
      next
        fix u assume "mtx_owner (mm_mtx ?z) = u" "mm_depth ?z u = 0"
        then show "\<exists>n. mm_pc ?z u = M_sleep n \<or> mm_pc ?z u = M_wait n" using x o' d c by simp
      qed (use oD(1) x o' is_ppu_pos [OF p] in simp_all)
      show "mlocal t z ?z" using x o' by (auto simp: mlocal_def)
    qed (use pc f mutex_invD(1) [OF i] in auto)
  qed
qed

lemma step_unlock_busy:
  assumes i: "mutex_inv z" and pc: "mm_pc z t = M_idle" and p: "is_ppu t" and op: "try_unlock cas t (mm_mtx z) = (CELL_EBUSY, x)"
  shows "mutex_inv (mgo t M_unlock (z\<lparr>mm_mtx := x\<rparr>))"
proof -
  have "mtx_owner (mm_mtx z) = t" "lock_count (mm_mtx z) = 0" "x = mm_mtx z" using op by (auto simp: try_unlock_def split: if_splits)
  then show ?thesis using step_idle [OF i pc, of M_unlock] owner_idle [OF i pc p] p by simp
qed

lemma unlock_facts:
  assumes "mutex_inv z" "mm_pc z t = M_unlock"
  shows "\<not> being_woken z t" "mtx_owner (mm_mtx z) = t" "is_ppu t" "lock_count (mm_mtx z) = 0" "mm_depth z t = 1"
proof -
  have "mpc_ok z t M_unlock" using mutex_invD(4) [OF assms(1), of t] assms(2) by simp
  then show "mtx_owner (mm_mtx z) = t" "is_ppu t" "lock_count (mm_mtx z) = 0" "mm_depth z t = 1" by simp_all
  show "\<not> being_woken z t" using woken_pc [OF assms(1), of t] assms(2) by auto
qed

lemma reown_cases:
  assumes "reown s x = (r, y)"
  shows "r = None \<Longrightarrow> mtx_sq x = [] \<and> y = x\<lparr>mtx_owner := 0\<rparr>"
    and "r = Some f \<Longrightarrow> f \<in> set (mtx_sq x)"
    and "r = Some f \<Longrightarrow> F_again \<in> flags_of s f \<Longrightarrow> y = x"
    and "r = Some f \<Longrightarrow> F_again \<notin> flags_of s f \<Longrightarrow> y = x\<lparr>mtx_owner := f, mtx_sq := remove1 f (mtx_sq x)\<rparr>"
  using assms sched_pick_in [of "mtx_sq x" "ppus s" "mtx_protocol x"]
  by (auto simp: reown_def schedule_def Let_def split: if_splits)

lemma step_reown_again:
  assumes i: "mutex_inv z" and pc: "mm_pc z t = M_unlock" and op: "reown (mm_lv2 z) (mm_mtx z) = (Some f, x)" "F_again \<in> flags_of (mm_lv2 z) f"
  shows "mutex_inv (mgo t M_again (z\<lparr>mm_mtx := x, mm_lv2 := add_flags t {F_again} (mm_lv2 z)\<rparr>))" (is "mutex_inv ?z")
proof (rule mlocal_inv [OF _ _ _ _ i])
  note f = unlock_facts [OF i pc]
  have x: "x = mm_mtx z" using reown_cases(3) [OF op(1)] op(2) by simp
  have nq: "t \<notin> set (mtx_sq (mm_mtx z))" using owner_okD(3) [OF mutex_invD(3) [OF i], of t] f(2) by auto
  show "owner_ok ?z" using x f(5) by (intro owner_ok_pc [OF mutex_invD(3) [OF i], where t = t]) auto
  show "mlocal t z ?z" using x by (simp add: mlocal_def add_flags_def)
  show "kernel_ready (mm_lv2 ?z)" using mutex_invD(1) [OF i] by (simp add: kernel_ready_flags)
  show "mpc_ok ?z t (mm_pc ?z t)" using nq x by simp
qed (use pc unlock_facts(1) [OF i pc] in auto)

lemma step_reown:
  assumes i: "mutex_inv z" and pc: "mm_pc z t = M_unlock" and l: "mm_lock z = None"
    and op: "reown (mm_lv2 z) (mm_mtx z) = (Some f, x)" "F_again \<notin> flags_of (mm_lv2 z) f"
  shows "mutex_inv (mgo t (M_wake f) (dec_depth t (z\<lparr>mm_mtx := x, mm_lock := Some t\<rparr>)))" (is "mutex_inv ?z")
proof -
  note g = unlock_facts [OF i pc] and oD = owner_okD [OF mutex_invD(3) [OF i]]
  have x: "f \<in> set (mtx_sq (mm_mtx z))" "x = (mm_mtx z)\<lparr>mtx_owner := f, mtx_sq := remove1 f (mtx_sq (mm_mtx z))\<rparr>"
    using reown_cases(2,4) [OF op(1)] op(2) by simp_all
  have q: "set (mtx_sq x) = set (mtx_sq (mm_mtx z)) - {f}" using oD(1) x by simp
  have f: "is_ppu f" "f \<noteq> t" "0 < f" "in_queue_pc (mm_pc z f)" using oD(3) [OF x(1)] g(2) is_ppu_pos by auto
  have nw: "mm_pc z u \<noteq> M_wake v" for u v using mutex_invD(2) [OF i] l unfolding mlock_ok_def by (metis option.distinct(1))
  note ok = mutex_invD(4) [OF i]
  have pf: "\<exists>n. mm_pc z f = M_sleep n \<or> mm_pc z f = M_wait n"
    using f(4) ok [of f] x(1) op(2) by (cases "mm_pc z f") auto
  have h: "handed ?z f" using f x q g(4) by (simp add: handed_def)
  have bw: "being_woken ?z u \<longleftrightarrow> u = f" for u by (auto simp: being_woken_def)
  have d: "mm_depth ?z u = 0" for u using g(5) depth_unique [OF mutex_invD(3) [OF i], of u] g(2) by (cases "u = t") auto
  have "owner_ok ?z"
  proof (rule owner_okI)
    fix u assume "u \<in> set (mtx_sq (mm_mtx ?z))"
    then show "is_ppu u \<and> u \<noteq> mtx_owner (mm_mtx ?z) \<and> in_queue_pc (mm_pc ?z u)" using oD(3) [of u] q x g(2) by auto
  qed (use d f pf x oD(1) in auto)
  moreover have "mpc_ok ?z u (mm_pc ?z u)" for u
  proof (cases "u = t \<or> u = f")
    case True
    then show ?thesis
    proof
      assume "u = t" then show ?thesis using f h op(2) pf by auto
    next
      assume u: "u = f"
      have "mpc_ok z f (mm_pc z f)" by (rule ok)
      then have "mpc_ok ?z f (mm_pc z f)" using pf x(1) q h bw d by (elim exE disjE) (simp_all add: dozing_def)
      then show ?thesis using u f(2) by simp
    qed
  next
    case False
    then have u: "u \<in> set (mtx_sq x) \<longleftrightarrow> u \<in> set (mtx_sq (mm_mtx z))" "\<not> handed z u" using q g(2) by (auto simp: handed_def)
    have "mpc_ok ?z u (mm_pc z u)" using ok [of u] False u nw g(2) d x bw by (cases "mm_pc z u") (auto simp: dozing_def split: if_splits)
    then show ?thesis using False by simp
  qed
  moreover have "mlock_ok ?z" using nw by (auto simp: mlock_ok_def)
  ultimately show ?thesis using mutex_invD(1) [OF i] by (simp add: mutex_inv_def)
qed

text \<open>What a thread needs from a change of the scheduler state made by others.\<close>

definition mkeeps :: "mutex_sys \<Rightarrow> lv2 \<Rightarrow> tid \<Rightarrow> bool" where
  "mkeeps z s' u \<longleftrightarrow> (mm_pc z u \<noteq> M_idle \<longrightarrow> gpr_of s' u 3 = gpr_of (mm_lv2 z) u 3 \<and> (u \<in> set (g_ppu (mm_lv2 z)) \<longrightarrow> u \<in> set (g_ppu s')))
     \<and> (u \<in> set (mtx_sq (mm_mtx z)) \<or> being_woken z u \<longrightarrow>
          (F_again \<in> flags_of s' u \<longleftrightarrow> F_again \<in> flags_of (mm_lv2 z) u) \<and> (dozing z u \<longrightarrow> dozing (z\<lparr>mm_lv2 := s'\<rparr>) u))
     \<and> (about_to_sleep (mm_pc z u) \<and> u \<in> set (g_ppu (mm_lv2 z)) \<and> unsignalled (mm_lv2 z) u \<longrightarrow>
          unsignalled s' u \<and> cancel_sleep (ppus s' u) = cancel_sleep (ppus (mm_lv2 z) u)
          \<and> (F_notify \<in> flags_of s' u \<longrightarrow> F_notify \<in> flags_of (mm_lv2 z) u) \<and> (F_wait \<in> flags_of (mm_lv2 z) u \<longrightarrow> F_wait \<in> flags_of s' u))"

lemma mkeeps_ok:
  assumes k: "mkeeps z s' u" and ok: "mpc_ok z u (mm_pc z u)"
    and z': "mm_mtx z' = mm_mtx z" "mm_depth z' u = mm_depth z u" "mm_lv2 z' = s'" "being_woken z' u = being_woken z u"
    and w: "\<And>f. mm_pc z u = M_wake f \<Longrightarrow> F_again \<notin> flags_of s' f \<and> (\<exists>n. mm_pc z' f = M_sleep n \<or> mm_pc z' f = M_wait n)"
  shows "mpc_ok z' u (mm_pc z u)"
proof -
  have h: "handed z' v = handed z v" for v using z'(1) by (simp add: handed_def)
  have dz: "queued_on u (mm_mtx z) \<or> being_woken z u \<Longrightarrow> dozing z u \<Longrightarrow> dozing z' u" using k z'(3) by (auto simp: mkeeps_def dozing_def)
  have cs: "can_sleep n s' u" if "can_sleep n (mm_lv2 z) u" "about_to_sleep (mm_pc z u)" for n
    using k that by (auto simp: mkeeps_def can_sleep_def)
  show ?thesis
  proof (cases "mm_pc z u")
    case (M_own n)
    then show ?thesis using ok k cs [of n] z' by (simp add: mkeeps_def can_sleep_def)
  next
    case (M_sleep n)
    then have "cancel_sleep (ppus s' u) = cancel_sleep (ppus (mm_lv2 z) u)" "can_sleep n s' u" "F_wait \<in> flags_of s' u"
      using ok k cs [of n] by (simp_all add: mkeeps_def can_sleep_def)
    then show ?thesis using M_sleep ok z' h by simp
  next
    case (M_wait n)
    then have "u \<in> set (g_ppu (mm_lv2 z)) \<Longrightarrow> u \<in> set (g_ppu s')" "gpr_of s' u 3 = gpr_of (mm_lv2 z) u 3" using k by (simp_all add: mkeeps_def)
    then show ?thesis using M_wait ok z' h dz by (simp split: if_splits)
  next
    case M_again
    then show ?thesis using ok k z' dz by (simp add: mkeeps_def)
  next
    case (M_wake f)
    then show ?thesis using ok z' w h by simp
  qed (use ok z' in simp_all)
qed

lemma owner_ok_lv2: "owner_ok (z\<lparr>mm_lv2 := s\<rparr>) = owner_ok z" "owner_ok (z\<lparr>mm_lv2 := s, mm_lock := l\<rparr>) = owner_ok z"
  by (simp_all add: owner_ok_def)

lemma step_other:
  assumes i: "mutex_inv z" and o': "mutex_other z s"
  shows "mutex_inv (z\<lparr>mm_lv2 := s\<rparr>)" (is "mutex_inv ?z")
proof -
  have b: "being_woken ?z u = being_woken z u" for u by (simp add: being_woken_def split: option.split)
  have k: "mkeeps z s u" for u
    using o' unfolding mutex_other_def mkeeps_def dozing_def by (cases "mm_pc z u = M_idle") auto
  have "mpc_ok ?z u (mm_pc z u)" for u
  proof (rule mkeeps_ok [OF k mutex_invD(4) [OF i]])
    fix f assume pc: "mm_pc z u = M_wake f"
    then have "mm_lock z = Some u" using mutex_invD(2) [OF i] unfolding mlock_ok_def by blast
    then have "being_woken z f" using pc by (simp add: being_woken_def)
    then have "F_again \<in> flags_of s f \<longleftrightarrow> F_again \<in> flags_of (mm_lv2 z) f" using o' by (simp add: mutex_other_def)
    then show "F_again \<notin> flags_of s f \<and> (\<exists>n. mm_pc ?z f = M_sleep n \<or> mm_pc ?z f = M_wait n)"
      using mutex_invD(4) [OF i, of u] pc by simp
  qed (simp_all add: b)
  then show ?thesis using i o' by (simp add: mutex_inv_def owner_ok_lv2 mlock_ok_def mutex_other_def)
qed

lemma sched_keeps:
  assumes "sched_frame (mm_lv2 z) s" "u \<in> set (g_ppu (mm_lv2 z)) \<longleftrightarrow> u \<in> set (g_ppu s)"
    "unsignalled (mm_lv2 z) u \<Longrightarrow> unsignalled s u" "cancel_sleep (ppus s u) = cancel_sleep (ppus (mm_lv2 z) u)"
    "u \<in> set (g_ppu (mm_lv2 z)) \<Longrightarrow> F_notify \<in> flags_of s u \<Longrightarrow> F_notify \<in> flags_of (mm_lv2 z) u"
  shows "mkeeps z s u"
  using assms sched_frame_again [OF assms(1)] sched_frame_wait [OF assms(1)] sched_frame_gpr [OF assms(1)]
    sched_frame_signal [OF assms(1), of u]
  unfolding mkeeps_def dozing_def by auto

lemma wake_facts:
  assumes i: "mutex_inv z" and pc: "mm_pc z c = M_wake f"
  shows "is_ppu f" "handed z f" "f \<noteq> c" "F_again \<notin> flags_of (mm_lv2 z) f" "\<exists>n. mm_pc z f = M_sleep n \<or> mm_pc z f = M_wait n"
    "mm_lock z = Some c" "being_woken z u \<longleftrightarrow> u = f" "mm_pc z u = M_wake v \<Longrightarrow> u = c"
proof -
  show "mm_lock z = Some c" "mm_pc z u = M_wake v \<Longrightarrow> u = c"
    using mutex_invD(2) [OF i] pc unfolding mlock_ok_def by (blast, metis option.inject)
  then show "being_woken z u \<longleftrightarrow> u = f" using pc by (auto simp: being_woken_def)
qed (use mutex_invD(4) [OF i, of c] pc in auto)

lemma step_wake:
  fixes e :: env
  assumes i: "mutex_inv z" and pc: "mm_pc z (cur e) = M_wake f" and op: "mutex_wake e f (mm_lv2 z) = Some s"
  shows "mutex_inv (mgo (cur e) (M_ret r) (z\<lparr>mm_lv2 := s, mm_lock := None\<rparr>))" (is "mutex_inv ?z")
proof -
  note w = wake_facts [OF i pc]
  have op: "obj_awake e f (mm_lv2 z) = Some s" using op w(4) by (simp add: mutex_wake_def)
  note k = mutex_invD(1) [OF i] and r = obj_awake_run [OF op mutex_invD(1) [OF i] w(1)]
  have s: "kernel_ready s" "set (g_ppu s) = insert f (set (g_ppu (mm_lv2 z)))" "sched_frame (mm_lv2 z) s"
    using obj_awake_spec [OF k w(1), of e] op by auto
  note fr = sched_frame_again [OF s(3)] sched_frame_wait [OF s(3)] sched_frame_gpr [OF s(3)]
  have bw: "\<not> being_woken ?z u" for u by (simp add: being_woken_def)
  have "mpc_ok ?z u (mm_pc ?z u)" for u
  proof -
    consider "u = cur e" | "u = f" | "u \<noteq> cur e" "u \<noteq> f" by blast
    then show ?thesis
    proof cases
      case 2
      have n: "\<not> queued_on f (mm_mtx z)" using w(2) by (simp add: handed_def)
      have h: "handed ?z f" using w(2) by (simp add: handed_def)
      have "mpc_ok z f (mm_pc z f)" by (rule mutex_invD(4) [OF i])
      then have "mpc_ok ?z f (mm_pc z f)"
        using w(5,7) n h bw s(2) fr r [of f] w(3) by (elim exE disjE) (auto simp: can_sleep_def)
      then show ?thesis using 2 w(3) by simp
    next
      case 3
      have "mkeeps z s u" using s(2) 3 r [of u] by (intro sched_keeps s(3)) auto
      then have "mpc_ok ?z u (mm_pc z u)"
        using mutex_invD(4) [OF i] w(7,8) 3 bw by (rule_tac mkeeps_ok) auto
      then show ?thesis using 3 by simp
    qed simp
  qed
  moreover have "mlock_ok ?z" using w(8) by (auto simp: mlock_ok_def)
  moreover have "owner_ok ?z"
    using owner_okD [OF mutex_invD(3) [OF i]] pc by (intro owner_okI) (auto, (metis in_queue_pc.simps(7))+)
  ultimately show ?thesis using s(1) by (simp add: mutex_inv_def)
qed

lemma sleep_facts:
  fixes e :: env
  assumes i: "mutex_inv z" and pc: "mm_pc z (cur e) = M_sleep n" and op: "mutex_sleep e n (mm_lv2 z) = Some (r, s)"
  shows "is_ppu (cur e)" "cur e \<noteq> 0" "kernel_ready s" "set (g_ppu s) = set (g_ppu (mm_lv2 z)) - {cur e}" "mm_depth z (cur e) = 0"
    "F_signal \<notin> flags_of s (cur e)" "F_wait \<in> flags_of s (cur e)"
    "r \<longleftrightarrow> queued_on (cur e) (mm_mtx z) \<or> being_woken z (cur e)" "u \<noteq> cur e \<Longrightarrow> mkeeps z s u"
    "F_again \<in> flags_of s u \<longleftrightarrow> F_again \<in> flags_of (mm_lv2 z) u"
    "queued_on (cur e) (mm_mtx z) \<or> handed z (cur e)"
proof -
  have ok: "mpc_ok z (cur e) (M_sleep n)" using mutex_invD(4) [OF i, of "cur e"] pc by simp
  then have c: "is_ppu (cur e)" "cur e \<in> set (g_ppu (mm_lv2 z))" "F_signal \<notin> flags_of (mm_lv2 z) (cur e)"
    "n \<noteq> 0 \<Longrightarrow> F_notify \<notin> flags_of (mm_lv2 z) (cur e)" "F_wait \<in> flags_of (mm_lv2 z) (cur e)" "mm_depth z (cur e) = 0"
    "cancel_sleep (ppus (mm_lv2 z) (cur e)) = 2 \<longleftrightarrow> \<not> queued_on (cur e) (mm_mtx z) \<and> \<not> being_woken z (cur e)"
    "queued_on (cur e) (mm_mtx z) \<or> handed z (cur e)"
    by (auto simp: can_sleep_def unsignalled_def split: if_splits)
  then show "is_ppu (cur e)" "mm_depth z (cur e) = 0" "cur e \<noteq> 0" "queued_on (cur e) (mm_mtx z) \<or> handed z (cur e)" by (auto dest: is_ppu_pos)
  obtain s0 where s0: "obj_sleep e n (mm_lv2 z) = Some (r, s0)" "s = set_cancel_sleep (cur e) 0 s0"
    using op by (auto simp: mutex_sleep_def split: option.splits)
  have s: "kernel_ready s0" "set (g_ppu s0) = set (g_ppu (mm_lv2 z)) - {cur e}" "sched_frame (mm_lv2 z) s0"
    using obj_sleep_spec [of "mm_lv2 z" e n] mutex_invD(1) [OF i] c(1,3,4) s0(1) by auto
  note run = obj_sleep_run [OF s0(1) mutex_invD(1) [OF i] c(1,4)]
  show "kernel_ready s" using s(1) s0(2) by (simp add: ready_cancel)
  show g: "set (g_ppu s) = set (g_ppu (mm_lv2 z)) - {cur e}" using s(2) s0(2) by (simp add: set_cancel_sleep_def)
  have fl: "flags_of s v = flags_of s0 v" "v \<noteq> cur e \<Longrightarrow> ppus s v = ppus s0 v" for v using s0(2) by (auto simp: set_cancel_sleep_def)
  show "F_signal \<notin> flags_of s (cur e)" using sched_frame_signal [OF s(3) c(3)] s(2) fl by simp
  show "F_wait \<in> flags_of s (cur e)" "F_again \<in> flags_of s u \<longleftrightarrow> F_again \<in> flags_of (mm_lv2 z) u"
    using sched_frame_wait [OF s(3)] sched_frame_again [OF s(3)] fl c(5) by simp_all
  show "r \<longleftrightarrow> queued_on (cur e) (mm_mtx z) \<or> being_woken z (cur e)" using run(3) [OF _ c(3,2)] c(7) by simp
  assume u: "u \<noteq> cur e"
  then have "mkeeps z s0 u" using run(1,2,4) [of u] s(2) by (intro sched_keeps s(3)) auto
  then show "mkeeps z s u" using fl u g s(2) by (simp add: mkeeps_def dozing_def unsignalled_def)
qed

lemma step_sleep:
  fixes e :: env
  assumes i: "mutex_inv z" and pc: "mm_pc z (cur e) = M_sleep n" and op: "mutex_sleep e n (mm_lv2 z) = Some (True, s)"
  shows "mutex_inv (mgo (cur e) (M_wait n) (z\<lparr>mm_lv2 := set_gpr (cur e) 3 CELL_OK s\<rparr>))" (is "mutex_inv ?z")
proof -
  note f = sleep_facts [OF i pc op]
  have b: "being_woken ?z v = being_woken z v" for v using pc by (auto simp: being_woken_def split: option.splits)
  have h: "handed ?z v = handed z v" for v by (simp add: handed_def)
  have "mpc_ok ?z u (mm_pc ?z u)" for u
  proof (cases "u = cur e")
    case True
    have "dozing ?z (cur e)" using f(4,6,7) by (simp add: dozing_def)
    moreover have "queued_on (cur e) (mm_mtx z) \<or> being_woken z (cur e)" using f(8) by simp
    ultimately show ?thesis using True f(1,5,11) b h by auto
  next
    case False
    have "mkeeps z (set_gpr (cur e) 3 CELL_OK s) u"
      using f(9) [OF False] False by (simp add: mkeeps_def dozing_def unsignalled_def set_gpr_def)
    then have "mpc_ok ?z u (mm_pc z u)"
      using mutex_invD(4) [OF i, of u] b f(10) by (rule_tac mkeeps_ok) auto
    then show ?thesis using False by simp
  qed
  moreover have "mlock_ok ?z" by (rule mlock_ok_pc [OF mutex_invD(2) [OF i], where t = "cur e"]) (simp_all add: pc)
  moreover have "owner_ok ?z"
    using owner_okD [OF mutex_invD(3) [OF i]] pc by (intro owner_okI) auto
  ultimately show ?thesis using f(3) by (simp add: mutex_inv_def)
qed

lemma step_cancelled:
  fixes e :: env
  assumes i: "mutex_inv z" and pc: "mm_pc z (cur e) = M_sleep n" and op: "mutex_sleep e n (mm_lv2 z) = Some (False, s)"
  shows "mutex_inv (mgo (cur e) (M_ret r) (inc_depth (cur e) (z\<lparr>mm_lv2 := s\<rparr>)))" (is "mutex_inv ?z")
proof -
  note f = sleep_facts [OF i pc op]
  have hd: "handed z (cur e)" "\<not> being_woken z (cur e)" using f(8,11) by auto
  have b: "being_woken ?z v = being_woken z v" for v using pc by (auto simp: being_woken_def split: option.splits)
  have "mpc_ok ?z u (mm_pc ?z u)" for u
  proof (cases "u = cur e")
    case False
    have "mpc_ok ?z u (mm_pc z u)"
    proof (rule mkeeps_ok [OF f(9) [OF False] mutex_invD(4) [OF i]])
      fix v assume v: "mm_pc z u = M_wake v"
      then have "v \<noteq> cur e" using wake_facts(7) [OF i v, of v] hd(2) by blast
      then show "F_again \<notin> flags_of s v \<and> (\<exists>n. mm_pc ?z v = M_sleep n \<or> mm_pc ?z v = M_wait n)"
        using wake_facts(4,5) [OF i v] f(10) by simp
    qed (use False b in auto)
    then show ?thesis using False by simp
  qed simp
  moreover have "mlock_ok ?z" by (rule mlock_ok_pc [OF mutex_invD(2) [OF i], where t = "cur e"]) (simp_all add: pc)
  moreover have "owner_ok ?z"
  proof (rule owner_okI)
    fix t assume "0 < mm_depth ?z t"
    then show "is_ppu t \<and> mtx_owner (mm_mtx ?z) = t \<and> mm_depth ?z t = unat (lock_count (mm_mtx ?z)) + 1"
      using f(1,5) hd(1) owner_okD(4) [OF mutex_invD(3) [OF i], of t] by (cases "t = cur e") (auto simp: handed_def)
  qed (use hd(1) owner_okD [OF mutex_invD(3) [OF i]] in \<open>auto simp: handed_def\<close>)
  ultimately show ?thesis using f(3) by (simp add: mutex_inv_def)
qed

lemma step_return:
  assumes i: "mutex_inv z" and pc: "mm_pc z t = M_ret r"
  shows "mutex_inv (mgo t M_idle z)" (is "mutex_inv ?z")
proof (rule mlocal_inv [OF _ _ _ _ i])
  note oD = owner_okD [OF mutex_invD(3) [OF i]]
  show "owner_ok ?z"
    using oD(3) [of t] oD(5) [of t] pc by (intro owner_ok_pc [OF mutex_invD(3) [OF i], where t = t]) auto
  show "\<not> being_woken z t" using woken_pc [OF i, of t] pc by auto
qed (use pc mutex_invD(1) [OF i] in \<open>auto simp: mlocal_def\<close>)

lemma step_break:
  assumes i: "mutex_inv z" and pc: "mm_pc z t = M_wait n" and l: "mm_lock z = None \<or> \<not> is_stopped (flags_of (mm_lv2 z) t)"
    and op: "wait_iter queued_on mutex_expire t False c (mm_lv2 z) (mm_mtx z) = Some (W_break, s, x)"
  shows "mutex_inv (mgo t (M_ret r) (inc_depth t (z\<lparr>mm_lv2 := s, mm_mtx := x\<rparr>)))"
proof -
  have "x = mm_mtx z" "s = del_flags t {F_signal} (mm_lv2 z) \<or> s = mm_lv2 z" using wait_iter_spec(1,2) [OF op] by auto
  moreover from this have "kernel_ready s" "g_ppu s = g_ppu (mm_lv2 z)" "\<And>u. u \<noteq> t \<Longrightarrow> ppus s u = ppus (mm_lv2 z) u"
    using mutex_invD(1) [OF i] by (auto simp: kernel_ready_del) (auto simp: del_flags_def)
  ultimately show ?thesis
    using step_obtain [OF i, of t s] wait_leave [OF i pc l op] wait_facts(2,3) [OF i pc] pc by simp
qed

lemma mutex_expire_cases:
  "mutex_expire t s y = Some (s', y') \<Longrightarrow>
     (if queued_on t y then s' = set_gpr t 3 CELL_ETIMEDOUT s \<and> y' = y\<lparr>mtx_sq := remove1 t (mtx_sq y)\<rparr>
      else s' = s \<and> y' = y)"
  by (auto simp: mutex_expire_def unqueue_def split: if_splits)

lemma step_expire:
  assumes i: "mutex_inv z" and pc: "mm_pc z t = M_wait n" and l: "mm_lock z = None"
    and op: "mutex_expire t (add_flags t {F_wait} (mm_lv2 z)) (mm_mtx z) = Some (s, x)"
  shows "mutex_inv (mgo t (M_ret r) ((if t \<in> set (mtx_sq (mm_mtx z)) then id else inc_depth t) (z\<lparr>mm_lv2 := s, mm_mtx := x\<rparr>)))"
proof (cases "queued_on t (mm_mtx z)")
  case True
  then show ?thesis using step_timeout [OF i pc l True] mutex_expire_cases [OF op] by simp
next
  case False
  then have "handed z t" "s = add_flags t {F_wait} (mm_lv2 z)" "x = mm_mtx z"
    using wait_facts(1) [OF i pc] mutex_expire_cases [OF op] by simp_all
  moreover from this have "kernel_ready s" "g_ppu s = g_ppu (mm_lv2 z)" "\<And>u. u \<noteq> t \<Longrightarrow> ppus s u = ppus (mm_lv2 z) u"
    using mutex_invD(1) [OF i] by (simp_all add: kernel_ready_flags) (simp_all add: add_flags_def)
  ultimately show ?thesis
    using False step_obtain [OF i, of t s] wait_facts(2,3,5) [OF i pc] pc l by simp
qed

lemma mutex_inv_step: "mutex_step z z' \<Longrightarrow> mutex_inv z \<Longrightarrow> mutex_inv z'"
proof (induction rule: mutex_step.induct)
  case (m_refused z t cas r x)
  then show ?case using step_idle [of z t "M_ret (ucast r)"] try_lock_fail [OF m_refused(3,4)] by simp
next
  case (m_perm z t cas x)
  then have "x = mm_mtx z" by (auto simp: try_unlock_def split: if_splits)
  then show ?case using step_idle [of z t "M_ret CELL_EPERM"] m_perm by simp
next
  case (m_stop z t n c s x)
  then show ?case using wait_iter_spec(1,3) [OF m_stop(3)] step_stop [of z t n] by simp
next
  case (m_release z t x)
  then show ?case
    using unlock_facts [OF m_release(4,1)] reown_cases(1) [OF m_release(3)] step_free [of z t CELL_OK] by simp
qed (blast intro: step_lock step_busy step_own step_enqueue step_sleep step_cancelled step_break step_expire
  step_unlock step_unlock_busy step_reown step_reown_again step_wake step_return step_other)+

definition fresh_mutex :: "lv2_mutex \<Rightarrow> bool" where
  "fresh_mutex x \<longleftrightarrow> mtx_owner x = 0 \<and> lock_count x = 0 \<and> mtx_sq x = []"

lemma mutex_inv_start: "kernel_ready s \<Longrightarrow> fresh_mutex x \<Longrightarrow> mutex_inv (mutex_start s x)"
  by (auto simp: mutex_inv_def mutex_start_def mlock_ok_def owner_ok_def fresh_mutex_def)

lemma mutex_inv_reach:
  assumes "mutex_step\<^sup>*\<^sup>* (mutex_start s x) z" "kernel_ready s" "fresh_mutex x"
  shows "mutex_inv z"
  using assms(1) by (induction rule: rtranclp_induct) (auto intro: mutex_inv_start assms mutex_inv_step)

section \<open>Properties\<close>

definition mutex_runs :: "lv2 \<Rightarrow> lv2_mutex \<Rightarrow> mutex_sys \<Rightarrow> bool" where
  "mutex_runs s x z \<longleftrightarrow> mutex_step\<^sup>*\<^sup>* (mutex_start s x) z"

lemma new_mutex_fresh [simp]: "fresh_mutex (new_mutex a key)"
  by (simp add: fresh_mutex_def new_mutex_def)

lemma mutex_runs_inv: "kernel_ready s \<Longrightarrow> mutex_runs s (new_mutex a key) z \<Longrightarrow> mutex_inv z"
  unfolding mutex_runs_def using mutex_inv_reach new_mutex_fresh by blast

text \<open>C1: Mutual exclusion under every interleaving of lock, trylock, unlock, time-outs and stops: at most
  one thread holds the mutex, it is the owner the mutex records, and the recursion count is one less than
  the number of its locks it has not undone.\<close>

theorem mutex_exclusion:
  assumes "kernel_ready s" "mutex_runs s (new_mutex a key) z" "0 < mm_depth z t"
  shows "mtx_owner (mm_mtx z) = t \<and> mm_depth z t = unat (lock_count (mm_mtx z)) + 1 \<and> (0 < mm_depth z u \<longrightarrow> u = t)"
  using owner_okD(4) [OF mutex_invD(3) [OF mutex_runs_inv [OF assms(1,2)]]] assms(3) by metis

fun blocked :: "mutex_pc \<Rightarrow> bool" where
  "blocked (M_own _) = True"
| "blocked (M_sleep _) = True"
| "blocked (M_wait _) = True"
| "blocked _ = False"

lemma lock_exit:
  assumes "mutex_step z z'" "mutex_inv z" "blocked (mm_pc z t)" "mm_pc z' t = M_ret r"
  shows "r = CELL_OK \<and> mm_depth z' t = mm_depth z t + 1 \<or> r = CELL_ETIMEDOUT \<and> mm_depth z' t = mm_depth z t"
  using assms
proof (induction rule: mutex_step.induct)
  case (m_break z u n c s x)
  then show ?case using wait_leave(4) [OF m_break(4,1,2,3)] by (cases "u = t") auto
next
  case (m_expire z u n s x)
  then show ?case using mutex_expire_cases [OF m_expire(4)] wait_facts(1) [OF m_expire(5,1)]
    by (cases "u = t") (auto split: if_splits)
qed (auto split: if_splits)

text \<open>C16: What \<^verbatim>\<open>sys_mutex_lock\<close> returns after it had to wait, under every interleaving. It is
  \<^verbatim>\<open>CELL_OK\<close> exactly when the thread has become the owner, holding the mutex once, and
  \<^verbatim>\<open>CELL_ETIMEDOUT\<close> only when it neither owns the mutex nor is left in the queue.\<close>

theorem mutex_lock_outcome:
  assumes "kernel_ready s" "mutex_runs s (new_mutex a key) z" "mutex_step z z'"
    and "blocked (mm_pc z t)" "mm_pc z' t = M_ret r" "is_ppu t"
  shows "r = CELL_OK \<and> mtx_owner (mm_mtx z') = t \<and> lock_count (mm_mtx z') = 0
    \<or> r = CELL_ETIMEDOUT \<and> mtx_owner (mm_mtx z') \<noteq> t \<and> t \<notin> set (mtx_sq (mm_mtx z'))"
proof -
  note i = mutex_runs_inv [OF assms(1,2)] and t0 = is_ppu_pos [OF assms(6)]
  note o' = owner_okD [OF mutex_invD(3) [OF mutex_inv_step [OF assms(3) i]]]
  have "mm_depth z t = 0"
    using mutex_invD(4) [OF i, of t] assms(4) own_facts(3) [OF i] by (cases "mm_pc z t") auto
  then show ?thesis using lock_exit [OF assms(3) i assms(4,5)] o'(3-5) [of t] t0 assms(5) by (auto simp: unat_eq_0)
qed


text \<open>A run in which one thread locks the mutex and a second one finds it busy.\<close>

lemma boot_runnable:
  assumes "is_ppu u" "u \<noteq> t"
  shows "\<exists>s. kernel_ready s \<and> can_sleep 0 s u"
proof -
  obtain s where s: "obj_awake \<lparr>cur = t, e_now = 0, e_tsc = 0\<rparr> u (lv2_boot 2) = Some s" "kernel_ready s" "u \<in> set (g_ppu s)"
    using obj_awake_spec [OF boot_ready assms(1)] by blast
  have "unsignalled (lv2_boot 2) u" by (simp add: unsignalled_def lv2_boot_def fresh_thread_def)
  then show ?thesis
    using obj_awake_run(1) [OF s(1) boot_ready assms(1), of u] s assms by (auto simp: can_sleep_def)
qed

lemma mutex_run_busy:
  assumes "kernel_ready s" "can_sleep 0 s u" "is_ppu t" "u \<noteq> t" "fresh_mutex x"
  shows "\<exists>z. mutex_runs s x z \<and> mm_pc z u = M_own 0 \<and> mm_pc z t = M_idle \<and> mm_mtx z = x\<lparr>mtx_owner := t\<rparr> \<and> mm_depth z t = 1
     \<and> mm_lock z = None"
proof -
  have x: "mtx_owner x = 0" "lock_count x = 0" using assms(5) by (simp_all add: fresh_mutex_def)
  have pos: "0 < t" "0 < u" using assms(2,3) by (auto simp: can_sleep_def dest: is_ppu_pos)
  let ?z1 = "mgo t (M_ret CELL_OK) (inc_depth t ((mutex_start s x)\<lparr>mm_mtx := x\<lparr>mtx_owner := t\<rparr>\<rparr>))"
  let ?z2 = "mgo t M_idle ?z1"
  let ?z3 = "mgo u (M_own 0) (?z2\<lparr>mm_mtx := mm_mtx ?z2, mm_lv2 := set_cancel_sleep u 1 (add_flags u {F_wait} (mm_lv2 ?z2))\<rparr>)"
  have "mutex_step (mutex_start s x) ?z1"
    by (rule m_lock [where cas = True]) (use assms(3) x in \<open>simp_all add: mutex_start_def try_lock_def\<close>)
  moreover have "mutex_step ?z1 ?z2" by (rule m_return) simp
  moreover have "mutex_step ?z2 ?z3"
    by (rule m_busy [where cas = True]) (use assms pos in \<open>simp_all add: mutex_start_def try_lock_def\<close>)
  ultimately have "mutex_runs s x ?z3"
    unfolding mutex_runs_def by (meson converse_rtranclp_into_rtranclp rtranclp.rtrancl_refl)
  then show ?thesis using assms(4) by (intro exI [of _ ?z3]) (simp add: mutex_start_def)
qed

abbreviation tid_a :: tid where "tid_a \<equiv> 0x1000000"
abbreviation tid_b :: tid where "tid_b \<equiv> 0x1000001"

definition plain_mutex :: lv2_mutex where
  "plain_mutex = new_mutex \<lparr>ma_protocol = SYS_SYNC_FIFO, ma_recursive = SYS_SYNC_NOT_RECURSIVE,
     ma_pshared = SYS_SYNC_NOT_PROCESS_SHARED, ma_adaptive = 0x2000, ma_ipc_key = 0, ma_flags = 0, ma_name = 0\<rparr> 0"

lemma sample_run:
  obtains s z where "kernel_ready s" "mutex_runs s plain_mutex z" "mm_pc z tid_b = M_own 0" "mm_pc z tid_a = M_idle"
    "mm_mtx z = plain_mutex\<lparr>mtx_owner := tid_a\<rparr>" "mm_depth z tid_a = 1" "mm_lock z = None"
proof -
  have p: "is_ppu tid_a" "is_ppu tid_b" by (simp_all add: is_ppu_def id_type_def)
  then obtain s where s: "kernel_ready s" "can_sleep 0 s tid_b" using boot_runnable [of tid_b tid_a] by auto
  show thesis using mutex_run_busy [OF s p(1), of plain_mutex] that s(1) by (auto simp: plain_mutex_def)
qed

theorem mutex_exclusion_witness:
  "\<exists>s z. kernel_ready s \<and> mutex_runs s plain_mutex z \<and> mm_pc z tid_b = M_own 0 \<and> mm_depth z tid_a = 1
     \<and> (0 < mm_depth z tid_b \<longrightarrow> tid_b = tid_a)"
proof -
  obtain s z where z: "kernel_ready s" "mutex_runs s plain_mutex z" "mm_pc z tid_b = M_own 0" "mm_depth z tid_a = 1"
    by (rule sample_run) blast
  then show ?thesis using mutex_exclusion [OF z(1) z(2) [unfolded plain_mutex_def], of tid_a tid_b] by auto
qed

theorem mutex_lock_outcome_witness:
  "\<exists>s z z'. kernel_ready s \<and> mutex_runs s plain_mutex z \<and> mutex_step z z' \<and> mm_pc z' tid_b = M_ret CELL_OK
     \<and> mtx_owner (mm_mtx z') = tid_b"
proof -
  obtain s z where z: "kernel_ready s" "mutex_runs s plain_mutex z" "mm_pc z tid_b = M_own 0" "mm_pc z tid_a = M_idle"
    "mm_mtx z = plain_mutex\<lparr>mtx_owner := tid_a\<rparr>" by (rule sample_run) blast
  have x: "mtx_owner plain_mutex = 0" "lock_count plain_mutex = 0" "mtx_sq plain_mutex = []"
    by (simp_all add: plain_mutex_def new_mutex_def)
  let ?z1 = "mgo tid_a (M_ret CELL_OK) (dec_depth tid_a (z\<lparr>mm_mtx := plain_mutex\<rparr>))"
  have "mutex_step z ?z1"
    by (rule m_unlock [where cas = True]) (use z x in \<open>simp_all add: try_unlock_def is_ppu_def id_type_def\<close>)
  then have r: "mutex_runs s plain_mutex ?z1" using z(2) unfolding mutex_runs_def by (rule rtranclp.rtrancl_into_rtrancl [rotated])
  have "\<exists>s' y. try_own tid_b (mm_lv2 ?z1) (mm_mtx ?z1) = (True, s', y)" using x by (auto simp: try_own_def)
  then obtain z' where z': "mutex_step ?z1 z'" "mm_pc z' tid_b = M_ret CELL_OK" using m_own [of ?z1 tid_b 0] z(3) by fastforce
  then have "mtx_owner (mm_mtx z') = tid_b"
    using mutex_lock_outcome [OF z(1) r [unfolded plain_mutex_def] z'(1) [unfolded plain_mutex_def], of tid_b CELL_OK] z(3)
    by (simp add: is_ppu_def id_type_def)
  with z(1) r z' show ?thesis by blast
qed


end
