(* ===== verification/Lv2_Waiters.thy ===== *)
theory Lv2_Waiters
  imports Lv2_Object
begin

text \<open>
  The threads that wait on a kernel object. Every blocking system call of
  \<^verbatim>\<open>kernel/cellos/src/sys_*.cpp\<close> puts its caller to sleep and into a queue of the object, and every
  waking one takes threads off a queue and hands them to the scheduler. \<open>asleep s W G\<close> says that the
  threads in \<open>W\<close> sleep and those in \<open>G\<close> have been woken and are runnable; one lemma per kernel operation
  says how the two sets change. The lock, flag and queue theories use these lemmas for their queues.
\<close>

text \<open>\<^verbatim>\<open>sleep(ppu, timeout); lv2_obj::emplace(sq, &ppu);\<close>\<close>

definition enqueue_sleep :: "env \<Rightarrow> nat \<Rightarrow> tid list \<Rightarrow> lv2 \<Rightarrow> (tid list \<times> lv2) option" where
  "enqueue_sleep e timeout q s = map_option (\<lambda>(_, s1). emplace (cur e) q s1) (obj_sleep e timeout s)"

definition asleep :: "lv2 \<Rightarrow> tid set \<Rightarrow> tid set \<Rightarrow> bool" where
  "asleep s W G \<longleftrightarrow> kernel_ready s
     \<and> (\<forall>t\<in>W. is_ppu t \<and> t \<notin> set (g_ppu s) \<and> F_signal \<notin> flags_of s t \<and> F_wait \<in> flags_of s t)
     \<and> (\<forall>t\<in>G. t \<in> set (g_ppu s))"

text \<open>A thread that has entered a system call and may go to sleep.\<close>

definition may_sleep :: "nat \<Rightarrow> lv2 \<Rightarrow> tid \<Rightarrow> bool" where
  "may_sleep n s t \<longleftrightarrow> is_ppu t \<and> F_signal \<notin> flags_of s t \<and> F_wait \<in> flags_of s t \<and> (n \<noteq> 0 \<longrightarrow> F_notify \<notin> flags_of s t)"

text \<open>What scheduler calls leave alone: the registers and the mark of an interrupted call.\<close>

definition same_regs :: "lv2 \<Rightarrow> lv2 \<Rightarrow> bool" where
  "same_regs s s' \<longleftrightarrow> (\<forall>u. gpr (ppus s' u) = gpr (ppus s u) \<and> (F_again \<in> flags_of s' u \<longleftrightarrow> F_again \<in> flags_of s u))"

lemma same_regsD:
  "same_regs s s' \<Longrightarrow> gpr (ppus s' u) = gpr (ppus s u)" "same_regs s s' \<Longrightarrow> F_again \<in> flags_of s' u \<longleftrightarrow> F_again \<in> flags_of s u"
  by (simp_all add: same_regs_def)

lemma same_regs_refl [simp]: "same_regs s s"
  by (simp add: same_regs_def)

lemma same_regs_again: "same_regs s s' \<Longrightarrow> some_again s' q = some_again s q"
  by (simp add: same_regs_def some_again_def)

lemma sched_same_regs: "sched_frame s s' \<Longrightarrow> same_regs s s'"
  by (simp add: same_regs_def sched_frame_gpr sched_frame_again)

lemma asleepD:
  assumes "asleep s W G"
  shows "kernel_ready s" "t \<in> W \<Longrightarrow> is_ppu t" "t \<in> W \<Longrightarrow> t \<notin> set (g_ppu s)" "t \<in> W \<Longrightarrow> F_signal \<notin> flags_of s t"
    "t \<in> W \<Longrightarrow> F_wait \<in> flags_of s t" "t \<in> G \<Longrightarrow> t \<in> set (g_ppu s)"
  using assms by (auto simp: asleep_def)

lemma asleep_mono: "asleep s W G \<Longrightarrow> W' \<subseteq> W \<Longrightarrow> G' \<subseteq> G \<Longrightarrow> asleep s W' G'"
  unfolding asleep_def by blast

lemma asleep_disjoint: "asleep s W G \<Longrightarrow> W \<inter> G = {}"
  by (auto simp: asleep_def)

lemma asleep_gpr [simp]: "asleep (set_gpr t r v s) W G = asleep s W G"
  by (simp add: asleep_def)

lemma asleep_add:
  assumes "asleep s W G" "F_notify \<notin> F" "t \<notin> W \<or> F_signal \<notin> F"
  shows "asleep (add_flags t F s) W G"
  using assms by (auto simp: asleep_def intro: kernel_ready_flags)

lemma asleep_del: "asleep s W G \<Longrightarrow> asleep (del_flags t {F_signal} s) W G"
  using kernel_ready_del [of "{F_signal}" s t] by (auto simp: asleep_def del_flags_def)

lemma asleep_frame:
  assumes a: "asleep s W G" and f: "sched_frame s s'" "kernel_ready s'"
    and W: "\<And>t. t \<in> W' \<Longrightarrow> t \<in> W \<and> t \<notin> set (g_ppu s')" and G: "\<And>t. t \<in> G' \<Longrightarrow> t \<in> set (g_ppu s')"
  shows "asleep s' W' G'"
proof -
  have "is_ppu t \<and> t \<notin> set (g_ppu s') \<and> F_signal \<notin> flags_of s' t \<and> F_wait \<in> flags_of s' t" if "t \<in> W'" for t
    using W [OF that] asleepD(2,4,5) [OF a, of t] sched_frame_signal [OF f(1), of t] sched_frame_wait [OF f(1), of t] by blast
  then show ?thesis using f(2) G by (simp add: asleep_def)
qed

text \<open>The calling thread goes to sleep; the threads on the pending list \<open>ws\<close> are woken at the same time.\<close>

lemma sleep_spec:
  assumes a: "asleep s W G" and m: "may_sleep n s (cur e)" and c: "cur e \<notin> G" "cur e \<notin> set ws" and ws: "\<forall>t\<in>set ws. is_ppu t"
  shows "\<exists>r s'. obj_sleep e n (append_all ws s) = Some (r, s') \<and> asleep s' (insert (cur e) (W - set ws)) (set ws \<union> G) \<and> same_regs s s'"
proof -
  have i: "sched_inv (append_all ws s)" "g_to_awake (append_all ws s) = ws"
    using asleepD(1) [OF a] by (simp_all add: append_all_alt kernel_ready_def inv_defs)
  obtain r s' where s': "obj_sleep e n (append_all ws s) = Some (r, s')" "kernel_ready s'"
    "set (g_ppu s') = set ws \<union> (set (g_ppu s) - {cur e})" "sched_frame (append_all ws s) s'"
    using obj_sleep_pending [OF i(1), of e n] i(2) m ws by (auto simp: may_sleep_def append_all_alt)
  have fr: "sched_frame s s'" using s'(4) by (simp add: sched_frame_def append_all_alt thr_frame_def)
  have sl: "F_signal \<notin> flags_of s' (cur e)" "F_wait \<in> flags_of s' (cur e)"
    using sched_frame_signal [OF fr] sched_frame_wait [OF fr] s'(3) c m by (auto simp: may_sleep_def)
  have "asleep s' (W - set ws - {cur e}) (set ws \<union> G)"
    using asleepD(3,6) [OF a] c s'(3) by (intro asleep_frame [OF a fr s'(2)]) auto
  then have "asleep s' (insert (cur e) (W - set ws)) (set ws \<union> G)"
    using s'(3) sl m c by (auto simp: asleep_def may_sleep_def)
  then show ?thesis using s'(1) sched_same_regs [OF fr] by blast
qed

lemma stamp_frame [simp]: "g_ppu (stamp_order t s) = g_ppu s" "flags_of (stamp_order t s) u = flags_of s u" "gpr (ppus (stamp_order t s) u) = gpr (ppus s u)"
  by (simp_all add: stamp_order_def)

lemma asleep_emplace:
  "asleep s W G \<Longrightarrow> asleep (snd (emplace t q s)) W G" "asleep s W G \<Longrightarrow> asleep (stamp_order t s) W G"
  "same_regs s (snd (emplace t q s))" "same_regs s (stamp_order t s)"
  using emplace_frame [where t = t and q = q and s = s] by (simp_all add: asleep_def same_regs_def)

lemma enqueue_sleep_spec:
  assumes a: "asleep s W G" and m: "may_sleep n s (cur e)" and c: "cur e \<notin> G"
  shows "\<exists>s'. enqueue_sleep e n q s = Some (cur e # q, s') \<and> asleep s' (insert (cur e) W) G \<and> same_regs s s'"
proof -
  obtain r s1 where s1: "obj_sleep e n s = Some (r, s1)" "asleep s1 (insert (cur e) W) G" "same_regs s s1"
    using sleep_spec [OF a m c, of "[]"] by (auto simp: append_all_alt)
  have "enqueue_sleep e n q s = Some (cur e # q, snd (emplace (cur e) q s1))"
    using s1(1) emplace_frame(1) [of "cur e" q s1] by (simp add: enqueue_sleep_def prod_eq_iff)
  moreover have "same_regs s (snd (emplace (cur e) q s1))"
    using s1(3) asleep_emplace(3) [of s1 "cur e" q] by (simp add: same_regs_def)
  ultimately show ?thesis using asleep_emplace(1) [OF s1(2)] by blast
qed

lemma schedule_cases:
  assumes "schedule thr pr q = (r, q')"
  shows "r = None \<longleftrightarrow> q = []" and "r = Some f \<Longrightarrow> f \<in> set q" and "r = Some f \<Longrightarrow> F_again \<notin> state (thr f) \<Longrightarrow> q' = remove1 f q"
  using assms sched_pick_in [of q thr pr] by (auto simp: schedule_def Let_def split: if_splits)

lemma wake_ppu_spec:
  assumes a: "asleep s W G" and f: "is_ppu f"
  shows "\<exists>s'. obj_awake e f s = Some s' \<and> asleep s' (W - {f}) (insert f G) \<and> same_regs s s'"
proof -
  obtain s' where s': "obj_awake e f s = Some s'" "kernel_ready s'" "set (g_ppu s') = insert f (set (g_ppu s))" "sched_frame s s'"
    using obj_awake_spec [OF asleepD(1) [OF a] f, of e] by blast
  then have "asleep s' (W - {f}) (insert f G)"
    using asleepD(3,6) [OF a] by (intro asleep_frame [OF a s'(4,2)]) auto
  then show ?thesis using s' sched_same_regs by blast
qed

lemma wake_one_spec:
  assumes "asleep s W G" and "f \<in> W"
  shows "\<exists>s'. obj_awake e f s = Some s' \<and> asleep s' (W - {f}) (insert f G) \<and> same_regs s s'"
  using wake_ppu_spec [OF assms(1) asleepD(2) [OF assms]] .

lemma wake_all_spec:
  assumes a: "asleep s W G" and f: "set ws \<subseteq> W"
  shows "\<exists>s'. obj_awake_all e (append_all ws s) = Some s' \<and> asleep s' (W - set ws) (set ws \<union> G) \<and> same_regs s s'"
proof -
  have i: "sched_inv (append_all ws s)" "g_to_awake (append_all ws s) = ws"
    using asleepD(1) [OF a] by (simp_all add: append_all_alt kernel_ready_def inv_defs)
  obtain s' where s': "obj_awake_all e (append_all ws s) = Some s'" "kernel_ready s'" "set (g_ppu s') = set ws \<union> set (g_ppu s)"
    "sched_frame (append_all ws s) s'"
    using obj_awake_all_spec [OF i, of e] asleepD(2) [OF a] f by (auto simp: append_all_alt)
  have fr: "sched_frame s s'" using s'(4) by (simp add: sched_frame_def append_all_alt thr_frame_def)
  have "asleep s' (W - set ws) (set ws \<union> G)"
    using asleepD(3,6) [OF a] s'(3) f by (intro asleep_frame [OF a fr s'(2)]) auto
  then show ?thesis using s'(1) sched_same_regs [OF fr] by blast
qed

text \<open>Leaving the wait loop: only a thread that was woken does, with the result in its register.\<close>

lemma wait_iter_break:
  assumes a: "asleep s W G" and op: "wait_iter q f t False c s x = Some (W_break, s', x')" and q: "q t x \<longleftrightarrow> t \<in> W"
  shows "x' = x" "t \<notin> W" "asleep s' W G" "gpr (ppus s' u) = gpr (ppus s u)" "F_again \<in> flags_of s' u \<longleftrightarrow> F_again \<in> flags_of s u"
proof -
  have s': "x' = x" "s' = del_flags t {F_signal} s \<or> s' = s" "flags_of s t = {} \<or> F_signal \<in> flags_of s t \<or> \<not> q t x"
    using op by (auto simp: wait_iter_def split: if_splits)
  then show "x' = x" by simp
  show "t \<notin> W" using s'(3) q asleepD(4,5) [OF a, of t] by auto
  show "asleep s' W G" using s'(2) a asleep_del [OF a] by blast
  show "gpr (ppus s' u) = gpr (ppus s u)" "F_again \<in> flags_of s' u \<longleftrightarrow> F_again \<in> flags_of s u"
    using s'(2) by (auto simp: del_flags_def split: if_splits)
qed

lemma wait_iter_stop:
  assumes "wait_iter q f t False c s x = Some (W_return, s', x')"
  shows "x' = x" "q t x" "s' = add_flags t {F_again} s"
  using assms by (auto simp: wait_iter_def split: if_splits)

text \<open>
  What the rest of the system may do in between: it does not wake or signal the sleeping threads, keeps
  the woken ones runnable and leaves the registers of the threads in a call (\<open>C\<close>) alone.
\<close>

definition others_act :: "tid set \<Rightarrow> tid set \<Rightarrow> tid set \<Rightarrow> lv2 \<Rightarrow> lv2 \<Rightarrow> bool" where
  "others_act W G C s s' \<longleftrightarrow> kernel_ready s'
     \<and> (\<forall>t\<in>W. t \<notin> set (g_ppu s') \<and> (\<forall>f\<in>{F_signal, F_wait, F_again}. f \<in> flags_of s' t \<longleftrightarrow> f \<in> flags_of s t))
     \<and> (\<forall>t\<in>G. t \<in> set (g_ppu s')) \<and> (\<forall>t\<in>C. gpr (ppus s' t) = gpr (ppus s t))"

lemma asleep_others: "asleep s W G \<Longrightarrow> others_act W G C s s' \<Longrightarrow> asleep s' W G"
  by (auto simp: asleep_def others_act_def)

text \<open>Draining a whole queue: \<^verbatim>\<open>while (auto cpu = schedule(sq, SYS_SYNC_FIFO)) append(cpu);\<close>\<close>

partial_function (option) drain_queue :: "(tid \<Rightarrow> ppu_thread) \<Rightarrow> tid list \<Rightarrow> tid list \<Rightarrow> tid list option" where
  "drain_queue thr q ws =
     (case schedule thr SYS_SYNC_FIFO q of
        (None, _) \<Rightarrow> Some ws
      | (Some f, q') \<Rightarrow> drain_queue thr q' (ws @ [f]))"

lemma drain_queue_simps:
  "drain_queue thr [] ws = Some ws"
  "q \<noteq> [] \<Longrightarrow> F_again \<notin> state (thr (last q)) \<Longrightarrow> distinct q \<Longrightarrow> drain_queue thr q ws = drain_queue thr (butlast q) (ws @ [last q])"
  by (subst drain_queue.simps; simp add: schedule_def sched_pick_def Let_def remove1_last)+

lemma drain_queue_all:
  "distinct q \<Longrightarrow> \<forall>t\<in>set q. F_again \<notin> state (thr t) \<Longrightarrow> drain_queue thr q ws = Some (ws @ rev q)"
proof (induction q arbitrary: ws rule: rev_induct)
  case (snoc x q)
  then show ?case using drain_queue_simps(2) [of "q @ [x]" thr ws] by simp
qed (simp add: drain_queue_simps)

text \<open>A thread that was interrupted in its wait stays in the queue: the loop never ends.\<close>

lemma drain_queue_stuck:
  assumes "drain_queue thr q ws = Some vs" "distinct q"
  shows "\<forall>t\<in>set q. F_again \<notin> state (thr t)"
proof -
  have "distinct q \<longrightarrow> (\<forall>t\<in>set q. F_again \<notin> state (thr t))"
  proof (rule drain_queue.raw_induct [where P = "\<lambda>thr q _ _. distinct q \<longrightarrow> (\<forall>t\<in>set q. F_again \<notin> state (thr t))", OF _ assms(1)])
    fix f thr q ws vs
    assume 1: "\<And>thr q ws vs. f thr q ws = Some vs \<Longrightarrow> distinct q \<longrightarrow> (\<forall>t\<in>set q. F_again \<notin> state (thr t))"
      "(case schedule thr SYS_SYNC_FIFO q of (None, _) \<Rightarrow> Some ws | (Some t, q') \<Rightarrow> f thr q' (ws @ [t])) = Some vs"
    show "distinct q \<longrightarrow> (\<forall>t\<in>set q. F_again \<notin> state (thr t))"
    proof (cases "q = []")
      case False
      show ?thesis
      proof (cases "F_again \<in> state (thr (last q))")
        case True
        then have "f thr q (ws @ [last q]) = Some vs" using 1(2) False by (simp add: schedule_def sched_pick_def Let_def)
        then show ?thesis using 1(1) by blast
      next
        case again: False
        then have "f thr (remove1 (last q) q) (ws @ [last q]) = Some vs"
          using 1(2) False by (simp add: schedule_def sched_pick_def Let_def)
        then have *: "distinct (remove1 (last q) q) \<longrightarrow> (\<forall>t\<in>set (remove1 (last q) q). F_again \<notin> state (thr t))" by (rule 1(1))
        have "F_again \<notin> state (thr t)" if "distinct q" "t \<in> set q" for t
          using * again that by (cases "t = last q") auto
        then show ?thesis by blast
      qed
    qed simp
  qed
  then show ?thesis using assms(2) by simp
qed

end
