(* ===== verification/Sys_Rwlock.thy ===== *)
theory Sys_Rwlock
  imports Lv2_Waiters
begin

text \<open>
  Reader-writer locks: \<^verbatim>\<open>kernel/cellos/src/sys_rwlock.cpp\<close>. \<open>rw_owner\<close> is the signed 64-bit word that
  encodes the lock: zero when free, \<open>-2 * n\<close> for \<open>n\<close> readers, twice the id of a writer; the lowest bit says
  that threads wait. The lock-free attempts (\<open>_fast\<close>), the part under \<^verbatim>\<open>rwlock.mutex\<close> (\<open>_slow\<close>) and what a
  waiter does when its time is up (\<open>_expire\<close>) are separate operations; the system calls compose them.
\<close>

section \<open>Operations on the lock word\<close>

definition can_read :: "int \<Rightarrow> bool" where
  "can_read v \<longleftrightarrow> v \<le> 0 \<and> \<not> odd v"

text \<open>\<^verbatim>\<open>ppu.id << 1\<close>\<close>

definition writer_word :: "tid \<Rightarrow> int" where
  "writer_word t = int (2 * t mod 2 ^ 32)"

definition rw_rlock_fast :: "lv2_rwlock \<Rightarrow> lv2_rwlock option" where
  "rw_rlock_fast x = (if can_read (rw_owner x) then Some (x\<lparr>rw_owner := s64 (rw_owner x - 2)\<rparr>) else None)"

definition rw_rlock_slow :: "env \<Rightarrow> nat \<Rightarrow> lv2 \<Rightarrow> lv2_rwlock \<Rightarrow> (bool \<times> lv2 \<times> lv2_rwlock) option" where
  "rw_rlock_slow e timeout s x =
     (let old = rw_owner x;
          x1 = x\<lparr>rw_owner := if can_read old then s64 (old - 2) else old OR 1\<rparr>
      in if old > 0 \<or> odd old
         then map_option (\<lambda>(q, s1). (False, s1, x1\<lparr>rw_rq := q\<rparr>)) (enqueue_sleep e timeout (rw_rq x) s)
         else Some (True, s, x1))"

definition rw_rexpire :: "tid \<Rightarrow> lv2 \<Rightarrow> lv2_rwlock \<Rightarrow> (lv2 \<times> lv2_rwlock) option" where
  "rw_rexpire t s x =
     (if rw_rq x = [] then Some (s, x)
      else case unqueue (rw_rq x) t of
        (None, _) \<Rightarrow> Some (s, x)
      | (Some _, q) \<Rightarrow> Some (set_gpr t 3 CELL_ETIMEDOUT s, x\<lparr>rw_rq := q\<rparr>))"

definition rw_tryrlock :: "lv2_rwlock \<Rightarrow> bool \<times> lv2_rwlock" where
  "rw_tryrlock x = (if can_read (rw_owner x) then (True, x\<lparr>rw_owner := s64 (rw_owner x - 2)\<rparr>) else (False, x))"

definition rw_runlock_fast :: "lv2_rwlock \<Rightarrow> lv2_rwlock option" where
  "rw_runlock_fast x =
     (if rw_owner x < 0 \<and> \<not> odd (rw_owner x) then Some (x\<lparr>rw_owner := s64 (rw_owner x + 2)\<rparr>) else None)"

text \<open>
  The next writer becomes the owner: \<^verbatim>\<open>rwlock->owner = cpu->id << 1 | !!rwlock->wq | !!rwlock->rq\<close>. The
  word is given after the queues have changed.
\<close>

definition hand_word :: "tid \<Rightarrow> tid list \<Rightarrow> tid list \<Rightarrow> int" where
  "hand_word t wq rq = (writer_word t OR of_bool (wq \<noteq> [])) OR of_bool (rq \<noteq> [])"

datatype rw_release = RW_perm | RW_kept | RW_stopped tid | RW_handed tid | RW_shared "tid list" | RW_freed

definition rw_runlock_slow :: "env \<Rightarrow> lv2 \<Rightarrow> lv2_rwlock \<Rightarrow> (rw_release \<times> lv2 \<times> lv2_rwlock) option" where
  "rw_runlock_slow e s x =
     (let old = rw_owner x; x1 = (if old < -1 then x\<lparr>rw_owner := s64 (old + 2)\<rparr> else x) in
      if old \<ge> 0 then Some (RW_perm, s, x1)
      else if old = -1 then
        (case schedule (ppus s) (rw_protocol x1) (rw_wq x1) of
           (Some f, q) \<Rightarrow>
             if F_again \<in> flags_of s f then Some (RW_stopped f, add_flags (cur e) {F_again} s, x1)
             else map_option (\<lambda>s1. (RW_handed f, s1, x1\<lparr>rw_wq := q, rw_owner := hand_word f q (rw_rq x1)\<rparr>)) (obj_awake e f s)
         | (None, _) \<Rightarrow> if rw_rq x1 \<noteq> [] then None else Some (RW_freed, s, x1\<lparr>rw_owner := 0\<rparr>))
      else Some (RW_kept, s, x1))"

definition rw_wlock_fast :: "tid \<Rightarrow> lv2_rwlock \<Rightarrow> (int \<times> lv2_rwlock) option" where
  "rw_wlock_fast t x =
     (if rw_owner x = 0 then Some (0, x\<lparr>rw_owner := writer_word t\<rparr>)
      else if rw_owner x div 2 = int t then Some (rw_owner x, x) else None)"

definition rw_wlock_slow :: "env \<Rightarrow> nat \<Rightarrow> lv2 \<Rightarrow> lv2_rwlock \<Rightarrow> (int \<times> lv2 \<times> lv2_rwlock) option" where
  "rw_wlock_slow e timeout s x =
     (let old = rw_owner x;
          x1 = x\<lparr>rw_owner := if old = 0 then writer_word (cur e) else old OR 1\<rparr>
      in if old \<noteq> 0
         then map_option (\<lambda>(q, s1). (old, s1, x1\<lparr>rw_wq := q\<rparr>)) (enqueue_sleep e timeout (rw_wq x) s)
         else Some (old, s, x1))"

text \<open>
  A writer gives up. The readers that queued behind it are let in when it was the last waiting writer
  and readers hold the lock. The result is \<open>None\<close> when the loop over the readers does not end.
\<close>

definition rw_wexpire :: "env \<Rightarrow> lv2 \<Rightarrow> lv2_rwlock \<Rightarrow> (lv2 \<times> lv2_rwlock) option" where
  "rw_wexpire e s x =
     (case unqueue (rw_wq x) (cur e) of
        (None, _) \<Rightarrow> Some (s, x)
      | (Some _, q) \<Rightarrow>
          let x1 = x\<lparr>rw_wq := q\<rparr> in
          map_option (\<lambda>(s1, x2). (set_gpr (cur e) 3 CELL_ETIMEDOUT s1, x2))
            (if rw_rq x1 \<noteq> [] \<and> rw_wq x1 = [] \<and> rw_owner x1 < 0 then
               (case drain_queue (ppus s) (rw_rq x1) [] of
                  None \<Rightarrow> None
                | Some ws \<Rightarrow>
                    map_option (\<lambda>s1. (s1, x1\<lparr>rw_rq := [], rw_owner := s64 (rw_owner x1 - 2 * int (length ws)) AND -2\<rparr>))
                      (obj_awake_all e (append_all ws s)))
             else if rw_rq x1 = [] \<and> rw_wq x1 = [] then Some (s, x1\<lparr>rw_owner := rw_owner x1 AND -2\<rparr>)
             else Some (s, x1)))"

definition rw_trywlock :: "tid \<Rightarrow> lv2_rwlock \<Rightarrow> int \<times> lv2_rwlock" where
  "rw_trywlock t x = (rw_owner x, if rw_owner x = 0 then x\<lparr>rw_owner := writer_word t\<rparr> else x)"

definition rw_wunlock_fast :: "tid \<Rightarrow> lv2_rwlock \<Rightarrow> int \<times> lv2_rwlock" where
  "rw_wunlock_fast t x = (rw_owner x, if rw_owner x = writer_word t then x\<lparr>rw_owner := 0\<rparr> else x)"

definition rw_wunlock_slow :: "env \<Rightarrow> lv2 \<Rightarrow> lv2_rwlock \<Rightarrow> (rw_release \<times> lv2 \<times> lv2_rwlock) option" where
  "rw_wunlock_slow e s x =
     (case schedule (ppus s) (rw_protocol x) (rw_wq x) of
        (Some f, q) \<Rightarrow>
          if F_again \<in> flags_of s f then Some (RW_stopped f, add_flags (cur e) {F_again} s, x)
          else map_option (\<lambda>s1. (RW_handed f, s1, x\<lparr>rw_wq := q, rw_owner := hand_word f q (rw_rq x)\<rparr>)) (obj_awake e f s)
      | (None, _) \<Rightarrow>
          if rw_rq x \<noteq> [] then
            if some_again s (rw_rq x) then Some (RW_stopped 0, add_flags (cur e) {F_again} s, x)
            else
              (case drain_queue (ppus s) (rw_rq x) [] of
                 None \<Rightarrow> None
               | Some ws \<Rightarrow>
                   map_option (\<lambda>s1. (RW_shared ws, s1, x\<lparr>rw_rq := [], rw_owner := -2 * int (length ws)\<rparr>))
                     (obj_awake_all e (append_all ws s)))
          else Some (RW_freed, s, x\<lparr>rw_owner := 0\<rparr>))"

section \<open>System calls\<close>

record sys_rwlock_attribute_t =
  rwa_protocol :: u32
  rwa_pshared :: u32
  rwa_ipc_key :: u64
  rwa_flags :: u32
  rwa_name :: u64

definition new_rwlock :: "u32 \<Rightarrow> u64 \<Rightarrow> u64 \<Rightarrow> lv2_rwlock" where
  "new_rwlock protocol key name =
     \<lparr>obj_exists = 0, rw_protocol = take_bit 8 protocol, rw_key = key, rw_name = name, rw_owner = 0, rw_rq = [], rw_wq = []\<rparr>"

definition rwlock_at :: "u32 \<Rightarrow> kernel \<Rightarrow> (nat \<times> lv2_rwlock) option" where
  "rwlock_at v k = (case obj_at rwlock_base_id v k of Some (p, O_rwlock x) \<Rightarrow> Some (p, x) | _ \<Rightarrow> None)"

definition put_rwlock :: "nat \<Rightarrow> lv2_rwlock \<Rightarrow> kernel \<Rightarrow> kernel" where
  "put_rwlock p x k = k\<lparr>store := (store k)(p \<mapsto> O_rwlock x)\<rparr>"

definition sys_rwlock_create ::
    "env \<Rightarrow> bool \<Rightarrow> sys_rwlock_attribute_t option \<Rightarrow> kernel \<Rightarrow> (error_code \<times> u32 option \<times> kernel) option" where
  "sys_rwlock_create e id_ptr attr k =
     (let k1 = enter e k in
      case attr of
        None \<Rightarrow> Some (CELL_EFAULT, None, k1)
      | Some a \<Rightarrow>
          if \<not> id_ptr then Some (CELL_EFAULT, None, k1)
          else if rwa_protocol a \<noteq> SYS_SYNC_FIFO \<and> rwa_protocol a \<noteq> SYS_SYNC_PRIORITY then Some (CELL_EINVAL, None, k1)
          else
            let key = get_key (rwa_pshared a) (rwa_ipc_key a) in
            (case create rwlock_base_id (rwa_pshared a) key (rwa_flags a)
                    (\<lambda>_. O_rwlock (new_rwlock (rwa_protocol a) key (rwa_name a))) True k1 of
               None \<Rightarrow> None
             | Some (err, k2) \<Rightarrow>
                 if err \<noteq> 0 then Some (err, None, k2) else Some (CELL_OK, Some (last_id (ids k2)), k2)))"

definition sys_rwlock_destroy :: "env \<Rightarrow> u32 \<Rightarrow> kernel \<Rightarrow> error_code \<times> kernel" where
  "sys_rwlock_destroy e v k =
     (case withdraw_obj rwlock_base_id v
             (\<lambda>p k1. case store k1 p of
                Some (O_rwlock x) \<Rightarrow>
                  if rw_owner x \<noteq> 0 then (CELL_EBUSY, k1) else (CELL_OK, on_id_destroy rwlock_base_id p (rw_key x) k1)
              | _ \<Rightarrow> (CELL_ESRCH, k1)) (enter e k) of
        (None, k1) \<Rightarrow> (CELL_ESRCH, k1)
      | (Some (p, err), k1) \<Rightarrow> (err, k1))"

definition sys_rwlock_rlock :: "env \<Rightarrow> u32 \<Rightarrow> nat \<Rightarrow> kernel \<Rightarrow> (sys_result \<times> kernel) option" where
  "sys_rwlock_rlock e v timeout k =
     (let k1 = enter e k in
      case rwlock_at v k1 of
        None \<Rightarrow> Some (Done CELL_ESRCH, k1)
      | Some (p, x) \<Rightarrow>
          (case rw_rlock_fast x of
             Some x1 \<Rightarrow> Some (Done CELL_OK, put_rwlock p x1 k1)
           | None \<Rightarrow>
               (case rw_rlock_slow e timeout (sched k1) x of
                  None \<Rightarrow> None
                | Some (True, s, x1) \<Rightarrow> Some (Done CELL_OK, put_rwlock p x1 (k1\<lparr>sched := s\<rparr>))
                | Some (False, s, x1) \<Rightarrow> Some (Blocked, put_rwlock p x1 (k1\<lparr>sched := set_gpr (cur e) 3 CELL_OK s\<rparr>)))))"

definition sys_rwlock_rlock_iter ::
    "env \<Rightarrow> nat \<Rightarrow> nat \<Rightarrow> bool \<Rightarrow> bool \<Rightarrow> kernel \<Rightarrow> (wait_step \<times> kernel) option" where
  "sys_rwlock_rlock_iter e p timeout timed_out check_state k =
     (case store k p of
        Some (O_rwlock x) \<Rightarrow>
          map_option (\<lambda>(w, s, x1). (w, put_rwlock p x1 (k\<lparr>sched := s\<rparr>)))
            (wait_iter (\<lambda>t y. t \<in> set (rw_rq y)) rw_rexpire (cur e) (timeout \<noteq> 0 \<and> timed_out) check_state (sched k) x)
      | _ \<Rightarrow> None)"

definition sys_rwlock_tryrlock :: "env \<Rightarrow> u32 \<Rightarrow> kernel \<Rightarrow> error_code \<times> kernel" where
  "sys_rwlock_tryrlock e v k =
     (let k1 = enter e k in
      case rwlock_at v k1 of
        None \<Rightarrow> (CELL_ESRCH, k1)
      | Some (p, x) \<Rightarrow>
          (case rw_tryrlock x of
             (False, x1) \<Rightarrow> (CELL_EBUSY, put_rwlock p x1 k1)
           | (True, x1) \<Rightarrow> (CELL_OK, put_rwlock p x1 k1)))"

definition release_result :: "rw_release \<Rightarrow> error_code" where
  "release_result r = (if r = RW_perm then CELL_EPERM else CELL_OK)"

definition sys_rwlock_runlock :: "env \<Rightarrow> u32 \<Rightarrow> kernel \<Rightarrow> (error_code \<times> kernel) option" where
  "sys_rwlock_runlock e v k =
     (let k1 = enter e k in
      case rwlock_at v k1 of
        None \<Rightarrow> Some (CELL_ESRCH, k1)
      | Some (p, x) \<Rightarrow>
          (case rw_runlock_fast x of
             Some x1 \<Rightarrow> Some (CELL_OK, put_rwlock p x1 k1)
           | None \<Rightarrow>
               map_option (\<lambda>(r, s, x1). (release_result r, put_rwlock p x1 (k1\<lparr>sched := s\<rparr>)))
                 (rw_runlock_slow e (sched k1) x)))"

definition sys_rwlock_wlock :: "env \<Rightarrow> u32 \<Rightarrow> nat \<Rightarrow> kernel \<Rightarrow> (sys_result \<times> kernel) option" where
  "sys_rwlock_wlock e v timeout k =
     (let k1 = enter e k in
      case rwlock_at v k1 of
        None \<Rightarrow> Some (Done CELL_ESRCH, k1)
      | Some (p, x) \<Rightarrow>
          (case (case rw_wlock_fast (cur e) x of
                   Some (r, x1) \<Rightarrow> Some (r, sched k1, x1)
                 | None \<Rightarrow> rw_wlock_slow e timeout (sched k1) x) of
             None \<Rightarrow> None
           | Some (r, s, x1) \<Rightarrow>
               let k2 = put_rwlock p x1 (k1\<lparr>sched := s\<rparr>) in
               if r = 0 then Some (Done CELL_OK, k2)
               else if r div 2 = int (cur e) then Some (Done CELL_EDEADLK, k2)
               else Some (Blocked, k2\<lparr>sched := set_gpr (cur e) 3 CELL_OK s\<rparr>)))"

definition sys_rwlock_wlock_iter ::
    "env \<Rightarrow> nat \<Rightarrow> nat \<Rightarrow> bool \<Rightarrow> bool \<Rightarrow> kernel \<Rightarrow> (wait_step \<times> kernel) option" where
  "sys_rwlock_wlock_iter e p timeout timed_out check_state k =
     (case store k p of
        Some (O_rwlock x) \<Rightarrow>
          map_option (\<lambda>(w, s, x1). (w, put_rwlock p x1 (k\<lparr>sched := s\<rparr>)))
            (wait_iter (\<lambda>t y. t \<in> set (rw_wq y)) (\<lambda>_. rw_wexpire e) (cur e) (timeout \<noteq> 0 \<and> timed_out) check_state (sched k) x)
      | _ \<Rightarrow> None)"

definition sys_rwlock_trywlock :: "env \<Rightarrow> u32 \<Rightarrow> kernel \<Rightarrow> error_code \<times> kernel" where
  "sys_rwlock_trywlock e v k =
     (let k1 = enter e k in
      case rwlock_at v k1 of
        None \<Rightarrow> (CELL_ESRCH, k1)
      | Some (p, x) \<Rightarrow>
          (case rw_trywlock (cur e) x of
             (r, x1) \<Rightarrow>
               (if r \<noteq> 0 then if r div 2 = int (cur e) then CELL_EDEADLK else CELL_EBUSY else CELL_OK, put_rwlock p x1 k1)))"

definition sys_rwlock_wunlock :: "env \<Rightarrow> u32 \<Rightarrow> kernel \<Rightarrow> (error_code \<times> kernel) option" where
  "sys_rwlock_wunlock e v k =
     (let k1 = enter e k in
      case rwlock_at v k1 of
        None \<Rightarrow> Some (CELL_ESRCH, k1)
      | Some (p, x) \<Rightarrow>
          (case rw_wunlock_fast (cur e) x of
             (r, x1) \<Rightarrow>
               if r div 2 \<noteq> int (cur e) then Some (CELL_EPERM, put_rwlock p x1 k1)
               else if odd r then
                 map_option (\<lambda>(_, s, x2). (CELL_OK, put_rwlock p x2 (k1\<lparr>sched := s\<rparr>))) (rw_wunlock_slow e (sched k1) x1)
               else Some (CELL_OK, put_rwlock p x1 k1)))"

end
