(* ===== verification/Rwlock_Threads.thy ===== *)
theory Rwlock_Threads
  imports Sys_Rwlock
begin

text \<open>
  Any number of threads on one reader-writer lock. The part of a call under \<^verbatim>\<open>rwlock.mutex\<close> is one
  step: while the word is odd no lock-free attempt changes it, and every part under the mutex that does
  more than change the word leaves it odd until its last access to it. \<^verbatim>\<open>sys_rwlock_wunlock\<close> is cut
  between its lock-free attempt and the mutex (\<open>RW_unlocking\<close>). \<open>rs_readers\<close>, \<open>rs_writer\<close> and
  \<open>rs_granted\<close> are ghost state: the number of read locks held, the thread that holds the write lock, and
  the waiting threads that have been let in.
\<close>

section \<open>The lock word\<close>

lemma or_one: "v OR 1 = v + of_bool (even (v :: int))"
  by (simp add: or_one_eq)

lemma and_minus_two: "v AND - 2 = v - of_bool (odd (v :: int))"
proof -
  have "v AND - 2 = 2 * (v div 2 AND - 1)" by (subst and_rec) simp
  then show ?thesis by (simp add: minus_mod_eq_mult_div [symmetric] mod_2_eq_odd)
qed

lemma writer_word: "is_ppu t \<Longrightarrow> writer_word t = 2 * int t"
proof -
  assume "is_ppu t"
  then have "t div 2 ^ 24 = 1" by (simp add: is_ppu_def id_type_def)
  then have "t < 2 ^ 25" using div_mult_mod_eq [of t "2 ^ 24"] mod_less_divisor [of "2 ^ 24" t] by simp
  then show ?thesis by (simp add: writer_word_def)
qed

lemma hand_word: "is_ppu t \<Longrightarrow> hand_word t wq rq = 2 * int t + of_bool (wq \<noteq> [] \<or> rq \<noteq> [])"
  by (simp add: hand_word_def writer_word or_one)

section \<open>Steps\<close>

datatype rw_pc = RW_idle | RW_rwait nat | RW_wwait nat | RW_unlocking | RW_ret u64 | RW_again

record rw_sys =
  rs_lv2 :: lv2
  rs_rw :: lv2_rwlock
  rs_pc :: "tid \<Rightarrow> rw_pc"
  rs_readers :: nat
  rs_writer :: "tid option"
  rs_granted :: "tid set"

definition rgo :: "tid \<Rightarrow> rw_pc \<Rightarrow> rw_sys \<Rightarrow> rw_sys" where
  "rgo t pc z = z\<lparr>rs_pc := (rs_pc z)(t := pc)\<rparr>"

abbreviation rq_of :: "rw_sys \<Rightarrow> tid list" where "rq_of z \<equiv> rw_rq (rs_rw z)"
abbreviation wq_of :: "rw_sys \<Rightarrow> tid list" where "wq_of z \<equiv> rw_wq (rs_rw z)"

text \<open>The ghost effect of a release that lets other threads in.\<close>

fun let_in :: "rw_release \<Rightarrow> rw_sys \<Rightarrow> rw_sys" where
  "let_in (RW_handed f) z = z\<lparr>rs_writer := Some f, rs_granted := insert f (rs_granted z)\<rparr>"
| "let_in (RW_shared ws) z = z\<lparr>rs_readers := rs_readers z + length ws, rs_granted := set ws \<union> rs_granted z\<rparr>"
| "let_in _ z = z"

fun gives_up :: "rw_release \<Rightarrow> bool" where
  "gives_up RW_perm = False"
| "gives_up (RW_stopped _) = False"
| "gives_up _ = True"

fun release_pc :: "rw_release \<Rightarrow> rw_pc" where
  "release_pc RW_perm = RW_ret CELL_EPERM"
| "release_pc (RW_stopped _) = RW_again"
| "release_pc _ = RW_ret CELL_OK"

text \<open>
  The number of read locks stays below \<open>2 ^ 60\<close>: a thread would have to lock that often without
  unlocking for the count in the 64-bit word to overflow. A thread that owns the write lock is turned away
  before it can queue as a writer.
\<close>

inductive rw_step :: "rw_sys \<Rightarrow> rw_sys \<Rightarrow> bool" where
  rw_read: "rs_pc z t = RW_idle \<Longrightarrow> rs_readers z < 2 ^ 60 \<Longrightarrow> rw_rlock_fast (rs_rw z) = Some x \<or> rw_tryrlock (rs_rw z) = (True, x) \<Longrightarrow>
    rw_step z (rgo t (RW_ret CELL_OK) (z\<lparr>rs_rw := x, rs_readers := rs_readers z + 1\<rparr>))"
| rw_read_busy: "rs_pc z t = RW_idle \<Longrightarrow> rw_tryrlock (rs_rw z) = (False, x) \<Longrightarrow>
    rw_step z (rgo t (RW_ret CELL_EBUSY) (z\<lparr>rs_rw := x\<rparr>))"
| rw_read_slow: "rs_pc z (cur e) = RW_idle \<Longrightarrow> rs_readers z < 2 ^ 60 \<Longrightarrow> may_sleep n (rs_lv2 z) (cur e) \<Longrightarrow>
    rw_rlock_slow e n (rs_lv2 z) (rs_rw z) = Some (True, s, x) \<Longrightarrow>
    rw_step z (rgo (cur e) (RW_ret CELL_OK) (z\<lparr>rs_lv2 := s, rs_rw := x, rs_readers := rs_readers z + 1\<rparr>))"
| rw_read_wait: "rs_pc z (cur e) = RW_idle \<Longrightarrow> may_sleep n (rs_lv2 z) (cur e) \<Longrightarrow>
    rw_rlock_slow e n (rs_lv2 z) (rs_rw z) = Some (False, s, x) \<Longrightarrow>
    rw_step z (rgo (cur e) (RW_rwait n) (z\<lparr>rs_lv2 := set_gpr (cur e) 3 CELL_OK s, rs_rw := x\<rparr>))"
| rw_write: "rs_pc z t = RW_idle \<Longrightarrow> is_ppu t \<Longrightarrow> rw_wlock_fast t (rs_rw z) = Some (0, x) \<or> rw_trywlock t (rs_rw z) = (0, x) \<Longrightarrow>
    rw_step z (rgo t (RW_ret CELL_OK) (z\<lparr>rs_rw := x, rs_writer := Some t\<rparr>))"
| rw_write_deadlk: "rs_pc z t = RW_idle \<Longrightarrow> rw_wlock_fast t (rs_rw z) = Some (r, x) \<or> rw_trywlock t (rs_rw z) = (r, x) \<Longrightarrow>
    r \<noteq> 0 \<Longrightarrow> r div 2 = int t \<Longrightarrow> rw_step z (rgo t (RW_ret CELL_EDEADLK) (z\<lparr>rs_rw := x\<rparr>))"
| rw_write_busy: "rs_pc z t = RW_idle \<Longrightarrow> rw_trywlock t (rs_rw z) = (r, x) \<Longrightarrow> r \<noteq> 0 \<Longrightarrow> r div 2 \<noteq> int t \<Longrightarrow>
    rw_step z (rgo t (RW_ret CELL_EBUSY) (z\<lparr>rs_rw := x\<rparr>))"
| rw_write_slow: "rs_pc z (cur e) = RW_idle \<Longrightarrow> may_sleep n (rs_lv2 z) (cur e) \<Longrightarrow>
    rw_wlock_slow e n (rs_lv2 z) (rs_rw z) = Some (0, s, x) \<Longrightarrow>
    rw_step z (rgo (cur e) (RW_ret CELL_OK) (z\<lparr>rs_lv2 := s, rs_rw := x, rs_writer := Some (cur e)\<rparr>))"
| rw_write_wait: "rs_pc z (cur e) = RW_idle \<Longrightarrow> may_sleep n (rs_lv2 z) (cur e) \<Longrightarrow> rw_owner (rs_rw z) div 2 \<noteq> int (cur e) \<Longrightarrow>
    rw_wlock_slow e n (rs_lv2 z) (rs_rw z) = Some (r, s, x) \<Longrightarrow> r \<noteq> 0 \<Longrightarrow>
    rw_step z (rgo (cur e) (RW_wwait n) (z\<lparr>rs_lv2 := set_gpr (cur e) 3 CELL_OK s, rs_rw := x\<rparr>))"
| rw_rbreak: "rs_pc z t = RW_rwait n \<Longrightarrow>
    wait_iter (\<lambda>t y. t \<in> set (rw_rq y)) rw_rexpire t False c (rs_lv2 z) (rs_rw z) = Some (W_break, s, x) \<Longrightarrow>
    rw_step z (rgo t (RW_ret (gpr_of s t 3)) (z\<lparr>rs_lv2 := s, rs_rw := x, rs_granted := rs_granted z - {t}\<rparr>))"
| rw_wbreak: "rs_pc z (cur e) = RW_wwait n \<Longrightarrow>
    wait_iter (\<lambda>t y. t \<in> set (rw_wq y)) (\<lambda>_. rw_wexpire e) (cur e) False c (rs_lv2 z) (rs_rw z) = Some (W_break, s, x) \<Longrightarrow>
    rw_step z (rgo (cur e) (RW_ret (gpr_of s (cur e) 3)) (z\<lparr>rs_lv2 := s, rs_rw := x, rs_granted := rs_granted z - {cur e}\<rparr>))"
| rw_rstop: "rs_pc z t = RW_rwait n \<Longrightarrow>
    wait_iter (\<lambda>t y. t \<in> set (rw_rq y)) rw_rexpire t False c (rs_lv2 z) (rs_rw z) = Some (W_return, s, x) \<Longrightarrow>
    rw_step z (rgo t RW_again (z\<lparr>rs_lv2 := s, rs_rw := x\<rparr>))"
| rw_wstop: "rs_pc z (cur e) = RW_wwait n \<Longrightarrow>
    wait_iter (\<lambda>t y. t \<in> set (rw_wq y)) (\<lambda>_. rw_wexpire e) (cur e) False c (rs_lv2 z) (rs_rw z) = Some (W_return, s, x) \<Longrightarrow>
    rw_step z (rgo (cur e) RW_again (z\<lparr>rs_lv2 := s, rs_rw := x\<rparr>))"
| rw_rtimeout: "rs_pc z t = RW_rwait n \<Longrightarrow> n \<noteq> 0 \<Longrightarrow> rw_rexpire t (add_flags t {F_wait} (rs_lv2 z)) (rs_rw z) = Some (s, x) \<Longrightarrow>
    rw_step z (rgo t (RW_ret (gpr_of s t 3)) (z\<lparr>rs_lv2 := s, rs_rw := x, rs_granted := rs_granted z - {t}\<rparr>))"
| rw_wtimeout: "rs_pc z (cur e) = RW_wwait n \<Longrightarrow> n \<noteq> 0 \<Longrightarrow> rs_readers z < 2 ^ 60 \<Longrightarrow>
    rw_wexpire e (add_flags (cur e) {F_wait} (rs_lv2 z)) (rs_rw z) = Some (s, x) \<Longrightarrow>
    rw_step z (rgo (cur e) (RW_ret (gpr_of s (cur e) 3))
      (z\<lparr>rs_lv2 := s, rs_rw := x, rs_readers := rs_readers z + (length (rq_of z) - length (rw_rq x)),
         rs_granted := (set (rq_of z) - set (rw_rq x)) \<union> (rs_granted z - {cur e})\<rparr>))"
| rw_runlock: "rs_pc z t = RW_idle \<Longrightarrow> rw_runlock_fast (rs_rw z) = Some x \<Longrightarrow>
    rw_step z (rgo t (RW_ret CELL_OK) (z\<lparr>rs_rw := x, rs_readers := rs_readers z - 1\<rparr>))"
| rw_runlock_slow: "rs_pc z (cur e) = RW_idle \<Longrightarrow> rw_runlock_slow e (rs_lv2 z) (rs_rw z) = Some (r, s, x) \<Longrightarrow>
    rw_step z (rgo (cur e) (release_pc r)
      (let_in r (z\<lparr>rs_lv2 := s, rs_rw := x, rs_readers := rs_readers z - of_bool (gives_up r)\<rparr>)))"
| rw_wunlock: "rs_pc z t = RW_idle \<Longrightarrow> is_ppu t \<Longrightarrow> rw_wunlock_fast t (rs_rw z) = (r, x) \<Longrightarrow>
    rw_step z (rgo t (if r div 2 \<noteq> int t then RW_ret CELL_EPERM else if odd r then RW_unlocking else RW_ret CELL_OK)
      (z\<lparr>rs_rw := x, rs_writer := if r = writer_word t then None else rs_writer z\<rparr>))"
| rw_wunlock_slow: "rs_pc z (cur e) = RW_unlocking \<Longrightarrow> rw_wunlock_slow e (rs_lv2 z) (rs_rw z) = Some (r, s, x) \<Longrightarrow>
    rw_step z (rgo (cur e) (release_pc r)
      (let_in r (z\<lparr>rs_lv2 := s, rs_rw := x, rs_writer := if gives_up r then None else rs_writer z\<rparr>)))"
| rw_return: "rs_pc z t = RW_ret r \<Longrightarrow> rw_step z (rgo t RW_idle z)"
| rw_others: "others_act (set (rq_of z) \<union> set (wq_of z)) (rs_granted z) {t. rs_pc z t \<noteq> RW_idle} (rs_lv2 z) s \<Longrightarrow>
    rw_step z (z\<lparr>rs_lv2 := s\<rparr>)"

definition rw_start :: "lv2 \<Rightarrow> lv2_rwlock \<Rightarrow> rw_sys" where
  "rw_start s x = \<lparr>rs_lv2 = s, rs_rw = x, rs_pc = (\<lambda>_. RW_idle), rs_readers = 0, rs_writer = None, rs_granted = {}\<rparr>"

section \<open>Invariant\<close>

definition word_ok :: "int \<Rightarrow> nat \<Rightarrow> tid option \<Rightarrow> tid list \<Rightarrow> tid list \<Rightarrow> bool" where
  "word_ok v n w rq wq \<longleftrightarrow> n \<le> 2 ^ 61 \<and>
     (case w of
        Some t \<Rightarrow> is_ppu t \<and> n = 0 \<and> v div 2 = int t \<and> (rq \<noteq> [] \<or> wq \<noteq> [] \<longrightarrow> odd v)
      | None \<Rightarrow> v = of_bool (wq \<noteq> []) - 2 * int n \<and> (wq = [] \<longrightarrow> rq = []) \<and> (wq \<noteq> [] \<longrightarrow> 0 < n))"

definition rw_word :: "rw_sys \<Rightarrow> bool" where
  "rw_word z \<longleftrightarrow> word_ok (rw_owner (rs_rw z)) (rs_readers z) (rs_writer z) (rq_of z) (wq_of z)"

fun rpc_ok :: "rw_sys \<Rightarrow> tid \<Rightarrow> rw_pc \<Rightarrow> bool" where
  "rpc_ok z t (RW_rwait n) = (gpr_of (rs_lv2 z) t 3 = CELL_OK \<and> t \<notin> set (wq_of z) \<and> (t \<in> set (rq_of z) \<or> t \<in> rs_granted z))"
| "rpc_ok z t (RW_wwait n) =
     (gpr_of (rs_lv2 z) t 3 = CELL_OK \<and> t \<notin> set (rq_of z) \<and> (t \<in> set (wq_of z) \<or> t \<in> rs_granted z \<and> rs_writer z = Some t))"
| "rpc_ok z t RW_again = ((t \<in> set (rq_of z) \<union> set (wq_of z) \<longrightarrow> F_again \<in> flags_of (rs_lv2 z) t) \<and> t \<notin> rs_granted z)"
| "rpc_ok z t RW_unlocking = (rs_writer z = Some t \<and> t \<notin> set (rq_of z) \<union> set (wq_of z) \<union> rs_granted z)"
| "rpc_ok z t _ = (t \<notin> set (rq_of z) \<union> set (wq_of z) \<union> rs_granted z)"

definition rw_wait :: "rw_sys \<Rightarrow> bool" where
  "rw_wait z \<longleftrightarrow> distinct (rq_of z @ wq_of z) \<and> asleep (rs_lv2 z) (set (rq_of z) \<union> set (wq_of z)) (rs_granted z)
     \<and> (\<forall>t. rpc_ok z t (rs_pc z t))"

definition rw_inv :: "rw_sys \<Rightarrow> bool" where
  "rw_inv z \<longleftrightarrow> rw_word z \<and> rw_wait z"

lemma rgo_sel [simp]:
  "rs_lv2 (rgo t pc z) = rs_lv2 z" "rs_rw (rgo t pc z) = rs_rw z" "rs_pc (rgo t pc z) = (rs_pc z)(t := pc)"
  "rs_readers (rgo t pc z) = rs_readers z" "rs_writer (rgo t pc z) = rs_writer z" "rs_granted (rgo t pc z) = rs_granted z"
  by (simp_all add: rgo_def)

text \<open>A thread not taking the step keeps its place, or is let in from a queue.\<close>

definition moved :: "rw_sys \<Rightarrow> rw_sys \<Rightarrow> tid \<Rightarrow> bool" where
  "moved z z' u \<longleftrightarrow> gpr (ppus (rs_lv2 z') u) = gpr (ppus (rs_lv2 z) u)
     \<and> (F_again \<in> flags_of (rs_lv2 z') u \<longleftrightarrow> F_again \<in> flags_of (rs_lv2 z) u)
     \<and> ((u \<in> set (rq_of z') \<longleftrightarrow> u \<in> set (rq_of z)) \<and> (u \<in> set (wq_of z') \<longleftrightarrow> u \<in> set (wq_of z))
          \<and> (u \<in> rs_granted z' \<longleftrightarrow> u \<in> rs_granted z) \<and> (rs_writer z' = Some u \<longleftrightarrow> rs_writer z = Some u)
        \<or> u \<in> set (rq_of z) \<union> set (wq_of z) \<and> F_again \<notin> flags_of (rs_lv2 z) u \<and> u \<notin> set (rq_of z') \<union> set (wq_of z')
          \<and> u \<in> rs_granted z' \<and> (u \<in> set (wq_of z) \<longrightarrow> rs_writer z' = Some u))"

lemma moved_ok:
  assumes "moved z z' u" "rpc_ok z u pc" "rs_pc z u = pc" "distinct (rq_of z @ wq_of z)"
  shows "rpc_ok z' u pc"
  using assms by (cases pc) (auto simp: moved_def)

lemma rw_wait_step:
  assumes w: "rw_wait z" and d: "distinct (rq_of z' @ wq_of z')"
    and a: "asleep (rs_lv2 z') (set (rq_of z') \<union> set (wq_of z')) (rs_granted z')"
    and t: "rpc_ok z' t (rs_pc z' t)" and pc: "\<And>u. u \<noteq> t \<Longrightarrow> rs_pc z' u = rs_pc z u" and m: "\<And>u. u \<noteq> t \<Longrightarrow> moved z z' u"
  shows "rw_wait z'"
proof -
  have "rpc_ok z' u (rs_pc z' u)" for u
  proof (cases "u = t")
    case False
    then show ?thesis using moved_ok [OF m] pc w by (simp add: rw_wait_def)
  qed (use t in simp)
  then show ?thesis using d a by (simp add: rw_wait_def)
qed

lemma rw_invD:
  assumes "rw_inv z"
  shows "rw_word z" "rw_wait z" "distinct (rq_of z @ wq_of z)" "asleep (rs_lv2 z) (set (rq_of z) \<union> set (wq_of z)) (rs_granted z)"
    "rpc_ok z t (rs_pc z t)"
  using assms by (auto simp: rw_inv_def rw_wait_def)

lemma queue_small: "rw_inv z \<Longrightarrow> length (rq_of z) \<le> 2 ^ 24"
  using rw_invD(3,4) by (intro ppu_ids_bound) (auto simp: asleep_def)

text \<open>A step that changes only the word, the ghost holders and the position of the thread.\<close>

lemma step_word:
  assumes i: "rw_inv z" and pc: "rpc_ok (rgo t pc z') t pc"
    and q: "rq_of z' = rq_of z" "wq_of z' = wq_of z" "rs_lv2 z' = rs_lv2 z" "rs_pc z' = rs_pc z" "rs_granted z' = rs_granted z"
    and w: "\<And>u. u \<noteq> t \<Longrightarrow> rs_writer z' = Some u \<longleftrightarrow> rs_writer z = Some u" and ok: "rw_word z'"
  shows "rw_inv (rgo t pc z')"
proof -
  have "rw_wait (rgo t pc z')"
    using rw_invD(3,4) [OF i] q w pc by (intro rw_wait_step [OF rw_invD(2) [OF i], where t = t]) (simp_all add: moved_def)
  then show ?thesis using ok by (simp add: rw_inv_def rw_word_def)
qed

lemma word_cases:
  assumes "rw_inv z"
  obtains (free) "rs_writer z = None" "rs_readers z = 0" "rw_owner (rs_rw z) = 0" "rq_of z = []" "wq_of z = []"
    | (readers) n where "rs_writer z = None" "rs_readers z = Suc n" "n < 2 ^ 61" "rw_owner (rs_rw z) = of_bool (wq_of z \<noteq> []) - 2 * int (Suc n)"
        "wq_of z = [] \<Longrightarrow> rq_of z = []"
    | (writer) w where "rs_writer z = Some w" "rs_readers z = 0" "is_ppu w" "0 < w"
        "rw_owner (rs_rw z) = 2 * int w \<or> rw_owner (rs_rw z) = 2 * int w + 1" "rq_of z \<noteq> [] \<or> wq_of z \<noteq> [] \<Longrightarrow> rw_owner (rs_rw z) = 2 * int w + 1"
proof (cases "rs_writer z")
  case None
  then have v: "rw_owner (rs_rw z) = of_bool (wq_of z \<noteq> []) - 2 * int (rs_readers z)" "wq_of z = [] \<longrightarrow> rq_of z = []"
    "wq_of z \<noteq> [] \<longrightarrow> 0 < rs_readers z" "rs_readers z \<le> 2 ^ 61"
    using rw_invD(1) [OF assms] by (simp_all add: rw_word_def word_ok_def)
  show thesis
  proof (cases "rs_readers z")
    case 0
    then show thesis using free None v by simp
  next
    case (Suc n)
    then show thesis using readers [of n] None v by simp
  qed
next
  case (Some w)
  then have v: "is_ppu w" "rs_readers z = 0" "rw_owner (rs_rw z) div 2 = int w" "rq_of z \<noteq> [] \<or> wq_of z \<noteq> [] \<longrightarrow> odd (rw_owner (rs_rw z))"
    using rw_invD(1) [OF assms] by (simp_all add: rw_word_def word_ok_def)
  then have "rw_owner (rs_rw z) = 2 * int w + of_bool (odd (rw_owner (rs_rw z)))"
    using div_mult_mod_eq [of "rw_owner (rs_rw z)" 2] by (simp add: mod_2_eq_odd)
  then show thesis using writer [of w] Some v is_ppu_pos by (cases "odd (rw_owner (rs_rw z))") auto
qed

lemma step_read:
  assumes i: "rw_inv z" and pc: "rs_pc z t = RW_idle" and n: "rs_readers z < 2 ^ 60" and r: "can_read (rw_owner (rs_rw z))"
  shows "rw_inv (rgo t (RW_ret v) (z\<lparr>rs_rw := (rs_rw z)\<lparr>rw_owner := s64 (rw_owner (rs_rw z) - 2)\<rparr>, rs_readers := rs_readers z + 1\<rparr>))"
proof (rule step_word [OF i])
  show "rw_word (z\<lparr>rs_rw := (rs_rw z)\<lparr>rw_owner := s64 (rw_owner (rs_rw z) - 2)\<rparr>, rs_readers := rs_readers z + 1\<rparr>)" (is "rw_word ?z")
    using i
  proof (cases rule: word_cases)
    case free
    then show ?thesis by (simp add: rw_word_def word_ok_def s64_id)
  next
    case (readers m)
    then have "wq_of z = []" using r by (auto simp: can_read_def split: if_splits)
    then show ?thesis using readers n by (simp add: rw_word_def word_ok_def s64_id)
  next
    case (writer w)
    then show ?thesis using r by (auto simp: can_read_def)
  qed
qed (use rw_invD(5) [OF i, of t] pc in auto)

lemma step_write:
  assumes i: "rw_inv z" and pc: "rs_pc z t = RW_idle" and p: "is_ppu t" and o': "rw_owner (rs_rw z) = 0"
  shows "rw_inv (rgo t (RW_ret v) (z\<lparr>rs_rw := (rs_rw z)\<lparr>rw_owner := writer_word t\<rparr>, rs_writer := Some t\<rparr>))"
proof -
  have f: "rs_writer z = None \<and> rs_readers z = 0 \<and> rq_of z = [] \<and> wq_of z = []"
    using i
  proof (cases rule: word_cases)
    case (readers n)
    then show ?thesis using o' by (cases "wq_of z = []") simp_all
  next
    case (writer w)
    then show ?thesis using o' by simp
  qed simp
  show ?thesis
    using rw_invD(5) [OF i, of t] pc p f
    by (intro step_word [OF i]) (auto simp: rw_word_def word_ok_def writer_word)
qed

lemma step_idle_same:
  assumes i: "rw_inv z" and pc: "rs_pc z t = RW_idle \<or> (\<exists>r. rs_pc z t = RW_ret r)" and pc': "pc' = RW_idle \<or> (\<exists>r. pc' = RW_ret r) \<or> pc' = RW_unlocking \<and> rs_writer z = Some t"
  shows "rw_inv (rgo t pc' z)"
  using rw_invD(1) [OF i] rw_invD(5) [OF i, of t] pc pc' by (intro step_word [OF i]) auto

lemma step_rwait:
  fixes e :: env
  assumes i: "rw_inv z" and pc: "rs_pc z (cur e) = RW_idle" and m: "may_sleep n (rs_lv2 z) (cur e)"
    and op: "rw_rlock_slow e n (rs_lv2 z) (rs_rw z) = Some (False, s, x)"
  shows "rw_inv (rgo (cur e) (RW_rwait n) (z\<lparr>rs_lv2 := set_gpr (cur e) 3 CELL_OK s, rs_rw := x\<rparr>))" (is "rw_inv ?z")
proof -
  have c: "cur e \<notin> set (rq_of z) \<union> set (wq_of z) \<union> rs_granted z" using rw_invD(5) [OF i, of "cur e"] pc by simp
  then obtain s' where s': "enqueue_sleep e n (rq_of z) (rs_lv2 z) = Some (cur e # rq_of z, s')"
    "asleep s' (insert (cur e) (set (rq_of z) \<union> set (wq_of z))) (rs_granted z)" "same_regs (rs_lv2 z) s'"
    using enqueue_sleep_spec [OF rw_invD(4) [OF i] m] by blast
  have old: "rw_owner (rs_rw z) > 0 \<or> odd (rw_owner (rs_rw z))" and x: "s = s'" "x = (rs_rw z)\<lparr>rw_owner := rw_owner (rs_rw z) OR 1, rw_rq := cur e # rq_of z\<rparr>"
    using op s'(1) by (auto simp: rw_rlock_slow_def can_read_def Let_def split: if_splits)
  have "rw_word ?z"
    using i
  proof (cases rule: word_cases)
    case (readers k)
    then have "wq_of z \<noteq> []" using old by auto
    then show ?thesis using readers x by (simp add: rw_word_def word_ok_def or_one)
  next
    case (writer w)
    then have "rw_owner (rs_rw z) OR 1 = 2 * int w + 1" by (auto simp: or_one)
    then show ?thesis using writer x by (simp add: rw_word_def word_ok_def)
  qed (use old in simp)
  moreover have "rw_wait ?z"
    using rw_invD(3) [OF i] c x s' by (intro rw_wait_step [OF rw_invD(2) [OF i], where t = "cur e"]) (auto simp: moved_def same_regs_def)
  ultimately show ?thesis by (simp add: rw_inv_def)
qed

lemma step_wwait:
  fixes e :: env
  assumes i: "rw_inv z" and pc: "rs_pc z (cur e) = RW_idle" and m: "may_sleep n (rs_lv2 z) (cur e)"
    and op: "rw_wlock_slow e n (rs_lv2 z) (rs_rw z) = Some (r, s, x)" "r \<noteq> 0"
  shows "rw_inv (rgo (cur e) (RW_wwait n) (z\<lparr>rs_lv2 := set_gpr (cur e) 3 CELL_OK s, rs_rw := x\<rparr>))" (is "rw_inv ?z")
proof -
  have c: "cur e \<notin> set (rq_of z) \<union> set (wq_of z) \<union> rs_granted z" using rw_invD(5) [OF i, of "cur e"] pc by simp
  then obtain s' where s': "enqueue_sleep e n (wq_of z) (rs_lv2 z) = Some (cur e # wq_of z, s')"
    "asleep s' (insert (cur e) (set (rq_of z) \<union> set (wq_of z))) (rs_granted z)" "same_regs (rs_lv2 z) s'"
    using enqueue_sleep_spec [OF rw_invD(4) [OF i] m] by blast
  have old: "rw_owner (rs_rw z) \<noteq> 0" and x: "s = s'" "x = (rs_rw z)\<lparr>rw_owner := rw_owner (rs_rw z) OR 1, rw_wq := cur e # wq_of z\<rparr>"
    using op s'(1) by (auto simp: rw_wlock_slow_def Let_def split: if_splits)
  have "rw_word ?z"
    using i
  proof (cases rule: word_cases)
    case (readers k)
    then show ?thesis using x by (cases "wq_of z = []") (simp_all add: rw_word_def word_ok_def or_one)
  next
    case (writer w)
    then have "rw_owner (rs_rw z) OR 1 = 2 * int w + 1" by (auto simp: or_one)
    then show ?thesis using writer x by (simp add: rw_word_def word_ok_def)
  qed (use old in simp)
  moreover have "rw_wait ?z"
    using rw_invD(3) [OF i] c x s' by (intro rw_wait_step [OF rw_invD(2) [OF i], where t = "cur e"]) (auto simp: moved_def same_regs_def)
  ultimately show ?thesis by (simp add: rw_inv_def)
qed

text \<open>A waiting thread leaves, having been let in.\<close>

lemma step_leave:
  assumes i: "rw_inv z" and t: "t \<notin> set (rq_of z) \<union> set (wq_of z)"
    and s: "asleep s (set (rq_of z) \<union> set (wq_of z)) (rs_granted z)" "\<And>u. u \<noteq> t \<Longrightarrow> gpr (ppus s u) = gpr (ppus (rs_lv2 z) u)"
      "\<And>u. u \<noteq> t \<Longrightarrow> F_again \<in> flags_of s u \<longleftrightarrow> F_again \<in> flags_of (rs_lv2 z) u"
  shows "rw_inv (rgo t (RW_ret v) (z\<lparr>rs_lv2 := s, rs_rw := rs_rw z, rs_granted := rs_granted z - {t}\<rparr>))" (is "rw_inv ?z")
proof -
  have "rw_wait ?z"
    using rw_invD(3) [OF i] t s asleep_mono [OF s(1) subset_refl, of "rs_granted z - {t}"]
    by (intro rw_wait_step [OF rw_invD(2) [OF i], where t = t]) (auto simp: moved_def)
  then show ?thesis using rw_invD(1) [OF i] by (simp add: rw_inv_def rw_word_def)
qed

lemma step_rbreak:
  assumes i: "rw_inv z" and pc: "rs_pc z t = RW_rwait n"
    and op: "wait_iter (\<lambda>t y. t \<in> set (rw_rq y)) rw_rexpire t False c (rs_lv2 z) (rs_rw z) = Some (W_break, s, x)"
  shows "rw_inv (rgo t (RW_ret v) (z\<lparr>rs_lv2 := s, rs_rw := x, rs_granted := rs_granted z - {t}\<rparr>))"
proof -
  have "t \<in> set (rq_of z) \<longleftrightarrow> t \<in> set (rq_of z) \<union> set (wq_of z)" using rw_invD(5) [OF i, of t] pc by auto
  note b = wait_iter_break [OF rw_invD(4) [OF i] op this]
  show ?thesis unfolding b(1) by (rule step_leave [OF i b(2,3)]) (use b(4,5) in auto)
qed

lemma step_wbreak:
  assumes i: "rw_inv z" and pc: "rs_pc z t = RW_wwait n"
    and op: "wait_iter (\<lambda>t y. t \<in> set (rw_wq y)) f t False c (rs_lv2 z) (rs_rw z) = Some (W_break, s, x)"
  shows "rw_inv (rgo t (RW_ret v) (z\<lparr>rs_lv2 := s, rs_rw := x, rs_granted := rs_granted z - {t}\<rparr>))"
proof -
  have "t \<in> set (wq_of z) \<longleftrightarrow> t \<in> set (rq_of z) \<union> set (wq_of z)" using rw_invD(5) [OF i, of t] pc by auto
  note b = wait_iter_break [OF rw_invD(4) [OF i] op this]
  show ?thesis unfolding b(1) by (rule step_leave [OF i b(2,3)]) (use b(4,5) in auto)
qed

lemma step_again:
  assumes i: "rw_inv z" and q: "t \<in> set (rq_of z) \<union> set (wq_of z)"
  shows "rw_inv (rgo t RW_again (z\<lparr>rs_lv2 := add_flags t {F_again} (rs_lv2 z), rs_rw := rs_rw z\<rparr>))" (is "rw_inv ?z")
proof -
  have "t \<notin> rs_granted z" using asleep_disjoint [OF rw_invD(4) [OF i]] q by auto
  then have "rw_wait ?z"
    using rw_invD(3) [OF i] asleep_add [OF rw_invD(4) [OF i], of "{F_again}" t]
    by (intro rw_wait_step [OF rw_invD(2) [OF i], where t = t]) (auto simp: moved_def)
  then show ?thesis using rw_invD(1) [OF i] by (simp add: rw_inv_def rw_word_def)
qed

lemma step_rtimeout:
  assumes i: "rw_inv z" and pc: "rs_pc z t = RW_rwait n"
    and op: "rw_rexpire t (add_flags t {F_wait} (rs_lv2 z)) (rs_rw z) = Some (s, x)"
  shows "rw_inv (rgo t (RW_ret v) (z\<lparr>rs_lv2 := s, rs_rw := x, rs_granted := rs_granted z - {t}\<rparr>))" (is "rw_inv ?z")
proof (cases "t \<in> set (rq_of z)")
  case True
  then have x: "s = set_gpr t 3 CELL_ETIMEDOUT (add_flags t {F_wait} (rs_lv2 z))" "x = (rs_rw z)\<lparr>rw_rq := remove1 t (rq_of z)\<rparr>"
    using op by (auto simp: rw_rexpire_def unqueue_def split: if_splits)
  have q: "set (remove1 t (rq_of z)) = set (rq_of z) - {t}" "t \<notin> set (wq_of z)" using rw_invD(3) [OF i] True by auto
  have "asleep s (set (remove1 t (rq_of z)) \<union> set (wq_of z)) (rs_granted z - {t})"
    unfolding x(1) asleep_gpr q(1) by (rule asleep_mono [OF asleep_add [OF rw_invD(4) [OF i]]]) auto
  then have "rw_wait ?z"
    using rw_invD(3) [OF i] x q by (intro rw_wait_step [OF rw_invD(2) [OF i], where t = t]) (auto simp: moved_def)
  moreover have "rw_word ?z" using rw_invD(1) [OF i] x(2) True by (auto simp: rw_word_def word_ok_def split: option.splits)
  ultimately show ?thesis by (simp add: rw_inv_def)
next
  case False
  then have x: "s = add_flags t {F_wait} (rs_lv2 z)" "x = rs_rw z" using op by (auto simp: rw_rexpire_def unqueue_def split: if_splits)
  show ?thesis unfolding x
    by (rule step_leave [OF i]) (use False rw_invD(5) [OF i, of t] pc asleep_add [OF rw_invD(4) [OF i]] in auto)
qed

text \<open>A writer that waited too long; the readers behind it may be let in.\<close>

lemma drain_all:
  assumes "drain_queue (ppus s) q [] = Some ws" "distinct q"
  shows "ws = rev q" "\<not> some_again s q"
proof -
  have "\<forall>t\<in>set q. F_again \<notin> flags_of s t" by (rule drain_queue_stuck [OF assms])
  then show "ws = rev q" "\<not> some_again s q" using drain_queue_all [OF assms(2), of "ppus s" "[]"] assms(1) by (auto simp: some_again_def)
qed

lemma wq_gone_word:
  assumes i: "rw_inv z" and wq: "wq_of z \<noteq> []"
  shows "rw_owner (rs_rw z) < 0 \<Longrightarrow> rs_readers z < 2 ^ 60 \<Longrightarrow>
      word_ok (s64 (rw_owner (rs_rw z) - 2 * int (length (rq_of z))) AND -2) (rs_readers z + length (rq_of z)) (rs_writer z) [] []"
    and "word_ok (rw_owner (rs_rw z) AND -2) (rs_readers z) (rs_writer z) [] []"
    and "q \<noteq> [] \<or> rq_of z \<noteq> [] \<and> 0 \<le> rw_owner (rs_rw z) \<Longrightarrow> word_ok (rw_owner (rs_rw z)) (rs_readers z) (rs_writer z) (rq_of z) q"
proof -
  consider (readers) k where "rs_writer z = None" "rs_readers z = Suc k" "k < 2 ^ 61" "rw_owner (rs_rw z) = 1 - 2 * int (Suc k)"
    | (writer) w where "rs_writer z = Some w" "rs_readers z = 0" "is_ppu w" "rw_owner (rs_rw z) = 2 * int w + 1"
    using i wq by (cases rule: word_cases) auto
  note c = this
  show "word_ok (s64 (rw_owner (rs_rw z) - 2 * int (length (rq_of z))) AND -2) (rs_readers z + length (rq_of z)) (rs_writer z) [] []"
    if n: "rw_owner (rs_rw z) < 0" "rs_readers z < 2 ^ 60"
  proof (cases rule: c)
    case (readers k)
    then have "s64 (rw_owner (rs_rw z) - 2 * int (length (rq_of z))) = rw_owner (rs_rw z) - 2 * int (length (rq_of z))"
      using queue_small [OF i] n by (intro s64_id) auto
    then show ?thesis using readers queue_small [OF i] n by (simp add: word_ok_def and_minus_two)
  qed (use n in simp)
  show "word_ok (rw_owner (rs_rw z) AND -2) (rs_readers z) (rs_writer z) [] []"
    by (cases rule: c) (auto simp: word_ok_def and_minus_two)
  show "word_ok (rw_owner (rs_rw z)) (rs_readers z) (rs_writer z) (rq_of z) q"
    if "q \<noteq> [] \<or> rq_of z \<noteq> [] \<and> 0 \<le> rw_owner (rs_rw z)"
    using that by (cases rule: c) (auto simp: word_ok_def)
qed

lemma step_wtimeout:
  fixes e :: env
  assumes i: "rw_inv z" and pc: "rs_pc z (cur e) = RW_wwait n" and b: "rs_readers z < 2 ^ 60"
    and op: "rw_wexpire e (add_flags (cur e) {F_wait} (rs_lv2 z)) (rs_rw z) = Some (s, x)"
  shows "rw_inv (rgo (cur e) (RW_ret v)
      (z\<lparr>rs_lv2 := s, rs_rw := x, rs_readers := rs_readers z + (length (rq_of z) - length (rw_rq x)),
         rs_granted := (set (rq_of z) - set (rw_rq x)) \<union> (rs_granted z - {cur e})\<rparr>))" (is "rw_inv ?z")
proof (cases "cur e \<in> set (wq_of z)")
  case False
  then have x: "s = add_flags (cur e) {F_wait} (rs_lv2 z)" "x = rs_rw z" using op by (auto simp: rw_wexpire_def unqueue_def)
  have "rw_inv (rgo (cur e) (RW_ret v) (z\<lparr>rs_lv2 := s, rs_rw := rs_rw z, rs_granted := rs_granted z - {cur e}\<rparr>))"
    by (rule step_leave [OF i]) (use x(1) False rw_invD(5) [OF i, of "cur e"] pc asleep_add [OF rw_invD(4) [OF i]] in auto)
  then show ?thesis using x(2) by simp
next
  case True
  define q where "q = remove1 (cur e) (wq_of z)"
  define s0 where "s0 = add_flags (cur e) {F_wait} (rs_lv2 z)"
  have q: "set q = set (wq_of z) - {cur e}" "distinct (rq_of z @ q)" "cur e \<notin> set (rq_of z)" "cur e \<notin> rs_granted z"
    using rw_invD(3) [OF i] True asleep_disjoint [OF rw_invD(4) [OF i]] by (auto simp: q_def)
  have a: "asleep s0 (set (rq_of z) \<union> set (wq_of z)) (rs_granted z)" unfolding s0_def by (rule asleep_add [OF rw_invD(4) [OF i]]) auto
  have u: "unqueue (wq_of z) (cur e) = (Some (cur e), q)" using True by (simp add: unqueue_def q_def)
  have wq: "wq_of z \<noteq> []" using True by auto
  consider (drain) "rq_of z \<noteq> []" "q = []" "rw_owner (rs_rw z) < 0" | (clear) "rq_of z = []" "q = []"
    | (keep) "q \<noteq> [] \<or> rq_of z \<noteq> [] \<and> 0 \<le> rw_owner (rs_rw z)" by fastforce
  then show ?thesis
  proof cases
    case drain
    then obtain ws s1 where w: "drain_queue (ppus s0) (rq_of z) [] = Some ws" "obj_awake_all e (append_all ws s0) = Some s1"
      and x: "x = (rs_rw z)\<lparr>rw_wq := [], rw_rq := [], rw_owner := s64 (rw_owner (rs_rw z) - 2 * int (length ws)) AND -2\<rparr>"
        "s = set_gpr (cur e) 3 CELL_ETIMEDOUT s1"
      using op u by (auto simp: rw_wexpire_def s0_def [symmetric] Let_def split: option.splits)
    have ws: "ws = rev (rq_of z)" "\<not> some_again s0 (rq_of z)" using drain_all [OF w(1)] rw_invD(3) [OF i] by simp_all
    then obtain "asleep s1 (set (rq_of z) \<union> set (wq_of z) - set ws) (set ws \<union> rs_granted z)" "same_regs s0 s1"
      using wake_all_spec [OF a, of ws e] w(2) by auto
    note s1 = this
    have "asleep s1 {} (set (rq_of z) \<union> (rs_granted z - {cur e}))" by (rule asleep_mono [OF s1(1)]) (use ws in auto)
    then have "rw_wait ?z"
      using x q s1(2) ws drain(2) rw_invD(3) [OF i]
      by (intro rw_wait_step [OF rw_invD(2) [OF i], where t = "cur e"]) (auto simp: moved_def same_regs_def s0_def some_again_def)
    moreover have "rw_word ?z"
      using wq_gone_word(1) [OF i wq drain(3) b] x(1) ws(1) by (simp add: rw_word_def)
    ultimately show ?thesis by (simp add: rw_inv_def)
  next
    case clear
    then have x: "s = set_gpr (cur e) 3 CELL_ETIMEDOUT s0" "x = (rs_rw z)\<lparr>rw_wq := [], rw_owner := rw_owner (rs_rw z) AND -2\<rparr>"
      using op u by (simp_all add: rw_wexpire_def s0_def [symmetric] Let_def)
    have "asleep s0 {} (rs_granted z - {cur e})" by (rule asleep_mono [OF a]) auto
    then have "rw_wait ?z"
      using x clear q by (intro rw_wait_step [OF rw_invD(2) [OF i], where t = "cur e"]) (auto simp: moved_def s0_def)
    moreover have "rw_word ?z"
      using wq_gone_word(2) [OF i wq] x(2) clear by (simp add: rw_word_def)
    ultimately show ?thesis by (simp add: rw_inv_def)
  next
    case keep
    then have x: "s = set_gpr (cur e) 3 CELL_ETIMEDOUT s0" "x = (rs_rw z)\<lparr>rw_wq := q\<rparr>"
      using op u by (auto simp: rw_wexpire_def s0_def [symmetric] Let_def split: if_splits)
    have "asleep s0 (set (rq_of z) \<union> set q) (rs_granted z - {cur e})" by (rule asleep_mono [OF a]) (use q in auto)
    then have "rw_wait ?z"
      using x q by (intro rw_wait_step [OF rw_invD(2) [OF i], where t = "cur e"]) (auto simp: moved_def s0_def)
    moreover have "rw_word ?z"
      using wq_gone_word(3) [OF i wq] x(2) keep by (simp add: rw_word_def)
    ultimately show ?thesis by (simp add: rw_inv_def)
  qed
qed

text \<open>The lock goes to a waiting writer.\<close>

lemma step_handed:
  fixes e :: env
  assumes i: "rw_inv z" and f: "f \<in> set (wq_of z)" "F_again \<notin> flags_of (rs_lv2 z) f"
    and t: "rs_pc z (cur e) = RW_idle \<or> rs_pc z (cur e) = RW_unlocking" "rs_writer z = None \<or> rs_writer z = Some (cur e)"
    and op: "obj_awake e f (rs_lv2 z) = Some s"
  shows "rw_inv (rgo (cur e) (RW_ret v) (z\<lparr>rs_lv2 := s,
      rs_rw := (rs_rw z)\<lparr>rw_wq := remove1 f (wq_of z), rw_owner := hand_word f (remove1 f (wq_of z)) (rq_of z)\<rparr>,
      rs_readers := 0, rs_writer := Some f, rs_granted := insert f (rs_granted z)\<rparr>))" (is "rw_inv ?z")
proof -
  have c: "cur e \<notin> set (rq_of z) \<union> set (wq_of z) \<union> rs_granted z" using rw_invD(5) [OF i, of "cur e"] t(1) by auto
  have s: "asleep s (set (rq_of z) \<union> set (wq_of z) - {f}) (insert f (rs_granted z))" "same_regs (rs_lv2 z) s"
    using wake_one_spec [OF rw_invD(4) [OF i], of f e] f(1) op by auto
  have q: "set (remove1 f (wq_of z)) = set (wq_of z) - {f}" "f \<notin> set (rq_of z)" "distinct (rq_of z @ remove1 f (wq_of z))"
    using rw_invD(3) [OF i] f(1) by auto
  have "rw_wait ?z"
  proof (rule rw_wait_step [OF rw_invD(2) [OF i], where t = "cur e"])
    show "asleep (rs_lv2 ?z) (set (rq_of ?z) \<union> set (wq_of ?z)) (rs_granted ?z)"
      using s(1) q by (simp add: Un_Diff)
    show "moved z ?z u" if "u \<noteq> cur e" for u
      using q f s(2) t(2) that by (cases "u = f") (auto simp: moved_def same_regs_def)
  qed (use q c f in auto)
  moreover have "is_ppu f" using asleepD(2) [OF rw_invD(4) [OF i]] f(1) by blast
  then have "rw_word ?z" by (auto simp: rw_word_def word_ok_def hand_word)
  ultimately show ?thesis by (simp add: rw_inv_def)
qed

text \<open>The call was interrupted; it will be repeated.\<close>

lemma step_stopped:
  assumes i: "rw_inv z" and t: "rs_pc z t = RW_idle \<or> rs_pc z t = RW_unlocking"
  shows "rw_inv (rgo t RW_again (z\<lparr>rs_lv2 := add_flags t {F_again} (rs_lv2 z)\<rparr>))" (is "rw_inv ?z")
proof -
  have "rw_wait ?z"
    using rw_invD(3) [OF i] asleep_add [OF rw_invD(4) [OF i], of "{F_again}" t] rw_invD(5) [OF i, of t] t
    by (intro rw_wait_step [OF rw_invD(2) [OF i], where t = t]) (auto simp: moved_def)
  then show ?thesis using rw_invD(1) [OF i] by (simp add: rw_inv_def rw_word_def)
qed

lemma step_runlock:
  assumes i: "rw_inv z" and pc: "rs_pc z t = RW_idle" and v: "rw_owner (rs_rw z) < - 1"
  shows "rw_inv (rgo t (RW_ret r) (z\<lparr>rs_rw := (rs_rw z)\<lparr>rw_owner := s64 (rw_owner (rs_rw z) + 2)\<rparr>, rs_readers := rs_readers z - 1\<rparr>))" (is "rw_inv (rgo _ _ ?z)")
proof -
  have "rw_word ?z"
    using i
  proof (cases rule: word_cases)
    case (readers n)
    then have "s64 (rw_owner (rs_rw z) + 2) = rw_owner (rs_rw z) + 2" by (intro s64_id) auto
    then show ?thesis using readers v by (cases "wq_of z = []") (auto simp: rw_word_def word_ok_def)
  qed (use v in auto)
  then show ?thesis using rw_invD(5) [OF i, of t] pc by (intro step_word [OF i]) auto
qed

lemma step_runlock_slow:
  fixes e :: env
  assumes i: "rw_inv z" and pc: "rs_pc z (cur e) = RW_idle" and op: "rw_runlock_slow e (rs_lv2 z) (rs_rw z) = Some (r, s, x)"
  shows "rw_inv (rgo (cur e) (release_pc r)
      (let_in r (z\<lparr>rs_lv2 := s, rs_rw := x, rs_readers := rs_readers z - of_bool (gives_up r)\<rparr>)))"
proof -
  consider (perm) "0 \<le> rw_owner (rs_rw z)" | (last) "rw_owner (rs_rw z) = - 1" | (kept) "rw_owner (rs_rw z) < - 1" by linarith
  then show ?thesis
  proof cases
    case perm
    then have "r = RW_perm" "s = rs_lv2 z" "x = rs_rw z" using op by (simp_all add: rw_runlock_slow_def)
    then show ?thesis using step_idle_same [OF i, of "cur e" "RW_ret CELL_EPERM"] pc by simp
  next
    case kept
    then have "r = RW_kept" "s = rs_lv2 z" "x = (rs_rw z)\<lparr>rw_owner := s64 (rw_owner (rs_rw z) + 2)\<rparr>"
      using op by (simp_all add: rw_runlock_slow_def)
    then show ?thesis using step_runlock [OF i pc kept] by simp
  next
    case last
    have w: "rs_writer z = None \<and> rs_readers z = 1 \<and> wq_of z \<noteq> []"
      using i
    proof (cases rule: word_cases)
      case (readers n)
      then show ?thesis using last by (cases "wq_of z = []") simp_all
    qed (use last in auto)
    obtain r' q' where sc: "schedule (ppus (rs_lv2 z)) (rw_protocol (rs_rw z)) (wq_of z) = (r', q')" by fastforce
    then obtain f where f: "r' = Some f" "f \<in> set (wq_of z)" using schedule_cases(1,2) [OF sc] w by auto
    show ?thesis
    proof (cases "F_again \<in> flags_of (rs_lv2 z) f")
      case True
      then have "r = RW_stopped f" "s = add_flags (cur e) {F_again} (rs_lv2 z)" "x = rs_rw z"
        using op last sc f by (simp_all add: rw_runlock_slow_def Let_def)
      then show ?thesis using step_stopped [OF i, of "cur e"] pc by simp
    next
      case False
      have q: "q' = remove1 f (wq_of z)" using schedule_cases(3) [OF sc f(1)] False by simp
      then have "r = RW_handed f" "obj_awake e f (rs_lv2 z) = Some s"
        "x = (rs_rw z)\<lparr>rw_wq := remove1 f (wq_of z), rw_owner := hand_word f (remove1 f (wq_of z)) (rq_of z)\<rparr>"
        using op last sc f False by (auto simp: rw_runlock_slow_def Let_def)
      then show ?thesis using step_handed [OF i f(2) False _ _ , of e s CELL_OK] pc w by simp
    qed
  qed
qed

text \<open>A writer lets all waiting readers in.\<close>

lemma step_shared:
  fixes e :: env
  assumes i: "rw_inv z" and pc: "rs_pc z (cur e) = RW_unlocking" and q: "wq_of z = []" "\<not> some_again (rs_lv2 z) (rq_of z)"
    and op: "obj_awake_all e (append_all (rev (rq_of z)) (rs_lv2 z)) = Some s"
  shows "rw_inv (rgo (cur e) (RW_ret v) (z\<lparr>rs_lv2 := s, rs_rw := (rs_rw z)\<lparr>rw_rq := [], rw_owner := - 2 * int (length (rq_of z))\<rparr>,
    rs_writer := None, rs_readers := length (rq_of z), rs_granted := set (rq_of z) \<union> rs_granted z\<rparr>))" (is "rw_inv ?z")
proof -
  have c: "rs_writer z = Some (cur e)" "cur e \<notin> set (rq_of z) \<union> set (wq_of z) \<union> rs_granted z" using rw_invD(5) [OF i, of "cur e"] pc by auto
  have s: "asleep s (set (rq_of z) \<union> set (wq_of z) - set (rq_of z)) (set (rq_of z) \<union> rs_granted z)" "same_regs (rs_lv2 z) s"
    using wake_all_spec [OF rw_invD(4) [OF i], of "rev (rq_of z)" e] op by auto
  have "moved z ?z u" if "u \<noteq> cur e" for u
    using c q s(2) that by (cases "u \<in> set (rq_of z)") (auto simp: moved_def same_regs_def some_again_def)
  then have "rw_wait ?z"
    using s c q by (intro rw_wait_step [OF rw_invD(2) [OF i], where t = "cur e"]) auto
  moreover have "rw_word ?z" using q queue_small [OF i] by (simp add: rw_word_def word_ok_def)
  ultimately show ?thesis by (simp add: rw_inv_def)
qed

lemma step_wunlock_slow:
  fixes e :: env
  assumes i: "rw_inv z" and pc: "rs_pc z (cur e) = RW_unlocking" and op: "rw_wunlock_slow e (rs_lv2 z) (rs_rw z) = Some (r, s, x)"
  shows "rw_inv (rgo (cur e) (release_pc r)
      (let_in r (z\<lparr>rs_lv2 := s, rs_rw := x, rs_writer := if gives_up r then None else rs_writer z\<rparr>)))" (is "rw_inv ?z")
proof -
  have c: "rs_writer z = Some (cur e)" "cur e \<notin> set (rq_of z) \<union> set (wq_of z) \<union> rs_granted z" using rw_invD(5) [OF i, of "cur e"] pc by auto
  have n: "rs_readers z = 0" using i c(1) by (cases rule: word_cases) auto
  obtain r' q' where sc: "schedule (ppus (rs_lv2 z)) (rw_protocol (rs_rw z)) (wq_of z) = (r', q')" by fastforce
  show ?thesis
  proof (cases "wq_of z = []")
    case False
    then obtain f where f: "r' = Some f" "f \<in> set (wq_of z)" using schedule_cases(1,2) [OF sc] by auto
    show ?thesis
    proof (cases "F_again \<in> flags_of (rs_lv2 z) f")
      case True
      then have "r = RW_stopped f" "s = add_flags (cur e) {F_again} (rs_lv2 z)" "x = rs_rw z"
        using op sc f by (simp_all add: rw_wunlock_slow_def)
      then show ?thesis using step_stopped [OF i, of "cur e"] pc by simp
    next
      case False
      have q: "q' = remove1 f (wq_of z)" using schedule_cases(3) [OF sc f(1)] False by simp
      then have "r = RW_handed f" "obj_awake e f (rs_lv2 z) = Some s"
        "x = (rs_rw z)\<lparr>rw_wq := remove1 f (wq_of z), rw_owner := hand_word f (remove1 f (wq_of z)) (rq_of z)\<rparr>"
        using op sc f False by (auto simp: rw_wunlock_slow_def)
      then show ?thesis using step_handed [OF i f(2) False _ _ , of e s CELL_OK] pc c(1) n by (cases z) simp
    qed
  next
    case True
    then have sc: "schedule (ppus (rs_lv2 z)) (rw_protocol (rs_rw z)) (wq_of z) = (None, [])" by (simp add: schedule_def)
    consider (freed) "rq_of z = []" | (stopped) "rq_of z \<noteq> []" "some_again (rs_lv2 z) (rq_of z)" | (shared) "rq_of z \<noteq> []" "\<not> some_again (rs_lv2 z) (rq_of z)" by blast
    then show ?thesis
    proof cases
      case freed
      then have "r = RW_freed" "s = rs_lv2 z" "x = (rs_rw z)\<lparr>rw_owner := 0\<rparr>" using op sc by (simp_all add: rw_wunlock_slow_def)
      then show ?thesis using c True freed n by (auto intro!: step_word [OF i] simp: rw_word_def word_ok_def)
    next
      case stopped
      then have "r = RW_stopped 0" "s = add_flags (cur e) {F_again} (rs_lv2 z)" "x = rs_rw z"
        using op sc by (simp_all add: rw_wunlock_slow_def)
      then show ?thesis using step_stopped [OF i, of "cur e"] pc by simp
    next
        case shared
      have "drain_queue (ppus (rs_lv2 z)) (rq_of z) [] = Some (rev (rq_of z))"
        using drain_queue_all [of "rq_of z" "ppus (rs_lv2 z)" "[]"] rw_invD(3) [OF i] shared(2) by (auto simp: some_again_def)
      then have "r = RW_shared (rev (rq_of z))" "obj_awake_all e (append_all (rev (rq_of z)) (rs_lv2 z)) = Some s"
        "x = (rs_rw z)\<lparr>rw_rq := [], rw_owner := - 2 * int (length (rq_of z))\<rparr>"
        using op sc shared by (auto simp: rw_wunlock_slow_def)
      then show ?thesis using step_shared [OF i pc True shared(2), of s] n by simp
    qed
  qed
qed

lemma step_wunlock:
  assumes i: "rw_inv z" and pc: "rs_pc z t = RW_idle" and p: "is_ppu t" and op: "rw_wunlock_fast t (rs_rw z) = (r, x)"
  shows "rw_inv (rgo t (if r div 2 \<noteq> int t then RW_ret CELL_EPERM else if odd r then RW_unlocking else RW_ret CELL_OK)
      (z\<lparr>rs_rw := x, rs_writer := if r = writer_word t then None else rs_writer z\<rparr>))"
proof (cases "rw_owner (rs_rw z) = writer_word t")
  case True
  then have x: "r = 2 * int t" "x = (rs_rw z)\<lparr>rw_owner := 0\<rparr>" using op by (auto simp: rw_wunlock_fast_def writer_word [OF p])
  have "rs_writer z = Some t \<and> rs_readers z = 0 \<and> rq_of z = [] \<and> wq_of z = []"
    using i
  proof (cases rule: word_cases)
    case (readers n)
    then show ?thesis using True writer_word [OF p] by (cases "wq_of z = []") simp_all
  next
    case (writer w)
    moreover have "2 * int t \<noteq> 2 * int w + 1" by presburger
    ultimately show ?thesis using True writer_word [OF p] by auto
  qed (use True writer_word [OF p] is_ppu_pos [OF p] in auto)
  then show ?thesis
    using x True rw_invD(5) [OF i, of t] pc by (auto intro!: step_word [OF i] simp: rw_word_def word_ok_def writer_word [OF p])
next
  case False
  then have x: "r = rw_owner (rs_rw z)" "x = rs_rw z" using op by (auto simp: rw_wunlock_fast_def)
  have "rs_writer z = Some t" if "rw_owner (rs_rw z) div 2 = int t"
    using i
  proof (cases rule: word_cases)
    case (readers n)
    then show ?thesis using that by (cases "wq_of z = []") simp_all
  next
    case (writer w)
    then show ?thesis using that by auto
  qed (use that is_ppu_pos [OF p] in auto)
  then show ?thesis using x False step_idle_same [OF i, of t] pc by (auto split: if_splits)
qed

lemma step_others:
  assumes i: "rw_inv z" and o': "others_act (set (rq_of z) \<union> set (wq_of z)) (rs_granted z) {t. rs_pc z t \<noteq> RW_idle} (rs_lv2 z) s"
  shows "rw_inv (z\<lparr>rs_lv2 := s\<rparr>)" (is "rw_inv ?z")
proof -
  have "rpc_ok ?z t (rs_pc z t)" for t
    using rw_invD(5) [OF i, of t] o' by (cases "rs_pc z t") (auto simp: others_act_def)
  then show ?thesis
    using rw_invD(1,3) [OF i] asleep_others [OF rw_invD(4) [OF i] o'] by (simp add: rw_inv_def rw_wait_def rw_word_def)
qed

lemma rw_inv_step: "rw_step z z' \<Longrightarrow> rw_inv z \<Longrightarrow> rw_inv z'"
proof (induction rule: rw_step.induct)
  case (rw_read z t x)
  then have "can_read (rw_owner (rs_rw z))" "x = (rs_rw z)\<lparr>rw_owner := s64 (rw_owner (rs_rw z) - 2)\<rparr>"
    by (auto simp: rw_rlock_fast_def rw_tryrlock_def split: if_splits)
  then show ?case using step_read [of z t] rw_read by simp
next
  case (rw_read_busy z t x)
  then have "x = rs_rw z" by (auto simp: rw_tryrlock_def split: if_splits)
  then show ?case using step_idle_same [of z t "RW_ret CELL_EBUSY"] rw_read_busy by simp
next
  case (rw_read_slow z e n s x)
  then have "can_read (rw_owner (rs_rw z))" "s = rs_lv2 z" "x = (rs_rw z)\<lparr>rw_owner := s64 (rw_owner (rs_rw z) - 2)\<rparr>"
    by (auto simp: rw_rlock_slow_def can_read_def Let_def split: if_splits)
  then show ?case using step_read [of z "cur e"] rw_read_slow by simp
next
  case (rw_write z t x)
  then have "rw_owner (rs_rw z) = 0" "x = (rs_rw z)\<lparr>rw_owner := writer_word t\<rparr>"
    by (auto simp: rw_wlock_fast_def rw_trywlock_def split: if_splits)
  then show ?case using step_write [of z t] rw_write by simp
next
  case (rw_write_deadlk z t r x)
  then have "x = rs_rw z" by (auto simp: rw_wlock_fast_def rw_trywlock_def split: if_splits)
  then show ?case using step_idle_same [of z t "RW_ret CELL_EDEADLK"] rw_write_deadlk by simp
next
  case (rw_write_busy z t r x)
  then have "x = rs_rw z" by (auto simp: rw_trywlock_def split: if_splits)
  then show ?case using step_idle_same [of z t "RW_ret CELL_EBUSY"] rw_write_busy by simp
next
  case (rw_write_slow z e n s x)
  then have "rw_owner (rs_rw z) = 0" "s = rs_lv2 z" "x = (rs_rw z)\<lparr>rw_owner := writer_word (cur e)\<rparr>"
    by (auto simp: rw_wlock_slow_def Let_def split: if_splits)
  then show ?case using step_write [of z "cur e"] rw_write_slow by (simp add: may_sleep_def)
next
  case (rw_rstop z t n c s x)
  then show ?case using wait_iter_stop [OF rw_rstop(2)] step_again [of z t] by simp
next
  case (rw_wstop z e n c s x)
  then show ?case using wait_iter_stop [OF rw_wstop(2)] step_again [of z "cur e"] by simp
next
  case (rw_runlock z t x)
  then have "rw_owner (rs_rw z) < - 1" "x = (rs_rw z)\<lparr>rw_owner := s64 (rw_owner (rs_rw z) + 2)\<rparr>"
    by (auto simp: rw_runlock_fast_def split: if_splits)
  then show ?case using step_runlock [of z t] rw_runlock by simp
next
  case (rw_return z t r)
  then show ?case using step_idle_same [of z t RW_idle] by simp
qed (blast intro: step_rwait step_wwait step_rbreak step_wbreak step_rtimeout step_wtimeout step_runlock_slow
  step_wunlock step_wunlock_slow step_others)+

section \<open>Properties\<close>

definition rw_runs :: "lv2 \<Rightarrow> lv2_rwlock \<Rightarrow> rw_sys \<Rightarrow> bool" where
  "rw_runs s x z \<longleftrightarrow> rw_step\<^sup>*\<^sup>* (rw_start s x) z"

lemma rw_runs_inv:
  assumes "kernel_ready s" "rw_runs s (new_rwlock pr key name) z"
  shows "rw_inv z"
  using assms(2) unfolding rw_runs_def
proof (induction rule: rtranclp_induct)
  case base
  show ?case using assms(1)
    by (simp add: rw_inv_def rw_word_def word_ok_def rw_wait_def rw_start_def new_rwlock_def asleep_def)
qed (blast intro: rw_inv_step)

text \<open>C5: Exclusion under every interleaving of the system calls, time-outs and stops: while a thread
  holds the write lock nobody holds a read lock, and the lock word names that thread; otherwise the word is
  minus twice the number of read locks, plus one if writers wait.\<close>

theorem rwlock_exclusion:
  assumes "kernel_ready s" "rw_runs s (new_rwlock pr key name) z"
  shows "case rs_writer z of
      Some w \<Rightarrow> rs_readers z = 0 \<and> rw_owner (rs_rw z) div 2 = int w
    | None \<Rightarrow> rw_owner (rs_rw z) = of_bool (wq_of z \<noteq> []) - 2 * int (rs_readers z)"
  using rw_invD(1) [OF rw_runs_inv [OF assms]] by (auto simp: rw_word_def word_ok_def split: option.splits)

lemma rw_exit:
  assumes "rw_step z z'" "rw_inv z" "rs_pc z t = RW_rwait n \<or> rs_pc z t = RW_wwait n" "rs_pc z' t = RW_ret r"
  shows "r = CELL_OK \<and> t \<in> rs_granted z \<or> r = CELL_ETIMEDOUT \<and> t \<notin> rs_granted z"
  using assms
proof (induction rule: rw_step.induct)
  case (rw_rbreak z u m c s x)
  have p: "rpc_ok z u (RW_rwait m)" using rw_invD(5) [OF rw_rbreak(3), of u] rw_rbreak(1) by simp
  then have "u \<in> set (rq_of z) \<longleftrightarrow> u \<in> set (rq_of z) \<union> set (wq_of z)" by auto
  note b = wait_iter_break [OF rw_invD(4) [OF rw_rbreak(3)] rw_rbreak(2) this]
  show ?case using rw_rbreak(4,5) p b(2,4) by (cases "u = t") auto
next
  case (rw_wbreak z e m c s x)
  have p: "rpc_ok z (cur e) (RW_wwait m)" using rw_invD(5) [OF rw_wbreak(3), of "cur e"] rw_wbreak(1) by simp
  then have "cur e \<in> set (wq_of z) \<longleftrightarrow> cur e \<in> set (rq_of z) \<union> set (wq_of z)" by auto
  note b = wait_iter_break [OF rw_invD(4) [OF rw_wbreak(3)] rw_wbreak(2) this]
  show ?case using rw_wbreak(4,5) p b(2,4) by (cases "cur e = t") auto
next
  case (rw_rtimeout z u m s x)
  have p: "rpc_ok z u (RW_rwait m)" using rw_invD(5) [OF rw_rtimeout(4), of u] rw_rtimeout(1) by simp
  have "gpr_of s u 3 = (if u \<in> set (rq_of z) then CELL_ETIMEDOUT else gpr_of (rs_lv2 z) u 3)"
    using rw_rtimeout(3) by (auto simp: rw_rexpire_def unqueue_def split: if_splits)
  then show ?case
    using rw_rtimeout(5,6) p asleep_disjoint [OF rw_invD(4) [OF rw_rtimeout(4)]] by (cases "u = t") (auto split: if_splits)
next
  case (rw_wtimeout z e m s x)
  have p: "rpc_ok z (cur e) (RW_wwait m)" using rw_invD(5) [OF rw_wtimeout(5), of "cur e"] rw_wtimeout(1) by simp
  have "gpr_of s (cur e) 3 = (if cur e \<in> set (wq_of z) then CELL_ETIMEDOUT else gpr_of (rs_lv2 z) (cur e) 3)"
    using rw_wtimeout(4) by (auto simp: rw_wexpire_def unqueue_def Let_def split: if_splits option.splits)
  then show ?case
    using rw_wtimeout(6,7) p asleep_disjoint [OF rw_invD(4) [OF rw_wtimeout(5)]] by (cases "cur e = t") (auto split: if_splits)
next
  case (rw_runlock_slow z e r' s x)
  then show ?case by (cases "cur e = t") (cases r'; auto)+
next
  case (rw_wunlock_slow z e r' s x)
  then show ?case by (cases "cur e = t") (cases r'; auto)+
qed (auto split: if_splits)


lemma wexpire_none:
  fixes e :: env
  assumes i: "rw_inv z" and pc: "rs_pc z (cur e) = RW_wwait n"
  shows "rw_wexpire e (add_flags (cur e) {F_wait} (rs_lv2 z)) (rs_rw z) = None \<longleftrightarrow>
     wq_of z = [cur e] \<and> rw_owner (rs_rw z) < 0 \<and> some_again (rs_lv2 z) (rq_of z)"
proof -
  define s0 where "s0 = add_flags (cur e) {F_wait} (rs_lv2 z)"
  have a0: "asleep s0 (set (rq_of z) \<union> set (wq_of z)) (rs_granted z)" unfolding s0_def by (rule asleep_add [OF rw_invD(4) [OF i]]) auto
  have "F_again \<in> flags_of s0 u \<longleftrightarrow> F_again \<in> flags_of (rs_lv2 z) u" for u by (simp add: s0_def)
  then have ag: "some_again s0 (rq_of z) = some_again (rs_lv2 z) (rq_of z)" by (simp add: some_again_def)
  have dr: "drain_queue (ppus s0) (rq_of z) [] = (if some_again s0 (rq_of z) then None else Some (rev (rq_of z)))"
    using drain_all [of s0 "rq_of z"] drain_queue_all [of "rq_of z" "ppus s0" "[]"] rw_invD(3) [OF i]
    by (cases "drain_queue (ppus s0) (rq_of z) []") (auto simp: some_again_def)
  have un: "unqueue (wq_of z) (cur e) = (if cur e \<in> set (wq_of z) then (Some (cur e), remove1 (cur e) (wq_of z)) else (None, wq_of z))"
    by (simp add: unqueue_def)
  have rm: "cur e \<in> set (wq_of z) \<Longrightarrow> remove1 (cur e) (wq_of z) = [] \<longleftrightarrow> wq_of z = [cur e]" by (cases "wq_of z") auto
  show ?thesis
    using wake_all_spec [OF a0, of "rev (rq_of z)" e] dr un rm ag
    unfolding s0_def [symmetric] by (auto simp: rw_wexpire_def Let_def some_again_def split: option.splits)
qed

text \<open>C15: Which calls return. Unlocking always completes: the \<^verbatim>\<open>ensure\<close> of \<^verbatim>\<open>sys_rwlock_runlock\<close> holds and the
  loop of \<^verbatim>\<open>sys_rwlock_wunlock\<close> over the readers ends. A writer whose time is up also completes, except in
  one case: it was the last waiting writer, readers hold the lock, and one of the readers queued behind it was
  interrupted; then the loop that lets the readers in never ends.\<close>

theorem rwlock_calls_return:
  fixes e :: env
  assumes "kernel_ready s" "rw_runs s (new_rwlock pr key name) z"
  shows "(rs_pc z (cur e) = RW_idle \<longrightarrow> rw_runlock_slow e (rs_lv2 z) (rs_rw z) \<noteq> None)
    \<and> (rs_pc z (cur e) = RW_unlocking \<longrightarrow> rw_wunlock_slow e (rs_lv2 z) (rs_rw z) \<noteq> None)
    \<and> (rs_pc z (cur e) = RW_wwait n \<longrightarrow>
         (rw_wexpire e (add_flags (cur e) {F_wait} (rs_lv2 z)) (rs_rw z) = None \<longleftrightarrow>
            wq_of z = [cur e] \<and> rw_owner (rs_rw z) < 0 \<and> some_again (rs_lv2 z) (rq_of z)))"
proof (intro conjI impI)
  note i = rw_runs_inv [OF assms] and d = rw_invD(3) [OF rw_runs_inv [OF assms]] and a = rw_invD(4) [OF rw_runs_inv [OF assms]]
  have aw: "obj_awake e f (rs_lv2 z) \<noteq> None" if "f \<in> set (wq_of z)" for f using wake_one_spec [OF a, of f e] that by auto
  obtain r q where sc: "schedule (ppus (rs_lv2 z)) (rw_protocol (rs_rw z)) (wq_of z) = (r, q)" by fastforce
  show "rw_runlock_slow e (rs_lv2 z) (rs_rw z) \<noteq> None"
  proof (cases r)
    case None
    then have "wq_of z = []" using schedule_cases(1) [OF sc] by simp
    moreover have "rw_owner (rs_rw z) \<noteq> - 1 \<or> rq_of z = []" using i by (cases rule: word_cases) (use calculation in auto)
    ultimately show ?thesis using None sc by (auto simp: rw_runlock_slow_def Let_def)
  next
    case (Some f)
    then show ?thesis using sc aw schedule_cases(2) [OF sc Some] by (auto simp: rw_runlock_slow_def Let_def)
  qed
  show "rw_wunlock_slow e (rs_lv2 z) (rs_rw z) \<noteq> None"
  proof (cases r)
    case None
    have "\<not> some_again (rs_lv2 z) (rq_of z) \<Longrightarrow> drain_queue (ppus (rs_lv2 z)) (rq_of z) [] = Some (rev (rq_of z))"
      using drain_queue_all [of "rq_of z" "ppus (rs_lv2 z)" "[]"] d by (auto simp: some_again_def)
    then show ?thesis using None sc wake_all_spec [OF a, of "rev (rq_of z)" e] by (auto simp: rw_wunlock_slow_def)
  next
    case (Some f)
    then show ?thesis using sc aw schedule_cases(2) [OF sc Some] by (auto simp: rw_wunlock_slow_def)
  qed
  show "rw_wexpire e (add_flags (cur e) {F_wait} (rs_lv2 z)) (rs_rw z) = None \<longleftrightarrow>
     wq_of z = [cur e] \<and> rw_owner (rs_rw z) < 0 \<and> some_again (rs_lv2 z) (rq_of z)" if "rs_pc z (cur e) = RW_wwait n"
    by (rule wexpire_none [OF i that])
qed

text \<open>A run in which one thread holds a read lock and a second one waits for the write lock.\<close>

abbreviation reader_tid :: tid where "reader_tid \<equiv> 0x1000000"
abbreviation writer_env :: env where "writer_env \<equiv> \<lparr>cur = 0x1000001, e_now = 0, e_tsc = 0\<rparr>"

definition plain_rwlock :: lv2_rwlock where
  "plain_rwlock = new_rwlock SYS_SYNC_FIFO 0 0"

lemma rw_sample_run:
  obtains z where "rw_runs (lv2_boot 2) plain_rwlock z" "rs_pc z 0x1000001 = RW_wwait 0" "rs_readers z = 1" "rs_writer z = None"
    "wq_of z = [0x1000001]" "rq_of z = []" "rw_owner (rs_rw z) = - 1"
proof -
  let ?z0 = "rw_start (lv2_boot 2) plain_rwlock" and ?x1 = "plain_rwlock\<lparr>rw_owner := - 2\<rparr>"
  let ?z1 = "rgo reader_tid (RW_ret CELL_OK) (?z0\<lparr>rs_rw := ?x1, rs_readers := rs_readers ?z0 + 1\<rparr>)"
  have p: "is_ppu 0x1000001" by (simp add: is_ppu_def id_type_def)
  have 1: "rw_step ?z0 ?z1"
    by (rule rw_read) (simp_all add: rw_start_def plain_rwlock_def new_rwlock_def rw_rlock_fast_def can_read_def s64_id)
  have "may_sleep 0 (rs_lv2 ?z1) (cur writer_env)"
    using p by (simp add: may_sleep_def rw_start_def lv2_boot_def fresh_thread_def)
  moreover have "asleep (rs_lv2 ?z1) {} {}" using boot_ready by (simp add: asleep_def rw_start_def)
  ultimately obtain s' where s': "enqueue_sleep writer_env 0 [] (rs_lv2 ?z1) = Some ([0x1000001], s')"
    using enqueue_sleep_spec [where e = writer_env and q = "[]" and G = "{}"] by fastforce
  have w: "rw_wlock_slow writer_env 0 (rs_lv2 ?z1) (rs_rw ?z1) = Some (- 2, s', ?x1\<lparr>rw_owner := - 1, rw_wq := [0x1000001]\<rparr>)"
    using s' by (simp add: rw_wlock_slow_def rw_start_def plain_rwlock_def new_rwlock_def or_one)
  have 2: "rw_step ?z1 (rgo (cur writer_env) (RW_wwait 0)
      (?z1\<lparr>rs_lv2 := set_gpr (cur writer_env) 3 CELL_OK s', rs_rw := ?x1\<lparr>rw_owner := - 1, rw_wq := [0x1000001]\<rparr>\<rparr>))" (is "rw_step _ ?z2")
    by (rule rw_write_wait [OF _ \<open>may_sleep 0 (rs_lv2 ?z1) (cur writer_env)\<close> _ w]) (simp_all add: rw_start_def)
  have "rw_runs (lv2_boot 2) plain_rwlock ?z2"
    unfolding rw_runs_def using 1 2 by (meson converse_rtranclp_into_rtranclp rtranclp.rtrancl_refl)
  then show thesis by (rule that) (simp_all add: rw_start_def plain_rwlock_def new_rwlock_def)
qed

theorem rwlock_exclusion_witness:
  "\<exists>z. rw_runs (lv2_boot 2) plain_rwlock z \<and> rs_readers z = 1 \<and> wq_of z = [0x1000001] \<and> rw_owner (rs_rw z) = - 1"
proof -
  obtain z where z: "rw_runs (lv2_boot 2) plain_rwlock z" "rs_readers z = 1" "rs_writer z = None" "wq_of z = [0x1000001]"
    by (rule rw_sample_run) blast
  then show ?thesis using rwlock_exclusion [OF boot_ready z(1) [unfolded plain_rwlock_def]] by auto
qed


theorem rwlock_calls_return_witness:
  "\<exists>z. rw_runs (lv2_boot 2) plain_rwlock z \<and> wq_of z = [0x1000001]
     \<and> rw_wexpire writer_env (add_flags 0x1000001 {F_wait} (rs_lv2 z)) (rs_rw z) \<noteq> None"
proof -
  obtain z where z: "rw_runs (lv2_boot 2) plain_rwlock z" "rs_pc z 0x1000001 = RW_wwait 0" "wq_of z = [0x1000001]" "rq_of z = []"
    by (rule rw_sample_run) blast
  then show ?thesis
    using rwlock_calls_return [OF boot_ready z(1) [unfolded plain_rwlock_def], of writer_env 0] by (auto simp: some_again_def)
qed

end
