(* ===== verification/Sys_Event_Flag.thy ===== *)
theory Sys_Event_Flag
  imports Lv2_Waiters
begin

text \<open>
  Event flags: \<^verbatim>\<open>kernel/cellos/src/sys_event_flag.cpp\<close> and \<^verbatim>\<open>sys_event_flag.h\<close>. The registers of a
  waiting thread carry its request and its result, as in the code: \<^verbatim>\<open>gpr[4]\<close> the bits, \<^verbatim>\<open>gpr[5]\<close> the mode,
  \<^verbatim>\<open>gpr[6]\<close> the pattern it is told, \<^verbatim>\<open>gpr[3]\<close> the error code, \<^verbatim>\<open>gpr[7]\<close> the mark of the pass of
  \<^verbatim>\<open>sys_event_flag_set\<close>. That function computes on a copy of the pattern and commits it with an atomic
  operation that fails when another thread has cleared bits the computation depended on; the values the
  atomic operations find are a parameter of the model.
\<close>

abbreviation SYS_SYNC_WAITER_SINGLE :: u32 where "SYS_SYNC_WAITER_SINGLE \<equiv> 0x10000"
abbreviation SYS_SYNC_WAITER_MULTIPLE :: u32 where "SYS_SYNC_WAITER_MULTIPLE \<equiv> 0x20000"
abbreviation (input) WAIT_AND :: "'a::len word" where "WAIT_AND \<equiv> 1"
abbreviation (input) WAIT_OR :: "'a::len word" where "WAIT_OR \<equiv> 2"
abbreviation (input) WAIT_CLEAR :: "'a::len word" where "WAIT_CLEAR \<equiv> 0x10"
abbreviation (input) WAIT_CLEAR_ALL :: "'a::len word" where "WAIT_CLEAR_ALL \<equiv> 0x20"

definition check_mode :: "u32 \<Rightarrow> bool" where
  "check_mode mode \<longleftrightarrow>
     (mode AND 0xf = WAIT_AND \<or> mode AND 0xf = WAIT_OR)
     \<and> (mode AND NOT 0xf = 0 \<or> mode AND NOT 0xf = WAIT_CLEAR \<or> mode AND NOT 0xf = WAIT_CLEAR_ALL)"

text \<open>Whether the pattern satisfies the request, and the pattern that is left.\<close>

definition satisfied :: "u64 \<Rightarrow> u64 \<Rightarrow> u64 \<Rightarrow> bool" where
  "satisfied pattern bitptn mode \<longleftrightarrow>
     \<not> (mode AND 0xf = WAIT_AND \<and> pattern AND bitptn \<noteq> bitptn \<or> mode AND 0xf = WAIT_OR \<and> pattern AND bitptn = 0)"

definition pattern_left :: "u64 \<Rightarrow> u64 \<Rightarrow> u64 \<Rightarrow> u64" where
  "pattern_left pattern bitptn mode =
     (if mode AND NOT 0xf = WAIT_CLEAR then pattern AND NOT bitptn
      else if mode AND NOT 0xf = WAIT_CLEAR_ALL then 0 else pattern)"

text \<open>The result, the reported pattern and the new pattern.\<close>

definition check_pattern :: "u64 \<Rightarrow> u64 \<Rightarrow> u64 \<Rightarrow> bool \<times> u64 \<times> u64" where
  "check_pattern pattern bitptn mode =
     (if satisfied pattern bitptn mode then (True, pattern, pattern_left pattern bitptn mode) else (False, pattern, pattern))"

section \<open>Waiting\<close>

text \<open>One attempt: \<^verbatim>\<open>pattern.fetch_op(check_pattern(..., &ppu.gpr[6]))\<close>.\<close>

definition ef_try :: "tid \<Rightarrow> u64 \<Rightarrow> u64 \<Rightarrow> lv2 \<Rightarrow> lv2_event_flag \<Rightarrow> bool \<times> lv2 \<times> lv2_event_flag" where
  "ef_try t bitptn mode s x =
     (case check_pattern (ef_pattern x) bitptn mode of
        (ok, res, pat) \<Rightarrow> (ok, set_gpr t 6 res s, x\<lparr>ef_pattern := pat\<rparr>))"

definition ef_args :: "tid \<Rightarrow> u64 \<Rightarrow> u64 \<Rightarrow> lv2 \<Rightarrow> lv2" where
  "ef_args t bitptn mode s = set_gpr t 6 0 (set_gpr t 5 mode (set_gpr t 4 bitptn (set_gpr t 3 (-1) s)))"

text \<open>The part under \<^verbatim>\<open>flag.mutex\<close>; \<^verbatim>\<open>CELL_EBUSY\<close> means the thread has gone to sleep.\<close>

definition ef_wait_slow :: "env \<Rightarrow> u64 \<Rightarrow> u64 \<Rightarrow> nat \<Rightarrow> lv2 \<Rightarrow> lv2_event_flag \<Rightarrow> (error_code \<times> lv2 \<times> lv2_event_flag) option" where
  "ef_wait_slow e bitptn mode timeout s x =
     (case ef_try (cur e) bitptn mode s x of
        (True, s1, x1) \<Rightarrow> Some (CELL_OK, s1, x1)
      | (False, s1, x1) \<Rightarrow>
          if ef_type x1 = SYS_SYNC_WAITER_SINGLE \<and> ef_sq x1 \<noteq> [] then Some (CELL_EPERM, s1, x1)
          else map_option (\<lambda>(q, s2). (CELL_EBUSY, s2, x1\<lparr>ef_sq := q\<rparr>)) (enqueue_sleep e timeout (ef_sq x1) s1))"

definition ef_expire :: "tid \<Rightarrow> lv2 \<Rightarrow> lv2_event_flag \<Rightarrow> (lv2 \<times> lv2_event_flag) option" where
  "ef_expire t s x =
     (if ef_sq x = [] then Some (s, x)
      else case unqueue (ef_sq x) t of
        (None, _) \<Rightarrow> Some (s, x)
      | (Some _, q) \<Rightarrow> Some (set_gpr t 6 (ef_pattern x) (set_gpr t 3 CELL_ETIMEDOUT s), x\<lparr>ef_sq := q\<rparr>))"

section \<open>Setting\<close>

text \<open>\<^verbatim>\<open>get_next\<close>: the last unmarked thread of the list with the lowest priority value.\<close>

definition better :: "u32 \<Rightarrow> lv2 \<Rightarrow> tid \<Rightarrow> tid option \<times> int \<Rightarrow> tid option \<times> int" where
  "better protocol s t b =
     (if gpr_of s t 7 = 0 \<and> (protocol \<noteq> SYS_SYNC_PRIORITY \<or> prio_of s t \<le> snd b) then (Some t, prio_of s t) else b)"

definition get_next :: "u32 \<Rightarrow> lv2 \<Rightarrow> tid list \<Rightarrow> tid option" where
  "get_next protocol s q = fst (fold (better protocol s) q (None, 2 ^ 31 - 1))"

text \<open>The copy of the pattern, the bits of the old pattern it depends on, and the number of served threads.\<close>

record set_acc =
  to_write :: u64
  dependant_mask :: u64
  served :: nat

definition serve_one :: "u64 \<Rightarrow> tid \<Rightarrow> lv2 \<Rightarrow> set_acc \<Rightarrow> lv2 \<times> set_acc" where
  "serve_one bitptn t s a =
     (let pattern = gpr_of s t 4; mode = gpr_of s t 5;
          dep = (if mode AND 0xf = WAIT_OR \<or> bitptn AND pattern AND to_write a = pattern then 0 else pattern)
      in case check_pattern (to_write a) pattern mode of
           (True, res, pat) \<Rightarrow>
             (set_gpr t 3 CELL_OK (set_gpr t 6 res s),
              a\<lparr>to_write := pat, dependant_mask := dependant_mask a OR dep, served := served a + 1\<rparr>)
         | (False, res, pat) \<Rightarrow> (set_gpr t 3 (-1) (set_gpr t 6 res s), a\<lparr>to_write := pat\<rparr>))"

lemma get_next_in:
  assumes "get_next protocol s q = Some t"
  shows "t \<in> set q" "gpr_of s t 7 = 0"
proof -
  have "fst (fold (better protocol s) q b) = Some t \<Longrightarrow> fst b = Some t \<or> t \<in> set q \<and> gpr_of s t 7 = 0" for b
  proof (induction q arbitrary: b)
    case (Cons u q)
    then have "fst (better protocol s u b) = Some t \<or> t \<in> set q \<and> gpr_of s t 7 = 0" using Cons.IH [of "better protocol s u b"] by simp
    then show ?case unfolding better_def by (auto split: if_splits)
  qed simp
  from this [of "(None, 2 ^ 31 - 1)"] show "t \<in> set q" "gpr_of s t 7 = 0" using assms by (auto simp: get_next_def)
qed

definition unmarked :: "lv2 \<Rightarrow> tid list \<Rightarrow> tid list" where
  "unmarked s q = filter (\<lambda>t. gpr_of s t 7 = 0) q"

lemma serve_one_gpr7: "gpr_of (fst (serve_one b t s a)) u 7 = gpr_of s u 7"
  by (simp add: serve_one_def check_pattern_def Let_def)

text \<open>The loop over \<^verbatim>\<open>get_next\<close>.\<close>

function serve_pass :: "u32 \<Rightarrow> u64 \<Rightarrow> tid list \<Rightarrow> lv2 \<Rightarrow> set_acc \<Rightarrow> lv2 \<times> set_acc" where
  "serve_pass protocol bitptn q s a =
     (case get_next protocol s q of
        None \<Rightarrow> (s, a)
      | Some t \<Rightarrow>
          (case serve_one bitptn t (set_gpr t 7 1 s) a of
             (s1, a1) \<Rightarrow>
               if served a1 \<noteq> served a \<and> to_write a1 = 0 then (s1, a1) else serve_pass protocol bitptn q s1 a1))"
  by pat_completeness auto
termination
proof (relation "measure (\<lambda>(protocol, bitptn, q, s, a). length (unmarked s q))")
  fix protocol bitptn q s a t s1 a1
  assume n: "get_next protocol s q = Some t" and "(s1, a1) = serve_one bitptn t (set_gpr t 7 1 s) a"
  then have g: "gpr_of s1 u 7 = (if u = t then 1 else gpr_of s u 7)" for u
    using serve_one_gpr7 [of bitptn t "set_gpr t 7 1 s" a u] by (metis fst_conv fun_upd_same set_gpr_frame(5))
  have "t \<in> set (unmarked s q)" using get_next_in [OF n] by (simp add: unmarked_def)
  moreover have "unmarked s1 q = filter (\<lambda>u. u \<noteq> t) (unmarked s q)" by (auto simp: unmarked_def g intro: filter_cong)
  ultimately have "length (unmarked s1 q) < length (unmarked s q)" by (metis (mono_tags, lifting) length_filter_less)
  then show "((protocol, bitptn, q, s1, a1), protocol, bitptn, q, s, a) \<in> measure (\<lambda>(protocol, bitptn, q, s, a). length (unmarked s q))"
    by simp
qed simp

definition clear_marks :: "tid list \<Rightarrow> lv2 \<Rightarrow> lv2" where
  "clear_marks q s = fold (\<lambda>t. set_gpr t 7 0) q s"

text \<open>One round: the pass over the waiters for a given old pattern.\<close>

definition set_round :: "u64 \<Rightarrow> u64 \<Rightarrow> lv2 \<Rightarrow> lv2_event_flag \<Rightarrow> lv2 \<times> set_acc" where
  "set_round bitptn pattern s x =
     (case serve_pass (ef_protocol x) bitptn (ef_sq x) (clear_marks (ef_sq x) s)
             \<lparr>to_write = pattern OR bitptn, dependant_mask = 0, served = 0\<rparr> of
        (s1, a) \<Rightarrow> (s1, a\<lparr>dependant_mask := dependant_mask a AND NOT bitptn\<rparr>))"

text \<open>
  The rounds: each list element is the value that the \<^verbatim>\<open>fetch_op\<close> of that round finds. \<open>None\<close>: the loop
  has not ended after these rounds.
\<close>

fun set_rounds :: "u64 \<Rightarrow> u64 \<Rightarrow> u64 list \<Rightarrow> lv2 \<Rightarrow> lv2_event_flag \<Rightarrow> (nat \<times> u64 \<times> lv2) option" where
  "set_rounds bitptn pattern [] s x = None"
| "set_rounds bitptn pattern (v # vs) s x =
     (case set_round bitptn pattern s x of
        (s1, a) \<Rightarrow>
          if (v XOR pattern) AND dependant_mask a \<noteq> 0 then set_rounds bitptn v vs s1 x
          else Some (served a, (v OR bitptn) AND NOT ((pattern OR bitptn) AND NOT (to_write a)), s1))"

text \<open>The part under \<^verbatim>\<open>flag->mutex\<close>, for the values \<open>vs\<close> found by the atomic operations.\<close>

definition ef_set_slow :: "env \<Rightarrow> u64 \<Rightarrow> u64 list \<Rightarrow> lv2 \<Rightarrow> lv2_event_flag \<Rightarrow> (error_code \<times> lv2 \<times> lv2_event_flag) option" where
  "ef_set_slow e bitptn vs s x =
     (if some_again s (ef_sq x) then Some (CELL_EAGAIN, add_flags (cur e) {F_again} s, x)
      else case set_rounds bitptn (ef_pattern x) vs s x of
        None \<Rightarrow> None
      | Some (n, pat, s1) \<Rightarrow>
          if n = 0 then Some (CELL_OK, s1, x\<lparr>ef_pattern := pat\<rparr>)
          else
            map_option (\<lambda>s2. (CELL_OK, s2, x\<lparr>ef_pattern := pat, ef_sq := filter (\<lambda>t. gpr_of s1 t 3 \<noteq> CELL_OK) (ef_sq x)\<rparr>))
              (obj_awake_all e (append_all (filter (\<lambda>t. gpr_of s1 t 3 = CELL_OK) (ef_sq x)) s1)))"

text \<open>\<^verbatim>\<open>sys_event_flag_cancel\<close> under the mutex: the number of woken threads.\<close>

definition ef_cancel :: "env \<Rightarrow> lv2 \<Rightarrow> lv2_event_flag \<Rightarrow> (nat option \<times> lv2 \<times> lv2_event_flag) option" where
  "ef_cancel e s x =
     (if some_again s (ef_sq x) then Some (None, add_flags (cur e) {F_again} s, x)
      else case drain_queue (ppus s) (ef_sq x) [] of
        None \<Rightarrow> None
      | Some ws \<Rightarrow>
          let s1 = fold (\<lambda>t. set_gpr t 6 (ef_pattern x) \<circ> set_gpr t 3 CELL_ECANCELED) ws s in
          map_option (\<lambda>s2. (Some (length ws), s2, x\<lparr>ef_sq := []\<rparr>))
            (if ws \<noteq> [] then obj_awake_all e (append_all ws s1) else Some s1))"

section \<open>System calls\<close>

record sys_event_flag_attribute_t =
  efa_protocol :: u32
  efa_pshared :: u32
  efa_ipc_key :: u64
  efa_flags :: u32
  efa_type :: u32
  efa_name :: u64

definition new_event_flag :: "u32 \<Rightarrow> u64 \<Rightarrow> u32 \<Rightarrow> u64 \<Rightarrow> u64 \<Rightarrow> lv2_event_flag" where
  "new_event_flag protocol key type name pattern =
     \<lparr>obj_exists = 0, ef_protocol = take_bit 8 protocol, ef_key = key, ef_type = type, ef_name = name,
      ef_pattern = pattern, ef_sq = []\<rparr>"

definition event_flag_at :: "u32 \<Rightarrow> kernel \<Rightarrow> (nat \<times> lv2_event_flag) option" where
  "event_flag_at v k = (case obj_at event_flag_base_id v k of Some (p, O_event_flag x) \<Rightarrow> Some (p, x) | _ \<Rightarrow> None)"

definition put_event_flag :: "nat \<Rightarrow> lv2_event_flag \<Rightarrow> kernel \<Rightarrow> kernel" where
  "put_event_flag p x k = k\<lparr>store := (store k)(p \<mapsto> O_event_flag x)\<rparr>"

definition sys_event_flag_create ::
    "env \<Rightarrow> bool \<Rightarrow> sys_event_flag_attribute_t option \<Rightarrow> u64 \<Rightarrow> kernel \<Rightarrow> (error_code \<times> u32 option \<times> kernel) option" where
  "sys_event_flag_create e id_ptr attr init k =
     (let k1 = enter e k in
      case attr of
        None \<Rightarrow> Some (CELL_EFAULT, None, k1)
      | Some a \<Rightarrow>
          if \<not> id_ptr then Some (CELL_EFAULT, None, k1)
          else if efa_protocol a \<noteq> SYS_SYNC_FIFO \<and> efa_protocol a \<noteq> SYS_SYNC_PRIORITY then Some (CELL_EINVAL, None, k1)
          else if efa_type a \<noteq> SYS_SYNC_WAITER_SINGLE \<and> efa_type a \<noteq> SYS_SYNC_WAITER_MULTIPLE then Some (CELL_EINVAL, None, k1)
          else
            let key = get_key (efa_pshared a) (efa_ipc_key a) in
            (case create event_flag_base_id (efa_pshared a) key (efa_flags a)
                    (\<lambda>_. O_event_flag (new_event_flag (efa_protocol a) key (efa_type a) (efa_name a) init)) True k1 of
               None \<Rightarrow> None
             | Some (err, k2) \<Rightarrow>
                 if err \<noteq> 0 then Some (err, None, k2) else Some (CELL_OK, Some (last_id (ids k2)), k2)))"

definition sys_event_flag_destroy :: "env \<Rightarrow> u32 \<Rightarrow> kernel \<Rightarrow> error_code \<times> kernel" where
  "sys_event_flag_destroy e v k =
     (case withdraw_obj event_flag_base_id v
             (\<lambda>p k1. case store k1 p of
                Some (O_event_flag x) \<Rightarrow>
                  if ef_sq x \<noteq> [] then (CELL_EBUSY, k1) else (CELL_OK, on_id_destroy event_flag_base_id p (ef_key x) k1)
              | _ \<Rightarrow> (CELL_ESRCH, k1)) (enter e k) of
        (None, k1) \<Rightarrow> (CELL_ESRCH, k1)
      | (Some (p, err), k1) \<Rightarrow> (err, k1))"

text \<open>The second component is the value stored through \<^verbatim>\<open>result\<close> when the call returns.\<close>

definition sys_event_flag_wait ::
    "env \<Rightarrow> u32 \<Rightarrow> u64 \<Rightarrow> u32 \<Rightarrow> nat \<Rightarrow> kernel \<Rightarrow> (sys_result \<times> u64 \<times> kernel) option" where
  "sys_event_flag_wait e v bitptn mode timeout k =
     (let k1 = enter e k; k2 = k1\<lparr>sched := ef_args (cur e) bitptn (ucast mode) (sched k1)\<rparr> in
      if \<not> check_mode mode then Some (Done CELL_EINVAL, 0, k2)
      else case event_flag_at v k2 of
        None \<Rightarrow> Some (Done CELL_ESRCH, 0, k2)
      | Some (p, x) \<Rightarrow>
          (case ef_try (cur e) bitptn (ucast mode) (sched k2) x of
             (True, s, x1) \<Rightarrow> Some (Done CELL_OK, gpr_of s (cur e) 6, put_event_flag p x1 (k2\<lparr>sched := s\<rparr>))
           | (False, s, x1) \<Rightarrow>
               map_option (\<lambda>(err, s2, x2).
                   (if err = CELL_EBUSY then Blocked else Done err, if err = CELL_OK then gpr_of s2 (cur e) 6 else 0,
                    put_event_flag p x2 (k2\<lparr>sched := s2\<rparr>)))
                 (ef_wait_slow e bitptn (ucast mode) timeout s x1)))"

definition sys_event_flag_wait_iter ::
    "env \<Rightarrow> nat \<Rightarrow> nat \<Rightarrow> bool \<Rightarrow> bool \<Rightarrow> kernel \<Rightarrow> (wait_step \<times> u64 \<times> kernel) option" where
  "sys_event_flag_wait_iter e p timeout timed_out check_state k =
     (case store k p of
        Some (O_event_flag x) \<Rightarrow>
          map_option (\<lambda>(w, s, x1). (w, if w = W_break then gpr_of s (cur e) 6 else 0, put_event_flag p x1 (k\<lparr>sched := s\<rparr>)))
            (wait_iter (\<lambda>t y. t \<in> set (ef_sq y)) ef_expire (cur e) (timeout \<noteq> 0 \<and> timed_out) check_state (sched k) x)
      | _ \<Rightarrow> None)"

definition sys_event_flag_trywait :: "env \<Rightarrow> u32 \<Rightarrow> u64 \<Rightarrow> u32 \<Rightarrow> kernel \<Rightarrow> error_code \<times> u64 \<times> kernel" where
  "sys_event_flag_trywait e v bitptn mode k =
     (let k1 = enter e k in
      if \<not> check_mode mode then (CELL_EINVAL, 0, k1)
      else case event_flag_at v k1 of
        None \<Rightarrow> (CELL_ESRCH, 0, k1)
      | Some (p, x) \<Rightarrow>
          (case check_pattern (ef_pattern x) bitptn (ucast mode) of
             (ok, res, pat) \<Rightarrow>
               let k2 = put_event_flag p (x\<lparr>ef_pattern := pat\<rparr>) k1 in
               if ok then (CELL_OK, res, k2) else (CELL_EBUSY, 0, k2)))"

definition sys_event_flag_set :: "env \<Rightarrow> u32 \<Rightarrow> u64 \<Rightarrow> u64 list \<Rightarrow> kernel \<Rightarrow> (error_code \<times> kernel) option" where
  "sys_event_flag_set e v bitptn vs k =
     (let k1 = enter e k in
      case event_flag_at v k1 of
        None \<Rightarrow> Some (CELL_ESRCH, k1)
      | Some (p, x) \<Rightarrow>
          if ef_pattern x AND bitptn = bitptn then Some (CELL_OK, k1)
          else map_option (\<lambda>(err, s, x1). (err, put_event_flag p x1 (k1\<lparr>sched := s\<rparr>))) (ef_set_slow e bitptn vs (sched k1) x))"

definition sys_event_flag_clear :: "env \<Rightarrow> u32 \<Rightarrow> u64 \<Rightarrow> kernel \<Rightarrow> error_code \<times> kernel" where
  "sys_event_flag_clear e v bitptn k =
     (let k1 = enter e k in
      case event_flag_at v k1 of
        None \<Rightarrow> (CELL_ESRCH, k1)
      | Some (p, x) \<Rightarrow> (CELL_OK, put_event_flag p (x\<lparr>ef_pattern := ef_pattern x AND bitptn\<rparr>) k1))"

definition sys_event_flag_cancel :: "env \<Rightarrow> u32 \<Rightarrow> kernel \<Rightarrow> (error_code \<times> nat \<times> kernel) option" where
  "sys_event_flag_cancel e v k =
     (let k1 = enter e k in
      case event_flag_at v k1 of
        None \<Rightarrow> Some (CELL_ESRCH, 0, k1)
      | Some (p, x) \<Rightarrow>
          map_option (\<lambda>(n, s, x1). (CELL_OK, (case n of Some m \<Rightarrow> m | None \<Rightarrow> 0), put_event_flag p x1 (k1\<lparr>sched := s\<rparr>)))
            (ef_cancel e (sched k1) x))"

definition sys_event_flag_get :: "env \<Rightarrow> u32 \<Rightarrow> bool \<Rightarrow> kernel \<Rightarrow> error_code \<times> u64 option \<times> kernel" where
  "sys_event_flag_get e v flags_ptr k =
     (let k1 = enter e k in
      case event_flag_at v k1 of
        None \<Rightarrow> (CELL_ESRCH, if flags_ptr then Some 0 else None, k1)
      | Some (p, x) \<Rightarrow> if \<not> flags_ptr then (CELL_EFAULT, None, k1) else (CELL_OK, Some (ef_pattern x), k1))"

end
