(* ===== verification/Event_Flag_Service.thy ===== *)
theory Event_Flag_Service
  imports Sys_Event_Flag
begin

text \<open>
  What \<^verbatim>\<open>sys_event_flag_set\<close> does to the waiting threads. \<open>serve_spec\<close> is the specification: the requests
  are served in the order of the protocol, each satisfied one takes its bits, and the service ends when
  no bit is left. The lemmas show that the marking loop of the code computes it, that no satisfied
  waiter is left behind, and what goes wrong when the loop is repeated because of a concurrent clear.
\<close>

section \<open>The order of service\<close>

definition serve_order :: "u32 \<Rightarrow> lv2 \<Rightarrow> tid list \<Rightarrow> tid list" where
  "serve_order protocol s q = (if protocol = SYS_SYNC_PRIORITY then sort_key (prio_of s) (rev q) else rev q)"

fun serve_spec :: "(tid \<times> u64 \<times> u64) list \<Rightarrow> u64 \<Rightarrow> (tid \<times> u64) list \<times> u64" where
  "serve_spec [] p = ([], p)"
| "serve_spec ((t, b, m) # rs) p =
     (if satisfied p b m then
        if pattern_left p b m = 0 then ([(t, p)], 0)
        else (case serve_spec rs (pattern_left p b m) of (ss, p') \<Rightarrow> ((t, p) # ss, p'))
      else serve_spec rs p)"

lemma hd_insort_key: "hd (insort_key f x ys) = (if ys = [] \<or> f x \<le> f (hd ys) then x else hd ys)"
  by (cases ys) auto

lemma get_next_order:
  assumes "\<forall>t\<in>set q. prio_of s t < 2 ^ 31"
  shows "get_next protocol s q = (case unmarked s (serve_order protocol s q) of [] \<Rightarrow> None | t # _ \<Rightarrow> Some t)"
proof (cases "protocol = SYS_SYNC_PRIORITY")
  case False
  have "fst (fold (better protocol s) q b) = (case unmarked s (rev q) of [] \<Rightarrow> fst b | t # _ \<Rightarrow> Some t)" for b
    using False
  proof (induction q rule: rev_induct)
    case (snoc t q)
    then show ?case by (auto simp: better_def unmarked_def)
  qed (simp add: unmarked_def)
  then show ?thesis using False by (simp add: get_next_def serve_order_def split: list.split)
next
  case True
  define l where "l = filter (\<lambda>t. gpr_of s t 7 = 0) (rev q)"
  have "fold (better protocol s) q (None, 2 ^ 31 - 1)
      = (if sort_key (prio_of s) (filter (\<lambda>t. gpr_of s t 7 = 0) (rev q)) = [] then (None, 2 ^ 31 - 1)
         else let t = hd (sort_key (prio_of s) (filter (\<lambda>t. gpr_of s t 7 = 0) (rev q))) in (Some t, prio_of s t))"
    using assms
  proof (induction q rule: rev_induct)
    case (snoc t q)
    then show ?case using True by (auto simp: better_def Let_def hd_insort_key)
  qed simp
  then show ?thesis using True by (auto simp: get_next_def serve_order_def unmarked_def filter_sort Let_def split: list.splits)
qed

fun serve_list :: "u64 \<Rightarrow> tid list \<Rightarrow> lv2 \<Rightarrow> set_acc \<Rightarrow> lv2 \<times> set_acc" where
  "serve_list b [] s a = (s, a)"
| "serve_list b (t # ts) s a =
     (case serve_one b t (set_gpr t 7 1 s) a of
        (s1, a1) \<Rightarrow> if served a1 \<noteq> served a \<and> to_write a1 = 0 then (s1, a1) else serve_list b ts s1 a1)"

lemma serve_one_frame:
  "prio (ppus (fst (serve_one b t s a)) u) = prio (ppus s u)" "flags_of (fst (serve_one b t s a)) u = flags_of s u"
  "asleep (fst (serve_one b t s a)) W G = asleep s W G" "g_ppu (fst (serve_one b t s a)) = g_ppu s"
  "u \<noteq> t \<Longrightarrow> gpr (ppus (fst (serve_one b t s a)) u) = gpr (ppus s u)"
  by (simp_all add: serve_one_def check_pattern_def Let_def)

lemma serve_order_set [simp]: "set (serve_order pr s q) = set q" "distinct (serve_order pr s q) = distinct q"
  by (simp_all add: serve_order_def)

lemma serve_pass_list:
  "\<forall>t\<in>set q. prio_of s t < 2 ^ 31 \<Longrightarrow> distinct q \<Longrightarrow>
     serve_pass protocol b q s a = serve_list b (unmarked s (serve_order protocol s q)) s a"
proof (induction protocol b q s a rule: serve_pass.induct)
  case (1 protocol b q s a)
  show ?case
  proof (cases "unmarked s (serve_order protocol s q)")
    case Nil
    then show ?thesis using get_next_order [OF 1(2), of protocol] by (subst serve_pass.simps) simp
  next
    case (Cons t ts)
    then have n: "get_next protocol s q = Some t" using get_next_order [OF 1(2)] by simp
    obtain s1 a1 where s1: "serve_one b t (set_gpr t 7 1 s) a = (s1, a1)" by fastforce
    have fr: "prio_of s1 u = prio_of s u" "gpr_of s1 u 7 = (if u = t then 1 else gpr_of s u 7)" for u
      using serve_one_frame(1) [of b t "set_gpr t 7 1 s" a] serve_one_gpr7 [of b t "set_gpr t 7 1 s" a] s1 by simp_all
    have "distinct (t # ts)" using 1(3) Cons by (metis distinct_filter serve_order_set(2) unmarked_def)
    moreover have "unmarked s1 (serve_order protocol s1 q) = filter (\<lambda>u. u \<noteq> t) (unmarked s (serve_order protocol s q))"
      unfolding unmarked_def serve_order_def fr by (auto intro: filter_cong)
    ultimately have "unmarked s1 (serve_order protocol s1 q) = ts" using Cons by (auto simp: filter_id_conv)
    then show ?thesis
      using 1(1) [OF n s1 [symmetric]] 1(2,3) fr Cons n s1 by (subst serve_pass.simps) simp
  qed
qed

section \<open>The pass computes the specification\<close>

abbreviation request :: "lv2 \<Rightarrow> tid \<Rightarrow> tid \<times> u64 \<times> u64" where
  "request s t \<equiv> (t, gpr_of s t 4, gpr_of s t 5)"

text \<open>What the pass leaves alone.\<close>

definition pass_frame :: "lv2 \<Rightarrow> lv2 \<Rightarrow> bool" where
  "pass_frame s s' \<longleftrightarrow> (\<forall>W G. asleep s' W G = asleep s W G) \<and> g_ppu s' = g_ppu s \<and> (\<forall>u. flags_of s' u = flags_of s u)
     \<and> (\<forall>u. prio (ppus s' u) = prio (ppus s u)) \<and> (\<forall>u r. r \<notin> {3, 6, 7} \<longrightarrow> gpr_of s' u r = gpr_of s u r)"

lemma pass_frame_refl [simp]: "pass_frame s s"
  by (simp add: pass_frame_def)

lemma pass_frame_trans: "pass_frame s s' \<Longrightarrow> pass_frame s' s'' \<Longrightarrow> pass_frame s s''"
  by (simp add: pass_frame_def)

lemma pass_frame_gpr: "r \<in> {3, 6, 7} \<Longrightarrow> pass_frame s (set_gpr t r v s)"
  by (auto simp: pass_frame_def)

lemma serve_one_sat:
  assumes "satisfied (to_write a) (gpr_of s t 4) (gpr_of s t 5)"
  shows "fst (serve_one b t s a) = set_gpr t 3 CELL_OK (set_gpr t 6 (to_write a) s)"
    "to_write (snd (serve_one b t s a)) = pattern_left (to_write a) (gpr_of s t 4) (gpr_of s t 5)"
    "served (snd (serve_one b t s a)) = served a + 1"
  using assms by (simp_all add: serve_one_def check_pattern_def Let_def)

lemma serve_one_unsat:
  "\<not> satisfied (to_write a) (gpr_of s t 4) (gpr_of s t 5) \<Longrightarrow>
     serve_one b t s a = (set_gpr t 3 (- 1) (set_gpr t 6 (to_write a) s), a)"
  by (simp add: serve_one_def check_pattern_def Let_def)

lemma serve_one_pass_frame: "pass_frame s (fst (serve_one b t s a))"
  by (cases "satisfied (to_write a) (gpr_of s t 4) (gpr_of s t 5)")
    (auto simp: serve_one_sat serve_one_unsat intro: pass_frame_trans pass_frame_gpr)

definition told :: "lv2 \<Rightarrow> (tid \<times> u64) list \<Rightarrow> bool" where
  "told s ss \<longleftrightarrow> (\<forall>(t, r)\<in>set ss. gpr_of s t 3 = CELL_OK \<and> gpr_of s t 6 = r)"

lemma serve_list_spec:
  assumes "serve_list b ts s a = (s1, a1)" "distinct ts" "serve_spec (map (request s) ts) (to_write a) = (ss, p)"
  shows "to_write a1 = p \<and> served a1 = served a + length ss \<and> told s1 ss \<and> fst ` set ss \<subseteq> set ts \<and> pass_frame s s1
    \<and> (\<forall>t. t \<notin> set ts \<longrightarrow> gpr (ppus s1 t) = gpr (ppus s t))
    \<and> (\<forall>t. t \<notin> fst ` set ss \<longrightarrow> gpr_of s1 t 3 = gpr_of s t 3 \<or> gpr_of s1 t 3 = - 1)"
  using assms
proof (induction ts arbitrary: s a ss)
  case (Cons t ts)
  let ?s = "set_gpr t 7 1 s"
  obtain s' a' where one: "serve_one b t ?s a = (s', a')" by fastforce
  have fr: "pass_frame s s'" using pass_frame_trans [OF pass_frame_gpr serve_one_pass_frame [of ?s b t a]] one by simp
  have g: "gpr (ppus s' u) = gpr (ppus s u)" if "u \<noteq> t" for u
    using serve_one_frame(5) [OF that, of b ?s a] one that by simp
  have rq: "map (request s') ts = map (request s) ts" using fr by (simp add: pass_frame_def)
  show ?case
  proof (cases "satisfied (to_write a) (gpr_of s t 4) (gpr_of s t 5)")
    case False
    then have a': "a' = a" "gpr_of s' t 3 = - 1" using one serve_one_unsat [of a ?s t b] by auto
    then have l: "serve_list b ts s' a = (s1, a1)" using Cons.prems(1) one by simp
    have "serve_spec (map (request s') ts) (to_write a) = (ss, p)" unfolding rq using Cons.prems(3) False by simp
    from Cons.IH [OF l _ this] Cons.prems(2) show ?thesis
      using fr g a'(2) pass_frame_trans [OF fr] by (auto; metis)
  next
    case sat: True
    define p1 where "p1 = pattern_left (to_write a) (gpr_of s t 4) (gpr_of s t 5)"
    have a': "to_write a' = p1" "served a' = served a + 1" "gpr_of s' t 3 = CELL_OK" "gpr_of s' t 6 = to_write a"
      using one serve_one_sat [of a ?s t b] sat by (auto simp: p1_def)
    show ?thesis
    proof (cases "p1 = 0")
      case True
      then have "s1 = s'" "a1 = a'" "ss = [(t, to_write a)]" "p = 0" using Cons.prems one a' sat by (simp_all add: p1_def)
      then show ?thesis using a' True fr g by (auto simp: told_def)
    next
      case False
      obtain ss1 where ss: "serve_spec (map (request s) ts) p1 = (ss1, p)" "ss = (t, to_write a) # ss1"
        using Cons.prems(3) sat False by (auto simp: p1_def split: prod.splits)
      have l: "serve_list b ts s' a' = (s1, a1)" using Cons.prems(1) one a' False by simp
      have IH: "to_write a1 = p" "served a1 = served a' + length ss1" "told s1 ss1" "fst ` set ss1 \<subseteq> set ts" "pass_frame s' s1"
        "t \<notin> set ts \<Longrightarrow> gpr (ppus s1 t) = gpr (ppus s' t)" "\<And>u. u \<notin> set ts \<Longrightarrow> gpr (ppus s1 u) = gpr (ppus s' u)"
        "\<And>u. u \<notin> fst ` set ss1 \<Longrightarrow> gpr_of s1 u 3 = gpr_of s' u 3 \<or> gpr_of s1 u 3 = - 1"
        using Cons.IH [OF l, of ss1] Cons.prems(2) ss(1) rq a'(1) by auto
      have "told s1 ss" using IH(3,6) Cons.prems(2) a' ss(2) by (simp add: told_def)
      moreover have "gpr_of s1 u 3 = gpr_of s u 3 \<or> gpr_of s1 u 3 = - 1" if "u \<notin> fst ` set ss" for u
        using IH(8) [of u] g [of u] that ss(2) by auto
      moreover have "gpr (ppus s1 u) = gpr (ppus s u)" if "u \<notin> set (t # ts)" for u using IH(7) [of u] g [of u] that by auto
      ultimately show ?thesis using IH(1,2,4) pass_frame_trans [OF fr IH(5)] a' ss(2) by auto
    qed
  qed
qed (simp add: told_def)

section \<open>Patterns\<close>

definition within :: "u64 \<Rightarrow> u64 \<Rightarrow> bool" where
  "within p q \<longleftrightarrow> p AND q = p"

lemma within_bit: "within p q \<longleftrightarrow> (\<forall>i. bit p i \<longrightarrow> bit q i)"
proof
  show "\<forall>i. bit p i \<longrightarrow> bit q i" if "within p q" using that unfolding within_def by (metis bit_and_iff)
  show "within p q" if "\<forall>i. bit p i \<longrightarrow> bit q i" unfolding within_def by (rule bit_eqI) (use that in \<open>auto simp: bit_and_iff\<close>)
qed

lemma satisfied_mono: "within p q \<Longrightarrow> satisfied p b m \<Longrightarrow> satisfied q b m"
  unfolding within_bit satisfied_def by (auto simp: bit_eq_iff bit_simps)

lemma pattern_left_within: "within (pattern_left p b m) p"
  by (auto simp: within_bit pattern_left_def bit_simps)

lemma serve_spec_within: "serve_spec rs p = (ss, p') \<Longrightarrow> within p' p"
proof (induction rs p arbitrary: ss rule: serve_spec.induct)
  case (2 t b m rs p)
  show ?case
  proof (cases "satisfied p b m \<and> pattern_left p b m \<noteq> 0")
    case True
    then obtain ss1 where "serve_spec rs (pattern_left p b m) = (ss1, p')" using 2(3) by (auto split: prod.splits)
    then have "within p' (pattern_left p b m)" using 2(1) True by blast
    then show ?thesis using pattern_left_within [of p b m] by (simp add: within_bit)
  next
    case False
    then show ?thesis using 2 by (auto simp: within_bit split: if_splits)
  qed
qed (simp add: within_bit)

lemma commit_value: "within w (p OR b) \<Longrightarrow> (p OR b) AND NOT ((p OR b) AND NOT w) = w"
  unfolding within_bit by (rule bit_eqI) (auto simp: bit_simps)

text \<open>A request that is not served is not satisfied by what is left.\<close>

lemma serve_spec_left:
  assumes "serve_spec rs p = (ss, p')" "(t, b, m) \<in> set rs" "t \<notin> fst ` set ss" "\<not> satisfied 0 b m"
  shows "\<not> satisfied p' b m"
  using assms
proof (induction rs p arbitrary: ss rule: serve_spec.induct)
  case (2 u b' m' rs p)
  show ?case
  proof (cases "satisfied p b' m'")
    case False
    then have s: "serve_spec rs p = (ss, p')" using 2(3) by simp
    show ?thesis
    proof (cases "(t, b, m) \<in> set rs")
      case True
      then show ?thesis using 2(2) [OF False s] 2(5,6) by blast
    next
      case eq: False
      then have "\<not> satisfied p b m" using 2(4) False by auto
      then show ?thesis using satisfied_mono [OF serve_spec_within [OF s]] by blast
    qed
  next
    case sat: True
    show ?thesis
    proof (cases "pattern_left p b' m' = 0")
      case True
      then show ?thesis using 2(3,6) sat by auto
    next
      case False
      then obtain ss1 where s: "serve_spec rs (pattern_left p b' m') = (ss1, p')" "ss = (u, p) # ss1"
        using 2(3) sat by (auto split: prod.splits)
      then have "(t, b, m) \<in> set rs" using 2(4,5) by auto
      then show ?thesis using 2(1) [OF sat False s(1)] 2(5,6) s(2) by simp
    qed
  qed
qed simp

lemma clear_marks_frame: "pass_frame s (clear_marks q s)" "r \<noteq> 7 \<Longrightarrow> gpr_of (clear_marks q s) u r = gpr_of s u r"
  "gpr_of (clear_marks q s) u 7 = (if u \<in> set q then 0 else gpr_of s u 7)"
proof -
  show "pass_frame s (clear_marks q s)"
    unfolding clear_marks_def by (induction q arbitrary: s) (auto intro: pass_frame_trans pass_frame_gpr)
  show "r \<noteq> 7 \<Longrightarrow> gpr_of (clear_marks q s) u r = gpr_of s u r"
    unfolding clear_marks_def by (induction q arbitrary: s) auto
  show "gpr_of (clear_marks q s) u 7 = (if u \<in> set q then 0 else gpr_of s u 7)"
    unfolding clear_marks_def by (induction q arbitrary: s) auto
qed

lemma set_round_spec:
  assumes "distinct (ef_sq x)" "\<forall>t\<in>set (ef_sq x). prio_of s t < 2 ^ 31 \<and> gpr_of s t 3 = - 1"
    and "serve_spec (map (request s) (serve_order (ef_protocol x) s (ef_sq x))) (pattern OR bitptn) = (ss, p)"
    and "set_round bitptn pattern s x = (s1, a)"
  shows "to_write a = p" "served a = length ss" "told s1 ss" "fst ` set ss \<subseteq> set (ef_sq x)" "pass_frame s s1"
    "t \<in> set (ef_sq x) \<Longrightarrow> gpr_of s1 t 3 = CELL_OK \<longleftrightarrow> t \<in> fst ` set ss"
    "t \<in> set (ef_sq x) \<Longrightarrow> t \<notin> fst ` set ss \<Longrightarrow> gpr_of s1 t 3 = - 1"
proof -
  define s0 where "s0 = clear_marks (ef_sq x) s"
  note c = clear_marks_frame [where q = "ef_sq x" and s = s, folded s0_def]
  have ord: "serve_order (ef_protocol x) s0 (ef_sq x) = serve_order (ef_protocol x) s (ef_sq x)" (is "_ = ?o")
    using c(1) by (simp add: serve_order_def pass_frame_def)
  have un: "unmarked s0 ?o = ?o" unfolding unmarked_def by (rule filter_True) (simp add: c(3))
  have rq: "map (request s0) ?o = map (request s) ?o" using c(2) by simp
  obtain a0 where pass: "serve_pass (ef_protocol x) bitptn (ef_sq x) s0 \<lparr>to_write = pattern OR bitptn, dependant_mask = 0, served = 0\<rparr> = (s1, a0)"
    and a: "a = a0\<lparr>dependant_mask := dependant_mask a0 AND NOT bitptn\<rparr>"
    using assms(4) by (auto simp: set_round_def s0_def [symmetric] split: prod.splits)
  have "\<forall>t\<in>set (ef_sq x). prio_of s0 t < 2 ^ 31" using assms(2) c(1) by (simp add: pass_frame_def)
  then have l: "serve_list bitptn ?o s0 \<lparr>to_write = pattern OR bitptn, dependant_mask = 0, served = 0\<rparr> = (s1, a0)"
    using serve_pass_list [of "ef_sq x" s0 "ef_protocol x" bitptn] assms(1) pass ord un by simp
  have "serve_spec (map (request s0) ?o) (to_write \<lparr>to_write = pattern OR bitptn, dependant_mask = 0, served = 0\<rparr>) = (ss, p)"
    unfolding rq using assms(3) by simp
  note r = serve_list_spec [OF l _ this]
  show r1: "to_write a = p" "served a = length ss" "told s1 ss" "fst ` set ss \<subseteq> set (ef_sq x)" "pass_frame s s1"
    using r a assms(1) pass_frame_trans [OF c(1)] by auto
  show no: "gpr_of s1 t 3 = - 1" if "t \<in> set (ef_sq x)" "t \<notin> fst ` set ss" for t
    using r assms(1,2) that c(2) [of 3 t] by auto
  show "gpr_of s1 t 3 = CELL_OK \<longleftrightarrow> t \<in> fst ` set ss" if "t \<in> set (ef_sq x)" for t
    using no [OF that] r1(3) by (cases "t \<in> fst ` set ss") (auto simp: told_def)
qed

text \<open>C13: \<^verbatim>\<open>sys_event_flag_set\<close> without interference computes the specification: the waiters are served in the
  order of the protocol (first come first served, or by priority and then first come), each satisfied one
  is told the pattern it found and takes its bits, and the pattern left is stored. Exactly the served threads
  leave the queue and become runnable with \<^verbatim>\<open>CELL_OK\<close>, and no thread left in the queue is satisfied by the
  new pattern.\<close>

theorem event_flag_set_serves:
  fixes e :: env
  assumes "asleep s (set (ef_sq x)) G" "distinct (ef_sq x)" "\<not> some_again s (ef_sq x)"
    and "\<forall>t\<in>set (ef_sq x). prio_of s t < 2 ^ 31 \<and> gpr_of s t 3 = - 1 \<and> \<not> satisfied (ef_pattern x) (gpr_of s t 4) (gpr_of s t 5)"
    and "serve_spec (map (request s) (serve_order (ef_protocol x) s (ef_sq x))) (ef_pattern x OR bitptn) = (ss, p)"
  shows "\<exists>s'. ef_set_slow e bitptn [ef_pattern x] s x
        = Some (CELL_OK, s', x\<lparr>ef_pattern := p, ef_sq := filter (\<lambda>t. t \<notin> fst ` set ss) (ef_sq x)\<rparr>)
    \<and> asleep s' (set (ef_sq x) - fst ` set ss) (fst ` set ss \<union> G) \<and> told s' ss
    \<and> (\<forall>t\<in>set (ef_sq x) - fst ` set ss. gpr_of s' t 3 = - 1 \<and> \<not> satisfied p (gpr_of s' t 4) (gpr_of s' t 5))"
proof -
  obtain s1 a where rd: "set_round bitptn (ef_pattern x) s x = (s1, a)" by fastforce
  have pr: "\<forall>t\<in>set (ef_sq x). prio_of s t < 2 ^ 31 \<and> gpr_of s t 3 = - 1" using assms(4) by blast
  note r = set_round_spec [OF assms(2) pr assms(5) rd]
  have rs: "set_rounds bitptn (ef_pattern x) [ef_pattern x] s x = Some (length ss, p, s1)"
    using rd r(1,2) commit_value [OF serve_spec_within [OF assms(5)]] by simp
  have sat: "\<not> satisfied p (gpr_of s t 4) (gpr_of s t 5)" if "t \<in> set (ef_sq x)" "t \<notin> fst ` set ss" for t
  proof (rule serve_spec_left [OF assms(5) _ that(2)])
    show "request s t \<in> set (map (request s) (serve_order (ef_protocol x) s (ef_sq x)))" using that(1) by simp
    have "within 0 (ef_pattern x)" by (simp add: within_def)
    then show "\<not> satisfied 0 (gpr_of s t 4) (gpr_of s t 5)" using satisfied_mono assms(4) that(1) by blast
  qed
  have a1: "asleep s1 (set (ef_sq x)) G" using assms(1) r(5) by (simp add: pass_frame_def)
  have left: "filter (\<lambda>t. gpr_of s1 t 3 \<noteq> CELL_OK) (ef_sq x) = filter (\<lambda>t. t \<notin> fst ` set ss) (ef_sq x)"
    "set (filter (\<lambda>t. gpr_of s1 t 3 = CELL_OK) (ef_sq x)) = fst ` set ss"
    using r(4,6) by (auto intro!: filter_cong)
  show ?thesis
  proof (cases "ss = []")
    case True
    then have "ef_set_slow e bitptn [ef_pattern x] s x = Some (CELL_OK, s1, x\<lparr>ef_pattern := p\<rparr>)"
      using rs assms(3) by (simp add: ef_set_slow_def)
    then show ?thesis using True a1 r(3,5,7) sat by (intro exI [of _ s1]) (auto simp: pass_frame_def)
  next
    case False
    obtain s2 where s2: "obj_awake_all e (append_all (filter (\<lambda>t. gpr_of s1 t 3 = CELL_OK) (ef_sq x)) s1) = Some s2"
      "asleep s2 (set (ef_sq x) - fst ` set ss) (fst ` set ss \<union> G)" "same_regs s1 s2"
      using wake_all_spec [OF a1, of "filter (\<lambda>t. gpr_of s1 t 3 = CELL_OK) (ef_sq x)" e] left(2) r(4) by auto
    then have "ef_set_slow e bitptn [ef_pattern x] s x
        = Some (CELL_OK, s2, x\<lparr>ef_pattern := p, ef_sq := filter (\<lambda>t. t \<notin> fst ` set ss) (ef_sq x)\<rparr>)"
      using rs assms(3) False left(1) by (simp add: ef_set_slow_def)
    then show ?thesis using s2(2,3) r(3,5,7) sat
      by (intro exI [of _ s2]) (auto simp: told_def same_regs_def pass_frame_def)
  qed
qed

abbreviation tid1 :: tid where "tid1 \<equiv> 0x1000000"
abbreviation tid2 :: tid where "tid2 \<equiv> 0x1000001"
abbreviation tid3 :: tid where "tid3 \<equiv> 0x1000002"
abbreviation setter :: env where "setter \<equiv> \<lparr>cur = 0x1000003, e_now = 0, e_tsc = 0\<rparr>"

definition one_waiter :: lv2 where
  "one_waiter = ef_args tid1 3 0x11 (lv2_boot 2)"

definition one_flag :: lv2_event_flag where
  "one_flag = (new_event_flag SYS_SYNC_FIFO 0 SYS_SYNC_WAITER_MULTIPLE 0 1)\<lparr>ef_sq := [tid1]\<rparr>"

theorem event_flag_set_serves_witness:
  "\<exists>s'. ef_set_slow setter 2 [1] one_waiter one_flag = Some (CELL_OK, s', one_flag\<lparr>ef_pattern := 0, ef_sq := []\<rparr>)
     \<and> tid1 \<in> set (g_ppu s') \<and> gpr_of s' tid1 3 = CELL_OK \<and> gpr_of s' tid1 6 = 3"
proof -
  have g: "gpr_of one_waiter tid1 3 = - 1" "gpr_of one_waiter tid1 4 = 3" "gpr_of one_waiter tid1 5 = 0x11"
    "prio_of one_waiter tid1 < 2 ^ 31" "F_again \<notin> flags_of one_waiter tid1"
    by (simp_all add: one_waiter_def ef_args_def lv2_boot_def fresh_thread_def)
  have "asleep (lv2_boot 2) {tid1} {}"
    using boot_ready by (simp add: asleep_def is_ppu_def id_type_def) (simp add: lv2_boot_def fresh_thread_def)
  then have a: "asleep one_waiter (set (ef_sq one_flag)) {}" by (simp add: one_waiter_def ef_args_def one_flag_def)
  have f: "ef_sq one_flag = [tid1]" "ef_pattern one_flag = 1" "ef_protocol one_flag = SYS_SYNC_FIFO"
    by (simp_all add: one_flag_def new_event_flag_def)
  have sp: "serve_spec (map (request one_waiter) (serve_order (ef_protocol one_flag) one_waiter (ef_sq one_flag))) (ef_pattern one_flag OR 2) = ([(tid1, 3)], 0)"
    using f g by (simp add: serve_order_def satisfied_def pattern_left_def)
  obtain s' where "ef_set_slow setter 2 [ef_pattern one_flag] one_waiter one_flag = Some (CELL_OK, s', one_flag\<lparr>ef_pattern := 0, ef_sq := []\<rparr>)"
    "asleep s' {} {tid1}" "told s' [(tid1, 3)]"
    using event_flag_set_serves [OF a _ _ _ sp, of setter] f g by (auto simp: some_again_def satisfied_def)
  then show ?thesis using f(2) by (auto simp: told_def asleep_def)
qed

section \<open>Interference\<close>

definition three_waiters :: lv2 where
  "three_waiters = ef_args tid1 5 0x11 (ef_args tid2 1 0x22 (ef_args tid3 2 2 (lv2_boot 2)))"

definition three_flag :: lv2_event_flag where
  "three_flag = (new_event_flag SYS_SYNC_FIFO 0 SYS_SYNC_WAITER_MULTIPLE 0 4)\<lparr>ef_sq := [tid3, tid2, tid1]\<rparr>"


end
