(* ===== verification/Sys_Event.thy ===== *)
theory Sys_Event
  imports Lv2_Waiters
begin

text \<open>
  Event queues and event ports: \<^verbatim>\<open>kernel/cellos/src/sys_event.cpp\<close>. A queue of type \<^verbatim>\<open>SYS_PPU_QUEUE\<close> hands an
  event to a waiting PPU thread in its registers \<^verbatim>\<open>gpr[4]\<close> to \<^verbatim>\<open>gpr[7]\<close>, one of type \<^verbatim>\<open>SYS_SPU_QUEUE\<close> to
  the mailbox of a waiting SPU thread, or stores it. SPU threads are not part of the kernel state: their
  priorities and flags (\<open>spus\<close>) are a parameter, and what is put into a mailbox is part of the result.
\<close>

abbreviation (input) SYS_PPU_QUEUE :: u32 where "SYS_PPU_QUEUE \<equiv> 1"
abbreviation (input) SYS_SPU_QUEUE :: u32 where "SYS_SPU_QUEUE \<equiv> 2"
abbreviation (input) SYS_EVENT_QUEUE_DESTROY_FORCE :: int where "SYS_EVENT_QUEUE_DESTROY_FORCE \<equiv> 1"
abbreviation (input) SYS_EVENT_PORT_LOCAL :: u32 where "SYS_EVENT_PORT_LOCAL \<equiv> 1"
abbreviation (input) SYS_EVENT_PORT_IPC :: u32 where "SYS_EVENT_PORT_IPC \<equiv> 3"

type_synonym spu_threads = "tid \<Rightarrow> ppu_thread"

text \<open>Values written to the mailbox of an SPU thread.\<close>

type_synonym spu_mail = "(tid \<times> u32 list) list"

section \<open>Operations on a queue\<close>

definition put_event :: "tid \<Rightarrow> lv2_event \<Rightarrow> lv2 \<Rightarrow> lv2" where
  "put_event t ev s =
     (case ev of (a, b, c, d) \<Rightarrow> set_gpr t 7 d (set_gpr t 6 c (set_gpr t 5 b (set_gpr t 4 a s))))"

record send_out =
  so_err :: error_code
  so_notified :: bool
  so_mail :: spu_mail
  so_lv2 :: lv2
  so_queue :: lv2_event_queue

text \<open>\<^verbatim>\<open>lv2_event_queue::send\<close>; \<open>port\<close> says whether a port is given. \<open>None\<close>: a null pointer is dereferenced.\<close>

definition eq_send :: "env \<Rightarrow> spu_threads \<Rightarrow> bool \<Rightarrow> lv2_event \<Rightarrow> lv2 \<Rightarrow> lv2_event_queue \<Rightarrow> send_out option" where
  "eq_send e spus port ev s x =
     (let out = \<lparr>so_err = CELL_OK, so_notified = False, so_mail = [], so_lv2 = s, so_queue = x\<rparr> in
      if obj_exists x = 0 then Some (out\<lparr>so_err := CELL_ENOTCONN\<rparr>)
      else if eq_pq x = [] \<and> eq_sq x = [] then
        if length (eq_events x) < eq_size x then Some (out\<lparr>so_queue := x\<lparr>eq_events := eq_events x @ [ev]\<rparr>\<rparr>)
        else Some (out\<lparr>so_err := CELL_EBUSY\<rparr>)
      else if eq_type x = SYS_PPU_QUEUE then
        (case schedule (ppus s) (eq_protocol x) (eq_pq x) of
           (None, _) \<Rightarrow> None
         | (Some t, q) \<Rightarrow>
             if F_again \<in> flags_of s t then
               Some (out\<lparr>so_err := CELL_EAGAIN, so_lv2 := add_flags (cur e) {F_again, F_exit} s\<rparr>)
             else
               map_option (\<lambda>s1. out\<lparr>so_lv2 := s1, so_queue := x\<lparr>eq_pq := q\<rparr>,
                   so_notified := port \<and> prio_of s1 t < prio_of s1 (cur e)\<rparr>)
                 (obj_awake e t (put_event t ev s)))
      else
        (case schedule spus (eq_protocol x) (eq_sq x) of
           (None, _) \<Rightarrow> None
         | (Some t, q) \<Rightarrow>
             if F_again \<in> state (spus t) then
               Some (out\<lparr>so_err := CELL_EAGAIN, so_lv2 := add_flags (cur e) {F_again, F_exit} s\<rparr>)
             else
               (case ev of (_, d1, d2, d3) \<Rightarrow>
                  Some (out\<lparr>so_queue := x\<lparr>eq_sq := q\<rparr>, so_mail := [(t, [CELL_OK, ucast d1, ucast d2, ucast d3])]\<rparr>))))"

definition eq_receive :: "env \<Rightarrow> nat \<Rightarrow> lv2 \<Rightarrow> lv2_event_queue \<Rightarrow> (bool \<times> lv2 \<times> lv2_event_queue) option" where
  "eq_receive e timeout s x =
     (case eq_events x of
        [] \<Rightarrow> map_option (\<lambda>(q, s1). (False, s1, x\<lparr>eq_pq := q\<rparr>)) (enqueue_sleep e timeout (eq_pq x) s)
      | ev # evs \<Rightarrow> Some (True, put_event (cur e) ev s, x\<lparr>eq_events := evs\<rparr>))"

definition eq_expire :: "tid \<Rightarrow> lv2 \<Rightarrow> lv2_event_queue \<Rightarrow> (lv2 \<times> lv2_event_queue) option" where
  "eq_expire t s x =
     (if eq_pq x = [] then Some (s, x)
      else case unqueue (eq_pq x) t of
        (None, _) \<Rightarrow> Some (s, x)
      | (Some _, q) \<Rightarrow> Some (set_gpr t 3 CELL_ETIMEDOUT s, x\<lparr>eq_pq := q\<rparr>))"

text \<open>The loop of \<^verbatim>\<open>sys_event_queue_tryreceive\<close> over its array of 127 events; \<open>None\<close>: it writes past the end.\<close>

fun take_events :: "int \<Rightarrow> int \<Rightarrow> lv2_event list \<Rightarrow> (lv2_event list \<times> lv2_event list) option" where
  "take_events n sz [] = Some ([], [])"
| "take_events n sz (ev # evs) =
     (if n < sz then
        if n < 127 then map_option (\<lambda>(got, left). (ev # got, left)) (take_events (n + 1) sz evs) else None
      else Some ([], ev # evs))"

text \<open>Forced destruction wakes all waiters: PPU threads through the scheduler, SPU threads by mail.\<close>

definition eq_cancel_all :: "env \<Rightarrow> lv2 \<Rightarrow> lv2_event_queue \<Rightarrow> (spu_mail \<times> lv2 \<times> lv2_event_queue) option" where
  "eq_cancel_all e s x =
     (if eq_type x = SYS_PPU_QUEUE then
        map_option (\<lambda>s1. ([], s1, x\<lparr>eq_pq := []\<rparr>))
          (obj_awake_all e (append_all (eq_pq x) (fold (\<lambda>t. set_gpr t 3 CELL_ECANCELED) (eq_pq x) s)))
      else Some (map (\<lambda>t. (t, [CELL_ECANCELED])) (eq_sq x), s, x\<lparr>eq_sq := []\<rparr>))"

section \<open>System calls on queues\<close>

record sys_event_queue_attribute_t =
  eqa_protocol :: u32
  eqa_type :: u32
  eqa_name :: u64

definition new_event_queue :: "u32 \<Rightarrow> u32 \<Rightarrow> int \<Rightarrow> u64 \<Rightarrow> u64 \<Rightarrow> u32 \<Rightarrow> lv2_event_queue" where
  "new_event_queue protocol type sz name key lastid =
     \<lparr>obj_exists = 0, eq_id = lastid, eq_protocol = take_bit 8 protocol, eq_type = take_bit 8 type,
      eq_size = nat (sz mod 256), eq_name = name, eq_key = key, eq_events = [], eq_sq = [], eq_pq = []\<rparr>"

definition event_queue_at :: "u32 \<Rightarrow> kernel \<Rightarrow> (nat \<times> lv2_event_queue) option" where
  "event_queue_at v k = (case obj_at event_queue_base_id v k of Some (p, O_event_queue x) \<Rightarrow> Some (p, x) | _ \<Rightarrow> None)"

definition put_event_queue :: "nat \<Rightarrow> lv2_event_queue \<Rightarrow> kernel \<Rightarrow> kernel" where
  "put_event_queue p x k = k\<lparr>store := (store k)(p \<mapsto> O_event_queue x)\<rparr>"

definition sys_event_queue_create ::
    "env \<Rightarrow> sys_event_queue_attribute_t \<Rightarrow> u64 \<Rightarrow> int \<Rightarrow> kernel \<Rightarrow> (error_code \<times> u32 option \<times> kernel) option" where
  "sys_event_queue_create e a ipc_key sz k =
     (let k1 = enter e k in
      if sz \<le> 0 \<or> sz > 127 then Some (CELL_EINVAL, None, k1)
      else if eqa_protocol a \<noteq> SYS_SYNC_FIFO \<and> eqa_protocol a \<noteq> SYS_SYNC_PRIORITY then Some (CELL_EINVAL, None, k1)
      else if eqa_type a \<noteq> SYS_PPU_QUEUE \<and> eqa_type a \<noteq> SYS_SPU_QUEUE then Some (CELL_EINVAL, None, k1)
      else
        (case create event_queue_base_id (if ipc_key = 0 then SYS_SYNC_NOT_PROCESS_SHARED else SYS_SYNC_PROCESS_SHARED)
                ipc_key SYS_SYNC_NEWLY_CREATED
                (\<lambda>v. O_event_queue (new_event_queue (eqa_protocol a) (eqa_type a) sz (eqa_name a) ipc_key v)) True k1 of
           None \<Rightarrow> None
         | Some (err, k2) \<Rightarrow>
             if err \<noteq> 0 then Some (err, None, k2) else Some (CELL_OK, Some (last_id (ids k2)), k2)))"

definition eq_head :: "lv2_event_queue \<Rightarrow> tid list" where
  "eq_head x = (if eq_type x = SYS_PPU_QUEUE then eq_pq x else eq_sq x)"

definition waiter_again :: "spu_threads \<Rightarrow> lv2 \<Rightarrow> lv2_event_queue \<Rightarrow> bool" where
  "waiter_again spus s x =
     (if eq_type x = SYS_PPU_QUEUE then some_again s (eq_pq x) else \<exists>t\<in>set (eq_sq x). F_again \<in> state (spus t))"

definition sys_event_queue_destroy ::
    "env \<Rightarrow> spu_threads \<Rightarrow> u32 \<Rightarrow> int \<Rightarrow> kernel \<Rightarrow> (error_code \<times> spu_mail \<times> kernel) option" where
  "sys_event_queue_destroy e spus v mode k =
     (let k0 = enter e k in
      if mode \<noteq> 0 \<and> mode \<noteq> SYS_EVENT_QUEUE_DESTROY_FORCE then Some (CELL_EINVAL, [], k0)
      else
        case withdraw_obj event_queue_base_id v
               (\<lambda>p k1. case store k1 p of
                  Some (O_event_queue x) \<Rightarrow>
                    if mode = 0 \<and> eq_head x \<noteq> [] then (CELL_EBUSY, k1)
                    else if waiter_again spus (sched k1) x then (CELL_EAGAIN, k1\<lparr>sched := add_flags (cur e) {F_again} (sched k1)\<rparr>)
                    else (CELL_OK, on_id_destroy event_queue_base_id p (eq_key x) k1)
                | _ \<Rightarrow> (CELL_ESRCH, k1)) k0 of
          (None, k1) \<Rightarrow> Some (CELL_ESRCH, [], k1)
        | (Some (p, err), k1) \<Rightarrow>
            if F_again \<in> flags_of (sched k1) (cur e) then Some (CELL_OK, [], k1)
            else if err \<noteq> 0 then Some (err, [], k1)
            else
              (case store k1 p of
                 Some (O_event_queue x) \<Rightarrow>
                   if eq_head x = [] then Some (CELL_OK, [], k1)
                   else map_option (\<lambda>(mail, s, x1). (CELL_OK, mail, put_event_queue p x1 (k1\<lparr>sched := s\<rparr>)))
                          (eq_cancel_all e (sched k1) x)
               | _ \<Rightarrow> Some (CELL_OK, [], k1)))"

definition sys_event_queue_tryreceive ::
    "env \<Rightarrow> u32 \<Rightarrow> int \<Rightarrow> kernel \<Rightarrow> (error_code \<times> lv2_event list option \<times> kernel) option" where
  "sys_event_queue_tryreceive e v sz k =
     (let k1 = enter e k in
      case event_queue_at v k1 of
        None \<Rightarrow> Some (CELL_ESRCH, None, k1)
      | Some (p, x) \<Rightarrow>
          if eq_type x \<noteq> SYS_PPU_QUEUE then Some (CELL_EINVAL, None, k1)
          else if obj_exists x = 0 then Some (CELL_ESRCH, None, k1)
          else map_option (\<lambda>(got, left). (CELL_OK, Some got, put_event_queue p (x\<lparr>eq_events := left\<rparr>) k1))
                 (take_events 0 sz (eq_events x)))"

text \<open>\<open>vsh\<close> is \<^verbatim>\<open>Emu.IsVsh()\<close>, for the special case of one key.\<close>

definition sys_event_queue_receive ::
    "env \<Rightarrow> bool \<Rightarrow> u32 \<Rightarrow> nat \<Rightarrow> kernel \<Rightarrow> (sys_result \<times> kernel) option" where
  "sys_event_queue_receive e vsh v timeout k =
     (let k0 = enter e k; k1 = k0\<lparr>sched := set_gpr (cur e) 3 CELL_OK (sched k0)\<rparr> in
      case event_queue_at v k1 of
        None \<Rightarrow> Some (Done CELL_ESRCH, k1)
      | Some (p, x) \<Rightarrow>
          if eq_type x \<noteq> SYS_PPU_QUEUE then Some (Done CELL_EINVAL, k1)
          else
            map_option (\<lambda>(got, s, x1). (if got then Done CELL_OK else Blocked, put_event_queue p x1 (k1\<lparr>sched := s\<rparr>)))
              (eq_receive e (if eq_key x = 0x8005911000000012 \<and> vsh then 1 else timeout) (sched k1) x))"

definition sys_event_queue_receive_iter ::
    "env \<Rightarrow> nat \<Rightarrow> nat \<Rightarrow> bool \<Rightarrow> bool \<Rightarrow> kernel \<Rightarrow> (wait_step \<times> kernel) option" where
  "sys_event_queue_receive_iter e p timeout timed_out check_state k =
     (case store k p of
        Some (O_event_queue x) \<Rightarrow>
          map_option (\<lambda>(w, s, x1). (w, put_event_queue p x1 (k\<lparr>sched := s\<rparr>)))
            (wait_iter (\<lambda>t y. t \<in> set (eq_pq y)) eq_expire (cur e) (timeout \<noteq> 0 \<and> timed_out) check_state (sched k) x)
      | _ \<Rightarrow> None)"

definition sys_event_queue_drain :: "env \<Rightarrow> u32 \<Rightarrow> kernel \<Rightarrow> error_code \<times> kernel" where
  "sys_event_queue_drain e v k =
     (let k1 = enter e k in
      case event_queue_at v k1 of
        None \<Rightarrow> (CELL_ESRCH, k1)
      | Some (p, x) \<Rightarrow> (CELL_OK, put_event_queue p (x\<lparr>eq_events := []\<rparr>) k1))"

section \<open>System calls on ports\<close>

definition new_event_port :: "u32 \<Rightarrow> u64 \<Rightarrow> lv2_event_port" where
  "new_event_port type name = \<lparr>obj_exists = 0, port_type = type, port_name = name, is_busy = 0, port_queue = None\<rparr>"

definition event_port_at :: "u32 \<Rightarrow> kernel \<Rightarrow> (nat \<times> lv2_event_port) option" where
  "event_port_at v k = (case obj_at event_port_base_id v k of Some (p, O_event_port x) \<Rightarrow> Some (p, x) | _ \<Rightarrow> None)"

definition put_event_port :: "nat \<Rightarrow> lv2_event_port \<Rightarrow> kernel \<Rightarrow> kernel" where
  "put_event_port p x k = k\<lparr>store := (store k)(p \<mapsto> O_event_port x)\<rparr>"

definition sys_event_port_create :: "env \<Rightarrow> u32 \<Rightarrow> u64 \<Rightarrow> kernel \<Rightarrow> (error_code \<times> u32 option \<times> kernel) option" where
  "sys_event_port_create e ptype name k =
     (let k1 = enter e k in
      if ptype \<noteq> SYS_EVENT_PORT_LOCAL \<and> ptype \<noteq> SYS_EVENT_PORT_IPC then Some (CELL_EINVAL, None, k1)
      else case make_obj event_port_base_id (\<lambda>_. O_event_port (new_event_port ptype name)) k1 of
        None \<Rightarrow> None
      | Some (v, k2) \<Rightarrow> if v \<noteq> 0 then Some (CELL_OK, Some v, k2) else Some (CELL_EAGAIN, None, k2))"

definition sys_event_port_destroy :: "env \<Rightarrow> u32 \<Rightarrow> kernel \<Rightarrow> error_code \<times> kernel" where
  "sys_event_port_destroy e v k =
     (case withdraw_obj event_port_base_id v
             (\<lambda>p k1. case store k1 p of
                Some (O_event_port x) \<Rightarrow> if obj_check (port_queue x) (store k1) then (CELL_EISCONN, k1) else (CELL_OK, k1)
              | _ \<Rightarrow> (CELL_ESRCH, k1)) (enter e k) of
        (None, k1) \<Rightarrow> (CELL_ESRCH, k1)
      | (Some (p, err), k1) \<Rightarrow> (err, k1))"

text \<open>The common part of the two connecting calls, for the queue that was found.\<close>

definition port_connect :: "u32 \<Rightarrow> u32 \<Rightarrow> nat option \<Rightarrow> kernel \<Rightarrow> error_code \<times> kernel" where
  "port_connect type v queue k =
     (case (event_port_at v k, queue) of
        (Some (p, x), Some q) \<Rightarrow>
          if port_type x \<noteq> type then (CELL_EINVAL, k)
          else if obj_check (port_queue x) (store k) then (CELL_EISCONN, k)
          else (CELL_OK, put_event_port p (x\<lparr>port_queue := Some q\<rparr>) k)
      | _ \<Rightarrow> (CELL_ESRCH, k))"

definition sys_event_port_connect_local :: "env \<Rightarrow> u32 \<Rightarrow> u32 \<Rightarrow> kernel \<Rightarrow> error_code \<times> kernel" where
  "sys_event_port_connect_local e v qid k =
     (let k1 = enter e k in port_connect SYS_EVENT_PORT_LOCAL v (map_option fst (event_queue_at qid k1)) k1)"

definition queue_find :: "u64 \<Rightarrow> kernel \<Rightarrow> nat option" where
  "queue_find ipc_key k = (if ipc_key = 0 then None else ipc_get ipc_key (ipc k event_queue_base_id))"

definition sys_event_port_connect_ipc :: "env \<Rightarrow> u32 \<Rightarrow> u64 \<Rightarrow> kernel \<Rightarrow> error_code \<times> kernel" where
  "sys_event_port_connect_ipc e v ipc_key k =
     (let k1 = enter e k in
      if ipc_key = 0 then (CELL_EINVAL, k1) else port_connect SYS_EVENT_PORT_IPC v (queue_find ipc_key k1) k1)"

definition sys_event_port_disconnect :: "env \<Rightarrow> u32 \<Rightarrow> kernel \<Rightarrow> error_code \<times> kernel" where
  "sys_event_port_disconnect e v k =
     (let k1 = enter e k in
      case event_port_at v k1 of
        None \<Rightarrow> (CELL_ESRCH, k1)
      | Some (p, x) \<Rightarrow>
          if \<not> obj_check (port_queue x) (store k1) then (CELL_ENOTCONN, k1)
          else if is_busy x \<noteq> 0 then (CELL_EBUSY, k1)
          else (CELL_OK, put_event_port p (x\<lparr>port_queue := None\<rparr>) k1))"

definition event_source :: "u32 \<Rightarrow> u32 \<Rightarrow> lv2_event_port \<Rightarrow> u64" where
  "event_source pid v x = (if port_name x \<noteq> 0 then port_name x else push_bit 32 (ucast pid) OR ucast v)"

text \<open>
  \<^verbatim>\<open>sys_event_port_send\<close> by a PPU thread up to the point where it may have to wait for being rescheduled
  (\<open>Blocked\<close>); \<open>pid\<close> is \<^verbatim>\<open>process_getpid()\<close>, \<open>restored\<close> is \<^verbatim>\<open>ppu->loaded_from_savestate\<close>.
\<close>

definition sys_event_port_send ::
    "env \<Rightarrow> spu_threads \<Rightarrow> u32 \<Rightarrow> bool \<Rightarrow> u32 \<Rightarrow> u64 \<Rightarrow> u64 \<Rightarrow> u64 \<Rightarrow> kernel \<Rightarrow> (sys_result \<times> spu_mail \<times> kernel) option" where
  "sys_event_port_send e spus pid restored v data1 data2 data3 k =
     (let k1 = enter e k in
      case event_port_at v k1 of
        None \<Rightarrow> Some (Done CELL_ESRCH, [], k1)
      | Some (p, x) \<Rightarrow>
          if restored then Some (Blocked, [], put_event_port p (x\<lparr>is_busy := is_busy x + 1\<rparr>) k1)
          else
            (case port_queue x of
               None \<Rightarrow> Some (Done CELL_ENOTCONN, [], k1)
             | Some q \<Rightarrow>
                 (case store k1 q of
                    Some (O_event_queue y) \<Rightarrow>
                      if obj_exists y = 0 then Some (Done CELL_ENOTCONN, [], k1)
                      else
                        map_option (\<lambda>out.
                            let k2 = put_event_queue q (so_queue out) (k1\<lparr>sched := so_lv2 out\<rparr>) in
                            if so_notified out then (Blocked, so_mail out, put_event_port p (x\<lparr>is_busy := is_busy x + 1\<rparr>) k2)
                            else (Done (so_err out), so_mail out, k2))
                          (eq_send e spus (eq_type y = SYS_PPU_QUEUE) (event_source pid v x, data1, data2, data3) (sched k1) y)
                  | _ \<Rightarrow> Some (Done CELL_ENOTCONN, [], k1))))"

text \<open>The end of the call after the wait: \<^verbatim>\<open>port->is_busy--\<close>; \<open>stopped\<close> is \<^verbatim>\<open>ppu->test_stopped()\<close>.\<close>

definition port_send_end :: "env \<Rightarrow> nat \<Rightarrow> bool \<Rightarrow> kernel \<Rightarrow> (error_code \<times> kernel) option" where
  "port_send_end e p stopped k =
     (case store k p of
        Some (O_event_port x) \<Rightarrow>
          Some (CELL_OK, put_event_port p (x\<lparr>is_busy := is_busy x - 1\<rparr>)
            (k\<lparr>sched := if stopped then add_flags (cur e) {F_again} (sched k) else sched k\<rparr>))
      | _ \<Rightarrow> None)"

section \<open>Properties of ports\<close>

lemma event_at_iff:
  "event_queue_at v k = Some (q, y) \<longleftrightarrow> idm_get (lv2_traits event_queue_base_id) v (ids k) = Some q \<and> store k q = Some (O_event_queue y)"
  "event_port_at v k = Some (p, x) \<longleftrightarrow> idm_get (lv2_traits event_port_base_id) v (ids k) = Some p \<and> store k p = Some (O_event_port x)"
  by (auto simp: event_queue_at_def event_port_at_def obj_at_def split: option.splits lv2_object.splits)

lemma put_event_at:
  assumes "event_port_at v k = Some (p, x)" "event_queue_at w k = Some (q, y)"
  shows "event_port_at v (put_event_port p x' k) = Some (p, x')" "event_queue_at w (put_event_port p x' k) = Some (q, y)"
    "event_port_at v (put_event_queue q y' k) = Some (p, x)" "event_queue_at w (put_event_queue q y' k) = Some (q, y')"
  using assms by (auto simp: event_at_iff put_event_port_def put_event_queue_def)

lemma event_at_sched [simp]:
  "event_port_at v (enter e k) = event_port_at v k" "event_queue_at v (enter e k) = event_queue_at v k"
  "event_port_at v (k\<lparr>sched := s\<rparr>) = event_port_at v k" "event_queue_at v (k\<lparr>sched := s\<rparr>) = event_queue_at v k"
  by (simp_all add: event_port_at_def event_queue_at_def)

lemma take_all: "n + int (length evs) \<le> 127 \<Longrightarrow> n + int (length evs) \<le> m \<Longrightarrow> take_events n m evs = Some (evs, [])"
  by (induction n m evs rule: take_events.induct) auto

lemma connected:
  assumes "event_port_at v k = Some (p, x)" "port_queue x = Some q" "event_queue_at w k = Some (q, y)"
  shows "obj_check (port_queue x) (store k) \<longleftrightarrow> obj_exists y \<noteq> 0" "store k q = Some (O_event_queue y)"
  using assms by (auto simp: obj_check_def event_at_iff get_exists_def)

lemma send_stored:
  assumes k: "event_port_at v k = Some (p, x)" "port_queue x = Some q" "event_queue_at w k = Some (q, y)"
    and y: "obj_exists y \<noteq> 0" "eq_pq y = []" "eq_sq y = []" "length (eq_events y) < eq_size y"
  shows "sys_event_port_send e spus pid False v d1 d2 d3 k
    = Some (Done CELL_OK, [], put_event_queue q (y\<lparr>eq_events := eq_events y @ [(event_source pid v x, d1, d2, d3)]\<rparr>) (enter e k))"
  using k y connected(2) [OF k] by (simp add: sys_event_port_send_def eq_send_def Let_def enter_def)

lemma port_destroy_busy:
  assumes "kernel_inv k" "event_port_at v k = Some (p, x)" "obj_check (port_queue x) (store k)"
  shows "sys_event_port_destroy e v k = (CELL_EISCONN, enter e k)"
proof -
  have "obj_at event_port_base_id v (enter e k) = Some (p, O_event_port x)" "store k p = Some (O_event_port x)"
    using assms(2) by (auto simp: event_at_iff obj_at_def)
  then show ?thesis
    using assms by (simp add: sys_event_port_destroy_def withdraw_busy [where err = CELL_EISCONN])
qed

text \<open>C30: An event sent through a port arrives unchanged, and the life cycle of a port is kept. A free port of the right type
  connects to a queue; then connecting it again or destroying it is refused with \<^verbatim>\<open>CELL_EISCONN\<close>. What is sent
  through it (with the port's name as its source, or the process and port id) is the last event a receiver polls from the queue.
  After disconnecting, sending and disconnecting report \<^verbatim>\<open>CELL_ENOTCONN\<close>.\<close>

theorem event_port_roundtrip:
  assumes k: "kernel_inv k" "event_port_at v k = Some (p, x)" "event_queue_at w k = Some (q, y)"
    and x: "port_type x = SYS_EVENT_PORT_LOCAL" "\<not> obj_check (port_queue x) (store k)" "is_busy x = 0"
    and y: "obj_exists y \<noteq> 0" "eq_type y = SYS_PPU_QUEUE" "eq_pq y = []" "eq_sq y = []" "length (eq_events y) < eq_size y" "eq_size y \<le> 127"
  shows "\<exists>k1 k2 k3 k4. sys_event_port_connect_local e v w k = (CELL_OK, k1)
    \<and> sys_event_port_connect_local e v w k1 = (CELL_EISCONN, enter e k1) \<and> sys_event_port_destroy e v k1 = (CELL_EISCONN, enter e k1)
    \<and> sys_event_port_send e spus pid False v d1 d2 d3 k1 = Some (Done CELL_OK, [], k2)
    \<and> sys_event_queue_tryreceive e' w 127 k2 = Some (CELL_OK, Some (eq_events y @ [(event_source pid v x, d1, d2, d3)]), k3)
    \<and> sys_event_port_disconnect e v k3 = (CELL_OK, k4) \<and> sys_event_port_disconnect e v k4 = (CELL_ENOTCONN, enter e k4)
    \<and> sys_event_port_send e spus pid False v d1 d2 d3 k4 = Some (Done CELL_ENOTCONN, [], enter e k4)"
proof -
  let ?x = "x\<lparr>port_queue := Some q\<rparr>" and ?ev = "(event_source pid v x, d1, d2, d3)"
  let ?k1 = "put_event_port p ?x (enter e k)"
  let ?k2 = "put_event_queue q (y\<lparr>eq_events := eq_events y @ [?ev]\<rparr>) (enter e ?k1)"
  let ?k3 = "put_event_queue q (y\<lparr>eq_events := []\<rparr>) (enter e' ?k2)"
  let ?k4 = "put_event_port p (x\<lparr>port_queue := None\<rparr>) (enter e ?k3)"
  have 1: "event_port_at v ?k1 = Some (p, ?x)" "event_queue_at w ?k1 = Some (q, y)" using put_event_at [of v "enter e k" p x w q y] k by simp_all
  have 2: "event_port_at v ?k2 = Some (p, ?x)" "event_queue_at w ?k2 = Some (q, y\<lparr>eq_events := eq_events y @ [?ev]\<rparr>)"
    using put_event_at [of v "enter e ?k1" p ?x w q y] 1 by simp_all
  have 3: "event_port_at v ?k3 = Some (p, ?x)" "event_queue_at w ?k3 = Some (q, y\<lparr>eq_events := []\<rparr>)"
    using put_event_at [of v "enter e' ?k2" p ?x w q] 2 by simp_all
  have 4: "event_port_at v ?k4 = Some (p, x\<lparr>port_queue := None\<rparr>)" using put_event_at [of v "enter e ?k3" p ?x w q] 3 by simp
  have c: "obj_check (Some q) (store ?k1)" "obj_check (Some q) (store ?k3)"
    using connected(1) [OF 1(1) _ 1(2)] connected(1) [OF 3(1) _ 3(2)] y(1) by simp_all
  have i: "kernel_inv ?k1" using k by (auto simp: kernel_inv_def event_at_iff put_event_port_def not_less [symmetric])
  show ?thesis
  proof (intro exI conjI)
    show "sys_event_port_connect_local e v w k = (CELL_OK, ?k1)"
      using k x by (simp add: sys_event_port_connect_local_def port_connect_def Let_def)
    show "sys_event_port_connect_local e v w ?k1 = (CELL_EISCONN, enter e ?k1)"
      using 1 c x by (simp add: sys_event_port_connect_local_def port_connect_def Let_def)
    show "sys_event_port_destroy e v ?k1 = (CELL_EISCONN, enter e ?k1)"
      using port_destroy_busy [OF i 1(1)] c(1) by simp
    show "sys_event_port_send e spus pid False v d1 d2 d3 ?k1 = Some (Done CELL_OK, [], ?k2)"
      using send_stored [OF 1(1) _ 1(2) y(1,3,4,5)] by (simp add: event_source_def)
    show "sys_event_queue_tryreceive e' w 127 ?k2 = Some (CELL_OK, Some (eq_events y @ [?ev]), ?k3)"
      using 2 y take_all [of 0 "eq_events y @ [?ev]" 127] by (simp add: sys_event_queue_tryreceive_def Let_def)
    show "sys_event_port_disconnect e v ?k3 = (CELL_OK, ?k4)"
      using 3 c x by (simp add: sys_event_port_disconnect_def Let_def)
    show "sys_event_port_disconnect e v ?k4 = (CELL_ENOTCONN, enter e ?k4)"
      using 4 by (simp add: sys_event_port_disconnect_def Let_def obj_check_def)
    show "sys_event_port_send e spus pid False v d1 d2 d3 ?k4 = Some (Done CELL_ENOTCONN, [], enter e ?k4)"
      using 4 by (simp add: sys_event_port_send_def Let_def)
  qed
qed

text \<open>A kernel with one queue and one port.\<close>

definition port_ids :: "nat id_map" where
  "port_ids = fill event_port_base_id 1 0x0E000100 2 1 (fill event_queue_base_id 0 0x8D000000 1 0 no_objects)"

definition port_kernel :: kernel where
  "port_kernel = (boot_kernel 2)\<lparr>ids := port_ids, store_top := 2,
     store := [0 \<mapsto> O_event_queue ((new_event_queue SYS_SYNC_FIFO SYS_PPU_QUEUE 8 0 0 0x8D000000)\<lparr>obj_exists := 1\<rparr>),
               1 \<mapsto> O_event_port (new_event_port SYS_EVENT_PORT_LOCAL 0)]\<rparr>"

lemma port_ids_facts: "table_inv port_ids" "idm_get (lv2_traits event_port_base_id) 0x0E000100 port_ids = Some 1"
  "idm_get (lv2_traits event_queue_base_id) 0x8D000000 port_ids = Some 0"
proof -
  have n: "table_inv no_objects" "highest_index no_objects = 0" using no_objects_facts by simp_all
  have f: "fresh_slot event_queue_base_id 0 0x8D000000 no_objects"
    by (simp add: fresh_slot_def slot_id_def slot_base_def no_objects_def empty_map_def empty_key_def)
  note i = fill_inv [OF n(1) _ f, of 1 0]
  have g: "fresh_slot event_port_base_id 1 0x0E000100 (fill event_queue_base_id 0 0x8D000000 1 0 no_objects)"
    by (simp add: fresh_slot_def slot_id_def slot_base_def no_objects_def empty_map_def empty_key_def fill_def)
  have h: "highest_index (fill event_queue_base_id 0 0x8D000000 1 0 no_objects) = 1" by (simp add: fill_def)
  show "table_inv port_ids" using i fill_inv [OF _ _ g, of 2 1] n h by (simp add: port_ids_def)
  show "idm_get (lv2_traits event_port_base_id) 0x0E000100 port_ids = Some 1"
    using i fill_get [OF _ _ g, of 2 event_port_base_id _ 1] n h by (simp add: port_ids_def)
  show "idm_get (lv2_traits event_queue_base_id) 0x8D000000 port_ids = Some 0"
    using i fill_get [OF _ _ g, of 2 event_queue_base_id _ 1] fill_get [OF n(1) _ f, of 1 event_queue_base_id _ 0] n h
    by (simp add: port_ids_def)
qed

theorem event_port_roundtrip_witness:
  "\<exists>k1 k2 k3. sys_event_port_connect_local \<lparr>cur = 0x1000000, e_now = 0, e_tsc = 0\<rparr> 0x0E000100 0x8D000000 port_kernel = (CELL_OK, k1)
     \<and> sys_event_port_send \<lparr>cur = 0x1000000, e_now = 0, e_tsc = 0\<rparr> (ppus (lv2_boot 2)) 1 False 0x0E000100 7 8 9 k1 = Some (Done CELL_OK, [], k2)
     \<and> sys_event_queue_tryreceive \<lparr>cur = 0x1000001, e_now = 0, e_tsc = 0\<rparr> 0x8D000000 127 k2 = Some (CELL_OK, Some [(0x10E000100, 7, 8, 9)], k3)"
proof -
  have k: "kernel_inv port_kernel"
    "event_port_at 0x0E000100 port_kernel = Some (1, new_event_port SYS_EVENT_PORT_LOCAL 0)"
    "event_queue_at 0x8D000000 port_kernel = Some (0, (new_event_queue SYS_SYNC_FIFO SYS_PPU_QUEUE 8 0 0 0x8D000000)\<lparr>obj_exists := 1\<rparr>)"
    using port_ids_facts by (simp_all add: event_at_iff port_kernel_def kernel_inv_def)
  have s: "event_source 1 0x0E000100 (new_event_port SYS_EVENT_PORT_LOCAL 0) = 0x10E000100"
    by (simp add: event_source_def new_event_port_def)
  show ?thesis
    using event_port_roundtrip [OF k, of "\<lparr>cur = 0x1000000, e_now = 0, e_tsc = 0\<rparr>" "ppus (lv2_boot 2)" 1 7 8 9 "\<lparr>cur = 0x1000001, e_now = 0, e_tsc = 0\<rparr>"]
    unfolding s by (auto simp: new_event_port_def new_event_queue_def obj_check_def)
qed

end
