(* ===== verification/Event_Threads.thy ===== *)
theory Event_Threads
  imports Sys_Event
begin

text \<open>
  Any number of threads on one event queue of type \<^verbatim>\<open>SYS_PPU_QUEUE\<close>. Every access to the queue is under
  \<^verbatim>\<open>queue->mutex\<close>, so each is one step. \<open>es_sent\<close>, \<open>es_taken\<close> and \<open>es_granted\<close> are ghost state: the events
  the queue has accepted, the events that have left it (each with the thread that got it, or that discarded it),
  both in order, and the waiting threads that have been woken.
\<close>

section \<open>Steps\<close>

datatype eq_pc = EQ_idle | EQ_wait nat | EQ_ret u64 | EQ_again

record eq_sys =
  es_lv2 :: lv2
  es_q :: lv2_event_queue
  es_pc :: "tid \<Rightarrow> eq_pc"
  es_sent :: "lv2_event list"
  es_taken :: "(tid \<times> lv2_event) list"
  es_granted :: "tid set"

definition ego :: "tid \<Rightarrow> eq_pc \<Rightarrow> eq_sys \<Rightarrow> eq_sys" where
  "ego t pc z = z\<lparr>es_pc := (es_pc z)(t := pc)\<rparr>"

abbreviation pq_of :: "eq_sys \<Rightarrow> tid list" where "pq_of z \<equiv> eq_pq (es_q z)"
abbreviation evs_of :: "eq_sys \<Rightarrow> lv2_event list" where "evs_of z \<equiv> eq_events (es_q z)"

text \<open>The event an accepted send hands over at once, with its receiver.\<close>

definition hand_over :: "eq_sys \<Rightarrow> lv2_event \<Rightarrow> (tid \<times> lv2_event) list" where
  "hand_over z ev = (case fst (schedule (ppus (es_lv2 z)) (eq_protocol (es_q z)) (pq_of z)) of None \<Rightarrow> [] | Some t \<Rightarrow> [(t, ev)])"

inductive eq_step :: "eq_sys \<Rightarrow> eq_sys \<Rightarrow> bool" where
  eq_accept: "es_pc z (cur e) = EQ_idle \<Longrightarrow> eq_send e spus port ev (es_lv2 z) (es_q z) = Some out \<Longrightarrow> so_err out = CELL_OK \<Longrightarrow>
    eq_step z (ego (cur e) (EQ_ret CELL_OK) (z\<lparr>es_lv2 := so_lv2 out, es_q := so_queue out, es_sent := es_sent z @ [ev],
      es_taken := es_taken z @ hand_over z ev, es_granted := fst ` set (hand_over z ev) \<union> es_granted z\<rparr>))"
| eq_refuse: "es_pc z (cur e) = EQ_idle \<Longrightarrow> eq_send e spus port ev (es_lv2 z) (es_q z) = Some out \<Longrightarrow> so_err out \<noteq> CELL_OK \<Longrightarrow>
    eq_step z (ego (cur e) (if so_err out = CELL_EAGAIN then EQ_again else EQ_ret (ucast (so_err out)))
      (z\<lparr>es_lv2 := so_lv2 out, es_q := so_queue out\<rparr>))"
| eq_take: "es_pc z (cur e) = EQ_idle \<Longrightarrow> obj_exists (es_q z) \<noteq> 0 \<Longrightarrow> may_sleep n (es_lv2 z) (cur e) \<Longrightarrow>
    eq_receive e n (set_gpr (cur e) 3 CELL_OK (es_lv2 z)) (es_q z) = Some (True, s, x) \<Longrightarrow>
    eq_step z (ego (cur e) (EQ_ret CELL_OK) (z\<lparr>es_lv2 := s, es_q := x, es_taken := es_taken z @ [(cur e, hd (evs_of z))]\<rparr>))"
| eq_block: "es_pc z (cur e) = EQ_idle \<Longrightarrow> obj_exists (es_q z) \<noteq> 0 \<Longrightarrow> may_sleep n (es_lv2 z) (cur e) \<Longrightarrow>
    eq_receive e n (set_gpr (cur e) 3 CELL_OK (es_lv2 z)) (es_q z) = Some (False, s, x) \<Longrightarrow>
    eq_step z (ego (cur e) (EQ_wait n) (z\<lparr>es_lv2 := s, es_q := x\<rparr>))"
| eq_break: "es_pc z t = EQ_wait n \<Longrightarrow>
    wait_iter (\<lambda>t y. t \<in> set (eq_pq y)) eq_expire t False c (es_lv2 z) (es_q z) = Some (W_break, s, x) \<Longrightarrow>
    eq_step z (ego t (EQ_ret (gpr_of s t 3)) (z\<lparr>es_lv2 := s, es_q := x, es_granted := es_granted z - {t}\<rparr>))"
| eq_stop: "es_pc z t = EQ_wait n \<Longrightarrow>
    wait_iter (\<lambda>t y. t \<in> set (eq_pq y)) eq_expire t False c (es_lv2 z) (es_q z) = Some (W_return, s, x) \<Longrightarrow>
    eq_step z (ego t EQ_again (z\<lparr>es_lv2 := s, es_q := x\<rparr>))"
| eq_timeout: "es_pc z t = EQ_wait n \<Longrightarrow> n \<noteq> 0 \<Longrightarrow> eq_expire t (add_flags t {F_wait} (es_lv2 z)) (es_q z) = Some (s, x) \<Longrightarrow>
    eq_step z (ego t (EQ_ret (gpr_of s t 3)) (z\<lparr>es_lv2 := s, es_q := x, es_granted := es_granted z - {t}\<rparr>))"
| eq_poll: "es_pc z t = EQ_idle \<Longrightarrow> obj_exists (es_q z) \<noteq> 0 \<Longrightarrow> take_events 0 n (evs_of z) = Some (got, left) \<Longrightarrow>
    eq_step z (z\<lparr>es_q := (es_q z)\<lparr>eq_events := left\<rparr>, es_taken := es_taken z @ map (Pair t) got\<rparr>)"
| eq_drain: "es_pc z t = EQ_idle \<Longrightarrow>
    eq_step z (z\<lparr>es_q := (es_q z)\<lparr>eq_events := []\<rparr>, es_taken := es_taken z @ map (Pair t) (evs_of z)\<rparr>)"
| eq_destroy: "es_pc z (cur e) = EQ_idle \<Longrightarrow> \<not> some_again (es_lv2 z) (pq_of z) \<Longrightarrow> obj_exists (es_q z) \<noteq> 0 \<Longrightarrow>
    eq_cancel_all e (es_lv2 z) ((es_q z)\<lparr>obj_exists := 0\<rparr>) = Some (mail, s, x) \<Longrightarrow>
    eq_step z (z\<lparr>es_lv2 := s, es_q := x, es_granted := set (pq_of z) \<union> es_granted z\<rparr>)"
| eq_return: "es_pc z t = EQ_ret r \<Longrightarrow> eq_step z (ego t EQ_idle z)"
| eq_others: "others_act (set (pq_of z)) (es_granted z) {t. es_pc z t \<noteq> EQ_idle} (es_lv2 z) s \<Longrightarrow> eq_step z (z\<lparr>es_lv2 := s\<rparr>)"

definition eq_start :: "lv2 \<Rightarrow> lv2_event_queue \<Rightarrow> eq_sys" where
  "eq_start s x = \<lparr>es_lv2 = s, es_q = x, es_pc = (\<lambda>_. EQ_idle), es_sent = [], es_taken = [], es_granted = {}\<rparr>"

section \<open>Invariant\<close>

text \<open>The event a thread got last.\<close>

definition got_event :: "eq_sys \<Rightarrow> tid \<Rightarrow> lv2_event option" where
  "got_event z t = map_of (rev (es_taken z)) t"

definition event_regs :: "lv2 \<Rightarrow> tid \<Rightarrow> lv2_event" where
  "event_regs s t = (gpr_of s t 4, gpr_of s t 5, gpr_of s t 6, gpr_of s t 7)"

text \<open>A thread that has been woken holds its event, or the queue is gone.\<close>

definition served :: "eq_sys \<Rightarrow> tid \<Rightarrow> bool" where
  "served z t \<longleftrightarrow> gpr_of (es_lv2 z) t 3 = CELL_OK \<and> got_event z t = Some (event_regs (es_lv2 z) t)
     \<or> gpr_of (es_lv2 z) t 3 = CELL_ECANCELED \<and> obj_exists (es_q z) = 0"

fun epc_ok :: "eq_sys \<Rightarrow> tid \<Rightarrow> eq_pc \<Rightarrow> bool" where
  "epc_ok z t (EQ_wait n) =
     (t \<in> set (pq_of z) \<and> gpr_of (es_lv2 z) t 3 = CELL_OK \<or> t \<in> es_granted z \<and> t \<notin> set (pq_of z) \<and> served z t)"
| "epc_ok z t EQ_again = ((t \<in> set (pq_of z) \<longrightarrow> F_again \<in> flags_of (es_lv2 z) t) \<and> t \<notin> es_granted z)"
| "epc_ok z t _ = (t \<notin> set (pq_of z) \<union> es_granted z)"

definition eq_store :: "eq_sys \<Rightarrow> bool" where
  "eq_store z \<longleftrightarrow> eq_type (es_q z) = SYS_PPU_QUEUE \<and> eq_sq (es_q z) = [] \<and> (pq_of z \<noteq> [] \<longrightarrow> evs_of z = [] \<and> obj_exists (es_q z) \<noteq> 0)
     \<and> length (evs_of z) \<le> eq_size (es_q z) \<and> eq_size (es_q z) \<le> 127 \<and> es_sent z = map snd (es_taken z) @ evs_of z"

definition eq_inv :: "eq_sys \<Rightarrow> bool" where
  "eq_inv z \<longleftrightarrow> eq_store z \<and> distinct (pq_of z) \<and> asleep (es_lv2 z) (set (pq_of z)) (es_granted z) \<and> (\<forall>t. epc_ok z t (es_pc z t))"

lemma ego_sel [simp]:
  "es_lv2 (ego t pc z) = es_lv2 z" "es_q (ego t pc z) = es_q z" "es_pc (ego t pc z) = (es_pc z)(t := pc)"
  "es_sent (ego t pc z) = es_sent z" "es_taken (ego t pc z) = es_taken z" "es_granted (ego t pc z) = es_granted z"
  by (simp_all add: ego_def)

lemma eq_invD:
  assumes "eq_inv z"
  shows "eq_store z" "distinct (pq_of z)" "asleep (es_lv2 z) (set (pq_of z)) (es_granted z)" "epc_ok z t (es_pc z t)"
  using assms by (auto simp: eq_inv_def)

lemma put_event_sel [simp]:
  "gpr_of (put_event t ev s) u 3 = gpr_of s u 3" "flags_of (put_event t ev s) u = flags_of s u"
  "event_regs (put_event t ev s) u = (if u = t then ev else event_regs s u)" "asleep (put_event t ev s) W G = asleep s W G"
  "prio_of (put_event t ev s) u = prio_of s u"
  by (cases ev; simp add: put_event_def event_regs_def)+

lemma got_event_add [simp]:
  "es_taken z' = es_taken z @ [(t, ev)] \<Longrightarrow> got_event z' u = (if u = t then Some ev else got_event z u)"
  by (simp add: got_event_def)

text \<open>A thread not taking the step keeps its place and registers, or is served.\<close>

definition emoved :: "eq_sys \<Rightarrow> eq_sys \<Rightarrow> tid \<Rightarrow> bool" where
  "emoved z z' u \<longleftrightarrow> (u \<in> set (pq_of z') \<longleftrightarrow> u \<in> set (pq_of z)) \<and> (u \<in> es_granted z' \<longleftrightarrow> u \<in> es_granted z)
       \<and> gpr_of (es_lv2 z') u 3 = gpr_of (es_lv2 z) u 3 \<and> event_regs (es_lv2 z') u = event_regs (es_lv2 z) u
       \<and> (F_again \<in> flags_of (es_lv2 z') u \<longleftrightarrow> F_again \<in> flags_of (es_lv2 z) u)
       \<and> (u \<in> es_granted z \<longrightarrow> got_event z' u = got_event z u)
     \<or> u \<in> set (pq_of z) \<and> F_again \<notin> flags_of (es_lv2 z) u \<and> u \<notin> set (pq_of z') \<and> u \<in> es_granted z' \<and> served z' u"

lemma eq_inv_move:
  assumes i: "eq_inv z" and st: "eq_store z'" and d: "distinct (pq_of z')" and a: "asleep (es_lv2 z') (set (pq_of z')) (es_granted z')"
    and ex: "obj_exists (es_q z) = 0 \<Longrightarrow> obj_exists (es_q z') = 0"
    and t: "epc_ok z' t (es_pc z' t)" and pc: "\<And>u. u \<noteq> t \<Longrightarrow> es_pc z' u = es_pc z u" and m: "\<And>u. u \<noteq> t \<Longrightarrow> emoved z z' u"
  shows "eq_inv z'"
proof -
  have "epc_ok z' u (es_pc z' u)" if "u \<noteq> t" for u
    using m [OF that] pc [OF that] eq_invD(4) [OF i, of u] ex by (cases "es_pc z u") (auto simp: emoved_def served_def)
  then have "epc_ok z' u (es_pc z' u)" for u using t by (cases "u = t") auto
  then show ?thesis using st d a by (simp add: eq_inv_def)
qed

text \<open>A step that leaves the waiters alone.\<close>

lemma eqs_quiet:
  assumes i: "eq_inv z" and st: "eq_store z'" and q: "pq_of z' = pq_of z" "es_granted z' = es_granted z" "obj_exists (es_q z') = obj_exists (es_q z)"
    and a: "asleep (es_lv2 z') (set (pq_of z)) (es_granted z)" and pc: "\<And>u. u \<noteq> t \<Longrightarrow> es_pc z' u = es_pc z u" and t: "epc_ok z' t (es_pc z' t)"
    and r: "\<And>u. u \<noteq> t \<Longrightarrow> gpr_of (es_lv2 z') u 3 = gpr_of (es_lv2 z) u 3 \<and> event_regs (es_lv2 z') u = event_regs (es_lv2 z) u
      \<and> (F_again \<in> flags_of (es_lv2 z') u \<longleftrightarrow> F_again \<in> flags_of (es_lv2 z) u) \<and> got_event z' u = got_event z u"
  shows "eq_inv z'"
  by (rule eq_inv_move [OF i st _ _ _ t pc]) (use q a r eq_invD(2) [OF i] in \<open>auto simp: emoved_def\<close>)

lemma event_regs_eq: "gpr (ppus s' u) = gpr (ppus s u) \<Longrightarrow> event_regs s' u = event_regs s u"
  by (simp add: event_regs_def)

lemma event_regs_simps [simp]:
  "event_regs (set_gpr t 3 v s) u = event_regs s u" "event_regs (add_flags t F s) u = event_regs s u"
  by (simp_all add: event_regs_def)

lemma eqs_idle: "eq_inv z \<Longrightarrow> es_pc z t = EQ_idle \<Longrightarrow> t \<notin> set (pq_of z) \<union> es_granted z"
  using eq_invD(4) [of z t] by simp

lemma eqs_deliver:
  fixes e :: env
  assumes i: "eq_inv z" and pc: "es_pc z (cur e) = EQ_idle" and t: "t \<in> set (pq_of z)" "F_again \<notin> flags_of (es_lv2 z) t"
    and op: "obj_awake e t (put_event t ev (es_lv2 z)) = Some s"
  shows "eq_inv (ego (cur e) (EQ_ret r) (z\<lparr>es_lv2 := s, es_q := (es_q z)\<lparr>eq_pq := remove1 t (pq_of z)\<rparr>, es_sent := es_sent z @ [ev],
      es_taken := es_taken z @ [(t, ev)], es_granted := insert t (es_granted z)\<rparr>))" (is "eq_inv ?z")
proof -
  have s: "asleep s (set (pq_of z) - {t}) (insert t (es_granted z))" "same_regs (put_event t ev (es_lv2 z)) s"
    using wake_one_spec [of "put_event t ev (es_lv2 z)" "set (pq_of z)" "es_granted z" t e] eq_invD(3) [OF i] t(1) op by auto
  have c: "cur e \<notin> set (pq_of z) \<union> es_granted z" by (rule eqs_idle [OF i pc])
  have e': "evs_of z = []" using eq_invD(1) [OF i] t(1) by (auto simp: eq_store_def)
  have R: "event_regs s u = event_regs (put_event t ev (es_lv2 z)) u" "gpr_of s u 3 = gpr_of (put_event t ev (es_lv2 z)) u 3" for u
    using same_regsD(1) [OF s(2), of u] event_regs_eq [of s u "put_event t ev (es_lv2 z)"] by (simp_all only:)
  have g3: "gpr_of (es_lv2 z) t 3 = CELL_OK" using eq_invD(4) [OF i, of t] t by (cases "es_pc z t") auto
  have sv: "served ?z t" using R g3 by (simp add: served_def)
  have "emoved z ?z u" if "u \<noteq> cur e" for u
    using R same_regsD(2) [OF s(2), of u] sv t c eq_invD(2) [OF i] that by (cases "u = t") (simp_all add: emoved_def)
  moreover have "eq_store ?z" using eq_invD(1) [OF i] t(1) e' by (auto simp: eq_store_def)
  ultimately show ?thesis
    using s(1) eq_invD(2) [OF i] c t(1) by (intro eq_inv_move [OF i, where t = "cur e"]) auto
qed

lemma eq_send_cases:
  assumes i: "eq_inv z" and op: "eq_send e spus port ev (es_lv2 z) (es_q z) = Some out"
  obtains (stored) "pq_of z = []" "so_err out = CELL_OK" "length (evs_of z) < eq_size (es_q z)" "so_lv2 out = es_lv2 z"
        "so_queue out = (es_q z)\<lparr>eq_events := evs_of z @ [ev]\<rparr>" "obj_exists (es_q z) \<noteq> 0"
    | (refused) "so_err out = CELL_ENOTCONN \<or> so_err out = CELL_EBUSY" "so_lv2 out = es_lv2 z" "so_queue out = es_q z"
        "obj_exists (es_q z) \<noteq> 0 \<Longrightarrow> pq_of z = [] \<and> length (evs_of z) = eq_size (es_q z)"
    | (stopped) "so_err out = CELL_EAGAIN" "so_lv2 out = add_flags (cur e) {F_again, F_exit} (es_lv2 z)" "so_queue out = es_q z"
    | (woken) t where "so_err out = CELL_OK" "t \<in> set (pq_of z)" "F_again \<notin> flags_of (es_lv2 z) t" "hand_over z ev = [(t, ev)]"
        "obj_awake e t (put_event t ev (es_lv2 z)) = Some (so_lv2 out)" "so_queue out = (es_q z)\<lparr>eq_pq := remove1 t (pq_of z)\<rparr>"
proof -
  have b: "eq_sq (es_q z) = []" "eq_type (es_q z) = SYS_PPU_QUEUE" "length (evs_of z) \<le> eq_size (es_q z)"
    "pq_of z \<noteq> [] \<Longrightarrow> obj_exists (es_q z) \<noteq> 0" using eq_invD(1) [OF i] by (auto simp: eq_store_def)
  show thesis
  proof (cases "pq_of z = []")
    case True
    then show thesis using op b stored refused by (auto simp: eq_send_def Let_def split: if_splits)
  next
    case False
    obtain r q where sc: "schedule (ppus (es_lv2 z)) (eq_protocol (es_q z)) (pq_of z) = (r, q)" by fastforce
    then obtain t where t: "r = Some t" "t \<in> set (pq_of z)" using schedule_cases(1,2) [OF sc] False by auto
    show thesis
    proof (cases "F_again \<in> flags_of (es_lv2 z) t")
      case True
      then show thesis using op b sc t False stopped by (auto simp: eq_send_def Let_def)
    next
      case again: False
      then have "q = remove1 t (pq_of z)" using schedule_cases(3) [OF sc t(1)] by simp
      then show thesis
        using op b sc t False again woken [of t] by (auto simp: eq_send_def Let_def hand_over_def)
    qed
  qed
qed

lemma eqs_accept:
  fixes e :: env
  assumes i: "eq_inv z" and pc: "es_pc z (cur e) = EQ_idle" and op: "eq_send e spus port ev (es_lv2 z) (es_q z) = Some out" "so_err out = CELL_OK"
  shows "eq_inv (ego (cur e) (EQ_ret CELL_OK) (z\<lparr>es_lv2 := so_lv2 out, es_q := so_queue out, es_sent := es_sent z @ [ev],
      es_taken := es_taken z @ hand_over z ev, es_granted := fst ` set (hand_over z ev) \<union> es_granted z\<rparr>))" (is "eq_inv ?z")
  using i op(1)
proof (cases rule: eq_send_cases)
  case stored
  then have "hand_over z ev = []" by (simp add: hand_over_def schedule_def)
  then show ?thesis
    using stored eq_invD(1,3) [OF i] eqs_idle [OF i pc]
    by (intro eqs_quiet [OF i, where t = "cur e"]) (auto simp: eq_store_def got_event_def)
next
  case (woken t)
  then show ?thesis using eqs_deliver [OF i pc woken(2,3,5)] by simp
qed (use op(2) in auto)

lemma eqs_refuse:
  fixes e :: env
  assumes i: "eq_inv z" and pc: "es_pc z (cur e) = EQ_idle" and op: "eq_send e spus port ev (es_lv2 z) (es_q z) = Some out" "so_err out \<noteq> CELL_OK"
  shows "eq_inv (ego (cur e) (if so_err out = CELL_EAGAIN then EQ_again else EQ_ret (ucast (so_err out)))
      (z\<lparr>es_lv2 := so_lv2 out, es_q := so_queue out\<rparr>))" (is "eq_inv ?z")
  using i op(1)
proof (cases rule: eq_send_cases)
  case refused
  then show ?thesis
    using eq_invD(1,3) [OF i] eqs_idle [OF i pc]
    by (intro eqs_quiet [OF i, where t = "cur e"]) (auto simp: eq_store_def got_event_def)
next
  case stopped
  have "asleep (add_flags (cur e) {F_again, F_exit} (es_lv2 z)) (set (pq_of z)) (es_granted z)"
    by (rule asleep_add [OF eq_invD(3) [OF i]]) auto
  then show ?thesis
    using stopped eq_invD(1) [OF i] eqs_idle [OF i pc]
    by (intro eqs_quiet [OF i, where t = "cur e"]) (auto simp: eq_store_def got_event_def)
qed (use op(2) in auto)

lemma eqs_take:
  fixes e :: env
  assumes i: "eq_inv z" and pc: "es_pc z (cur e) = EQ_idle"
    and op: "eq_receive e n (set_gpr (cur e) 3 CELL_OK (es_lv2 z)) (es_q z) = Some (True, s, x)"
  shows "eq_inv (ego (cur e) (EQ_ret CELL_OK) (z\<lparr>es_lv2 := s, es_q := x, es_taken := es_taken z @ [(cur e, hd (evs_of z))]\<rparr>))" (is "eq_inv ?z")
proof -
  obtain ev evs where "evs_of z = ev # evs" "s = put_event (cur e) ev (set_gpr (cur e) 3 CELL_OK (es_lv2 z))" "x = (es_q z)\<lparr>eq_events := evs\<rparr>"
    using op by (auto simp: eq_receive_def split: list.splits)
  then show ?thesis
    using eq_invD(1,3) [OF i] eqs_idle [OF i pc]
    by (intro eqs_quiet [OF i, where t = "cur e"]) (auto simp: eq_store_def)
qed

lemma eqs_block:
  fixes e :: env
  assumes i: "eq_inv z" and pc: "es_pc z (cur e) = EQ_idle" and ex: "obj_exists (es_q z) \<noteq> 0" and m: "may_sleep n (es_lv2 z) (cur e)"
    and op: "eq_receive e n (set_gpr (cur e) 3 CELL_OK (es_lv2 z)) (es_q z) = Some (False, s, x)"
  shows "eq_inv (ego (cur e) (EQ_wait n) (z\<lparr>es_lv2 := s, es_q := x\<rparr>))" (is "eq_inv ?z")
proof -
  let ?s = "set_gpr (cur e) 3 CELL_OK (es_lv2 z)"
  have c: "cur e \<notin> set (pq_of z) \<union> es_granted z" by (rule eqs_idle [OF i pc])
  have "asleep ?s (set (pq_of z)) (es_granted z)" "may_sleep n ?s (cur e)" using eq_invD(3) [OF i] m by (simp_all add: may_sleep_def)
  then obtain s' where s': "enqueue_sleep e n (pq_of z) ?s = Some (cur e # pq_of z, s')"
    "asleep s' (insert (cur e) (set (pq_of z))) (es_granted z)" "same_regs ?s s'"
    using enqueue_sleep_spec [where e = e and q = "pq_of z" and n = n and s = ?s] c by blast
  then have x: "evs_of z = []" "s = s'" "x = (es_q z)\<lparr>eq_pq := cur e # pq_of z\<rparr>" using op by (auto simp: eq_receive_def split: list.splits)
  have R: "event_regs s' u = event_regs (es_lv2 z) u" "gpr_of s' u 3 = (if u = cur e then CELL_OK else gpr_of (es_lv2 z) u 3)"
    "F_again \<in> flags_of s' u \<longleftrightarrow> F_again \<in> flags_of (es_lv2 z) u" for u
    using same_regsD [OF s'(3), of u] event_regs_eq [of s' u ?s] by auto
  have "eq_store ?z" using eq_invD(1) [OF i] x ex by (auto simp: eq_store_def)
  then show ?thesis
    using s'(2) eq_invD(2) [OF i] c x R
    by (intro eq_inv_move [OF i, where t = "cur e"]) (auto simp: emoved_def got_event_def)
qed

lemma eqs_leave:
  assumes i: "eq_inv z" and pc: "es_pc z t = EQ_wait n" and a: "asleep s (set (pq_of z) - {t}) (es_granted z - {t})"
    and x: "x = (es_q z)\<lparr>eq_pq := remove1 t (pq_of z)\<rparr>"
    and r: "\<And>u. u \<noteq> t \<Longrightarrow> gpr (ppus s u) = gpr (ppus (es_lv2 z) u) \<and> (F_again \<in> flags_of s u \<longleftrightarrow> F_again \<in> flags_of (es_lv2 z) u)"
  shows "eq_inv (ego t (EQ_ret v) (z\<lparr>es_lv2 := s, es_q := x, es_granted := es_granted z - {t}\<rparr>))" (is "eq_inv ?z")
proof -
  have d: "distinct (pq_of z)" by (rule eq_invD(2) [OF i])
  have "eq_store ?z" using eq_invD(1) [OF i] by (auto simp: eq_store_def x)
  moreover have "emoved z ?z u" if "u \<noteq> t" for u
    using r [OF that] event_regs_eq [of s u "es_lv2 z"] that d by (simp add: emoved_def got_event_def x)
  ultimately show ?thesis using a d by (intro eq_inv_move [OF i, where t = t]) (auto simp: x)
qed

lemma eqs_break:
  assumes i: "eq_inv z" and pc: "es_pc z t = EQ_wait n"
    and op: "wait_iter (\<lambda>t y. t \<in> set (eq_pq y)) eq_expire t False c (es_lv2 z) (es_q z) = Some (W_break, s, x)"
  shows "eq_inv (ego t (EQ_ret (gpr_of s t 3)) (z\<lparr>es_lv2 := s, es_q := x, es_granted := es_granted z - {t}\<rparr>))"
proof -
  note b = wait_iter_break [OF eq_invD(3) [OF i] op refl]
  show ?thesis
    using b asleep_mono [OF b(3)] by (intro eqs_leave [OF i pc]) (auto simp: remove1_idem)
qed

lemma eqs_stop:
  assumes i: "eq_inv z" and pc: "es_pc z t = EQ_wait n"
    and op: "wait_iter (\<lambda>t y. t \<in> set (eq_pq y)) eq_expire t False c (es_lv2 z) (es_q z) = Some (W_return, s, x)"
  shows "eq_inv (ego t EQ_again (z\<lparr>es_lv2 := s, es_q := x\<rparr>))"
proof -
  note b = wait_iter_stop [OF op]
  have "asleep s (set (pq_of z)) (es_granted z)" unfolding b(3) by (rule asleep_add [OF eq_invD(3) [OF i]]) auto
  then show ?thesis
    using b eq_invD(1) [OF i] asleep_disjoint [OF eq_invD(3) [OF i]]
    by (intro eqs_quiet [OF i, where t = t]) (auto simp: eq_store_def got_event_def)
qed

lemma eqs_timeout:
  assumes i: "eq_inv z" and pc: "es_pc z t = EQ_wait n" and op: "eq_expire t (add_flags t {F_wait} (es_lv2 z)) (es_q z) = Some (s, x)"
  shows "eq_inv (ego t (EQ_ret (gpr_of s t 3)) (z\<lparr>es_lv2 := s, es_q := x, es_granted := es_granted z - {t}\<rparr>))"
proof -
  have "asleep (add_flags t {F_wait} (es_lv2 z)) (set (pq_of z)) (es_granted z)"
    by (rule asleep_add [OF eq_invD(3) [OF i]]) auto
  then have a: "asleep (add_flags t {F_wait} (es_lv2 z)) (set (pq_of z) - {t}) (es_granted z - {t})"
    by (rule asleep_mono) auto
  have "(s = add_flags t {F_wait} (es_lv2 z) \<or> s = set_gpr t 3 CELL_ETIMEDOUT (add_flags t {F_wait} (es_lv2 z)))
    \<and> x = (es_q z)\<lparr>eq_pq := remove1 t (pq_of z)\<rparr>"
    using op by (auto simp: eq_expire_def unqueue_def remove1_idem split: if_splits)
  then show ?thesis using a by (intro eqs_leave [OF i pc]) auto
qed

lemma take_events_split: "take_events n m evs = Some (got, left) \<Longrightarrow> evs = got @ left"
  by (induction n m evs arbitrary: got left rule: take_events.induct) (auto split: if_splits)

text \<open>The thread takes events off the queue and stays outside: poll and drain.\<close>

lemma eqs_poll:
  assumes i: "eq_inv z" and pc: "es_pc z t = EQ_idle" and ev: "evs_of z = got @ left"
  shows "eq_inv (z\<lparr>es_q := (es_q z)\<lparr>eq_events := left\<rparr>, es_taken := es_taken z @ map (Pair t) got\<rparr>)" (is "eq_inv ?z")
proof -
  have "got_event ?z u = got_event z u" if "u \<noteq> t" for u
    using that by (auto simp: got_event_def map_add_def map_of_eq_None_iff split: option.splits dest: map_of_SomeD)
  moreover have "eq_store ?z" using eq_invD(1) [OF i] ev by (auto simp: eq_store_def comp_def)
  ultimately show ?thesis
    using eq_invD(3) [OF i] eqs_idle [OF i pc] pc by (intro eqs_quiet [OF i, where t = t]) auto
qed

lemma cancel_regs:
  "asleep (fold (\<lambda>t. set_gpr t 3 v) ts s) W G = asleep s W G" "event_regs (fold (\<lambda>t. set_gpr t 3 v) ts s) u = event_regs s u"
  "flags_of (fold (\<lambda>t. set_gpr t 3 v) ts s) u = flags_of s u"
  "gpr_of (fold (\<lambda>t. set_gpr t 3 v) ts s) u 3 = (if u \<in> set ts then v else gpr_of s u 3)"
  by (induction ts arbitrary: s) auto

lemma eqs_destroy:
  fixes e :: env
  assumes i: "eq_inv z" and pc: "es_pc z (cur e) = EQ_idle" and na: "\<not> some_again (es_lv2 z) (pq_of z)"
    and op: "eq_cancel_all e (es_lv2 z) ((es_q z)\<lparr>obj_exists := 0\<rparr>) = Some (mail, s, x)"
  shows "eq_inv (z\<lparr>es_lv2 := s, es_q := x, es_granted := set (pq_of z) \<union> es_granted z\<rparr>)" (is "eq_inv ?z")
proof -
  let ?s = "fold (\<lambda>t. set_gpr t 3 CELL_ECANCELED) (pq_of z) (es_lv2 z)"
  have c: "cur e \<notin> set (pq_of z) \<union> es_granted z" by (rule eqs_idle [OF i pc])
  have x: "obj_awake_all e (append_all (pq_of z) ?s) = Some s" "x = (es_q z)\<lparr>obj_exists := 0, eq_pq := []\<rparr>"
    using op eq_invD(1) [OF i] by (auto simp: eq_cancel_all_def eq_store_def)
  have s: "asleep s {} (set (pq_of z) \<union> es_granted z)" "same_regs ?s s"
    using wake_all_spec [of ?s "set (pq_of z)" "es_granted z" "pq_of z" e] cancel_regs(1) eq_invD(3) [OF i] x(1) by auto
  have R: "event_regs s u = event_regs (es_lv2 z) u" "gpr_of s u 3 = (if u \<in> set (pq_of z) then CELL_ECANCELED else gpr_of (es_lv2 z) u 3)"
    "F_again \<in> flags_of s u \<longleftrightarrow> F_again \<in> flags_of (es_lv2 z) u" for u
    using same_regsD [OF s(2), of u] event_regs_eq [of s u ?s] cancel_regs(2-4) by simp_all
  have "emoved z ?z u" if "u \<noteq> cur e" for u
    using R na by (cases "u \<in> set (pq_of z)") (auto simp: emoved_def got_event_def served_def some_again_def x)
  moreover have "eq_store ?z" using eq_invD(1) [OF i] by (auto simp: eq_store_def x)
  ultimately show ?thesis using s(1) c pc by (intro eq_inv_move [OF i, where t = "cur e"]) (auto simp: x)
qed

lemma eqs_others:
  assumes i: "eq_inv z" and o': "others_act (set (pq_of z)) (es_granted z) {t. es_pc z t \<noteq> EQ_idle} (es_lv2 z) s"
  shows "eq_inv (z\<lparr>es_lv2 := s\<rparr>)" (is "eq_inv ?z")
proof -
  have "epc_ok ?z t (es_pc z t)" for t
    using eq_invD(4) [OF i, of t] o' by (cases "es_pc z t") (auto simp: others_act_def served_def event_regs_def got_event_def)
  then show ?thesis using eq_invD(1,2) [OF i] asleep_others [OF eq_invD(3) [OF i] o'] by (simp add: eq_inv_def eq_store_def)
qed

lemma eqs_return:
  assumes i: "eq_inv z" and pc: "es_pc z t = EQ_ret r"
  shows "eq_inv (ego t EQ_idle z)"
  using eq_invD(1,3) [OF i] eq_invD(4) [OF i, of t] pc
  by (intro eqs_quiet [OF i, where t = t]) (auto simp: eq_store_def got_event_def)

lemma eq_inv_step: "eq_step z z' \<Longrightarrow> eq_inv z \<Longrightarrow> eq_inv z'"
proof (induction rule: eq_step.induct)
  case (eq_poll z t n got left)
  then show ?case using take_events_split eqs_poll by blast
next
  case (eq_drain z t)
  then show ?case using eqs_poll [of z t "evs_of z" "[]"] by simp
qed (blast intro: eqs_accept eqs_refuse eqs_take eqs_block eqs_break eqs_stop eqs_timeout eqs_destroy eqs_return eqs_others)+

section \<open>Properties\<close>

definition eq_runs :: "lv2 \<Rightarrow> lv2_event_queue \<Rightarrow> eq_sys \<Rightarrow> bool" where
  "eq_runs s x z \<longleftrightarrow> eq_step\<^sup>*\<^sup>* (eq_start s x) z"

abbreviation live_queue :: "u32 \<Rightarrow> int \<Rightarrow> u64 \<Rightarrow> u64 \<Rightarrow> u32 \<Rightarrow> lv2_event_queue" where
  "live_queue protocol sz name key v \<equiv> (new_event_queue protocol SYS_PPU_QUEUE sz name key v)\<lparr>obj_exists := 1\<rparr>"

lemma eq_runs_inv:
  assumes "kernel_ready s" "0 < sz" "sz \<le> 127" "eq_runs s (live_queue protocol sz name key v) z"
  shows "eq_inv z"
  using assms(4) unfolding eq_runs_def
proof (induction rule: rtranclp_induct)
  case base
  show ?case using assms(1-3)
    by (simp add: eq_inv_def eq_store_def eq_start_def new_event_queue_def asleep_def)
qed (blast intro: eq_inv_step)

text \<open>C6: Events are delivered exactly once and in the order they were sent, under every interleaving of sends,
  receives, polls, drains, time-outs and destruction: the accepted events are those that have left the queue, in
  order, followed by those it still stores. At most 127 events, and never more than its size, are stored, and none while a thread waits.\<close>

theorem event_queue_fifo:
  assumes "kernel_ready s" "0 < sz" "sz \<le> 127" "eq_runs s (live_queue protocol sz name key v) z"
  shows "es_sent z = map snd (es_taken z) @ evs_of z \<and> length (evs_of z) \<le> eq_size (es_q z) \<and> eq_size (es_q z) \<le> 127
    \<and> (pq_of z \<noteq> [] \<longrightarrow> evs_of z = [])"
  using eq_invD(1) [OF eq_runs_inv [OF assms]] by (auto simp: eq_store_def)

lemma eq_exit:
  assumes "eq_step z z'" "eq_inv z" "es_pc z t = EQ_wait n" "es_pc z' t = EQ_ret r"
  shows "r = CELL_OK \<and> t \<in> es_granted z \<and> got_event z t = Some (event_regs (es_lv2 z') t)
    \<or> r = CELL_ECANCELED \<and> t \<in> es_granted z \<and> obj_exists (es_q z) = 0 \<or> r = CELL_ETIMEDOUT \<and> t \<in> set (pq_of z) \<and> t \<notin> set (pq_of z')"
  using assms
proof (induction rule: eq_step.induct)
  case (eq_break z u m c s x)
  have u: "u = t" using eq_break(4,5) by (cases "u = t") auto
  note b = wait_iter_break [OF eq_invD(3) [OF eq_break(3)] eq_break(2) refl]
  have "served z t \<and> t \<in> es_granted z" using eq_invD(4) [OF eq_break(3), of t] eq_break(4) b(2) u by auto
  then show ?case using eq_break(5) b(4) [of t] event_regs_eq [of s t "es_lv2 z"] u by (auto simp: served_def)
next
  case (eq_timeout z u m s x)
  have u: "u = t" using eq_timeout(5,6) by (cases "u = t") auto
  have o': "epc_ok z t (EQ_wait n)" using eq_invD(4) [OF eq_timeout(4), of t] eq_timeout(5) by simp
  show ?case
  proof (cases "t \<in> set (pq_of z)")
    case True
    then show ?thesis
      using eq_timeout(3,6) u eq_invD(2) [OF eq_timeout(4)] by (auto simp: eq_expire_def unqueue_def split: if_splits)
  next
    case False
    then have "s = add_flags t {F_wait} (es_lv2 z)" "served z t" "t \<in> es_granted z"
      using eq_timeout(3) u o' by (auto simp: eq_expire_def unqueue_def split: if_splits)
    then show ?thesis using eq_timeout(6) u by (auto simp: served_def)
  qed
qed (auto split: if_splits)


lemma take_events_total: "n + int (length evs) \<le> 127 \<Longrightarrow> take_events n m evs \<noteq> None"
  by (induction n m evs rule: take_events.induct) auto

lemma eq_send_returns:
  fixes e :: env
  assumes i: "eq_inv z"
  shows "\<exists>out. eq_send e spus port ev (es_lv2 z) (es_q z) = Some out
      \<and> (so_err out = CELL_OK
        \<or> so_err out = CELL_EBUSY \<and> length (evs_of z) = eq_size (es_q z) \<or> so_err out = CELL_ENOTCONN \<and> obj_exists (es_q z) = 0
        \<or> so_err out = CELL_EAGAIN \<and> some_again (es_lv2 z) (pq_of z))"
proof -
  have b: "eq_sq (es_q z) = []" "eq_type (es_q z) = SYS_PPU_QUEUE" "length (evs_of z) \<le> eq_size (es_q z)"
    "pq_of z \<noteq> [] \<Longrightarrow> obj_exists (es_q z) \<noteq> 0" using eq_invD(1) [OF i] by (auto simp: eq_store_def)
  show ?thesis
  proof (cases "pq_of z = []")
    case True
    then show ?thesis using b by (auto simp: eq_send_def Let_def)
  next
    case False
    obtain r q where sc: "schedule (ppus (es_lv2 z)) (eq_protocol (es_q z)) (pq_of z) = (r, q)" by fastforce
    then obtain t where t: "r = Some t" "t \<in> set (pq_of z)" using schedule_cases(1,2) [OF sc] False by auto
    then obtain s1 where "obj_awake e t (put_event t ev (es_lv2 z)) = Some s1"
      using wake_one_spec [of "put_event t ev (es_lv2 z)" "set (pq_of z)" "es_granted z" t e] eq_invD(3) [OF i] by auto
    then show ?thesis using b False sc t by (auto simp: eq_send_def Let_def some_again_def)
  qed
qed

text \<open>C29: No system call on an event queue fails an \<^verbatim>\<open>ensure\<close>, dereferences a null pointer or leaves its array of 127 events: on
  every reachable state a send, a poll of any number of events, a time-out and a forced destruction return.
  A send is refused only with \<^verbatim>\<open>CELL_EBUSY\<close> when the queue is full, \<^verbatim>\<open>CELL_ENOTCONN\<close> after its destruction
  and \<^verbatim>\<open>CELL_EAGAIN\<close> when the receiver is being stopped.\<close>

theorem event_queue_total:
  fixes e :: env
  assumes "kernel_ready s" "0 < sz" "sz \<le> 127" "eq_runs s (live_queue protocol sz name key v) z"
  shows "(\<exists>out. eq_send e spus port ev (es_lv2 z) (es_q z) = Some out
      \<and> (so_err out = CELL_OK
        \<or> so_err out = CELL_EBUSY \<and> length (evs_of z) = eq_size (es_q z) \<or> so_err out = CELL_ENOTCONN \<and> obj_exists (es_q z) = 0
        \<or> so_err out = CELL_EAGAIN \<and> some_again (es_lv2 z) (pq_of z)))
    \<and> take_events 0 n (evs_of z) \<noteq> None \<and> eq_expire t s' (es_q z) \<noteq> None \<and> eq_cancel_all e (es_lv2 z) (es_q z) \<noteq> None"
proof -
  note i = eq_runs_inv [OF assms]
  have b: "eq_sq (es_q z) = []" "eq_type (es_q z) = SYS_PPU_QUEUE" "length (evs_of z) \<le> eq_size (es_q z)" "eq_size (es_q z) \<le> 127"
    using eq_invD(1) [OF i] by (auto simp: eq_store_def)
  have "eq_cancel_all e (es_lv2 z) (es_q z) \<noteq> None"
    using wake_all_spec [of "fold (\<lambda>t. set_gpr t 3 CELL_ECANCELED) (pq_of z) (es_lv2 z)" "set (pq_of z)" "es_granted z" "pq_of z" e]
      eq_invD(3) [OF i] b(2) by (auto simp: eq_cancel_all_def cancel_regs)
  moreover have "take_events 0 n (evs_of z) \<noteq> None" using b(3,4) by (intro take_events_total) simp
  moreover have "eq_expire t s' (es_q z) \<noteq> None" by (auto simp: eq_expire_def split: prod.split option.split)
  ultimately show ?thesis using eq_send_returns [OF i] by blast
qed

text \<open>A run in which one thread waits, a second one sends an event, and then one more.\<close>

abbreviation recv_env :: env where "recv_env \<equiv> \<lparr>cur = 0x1000000, e_now = 0, e_tsc = 0\<rparr>"
abbreviation send_env :: env where "send_env \<equiv> \<lparr>cur = 0x1000001, e_now = 0, e_tsc = 0\<rparr>"
abbreviation small_queue :: lv2_event_queue where "small_queue \<equiv> live_queue SYS_SYNC_FIFO 8 0 0 0"
abbreviation (input) no_spus :: spu_threads where "no_spus \<equiv> ppus (lv2_boot 2)"

lemma eq_sample_run:
  obtains z where "eq_runs (lv2_boot 2) small_queue z" "es_pc z 0x1000000 = EQ_wait 0" "es_pc z 0x1000001 = EQ_idle" "pq_of z = [0x1000000]"
    "es_sent z = []" "eq_protocol (es_q z) = SYS_SYNC_FIFO" "obj_exists (es_q z) = 1" "F_again \<notin> flags_of (es_lv2 z) 0x1000000"
proof -
  let ?z0 = "eq_start (lv2_boot 2) small_queue"
  let ?s = "set_gpr (cur recv_env) 3 CELL_OK (es_lv2 ?z0)"
  have p: "is_ppu 0x1000000" by (simp add: is_ppu_def id_type_def)
  have m: "may_sleep 0 (es_lv2 ?z0) (cur recv_env)" "may_sleep 0 ?s (cur recv_env)"
    using p by (simp_all add: may_sleep_def eq_start_def lv2_boot_def fresh_thread_def)
  moreover have "asleep ?s {} {}" using boot_ready by (simp add: asleep_def eq_start_def)
  ultimately obtain s' where s': "enqueue_sleep recv_env 0 [] ?s = Some ([0x1000000], s')" "same_regs ?s s'"
    using enqueue_sleep_spec [of ?s "{}" "{}" 0 recv_env "[]"] by auto
  have na: "F_again \<notin> flags_of s' 0x1000000"
    using same_regsD(2) [OF s'(2), of "0x1000000"] by (simp add: eq_start_def lv2_boot_def fresh_thread_def)
  have "eq_receive recv_env 0 ?s (es_q ?z0) = Some (False, s', small_queue\<lparr>eq_pq := [0x1000000]\<rparr>)"
    using s'(1) by (simp add: eq_receive_def eq_start_def new_event_queue_def)
  then have "eq_step ?z0 (ego (cur recv_env) (EQ_wait 0) (?z0\<lparr>es_lv2 := s', es_q := small_queue\<lparr>eq_pq := [0x1000000]\<rparr>\<rparr>))"
    using m(1) by (intro eq_block) (simp_all add: eq_start_def)
  then have "eq_runs (lv2_boot 2) small_queue (ego (cur recv_env) (EQ_wait 0) (?z0\<lparr>es_lv2 := s', es_q := small_queue\<lparr>eq_pq := [0x1000000]\<rparr>\<rparr>))"
    by (simp add: eq_runs_def)
  then show thesis by (rule that) (use na in \<open>simp_all add: eq_start_def new_event_queue_def\<close>)
qed

lemma eq_sample_sent:
  obtains z where "eq_runs (lv2_boot 2) small_queue z" "es_sent z = [(1, 2, 3, 4)]" "es_taken z = [(0x1000000, 1, 2, 3, 4)]" "pq_of z = []"
proof -
  obtain z where z: "eq_runs (lv2_boot 2) small_queue z" "es_pc z 0x1000001 = EQ_idle" "pq_of z = [0x1000000]" "es_sent z = []"
    "obj_exists (es_q z) = 1" "F_again \<notin> flags_of (es_lv2 z) 0x1000000" by (rule eq_sample_run) blast
  note i = eq_runs_inv [OF boot_ready _ _ z(1), simplified]
  have t: "es_taken z = []" using eq_invD(1) [OF i] z(4) by (simp add: eq_store_def)
  obtain out where out: "eq_send send_env no_spus False (1, 2, 3, 4) (es_lv2 z) (es_q z) = Some out" using eq_send_returns [OF i] by blast
  have ok: "so_err out = CELL_OK \<and> hand_over z (1, 2, 3, 4) = [(0x1000000, 1, 2, 3, 4)] \<and> eq_pq (so_queue out) = []"
    using i out
  proof (cases rule: eq_send_cases)
    case stopped
    then show ?thesis using eq_send_returns [OF i, of send_env no_spus False "(1, 2, 3, 4)"] out z by (auto simp: some_again_def)
  qed (use z in auto)
  then have "eq_step z (ego (cur send_env) (EQ_ret CELL_OK) (z\<lparr>es_lv2 := so_lv2 out, es_q := so_queue out, es_sent := es_sent z @ [(1, 2, 3, 4)],
      es_taken := es_taken z @ hand_over z (1, 2, 3, 4), es_granted := fst ` set (hand_over z (1, 2, 3, 4)) \<union> es_granted z\<rparr>))" (is "eq_step z ?z")
    using z(2) out by (intro eq_accept) simp_all
  then have "eq_runs (lv2_boot 2) small_queue ?z" using z(1) by (simp add: eq_runs_def rtranclp.rtrancl_into_rtrancl)
  then show thesis by (rule that) (use ok t z(4) in simp_all)
qed

theorem event_queue_fifo_witness:
  "\<exists>z. eq_runs (lv2_boot 2) small_queue z \<and> es_sent z = [(1, 2, 3, 4)] \<and> es_taken z = [(0x1000000, 1, 2, 3, 4)] \<and> evs_of z = []"
proof -
  obtain z where z: "eq_runs (lv2_boot 2) small_queue z" "es_sent z = [(1, 2, 3, 4)]" "es_taken z = [(0x1000000, 1, 2, 3, 4)]"
    by (rule eq_sample_sent) blast
  then show ?thesis using event_queue_fifo [OF boot_ready _ _ z(1)] by auto
qed

theorem event_queue_total_witness:
  "\<exists>z out. eq_runs (lv2_boot 2) small_queue z \<and> pq_of z = [0x1000000]
     \<and> eq_send send_env no_spus True (1, 2, 3, 4) (es_lv2 z) (es_q z) = Some out \<and> take_events 0 200 (evs_of z) \<noteq> None"
proof -
  obtain z where z: "eq_runs (lv2_boot 2) small_queue z" "pq_of z = [0x1000000]" by (rule eq_sample_run) blast
  then show ?thesis using event_queue_total [OF boot_ready _ _ z(1)] by fastforce
qed


end
