(* ===== verification/Sys_Cond.thy ===== *)
theory Sys_Cond
  imports Sys_Mutex Lv2_Waiters
begin

text \<open>
  Condition variables: \<^verbatim>\<open>kernel/cellos/src/sys_cond.cpp\<close>. A condition variable belongs to a mutex, whose
  \<^verbatim>\<open>mutex.mutex\<close> protects both. Its waiters sleep in \<open>cond_sq\<close>; a signalled one becomes the owner of the mutex
  or moves on to the queue of the mutex.
\<close>

section \<open>Operations on a condition variable and its mutex\<close>

text \<open>\<^verbatim>\<open>if (cond.mutex->try_own(*cpu)) cond.awake(cpu);\<close>\<close>

definition own_awake :: "env \<Rightarrow> tid \<Rightarrow> lv2 \<Rightarrow> lv2_mutex \<Rightarrow> (lv2 \<times> lv2_mutex) option" where
  "own_awake e t s m =
     (case try_own t s m of
        (True, s1, m1) \<Rightarrow> map_option (\<lambda>s2. (s2, m1)) (obj_awake e t s1)
      | (False, s1, m1) \<Rightarrow> Some (s1, m1))"

definition cond_signal_one :: "env \<Rightarrow> lv2 \<Rightarrow> lv2_mutex \<Rightarrow> tid list \<Rightarrow> (lv2 \<times> lv2_mutex \<times> tid list) option" where
  "cond_signal_one e s m q =
     (case schedule (ppus s) (mtx_protocol m) q of
        (None, _) \<Rightarrow> Some (s, m, q)
      | (Some t, q1) \<Rightarrow>
          if F_again \<in> flags_of s t then Some (add_flags (cur e) {F_again} s, m, q)
          else map_option (\<lambda>(s1, m1). (s1, m1, q1)) (own_awake e t s m))"

text \<open>The loop of \<^verbatim>\<open>sys_cond_signal_all\<close>; \<open>None\<close>: two threads would become the owner, or the loop does not end.\<close>

partial_function (option) own_all :: "tid option \<Rightarrow> tid list \<Rightarrow> lv2 \<Rightarrow> lv2_mutex \<Rightarrow> (tid option \<times> lv2 \<times> lv2_mutex) option" where
  "own_all result q s m =
     (case schedule (ppus s) SYS_SYNC_PRIORITY q of
        (None, _) \<Rightarrow> Some (result, s, m)
      | (Some t, q1) \<Rightarrow>
          (case try_own t s m of
             (own, s1, m1) \<Rightarrow>
               if \<not> own then own_all result q1 s1 m1 else if result \<noteq> None then None else own_all (Some t) q1 s1 m1))"

definition cond_signal_each :: "env \<Rightarrow> lv2 \<Rightarrow> lv2_mutex \<Rightarrow> tid list \<Rightarrow> (lv2 \<times> lv2_mutex \<times> tid list) option" where
  "cond_signal_each e s m q =
     (if some_again s q then Some (add_flags (cur e) {F_again} s, m, q)
      else case own_all None q s m of
        None \<Rightarrow> None
      | Some (None, s1, m1) \<Rightarrow> Some (s1, m1, [])
      | Some (Some t, s1, m1) \<Rightarrow> map_option (\<lambda>s2. (s2, m1, [])) (obj_awake e t s1))"

definition cond_signal_thread :: "env \<Rightarrow> tid \<Rightarrow> lv2 \<Rightarrow> lv2_mutex \<Rightarrow> tid list \<Rightarrow> (bool \<times> lv2 \<times> lv2_mutex \<times> tid list) option" where
  "cond_signal_thread e t s m q =
     (if t \<in> set q then
        if F_again \<in> flags_of s t then Some (False, add_flags (cur e) {F_again} s, m, q)
        else map_option (\<lambda>(s1, m1). (True, s1, m1, snd (unqueue q t))) (own_awake e t s m)
      else Some (False, s, m, q))"

text \<open>
  The part of \<^verbatim>\<open>sys_cond_wait\<close> under the locks. \<open>restored\<close> is \<^verbatim>\<open>ppu.loaded_from_savestate\<close>, \<open>sst\<close> the value read
  from the savestate. The first result is \<^verbatim>\<open>cond.ret\<close>: the recursion count, or -1 for a thread that does not own the mutex.
\<close>

definition cond_wait_begin ::
    "env \<Rightarrow> nat \<Rightarrow> bool \<Rightarrow> u64 \<Rightarrow> lv2 \<Rightarrow> lv2_mutex \<Rightarrow> tid list \<Rightarrow> (int \<times> lv2 \<times> lv2_mutex \<times> tid list) option" where
  "cond_wait_begin e timeout restored sst s m q =
     (if restored then
        if odd sst then
          (case try_own (cur e) s m of
             (True, _) \<Rightarrow> None
           | (False, s1, m1) \<Rightarrow> map_option (\<lambda>(_, s2). (uint (drop_bit 32 sst), s2, m1, q)) (obj_sleep e timeout s1))
        else
          (case emplace (cur e) q s of
             (q1, s1) \<Rightarrow> map_option (\<lambda>(_, s2). (uint (drop_bit 32 sst), s2, m, q1)) (obj_sleep e timeout s1))
      else if mtx_owner m \<noteq> cur e then Some (- 1, s, m, q)
      else
        (case emplace (cur e) q s of
           (q1, s1) \<Rightarrow>
             let cnt = uint (lock_count m); m1 = m\<lparr>lock_count := 0\<rparr> in
             (case reown s1 m1 of
                (None, m2) \<Rightarrow> map_option (\<lambda>(_, s2). (cnt, s2, m2, q1)) (obj_sleep e timeout s1)
              | (Some f, m2) \<Rightarrow>
                  if F_again \<in> flags_of s1 f then
                    (case unqueue q1 (cur e) of
                       (None, _) \<Rightarrow> None
                     | (Some _, q2) \<Rightarrow> Some (0, add_flags (cur e) {F_again} s1, m2, q2))
                  else map_option (\<lambda>(_, s2). (cnt, s2, m2, q1)) (obj_sleep e timeout (append_awake f s1)))))"

text \<open>
  A thread whose time is up takes the mutex, waits for it, or has been signalled already; the flag says
  whether it leaves the loop. \<open>start\<close> is its \<^verbatim>\<open>start_time\<close> before it was rescheduled.
\<close>

definition mutex_resleep :: "env \<Rightarrow> nat \<Rightarrow> lv2 \<Rightarrow> lv2 option" where
  "mutex_resleep e start s = map_option (\<lambda>(_, s1). upd_ppu (cur e) (\<lambda>p. p\<lparr>start_time := start\<rparr>) s1) (obj_sleep e 0 s)"

definition cond_expire :: "env \<Rightarrow> nat \<Rightarrow> lv2 \<Rightarrow> lv2_mutex \<Rightarrow> tid list \<Rightarrow> (bool \<times> lv2 \<times> lv2_mutex \<times> tid list) option" where
  "cond_expire e start s m q =
     (case unqueue q (cur e) of
        (Some _, q1) \<Rightarrow>
          (case try_own (cur e) (set_gpr (cur e) 3 CELL_ETIMEDOUT s) m of
             (True, s1, m1) \<Rightarrow> Some (True, s1, m1, q1)
           | (False, s1, m1) \<Rightarrow> map_option (\<lambda>s2. (False, s2, m1, q1)) (mutex_resleep e start s1))
      | (None, _) \<Rightarrow>
          if mtx_owner m = cur e then Some (True, s, m, q)
          else map_option (\<lambda>s1. (False, s1, m, q)) (mutex_resleep e start s))"

text \<open>One iteration of the wait loop. The last result is the timeout for the next iteration.\<close>

definition cond_wait_iter ::
    "env \<Rightarrow> nat \<Rightarrow> nat \<Rightarrow> bool \<Rightarrow> bool \<Rightarrow> lv2 \<Rightarrow> lv2_mutex \<Rightarrow> tid list \<Rightarrow> (wait_step \<times> lv2 \<times> lv2_mutex \<times> tid list \<times> nat) option" where
  "cond_wait_iter e start timeout timed_out check_state s m q =
     (let fl = flags_of s (cur e) in
      if fl = {} then Some (W_break, s, m, q, timeout)
      else if F_signal \<in> fl then Some (W_break, del_flags (cur e) {F_signal} s, m, q, timeout)
      else if is_stopped fl then
        if cur e \<in> set q \<or> cur e \<in> set (mtx_sq m) then Some (W_return, add_flags (cur e) {F_again} s, m, q, timeout)
        else Some (W_break, s, m, q, timeout)
      else if timeout \<noteq> 0 \<and> timed_out then
        if check_state then Some (W_continue, s, m, q, timeout)
        else map_option (\<lambda>(b, s1, m1, q1). (if b then W_break else W_continue, s1, m1, q1, if b then timeout else 0))
               (cond_expire e start (add_flags (cur e) {F_wait} s) m q)
      else Some (W_continue, s, m, q, timeout))"

text \<open>\<^verbatim>\<open>optional_syscall_state\<close>, which a stopped thread stores for the savestate.\<close>

definition cond_save :: "bool \<Rightarrow> int \<Rightarrow> u64" where
  "cond_save asleep_in_mutex ret = of_bool asleep_in_mutex OR push_bit 32 (ucast (word_of_int ret :: u32))"

text \<open>After the loop: the thread must own the mutex and gets its recursion count back.\<close>

definition cond_wait_end :: "env \<Rightarrow> int \<Rightarrow> lv2_mutex \<Rightarrow> lv2_mutex option" where
  "cond_wait_end e cnt m = (if mtx_owner m = cur e then Some (m\<lparr>lock_count := word_of_int cnt\<rparr>) else None)"

section \<open>System calls\<close>

record sys_cond_attribute_t =
  ca_pshared :: u32
  ca_flags :: u32
  ca_ipc_key :: u64
  ca_name :: u64

definition new_cond :: "u64 \<Rightarrow> u64 \<Rightarrow> u32 \<Rightarrow> nat \<Rightarrow> lv2_cond" where
  "new_cond key name mtx_id mutex0 =
     \<lparr>obj_exists = 0, cond_key = key, cond_name = name, cond_mtx_id = mtx_id, cond_mutex = mutex0, cond_sq = []\<rparr>"

text \<open>A condition variable with its mutex.\<close>

definition cond_at :: "u32 \<Rightarrow> kernel \<Rightarrow> (nat \<times> lv2_cond \<times> lv2_mutex) option" where
  "cond_at v k =
     (case obj_at cond_base_id v k of
        Some (p, O_cond c) \<Rightarrow> (case store k (cond_mutex c) of Some (O_mutex m) \<Rightarrow> Some (p, c, m) | _ \<Rightarrow> None)
      | _ \<Rightarrow> None)"

definition put_cond :: "nat \<Rightarrow> lv2_cond \<Rightarrow> kernel \<Rightarrow> kernel" where
  "put_cond p c k = k\<lparr>store := (store k)(p \<mapsto> O_cond c)\<rparr>"

definition put_cond_mutex :: "nat \<Rightarrow> lv2_cond \<Rightarrow> lv2 \<Rightarrow> lv2_mutex \<Rightarrow> tid list \<Rightarrow> kernel \<Rightarrow> kernel" where
  "put_cond_mutex p c s m q k = put_cond p (c\<lparr>cond_sq := q\<rparr>) (put_mutex (cond_mutex c) m (k\<lparr>sched := s\<rparr>))"

definition sys_cond_create :: "env \<Rightarrow> u32 \<Rightarrow> sys_cond_attribute_t \<Rightarrow> kernel \<Rightarrow> (error_code \<times> u32 option \<times> kernel) option" where
  "sys_cond_create e mutex_id a k =
     (let k1 = enter e k in
      case mutex_at mutex_id k1 of
        None \<Rightarrow> Some (CELL_ESRCH, None, k1)
      | Some (mp, _) \<Rightarrow>
          let ipc_key = get_key (ca_pshared a) (ca_ipc_key a) in
          (case create cond_base_id (ca_pshared a) ipc_key (ca_flags a)
                  (\<lambda>_. O_cond (new_cond ipc_key (ca_name a) mutex_id mp)) True k1 of
             None \<Rightarrow> None
           | Some (err, k2) \<Rightarrow>
               if err \<noteq> 0 then Some (err, None, k2) else Some (CELL_OK, Some (last_id (ids k2)), k2)))"

definition sys_cond_destroy :: "env \<Rightarrow> u32 \<Rightarrow> kernel \<Rightarrow> error_code \<times> kernel" where
  "sys_cond_destroy e v k =
     (case withdraw_obj cond_base_id v
             (\<lambda>p k1. case store k1 p of
                Some (O_cond c) \<Rightarrow>
                  (case store k1 (cond_mutex c) of
                     Some (O_mutex m) \<Rightarrow>
                       if cond_sq c \<noteq> [] then (CELL_EBUSY, k1)
                       else (CELL_OK, on_id_destroy cond_base_id p (cond_key c)
                               (put_mutex (cond_mutex c) (m\<lparr>cond_count := cond_count m - 1\<rparr>) k1))
                   | _ \<Rightarrow> (CELL_ESRCH, k1))
              | _ \<Rightarrow> (CELL_ESRCH, k1)) (enter e k) of
        (None, k1) \<Rightarrow> (CELL_ESRCH, k1)
      | (Some (p, err), k1) \<Rightarrow> (err, k1))"

text \<open>One round of the loop of the signalling calls: \<open>Sig_again\<close> means that the thread is suspended and tries again.\<close>

datatype signal_round = Sig_done error_code | Sig_again

definition signal_round_at ::
    "env \<Rightarrow> u32 \<Rightarrow> bool \<Rightarrow> error_code \<Rightarrow> (lv2 \<Rightarrow> lv2_mutex \<Rightarrow> tid list \<Rightarrow> (error_code \<times> lv2 \<times> lv2_mutex \<times> tid list) option) \<Rightarrow> kernel
      \<Rightarrow> (signal_round \<times> kernel) option" where
  "signal_round_at e v stopped none f k =
     (if stopped then Some (Sig_done CELL_OK, k\<lparr>sched := add_flags (cur e) {F_again} (sched k)\<rparr>)
      else
        let k1 = enter e k in
        (case cond_at v k1 of
           None \<Rightarrow> Some (Sig_done CELL_ESRCH, k1)
         | Some (p, c, m) \<Rightarrow>
             if F_suspend \<in> flags_of (sched k1) (cur e) then Some (Sig_again, k1)
             else if cond_sq c = [] then Some (Sig_done none, k1)
             else map_option (\<lambda>(r, s, m1, q). (Sig_done r, put_cond_mutex p c s m1 q k1)) (f (sched k1) m (cond_sq c))))"

definition sys_cond_signal :: "env \<Rightarrow> u32 \<Rightarrow> bool \<Rightarrow> kernel \<Rightarrow> (signal_round \<times> kernel) option" where
  "sys_cond_signal e v stopped k =
     signal_round_at e v stopped CELL_OK (\<lambda>s m q. map_option (\<lambda>(s1, m1, q1). (CELL_OK, s1, m1, q1)) (cond_signal_one e s m q)) k"

definition sys_cond_signal_all :: "env \<Rightarrow> u32 \<Rightarrow> bool \<Rightarrow> kernel \<Rightarrow> (signal_round \<times> kernel) option" where
  "sys_cond_signal_all e v stopped k =
     signal_round_at e v stopped CELL_OK (\<lambda>s m q. map_option (\<lambda>(s1, m1, q1). (CELL_OK, s1, m1, q1)) (cond_signal_each e s m q)) k"

text \<open>\<open>thread_exists\<close>: the thread id is the id of a PPU thread.\<close>

definition sys_cond_signal_to :: "env \<Rightarrow> u32 \<Rightarrow> bool \<Rightarrow> tid \<Rightarrow> bool \<Rightarrow> kernel \<Rightarrow> (signal_round \<times> kernel) option" where
  "sys_cond_signal_to e v thread_exists t stopped k =
     (if \<not> stopped \<and> \<not> thread_exists then Some (Sig_done CELL_ESRCH, enter e k)
      else signal_round_at e v stopped CELL_EPERM
             (\<lambda>s m q. map_option (\<lambda>(found, s1, m1, q1). (if found then CELL_OK else CELL_EPERM, s1, m1, q1)) (cond_signal_thread e t s m q)) k)"

definition sys_cond_wait ::
    "env \<Rightarrow> u32 \<Rightarrow> nat \<Rightarrow> bool \<Rightarrow> u64 \<Rightarrow> kernel \<Rightarrow> (sys_result \<times> int \<times> kernel) option" where
  "sys_cond_wait e v timeout restored sst k =
     (let k0 = enter e k; k1 = k0\<lparr>sched := set_gpr (cur e) 3 CELL_OK (sched k0)\<rparr> in
      case cond_at v k1 of
        None \<Rightarrow> Some (Done CELL_ESRCH, 0, k1)
      | Some (p, c, m) \<Rightarrow>
          map_option (\<lambda>(r, s, m1, q).
              (if F_again \<in> flags_of s (cur e) then Done CELL_OK else if r < 0 then Done CELL_EPERM else Blocked,
               r, put_cond_mutex p c s m1 q k1))
            (cond_wait_begin e timeout restored sst (sched k1) m (cond_sq c)))"

definition sys_cond_wait_iter ::
    "env \<Rightarrow> nat \<Rightarrow> nat \<Rightarrow> nat \<Rightarrow> bool \<Rightarrow> bool \<Rightarrow> kernel \<Rightarrow> (wait_step \<times> nat \<times> kernel) option" where
  "sys_cond_wait_iter e p start timeout timed_out check_state k =
     (case store k p of
        Some (O_cond c) \<Rightarrow>
          (case store k (cond_mutex c) of
             Some (O_mutex m) \<Rightarrow>
               map_option (\<lambda>(w, s, m1, q, n). (w, n, put_cond_mutex p c s m1 q k))
                 (cond_wait_iter e start timeout timed_out check_state (sched k) m (cond_sq c))
           | _ \<Rightarrow> None)
      | _ \<Rightarrow> None)"

definition sys_cond_wait_end :: "env \<Rightarrow> nat \<Rightarrow> int \<Rightarrow> kernel \<Rightarrow> (u64 \<times> kernel) option" where
  "sys_cond_wait_end e p cnt k =
     (case store k p of
        Some (O_cond c) \<Rightarrow>
          (case store k (cond_mutex c) of
             Some (O_mutex m) \<Rightarrow>
               map_option (\<lambda>m1. (gpr_of (sched k) (cur e) 3, put_mutex (cond_mutex c) m1 k)) (cond_wait_end e cnt m)
           | _ \<Rightarrow> None)
      | _ \<Rightarrow> None)"

end
