(* ===== verification/Cond_Threads.thy ===== *)
theory Cond_Threads
  imports Sys_Cond
begin

text \<open>
  Any number of threads on one condition variable and its mutex. All accesses to the two queues are under
  \<^verbatim>\<open>mutex.mutex\<close>, so each part of a call under that lock is one step. What other threads do to the mutex through
  the mutex calls is one step \<open>cv_mutex\<close> with a rely condition, and the mutex operations are shown to
  keep to it. The step of a time-out includes the rescheduling of the thread in \<^verbatim>\<open>check_state\<close>. \<open>cv_signalled\<close>
  is ghost state: the threads that have been signalled in their wait.
\<close>

section \<open>Steps\<close>

datatype cond_pc = CV_idle | CV_wait nat int | CV_ret u64 | CV_again

record cond_sys =
  cv_lv2 :: lv2
  cv_mtx :: lv2_mutex
  cv_q :: "tid list"
  cv_pc :: "tid \<Rightarrow> cond_pc"
  cv_signalled :: "tid set"

definition cgo :: "tid \<Rightarrow> cond_pc \<Rightarrow> cond_sys \<Rightarrow> cond_sys" where
  "cgo t pc z = z\<lparr>cv_pc := (cv_pc z)(t := pc)\<rparr>"

definition in_wait :: "cond_sys \<Rightarrow> tid set" where
  "in_wait z = {t. (\<exists>n c. cv_pc z t = CV_wait n c) \<or> cv_pc z t = CV_again}"

text \<open>The threads that sleep in one of the queues, and those that have been handed the mutex.\<close>

definition cv_sleepers :: "cond_sys \<Rightarrow> tid set" where
  "cv_sleepers z = set (cv_q z) \<union> (set (mtx_sq (cv_mtx z)) \<inter> in_wait z)"

definition cv_woken :: "cond_sys \<Rightarrow> tid set" where
  "cv_woken z = {t. (\<exists>n c. cv_pc z t = CV_wait n c) \<and> mtx_owner (cv_mtx z) = t}"

text \<open>The mutex by itself.\<close>

definition mutex_wf :: "lv2_mutex \<Rightarrow> bool" where
  "mutex_wf m \<longleftrightarrow> distinct (mtx_sq m) \<and> (\<forall>t\<in>set (mtx_sq m). is_ppu t) \<and> mtx_owner m \<notin> set (mtx_sq m)
     \<and> (mtx_owner m = 0 \<longrightarrow> mtx_sq m = [] \<and> lock_count m = 0)"

text \<open>
  What other threads may do to the mutex and the scheduler: a thread in \<^verbatim>\<open>sys_cond_wait\<close> leaves the queue of the mutex only
  as its new owner, and is then runnable; it keeps the mutex and its registers; the sleeping
  ones are left alone; and the mutex has an owner while threads queue for it.
\<close>

definition cv_rely :: "cond_sys \<Rightarrow> lv2_mutex \<Rightarrow> lv2 \<Rightarrow> bool" where
  "cv_rely z m s \<longleftrightarrow> kernel_ready s \<and> mutex_wf m
     \<and> (\<forall>t\<in>in_wait z. gpr (ppus s t) = gpr (ppus (cv_lv2 z) t)
          \<and> (\<forall>f\<in>{F_signal, F_wait, F_again}. t \<in> cv_sleepers z \<and> mtx_owner m \<noteq> t \<longrightarrow> (f \<in> flags_of s t \<longleftrightarrow> f \<in> flags_of (cv_lv2 z) t))
          \<and> (t \<in> cv_sleepers z \<and> mtx_owner m \<noteq> t \<longrightarrow> t \<notin> set (g_ppu s)) \<and> (t \<in> cv_woken z \<longrightarrow> t \<in> set (g_ppu s))
          \<and> (mtx_owner (cv_mtx z) = t \<longrightarrow> mtx_owner m = t \<and> lock_count m = lock_count (cv_mtx z))
          \<and> (mtx_owner (cv_mtx z) \<noteq> t \<and> mtx_owner m = t \<longrightarrow> t \<in> set (mtx_sq (cv_mtx z)) - set (mtx_sq m)
               \<and> lock_count m = 0 \<and> F_again \<notin> flags_of (cv_lv2 z) t \<and> t \<in> set (g_ppu s))
          \<and> (mtx_owner m \<noteq> t \<longrightarrow> (t \<in> set (mtx_sq m) \<longleftrightarrow> t \<in> set (mtx_sq (cv_mtx z)))))"

text \<open>The state after \<^verbatim>\<open>wait_timeout\<close> and \<^verbatim>\<open>check_state\<close> have returned to a thread whose time is up.\<close>

definition rescheduled :: "cond_sys \<Rightarrow> tid \<Rightarrow> lv2 \<Rightarrow> bool" where
  "rescheduled z t s \<longleftrightarrow> others_act (cv_sleepers z - {t}) (cv_woken z) (in_wait z) (cv_lv2 z) s
     \<and> t \<in> set (g_ppu s) \<and> F_signal \<notin> flags_of s t \<and> F_notify \<notin> flags_of s t
     \<and> (F_again \<in> flags_of s t \<longleftrightarrow> F_again \<in> flags_of (cv_lv2 z) t)"

inductive cond_step :: "cond_sys \<Rightarrow> cond_sys \<Rightarrow> bool" where
  cv_begin: "cv_pc z (cur e) = CV_idle \<Longrightarrow> may_sleep n (cv_lv2 z) (cur e) \<Longrightarrow> cur e \<notin> set (mtx_sq (cv_mtx z)) \<Longrightarrow> F_again \<notin> flags_of (cv_lv2 z) (cur e) \<Longrightarrow>
    cond_wait_begin e n False 0 (set_gpr (cur e) 3 CELL_OK (cv_lv2 z)) (cv_mtx z) (cv_q z) = Some (c, s, m, q) \<Longrightarrow>
    cond_step z (cgo (cur e) (if F_again \<in> flags_of s (cur e) then CV_again else if c < 0 then CV_ret CELL_EPERM else CV_wait n c)
      (z\<lparr>cv_lv2 := s, cv_mtx := m, cv_q := q, cv_signalled := cv_signalled z - {cur e}\<rparr>))"
| cv_signal: "cv_pc z (cur e) = CV_idle \<Longrightarrow> cond_signal_one e (cv_lv2 z) (cv_mtx z) (cv_q z) = Some (s, m, q) \<Longrightarrow>
    cond_step z (z\<lparr>cv_lv2 := s, cv_mtx := m, cv_q := q, cv_signalled := cv_signalled z \<union> (set (cv_q z) - set q)\<rparr>)"
| cv_signal_all: "cv_pc z (cur e) = CV_idle \<Longrightarrow> cond_signal_each e (cv_lv2 z) (cv_mtx z) (cv_q z) = Some (s, m, q) \<Longrightarrow>
    cond_step z (z\<lparr>cv_lv2 := s, cv_mtx := m, cv_q := q, cv_signalled := cv_signalled z \<union> (set (cv_q z) - set q)\<rparr>)"
| cv_signal_to: "cv_pc z (cur e) = CV_idle \<Longrightarrow> cond_signal_thread e t (cv_lv2 z) (cv_mtx z) (cv_q z) = Some (b, s, m, q) \<Longrightarrow>
    cond_step z (z\<lparr>cv_lv2 := s, cv_mtx := m, cv_q := q, cv_signalled := cv_signalled z \<union> (set (cv_q z) - set q)\<rparr>)"
| cv_break: "cv_pc z (cur e) = CV_wait n c \<Longrightarrow>
    cond_wait_iter e st n False ch (cv_lv2 z) (cv_mtx z) (cv_q z) = Some (W_break, s, m, q, k) \<Longrightarrow> cond_wait_end e c m = Some m' \<Longrightarrow>
    cond_step z (cgo (cur e) (CV_ret (gpr_of s (cur e) 3)) (z\<lparr>cv_lv2 := s, cv_mtx := m', cv_q := q\<rparr>))"
| cv_stop: "cv_pc z (cur e) = CV_wait n c \<Longrightarrow>
    cond_wait_iter e st n False ch (cv_lv2 z) (cv_mtx z) (cv_q z) = Some (W_return, s, m, q, k) \<Longrightarrow>
    cond_step z (cgo (cur e) CV_again (z\<lparr>cv_lv2 := s, cv_mtx := m, cv_q := q\<rparr>))"
| cv_late: "cv_pc z (cur e) = CV_wait n c \<Longrightarrow> n \<noteq> 0 \<Longrightarrow> rescheduled z (cur e) s0 \<Longrightarrow>
    cond_expire e st (add_flags (cur e) {F_wait} s0) (cv_mtx z) (cv_q z) = Some (False, s, m, q) \<Longrightarrow>
    cond_step z (cgo (cur e) (CV_wait 0 c) (z\<lparr>cv_lv2 := s, cv_mtx := m, cv_q := q\<rparr>))"
| cv_timeout: "cv_pc z (cur e) = CV_wait n c \<Longrightarrow> n \<noteq> 0 \<Longrightarrow> rescheduled z (cur e) s0 \<Longrightarrow>
    cond_expire e st (add_flags (cur e) {F_wait} s0) (cv_mtx z) (cv_q z) = Some (True, s, m, q) \<Longrightarrow> cond_wait_end e c m = Some m' \<Longrightarrow>
    cond_step z (cgo (cur e) (CV_ret (gpr_of s (cur e) 3)) (z\<lparr>cv_lv2 := s, cv_mtx := m', cv_q := q\<rparr>))"
| cv_return: "cv_pc z t = CV_ret r \<Longrightarrow> cond_step z (cgo t CV_idle z)"
| cv_mutex: "cv_rely z m s \<Longrightarrow> cond_step z (z\<lparr>cv_lv2 := s, cv_mtx := m\<rparr>)"

definition cond_start :: "lv2 \<Rightarrow> lv2_mutex \<Rightarrow> cond_sys" where
  "cond_start s m = \<lparr>cv_lv2 = s, cv_mtx = m, cv_q = [], cv_pc = (\<lambda>_. CV_idle), cv_signalled = {}\<rparr>"

section \<open>Invariant\<close>

text \<open>Where a waiting thread is, and what its result register says.\<close>

definition cv_result :: "cond_sys \<Rightarrow> tid \<Rightarrow> u64" where
  "cv_result z t = (if t \<in> cv_signalled z then CELL_OK else CELL_ETIMEDOUT)"

fun cpc_ok :: "cond_sys \<Rightarrow> tid \<Rightarrow> cond_pc \<Rightarrow> bool" where
  "cpc_ok z t (CV_wait n c) = (0 \<le> c \<and> c < 2 ^ 32 \<and> is_ppu t \<and>
     (if t \<in> set (cv_q z) then gpr_of (cv_lv2 z) t 3 = CELL_OK \<and> t \<notin> cv_signalled z \<and> mtx_owner (cv_mtx z) \<noteq> t
      else gpr_of (cv_lv2 z) t 3 = cv_result z t
        \<and> (if mtx_owner (cv_mtx z) = t then t \<notin> set (mtx_sq (cv_mtx z)) \<and> lock_count (cv_mtx z) = 0 else t \<in> set (mtx_sq (cv_mtx z)))))"
| "cpc_ok z t CV_again = ((t \<in> set (cv_q z) \<union> set (mtx_sq (cv_mtx z)) \<longrightarrow> F_again \<in> flags_of (cv_lv2 z) t) \<and> (mtx_owner (cv_mtx z) = t \<longrightarrow> t \<notin> set (mtx_sq (cv_mtx z))) \<and> is_ppu t)"
| "cpc_ok z t _ = (t \<notin> set (cv_q z))"

definition cv_queues :: "cond_sys \<Rightarrow> bool" where
  "cv_queues z \<longleftrightarrow> distinct (cv_q z) \<and> mutex_wf (cv_mtx z) \<and> set (cv_q z) \<inter> set (mtx_sq (cv_mtx z)) = {}
     \<and> mtx_owner (cv_mtx z) \<notin> set (cv_q z)"

definition cond_inv :: "cond_sys \<Rightarrow> bool" where
  "cond_inv z \<longleftrightarrow> cv_queues z \<and> asleep (cv_lv2 z) (cv_sleepers z) (cv_woken z) \<and> (\<forall>t. cpc_ok z t (cv_pc z t))"

lemma cgo_sel [simp]:
  "cv_lv2 (cgo t pc z) = cv_lv2 z" "cv_mtx (cgo t pc z) = cv_mtx z" "cv_q (cgo t pc z) = cv_q z"
  "cv_pc (cgo t pc z) = (cv_pc z)(t := pc)" "cv_signalled (cgo t pc z) = cv_signalled z"
  by (simp_all add: cgo_def)

lemma cond_invD:
  assumes "cond_inv z"
  shows "cv_queues z" "asleep (cv_lv2 z) (cv_sleepers z) (cv_woken z)" "cpc_ok z t (cv_pc z t)"
    "mutex_wf (cv_mtx z)" "distinct (cv_q z)" "t \<in> set (cv_q z) \<Longrightarrow> t \<notin> set (mtx_sq (cv_mtx z))"
    "t \<in> set (cv_q z) \<Longrightarrow> t \<in> in_wait z" "mtx_owner (cv_mtx z) \<notin> set (cv_q z)" "mtx_owner (cv_mtx z) \<notin> set (mtx_sq (cv_mtx z))"
proof -
  show 1: "cv_queues z" "asleep (cv_lv2 z) (cv_sleepers z) (cv_woken z)" "cpc_ok z t (cv_pc z t)"
    using assms by (auto simp: cond_inv_def)
  show "mutex_wf (cv_mtx z)" "distinct (cv_q z)" "t \<in> set (cv_q z) \<Longrightarrow> t \<notin> set (mtx_sq (cv_mtx z))"
    "mtx_owner (cv_mtx z) \<notin> set (cv_q z)" "mtx_owner (cv_mtx z) \<notin> set (mtx_sq (cv_mtx z))"
    using 1(1) by (auto simp: cv_queues_def mutex_wf_def)
  show "t \<in> set (cv_q z) \<Longrightarrow> t \<in> in_wait z" using 1(3) by (cases "cv_pc z t") (auto simp: in_wait_def)
qed

text \<open>A thread not taking the step keeps its place, is signalled, or is handed the mutex.\<close>

definition cmoved :: "cond_sys \<Rightarrow> cond_sys \<Rightarrow> tid \<Rightarrow> bool" where
  "cmoved z z' u \<longleftrightarrow> (u \<in> set (cv_q z') \<longrightarrow> u \<in> set (cv_q z)) \<and> (u \<in> in_wait z \<longrightarrow>
       gpr (ppus (cv_lv2 z') u) = gpr (ppus (cv_lv2 z) u)) \<and> (u \<in> in_wait z \<longrightarrow>
       (u \<in> cv_sleepers z \<and> F_again \<in> flags_of (cv_lv2 z) u \<longrightarrow> F_again \<in> flags_of (cv_lv2 z') u)
       \<and> (u \<in> set (cv_q z') \<longleftrightarrow> u \<in> set (cv_q z)) \<and> (u \<in> set (mtx_sq (cv_mtx z')) \<longleftrightarrow> u \<in> set (mtx_sq (cv_mtx z)))
         \<and> (mtx_owner (cv_mtx z') = u \<longleftrightarrow> mtx_owner (cv_mtx z) = u)
         \<and> (mtx_owner (cv_mtx z) = u \<longrightarrow> lock_count (cv_mtx z') = lock_count (cv_mtx z))
         \<and> (u \<in> cv_signalled z' \<longleftrightarrow> u \<in> cv_signalled z)
       \<or> F_again \<notin> flags_of (cv_lv2 z) u \<and> u \<notin> set (cv_q z')
         \<and> (u \<in> set (cv_q z) \<and> u \<in> cv_signalled z' \<or> u \<notin> set (cv_q z) \<and> u \<in> set (mtx_sq (cv_mtx z)) \<and> (u \<in> cv_signalled z' \<longleftrightarrow> u \<in> cv_signalled z))
         \<and> (if mtx_owner (cv_mtx z') = u then u \<notin> set (mtx_sq (cv_mtx z')) \<and> lock_count (cv_mtx z') = 0 else u \<in> set (mtx_sq (cv_mtx z'))))"

lemma cmoved_ok:
  assumes i: "cond_inv z" and m: "cmoved z z' u" and pc: "cv_pc z' u = cv_pc z u"
  shows "cpc_ok z' u (cv_pc z' u)"
proof (cases "cv_pc z u")
  case (CV_wait n c)
  then have w: "u \<in> in_wait z" by (simp add: in_wait_def)
  show ?thesis using m pc cond_invD(3) [OF i, of u] w CV_wait by (simp add: cmoved_def) (auto simp: cv_result_def split: if_splits)
next
  case CV_again
  then have w: "u \<in> in_wait z" by (simp add: in_wait_def)
  then have sl: "u \<in> cv_sleepers z \<longleftrightarrow> u \<in> set (cv_q z) \<union> set (mtx_sq (cv_mtx z))" by (auto simp: cv_sleepers_def)
  show ?thesis using m pc cond_invD(3) [OF i, of u] w CV_again by (simp add: cmoved_def sl) (auto split: if_splits)
qed (use m pc cond_invD(3) [OF i, of u] in \<open>auto simp: cmoved_def\<close>)

lemma cond_inv_move:
  assumes i: "cond_inv z" and q: "cv_queues z'" and a: "asleep (cv_lv2 z') (cv_sleepers z') (cv_woken z')"
    and t: "cpc_ok z' t (cv_pc z' t)" and pc: "\<And>u. u \<noteq> t \<Longrightarrow> cv_pc z' u = cv_pc z u" and m: "\<And>u. u \<noteq> t \<Longrightarrow> cmoved z z' u"
  shows "cond_inv z'"
proof -
  have "cpc_ok z' u (cv_pc z' u)" for u using t cmoved_ok [OF i m pc, of u] by (cases "u = t") auto
  then show ?thesis using q a by (simp add: cond_inv_def)
qed

lemma in_wait_go [simp]:
  "in_wait (cgo t pc z) = (if (\<exists>n c. pc = CV_wait n c) \<or> pc = CV_again then insert t (in_wait z) else in_wait z - {t})"
  by (auto simp: in_wait_def)

lemma in_wait_upd [simp]:
  "in_wait (z\<lparr>cv_lv2 := s\<rparr>) = in_wait z" "in_wait (z\<lparr>cv_mtx := m\<rparr>) = in_wait z" "in_wait (z\<lparr>cv_q := q\<rparr>) = in_wait z"
  "in_wait (z\<lparr>cv_signalled := g\<rparr>) = in_wait z"
  by (simp_all add: in_wait_def)

lemma free_mutex: "mutex_wf m \<Longrightarrow> mtx_owner m = 0 \<Longrightarrow> mtx_sq m = [] \<and> lock_count m = 0"
  by (simp add: mutex_wf_def)

lemma wait_ppu: "cond_inv z \<Longrightarrow> t \<in> in_wait z \<Longrightarrow> is_ppu t"
  using cond_invD(3) [of z t] by (auto simp: in_wait_def)

text \<open>A signalled thread, not yet woken if it has become the owner.\<close>

definition signalled :: "tid \<Rightarrow> lv2 \<Rightarrow> lv2_mutex \<Rightarrow> cond_sys \<Rightarrow> cond_sys" where
  "signalled t s m z = z\<lparr>cv_lv2 := s, cv_mtx := m, cv_q := remove1 t (cv_q z), cv_signalled := insert t (cv_signalled z)\<rparr>"

lemma signal_one:
  fixes e :: env
  assumes i: "cond_inv z" and pc: "cv_pc z (cur e) = CV_idle" and t: "t \<in> set (cv_q z)" "F_again \<notin> flags_of (cv_lv2 z) t"
    and op: "own_awake e t (cv_lv2 z) (cv_mtx z) = Some (s, m)"
  shows "cond_inv (signalled t s m z)" (is "cond_inv ?z")
proof -
  have p: "t \<in> in_wait z" "is_ppu t" "t \<noteq> 0" using cond_invD(7) [OF i t(1)] wait_ppu [OF i] is_ppu_pos by auto
  have d: "distinct (cv_q z)" "t \<notin> set (mtx_sq (cv_mtx z))" "mutex_wf (cv_mtx z)" using cond_invD(4,5,6) [OF i] t(1) by auto
  have tw: "t \<in> cv_sleepers z" using t(1) by (simp add: cv_sleepers_def)
  have dj: "set (cv_q z) \<inter> set (mtx_sq (cv_mtx z)) = {}" using cond_invD(6) [OF i] by blast
  obtain n c where w: "cv_pc z t = CV_wait n c" using cond_invD(3) [OF i, of t] t by (cases "cv_pc z t") auto
  show ?thesis
  proof (cases "mtx_owner (cv_mtx z) = 0")
    case True
    then have m: "m = (cv_mtx z)\<lparr>mtx_owner := t\<rparr>" "obj_awake e t (cv_lv2 z) = Some s" using op by (auto simp: own_awake_def try_own_def)
    have f: "mtx_sq (cv_mtx z) = []" "lock_count (cv_mtx z) = 0" using free_mutex [OF d(3) True] by auto
    have s: "asleep s (cv_sleepers z - {t}) (insert t (cv_woken z))" "same_regs (cv_lv2 z) s"
      using wake_one_spec [OF cond_invD(2) [OF i] tw, of e] m(2) by auto
    have "cv_queues ?z" using d f p dj by (auto simp: cv_queues_def mutex_wf_def signalled_def m)
    moreover have "asleep s (cv_sleepers ?z) (cv_woken ?z)"
      using f d(1) by (intro asleep_mono [OF s(1)]) (auto simp: cv_sleepers_def cv_woken_def signalled_def m)
    moreover have "cmoved z ?z u" if "u \<noteq> t" for u
      using that same_regsD [OF s(2)] True wait_ppu [OF i, of u] is_ppu_pos by (auto simp: cmoved_def signalled_def m)
    moreover have "gpr_of s t 3 = CELL_OK" using cond_invD(3) [OF i, of t] w t(1) same_regsD(1) [OF s(2)] by simp
    ultimately show ?thesis
      using w p d f cond_invD(3) [OF i, of t] by (intro cond_inv_move [OF i, where t = t]) (auto simp: signalled_def m cv_result_def)
  next
    case False
    then have m: "m = (cv_mtx z)\<lparr>mtx_sq := t # mtx_sq (cv_mtx z)\<rparr>" "s = stamp_order t (cv_lv2 z)" using op by (auto simp: own_awake_def try_own_def)
    note s = asleep_emplace(2) [OF cond_invD(2) [OF i], of t]
    have "cv_queues ?z" using d p False dj cond_invD(8) [OF i] t(1) by (auto simp: cv_queues_def mutex_wf_def signalled_def m)
    moreover have "asleep s (cv_sleepers ?z) (cv_woken ?z)"
      unfolding m using p t(1) d(1) by (intro asleep_mono [OF s]) (auto simp: cv_sleepers_def cv_woken_def signalled_def in_wait_def)
    moreover have "cmoved z ?z u" if "u \<noteq> t" for u
      using that by (auto simp: cmoved_def signalled_def m)
    ultimately show ?thesis
      using w p d cond_invD(3) [OF i, of t] t(1) False by (intro cond_inv_move [OF i, where t = t]) (auto simp: signalled_def m cv_result_def)
  qed
qed

lemma step_stopped_signal:
  assumes i: "cond_inv z" and pc: "cv_pc z t = CV_idle"
  shows "cond_inv (z\<lparr>cv_lv2 := add_flags t {F_again} (cv_lv2 z)\<rparr>)" (is "cond_inv ?z")
proof -
  have "asleep (add_flags t {F_again} (cv_lv2 z)) (cv_sleepers z) (cv_woken z)" by (rule asleep_add [OF cond_invD(2) [OF i]]) auto
  then show ?thesis
    using cond_invD(1) [OF i] cond_invD(3) [OF i, of t] pc
    by (intro cond_inv_move [OF i, where t = t]) (auto simp: cmoved_def cv_queues_def cv_sleepers_def cv_woken_def in_wait_def)
qed

lemma signalled_alt:
  assumes "distinct (cv_q z)" "t \<in> set (cv_q z)"
  shows "z\<lparr>cv_lv2 := s, cv_mtx := m, cv_q := remove1 t (cv_q z), cv_signalled := cv_signalled z \<union> (set (cv_q z) - set (remove1 t (cv_q z)))\<rparr> = signalled t s m z"
proof -
  have "cv_signalled z \<union> (set (cv_q z) - set (remove1 t (cv_q z))) = insert t (cv_signalled z)" using assms by auto
  then show ?thesis by (simp add: signalled_def)
qed

lemma cvs_signal:
  fixes e :: env
  assumes i: "cond_inv z" and pc: "cv_pc z (cur e) = CV_idle" and op: "cond_signal_one e (cv_lv2 z) (cv_mtx z) (cv_q z) = Some (s, m, q)"
  shows "cond_inv (z\<lparr>cv_lv2 := s, cv_mtx := m, cv_q := q, cv_signalled := cv_signalled z \<union> (set (cv_q z) - set q)\<rparr>)"
proof -
  obtain r q' where sc: "schedule (ppus (cv_lv2 z)) (mtx_protocol (cv_mtx z)) (cv_q z) = (r, q')" by fastforce
  show ?thesis
  proof (cases r)
    case None
    then show ?thesis using op sc i by (auto simp: cond_signal_one_def)
  next
    case (Some t)
    note t = schedule_cases(2) [OF sc Some]
    show ?thesis
    proof (cases "F_again \<in> flags_of (cv_lv2 z) t")
      case True
      then show ?thesis using op sc Some step_stopped_signal [OF i pc] by (auto simp: cond_signal_one_def)
    next
      case False
      then have "q = remove1 t (cv_q z)" "own_awake e t (cv_lv2 z) (cv_mtx z) = Some (s, m)"
        using op sc Some schedule_cases(3) [OF sc Some] by (auto simp: cond_signal_one_def)
      then show ?thesis using signal_one [OF i pc t False] signalled_alt [OF cond_invD(5) [OF i] t] by simp
    qed
  qed
qed

lemma cvs_signal_to:
  fixes e :: env
  assumes i: "cond_inv z" and pc: "cv_pc z (cur e) = CV_idle" and op: "cond_signal_thread e t (cv_lv2 z) (cv_mtx z) (cv_q z) = Some (b, s, m, q)"
  shows "cond_inv (z\<lparr>cv_lv2 := s, cv_mtx := m, cv_q := q, cv_signalled := cv_signalled z \<union> (set (cv_q z) - set q)\<rparr>)"
proof (cases "t \<in> set (cv_q z) \<and> F_again \<notin> flags_of (cv_lv2 z) t")
  case True
  then have "q = remove1 t (cv_q z)" "own_awake e t (cv_lv2 z) (cv_mtx z) = Some (s, m)"
    using op by (auto simp: cond_signal_thread_def unqueue_def)
  then show ?thesis using signal_one [OF i pc] True signalled_alt [OF cond_invD(5) [OF i]] by simp
next
  case False
  then show ?thesis using op i step_stopped_signal [OF i pc] by (auto simp: cond_signal_thread_def split: if_splits)
qed

lemma own_all_Nil [simp]: "own_all r [] s m = Some (r, s, m)"
  by (subst own_all.simps) (simp add: schedule_def)

text \<open>All waiters move to the queue of an owned mutex.\<close>

lemma own_all_queue:
  assumes "distinct q" "\<not> some_again s q" "mtx_owner m \<noteq> 0"
  shows "\<exists>us s'. own_all r q s m = Some (r, s', m\<lparr>mtx_sq := us @ mtx_sq m\<rparr>) \<and> set us = set q \<and> distinct us
    \<and> same_regs s s' \<and> (\<forall>W G. asleep s W G \<longrightarrow> asleep s' W G)"
  using assms
proof (induction "length q" arbitrary: q s m)
  case 0
  then show ?case by (intro exI [of _ "[]"] exI [of _ s]) simp
next
  case (Suc k)
  obtain x q' where sc: "schedule (ppus s) SYS_SYNC_PRIORITY q = (x, q')" by fastforce
  then obtain t where t: "x = Some t" "t \<in> set q" "q' = remove1 t q"
    using schedule_cases [OF sc] Suc(2,4) by (cases q) (auto simp: some_again_def)
  let ?m = "m\<lparr>mtx_sq := t # mtx_sq m\<rparr>"
  have "k = length q'" "distinct q'" "\<not> some_again (stamp_order t s) q'"
    using t Suc(2-4) by (auto simp: length_remove1 some_again_def)
  from Suc(1) [OF this, of ?m] Suc(5) obtain us s' where us:
    "own_all r q' (stamp_order t s) ?m = Some (r, s', m\<lparr>mtx_sq := (us @ [t]) @ mtx_sq m\<rparr>)" "set us = set q'" "distinct us"
    "same_regs (stamp_order t s) s'" "\<forall>W G. asleep (stamp_order t s) W G \<longrightarrow> asleep s' W G" by auto
  have "own_all r q s m = Some (r, s', m\<lparr>mtx_sq := (us @ [t]) @ mtx_sq m\<rparr>)"
    using sc t us(1) Suc(5) by (subst own_all.simps) (simp add: try_own_def)
  moreover have "set (us @ [t]) = set q" "distinct (us @ [t])" using us t Suc(3) by auto
  moreover have "same_regs s s'" using us(4) by (simp add: same_regs_def)
  ultimately show ?case using us(5) asleep_emplace(2) by blast
qed

lemma own_all_free:
  assumes "distinct q" "\<not> some_again s q" "mtx_owner m = 0" "q \<noteq> []" "\<forall>t\<in>set q. t \<noteq> 0"
  shows "\<exists>t us s'. own_all None q s m = Some (Some t, s', m\<lparr>mtx_owner := t, mtx_sq := us @ mtx_sq m\<rparr>) \<and> t \<in> set q \<and> set us = set q - {t}
    \<and> distinct us \<and> same_regs s s' \<and> (\<forall>W G. asleep s W G \<longrightarrow> asleep s' W G)"
proof -
  obtain x q' where sc: "schedule (ppus s) SYS_SYNC_PRIORITY q = (x, q')" by fastforce
  then obtain t where t: "x = Some t" "t \<in> set q" "q' = remove1 t q"
    using schedule_cases [OF sc] assms(2,4) by (cases x) (auto simp: some_again_def)
  have "distinct q'" "\<not> some_again s q'" "mtx_owner (m\<lparr>mtx_owner := t\<rparr>) \<noteq> 0" using assms t by (auto simp: some_again_def dest: notin_set_remove1)
  from own_all_queue [OF this, of "Some t"] obtain us s' where us: "own_all (Some t) q' s (m\<lparr>mtx_owner := t\<rparr>) = Some (Some t, s', m\<lparr>mtx_owner := t, mtx_sq := us @ mtx_sq m\<rparr>)"
    "set us = set q'" "distinct us" "same_regs s s'" "\<forall>W G. asleep s W G \<longrightarrow> asleep s' W G" by auto
  have "own_all None q s m = Some (Some t, s', m\<lparr>mtx_owner := t, mtx_sq := us @ mtx_sq m\<rparr>)"
    using sc t us(1) assms(3) by (subst own_all.simps) (simp add: try_own_def)
  then show ?thesis using us t assms(1) by auto
qed

definition all_signalled :: "lv2 \<Rightarrow> lv2_mutex \<Rightarrow> cond_sys \<Rightarrow> cond_sys" where
  "all_signalled s m z = z\<lparr>cv_lv2 := s, cv_mtx := m, cv_q := [], cv_signalled := cv_signalled z \<union> set (cv_q z)\<rparr>"

lemma signal_each_cases:
  fixes e :: env
  assumes i: "cond_inv z" and na: "\<not> some_again (cv_lv2 z) (cv_q z)"
  obtains (queued) us s where "mtx_owner (cv_mtx z) \<noteq> 0 \<or> cv_q z = []" "set us = set (cv_q z)" "distinct us" "same_regs (cv_lv2 z) s"
      "asleep s (cv_sleepers z) (cv_woken z)"
      "cond_signal_each e (cv_lv2 z) (cv_mtx z) (cv_q z) = Some (s, (cv_mtx z)\<lparr>mtx_sq := us @ mtx_sq (cv_mtx z)\<rparr>, [])"
  | (owned) t us s where "mtx_owner (cv_mtx z) = 0" "t \<in> set (cv_q z)" "set us = set (cv_q z) - {t}" "distinct us" "same_regs (cv_lv2 z) s"
      "asleep s (cv_sleepers z - {t}) (insert t (cv_woken z))"
      "cond_signal_each e (cv_lv2 z) (cv_mtx z) (cv_q z) = Some (s, (cv_mtx z)\<lparr>mtx_owner := t, mtx_sq := us @ mtx_sq (cv_mtx z)\<rparr>, [])"
proof (cases "mtx_owner (cv_mtx z) \<noteq> 0 \<or> cv_q z = []")
  case True
  have "\<exists>us s. own_all None (cv_q z) (cv_lv2 z) (cv_mtx z) = Some (None, s, (cv_mtx z)\<lparr>mtx_sq := us @ mtx_sq (cv_mtx z)\<rparr>) \<and> set us = set (cv_q z)
    \<and> distinct us \<and> same_regs (cv_lv2 z) s \<and> (\<forall>W G. asleep (cv_lv2 z) W G \<longrightarrow> asleep s W G)"
  proof (cases "cv_q z = []")
    case True
    then show ?thesis by (intro exI [of _ "[]"] exI [of _ "cv_lv2 z"]) simp
  next
    case False
    then show ?thesis using True own_all_queue [OF cond_invD(5) [OF i] na, of "cv_mtx z" None] by blast
  qed
  then obtain us s where "own_all None (cv_q z) (cv_lv2 z) (cv_mtx z) = Some (None, s, (cv_mtx z)\<lparr>mtx_sq := us @ mtx_sq (cv_mtx z)\<rparr>)"
    "set us = set (cv_q z)" "distinct us" "same_regs (cv_lv2 z) s" "\<forall>W G. asleep (cv_lv2 z) W G \<longrightarrow> asleep s W G" by blast
  with True na cond_invD(2) [OF i] show thesis by (intro queued [of us s]) (auto simp: cond_signal_each_def)
next
  case False
  have "t \<noteq> 0" if "t \<in> set (cv_q z)" for t using that wait_ppu [OF i cond_invD(7) [OF i]] is_ppu_pos by fastforce
  then obtain t us s1 where o': "own_all None (cv_q z) (cv_lv2 z) (cv_mtx z) = Some (Some t, s1, (cv_mtx z)\<lparr>mtx_owner := t, mtx_sq := us @ mtx_sq (cv_mtx z)\<rparr>)"
    "t \<in> set (cv_q z)" "set us = set (cv_q z) - {t}" "distinct us" "same_regs (cv_lv2 z) s1" "\<forall>W G. asleep (cv_lv2 z) W G \<longrightarrow> asleep s1 W G"
    using own_all_free [OF cond_invD(5) [OF i] na, of "cv_mtx z"] False by auto
  have a1: "asleep s1 (cv_sleepers z) (cv_woken z)" "t \<in> cv_sleepers z" using o'(2,6) cond_invD(2) [OF i] by (auto simp: cv_sleepers_def)
  then obtain s where "obj_awake e t s1 = Some s" "asleep s (cv_sleepers z - {t}) (insert t (cv_woken z))" "same_regs s1 s"
    using wake_one_spec [of s1 "cv_sleepers z" "cv_woken z" t e] by auto
  with o' False na show thesis by (intro owned [of t us s]) (auto simp: cond_signal_each_def same_regs_def)
qed

lemma queue_waits:
  assumes i: "cond_inv z" and t: "t \<in> set (cv_q z)" "F_again \<notin> flags_of (cv_lv2 z) t"
  shows "\<exists>n c. cv_pc z t = CV_wait n c" "t \<in> in_wait z" "is_ppu t" "0 < t" "t \<notin> set (mtx_sq (cv_mtx z))" "mtx_owner (cv_mtx z) \<noteq> t"
    "gpr_of (cv_lv2 z) t 3 = CELL_OK"
  using cond_invD(3) [OF i, of t] cond_invD(6,7) [OF i t(1)] t wait_ppu [OF i, of t] is_ppu_pos [of t]
  by (cases "cv_pc z t"; auto)+

lemma cvs_signal_all:
  fixes e :: env
  assumes i: "cond_inv z" and pc: "cv_pc z (cur e) = CV_idle" and op: "cond_signal_each e (cv_lv2 z) (cv_mtx z) (cv_q z) = Some (s, m, q)"
  shows "cond_inv (z\<lparr>cv_lv2 := s, cv_mtx := m, cv_q := q, cv_signalled := cv_signalled z \<union> (set (cv_q z) - set q)\<rparr>)"
proof (cases "some_again (cv_lv2 z) (cv_q z)")
  case True
  then show ?thesis using op step_stopped_signal [OF i pc] by (auto simp: cond_signal_each_def)
next
  case na: False
  have dj: "set (cv_q z) \<inter> set (mtx_sq (cv_mtx z)) = {}" using cond_invD(6) [OF i] by blast
  have qp: "\<forall>t\<in>set (cv_q z). is_ppu t \<and> t \<in> in_wait z" using cond_invD(7) [OF i] wait_ppu [OF i] by blast
  have c: "cur e \<notin> set (cv_q z)" "cur e \<notin> in_wait z" using cond_invD(3) [OF i, of "cur e"] pc by (auto simp: in_wait_def)
  from i na have "q = [] \<and> cond_inv (all_signalled s m z)"
  proof (cases rule: signal_each_cases [where e = e])
    case (queued us s')
    then have m: "s = s'" "m = (cv_mtx z)\<lparr>mtx_sq := us @ mtx_sq (cv_mtx z)\<rparr>" "q = []" using op by auto
    let ?z = "all_signalled s m z"
    have "cv_queues ?z" using queued(1-3) cond_invD(4,8) [OF i] dj qp by (auto simp: cv_queues_def mutex_wf_def all_signalled_def m)
    moreover have "asleep s (cv_sleepers ?z) (cv_woken ?z)"
      unfolding m(1) using queued(2) qp by (intro asleep_mono [OF queued(5)]) (auto simp: cv_sleepers_def cv_woken_def all_signalled_def m(2) in_wait_def)
    moreover have "cmoved z ?z u" if "u \<noteq> cur e" for u
      using queued(2) same_regsD [OF queued(4), of u] m na queue_waits(5,6) [OF i, of u]
      by (cases "u \<in> set (cv_q z)") (auto simp: cmoved_def all_signalled_def some_again_def)
    ultimately show ?thesis
      using c pc m(3) by (intro conjI cond_inv_move [OF i, where t = "cur e"]) (auto simp: all_signalled_def)
  next
    case (owned t us s')
    then have m: "s = s'" "m = (cv_mtx z)\<lparr>mtx_owner := t, mtx_sq := us @ mtx_sq (cv_mtx z)\<rparr>" "q = []" using op by auto
    let ?z = "all_signalled s m z"
    have f: "mtx_sq (cv_mtx z) = []" "lock_count (cv_mtx z) = 0" using free_mutex [OF cond_invD(4) [OF i] owned(1)] by auto
    have tp: "0 < t" using owned(2) qp is_ppu_pos by blast
    have "cv_queues ?z" using owned(1-4) cond_invD(4) [OF i] dj qp tp by (auto simp: cv_queues_def mutex_wf_def all_signalled_def m)
    moreover have "asleep s (cv_sleepers ?z) (cv_woken ?z)"
      unfolding m(1) using owned(3) f qp by (intro asleep_mono [OF owned(6)]) (auto simp: cv_sleepers_def cv_woken_def all_signalled_def m(2) in_wait_def)
    moreover have "cmoved z ?z u" if "u \<noteq> cur e" for u
      using owned(1,2,3) same_regsD [OF owned(5), of u] m na f wait_ppu [OF i, of u] is_ppu_pos [of u]
      by (cases "u \<in> set (cv_q z)") (auto simp: cmoved_def all_signalled_def some_again_def)
    ultimately show ?thesis
      using c pc m(3) by (intro conjI cond_inv_move [OF i, where t = "cur e"]) (auto simp: all_signalled_def)
  qed
  then show ?thesis by (simp add: all_signalled_def)
qed

text \<open>The thread begins to wait: it leaves the mutex to the next thread.\<close>

lemma cvs_begin_wait:
  fixes e :: env
  assumes i: "cond_inv z" and pc: "cv_pc z (cur e) = CV_idle" and m: "may_sleep n (cv_lv2 z) (cur e)" and c: "cur e \<notin> set (mtx_sq (cv_mtx z))"
    and o': "mtx_owner (cv_mtx z) = cur e" and ws: "set ws \<subseteq> set (mtx_sq (cv_mtx z))" "\<forall>f\<in>set ws. F_again \<notin> flags_of (cv_lv2 z) f"
    and x: "x = (cv_mtx z)\<lparr>lock_count := 0, mtx_owner := f, mtx_sq := sq\<rparr>"
    and f: "ws = [] \<and> mtx_sq (cv_mtx z) = [] \<and> f = 0 \<and> sq = [] \<or> ws = [f] \<and> sq = remove1 f (mtx_sq (cv_mtx z))"
    and op: "obj_sleep e n (append_all ws (snd (emplace (cur e) (cv_q z) (set_gpr (cur e) 3 CELL_OK (cv_lv2 z))))) = Some (r, s)"
    and k: "0 \<le> k" "k < 2 ^ 32"
  shows "cond_inv (cgo (cur e) (CV_wait n k) (z\<lparr>cv_lv2 := s, cv_mtx := x, cv_q := cur e # cv_q z, cv_signalled := cv_signalled z - {cur e}\<rparr>))" (is "cond_inv ?z")
proof -
  let ?s = "snd (emplace (cur e) (cv_q z) (set_gpr (cur e) 3 CELL_OK (cv_lv2 z)))"
  have cq: "cur e \<notin> set (cv_q z)" "cur e \<notin> in_wait z" using cond_invD(3) [OF i, of "cur e"] pc by (auto simp: in_wait_def)
  have a: "asleep ?s (cv_sleepers z) (cv_woken z)" by (rule asleep_emplace(1)) (simp add: cond_invD(2) [OF i])
  have wf: "mutex_wf (cv_mtx z)" by (rule cond_invD(4) [OF i])
  have w0: "cv_woken z = {}" using o' pc by (auto simp: cv_woken_def)
  have e': "flags_of ?s u = flags_of (cv_lv2 z) u" for u using emplace_frame(4) [of "cur e" "cv_q z" "set_gpr (cur e) 3 CELL_OK (cv_lv2 z)" u] by simp
  have "may_sleep n ?s (cur e)" using m e' by (simp add: may_sleep_def)
  moreover have "cur e \<notin> set ws" "\<forall>t\<in>set ws. is_ppu t" using ws c wf by (auto simp: mutex_wf_def)
  ultimately have s: "asleep s (insert (cur e) (cv_sleepers z - set ws)) (set ws \<union> {})" "same_regs ?s s"
    using sleep_spec [OF a, of n e ws] op by (auto simp: w0)
  have R: "gpr (ppus s u) = gpr (ppus (set_gpr (cur e) 3 CELL_OK (cv_lv2 z)) u)" "F_again \<in> flags_of s u \<longleftrightarrow> F_again \<in> flags_of (cv_lv2 z) u" for u
    using same_regsD [OF s(2), of u] emplace_frame(5) [of "cur e" "cv_q z" "set_gpr (cur e) 3 CELL_OK (cv_lv2 z)" u] e' by simp_all
  have sq: "set sq = set (mtx_sq (cv_mtx z)) - set ws" "distinct sq" using f wf by (auto simp: mutex_wf_def)
  have fp: "ws = [f] \<Longrightarrow> is_ppu f \<and> 0 < f \<and> f \<in> set (mtx_sq (cv_mtx z)) \<and> f \<noteq> cur e" using ws wf c is_ppu_pos by (auto simp: mutex_wf_def)
  have p: "is_ppu (cur e)" "0 < cur e" using m is_ppu_pos by (auto simp: may_sleep_def)
  have "cv_queues ?z" using cond_invD(5,6) [OF i] cq c sq f fp wf p wait_ppu [OF i cond_invD(7) [OF i, of 0]] is_ppu_pos [of 0] by (auto simp: cv_queues_def mutex_wf_def x)
  moreover have "cv_sleepers ?z \<subseteq> insert (cur e) (cv_sleepers z - set ws)"
    using sq(1) cond_invD(6) [OF i] ws(1) c by (auto simp: cv_sleepers_def x)
  moreover have "cv_woken ?z \<subseteq> set ws" using f fp p wait_ppu [OF i, of 0] is_ppu_pos [of 0] by (auto simp: cv_woken_def x in_wait_def)
  ultimately have q: "cv_queues ?z" and a': "asleep s (cv_sleepers ?z) (cv_woken ?z)" using asleep_mono [OF s(1)] by auto
  have "cmoved z ?z u" if "u \<noteq> cur e" for u
    using that sq R [of u] f fp ws o' wait_ppu [OF i, of u] is_ppu_pos [of u] cond_invD(6) [OF i, of u] by (auto simp: cmoved_def x)
  then show ?thesis
    using q a' k p cq R(1) [of "cur e"] f fp by (intro cond_inv_move [OF i, where t = "cur e"]) (auto simp: x)
qed

text \<open>A step that changes only flags and registers of the thread, and its place in the program.\<close>

lemma cvs_local:
  assumes i: "cond_inv z" and a: "asleep s (cv_sleepers (cgo t pc z)) (cv_woken (cgo t pc z))"
    and m: "m = (cv_mtx z)\<lparr>lock_count := k\<rparr>" "mtx_owner (cv_mtx z) = t \<and> t \<noteq> 0 \<or> k = lock_count (cv_mtx z)"
    and r: "\<And>u. u \<noteq> t \<Longrightarrow> gpr (ppus s u) = gpr (ppus (cv_lv2 z) u) \<and> (F_again \<in> flags_of s u \<longleftrightarrow> F_again \<in> flags_of (cv_lv2 z) u)"
    and t: "cpc_ok (cgo t pc (z\<lparr>cv_lv2 := s, cv_mtx := m, cv_signalled := cv_signalled z - g\<rparr>)) t pc" and g: "g \<subseteq> {t}"
  shows "cond_inv (cgo t pc (z\<lparr>cv_lv2 := s, cv_mtx := m, cv_signalled := cv_signalled z - g\<rparr>))" (is "cond_inv ?z")
proof -
  have "cv_queues ?z" using cond_invD(1) [OF i] m by (auto simp: cv_queues_def mutex_wf_def)
  moreover have "cv_sleepers ?z = cv_sleepers (cgo t pc z)" "cv_woken ?z = cv_woken (cgo t pc z)"
    by (simp_all add: cv_sleepers_def cv_woken_def m)
  moreover have "cmoved z ?z u" if "u \<noteq> t" for u using r [OF that] m that g by (auto simp: cmoved_def)
  ultimately show ?thesis using a t by (intro cond_inv_move [OF i, where t = t]) auto
qed

lemma cond_wait_begin_own:
  assumes "mtx_owner m = cur e" "emplace (cur e) q s = (q1, s1)" "reown s1 (m\<lparr>lock_count := 0\<rparr>) = (f, m2)"
  shows "cond_wait_begin e n False sst s m q =
    (case f of
       None \<Rightarrow> map_option (\<lambda>(_, s2). (uint (lock_count m), s2, m2, q1)) (obj_sleep e n s1)
     | Some t \<Rightarrow>
         if F_again \<in> flags_of s1 t then
           (case unqueue q1 (cur e) of (None, _) \<Rightarrow> None | (Some _, q2) \<Rightarrow> Some (0, add_flags (cur e) {F_again} s1, m2, q2))
         else map_option (\<lambda>(_, s2). (uint (lock_count m), s2, m2, q1)) (obj_sleep e n (append_all [t] s1)))"
  by (simp add: cond_wait_begin_def Let_def assms append_all_def split: option.split)

lemma cvs_begin:
  fixes e :: env
  assumes i: "cond_inv z" and pc: "cv_pc z (cur e) = CV_idle" and mm: "may_sleep n (cv_lv2 z) (cur e)" and c: "cur e \<notin> set (mtx_sq (cv_mtx z))"
    and na: "F_again \<notin> flags_of (cv_lv2 z) (cur e)"
    and op: "cond_wait_begin e n False 0 (set_gpr (cur e) 3 CELL_OK (cv_lv2 z)) (cv_mtx z) (cv_q z) = Some (k, s, m, q)"
  shows "cond_inv (cgo (cur e) (if F_again \<in> flags_of s (cur e) then CV_again else if k < 0 then CV_ret CELL_EPERM else CV_wait n k)
      (z\<lparr>cv_lv2 := s, cv_mtx := m, cv_q := q, cv_signalled := cv_signalled z - {cur e}\<rparr>))" (is "cond_inv ?z")
proof -
  have cq: "cur e \<notin> set (cv_q z)" "cur e \<notin> in_wait z" "is_ppu (cur e)" using cond_invD(3) [OF i, of "cur e"] pc mm by (auto simp: in_wait_def may_sleep_def)
  let ?s = "set_gpr (cur e) 3 CELL_OK (cv_lv2 z)"
  let ?s1 = "snd (emplace (cur e) (cv_q z) ?s)"
  have E: "emplace (cur e) (cv_q z) ?s = (cur e # cv_q z, ?s1)" using emplace_frame(1) [of "cur e" "cv_q z" ?s] by (simp add: prod_eq_iff)
  have F: "flags_of ?s1 u = flags_of (cv_lv2 z) u" "gpr (ppus ?s1 u) = gpr (ppus ?s u)" for u
    using emplace_frame(4,5) [of "cur e" "cv_q z" ?s u] by simp_all
  have a0: "asleep ?s (cv_sleepers z) (cv_woken z)" "asleep ?s1 (cv_sleepers z) (cv_woken z)"
    using cond_invD(2) [OF i] asleep_emplace(1) [of ?s] by simp_all
  have sub: "cv_sleepers (cgo (cur e) pc' z) = cv_sleepers z \<and> cv_woken (cgo (cur e) pc' z) \<subseteq> cv_woken z" if "pc' = CV_again \<or> (\<exists>r. pc' = CV_ret r)" for pc'
    using that cq c by (auto simp: cv_sleepers_def cv_woken_def)
  show ?thesis
  proof (cases "mtx_owner (cv_mtx z) = cur e")
    case False
    then have x: "k = - 1" "s = ?s" "m = cv_mtx z" "q = cv_q z" using op by (simp_all add: cond_wait_begin_def)
    have "cond_inv (cgo (cur e) (CV_ret CELL_EPERM) (z\<lparr>cv_lv2 := ?s, cv_mtx := cv_mtx z, cv_signalled := cv_signalled z - {cur e}\<rparr>))"
      using cq asleep_mono [OF a0(1), of "cv_sleepers z"] sub [of "CV_ret CELL_EPERM"] by (intro cvs_local [OF i, where k = "lock_count (cv_mtx z)"]) auto
    then show ?thesis using x na by simp
  next
    case own: True
    obtain f m2 where ro: "reown ?s1 ((cv_mtx z)\<lparr>lock_count := 0\<rparr>) = (f, m2)" by fastforce
    obtain r q' where sc: "schedule (ppus ?s1) (mtx_protocol (cv_mtx z)) (mtx_sq (cv_mtx z)) = (r, q')" by fastforce
    note op' = op [unfolded cond_wait_begin_own [OF own E ro]]
    have kb: "uint (lock_count (cv_mtx z)) < 4294967296" using uint_lt2p [of "lock_count (cv_mtx z)"] by simp
    show ?thesis
    proof (cases r)
      case None
      then have x: "f = None" "m2 = (cv_mtx z)\<lparr>lock_count := 0, mtx_owner := 0\<rparr>" "mtx_sq (cv_mtx z) = []"
        using ro sc schedule_cases(1) [OF sc] by (auto simp: reown_def)
      then obtain b where b: "obj_sleep e n ?s1 = Some (b, s)" "k = uint (lock_count (cv_mtx z))" "m = m2" "q = cur e # cv_q z" using op' by auto
      have "F_again \<notin> flags_of s (cur e)" using sleep_spec [OF a0(2), of n e "[]"] b(1) mm cq F na own pc
        by (auto simp: same_regs_def append_all_alt may_sleep_def cv_woken_def)
      moreover have "m = (cv_mtx z)\<lparr>lock_count := 0, mtx_owner := 0, mtx_sq := []\<rparr>" using x b(3) by (cases "cv_mtx z") simp
      ultimately show ?thesis
        using cvs_begin_wait [OF i pc mm c own, where ws = "[]" and x = m and f = 0 and sq = "[]" and r = b and s = s and k = k] x b kb
        by (simp add: append_all_alt)
    next
      case (Some t)
      have t: "f = Some t" "t \<in> set (mtx_sq (cv_mtx z))" using ro sc Some schedule_cases(2) [OF sc Some] by (auto simp: reown_def)
      show ?thesis
      proof (cases "F_again \<in> flags_of (cv_lv2 z) t")
        case True
        then have x: "s = add_flags (cur e) {F_again} ?s1" "m = (cv_mtx z)\<lparr>lock_count := 0\<rparr>" "q = cv_q z"
          using op' ro sc Some t F by (auto simp: reown_def unqueue_def)
        have "asleep s (cv_sleepers z) (cv_woken z)" unfolding x by (rule asleep_add [OF a0(2)]) auto
        then have "cond_inv (cgo (cur e) CV_again (z\<lparr>cv_lv2 := s, cv_mtx := m, cv_signalled := cv_signalled z - {cur e}\<rparr>))"
          using cq own c F x asleep_mono [of s "cv_sleepers z" "cv_woken z"] sub [of CV_again] is_ppu_pos [OF cq(3)]
          by (intro cvs_local [OF i, where k = 0]) auto
        then show ?thesis using x by simp
      next
        case False
        then have x: "m2 = (cv_mtx z)\<lparr>lock_count := 0, mtx_owner := t, mtx_sq := remove1 t (mtx_sq (cv_mtx z))\<rparr>"
          using ro sc Some t F schedule_cases(3) [OF sc Some] by (auto simp: reown_def)
        then obtain b where b: "obj_sleep e n (append_all [t] ?s1) = Some (b, s)" "k = uint (lock_count (cv_mtx z))" "m = m2" "q = cur e # cv_q z"
          using op' t False F by auto
        have "F_again \<notin> flags_of s (cur e)" using sleep_spec [OF a0(2), of n e "[t]"] b(1) mm cq F na own pc c t(2) cond_invD(4) [OF i]
          by (auto simp: same_regs_def may_sleep_def cv_woken_def mutex_wf_def)
        then show ?thesis
          using cvs_begin_wait [OF i pc mm c own, where ws = "[t]" and x = m and f = t and sq = "remove1 t (mtx_sq (cv_mtx z))" and r = b and s = s and k = k] x b False t kb
          by auto
      qed
    qed
  qed
qed

lemma cvs_break:
  fixes e :: env
  assumes i: "cond_inv z" and pc: "cv_pc z (cur e) = CV_wait n c"
    and op: "cond_wait_iter e st n False ch (cv_lv2 z) (cv_mtx z) (cv_q z) = Some (W_break, s, m, q, k)" "cond_wait_end e c m = Some m'"
  shows "cond_inv (cgo (cur e) (CV_ret (gpr_of s (cur e) 3)) (z\<lparr>cv_lv2 := s, cv_mtx := m', cv_q := q\<rparr>))"
proof -
  have s: "m = cv_mtx z" "q = cv_q z" "s = cv_lv2 z \<or> s = del_flags (cur e) {F_signal} (cv_lv2 z)"
    using op(1) by (auto simp: cond_wait_iter_def Let_def split: if_splits)
  have o': "mtx_owner (cv_mtx z) = cur e" "m' = (cv_mtx z)\<lparr>lock_count := word_of_int c\<rparr>" using op(2) s by (auto simp: cond_wait_end_def split: if_splits)
  have p: "is_ppu (cur e)" "cur e \<notin> set (cv_q z)" "cur e \<notin> set (mtx_sq (cv_mtx z))"
    using cond_invD(3) [OF i, of "cur e"] pc o' by (auto split: if_splits)
  have "asleep s (cv_sleepers z) (cv_woken z)" using s(3) cond_invD(2) [OF i] asleep_del by blast
  then have a: "asleep s (cv_sleepers (cgo (cur e) (CV_ret v) z)) (cv_woken (cgo (cur e) (CV_ret v) z))" for v
    by (rule asleep_mono) (use p in \<open>auto simp: cv_sleepers_def cv_woken_def\<close>)
  have "cond_inv (cgo (cur e) (CV_ret (gpr_of s (cur e) 3)) (z\<lparr>cv_lv2 := s, cv_mtx := m', cv_signalled := cv_signalled z - {}\<rparr>))"
    using p s(3) o'(1) is_ppu_pos [OF p(1)] by (intro cvs_local [OF i a o'(2)]) (auto simp: del_flags_def)
  then show ?thesis using s by simp
qed

lemma cvs_stop:
  fixes e :: env
  assumes i: "cond_inv z" and pc: "cv_pc z (cur e) = CV_wait n c"
    and op: "cond_wait_iter e st n False ch (cv_lv2 z) (cv_mtx z) (cv_q z) = Some (W_return, s, m, q, k)"
  shows "cond_inv (cgo (cur e) CV_again (z\<lparr>cv_lv2 := s, cv_mtx := m, cv_q := q\<rparr>))"
proof -
  have s: "m = (cv_mtx z)\<lparr>lock_count := lock_count (cv_mtx z)\<rparr>" "q = cv_q z" "s = add_flags (cur e) {F_again} (cv_lv2 z)" "cur e \<in> set (cv_q z) \<or> cur e \<in> set (mtx_sq (cv_mtx z))"
    using op by (auto simp: cond_wait_iter_def Let_def split: if_splits)
  have p: "is_ppu (cur e)" "mtx_owner (cv_mtx z) \<noteq> cur e" using cond_invD(3) [OF i, of "cur e"] pc s(4) by (auto split: if_splits)
  have "asleep s (cv_sleepers z) (cv_woken z)" unfolding s(3) by (rule asleep_add [OF cond_invD(2) [OF i]]) auto
  then have a: "asleep s (cv_sleepers (cgo (cur e) CV_again z)) (cv_woken (cgo (cur e) CV_again z))"
    by (rule asleep_mono) (use p pc in \<open>auto simp: cv_sleepers_def cv_woken_def in_wait_def\<close>)
  have "cond_inv (cgo (cur e) CV_again (z\<lparr>cv_lv2 := s, cv_mtx := m, cv_signalled := cv_signalled z - {}\<rparr>))"
    using p by (intro cvs_local [OF i a s(1)]) (auto simp: s(1,3))
  then show ?thesis using s(2) by simp
qed

text \<open>The time of a waiting thread is up.\<close>

lemma resched_facts:
  assumes i: "cond_inv z" and r: "rescheduled z t s0" and w: "cv_pc z t = CV_wait n c"
  shows "asleep (add_flags t {F_wait} s0) (cv_sleepers z - {t}) (cv_woken z)" "may_sleep 0 (add_flags t {F_wait} s0) t"
    "\<And>u. gpr (ppus (add_flags t {F_wait} s0) t) = gpr (ppus (cv_lv2 z) t)"
    "\<And>u. u \<in> in_wait z \<Longrightarrow> u \<noteq> t \<Longrightarrow> gpr (ppus (add_flags t {F_wait} s0) u) = gpr (ppus (cv_lv2 z) u)"
    "\<And>u. u \<in> cv_sleepers z \<Longrightarrow> F_again \<in> flags_of (add_flags t {F_wait} s0) u \<longleftrightarrow> F_again \<in> flags_of (cv_lv2 z) u"
proof -
  have "asleep s0 (cv_sleepers z - {t}) (cv_woken z)"
    using r by (intro asleep_others [OF asleep_mono [OF cond_invD(2) [OF i], of "cv_sleepers z - {t}" "cv_woken z"]]) (auto simp: rescheduled_def)
  then show "asleep (add_flags t {F_wait} s0) (cv_sleepers z - {t}) (cv_woken z)" by (rule asleep_add) auto
  show "may_sleep 0 (add_flags t {F_wait} s0) t" using r wait_ppu [OF i, of t] w by (auto simp: may_sleep_def rescheduled_def in_wait_def)
  show "gpr (ppus (add_flags t {F_wait} s0) t) = gpr (ppus (cv_lv2 z) t)"
    using r w by (auto simp: rescheduled_def others_act_def in_wait_def)
  fix u
  show "u \<in> in_wait z \<Longrightarrow> u \<noteq> t \<Longrightarrow> gpr (ppus (add_flags t {F_wait} s0) u) = gpr (ppus (cv_lv2 z) u)"
    using r by (auto simp: rescheduled_def others_act_def)
  show "u \<in> cv_sleepers z \<Longrightarrow> F_again \<in> flags_of (add_flags t {F_wait} s0) u \<longleftrightarrow> F_again \<in> flags_of (cv_lv2 z) u"
    using r by (cases "u = t") (auto simp: rescheduled_def others_act_def)
qed

lemma resleep_spec:
  fixes e :: env
  assumes a: "asleep s (W - {cur e}) G" and m: "may_sleep 0 s (cur e)" and c: "cur e \<notin> G"
  shows "\<exists>s'. mutex_resleep e st s = Some s' \<and> asleep s' (insert (cur e) W) G \<and> same_regs s s'"
proof -
  obtain r s1 where s1: "obj_sleep e 0 s = Some (r, s1)" "asleep s1 (insert (cur e) (W - {cur e})) G" "same_regs s s1"
    using sleep_spec [OF a m c, of "[]"] by (auto simp: append_all_alt)
  let ?s = "upd_ppu (cur e) (\<lambda>p. p\<lparr>start_time := st\<rparr>) s1"
  have "kernel_ready ?s" using asleepD(1) [OF s1(2)] by (intro kernel_ready_upd) auto
  then have "asleep ?s (insert (cur e) W) G" using s1(2) by (auto simp: asleep_def)
  moreover have "same_regs s ?s" using s1(3) by (simp add: same_regs_def)
  ultimately show ?thesis using s1(1) by (simp add: mutex_resleep_def)
qed

text \<open>The outcome of the expiry, on every branch.\<close>

lemma expire_cases:
  fixes e :: env
  assumes i: "cond_inv z" and r: "rescheduled z (cur e) s0" and w: "cv_pc z (cur e) = CV_wait n c"
  obtains (taken) "cur e \<in> set (cv_q z)" "mtx_owner (cv_mtx z) = 0"
      "cond_expire e st (add_flags (cur e) {F_wait} s0) (cv_mtx z) (cv_q z)
        = Some (True, set_gpr (cur e) 3 CELL_ETIMEDOUT (add_flags (cur e) {F_wait} s0), (cv_mtx z)\<lparr>mtx_owner := cur e\<rparr>, remove1 (cur e) (cv_q z))"
  | (queued) s where "cur e \<in> set (cv_q z)" "mtx_owner (cv_mtx z) \<noteq> 0" "asleep s (cv_sleepers z) (cv_woken z)"
      "same_regs (set_gpr (cur e) 3 CELL_ETIMEDOUT (add_flags (cur e) {F_wait} s0)) s"
      "cond_expire e st (add_flags (cur e) {F_wait} s0) (cv_mtx z) (cv_q z)
        = Some (False, s, (cv_mtx z)\<lparr>mtx_sq := cur e # mtx_sq (cv_mtx z)\<rparr>, remove1 (cur e) (cv_q z))"
  | (owner) "cur e \<notin> set (cv_q z)" "mtx_owner (cv_mtx z) = cur e"
      "cond_expire e st (add_flags (cur e) {F_wait} s0) (cv_mtx z) (cv_q z) = Some (True, add_flags (cur e) {F_wait} s0, cv_mtx z, cv_q z)"
  | (sleeps) s where "cur e \<notin> set (cv_q z)" "mtx_owner (cv_mtx z) \<noteq> cur e" "cur e \<in> set (mtx_sq (cv_mtx z))"
      "asleep s (cv_sleepers z) (cv_woken z)" "same_regs (add_flags (cur e) {F_wait} s0) s"
      "cond_expire e st (add_flags (cur e) {F_wait} s0) (cv_mtx z) (cv_q z) = Some (False, s, cv_mtx z, cv_q z)"
proof -
  let ?s = "add_flags (cur e) {F_wait} s0"
  note f = resched_facts [OF i r w]
  have o': "cpc_ok z (cur e) (CV_wait n c)" using cond_invD(3) [OF i, of "cur e"] w by simp
  consider "cur e \<in> set (cv_q z)" "mtx_owner (cv_mtx z) = 0" | "cur e \<in> set (cv_q z)" "mtx_owner (cv_mtx z) \<noteq> 0"
    | "cur e \<notin> set (cv_q z)" "mtx_owner (cv_mtx z) = cur e" | "cur e \<notin> set (cv_q z)" "mtx_owner (cv_mtx z) \<noteq> cur e" by blast
  then show thesis
  proof cases
    case 1
    then show thesis using taken by (simp add: cond_expire_def unqueue_def try_own_def)
  next
    case 2
    let ?s1 = "stamp_order (cur e) (set_gpr (cur e) 3 CELL_ETIMEDOUT ?s)"
    have "asleep ?s1 (cv_sleepers z - {cur e}) (cv_woken z)" "may_sleep 0 ?s1 (cur e)"
      using f(1,2) asleep_emplace(2) [of "set_gpr (cur e) 3 CELL_ETIMEDOUT ?s"] by (auto simp: may_sleep_def)
    moreover have "cur e \<notin> cv_woken z" "cur e \<in> cv_sleepers z" using 2 o' by (auto simp: cv_woken_def cv_sleepers_def)
    ultimately obtain s where "mutex_resleep e st ?s1 = Some s" "asleep s (cv_sleepers z) (cv_woken z)" "same_regs ?s1 s"
      using resleep_spec [of ?s1 "cv_sleepers z" e "cv_woken z" st] by (auto simp: insert_absorb)
    then show thesis using 2 queued [of s] by (auto simp: cond_expire_def unqueue_def try_own_def same_regs_def)
  next
    case 3
    then show thesis using owner by (simp add: cond_expire_def unqueue_def)
  next
    case 4
    then have q: "cur e \<in> set (mtx_sq (cv_mtx z))" using o' by simp
    then have "cur e \<notin> cv_woken z" "cur e \<in> cv_sleepers z" using 4 w by (auto simp: cv_woken_def cv_sleepers_def in_wait_def)
    then obtain s where "mutex_resleep e st ?s = Some s" "asleep s (cv_sleepers z) (cv_woken z)" "same_regs ?s s"
      using resleep_spec [OF f(1,2), of st] by (auto simp: insert_absorb)
    then show thesis using 4 q sleeps [of s] by (auto simp: cond_expire_def unqueue_def)
  qed
qed

lemma cvs_late:
  fixes e :: env
  assumes i: "cond_inv z" and w: "cv_pc z (cur e) = CV_wait n c" and r: "rescheduled z (cur e) s0"
    and op: "cond_expire e st (add_flags (cur e) {F_wait} s0) (cv_mtx z) (cv_q z) = Some (False, s, m, q)"
  shows "cond_inv (cgo (cur e) (CV_wait 0 c) (z\<lparr>cv_lv2 := s, cv_mtx := m, cv_q := q\<rparr>))" (is "cond_inv ?z")
proof -
  note f = resched_facts [OF i r w]
  have o': "cpc_ok z (cur e) (CV_wait n c)" using cond_invD(3) [OF i, of "cur e"] w by simp
  have iw: "cur e \<in> in_wait z" using w by (simp add: in_wait_def)
  have wo: "cv_woken ?z = {t. (\<exists>n c. cv_pc z t = CV_wait n c) \<and> mtx_owner m = t}" using w by (auto simp: cv_woken_def)
  from i r w show ?thesis
  proof (cases rule: expire_cases [where st = st])
    case (queued s')
    then have x: "s = s'" "m = (cv_mtx z)\<lparr>mtx_sq := cur e # mtx_sq (cv_mtx z)\<rparr>" "q = remove1 (cur e) (cv_q z)" using op by auto
    have dj: "set (cv_q z) \<inter> set (mtx_sq (cv_mtx z)) = {}" "cur e \<notin> set (mtx_sq (cv_mtx z))" using cond_invD(6) [OF i] queued(1) by blast+
    have "cv_queues ?z" using dj queued(1,2) cond_invD(4,5,8) [OF i] o' by (auto simp: cv_queues_def mutex_wf_def x)
    moreover have "asleep s (cv_sleepers ?z) (cv_woken ?z)"
      unfolding x(1) using queued(1) iw wo by (intro asleep_mono [OF queued(3)]) (auto simp: cv_sleepers_def cv_woken_def x(2,3))
    moreover have "cmoved z ?z u" if "u \<noteq> cur e" for u
      using that f(4) [of u] f(5) [of u] same_regsD [OF queued(4), of u] by (auto simp: cmoved_def x)
    ultimately show ?thesis
      using o' queued(1,2) same_regsD(1) [OF queued(4), of "cur e"] cond_invD(5) [OF i]
      by (intro cond_inv_move [OF i, where t = "cur e"]) (auto simp: x cv_result_def)
  next
    case (sleeps s')
    then have x: "s = s'" "m = cv_mtx z" "q = cv_q z" using op by auto
    have "cv_sleepers ?z = cv_sleepers z" "cv_woken ?z = cv_woken z" using iw wo by (auto simp: cv_sleepers_def cv_woken_def x)
    moreover have "cmoved z ?z u" if "u \<noteq> cur e" for u
      using that f(4) [of u] f(5) [of u] same_regsD [OF sleeps(5), of u] by (auto simp: cmoved_def x)
    ultimately show ?thesis
      using o' sleeps same_regsD(1) [OF sleeps(5), of "cur e"] f(3) cond_invD(1) [OF i]
      by (intro cond_inv_move [OF i, where t = "cur e"]) (auto simp: x cv_result_def cv_queues_def)
  qed (use op in auto)
qed

lemma cvs_timeout:
  fixes e :: env
  assumes i: "cond_inv z" and w: "cv_pc z (cur e) = CV_wait n c" and r: "rescheduled z (cur e) s0"
    and op: "cond_expire e st (add_flags (cur e) {F_wait} s0) (cv_mtx z) (cv_q z) = Some (True, s, m, q)" "cond_wait_end e c m = Some m'"
  shows "cond_inv (cgo (cur e) (CV_ret (gpr_of s (cur e) 3)) (z\<lparr>cv_lv2 := s, cv_mtx := m', cv_q := q\<rparr>))" (is "cond_inv ?z")
proof -
  note f = resched_facts [OF i r w]
  have o': "cpc_ok z (cur e) (CV_wait n c)" "0 < cur e" using cond_invD(3) [OF i, of "cur e"] w is_ppu_pos by auto
  have x: "q = remove1 (cur e) (cv_q z)" "m' = (cv_mtx z)\<lparr>mtx_owner := cur e, lock_count := word_of_int c\<rparr>"
    "s = set_gpr (cur e) 3 CELL_ETIMEDOUT (add_flags (cur e) {F_wait} s0) \<or> s = add_flags (cur e) {F_wait} s0"
    "mtx_owner (cv_mtx z) = 0 \<or> mtx_owner (cv_mtx z) = cur e"
  proof -
    from i r w have "(q = remove1 (cur e) (cv_q z) \<and> m = (cv_mtx z)\<lparr>mtx_owner := cur e\<rparr>) \<and> (mtx_owner (cv_mtx z) = 0 \<or> mtx_owner (cv_mtx z) = cur e)
      \<and> (s = set_gpr (cur e) 3 CELL_ETIMEDOUT (add_flags (cur e) {F_wait} s0) \<or> s = add_flags (cur e) {F_wait} s0)"
      using op(1) by (cases rule: expire_cases [where st = st]) (auto simp: remove1_idem)
    then show "q = remove1 (cur e) (cv_q z)" "m' = (cv_mtx z)\<lparr>mtx_owner := cur e, lock_count := word_of_int c\<rparr>"
      "s = set_gpr (cur e) 3 CELL_ETIMEDOUT (add_flags (cur e) {F_wait} s0) \<or> s = add_flags (cur e) {F_wait} s0"
      "mtx_owner (cv_mtx z) = 0 \<or> mtx_owner (cv_mtx z) = cur e"
      using op(2) by (auto simp: cond_wait_end_def)
  qed
  have nq: "cur e \<notin> set (mtx_sq (cv_mtx z))"
    using x(4) o' free_mutex [OF cond_invD(4) [OF i]] by (cases "mtx_owner (cv_mtx z) = 0") (auto split: if_splits)
  have "cv_queues ?z" using cond_invD(4,5,6) [OF i] o'(2) nq by (auto simp: cv_queues_def mutex_wf_def x(1,2) dest: notin_set_remove1)
  moreover have "asleep s (cv_sleepers ?z) (cv_woken ?z)"
  proof -
    have "asleep s (cv_sleepers z - {cur e}) (cv_woken z)" using f(1) x(3) by auto
    then show ?thesis by (rule asleep_mono) (use cond_invD(5) [OF i] nq in \<open>auto simp: cv_sleepers_def cv_woken_def x(1,2) split: if_splits\<close>)
  qed
  moreover have "cmoved z ?z u" if "u \<noteq> cur e" for u
    using that f(4) [of u] f(5) [of u] x wait_ppu [OF i, of u] is_ppu_pos [of u] by (auto simp: cmoved_def)
  ultimately show ?thesis
    using cond_invD(5) [OF i] by (intro cond_inv_move [OF i, where t = "cur e"]) (auto simp: x(1,2))
qed

lemma cvs_return:
  assumes i: "cond_inv z" and pc: "cv_pc z t = CV_ret r"
  shows "cond_inv (cgo t CV_idle z)"
proof -
  have "cv_sleepers (cgo t CV_idle z) = cv_sleepers z" "cv_woken (cgo t CV_idle z) = cv_woken z"
    using pc by (auto simp: cv_sleepers_def cv_woken_def in_wait_def)
  then show ?thesis
    using cond_invD(1,2) [OF i] cond_invD(3) [OF i, of t] pc
    by (intro cond_inv_move [OF i, where t = t]) (auto simp: cmoved_def cv_queues_def)
qed

lemma rely_facts:
  assumes i: "cond_inv z" and r: "cv_rely z m s" and t: "t \<in> in_wait z"
  shows "gpr (ppus s t) = gpr (ppus (cv_lv2 z) t)"
    "t \<in> cv_sleepers z \<Longrightarrow> mtx_owner m \<noteq> t \<Longrightarrow> F_again \<in> flags_of (cv_lv2 z) t \<longleftrightarrow> F_again \<in> flags_of s t"
    "mtx_owner (cv_mtx z) = t \<Longrightarrow> mtx_owner m = t \<and> lock_count m = lock_count (cv_mtx z)"
    "mtx_owner (cv_mtx z) \<noteq> t \<Longrightarrow> mtx_owner m = t \<Longrightarrow> t \<in> set (mtx_sq (cv_mtx z)) \<and> t \<notin> set (mtx_sq m) \<and> lock_count m = 0 \<and> F_again \<notin> flags_of (cv_lv2 z) t"
    "mtx_owner m \<noteq> t \<Longrightarrow> t \<in> set (mtx_sq m) \<longleftrightarrow> t \<in> set (mtx_sq (cv_mtx z))"
  using r t by (auto simp: cv_rely_def)

lemma cvs_rely:
  assumes i: "cond_inv z" and r: "cv_rely z m s"
  shows "cond_inv (z\<lparr>cv_lv2 := s, cv_mtx := m\<rparr>)" (is "cond_inv ?z")
proof -
  have wf: "mutex_wf m" "kernel_ready s" "mtx_owner m \<notin> set (mtx_sq m)" using r by (auto simp: cv_rely_def mutex_wf_def)
  have qo: "mtx_owner m \<noteq> t" if "t \<in> set (cv_q z)" for t
    using rely_facts(4) [OF i r cond_invD(7) [OF i that]] cond_invD(6) [OF i that] cond_invD(8) [OF i] that
    by (cases "mtx_owner (cv_mtx z) = t") auto
  have "cv_queues ?z"
    using cond_invD(5) [OF i] wf(1) rely_facts(5) [OF i r cond_invD(7) [OF i]] qo cond_invD(6) [OF i] by (auto simp: cv_queues_def)
  moreover have "asleep s (cv_sleepers ?z) (cv_woken ?z)"
  proof -
    have sl: "t \<in> cv_sleepers z \<and> mtx_owner m \<noteq> t \<and> t \<in> in_wait z" if t: "t \<in> cv_sleepers ?z" for t
      using t qo cond_invD(7) [OF i, of t] rely_facts(5) [OF i r, of t] wf(3) by (auto simp: cv_sleepers_def)
    have "is_ppu t \<and> t \<notin> set (g_ppu s) \<and> F_signal \<notin> flags_of s t \<and> F_wait \<in> flags_of s t" if "t \<in> cv_sleepers ?z" for t
      using sl [OF that] r asleepD(2,4,5) [OF cond_invD(2) [OF i], of t] by (auto simp: cv_rely_def)
    moreover have "t \<in> set (g_ppu s)" if "t \<in> cv_woken ?z" for t
      using that r by (cases "mtx_owner (cv_mtx z) = t") (auto simp: cv_rely_def cv_woken_def in_wait_def)
    ultimately show ?thesis using wf(2) by (simp add: asleep_def)
  qed
  moreover have "cmoved z ?z u" for u
  proof (cases "u \<in> in_wait z \<and> mtx_owner m = u")
    case True
    then show ?thesis
      using rely_facts(1,3,4) [OF i r, of u] qo [of u] cond_invD(8,9) [OF i] wf(3)
      by (cases "mtx_owner (cv_mtx z) = u") (auto simp: cmoved_def cv_sleepers_def)
  next
    case False
    then show ?thesis using rely_facts [OF i r, of u] by (auto simp: cmoved_def)
  qed
  ultimately show ?thesis using cmoved_ok [OF i] by (simp add: cond_inv_def)
qed

lemma cond_inv_step: "cond_step z z' \<Longrightarrow> cond_inv z \<Longrightarrow> cond_inv z'"
  by (induction rule: cond_step.induct)
    (blast intro: cvs_begin cvs_signal cvs_signal_all cvs_signal_to cvs_break cvs_stop cvs_late cvs_timeout cvs_return cvs_rely)+

section \<open>The mutex calls keep to the rely condition\<close>

lemma relyI:
  assumes i: "cond_inv z" and s: "asleep s (cv_sleepers z - {mtx_owner m}) (cv_woken z)" and m: "mutex_wf m"
    and r: "\<And>t. t \<in> in_wait z \<Longrightarrow> gpr (ppus s t) = gpr (ppus (cv_lv2 z) t)"
    and f: "\<And>t. t \<in> cv_sleepers z \<Longrightarrow> mtx_owner m \<noteq> t \<Longrightarrow> F_again \<in> flags_of s t \<longleftrightarrow> F_again \<in> flags_of (cv_lv2 z) t"
    and o': "\<And>t. t \<in> in_wait z \<Longrightarrow> mtx_owner (cv_mtx z) = t \<Longrightarrow> mtx_owner m = t \<and> lock_count m = lock_count (cv_mtx z)"
    and h: "\<And>t. t \<in> in_wait z \<Longrightarrow> mtx_owner (cv_mtx z) \<noteq> t \<Longrightarrow> mtx_owner m = t \<Longrightarrow> t \<in> set (mtx_sq (cv_mtx z)) - set (mtx_sq m)
        \<and> lock_count m = 0 \<and> F_again \<notin> flags_of (cv_lv2 z) t \<and> t \<in> set (g_ppu s)"
    and q: "\<And>t. t \<in> in_wait z \<Longrightarrow> mtx_owner m \<noteq> t \<Longrightarrow> t \<in> set (mtx_sq m) \<longleftrightarrow> t \<in> set (mtx_sq (cv_mtx z))"
  shows "cv_rely z m s"
proof -
  have "f' \<in> flags_of s t \<longleftrightarrow> f' \<in> flags_of (cv_lv2 z) t" if "t \<in> cv_sleepers z" "mtx_owner m \<noteq> t" "f' \<in> {F_signal, F_wait, F_again}" for t f'
    using that f [OF that(1,2)] asleepD(4,5) [OF s, of t] asleepD(4,5) [OF cond_invD(2) [OF i], of t] by auto
  moreover have "t \<notin> set (g_ppu s)" if "t \<in> cv_sleepers z" "mtx_owner m \<noteq> t" for t using that asleepD(3) [OF s, of t] by simp
  moreover have "t \<in> set (g_ppu s)" if "t \<in> cv_woken z" for t using that asleepD(6) [OF s, of t] by simp
  ultimately show ?thesis using asleepD(1) [OF s] m r o' h q by (auto simp: cv_rely_def)
qed

lemma mutex_calls_rely:
  fixes e :: env
  assumes i: "cond_inv z" and u: "cur e \<notin> in_wait z" "is_ppu (cur e)"
  shows "try_lock cas (cur e) (cv_mtx z) = (r, m) \<Longrightarrow> cv_rely z m (cv_lv2 z)"
    and "try_own (cur e) (cv_lv2 z) (cv_mtx z) = (b, s, m) \<Longrightarrow> cur e \<notin> set (mtx_sq (cv_mtx z)) \<Longrightarrow> mtx_owner (cv_mtx z) \<noteq> cur e \<Longrightarrow> cv_rely z m s"
    and "try_unlock cas (cur e) (cv_mtx z) = (r, m) \<Longrightarrow> cv_rely z m (cv_lv2 z)"
    and "mutex_unlock_slow e (cv_lv2 z) (cv_mtx z) = Some (s, m) \<Longrightarrow> mtx_owner (cv_mtx z) = cur e \<Longrightarrow> lock_count (cv_mtx z) = 0 \<Longrightarrow> cv_rely z m s"
    and "mutex_expire (cur e) (cv_lv2 z) (cv_mtx z) = Some (s, m) \<Longrightarrow> cv_rely z m s"
proof -
  note wf = cond_invD(4) [OF i, unfolded mutex_wf_def] and a = cond_invD(2) [OF i]
  have sub: "asleep (cv_lv2 z) (cv_sleepers z - X) (cv_woken z)" for X by (rule asleep_mono [OF a]) auto
  have p: "0 < cur e" "0 \<notin> in_wait z" "\<And>t. t \<in> in_wait z \<Longrightarrow> t \<noteq> 0 \<and> t \<noteq> cur e" using u wait_ppu [OF i] is_ppu_pos by fastforce+
  show "cv_rely z m (cv_lv2 z)" if "try_lock cas (cur e) (cv_mtx z) = (r, m)"
    using that wf p u(1) sub by (intro relyI [OF i]) (auto simp: try_lock_def mutex_wf_def split: if_splits)
  show "cv_rely z m s" if "try_own (cur e) (cv_lv2 z) (cv_mtx z) = (b, s, m)" "cur e \<notin> set (mtx_sq (cv_mtx z))" "mtx_owner (cv_mtx z) \<noteq> cur e"
    using that wf p u sub asleep_emplace(2) [OF sub] by (intro relyI [OF i]) (auto simp: try_own_def mutex_wf_def split: if_splits)
  show "cv_rely z m (cv_lv2 z)" if "try_unlock cas (cur e) (cv_mtx z) = (r, m)"
    using that wf p sub by (intro relyI [OF i]) (auto simp: try_unlock_def mutex_wf_def split: if_splits)
  show "cv_rely z m s" if "mutex_expire (cur e) (cv_lv2 z) (cv_mtx z) = Some (s, m)"
    using that wf p sub by (intro relyI [OF i]) (auto simp: mutex_expire_def mutex_wf_def unqueue_def split: if_splits dest: notin_set_remove1)
  show "cv_rely z m s" if op: "mutex_unlock_slow e (cv_lv2 z) (cv_mtx z) = Some (s, m)" and own: "mtx_owner (cv_mtx z) = cur e" "lock_count (cv_mtx z) = 0"
  proof -
    obtain x q where sc: "schedule (ppus (cv_lv2 z)) (mtx_protocol (cv_mtx z)) (mtx_sq (cv_mtx z)) = (x, q)" by fastforce
    show ?thesis
    proof (cases x)
      case None
      then have "mtx_sq (cv_mtx z) = []" "s = cv_lv2 z" "m = (cv_mtx z)\<lparr>mtx_owner := 0\<rparr>"
        using schedule_cases(1) [OF sc] op sc by (auto simp: mutex_unlock_slow_def reown_def)
      then show ?thesis using own p sub by (intro relyI [OF i]) (auto simp: mutex_wf_def)
    next
      case (Some t)
      have t: "t \<in> set (mtx_sq (cv_mtx z))" "is_ppu t" "0 < t" using schedule_cases(2) [OF sc Some] wf is_ppu_pos by auto
      show ?thesis
      proof (cases "F_again \<in> flags_of (cv_lv2 z) t")
        case True
        then have "s = add_flags (cur e) {F_again} (cv_lv2 z)" "m = cv_mtx z"
          using op sc Some by (auto simp: mutex_unlock_slow_def reown_def mutex_wake_def)
        then show ?thesis
          using wf own p u asleep_add [OF sub, of "{F_again}" "cur e"] cond_invD(7) [OF i, of "cur e"]
          by (intro relyI [OF i]) (auto simp: mutex_wf_def cv_sleepers_def)
      next
        case False
        then have x: "obj_awake e t (cv_lv2 z) = Some s" "m = (cv_mtx z)\<lparr>mtx_owner := t, mtx_sq := remove1 t (mtx_sq (cv_mtx z))\<rparr>"
          using op sc Some schedule_cases(3) [OF sc Some] by (auto simp: mutex_unlock_slow_def reown_def mutex_wake_def)
        have s: "asleep s (cv_sleepers z - {t}) (insert t (cv_woken z))" "same_regs (cv_lv2 z) s"
          using wake_ppu_spec [OF a t(2), of e] x(1) by auto
        have "t \<in> set (g_ppu s)" using asleepD(6) [OF s(1), of t] by simp
        then show ?thesis
          using wf own p t x(2) False same_regsD [OF s(2)] asleep_mono [OF s(1), of "cv_sleepers z - {t}" "cv_woken z"]
          by (intro relyI [OF i]) (auto simp: mutex_wf_def)
      qed
    qed
  qed
qed

section \<open>Properties\<close>

definition cond_runs :: "lv2 \<Rightarrow> lv2_mutex \<Rightarrow> cond_sys \<Rightarrow> bool" where
  "cond_runs s m z \<longleftrightarrow> cond_step\<^sup>*\<^sup>* (cond_start s m) z"

lemma cond_runs_inv:
  assumes "kernel_ready s" "cond_runs s (new_mutex a key) z"
  shows "cond_inv z"
  using assms(2) unfolding cond_runs_def
proof (induction rule: rtranclp_induct)
  case base
  show ?case using assms(1)
    by (simp add: cond_inv_def cv_queues_def mutex_wf_def cond_start_def new_mutex_def asleep_def cv_sleepers_def cv_woken_def in_wait_def)
qed (blast intro: cond_inv_step)

lemma cond_exit:
  assumes "cond_step z z'" "cond_inv z" "cv_pc z t = CV_wait n c" "cv_pc z' t = CV_ret r"
  shows "mtx_owner (cv_mtx z') = t \<and> lock_count (cv_mtx z') = word_of_int c \<and> t \<notin> set (cv_q z')
    \<and> (if t \<in> cv_signalled z then r = CELL_OK else r = CELL_ETIMEDOUT)"
  using assms
proof (induction rule: cond_step.induct)
  case (cv_break z e n' c' st ch s m q k m')
  have t: "cur e = t" using cv_break(5,6) by (cases "cur e = t") auto
  have s: "m = cv_mtx z" "q = cv_q z" "gpr_of s t 3 = gpr_of (cv_lv2 z) t 3"
    using cv_break(2) by (auto simp: cond_wait_iter_def Let_def del_flags_def split: if_splits)
  have o': "mtx_owner (cv_mtx z) = t" "m' = (cv_mtx z)\<lparr>lock_count := word_of_int c'\<rparr>"
    using cv_break(3) s t by (auto simp: cond_wait_end_def split: if_splits)
  show ?case using cv_break(1,5,6) t s o' cond_invD(3) [OF cv_break(4), of t] cond_invD(8) [OF cv_break(4)] by (auto simp: cv_result_def)
next
  case (cv_timeout z e n' c' s0 st s m q m')
  have t: "cur e = t" using cv_timeout(7,8) by (cases "cur e = t") auto
  note i = cv_timeout(6) and w = cv_timeout(1) and r = cv_timeout(3)
  have o': "mtx_owner m = t" "m' = m\<lparr>lock_count := word_of_int c'\<rparr>" using cv_timeout(5) t by (auto simp: cond_wait_end_def split: if_splits)
  have c: "c' = c" using w cv_timeout(7) t by simp
  from i r w have "t \<notin> set q \<and> gpr_of s t 3 = (if t \<in> cv_signalled z then CELL_OK else CELL_ETIMEDOUT)"
  proof (cases rule: expire_cases [where st = st])
    case taken
    then show ?thesis using cv_timeout(4) t cond_invD(3) [OF i, of t] w cond_invD(5) [OF i] by auto
  next
    case owner
    then show ?thesis using cv_timeout(4) t cond_invD(3) [OF i, of t] w resched_facts(3) [OF i r w] by (auto simp: cv_result_def)
  qed (use cv_timeout(4) in auto)
  then show ?case using cv_timeout(8) t o' c by auto
qed (auto split: if_splits)


text \<open>C31: No \<^verbatim>\<open>ensure\<close> of the condition variable calls fails, under every interleaving: signalling one, all or a given thread
  returns (in particular at most one of the threads woken by \<^verbatim>\<open>sys_cond_signal_all\<close> becomes the owner), a thread whose time is up gets
  through, and a thread that leaves the wait loop owns the mutex. A signal takes exactly one waiting thread off the queue, the
  one the protocol selects, and \<^verbatim>\<open>sys_cond_signal_all\<close> empties it, unless a thread is being stopped.\<close>

theorem cond_calls_return:
  fixes e :: env
  assumes "kernel_ready s" "cond_runs s (new_mutex a key) z"
  shows "(\<exists>s' m q. cond_signal_one e (cv_lv2 z) (cv_mtx z) (cv_q z) = Some (s', m, q)
        \<and> (\<not> some_again (cv_lv2 z) (cv_q z) \<and> cv_q z \<noteq> [] \<longrightarrow> q = remove1 (sched_pick (ppus (cv_lv2 z)) (mtx_protocol (cv_mtx z)) (cv_q z)) (cv_q z)))
    \<and> (\<exists>s' m q. cond_signal_each e (cv_lv2 z) (cv_mtx z) (cv_q z) = Some (s', m, q) \<and> (\<not> some_again (cv_lv2 z) (cv_q z) \<longrightarrow> q = []))
    \<and> cond_signal_thread e t (cv_lv2 z) (cv_mtx z) (cv_q z) \<noteq> None
    \<and> (cv_pc z (cur e) = CV_wait n c \<and> rescheduled z (cur e) s0 \<longrightarrow>
        cond_expire e st (add_flags (cur e) {F_wait} s0) (cv_mtx z) (cv_q z) \<noteq> None)
    \<and> (cv_pc z (cur e) = CV_wait n c \<and> cond_wait_iter e st n False ch (cv_lv2 z) (cv_mtx z) (cv_q z) = Some (W_break, s1, m1, q1, k1) \<longrightarrow>
        cond_wait_end e c m1 \<noteq> None)"
proof -
  note i = cond_runs_inv [OF assms]
  have oa: "own_awake e u (cv_lv2 z) (cv_mtx z) \<noteq> None" if "u \<in> set (cv_q z)" for u
    using wake_one_spec [OF cond_invD(2) [OF i], of u e] that by (auto simp: own_awake_def try_own_def cv_sleepers_def split: if_splits)
  have "(\<exists>s' m q. cond_signal_one e (cv_lv2 z) (cv_mtx z) (cv_q z) = Some (s', m, q)
        \<and> (\<not> some_again (cv_lv2 z) (cv_q z) \<and> cv_q z \<noteq> [] \<longrightarrow> q = remove1 (sched_pick (ppus (cv_lv2 z)) (mtx_protocol (cv_mtx z)) (cv_q z)) (cv_q z)))"
    using oa sched_pick_in [of "cv_q z" "ppus (cv_lv2 z)" "mtx_protocol (cv_mtx z)"]
    by (cases "cv_q z = []") (auto simp: cond_signal_one_def schedule_def Let_def some_again_def)
  moreover have "\<exists>s' m q. cond_signal_each e (cv_lv2 z) (cv_mtx z) (cv_q z) = Some (s', m, q) \<and> (\<not> some_again (cv_lv2 z) (cv_q z) \<longrightarrow> q = [])"
  proof (cases "some_again (cv_lv2 z) (cv_q z)")
    case False
    with i show ?thesis by (cases rule: signal_each_cases [where e = e]) auto
  qed (simp add: cond_signal_each_def)
  moreover have "cond_signal_thread e t (cv_lv2 z) (cv_mtx z) (cv_q z) \<noteq> None" using oa by (auto simp: cond_signal_thread_def)
  moreover have "cond_expire e st (add_flags (cur e) {F_wait} s0) (cv_mtx z) (cv_q z) \<noteq> None"
    if "cv_pc z (cur e) = CV_wait n c" "rescheduled z (cur e) s0"
    using i that(2,1) by (cases rule: expire_cases [where st = st]) auto
  moreover have "cond_wait_end e c m1 \<noteq> None" if w: "cv_pc z (cur e) = CV_wait n c"
    and b: "cond_wait_iter e st n False ch (cv_lv2 z) (cv_mtx z) (cv_q z) = Some (W_break, s1, m1, q1, k1)"
  proof -
    have "m1 = cv_mtx z" and fl: "flags_of (cv_lv2 z) (cur e) = {} \<or> F_signal \<in> flags_of (cv_lv2 z) (cur e) \<or> cur e \<notin> set (cv_q z) \<union> set (mtx_sq (cv_mtx z))"
      using b by (auto simp: cond_wait_iter_def Let_def split: if_splits)
    moreover have "cur e \<notin> set (cv_q z) \<union> set (mtx_sq (cv_mtx z))"
      using fl w asleepD(4,5) [OF cond_invD(2) [OF i], of "cur e"] by (auto simp: cv_sleepers_def in_wait_def)
    ultimately show ?thesis using cond_invD(3) [OF i, of "cur e"] w by (auto simp: cond_wait_end_def split: if_splits)
  qed
  ultimately show ?thesis by blast
qed

text \<open>C33: A defect. When \<^verbatim>\<open>sys_cond_wait\<close> finds that the next owner of the mutex is being stopped, it gives up and is to be repeated
  later, still owning the mutex. Its recursion count has already been taken from the mutex, and is lost.\<close>

theorem cond_wait_loses_recursion:
  assumes "mtx_owner m = cur e" "schedule (ppus (snd (emplace (cur e) q s))) (mtx_protocol m) (mtx_sq m) = (Some f, sq)"
    "F_again \<in> flags_of s f" "cur e \<notin> set q"
  shows "\<exists>s'. cond_wait_begin e timeout False 0 s m q = Some (0, s', m\<lparr>lock_count := 0\<rparr>, q) \<and> F_again \<in> flags_of s' (cur e)
    \<and> mtx_owner (m\<lparr>lock_count := 0\<rparr>) = cur e"
proof -
  have E: "emplace (cur e) q s = (cur e # q, snd (emplace (cur e) q s))" using emplace_frame(1) [of "cur e" q s] by (simp add: prod_eq_iff)
  have F: "F_again \<in> flags_of (snd (emplace (cur e) q s)) f" using assms(3) emplace_frame(4) [of "cur e" q s f] by simp
  then have "reown (snd (emplace (cur e) q s)) (m\<lparr>lock_count := 0\<rparr>) = (Some f, m\<lparr>lock_count := 0\<rparr>)"
    using assms(2) by (simp add: reown_def)
  from cond_wait_begin_own [OF assms(1) E this, of timeout 0] show ?thesis using F assms(1) by (simp add: unqueue_def)
qed

text \<open>A run in which one thread owns the mutex and waits.\<close>

definition cond_attr :: sys_mutex_attribute_t where
  "cond_attr = \<lparr>ma_protocol = SYS_SYNC_FIFO, ma_recursive = SYS_SYNC_RECURSIVE, ma_pshared = SYS_SYNC_NOT_PROCESS_SHARED, ma_adaptive = 0,
     ma_ipc_key = 0, ma_flags = 0, ma_name = 0\<rparr>"

abbreviation wait_env :: env where "wait_env \<equiv> \<lparr>cur = 0x1000000, e_now = 0, e_tsc = 0\<rparr>"

lemma cond_sample_run:
  obtains z where "cond_runs (lv2_boot 2) (new_mutex cond_attr 0) z" "cv_pc z 0x1000000 = CV_wait 0 0" "cv_q z = [0x1000000]"
    "F_again \<notin> flags_of (cv_lv2 z) 0x1000000"
proof -
  let ?m = "new_mutex cond_attr 0"
  let ?z0 = "cond_start (lv2_boot 2) ?m" and ?m1 = "?m\<lparr>mtx_owner := 0x1000000\<rparr>"
  let ?z1 = "?z0\<lparr>cv_lv2 := lv2_boot 2, cv_mtx := ?m1\<rparr>"
  let ?s = "set_gpr 0x1000000 3 CELL_OK (lv2_boot 2)"
  let ?s1 = "snd (emplace 0x1000000 [] ?s)"
  have p: "is_ppu 0x1000000" by (simp add: is_ppu_def id_type_def)
  have i0: "cond_inv ?z0" by (rule cond_runs_inv [of "lv2_boot 2" cond_attr 0, OF boot_ready]) (simp add: cond_runs_def)
  have "try_lock True (cur wait_env) (cv_mtx ?z0) = (CELL_OK, ?m1)" by (simp add: try_lock_def cond_start_def new_mutex_def)
  from mutex_calls_rely(1) [OF i0 _ _ this] have 1: "cond_step ?z0 ?z1"
    using p by (intro cv_mutex) (simp add: cond_start_def in_wait_def)
  have a: "asleep ?s1 {} {}" using boot_ready by (intro asleep_emplace(1)) (simp add: asleep_def)
  have m: "may_sleep 0 ?s1 0x1000000" "may_sleep 0 (lv2_boot 2) 0x1000000" "F_again \<notin> flags_of ?s1 0x1000000" "F_again \<notin> flags_of (lv2_boot 2) 0x1000000"
    using p emplace_frame(4) [of "0x1000000" "[]" ?s "0x1000000"] by (simp_all add: may_sleep_def lv2_boot_def fresh_thread_def)
  obtain b s' where s': "obj_sleep wait_env 0 ?s1 = Some (b, s')" "same_regs ?s1 s'"
    using sleep_spec [OF a, of 0 wait_env "[]"] m(1) by (auto simp: append_all_alt)
  let ?m2 = "?m1\<lparr>lock_count := 0, mtx_owner := 0\<rparr>"
  have "cond_wait_begin wait_env 0 False 0 ?s ?m1 [] = Some (0, s', ?m2, [0x1000000])"
    using cond_wait_begin_own [of ?m1 wait_env "[]" ?s "[0x1000000]" ?s1 None ?m2 0 0] s'(1) emplace_frame(1) [of "0x1000000" "[]" ?s]
    by (simp add: reown_def schedule_def new_mutex_def prod_eq_iff)
  then have "cond_step ?z1 (cgo (cur wait_env) (if F_again \<in> flags_of s' (cur wait_env) then CV_again else if (0 :: int) < 0 then CV_ret CELL_EPERM else CV_wait 0 0)
      (?z1\<lparr>cv_lv2 := s', cv_mtx := ?m2, cv_q := [0x1000000], cv_signalled := cv_signalled ?z1 - {cur wait_env}\<rparr>))" (is "cond_step ?z1 ?z2")
    using m by (intro cv_begin) (simp_all add: cond_start_def new_mutex_def)
  with 1 have "cond_runs (lv2_boot 2) ?m ?z2" unfolding cond_runs_def by (meson converse_rtranclp_into_rtranclp rtranclp.rtrancl_refl)
  moreover have "F_again \<notin> flags_of s' 0x1000000" using same_regsD(2) [OF s'(2)] m(3) by blast
  ultimately show thesis by (intro that [of ?z2]) (simp_all add: cond_start_def)
qed


theorem cond_calls_return_witness:
  "\<exists>z s m. cond_runs (lv2_boot 2) (new_mutex cond_attr 0) z \<and> cv_q z = [0x1000000]
     \<and> cond_signal_each \<lparr>cur = 0x1000001, e_now = 0, e_tsc = 0\<rparr> (cv_lv2 z) (cv_mtx z) (cv_q z) = Some (s, m, [])"
proof -
  obtain z where z: "cond_runs (lv2_boot 2) (new_mutex cond_attr 0) z" "cv_q z = [0x1000000]" "F_again \<notin> flags_of (cv_lv2 z) 0x1000000"
    by (rule cond_sample_run) blast
  then show ?thesis using cond_calls_return [OF boot_ready z(1), of "\<lparr>cur = 0x1000001, e_now = 0, e_tsc = 0\<rparr>"] by (auto simp: some_again_def)
qed

theorem cond_wait_loses_recursion_witness:
  "\<exists>s'. cond_wait_begin wait_env 0 False 0 (add_flags 0x1000001 {F_again} (lv2_boot 2))
       ((new_mutex cond_attr 0)\<lparr>lock_count := 3, mtx_owner := 0x1000000, mtx_sq := [0x1000001]\<rparr>) []
     = Some (0, s', (new_mutex cond_attr 0)\<lparr>lock_count := 0, mtx_owner := 0x1000000, mtx_sq := [0x1000001]\<rparr>, [])"
  using cond_wait_loses_recursion [of "(new_mutex cond_attr 0)\<lparr>lock_count := 3, mtx_owner := 0x1000000, mtx_sq := [0x1000001]\<rparr>" wait_env "[]"
      "add_flags 0x1000001 {F_again} (lv2_boot 2)" "0x1000001" "[0x1000001]" 0]
  by (auto simp: schedule_def sched_pick_def Let_def new_mutex_def cond_attr_def emplace_frame(4))

lemma cond_save_read:
  assumes "0 \<le> c" "c < 2 ^ 32"
  shows "odd (cond_save b c) \<longleftrightarrow> b" "uint (drop_bit 32 (cond_save b c)) = c"
proof -
  show "odd (cond_save b c) \<longleftrightarrow> b" by (simp add: cond_save_def even_or_iff)
  have "drop_bit 32 (cond_save b c) = ucast (word_of_int c :: u32)"
    by (rule bit_word_eqI) (auto simp: cond_save_def bit_simps)
  moreover have "uint (word_of_int c :: u32) = c" using assms by (simp add: uint_word_of_int)
  ultimately show "uint (drop_bit 32 (cond_save b c)) = c" using assms by (simp add: unsigned_ucast_eq take_bit_int_eq_self)
qed

text \<open>C32: A thread stopped in \<^verbatim>\<open>sys_cond_wait\<close> and restored from a savestate goes back to sleep in the queue it was in,
  that of the mutex or that of the condition variable, with the recursion count it had saved.\<close>

theorem cond_savestate_roundtrip:
  fixes e :: env
  assumes "asleep s W G" "may_sleep n s (cur e)" "cur e \<notin> G" "0 \<le> c" "c < 2 ^ 32" "b \<longrightarrow> mtx_owner m \<noteq> 0"
  shows "\<exists>s'. cond_wait_begin e n True (cond_save b c) s m q
      = Some (c, s', if b then m\<lparr>mtx_sq := cur e # mtx_sq m\<rparr> else m, if b then q else cur e # q)
    \<and> asleep s' (insert (cur e) W) G \<and> same_regs s s'"
proof (cases b)
  case True
  have "asleep (stamp_order (cur e) s) W G" "may_sleep n (stamp_order (cur e) s) (cur e)"
    using assms(1,2) by (simp_all add: asleep_emplace may_sleep_def)
  from sleep_spec [OF this assms(3), of "[]"] obtain r s' where "obj_sleep e n (stamp_order (cur e) s) = Some (r, s')"
    "asleep s' (insert (cur e) W) G" "same_regs s s'" by (auto simp: append_all_alt same_regs_def)
  then show ?thesis using True assms(6) cond_save_read [OF assms(4,5)] by (simp add: cond_wait_begin_def try_own_def)
next
  case False
  have E: "emplace (cur e) q s = (cur e # q, snd (emplace (cur e) q s))" using emplace_frame(1) [of "cur e" q s] by (simp add: prod_eq_iff)
  have "asleep (snd (emplace (cur e) q s)) W G" "may_sleep n (snd (emplace (cur e) q s)) (cur e)"
    using assms(1,2) emplace_frame(4) [of "cur e" q s] by (simp_all add: asleep_emplace may_sleep_def)
  from sleep_spec [OF this assms(3), of "[]"] obtain r s' where s': "obj_sleep e n (snd (emplace (cur e) q s)) = Some (r, s')"
    "asleep s' (insert (cur e) W) G" "same_regs (snd (emplace (cur e) q s)) s'" by (auto simp: append_all_alt)
  then have "same_regs s s'" using asleep_emplace(3) [of s "cur e" q] by (simp add: same_regs_def)
  then show ?thesis
    using s' False cond_save_read [OF assms(4,5)] by (simp add: cond_wait_begin_def split_beta emplace_frame(1))
qed

theorem cond_savestate_roundtrip_witness:
  "\<exists>s'. cond_wait_begin wait_env 0 True (cond_save True 3) (add_flags 0x1000000 {F_wait} (lv2_boot 2))
       ((new_mutex cond_attr 0)\<lparr>mtx_owner := 0x1000001\<rparr>) []
     = Some (3, s', (new_mutex cond_attr 0)\<lparr>mtx_owner := 0x1000001, mtx_sq := [0x1000000]\<rparr>, [])"
proof -
  have "asleep (add_flags 0x1000000 {F_wait} (lv2_boot 2)) {} {}" using boot_ready by (simp add: asleep_def kernel_ready_flags)
  moreover have "may_sleep 0 (add_flags 0x1000000 {F_wait} (lv2_boot 2)) (cur wait_env)"
    by (simp add: may_sleep_def lv2_boot_def fresh_thread_def is_ppu_def id_type_def)
  ultimately show ?thesis
    using cond_savestate_roundtrip [of _ "{}" "{}" 0 wait_env 3 True "(new_mutex cond_attr 0)\<lparr>mtx_owner := 0x1000001\<rparr>" "[]"] by (fastforce simp: new_mutex_def)
qed

end
