(* ===== verification/Lv2_Drowsy.thy ===== *)
theory Lv2_Drowsy
  imports Lv2_Waiters Sys_Mutex
begin

text \<open>
  Threads on their way to sleep. \<^verbatim>\<open>_sys_lwmutex_lock\<close> enqueues its caller by compare-and-swap, without the
  lock of the object, before it calls \<^verbatim>\<open>sleep\<close>; a thread that is woken in between finds \<^verbatim>\<open>cancel_sleep\<close>
  set to 2 and does not sleep. \<open>drowsy s P Q W G\<close> extends \<open>asleep\<close> by the threads \<open>P\<close> that are about to
  sleep and the threads \<open>Q\<close> whose sleep has been cancelled, with one lemma per kernel operation.
\<close>

text \<open>A running thread that executes kernel code and may go to sleep for \<open>n\<close> microseconds, for every \<open>n\<close>.\<close>

definition runs_quietly :: "lv2 \<Rightarrow> tid \<Rightarrow> bool" where
  "runs_quietly s t \<longleftrightarrow> is_ppu t \<and> t \<in> set (g_ppu s) \<and> unsignalled s t \<and> F_notify \<notin> flags_of s t"

definition nodding :: "lv2 \<Rightarrow> tid \<Rightarrow> bool" where
  "nodding s t \<longleftrightarrow> runs_quietly s t \<and> F_wait \<in> flags_of s t"

definition drowsy :: "lv2 \<Rightarrow> tid set \<Rightarrow> tid set \<Rightarrow> tid set \<Rightarrow> tid set \<Rightarrow> bool" where
  "drowsy s P Q W G \<longleftrightarrow> asleep s W G \<and> (\<forall>t\<in>P. nodding s t \<and> cancel_sleep (ppus s t) = 1)
     \<and> (\<forall>t\<in>Q. nodding s t \<and> cancel_sleep (ppus s t) = 2)"

lemma drowsyD:
  assumes "drowsy s P Q W G"
  shows "asleep s W G" "kernel_ready s" "t \<in> P \<union> Q \<Longrightarrow> nodding s t" "t \<in> P \<union> Q \<Longrightarrow> t \<in> set (g_ppu s)"
    "t \<in> P \<Longrightarrow> cancel_sleep (ppus s t) = 1" "t \<in> Q \<Longrightarrow> cancel_sleep (ppus s t) = 2" "t \<in> P \<union> Q \<Longrightarrow> is_ppu t"
  using assms by (auto simp: drowsy_def asleep_def nodding_def runs_quietly_def)

lemma drowsy_mono: "drowsy s P Q W G \<Longrightarrow> P' \<subseteq> P \<Longrightarrow> Q' \<subseteq> Q \<Longrightarrow> W' \<subseteq> W \<Longrightarrow> G' \<subseteq> G \<Longrightarrow> drowsy s P' Q' W' G'"
  unfolding drowsy_def using asleep_mono by blast

lemma drowsy_disjoint: "drowsy s P Q W G \<Longrightarrow> P \<inter> Q = {} \<and> (P \<union> Q) \<inter> W = {} \<and> W \<inter> G = {}"
  by (fastforce simp: drowsy_def asleep_def nodding_def runs_quietly_def)

text \<open>Changes of other data of the threads.\<close>

lemmas nodding_defs = nodding_def runs_quietly_def unsignalled_def

lemma drowsy_upd:
  assumes "drowsy s P Q W G" "asleep s' W G"
    and "\<And>t. t \<in> P \<union> Q \<Longrightarrow> nodding s t \<Longrightarrow> nodding s' t \<and> cancel_sleep (ppus s' t) = cancel_sleep (ppus s t)"
  shows "drowsy s' P Q W G"
  using assms by (simp add: drowsy_def)

lemma nodding_gpr [simp]: "nodding (set_gpr t r v s) u = nodding s u" "cancel_sleep (ppus (set_gpr t r v s) u) = cancel_sleep (ppus s u)"
  by (simp_all add: nodding_defs set_gpr_def)

lemma drowsy_gpr [simp]: "drowsy (set_gpr t r v s) P Q W G = drowsy s P Q W G"
  by (simp add: drowsy_def)

lemma drowsy_stamp: "drowsy s P Q W G \<Longrightarrow> drowsy (stamp_order t s) P Q W G"
  by (rule drowsy_upd, assumption, rule asleep_emplace(2) [OF drowsyD(1)]) (auto simp: nodding_defs stamp_order_def)

lemma drowsy_add:
  assumes "drowsy s P Q W G" "F \<subseteq> {F_wait, F_again}"
  shows "drowsy (add_flags t F s) P Q W G"
proof (rule drowsy_upd [OF assms(1)])
  show "asleep (add_flags t F s) W G" using assms drowsyD(1) by (intro asleep_add) auto
qed (use assms(2) in \<open>auto simp: nodding_defs add_flags_def\<close>)

lemma drowsy_del: "drowsy s P Q W G \<Longrightarrow> drowsy (del_flags t {F_signal} s) P Q W G"
  by (rule drowsy_upd, assumption, rule asleep_del [OF drowsyD(1)]) (auto simp: nodding_defs del_flags_def)

text \<open>\<^verbatim>\<open>ppu.cancel_sleep = 1;\<close> and \<^verbatim>\<open>ppu.cancel_sleep = 0;\<close>\<close>

lemma asleep_cancel: "asleep s W G \<Longrightarrow> asleep (set_cancel_sleep t n s) W G"
  using ready_cancel [of s t n] by (simp add: asleep_def) (simp add: set_cancel_sleep_def)

lemma nodding_cancel [simp]: "nodding (set_cancel_sleep t n s) u = nodding s u"
  by (simp add: nodding_defs set_cancel_sleep_def)

lemma cancel_sel [simp]: "u \<noteq> t \<Longrightarrow> ppus (set_cancel_sleep t n s) u = ppus s u" "cancel_sleep (ppus (set_cancel_sleep t n s) t) = n"
  "flags_of (set_cancel_sleep t n s) u = flags_of s u" "gpr (ppus (set_cancel_sleep t n s) u) = gpr (ppus s u)"
  "g_ppu (set_cancel_sleep t n s) = g_ppu s"
  by (simp_all add: set_cancel_sleep_def)

lemma drowsy_begin: "drowsy s P Q W G \<Longrightarrow> nodding s t \<Longrightarrow> t \<notin> Q \<Longrightarrow> drowsy (set_cancel_sleep t 1 s) (insert t P) Q W G"
  by (auto simp: drowsy_def asleep_cancel) (auto simp: set_cancel_sleep_def)

lemma nodding_enter: "runs_quietly s t \<Longrightarrow> nodding (add_flags t {F_wait} s) t"
  by (auto simp: nodding_defs add_flags_def)

lemma drowsy_end: "drowsy s P Q W G \<Longrightarrow> drowsy (set_cancel_sleep t 0 s) (P - {t}) (Q - {t}) W G"
  by (simp add: drowsy_def asleep_cancel)

text \<open>Scheduler calls of a thread that is neither about to sleep nor asleep.\<close>

lemma drowsy_sched:
  assumes d: "drowsy s P Q W G" and a: "asleep s' W' G'" and f: "sched_frame s s'"
    and P: "\<And>t. t \<in> P' \<Longrightarrow> t \<in> P \<and> t \<in> set (g_ppu s') \<and> unsignalled s' t \<and> cancel_sleep (ppus s' t) = 1 \<and> F_notify \<notin> flags_of s' t"
    and Q: "\<And>t. t \<in> Q' \<Longrightarrow> t \<in> P \<union> Q \<and> t \<in> set (g_ppu s') \<and> unsignalled s' t \<and> cancel_sleep (ppus s' t) = 2 \<and> F_notify \<notin> flags_of s' t"
  shows "drowsy s' P' Q' W' G'"
proof -
  have "nodding s' t" if "t \<in> P' \<union> Q'" for t
    using that P [of t] Q [of t] drowsyD(3) [OF d, of t] sched_frame_wait [OF f, of t] by (auto simp: nodding_def runs_quietly_def)
  then show ?thesis using a P Q by (auto simp: drowsy_def)
qed

lemma drowsy_awake:
  assumes d: "drowsy s P Q W G" and f: "f \<in> P \<union> W" and c: "cur e \<notin> P \<union> Q" "cur e \<noteq> f"
  shows "\<exists>s'. obj_awake e f s = Some s' \<and> drowsy s' (P - {f}) (if f \<in> P then insert f Q else Q) (W - {f}) (if f \<in> P then G else insert f G)
     \<and> same_regs s s'"
proof -
  have p: "is_ppu f" using f drowsyD(7) [OF d] asleepD(2) [OF drowsyD(1) [OF d]] by auto
  note k = drowsyD(2) [OF d]
  obtain s' where s': "obj_awake e f s = Some s'" "kernel_ready s'" "set (g_ppu s') = insert f (set (g_ppu s))" "sched_frame s s'"
    using obj_awake_spec [OF k p, of e] by blast
  have a: "asleep s' (W - {f}) (if f \<in> P then G else insert f G)"
    using asleepD(3,6) [OF drowsyD(1) [OF d]] s'(3) by (intro asleep_frame [OF drowsyD(1) [OF d] s'(4,2)]) (auto split: if_splits)
  note r = obj_awake_run [OF s'(1) k p]
  have n: "t \<in> set (g_ppu s') \<and> unsignalled s' t \<and> F_notify \<notin> flags_of s' t \<and> cur e \<noteq> t" if "t \<in> P \<union> Q" for t
    using that c(1) r(1,3) [of t] drowsyD(3,4) [OF d that] s'(3) by (auto simp: nodding_def runs_quietly_def)
  have "drowsy s' (P - {f}) (if f \<in> P then insert f Q else Q) (W - {f}) (if f \<in> P then G else insert f G)"
  proof (rule drowsy_sched [OF d a s'(4)])
    fix t assume "t \<in> P - {f}"
    then show "t \<in> P \<and> t \<in> set (g_ppu s') \<and> unsignalled s' t \<and> cancel_sleep (ppus s' t) = 1 \<and> F_notify \<notin> flags_of s' t"
      using n [of t] r(2) [of t] drowsyD(5) [OF d, of t] by auto
  next
    fix t assume t: "t \<in> (if f \<in> P then insert f Q else Q)"
    then have "t \<in> P \<union> Q" by (auto split: if_splits)
    then show "t \<in> P \<union> Q \<and> t \<in> set (g_ppu s') \<and> unsignalled s' t \<and> cancel_sleep (ppus s' t) = 2 \<and> F_notify \<notin> flags_of s' t"
      using t n [of t] r(2) [of t] drowsyD(4-6) [OF d, of t] by (auto split: if_splits)
  qed
  then show ?thesis using s'(1) sched_same_regs [OF s'(4)] by blast
qed

lemma drowsy_sleep:
  assumes d: "drowsy s P Q W G" and t: "cur e \<in> P \<union> Q" "cur e \<notin> G"
  shows "\<exists>s'. obj_sleep e n s = Some (cur e \<in> P, s') \<and> same_regs s s'
     \<and> drowsy s' (P - {cur e}) (Q - {cur e}) (if cur e \<in> P then insert (cur e) W else W) G"
proof -
  have nd: "nodding s (cur e)" using drowsyD(3) [OF d t(1)] .
  then have m: "is_ppu (cur e)" "F_signal \<notin> flags_of s (cur e)" "F_notify \<notin> flags_of s (cur e)" "F_wait \<in> flags_of s (cur e)" "cur e \<in> set (g_ppu s)"
    by (auto simp: nodding_def runs_quietly_def unsignalled_def)
  note k = drowsyD(2) [OF d]
  obtain r s' where s': "obj_sleep e n s = Some (r, s')" "kernel_ready s'" "set (g_ppu s') = set (g_ppu s) - {cur e}" "sched_frame s s'"
    using obj_sleep_spec [OF k, of e n] m by auto
  note run = obj_sleep_run [OF s'(1) k m(1)]
  have r: "r \<longleftrightarrow> cur e \<in> P" using run(3) m drowsyD(5,6) [OF d, of "cur e"] t(1) by auto
  have sl: "F_signal \<notin> flags_of s' (cur e)" "F_wait \<in> flags_of s' (cur e)"
    using sched_frame_signal [OF s'(4) m(2)] sched_frame_wait [OF s'(4)] s'(3) m by auto
  have "asleep s' W G" using asleepD(3,6) [OF drowsyD(1) [OF d]] s'(3) t(2) by (intro asleep_frame [OF drowsyD(1) [OF d] s'(4,2)]) auto
  then have a: "asleep s' (if cur e \<in> P then insert (cur e) W else W) G" using sl m(1) s'(3) by (auto simp: asleep_def)
  have n: "t \<in> set (g_ppu s') \<and> unsignalled s' t \<and> F_notify \<notin> flags_of s' t \<and> cancel_sleep (ppus s' t) = cancel_sleep (ppus s t)"
    if "t \<in> P \<union> Q" "t \<noteq> cur e" for t
    using that run(1,2,4) [of t] drowsyD(3,4) [OF d that(1)] s'(3) m(3) by (auto simp: nodding_def runs_quietly_def)
  have "drowsy s' (P - {cur e}) (Q - {cur e}) (if cur e \<in> P then insert (cur e) W else W) G"
    using n drowsyD(5,6) [OF d] by (intro drowsy_sched [OF d a s'(4)]) auto
  then show ?thesis using s'(1) r sched_same_regs [OF s'(4)] by blast
qed

text \<open>
  What the rest of the system may do in between: as \<open>others_act\<close>, and it leaves a thread about to sleep
  running, unsignalled and its \<^verbatim>\<open>cancel_sleep\<close> alone.
\<close>

definition others_may :: "tid set \<Rightarrow> tid set \<Rightarrow> tid set \<Rightarrow> tid set \<Rightarrow> tid set \<Rightarrow> lv2 \<Rightarrow> lv2 \<Rightarrow> bool" where
  "others_may P Q W G C s s' \<longleftrightarrow> others_act W G C s s'
     \<and> (\<forall>t\<in>P \<union> Q. nodding s' t \<and> cancel_sleep (ppus s' t) = cancel_sleep (ppus s t) \<and> (F_again \<in> flags_of s' t \<longleftrightarrow> F_again \<in> flags_of s t))"

lemma drowsy_others: "drowsy s P Q W G \<Longrightarrow> others_may P Q W G C s s' \<Longrightarrow> drowsy s' P Q W G"
  using asleep_others by (auto simp: drowsy_def others_may_def)

section \<open>Threads by their state\<close>

text \<open>The same with one function: what each thread is doing.\<close>

datatype sleep_state = Z_none | Z_nodding | Z_cancelled | Z_asleep | Z_woken

definition sleep_map :: "lv2 \<Rightarrow> (tid \<Rightarrow> sleep_state) \<Rightarrow> bool" where
  "sleep_map s c \<longleftrightarrow> drowsy s {t. c t = Z_nodding} {t. c t = Z_cancelled} {t. c t = Z_asleep} {t. c t = Z_woken}"

lemma sleep_mapD:
  assumes "sleep_map s c"
  shows "kernel_ready s" "c t = Z_asleep \<Longrightarrow> is_ppu t \<and> t \<notin> set (g_ppu s) \<and> F_signal \<notin> flags_of s t \<and> F_wait \<in> flags_of s t"
    "c t = Z_woken \<Longrightarrow> t \<in> set (g_ppu s)" "c t = Z_nodding \<or> c t = Z_cancelled \<Longrightarrow> nodding s t"
proof -
  note d = assms [unfolded sleep_map_def]
  show "kernel_ready s" by (rule drowsyD(2) [OF d])
  show "is_ppu t \<and> t \<notin> set (g_ppu s) \<and> F_signal \<notin> flags_of s t \<and> F_wait \<in> flags_of s t" if "c t = Z_asleep"
    using asleepD(2-5) [OF drowsyD(1) [OF d], of t] that by simp
  show "t \<in> set (g_ppu s)" if "c t = Z_woken" using asleepD(6) [OF drowsyD(1) [OF d], of t] that by simp
  show "nodding s t" if "c t = Z_nodding \<or> c t = Z_cancelled" using drowsyD(3) [OF d, of t] that by auto
qed

lemma sleep_map_mono:
  assumes "sleep_map s c" "\<And>t. c' t = c t \<or> c' t = Z_none"
  shows "sleep_map s c'"
proof -
  have "{t. c' t = x} \<subseteq> {t. c t = x}" if "x \<noteq> Z_none" for x by (intro Collect_mono impI) (metis assms(2) that)
  then show ?thesis using assms(1) unfolding sleep_map_def by (elim drowsy_mono) simp_all
qed

lemma sleep_map_gpr [simp]: "sleep_map (set_gpr t r v s) c = sleep_map s c"
  by (simp add: sleep_map_def)

lemma sleep_map_keep:
  assumes "sleep_map s c"
  shows "sleep_map (stamp_order t s) c" "F \<subseteq> {F_wait, F_again} \<Longrightarrow> sleep_map (add_flags t F s) c" "sleep_map (del_flags t {F_signal} s) c"
  using assms by (simp_all add: sleep_map_def drowsy_stamp drowsy_add drowsy_del)

lemma sleep_map_begin:
  assumes "sleep_map s c" "nodding s t" "c t = Z_none"
  shows "sleep_map (set_cancel_sleep t 1 s) (c(t := Z_nodding))"
proof -
  have "{u. (c(t := Z_nodding)) u = Z_nodding} = insert t {u. c u = Z_nodding}" by auto
  moreover have "{u. (c(t := Z_nodding)) u = x} = {u. c u = x}" if "x \<noteq> Z_nodding" "x \<noteq> Z_none" for x using assms(3) that by auto
  ultimately show ?thesis using drowsy_begin [OF assms(1) [unfolded sleep_map_def] assms(2)] assms(3) by (simp add: sleep_map_def)
qed

lemma sleep_map_end: "sleep_map s c \<Longrightarrow> sleep_map (set_cancel_sleep t 0 s) (c(t := Z_none))"
  unfolding sleep_map_def by (drule drowsy_end [where t = t], erule drowsy_mono) auto

lemma sleep_map_awake:
  assumes m: "sleep_map s c" and f: "c f = Z_nodding \<or> c f = Z_asleep" and t: "c (cur e) \<noteq> Z_nodding" "c (cur e) \<noteq> Z_cancelled" "cur e \<noteq> f"
  shows "\<exists>s'. obj_awake e f s = Some s' \<and> sleep_map s' (c(f := if c f = Z_nodding then Z_cancelled else Z_woken)) \<and> same_regs s s'"
proof -
  obtain s' where s': "obj_awake e f s = Some s'" "same_regs s s'"
    "drowsy s' ({t. c t = Z_nodding} - {f}) (if c f = Z_nodding then insert f {t. c t = Z_cancelled} else {t. c t = Z_cancelled})
      ({t. c t = Z_asleep} - {f}) (if c f = Z_nodding then {t. c t = Z_woken} else insert f {t. c t = Z_woken})"
    using drowsy_awake [OF m [unfolded sleep_map_def], of f e] f t by auto
  have "sleep_map s' (c(f := if c f = Z_nodding then Z_cancelled else Z_woken))"
    unfolding sleep_map_def by (rule drowsy_mono [OF s'(3)]) auto
  then show ?thesis using s'(1,2) by blast
qed

lemma sleep_map_sleep:
  assumes m: "sleep_map s c" and t: "c (cur e) = Z_nodding \<or> c (cur e) = Z_cancelled"
  shows "\<exists>s'. obj_sleep e n s = Some (c (cur e) = Z_nodding, s') \<and> same_regs s s'
     \<and> sleep_map s' (c(cur e := if c (cur e) = Z_nodding then Z_asleep else Z_none))"
proof -
  obtain s' where s': "obj_sleep e n s = Some (c (cur e) = Z_nodding, s')" "same_regs s s'"
    "drowsy s' ({t. c t = Z_nodding} - {cur e}) ({t. c t = Z_cancelled} - {cur e})
      (if c (cur e) = Z_nodding then insert (cur e) {t. c t = Z_asleep} else {t. c t = Z_asleep}) {t. c t = Z_woken}"
    using drowsy_sleep [OF m [unfolded sleep_map_def], of e n] t by auto
  have "sleep_map s' (c(cur e := if c (cur e) = Z_nodding then Z_asleep else Z_none))"
    unfolding sleep_map_def by (rule drowsy_mono [OF s'(3)]) auto
  then show ?thesis using s'(1,2) by blast
qed

definition others_step :: "(tid \<Rightarrow> sleep_state) \<Rightarrow> tid set \<Rightarrow> lv2 \<Rightarrow> lv2 \<Rightarrow> bool" where
  "others_step c C s s' \<longleftrightarrow> others_may {t. c t = Z_nodding} {t. c t = Z_cancelled} {t. c t = Z_asleep} {t. c t = Z_woken} C s s'"

lemma sleep_map_others: "sleep_map s c \<Longrightarrow> others_step c C s s' \<Longrightarrow> sleep_map s' c"
  by (simp add: sleep_map_def others_step_def drowsy_others)

lemma others_stepD:
  assumes "others_step c C s s'"
  shows "t \<in> C \<Longrightarrow> gpr (ppus s' t) = gpr (ppus s t)"
    "c t = Z_asleep \<or> c t = Z_nodding \<or> c t = Z_cancelled \<Longrightarrow> F_again \<in> flags_of s' t \<longleftrightarrow> F_again \<in> flags_of s t"
  using assms by (auto simp: others_step_def others_may_def others_act_def)

end
