(* ===== verification/Sys_Lwmutex.thy ===== *)
theory Sys_Lwmutex
  imports Lv2_Drowsy
begin

text \<open>
  The kernel side of lightweight mutexes (\<^verbatim>\<open>kernel/cellos/include/cellos/sys_lwmutex.h\<close>,
  \<^verbatim>\<open>kernel/cellos/src/sys_lwmutex.cpp\<close>). The kernel does not know the owner: it keeps a queue of sleepers
  and \<^verbatim>\<open>signaled\<close>, the wake-up for a thread that has not arrived yet, whose bit 0 stands for a handed-over
  mutex (\<^verbatim>\<open>_sys_lwmutex_unlock\<close>) and whose sign bit for a hint to try again (\<^verbatim>\<open>_sys_lwmutex_unlock2\<close>). Both are
  changed together by compare-and-swap; whether that succeeds is an argument.
\<close>

section \<open>Operations on a lightweight mutex\<close>

text \<open>The \<^verbatim>\<open>fetch_op\<close> at the start of \<^verbatim>\<open>_sys_lwmutex_lock\<close>: the old value of \<^verbatim>\<open>signaled\<close>.\<close>

definition lw_poll :: "lv2_lwmutex \<Rightarrow> u32 \<times> lv2_lwmutex" where
  "lw_poll x = (lwm_signaled x, x\<lparr>lwm_signaled := 0\<rparr>)"

text \<open>
  \<^verbatim>\<open>lv2_lwmutex::try_own\<close>; \<open>None\<close> is the failed \<^verbatim>\<open>ensure\<close>. A new sleeper clears the mark of a pending
  destruction in \<^verbatim>\<open>lwcond_waiters\<close>.
\<close>

definition unmark_destroy :: "u32 \<Rightarrow> u32" where
  "unmark_destroy v = (if v \<le> 0x80000000 then v else v AND 0x7fffffff)"

definition lw_try_own :: "tid \<Rightarrow> bool \<Rightarrow> lv2 \<Rightarrow> lv2_lwmutex \<Rightarrow> (u32 \<times> lv2 \<times> lv2_lwmutex) option" where
  "lw_try_own t wait_only s x =
     (if lwm_signaled x = 0
      then Some (0, stamp_order t s, x\<lparr>lwm_sq := t # lwm_sq x, lwcond_waiters := unmark_destroy (lwcond_waiters x)\<rparr>)
      else if wait_only then None
      else Some (lwm_signaled x, s, x\<lparr>lwm_signaled := 0\<rparr>))"

definition unlock_bit :: "bool \<Rightarrow> u32" where
  "unlock_bit unlock2 = (if unlock2 then 0x80000000 else 1)"

definition lw_try_unlock :: "bool \<Rightarrow> bool \<Rightarrow> lv2_lwmutex \<Rightarrow> bool \<times> lv2_lwmutex" where
  "lw_try_unlock cas unlock2 x =
     (if lwm_sq x = [] \<and> cas then (True, x\<lparr>lwm_signaled := lwm_signaled x OR unlock_bit unlock2\<rparr>) else (False, x))"

definition lw_reown :: "bool \<Rightarrow> lv2 \<Rightarrow> lv2_lwmutex \<Rightarrow> tid option \<times> lv2_lwmutex" where
  "lw_reown unlock2 s x =
     (case schedule (ppus s) (lwm_protocol x) (lwm_sq x) of
        (None, _) \<Rightarrow> (None, x\<lparr>lwm_signaled := lwm_signaled x OR unlock_bit unlock2\<rparr>)
      | (Some f, q) \<Rightarrow> (Some f, x\<lparr>lwm_sq := q\<rparr>))"

text \<open>\<^verbatim>\<open>if (~signal & 1) ppu.gpr[3] = CELL_EBUSY;\<close>\<close>

definition signal_result :: "tid \<Rightarrow> u32 \<Rightarrow> lv2 \<Rightarrow> lv2" where
  "signal_result t signal s = (if even signal then set_gpr t 3 CELL_EBUSY s else s)"

text \<open>The first part of \<^verbatim>\<open>_sys_lwmutex_lock\<close>; the flag says that the call is finished.\<close>

definition lw_lock_begin :: "env \<Rightarrow> nat \<Rightarrow> lv2 \<Rightarrow> lv2_lwmutex \<Rightarrow> (bool \<times> lv2 \<times> lv2_lwmutex) option" where
  "lw_lock_begin e timeout s x =
     (case lw_poll x of
        (signal, x1) \<Rightarrow>
          if signal \<noteq> 0 then Some (True, signal_result (cur e) signal s, x1)
          else
            (case lw_try_own (cur e) False (set_cancel_sleep (cur e) 1 s) x1 of
               None \<Rightarrow> None
             | Some (signal2, s1, x2) \<Rightarrow>
                 if signal2 \<noteq> 0 then Some (True, set_cancel_sleep (cur e) 0 (signal_result (cur e) signal2 s1), x2)
                 else map_option (\<lambda>(slept, s2). (\<not> slept, s2, x2)) (obj_sleep e timeout s1)))"

definition lw_expire :: "tid \<Rightarrow> lv2 \<Rightarrow> lv2_lwmutex \<Rightarrow> (lv2 \<times> lv2_lwmutex) option" where
  "lw_expire t s x =
     (if lwm_sq x = [] then Some (s, x)
      else case unqueue (lwm_sq x) t of
        (None, _) \<Rightarrow> Some (s, x)
      | (Some _, q) \<Rightarrow> Some (set_gpr t 3 CELL_ETIMEDOUT s, x\<lparr>lwm_sq := q\<rparr>))"

abbreviation lw_queued :: "tid \<Rightarrow> lv2_lwmutex \<Rightarrow> bool" where
  "lw_queued t x \<equiv> t \<in> set (lwm_sq x)"

text \<open>Waking the thread found by \<^verbatim>\<open>reown\<close>; \<^verbatim>\<open>_sys_lwmutex_unlock2\<close> makes its call return \<^verbatim>\<open>CELL_EBUSY\<close>.\<close>

definition lw_wake :: "env \<Rightarrow> bool \<Rightarrow> tid \<Rightarrow> lv2 \<Rightarrow> lv2 option" where
  "lw_wake e unlock2 f s =
     (if F_again \<in> flags_of s f then Some (add_flags (cur e) {F_again} s)
      else obj_awake e f (if unlock2 then set_gpr f 3 CELL_EBUSY s else s))"

definition lw_unlock :: "env \<Rightarrow> bool \<Rightarrow> bool \<Rightarrow> lv2 \<Rightarrow> lv2_lwmutex \<Rightarrow> (lv2 \<times> lv2_lwmutex) option" where
  "lw_unlock e cas unlock2 s x =
     (case lw_try_unlock cas unlock2 x of
        (True, x1) \<Rightarrow> Some (s, x1)
      | (False, x1) \<Rightarrow>
          (case lw_reown unlock2 s x1 of
             (None, x2) \<Rightarrow> Some (s, x2)
           | (Some f, x2) \<Rightarrow> map_option (\<lambda>s1. (s1, x2)) (lw_wake e unlock2 f s)))"

section \<open>System calls\<close>

definition new_lwmutex :: "u32 \<Rightarrow> u32 \<Rightarrow> u64 \<Rightarrow> lv2_lwmutex" where
  "new_lwmutex protocol control name =
     \<lparr>obj_exists = 0, lwm_protocol = take_bit 8 protocol, lwm_control = control, lwm_name = name,
      lwcond_waiters = 0, lwm_signaled = 0, lwm_sq = []\<rparr>"

definition lwmutex_at :: "u32 \<Rightarrow> kernel \<Rightarrow> (nat \<times> lv2_lwmutex) option" where
  "lwmutex_at v k = (case obj_at lwmutex_base_id v k of Some (p, O_lwmutex x) \<Rightarrow> Some (p, x) | _ \<Rightarrow> None)"

definition put_lwmutex :: "nat \<Rightarrow> lv2_lwmutex \<Rightarrow> kernel \<Rightarrow> kernel" where
  "put_lwmutex p x k = k\<lparr>store := (store k)(p \<mapsto> O_lwmutex x)\<rparr>"

definition sys_lwmutex_create_syscall ::
    "env \<Rightarrow> u32 \<Rightarrow> u32 \<Rightarrow> int \<Rightarrow> u64 \<Rightarrow> kernel \<Rightarrow> (error_code \<times> u32 option \<times> kernel) option" where
  "sys_lwmutex_create_syscall e protocol control has_name name k =
     (let k1 = enter e k in
      if protocol \<noteq> SYS_SYNC_FIFO \<and> protocol \<noteq> SYS_SYNC_RETRY \<and> protocol \<noteq> SYS_SYNC_PRIORITY
      then Some (CELL_EINVAL, None, k1)
      else
        (case make_obj lwmutex_base_id (\<lambda>_. O_lwmutex (new_lwmutex protocol control (if has_name < 0 then name else 0))) k1 of
           None \<Rightarrow> None
         | Some (v, k2) \<Rightarrow> if v \<noteq> 0 then Some (CELL_OK, Some v, k2) else Some (CELL_EAGAIN, None, k2)))"

text \<open>
  One round of the loop of \<^verbatim>\<open>_sys_lwmutex_destroy\<close>. \<open>prev\<close> is the object found in the round before. \<open>D_wait\<close>: the
  caller has gone to sleep until the threads in \<^verbatim>\<open>_sys_lwcond_queue_wait\<close> have left.
\<close>

datatype destroy_round = D_done error_code | D_wait nat

definition lwmutex_destroy_round :: "env \<Rightarrow> u32 \<Rightarrow> nat option \<Rightarrow> kernel \<Rightarrow> (destroy_round \<times> kernel) option" where
  "lwmutex_destroy_round e v prev k =
     (case withdraw_obj lwmutex_base_id v
             (\<lambda>p k1. case store k1 p of
                Some (O_lwmutex x) \<Rightarrow>
                  if prev \<noteq> None \<and> prev \<noteq> Some p then (CELL_ESRCH, k1)
                  else if lwm_sq x \<noteq> [] then (CELL_EBUSY, k1)
                  else
                    (let w = lwcond_waiters x OR 0x80000000 in
                     (if w \<noteq> 0x80000000 then CELL_EAGAIN else CELL_OK, put_lwmutex p (x\<lparr>lwcond_waiters := w\<rparr>) k1))
              | _ \<Rightarrow> (CELL_ESRCH, k1)) k of
        (None, k1) \<Rightarrow> Some (D_done CELL_ESRCH, k1)
      | (Some (p, err), k1) \<Rightarrow>
          if err = CELL_EAGAIN then map_option (\<lambda>(_, s). (D_wait p, k1\<lparr>sched := s\<rparr>)) (obj_sleep e 0 (sched k1))
          else Some (D_done err, k1))"

text \<open>The inner loop, after \<^verbatim>\<open>wait_on\<close> has returned: \<open>W_break\<close> leads to the next round.\<close>

definition lwmutex_destroy_wait :: "env \<Rightarrow> nat \<Rightarrow> bool \<Rightarrow> kernel \<Rightarrow> (wait_step \<times> kernel) option" where
  "lwmutex_destroy_wait e p stopped k =
     (case store k p of
        Some (O_lwmutex x) \<Rightarrow>
          if stopped then Some (W_return, k\<lparr>sched := add_flags (cur e) {F_again} (sched k)\<rparr>)
          else if lwcond_waiters x > 0x80000000 then Some (W_continue, k) else Some (W_break, k)
      | _ \<Rightarrow> None)"

definition sys_lwmutex_destroy_syscall :: "env \<Rightarrow> u32 \<Rightarrow> kernel \<Rightarrow> (destroy_round \<times> kernel) option" where
  "sys_lwmutex_destroy_syscall e v k = lwmutex_destroy_round e v None (enter e k)"

definition sys_lwmutex_lock_syscall :: "env \<Rightarrow> u32 \<Rightarrow> nat \<Rightarrow> kernel \<Rightarrow> (sys_result \<times> kernel) option" where
  "sys_lwmutex_lock_syscall e v timeout k =
     (let k0 = enter e k; k1 = k0\<lparr>sched := set_gpr (cur e) 3 CELL_OK (sched k0)\<rparr> in
      case lwmutex_at v k1 of
        None \<Rightarrow> Some (Done CELL_ESRCH, k1)
      | Some (p, x) \<Rightarrow>
          map_option (\<lambda>(finished, s, x1).
              (if finished then Done (ucast (gpr_of s (cur e) 3)) else Blocked, put_lwmutex p x1 (k1\<lparr>sched := s\<rparr>)))
            (lw_lock_begin e timeout (sched k1) x))"

definition sys_lwmutex_lock_iter ::
    "env \<Rightarrow> nat \<Rightarrow> nat \<Rightarrow> bool \<Rightarrow> bool \<Rightarrow> kernel \<Rightarrow> (wait_step \<times> kernel) option" where
  "sys_lwmutex_lock_iter e p timeout timed_out check_state k =
     (case store k p of
        Some (O_lwmutex x) \<Rightarrow>
          map_option (\<lambda>(w, s, x1). (w, put_lwmutex p x1 (k\<lparr>sched := s\<rparr>)))
            (wait_iter lw_queued lw_expire (cur e) (timeout \<noteq> 0 \<and> timed_out) check_state (sched k) x)
      | _ \<Rightarrow> None)"

definition lw_trylock :: "lv2_lwmutex \<Rightarrow> bool \<times> lv2_lwmutex" where
  "lw_trylock x = (if odd (lwm_signaled x) then (True, x\<lparr>lwm_signaled := 0\<rparr>) else (False, x))"

definition sys_lwmutex_trylock_syscall :: "env \<Rightarrow> u32 \<Rightarrow> kernel \<Rightarrow> error_code \<times> kernel" where
  "sys_lwmutex_trylock_syscall e v k =
     (let k1 = enter e k in
      case lwmutex_at v k1 of
        None \<Rightarrow> (CELL_ESRCH, k1)
      | Some (p, x) \<Rightarrow> (case lw_trylock x of (ok, x1) \<Rightarrow> (if ok then CELL_OK else CELL_EBUSY, put_lwmutex p x1 k1)))"

text \<open>\<^verbatim>\<open>_sys_lwmutex_unlock\<close> and \<^verbatim>\<open>_sys_lwmutex_unlock2\<close>.\<close>

definition sys_lwmutex_unlock_syscall :: "env \<Rightarrow> bool \<Rightarrow> u32 \<Rightarrow> bool \<Rightarrow> kernel \<Rightarrow> (error_code \<times> kernel) option" where
  "sys_lwmutex_unlock_syscall e unlock2 v cas k =
     (let k1 = enter e k in
      case lwmutex_at v k1 of
        None \<Rightarrow> Some (CELL_ESRCH, k1)
      | Some (p, x) \<Rightarrow>
          map_option (\<lambda>(s, x1). (CELL_OK, put_lwmutex p x1 (k1\<lparr>sched := s\<rparr>))) (lw_unlock e cas unlock2 (sched k1) x))"

end
