(* ===== verification/Prx_Lwmutex.thy ===== *)
theory Prx_Lwmutex
  imports Sys_Lwmutex
begin

text \<open>
  The user side of lightweight mutexes (\<^verbatim>\<open>ps3fw/sys_lwmutex_.cpp\<close>), which keeps the owner in guest memory and
  enters the kernel only under contention. \<^verbatim>\<open>owner\<close> and \<^verbatim>\<open>waiter\<close> are the halves of one 64-bit word, incremented
  as a whole by \<^verbatim>\<open>all_info++\<close>. The definitions are the atomic accesses the functions are made of, and the functions
  that do not block. \<open>hle\<close> is \<^verbatim>\<open>g_cfg.core.hle_lwmutex\<close>, which replaces the whole by a kernel mutex.
\<close>

section \<open>The lock word\<close>

record sys_lwmutex_t =
  lw_owner :: u32
  lw_waiter :: u32
  lw_attribute :: u32
  lw_recursive_count :: u32
  lw_sleep_queue :: u32

abbreviation lwmutex_free :: u32 where "lwmutex_free \<equiv> 0xffffffff"
abbreviation lwmutex_dead :: u32 where "lwmutex_dead \<equiv> 0xfffffffe"
abbreviation lwmutex_reserved :: u32 where "lwmutex_reserved \<equiv> 0xfffffffd"

text \<open>The id of a thread as the guest sees it.\<close>

definition tid_word :: "tid \<Rightarrow> u32" where
  "tid_word t = of_nat t"

definition all_info :: "sys_lwmutex_t \<Rightarrow> u64" where
  "all_info m = push_bit 32 (ucast (lw_owner m)) OR ucast (lw_waiter m)"

definition set_all_info :: "u64 \<Rightarrow> sys_lwmutex_t \<Rightarrow> sys_lwmutex_t" where
  "set_all_info v m = m\<lparr>lw_owner := ucast (drop_bit 32 v), lw_waiter := ucast v\<rparr>"

definition lw_inc :: "sys_lwmutex_t \<Rightarrow> sys_lwmutex_t" where
  "lw_inc m = set_all_info (all_info m + 1) m"

definition lw_dec :: "sys_lwmutex_t \<Rightarrow> sys_lwmutex_t" where
  "lw_dec m = set_all_info (all_info m - 1) m"

text \<open>\<^verbatim>\<open>attribute & SYS_SYNC_RETRY\<close>\<close>

definition lw_retry :: "sys_lwmutex_t \<Rightarrow> bool" where
  "lw_retry m \<longleftrightarrow> lw_attribute m AND SYS_SYNC_RETRY \<noteq> 0"

text \<open>\<^verbatim>\<open>vars.owner.compare_and_swap_test(lwmutex_free, tid)\<close>\<close>

definition lw_cas_free :: "tid \<Rightarrow> sys_lwmutex_t \<Rightarrow> sys_lwmutex_t option" where
  "lw_cas_free t m = (if lw_owner m = lwmutex_free then Some (m\<lparr>lw_owner := tid_word t\<rparr>) else None)"

text \<open>
  The beginning of \<^verbatim>\<open>sys_lwmutex_lock\<close> and \<^verbatim>\<open>sys_lwmutex_trylock\<close>: a result, or \<open>None\<close> if another thread has the mutex.
\<close>

definition lw_acquire :: "tid \<Rightarrow> sys_lwmutex_t \<Rightarrow> error_code option \<times> sys_lwmutex_t" where
  "lw_acquire t m =
     (case lw_cas_free t m of
        Some m1 \<Rightarrow> (Some CELL_OK, m1)
      | None \<Rightarrow>
          if lw_owner m = tid_word t then
            if lw_attribute m AND SYS_SYNC_RECURSIVE = 0 then (Some CELL_EDEADLK, m)
            else if lw_recursive_count m = 0xffffffff then (Some CELL_EKRESOURCE, m)
            else (Some CELL_OK, m\<lparr>lw_recursive_count := lw_recursive_count m + 1\<rparr>)
          else if lw_owner m = lwmutex_dead then (Some CELL_EINVAL, m)
          else (None, m))"

text \<open>The time left for the next round of the retry loop; \<open>None\<close> if it is used up.\<close>

definition lw_time_left :: "nat \<Rightarrow> nat \<Rightarrow> u64 \<Rightarrow> nat option" where
  "lw_time_left timeout time_diff r =
     (if timeout \<noteq> 0 \<and> r \<noteq> CELL_ETIMEDOUT then if timeout \<le> time_diff then None else Some (timeout - time_diff) else Some timeout)"

text \<open>The beginning of \<^verbatim>\<open>sys_lwmutex_unlock\<close>; \<open>None\<close> if there are waiters.\<close>

definition lw_give_up :: "tid \<Rightarrow> sys_lwmutex_t \<Rightarrow> error_code option \<times> sys_lwmutex_t" where
  "lw_give_up t m =
     (if lw_owner m \<noteq> tid_word t then (Some CELL_EPERM, m)
      else if lw_recursive_count m \<noteq> 0 then (Some CELL_OK, m\<lparr>lw_recursive_count := lw_recursive_count m - 1\<rparr>)
      else if lw_waiter m = 0 then (Some CELL_OK, m\<lparr>lw_owner := lwmutex_free\<rparr>)
      else (None, m))"

section \<open>Functions\<close>

record sys_lwmutex_attribute_t =
  la_protocol :: u32
  la_recursive :: u32
  la_name :: u64

definition sys_lwmutex_create ::
    "bool \<Rightarrow> env \<Rightarrow> u32 \<Rightarrow> sys_lwmutex_attribute_t \<Rightarrow> sys_lwmutex_t \<Rightarrow> kernel \<Rightarrow> (error_code \<times> sys_lwmutex_t \<times> kernel) option" where
  "sys_lwmutex_create hle e addr a m k =
     (if la_recursive a \<noteq> SYS_SYNC_RECURSIVE \<and> la_recursive a \<noteq> SYS_SYNC_NOT_RECURSIVE then Some (CELL_EINVAL, m, k)
      else if la_protocol a \<noteq> SYS_SYNC_FIFO \<and> la_protocol a \<noteq> SYS_SYNC_RETRY \<and> la_protocol a \<noteq> SYS_SYNC_PRIORITY
        then Some (CELL_EINVAL, m, k)
      else
        let ma = \<lparr>ma_protocol = if la_protocol a = SYS_SYNC_FIFO then SYS_SYNC_FIFO else SYS_SYNC_PRIORITY,
                   ma_recursive = la_recursive a, ma_pshared = SYS_SYNC_NOT_PROCESS_SHARED, ma_adaptive = 0x2000,
                   ma_ipc_key = 0, ma_flags = 0, ma_name = la_name a\<rparr> in
        (case (if hle then sys_mutex_create e True (Some ma) k
               else sys_lwmutex_create_syscall e (la_protocol a) addr (- 0x7fffffff) (la_name a) k) of
           None \<Rightarrow> None
         | Some (err, Some v, k1) \<Rightarrow>
             if err \<noteq> 0 then Some (err, m, k1)
             else Some (CELL_OK, m\<lparr>lw_owner := lwmutex_free, lw_waiter := 0, lw_attribute := la_recursive a OR la_protocol a,
                               lw_recursive_count := 0, lw_sleep_queue := v\<rparr>, k1)
         | Some (err, None, k1) \<Rightarrow> Some (err, m, k1)))"

text \<open>\<open>None\<close> is the exception \<^verbatim>\<open>Locking failed\<close>.\<close>

definition sys_lwmutex_trylock ::
    "bool \<Rightarrow> env \<Rightarrow> bool \<Rightarrow> sys_lwmutex_t \<Rightarrow> kernel \<Rightarrow> (error_code \<times> sys_lwmutex_t \<times> kernel) option" where
  "sys_lwmutex_trylock hle e cas m k =
     (if hle then (case sys_mutex_trylock e (lw_sleep_queue m) cas k of (r, k1) \<Rightarrow> Some (r, m, k1))
      else case lw_acquire (cur e) m of
        (Some r, m1) \<Rightarrow> Some (r, m1, k)
      | (None, m1) \<Rightarrow>
          if lw_owner m1 = lwmutex_reserved then
            (case sys_lwmutex_trylock_syscall e (lw_sleep_queue m1) k of
               (r, k1) \<Rightarrow>
                 if r = CELL_OK then
                   if lw_owner m1 \<noteq> lwmutex_reserved then None else Some (r, m1\<lparr>lw_owner := tid_word (cur e)\<rparr>, k1)
                 else Some (r, m1, k1))
          else Some (CELL_EBUSY, m1, k))"

definition sys_lwmutex_unlock ::
    "bool \<Rightarrow> env \<Rightarrow> bool \<Rightarrow> sys_lwmutex_t \<Rightarrow> kernel \<Rightarrow> (error_code \<times> sys_lwmutex_t \<times> kernel) option" where
  "sys_lwmutex_unlock hle e cas m k =
     (if hle then map_option (\<lambda>(r, k1). (r, m, k1)) (sys_mutex_unlock e (lw_sleep_queue m) cas k)
      else case lw_give_up (cur e) m of
        (Some r, m1) \<Rightarrow> Some (r, m1, k)
      | (None, m1) \<Rightarrow>
          map_option (\<lambda>(r, k1). (if r = CELL_ESRCH then CELL_ESRCH else CELL_OK,
                                m1\<lparr>lw_owner := if lw_retry m1 then lwmutex_free else lwmutex_reserved\<rparr>, k1))
            (sys_lwmutex_unlock_syscall e (lw_retry m1) (lw_sleep_queue m1) cas k))"

text \<open>\<open>D_wait\<close>: the system call has put the caller to sleep.\<close>

definition sys_lwmutex_destroy ::
    "bool \<Rightarrow> env \<Rightarrow> bool \<Rightarrow> sys_lwmutex_t \<Rightarrow> kernel \<Rightarrow> (destroy_round \<times> sys_lwmutex_t \<times> kernel) option" where
  "sys_lwmutex_destroy hle e cas m k =
     (if hle then (case sys_mutex_destroy e (lw_sleep_queue m) k of (r, k1) \<Rightarrow> Some (D_done r, m, k1))
      else if lw_owner m = tid_word (cur e) then Some (D_done CELL_EBUSY, m, k)
      else case sys_lwmutex_trylock False e cas m k of
        None \<Rightarrow> None
      | Some (r, m1, k1) \<Rightarrow>
          if r \<noteq> CELL_OK then Some (D_done r, m1, k1)
          else
            (case sys_lwmutex_destroy_syscall e (lw_sleep_queue m1) k1 of
               None \<Rightarrow> None
             | Some (D_wait p, k2) \<Rightarrow> Some (D_wait p, m1, k2)
             | Some (D_done err, k2) \<Rightarrow>
                 if err \<noteq> CELL_OK
                 then map_option (\<lambda>(_, m2, k3). (D_done err, m2, k3)) (sys_lwmutex_unlock False e cas m1 k2)
                 else Some (D_done CELL_OK, m1\<lparr>lw_owner := lwmutex_dead\<rparr>, k2)))"

section \<open>Arithmetic of the lock word\<close>

lemma all_info_uint: "uint (all_info m) = uint (lw_owner m) * 2 ^ 32 + uint (lw_waiter m)"
proof -
  have "all_info m = push_bit 32 (ucast (lw_owner m)) + ucast (lw_waiter m)"
    unfolding all_info_def by (rule disjunctive_add [symmetric]) (auto simp: bit_simps dest: bit_imp_le_length)
  moreover have "uint (lw_owner m) < 2 ^ 32" "uint (lw_waiter m) < 2 ^ 32" using uint_lt2p [of "lw_owner m"] uint_lt2p [of "lw_waiter m"] by simp_all
  ultimately show ?thesis
    by (simp add: uint_word_ariths push_bit_eq_mult unsigned_ucast_eq take_bit_int_eq_self uint_mult_lem)
qed

lemma set_all_info_split:
  assumes "uint v = uint (a :: u32) * 2 ^ 32 + uint (b :: u32)"
  shows "set_all_info v m = m\<lparr>lw_owner := a, lw_waiter := b\<rparr>"
proof -
  have r: "uint a < 2 ^ 32" "uint b < 2 ^ 32" using uint_lt2p [of a] uint_lt2p [of b] by simp_all
  have "ucast (drop_bit 32 v) = a" "ucast v = b"
    using r assms
    by (simp_all add: word_uint_eq_iff unsigned_ucast_eq unsigned_drop_bit_eq take_bit_eq_mod) (simp add: drop_bit_eq_div)
  then show ?thesis by (simp add: set_all_info_def)
qed

lemma lw_inc_eq:
  assumes "lw_waiter m \<noteq> 0xffffffff"
  shows "lw_inc m = m\<lparr>lw_waiter := lw_waiter m + 1\<rparr>"
proof -
  have r: "uint (lw_owner m) < 2 ^ 32" "uint (lw_waiter m) < 2 ^ 32" using uint_lt2p [of "lw_owner m"] uint_lt2p [of "lw_waiter m"] by simp_all
  have "uint (lw_waiter m) \<noteq> 0xffffffff" using assms by (auto simp: word_uint_eq_iff)
  then have w: "uint (lw_waiter m + 1) = uint (lw_waiter m) + 1" using r by (simp add: uint_word_ariths)
  have "uint (all_info m + 1) = uint (lw_owner m) * 2 ^ 32 + uint (lw_waiter m + 1)" using r w by (simp add: uint_word_ariths all_info_uint)
  from set_all_info_split [OF this, of m] show ?thesis by (simp add: lw_inc_def)
qed

lemma lw_dec_eq:
  assumes "lw_waiter m \<noteq> 0"
  shows "lw_dec m = m\<lparr>lw_waiter := lw_waiter m - 1\<rparr>"
proof -
  have r: "uint (lw_owner m) < 2 ^ 32" "uint (lw_waiter m) < 2 ^ 32" "0 \<le> uint (lw_owner m)"
    using uint_lt2p [of "lw_owner m"] uint_lt2p [of "lw_waiter m"] by simp_all
  have "0 < uint (lw_waiter m)" using assms by (simp add: word_uint_eq_iff order_le_neq_trans)
  then have w: "uint (lw_waiter m - 1) = uint (lw_waiter m) - 1" using r by (simp add: uint_word_ariths)
  have "0 \<le> a * 2 ^ 32 + b - 1 \<and> a * 2 ^ 32 + b - 1 < (2 :: int) ^ 64" if "0 \<le> a" "a < 2 ^ 32" "0 < b" "b < 2 ^ 32" for a b
    using that by simp
  then have "(uint (lw_owner m) * 2 ^ 32 + uint (lw_waiter m) - 1) mod 2 ^ 64 = uint (lw_owner m) * 2 ^ 32 + uint (lw_waiter m) - 1"
    using r \<open>0 < uint (lw_waiter m)\<close> by (intro mod_pos_pos_trivial) blast+
  then have "uint (all_info m - 1) = uint (lw_owner m) * 2 ^ 32 + uint (lw_waiter m - 1)"
    using w by (simp add: uint_word_ariths all_info_uint)
  from set_all_info_split [OF this, of m] show ?thesis by (simp add: lw_dec_def)
qed

lemma unat_tid_word: "is_ppu t \<Longrightarrow> unat (tid_word t) = t"
  by (simp add: tid_word_def is_ppu_range unat_of_nat take_bit_nat_eq_self)

lemma tid_word_eq:
  assumes "is_ppu t"
  shows "is_ppu u \<Longrightarrow> tid_word t = tid_word u \<longleftrightarrow> t = u" "tid_word t \<noteq> lwmutex_free" "tid_word t \<noteq> lwmutex_reserved" "tid_word t \<noteq> lwmutex_dead"
proof -
  show "tid_word t = tid_word u \<longleftrightarrow> t = u" if "is_ppu u" using unat_tid_word [OF assms] unat_tid_word [OF that] by metis
  have "unat (tid_word t) < 0x2000000" using assms unat_tid_word [OF assms] by (simp add: is_ppu_range)
  then show "tid_word t \<noteq> lwmutex_free" "tid_word t \<noteq> lwmutex_reserved" "tid_word t \<noteq> lwmutex_dead" by auto
qed

end
