(* ===== verification/Lwmutex_Threads.thy ===== *)
theory Lwmutex_Threads
  imports Prx_Lwmutex
begin

text \<open>
  Any number of threads on one lightweight mutex: \<^verbatim>\<open>sys_lwmutex_lock\<close>, \<^verbatim>\<open>sys_lwmutex_trylock\<close> and \<^verbatim>\<open>sys_lwmutex_unlock\<close>
  of \<^verbatim>\<open>ps3fw/sys_lwmutex_.cpp\<close> together with the system calls of \<^verbatim>\<open>sys_lwmutex.cpp\<close> they make, cut at every
  atomic access to the lock word in guest memory and to the kernel object. \<open>ls_lock\<close> is \<^verbatim>\<open>mutex.mutex\<close>.
  \<open>ls_depth\<close> and \<open>ls_tok\<close> are ghost state: how often a thread has locked the mutex, and where the
  permission to take a reserved mutex is: nowhere, in \<^verbatim>\<open>signaled\<close>, or with a thread.
\<close>

datatype lw_token = T_none | T_kernel | T_with tid

datatype lw_pc =
    L_idle | L_spin bool nat nat | L_cas bool nat | L_undo | L_call bool nat | L_own bool nat | L_sleep bool nat
  | L_wait bool nat | L_back bool nat u64 | L_take | L_poll | L_release | L_unlock bool | L_reown bool
  | L_wake bool tid | L_ret u64 | L_stopped | L_uagain | L_throw

record lw_sys =
  ls_lv2 :: lv2
  ls_obj :: lv2_lwmutex
  ls_mem :: sys_lwmutex_t
  ls_lock :: "tid option"
  ls_pc :: "tid \<Rightarrow> lw_pc"
  ls_depth :: "tid \<Rightarrow> nat"
  ls_tok :: lw_token

definition lgo :: "tid \<Rightarrow> lw_pc \<Rightarrow> lw_sys \<Rightarrow> lw_sys" where
  "lgo t pc z = z\<lparr>ls_pc := (ls_pc z)(t := pc)\<rparr>"

definition gain :: "tid \<Rightarrow> lw_sys \<Rightarrow> lw_sys" where
  "gain t z = z\<lparr>ls_depth := (ls_depth z)(t := ls_depth z t + 1)\<rparr>"

definition lose :: "tid \<Rightarrow> lw_sys \<Rightarrow> lw_sys" where
  "lose t z = z\<lparr>ls_depth := (ls_depth z)(t := ls_depth z t - 1)\<rparr>"

abbreviation on_queue :: "lw_sys \<Rightarrow> tid \<Rightarrow> bool" where
  "on_queue z t \<equiv> t \<in> set (lwm_sq (ls_obj z))"

definition picked :: "lw_sys \<Rightarrow> tid \<Rightarrow> bool" where
  "picked z f \<longleftrightarrow> (\<exists>c u2. ls_lock z = Some c \<and> ls_pc z c = L_wake u2 f)"

definition enlisted :: "lw_sys \<Rightarrow> tid \<Rightarrow> bool" where
  "enlisted z t \<longleftrightarrow> on_queue z t \<or> picked z t"

fun pc_sleep :: "bool \<Rightarrow> lw_pc \<Rightarrow> sleep_state" where
  "pc_sleep l (L_own _ _) = Z_nodding"
| "pc_sleep l (L_sleep _ _) = (if l then Z_nodding else Z_cancelled)"
| "pc_sleep l (L_wait _ _) = (if l then Z_asleep else Z_woken)"
| "pc_sleep l L_stopped = Z_asleep"
| "pc_sleep l _ = Z_none"

definition sleep_of :: "lw_sys \<Rightarrow> tid \<Rightarrow> sleep_state" where
  "sleep_of z t = pc_sleep (enlisted z t) (ls_pc z t)"

text \<open>The value of \<^verbatim>\<open>gpr[3]\<close> after \<^verbatim>\<open>signal\<close> has been consumed.\<close>

definition signal_code :: "u32 \<Rightarrow> u64" where
  "signal_code sig = (if even sig then CELL_EBUSY else CELL_OK)"

inductive lw_step :: "lw_sys \<Rightarrow> lw_sys \<Rightarrow> bool" where
  l_fast: "ls_pc z t = L_idle \<Longrightarrow> is_ppu t \<Longrightarrow> lw_acquire t (ls_mem z) = (Some r, m) \<Longrightarrow>
    lw_step z (lgo t (L_ret (ucast r)) ((if r = CELL_OK then gain t else id) (z\<lparr>ls_mem := m\<rparr>)))"
| l_slow: "ls_pc z t = L_idle \<Longrightarrow> is_ppu t \<Longrightarrow> lw_acquire t (ls_mem z) = (None, m) \<Longrightarrow> lw_step z (lgo t (L_spin False 10 n) z)"
| l_spin_ok: "ls_pc z t = L_spin rt (Suc k) n \<Longrightarrow> lw_cas_free t (ls_mem z) = Some m \<Longrightarrow>
    lw_step z (lgo t (L_ret CELL_OK) (gain t (z\<lparr>ls_mem := m\<rparr>)))"
| l_spin: "ls_pc z t = L_spin rt (Suc k) n \<Longrightarrow> lw_cas_free t (ls_mem z) = None \<Longrightarrow> lw_step z (lgo t (L_spin rt k n) z)"
| l_join: "ls_pc z t = L_spin rt 0 n \<Longrightarrow> lw_step z (lgo t (L_cas rt n) (z\<lparr>ls_mem := lw_inc (ls_mem z)\<rparr>))"
| l_cas_ok: "ls_pc z t = L_cas rt n \<Longrightarrow> lw_cas_free t (ls_mem z) = Some m \<Longrightarrow> lw_step z (lgo t L_undo (gain t (z\<lparr>ls_mem := m\<rparr>)))"
| l_cas: "ls_pc z t = L_cas rt n \<Longrightarrow> lw_cas_free t (ls_mem z) = None \<Longrightarrow> lw_step z (lgo t (L_call rt n) z)"
| l_undo: "ls_pc z t = L_undo \<Longrightarrow> lw_step z (lgo t (L_ret CELL_OK) (z\<lparr>ls_mem := lw_dec (ls_mem z)\<rparr>))"
| l_call_signal: "ls_pc z t = L_call rt n \<Longrightarrow> lw_poll (ls_obj z) = (sig, x) \<Longrightarrow> sig \<noteq> 0 \<Longrightarrow>
    lw_step z (lgo t (L_back rt n (signal_code sig))
      (z\<lparr>ls_obj := x, ls_lv2 := signal_result t sig (set_gpr t 3 CELL_OK (add_flags t {F_wait} (ls_lv2 z))),
         ls_tok := if odd sig then T_with t else ls_tok z\<rparr>))"
| l_call: "ls_pc z t = L_call rt n \<Longrightarrow> lw_poll (ls_obj z) = (0, x) \<Longrightarrow> runs_quietly (ls_lv2 z) t \<Longrightarrow>
    lw_step z (lgo t (L_own rt n)
      (z\<lparr>ls_obj := x, ls_lv2 := set_cancel_sleep t 1 (set_gpr t 3 CELL_OK (add_flags t {F_wait} (ls_lv2 z)))\<rparr>))"
| l_own_signal: "ls_pc z t = L_own rt n \<Longrightarrow> lw_try_own t False (ls_lv2 z) (ls_obj z) = Some (sig, s, x) \<Longrightarrow> sig \<noteq> 0 \<Longrightarrow>
    lw_step z (lgo t (L_back rt n (signal_code sig))
      (z\<lparr>ls_obj := x, ls_lv2 := set_cancel_sleep t 0 (signal_result t sig s), ls_tok := if odd sig then T_with t else ls_tok z\<rparr>))"
| l_own: "ls_pc z t = L_own rt n \<Longrightarrow> lw_try_own t False (ls_lv2 z) (ls_obj z) = Some (0, s, x) \<Longrightarrow>
    lw_step z (lgo t (L_sleep rt n) (z\<lparr>ls_obj := x, ls_lv2 := s\<rparr>))"
| l_sleep: "ls_pc z (cur e) = L_sleep rt n \<Longrightarrow> obj_sleep e n (ls_lv2 z) = Some (True, s) \<Longrightarrow>
    lw_step z (lgo (cur e) (L_wait rt n) (z\<lparr>ls_lv2 := s\<rparr>))"
| l_cancelled: "ls_pc z (cur e) = L_sleep rt n \<Longrightarrow> obj_sleep e n (ls_lv2 z) = Some (False, s) \<Longrightarrow>
    lw_step z (lgo (cur e) (L_back rt n (gpr_of s (cur e) 3)) (z\<lparr>ls_lv2 := s\<rparr>))"
| l_break: "ls_pc z t = L_wait rt n \<Longrightarrow> ls_lock z = None \<or> \<not> is_stopped (flags_of (ls_lv2 z) t) \<Longrightarrow>
    wait_iter lw_queued lw_expire t False c (ls_lv2 z) (ls_obj z) = Some (W_break, s, x) \<Longrightarrow>
    lw_step z (lgo t (L_back rt n (gpr_of s t 3)) (z\<lparr>ls_lv2 := s, ls_obj := x\<rparr>))"
| l_stop: "ls_pc z t = L_wait rt n \<Longrightarrow> ls_lock z = None \<Longrightarrow>
    wait_iter lw_queued lw_expire t False c (ls_lv2 z) (ls_obj z) = Some (W_return, s, x) \<Longrightarrow>
    lw_step z (lgo t L_stopped (z\<lparr>ls_lv2 := s, ls_obj := x\<rparr>))"
| l_expire: "ls_pc z t = L_wait rt n \<Longrightarrow> n \<noteq> 0 \<Longrightarrow> ls_lock z = None \<Longrightarrow>
    lw_expire t (add_flags t {F_wait} (ls_lv2 z)) (ls_obj z) = Some (s, x) \<Longrightarrow>
    lw_step z (lgo t (L_back rt n (gpr_of s t 3)) (z\<lparr>ls_lv2 := s, ls_obj := x\<rparr>))"
| l_granted: "ls_pc z t = L_back False n CELL_OK \<Longrightarrow> lw_step z (lgo t L_take (z\<lparr>ls_mem := lw_dec (ls_mem z)\<rparr>))"
| l_retry: "ls_pc z t = L_back False n CELL_EBUSY \<Longrightarrow> lw_retry (ls_mem z) \<Longrightarrow>
    lw_step z (lgo t (L_spin True 10 n) (z\<lparr>ls_mem := lw_dec (ls_mem z)\<rparr>))"
| l_failed: "ls_pc z t = L_back False n r \<Longrightarrow> r \<noteq> CELL_OK \<Longrightarrow> r \<noteq> CELL_EBUSY \<or> \<not> lw_retry (ls_mem z) \<Longrightarrow>
    lw_step z (lgo t (L_ret r) (z\<lparr>ls_mem := lw_dec (ls_mem z)\<rparr>))"
| l_again_own: "ls_pc z t = L_back True n CELL_OK \<Longrightarrow>
    lw_step z (lgo t L_undo (gain t (z\<lparr>ls_mem := (ls_mem z)\<lparr>lw_owner := tid_word t\<rparr>\<rparr>)))"
| l_again_late: "ls_pc z t = L_back True n r \<Longrightarrow> r \<noteq> CELL_OK \<Longrightarrow> lw_time_left n d r = None \<Longrightarrow>
    lw_step z (lgo t (L_ret CELL_ETIMEDOUT) (z\<lparr>ls_mem := lw_dec (ls_mem z)\<rparr>))"
| l_again: "ls_pc z t = L_back True n r \<Longrightarrow> r \<noteq> CELL_OK \<Longrightarrow> lw_time_left n d r = Some n' \<Longrightarrow>
    lw_step z (lgo t (if r = CELL_EBUSY then L_spin True 10 n' else L_ret r) (z\<lparr>ls_mem := lw_dec (ls_mem z)\<rparr>))"
| l_take: "ls_pc z t = L_take \<Longrightarrow> lw_owner (ls_mem z) = lwmutex_reserved \<Longrightarrow>
    lw_step z (lgo t (L_ret CELL_OK) (gain t (z\<lparr>ls_mem := (ls_mem z)\<lparr>lw_owner := tid_word t\<rparr>, ls_tok := T_none\<rparr>)))"
| l_throw: "ls_pc z t = L_take \<Longrightarrow> lw_owner (ls_mem z) \<noteq> lwmutex_reserved \<Longrightarrow>
    lw_step z (lgo t L_throw (z\<lparr>ls_mem := (ls_mem z)\<lparr>lw_owner := tid_word t\<rparr>\<rparr>))"
| l_try_busy: "ls_pc z t = L_idle \<Longrightarrow> is_ppu t \<Longrightarrow> lw_acquire t (ls_mem z) = (None, m) \<Longrightarrow> lw_owner m \<noteq> lwmutex_reserved \<Longrightarrow>
    lw_step z (lgo t (L_ret CELL_EBUSY) z)"
| l_try: "ls_pc z t = L_idle \<Longrightarrow> is_ppu t \<Longrightarrow> lw_acquire t (ls_mem z) = (None, m) \<Longrightarrow> lw_owner m = lwmutex_reserved \<Longrightarrow>
    lw_step z (lgo t L_poll z)"
| l_poll_ok: "ls_pc z t = L_poll \<Longrightarrow> lw_trylock (ls_obj z) = (True, x) \<Longrightarrow>
    lw_step z (lgo t L_take (z\<lparr>ls_obj := x, ls_tok := T_with t\<rparr>))"
| l_poll: "ls_pc z t = L_poll \<Longrightarrow> lw_trylock (ls_obj z) = (False, x) \<Longrightarrow> lw_step z (lgo t (L_ret CELL_EBUSY) z)"
| l_unlock: "ls_pc z t = L_idle \<Longrightarrow> is_ppu t \<Longrightarrow> lw_give_up t (ls_mem z) = (Some r, m) \<Longrightarrow>
    lw_step z (lgo t (L_ret (ucast r)) ((if r = CELL_OK then lose t else id) (z\<lparr>ls_mem := m\<rparr>)))"
| l_unlock_slow: "ls_pc z t = L_idle \<Longrightarrow> is_ppu t \<Longrightarrow> lw_give_up t (ls_mem z) = (None, m) \<Longrightarrow> lw_step z (lgo t L_release z)"
| l_release_retry: "ls_pc z t = L_release \<Longrightarrow> lw_retry (ls_mem z) \<Longrightarrow>
    lw_step z (lgo t (L_unlock True) (lose t (z\<lparr>ls_mem := (ls_mem z)\<lparr>lw_owner := lwmutex_free\<rparr>\<rparr>)))"
| l_release: "ls_pc z t = L_release \<Longrightarrow> \<not> lw_retry (ls_mem z) \<Longrightarrow>
    lw_step z (lgo t (L_unlock False) (lose t (z\<lparr>ls_mem := (ls_mem z)\<lparr>lw_owner := lwmutex_reserved\<rparr>, ls_tok := T_with t\<rparr>)))"
| l_signal: "ls_pc z t = L_unlock u2 \<Longrightarrow> lw_try_unlock cas u2 (ls_obj z) = (True, x) \<Longrightarrow>
    lw_step z (lgo t (L_ret CELL_OK) (z\<lparr>ls_obj := x, ls_tok := if u2 then ls_tok z else T_kernel\<rparr>))"
| l_signal_slow: "ls_pc z t = L_unlock u2 \<Longrightarrow> lw_try_unlock cas u2 (ls_obj z) = (False, x) \<Longrightarrow> lw_step z (lgo t (L_reown u2) z)"
| l_reown_none: "ls_pc z t = L_reown u2 \<Longrightarrow> ls_lock z = None \<Longrightarrow> lw_reown u2 (ls_lv2 z) (ls_obj z) = (None, x) \<Longrightarrow>
    lw_step z (lgo t (L_ret CELL_OK) (z\<lparr>ls_obj := x, ls_tok := if u2 then ls_tok z else T_kernel\<rparr>))"
| l_reown: "ls_pc z t = L_reown u2 \<Longrightarrow> ls_lock z = None \<Longrightarrow> lw_reown u2 (ls_lv2 z) (ls_obj z) = (Some f, x) \<Longrightarrow>
    F_again \<notin> flags_of (ls_lv2 z) f \<Longrightarrow>
    lw_step z (lgo t (L_wake u2 f) (z\<lparr>ls_obj := x, ls_lock := Some t, ls_tok := if u2 then ls_tok z else T_with f\<rparr>))"
| l_reown_again: "ls_pc z t = L_reown u2 \<Longrightarrow> ls_lock z = None \<Longrightarrow> lw_reown u2 (ls_lv2 z) (ls_obj z) = (Some f, x) \<Longrightarrow>
    F_again \<in> flags_of (ls_lv2 z) f \<Longrightarrow>
    lw_step z (lgo t L_uagain (z\<lparr>ls_obj := x, ls_lv2 := add_flags t {F_again} (ls_lv2 z)\<rparr>))"
| l_wake: "ls_pc z (cur e) = L_wake u2 f \<Longrightarrow> lw_wake e u2 f (ls_lv2 z) = Some s \<Longrightarrow>
    lw_step z (lgo (cur e) (L_ret CELL_OK) (z\<lparr>ls_lv2 := s, ls_lock := None\<rparr>))"
| l_return: "ls_pc z t = L_ret r \<Longrightarrow> lw_step z (lgo t L_idle z)"
| l_other: "others_step (sleep_of z) {t. ls_pc z t \<noteq> L_idle} (ls_lv2 z) s \<Longrightarrow> lw_step z (z\<lparr>ls_lv2 := s\<rparr>)"

definition lw_start :: "lv2 \<Rightarrow> lv2_lwmutex \<Rightarrow> sys_lwmutex_t \<Rightarrow> lw_sys" where
  "lw_start s x m = \<lparr>ls_lv2 = s, ls_obj = x, ls_mem = m, ls_lock = None, ls_pc = (\<lambda>_. L_idle), ls_depth = (\<lambda>_. 0), ls_tok = T_none\<rparr>"

section \<open>Invariant\<close>

fun contends :: "lw_pc \<Rightarrow> bool" where
  "contends (L_cas _ _) = True"
| "contends L_undo = True"
| "contends (L_call _ _) = True"
| "contends (L_own _ _) = True"
| "contends (L_sleep _ _) = True"
| "contends (L_wait _ _) = True"
| "contends (L_back _ _ _) = True"
| "contends L_stopped = True"
| "contends _ = False"

text \<open>Counted as a waiter, and has seen that the mutex is not free.\<close>

definition past_cas :: "lw_pc \<Rightarrow> bool" where
  "past_cas pc \<longleftrightarrow> contends pc \<and> pc \<noteq> L_undo \<and> (\<forall>rt n. pc \<noteq> L_cas rt n)"

fun sleepy_pc :: "lw_pc \<Rightarrow> bool" where
  "sleepy_pc (L_sleep _ _) = True"
| "sleepy_pc (L_wait _ _) = True"
| "sleepy_pc _ = False"

fun carries :: "bool \<Rightarrow> lw_pc \<Rightarrow> bool" where
  "carries q (L_sleep _ _) = (\<not> q)"
| "carries q (L_wait _ _) = (\<not> q)"
| "carries q (L_back _ _ r) = (r = CELL_OK)"
| "carries q L_take = True"
| "carries q (L_unlock _) = True"
| "carries q (L_reown _) = True"
| "carries q L_uagain = True"
| "carries q _ = False"

abbreviation retry :: "lw_sys \<Rightarrow> bool" where
  "retry z \<equiv> lw_retry (ls_mem z)"

fun lpc_ok :: "lw_sys \<Rightarrow> tid \<Rightarrow> lw_pc \<Rightarrow> bool" where
  "lpc_ok z t (L_spin rt _ _) = (rt \<longrightarrow> retry z)"
| "lpc_ok z t (L_cas rt _) = (rt \<longrightarrow> retry z)"
| "lpc_ok z t (L_call rt _) = (rt \<longrightarrow> retry z)"
| "lpc_ok z t (L_own rt _) = ((rt \<longrightarrow> retry z) \<and> gpr_of (ls_lv2 z) t 3 = CELL_OK)"
| "lpc_ok z t (L_sleep rt _) =
     ((rt \<longrightarrow> retry z) \<and> gpr_of (ls_lv2 z) t 3 = (if enlisted z t \<or> \<not> retry z then CELL_OK else CELL_EBUSY))"
| "lpc_ok z t (L_wait rt _) =
     ((rt \<longrightarrow> retry z) \<and> gpr_of (ls_lv2 z) t 3 = (if enlisted z t \<or> \<not> retry z then CELL_OK else CELL_EBUSY))"
| "lpc_ok z t (L_back rt _ r) = ((rt \<longrightarrow> retry z) \<and> r \<in> {CELL_OK, CELL_EBUSY, CELL_ETIMEDOUT} \<and> r \<noteq> (if retry z then CELL_OK else CELL_EBUSY))"
| "lpc_ok z t L_take = (\<not> retry z)"
| "lpc_ok z t L_release = (lw_owner (ls_mem z) = tid_word t \<and> lw_recursive_count (ls_mem z) = 0 \<and> ls_depth z t = 1)"
| "lpc_ok z t (L_unlock u2) = (u2 = retry z)"
| "lpc_ok z t (L_reown u2) = (u2 = retry z)"
| "lpc_ok z t (L_wake u2 f) =
     (u2 = retry z \<and> f \<noteq> t \<and> \<not> on_queue z f \<and> F_again \<notin> flags_of (ls_lv2 z) f \<and> sleepy_pc (ls_pc z f))"
| "lpc_ok z t L_stopped = (on_queue z t \<and> F_again \<in> flags_of (ls_lv2 z) t)"
| "lpc_ok z t L_throw = False"
| "lpc_ok z t _ = True"

definition lw_pcs :: "lw_sys \<Rightarrow> bool" where
  "lw_pcs z \<longleftrightarrow> (\<forall>t. lpc_ok z t (ls_pc z t) \<and> (ls_pc z t \<noteq> L_idle \<longrightarrow> is_ppu t) \<and> ((\<exists>u2 f. ls_pc z t = L_wake u2 f) \<longleftrightarrow> ls_lock z = Some t))"

definition lw_queue :: "lw_sys \<Rightarrow> bool" where
  "lw_queue z \<longleftrightarrow> distinct (lwm_sq (ls_obj z)) \<and> (\<forall>t. on_queue z t \<longrightarrow> sleepy_pc (ls_pc z t) \<or> ls_pc z t = L_stopped)
     \<and> (lwm_signaled (ls_obj z) \<noteq> 0 \<longrightarrow> lwm_sq (ls_obj z) = [])"

definition lw_owners :: "lw_sys \<Rightarrow> bool" where
  "lw_owners z \<longleftrightarrow>
     (\<forall>t. 0 < ls_depth z t \<longrightarrow> is_ppu t \<and> lw_owner (ls_mem z) = tid_word t \<and> ls_depth z t = unat (lw_recursive_count (ls_mem z)) + 1)
   \<and> (\<forall>t. is_ppu t \<and> lw_owner (ls_mem z) = tid_word t \<longrightarrow> 0 < ls_depth z t)
   \<and> (lw_owner (ls_mem z) = lwmutex_free \<or> lw_owner (ls_mem z) = lwmutex_reserved \<or> (\<exists>t. is_ppu t \<and> lw_owner (ls_mem z) = tid_word t))
   \<and> (lw_owner (ls_mem z) = lwmutex_free \<or> lw_owner (ls_mem z) = lwmutex_reserved \<longrightarrow> lw_recursive_count (ls_mem z) = 0)"

definition lw_count :: "lw_sys \<Rightarrow> bool" where
  "lw_count z \<longleftrightarrow> unat (lw_waiter (ls_mem z)) = card {t. contends (ls_pc z t)}"

definition lw_tokens :: "lw_sys \<Rightarrow> bool" where
  "lw_tokens z \<longleftrightarrow>
     (if retry z then ls_tok z = T_none \<and> lw_owner (ls_mem z) \<noteq> lwmutex_reserved \<and> even (lwm_signaled (ls_obj z))
      else (lw_owner (ls_mem z) = lwmutex_reserved \<longleftrightarrow> ls_tok z \<noteq> T_none)
         \<and> lwm_signaled (ls_obj z) = (if ls_tok z = T_kernel then 1 else 0)
         \<and> (\<forall>t. ls_tok z = T_with t \<longleftrightarrow> carries (on_queue z t) (ls_pc z t))
         \<and> (\<forall>t. past_cas (ls_pc z t) \<longrightarrow> lw_owner (ls_mem z) \<noteq> lwmutex_free))"

definition lw_inv :: "lw_sys \<Rightarrow> bool" where
  "lw_inv z \<longleftrightarrow> sleep_map (ls_lv2 z) (sleep_of z) \<and> lw_pcs z \<and> lw_queue z \<and> lw_owners z \<and> lw_count z \<and> lw_tokens z"

lemma lgo_sel [simp]:
  "ls_lv2 (lgo t pc z) = ls_lv2 z" "ls_obj (lgo t pc z) = ls_obj z" "ls_mem (lgo t pc z) = ls_mem z" "ls_lock (lgo t pc z) = ls_lock z"
  "ls_pc (lgo t pc z) = (ls_pc z)(t := pc)" "ls_depth (lgo t pc z) = ls_depth z" "ls_tok (lgo t pc z) = ls_tok z"
  "ls_lv2 (gain t z) = ls_lv2 z" "ls_obj (gain t z) = ls_obj z" "ls_mem (gain t z) = ls_mem z" "ls_lock (gain t z) = ls_lock z"
  "ls_pc (gain t z) = ls_pc z" "ls_depth (gain t z) = (ls_depth z)(t := ls_depth z t + 1)" "ls_tok (gain t z) = ls_tok z"
  "ls_lv2 (lose t z) = ls_lv2 z" "ls_obj (lose t z) = ls_obj z" "ls_mem (lose t z) = ls_mem z" "ls_lock (lose t z) = ls_lock z"
  "ls_pc (lose t z) = ls_pc z" "ls_depth (lose t z) = (ls_depth z)(t := ls_depth z t - 1)" "ls_tok (lose t z) = ls_tok z"
  by (simp_all add: lgo_def gain_def lose_def)

lemma lw_retry_upd [simp]: "lw_retry (m\<lparr>lw_waiter := n\<rparr>) = lw_retry m" "lw_retry (m\<lparr>lw_owner := v\<rparr>) = lw_retry m"
  by (simp_all add: lw_retry_def)

lemma past_cas_not [simp]: "\<not> past_cas (L_cas rt n)"
  by (simp add: past_cas_def)

lemma lw_invD:
  assumes "lw_inv z"
  shows "sleep_map (ls_lv2 z) (sleep_of z)" "lw_pcs z" "lw_queue z" "lw_owners z" "lw_count z" "lw_tokens z"
    "lpc_ok z t (ls_pc z t)" "ls_pc z t \<noteq> L_idle \<Longrightarrow> is_ppu t" "ls_pc z t = L_wake u2 f \<Longrightarrow> ls_lock z = Some t"
    "ls_lock z = Some t \<Longrightarrow> \<exists>u2 f. ls_pc z t = L_wake u2 f"
  using assms unfolding lw_inv_def lw_pcs_def by blast+

fun waking :: "lw_pc \<Rightarrow> bool" where
  "waking (L_wake _ _) = True"
| "waking _ = False"

lemma waking_iff: "waking pc \<longleftrightarrow> (\<exists>u2 f. pc = L_wake u2 f)"
  by (cases pc) auto

text \<open>What a step of a thread leaves alone of the others.\<close>

definition lmoved :: "lw_sys \<Rightarrow> lw_sys \<Rightarrow> tid \<Rightarrow> bool" where
  "lmoved z z' t \<longleftrightarrow> lw_attribute (ls_mem z') = lw_attribute (ls_mem z) \<and> ls_lock z' = ls_lock z
     \<and> (\<forall>u. u \<noteq> t \<longrightarrow> ls_pc z' u = ls_pc z u \<and> ls_depth z' u = ls_depth z u \<and> (on_queue z' u \<longleftrightarrow> on_queue z u)
        \<and> (F_again \<in> flags_of (ls_lv2 z') u \<longleftrightarrow> F_again \<in> flags_of (ls_lv2 z) u) \<and> gpr_of (ls_lv2 z') u 3 = gpr_of (ls_lv2 z) u 3
        \<and> (is_ppu u \<longrightarrow> (lw_owner (ls_mem z') = tid_word u \<longleftrightarrow> lw_owner (ls_mem z) = tid_word u)
            \<and> (lw_owner (ls_mem z) = tid_word u \<longrightarrow> lw_recursive_count (ls_mem z') = lw_recursive_count (ls_mem z))))"

lemma lmovedD:
  assumes "lmoved z z' t" "u \<noteq> t"
  shows "ls_pc z' u = ls_pc z u" "ls_depth z' u = ls_depth z u" "on_queue z' u \<longleftrightarrow> on_queue z u"
    "F_again \<in> flags_of (ls_lv2 z') u \<longleftrightarrow> F_again \<in> flags_of (ls_lv2 z) u" "gpr_of (ls_lv2 z') u 3 = gpr_of (ls_lv2 z) u 3"
    "is_ppu u \<Longrightarrow> lw_owner (ls_mem z') = tid_word u \<longleftrightarrow> lw_owner (ls_mem z) = tid_word u"
    "is_ppu u \<Longrightarrow> lw_owner (ls_mem z) = tid_word u \<Longrightarrow> lw_recursive_count (ls_mem z') = lw_recursive_count (ls_mem z)"
  using assms unfolding lmoved_def by blast+

lemma lmoved_retry: "lmoved z z' t \<Longrightarrow> retry z' = retry z"
  by (simp add: lmoved_def lw_retry_def)

lemma lmoved_picked:
  assumes m: "lmoved z z' t" and w: "\<not> waking (ls_pc z t)" "\<not> waking (ls_pc z' t)"
  shows "picked z' u = picked z u"
proof -
  have "ls_pc z' c = L_wake u2 u \<longleftrightarrow> ls_pc z c = L_wake u2 u" for c u2
    using w lmovedD(1) [OF m, of c] by (cases "c = t") (auto simp: waking_iff)
  then show ?thesis using m by (simp add: picked_def lmoved_def)
qed

lemma lmoved_sleep:
  assumes m: "lmoved z z' t" and w: "\<not> waking (ls_pc z t)" "\<not> waking (ls_pc z' t)"
  shows "sleep_of z' = (sleep_of z)(t := sleep_of z' t)"
proof
  fix u show "sleep_of z' u = ((sleep_of z)(t := sleep_of z' t)) u"
    using lmovedD(1,3) [OF m, of u] lmoved_picked [OF m w, of u] by (cases "u = t") (auto simp: sleep_of_def enlisted_def)
qed

lemma picked_sleepy:
  assumes "lw_inv z" "picked z t"
  shows "sleepy_pc (ls_pc z t)" "\<not> on_queue z t" "F_again \<notin> flags_of (ls_lv2 z) t"
proof -
  obtain c u2 where "ls_pc z c = L_wake u2 t" using assms(2) by (auto simp: picked_def)
  then show "sleepy_pc (ls_pc z t)" "\<not> on_queue z t" "F_again \<notin> flags_of (ls_lv2 z) t"
    using lw_invD(7) [OF assms(1), of c] by auto
qed

lemma lmoved_pcs:
  assumes i: "lw_inv z" and m: "lmoved z z' t" and w: "\<not> waking (ls_pc z t)" "\<not> waking (ls_pc z' t)"
    and pk: "picked z t \<Longrightarrow> sleepy_pc (ls_pc z' t) \<and> \<not> on_queue z' t \<and> F_again \<notin> flags_of (ls_lv2 z') t"
    and pc: "lpc_ok z' t (ls_pc z' t)" "is_ppu t"
  shows "lw_pcs z'"
  unfolding lw_pcs_def
proof
  fix u
  note D = lmovedD [OF m, of u] and R = lmoved_retry [OF m]
  have l: "ls_lock z' = ls_lock z" using m by (simp add: lmoved_def)
  show "lpc_ok z' u (ls_pc z' u) \<and> (ls_pc z' u \<noteq> L_idle \<longrightarrow> is_ppu u) \<and> ((\<exists>u2 f. ls_pc z' u = L_wake u2 f) \<longleftrightarrow> ls_lock z' = Some u)"
  proof (cases "u = t")
    case True
    then show ?thesis using pc w l lw_invD(10) [OF i, of t] by (auto simp: waking_iff)
  next
    case False
    note D = D [OF False]
    have k: "enlisted z' u = enlisted z u" using D(3) lmoved_picked [OF m w] by (simp add: enlisted_def)
    have "lpc_ok z' u (ls_pc z u)"
    proof (cases "ls_pc z u")
      case (L_wake u2 f)
      then have "picked z f" using lw_invD(9) [OF i L_wake] by (auto simp: picked_def)
      then show ?thesis
        using L_wake lw_invD(7) [OF i, of u] R pk lmovedD(1,3,4) [OF m, of f] by (cases "f = t") auto
    next
      case L_release
      then have "is_ppu u" using lw_invD(8) [OF i, of u] by simp
      then show ?thesis using L_release lw_invD(7) [OF i, of u] D by simp
    qed (use lw_invD(7) [OF i, of u] R D k in auto)
    then show ?thesis using D(1) lw_invD(8-10) [OF i, of u] l by auto
  qed
qed

lemma lw_move:
  assumes i: "lw_inv z" and m: "lmoved z z' t" and w: "\<not> waking (ls_pc z t)" "\<not> waking (ls_pc z' t)"
    and pk: "picked z t \<Longrightarrow> sleepy_pc (ls_pc z' t) \<and> \<not> on_queue z' t \<and> F_again \<notin> flags_of (ls_lv2 z') t"
    and pc: "lpc_ok z' t (ls_pc z' t)" "is_ppu t" and s: "sleep_map (ls_lv2 z') ((sleep_of z)(t := sleep_of z' t))"
    and q: "lw_queue z'" "lw_owners z'" "lw_count z'" "lw_tokens z'"
  shows "lw_inv z'"
  using lmoved_pcs [OF i m w pk pc] s q lmoved_sleep [OF m w] by (simp add: lw_inv_def)

text \<open>The parts of the invariant, for a step of one thread.\<close>

lemma ppus_finite: "finite {t. is_ppu t}" "card {t. is_ppu t} = 0x1000000"
proof -
  have "{t. is_ppu t} = {0x1000000..<0x2000000}" by (auto simp: is_ppu_range)
  then show "finite {t. is_ppu t}" "card {t. is_ppu t} = 0x1000000" by simp_all
qed

lemma contenders:
  assumes "lw_inv z"
  shows "finite {t. contends (ls_pc z t)}" "unat (lw_waiter (ls_mem z)) = card {t. contends (ls_pc z t)}"
    "unat (lw_waiter (ls_mem z)) \<le> 0x1000000" "contends (ls_pc z t) \<Longrightarrow> lw_waiter (ls_mem z) \<noteq> 0"
proof -
  have s: "{t. contends (ls_pc z t)} \<subseteq> {t. is_ppu t}"
  proof
    fix t assume "t \<in> {t. contends (ls_pc z t)}"
    then have "ls_pc z t \<noteq> L_idle" by auto
    then show "t \<in> {t. is_ppu t}" using lw_invD(8) [OF assms] by simp
  qed
  show f: "finite {t. contends (ls_pc z t)}" by (rule finite_subset [OF s ppus_finite(1)])
  show c: "unat (lw_waiter (ls_mem z)) = card {t. contends (ls_pc z t)}" using lw_invD(5) [OF assms] by (simp add: lw_count_def)
  show "unat (lw_waiter (ls_mem z)) \<le> 0x1000000" using card_mono [OF ppus_finite(1) s] ppus_finite(2) c by simp
  show "lw_waiter (ls_mem z) \<noteq> 0" if "contends (ls_pc z t)"
  proof
    assume "lw_waiter (ls_mem z) = 0"
    then have "{t. contends (ls_pc z t)} = {}" using f c by simp
    then show False using that by blast
  qed
qed

lemma lw_incdec:
  assumes i: "lw_inv z"
  shows "lw_inc (ls_mem z) = (ls_mem z)\<lparr>lw_waiter := lw_waiter (ls_mem z) + 1\<rparr>"
    "unat (lw_waiter (ls_mem z) + 1) = unat (lw_waiter (ls_mem z)) + 1"
    "contends (ls_pc z t) \<Longrightarrow> lw_dec (ls_mem z) = (ls_mem z)\<lparr>lw_waiter := lw_waiter (ls_mem z) - 1\<rparr>"
    "contends (ls_pc z t) \<Longrightarrow> unat (lw_waiter (ls_mem z) - 1) + 1 = unat (lw_waiter (ls_mem z))"
proof -
  have n: "lw_waiter (ls_mem z) \<noteq> 0xffffffff" using contenders(3) [OF i] by auto
  then show "lw_inc (ls_mem z) = (ls_mem z)\<lparr>lw_waiter := lw_waiter (ls_mem z) + 1\<rparr>" by (rule lw_inc_eq)
  show "unat (lw_waiter (ls_mem z) + 1) = unat (lw_waiter (ls_mem z)) + 1" by (rule unat_inc [OF n])
  assume "contends (ls_pc z t)"
  then have "lw_waiter (ls_mem z) \<noteq> 0" by (rule contenders(4) [OF i])
  then show "lw_dec (ls_mem z) = (ls_mem z)\<lparr>lw_waiter := lw_waiter (ls_mem z) - 1\<rparr>" "unat (lw_waiter (ls_mem z) - 1) + 1 = unat (lw_waiter (ls_mem z))"
    by (simp_all add: lw_dec_eq unat_dec unat_gt_0)
qed

lemma count_move:
  assumes i: "lw_inv z" and o': "\<And>u. u \<noteq> t \<Longrightarrow> ls_pc z' u = ls_pc z u"
    and w: "lw_waiter (ls_mem z') = (if contends (ls_pc z t) = contends (ls_pc z' t) then lw_waiter (ls_mem z)
      else if contends (ls_pc z' t) then lw_waiter (ls_mem z) + 1 else lw_waiter (ls_mem z) - 1)"
  shows "lw_count z'"
proof -
  note c = contenders(1,2) [OF i] and u = lw_incdec(2) [OF i] lw_incdec(4) [OF i, of t]
  let ?C = "{u. contends (ls_pc z u)}"
  have s: "{u. contends (ls_pc z' u)} = (if contends (ls_pc z' t) then insert t ?C else ?C - {t})"
  proof (rule set_eqI)
    fix u show "u \<in> {u. contends (ls_pc z' u)} \<longleftrightarrow> u \<in> (if contends (ls_pc z' t) then insert t ?C else ?C - {t})"
      using o' [of u] by (cases "u = t") simp_all
  qed
  have t: "t \<in> ?C \<longleftrightarrow> contends (ls_pc z t)" by simp
  show ?thesis
  proof (cases "contends (ls_pc z t)")
    case True
    then have "card ?C = card (?C - {t}) + 1" using card_Suc_Diff1 [OF c(1), of t] t by linarith
    then show ?thesis using True c u w s t unfolding lw_count_def by (cases "contends (ls_pc z' t)") (simp_all add: insert_absorb)
  next
    case False
    then show ?thesis using c u w s t unfolding lw_count_def by (cases "contends (ls_pc z' t)") simp_all
  qed
qed

lemma lw_ownersD:
  assumes "lw_inv z"
  shows "0 < ls_depth z t \<Longrightarrow> is_ppu t \<and> lw_owner (ls_mem z) = tid_word t \<and> ls_depth z t = unat (lw_recursive_count (ls_mem z)) + 1"
    "is_ppu t \<Longrightarrow> lw_owner (ls_mem z) = tid_word t \<Longrightarrow> 0 < ls_depth z t"
    "lw_owner (ls_mem z) = lwmutex_free \<or> lw_owner (ls_mem z) = lwmutex_reserved \<or> (\<exists>t. is_ppu t \<and> lw_owner (ls_mem z) = tid_word t)"
    "lw_owner (ls_mem z) = lwmutex_free \<or> lw_owner (ls_mem z) = lwmutex_reserved \<Longrightarrow> lw_recursive_count (ls_mem z) = 0"
  using lw_invD(4) [OF assms] unfolding lw_owners_def by blast+

lemma owners_move:
  assumes i: "lw_inv z" and m: "lmoved z z' t" and t: "is_ppu t"
    and d: "0 < ls_depth z' t \<longleftrightarrow> lw_owner (ls_mem z') = tid_word t" "0 < ls_depth z' t \<Longrightarrow> ls_depth z' t = unat (lw_recursive_count (ls_mem z')) + 1"
    and o': "lw_owner (ls_mem z') \<in> {lwmutex_free, lwmutex_reserved, tid_word t, lw_owner (ls_mem z)}"
    and c: "lw_owner (ls_mem z') \<in> {lwmutex_free, lwmutex_reserved} \<Longrightarrow> lw_recursive_count (ls_mem z') = 0"
  shows "lw_owners z'"
proof -
  note O = lw_ownersD [OF i] and D = lmovedD [OF m]
  have "is_ppu u \<and> lw_owner (ls_mem z') = tid_word u \<and> ls_depth z' u = unat (lw_recursive_count (ls_mem z')) + 1" if "0 < ls_depth z' u" for u
    using that d t O(1) [of u] D(2,6,7) [of u] by (cases "u = t") auto
  moreover have "0 < ls_depth z' u" if "is_ppu u" "lw_owner (ls_mem z') = tid_word u" for u
    using that d O(2) [of u] D(2,6) [of u] by (cases "u = t") auto
  moreover have "lw_owner (ls_mem z') = lwmutex_free \<or> lw_owner (ls_mem z') = lwmutex_reserved \<or> (\<exists>t. is_ppu t \<and> lw_owner (ls_mem z') = tid_word t)"
    using o' t O(3) by auto
  ultimately show ?thesis using c unfolding lw_owners_def by blast
qed

lemma owners_same:
  assumes "lw_inv z" "lw_owner (ls_mem z') = lw_owner (ls_mem z)" "lw_recursive_count (ls_mem z') = lw_recursive_count (ls_mem z)"
    "ls_depth z' = ls_depth z"
  shows "lw_owners z'"
  using lw_invD(4) [OF assms(1)] unfolding lw_owners_def assms(2-4) .

lemma lw_tokensD:
  assumes "lw_inv z"
  shows "retry z \<Longrightarrow> ls_tok z = T_none" "retry z \<Longrightarrow> lw_owner (ls_mem z) \<noteq> lwmutex_reserved" "retry z \<Longrightarrow> even (lwm_signaled (ls_obj z))"
    "\<not> retry z \<Longrightarrow> lw_owner (ls_mem z) = lwmutex_reserved \<longleftrightarrow> ls_tok z \<noteq> T_none"
    "\<not> retry z \<Longrightarrow> lwm_signaled (ls_obj z) = (if ls_tok z = T_kernel then 1 else 0)"
    "\<not> retry z \<Longrightarrow> ls_tok z = T_with t \<longleftrightarrow> carries (on_queue z t) (ls_pc z t)"
    "\<not> retry z \<Longrightarrow> past_cas (ls_pc z t) \<Longrightarrow> lw_owner (ls_mem z) \<noteq> lwmutex_free"
  using lw_invD(6) [OF assms] unfolding lw_tokens_def by (auto split: if_splits)

lemma tokens_move:
  assumes i: "lw_inv z" and m: "lmoved z z' t"
    and r: "retry z \<Longrightarrow> ls_tok z' = T_none \<and> lw_owner (ls_mem z') \<noteq> lwmutex_reserved \<and> even (lwm_signaled (ls_obj z'))"
    and n: "\<not> retry z \<Longrightarrow> (lw_owner (ls_mem z') = lwmutex_reserved \<longleftrightarrow> ls_tok z' \<noteq> T_none)"
      "\<not> retry z \<Longrightarrow> lwm_signaled (ls_obj z') = (if ls_tok z' = T_kernel then 1 else 0)"
      "\<not> retry z \<Longrightarrow> ls_tok z' = T_with t \<longleftrightarrow> carries (on_queue z' t) (ls_pc z' t)"
    and k: "\<And>u. u \<noteq> t \<Longrightarrow> ls_tok z' = T_with u \<longleftrightarrow> ls_tok z = T_with u"
    and f: "\<not> retry z \<Longrightarrow> lw_owner (ls_mem z') = lwmutex_free \<Longrightarrow> \<not> past_cas (ls_pc z' t) \<and> (lw_owner (ls_mem z) = lwmutex_free \<or> lw_waiter (ls_mem z) = 0)"
  shows "lw_tokens z'"
proof (cases "retry z")
  case True
  then show ?thesis using r lmoved_retry [OF m] by (simp add: lw_tokens_def)
next
  case False
  note T = lw_tokensD [OF i]
  have "ls_tok z' = T_with u \<longleftrightarrow> carries (on_queue z' u) (ls_pc z' u)" for u
    using n(3) [OF False] k [of u] T(6) [OF False, of u] lmovedD(1,3) [OF m, of u] by (cases "u = t") auto
  moreover have "lw_owner (ls_mem z') \<noteq> lwmutex_free" if p: "past_cas (ls_pc z' u)" for u
  proof
    assume o': "lw_owner (ls_mem z') = lwmutex_free"
    note f = f [OF False o']
    then have "u \<noteq> t" using p by auto
    then have p: "past_cas (ls_pc z u)" using p lmovedD(1) [OF m] by simp
    then have "contends (ls_pc z u)" by (simp add: past_cas_def)
    then show False using f contenders(4) [OF i] T(7) [OF False p] by blast
  qed
  ultimately show ?thesis using False n lmoved_retry [OF m] by (simp add: lw_tokens_def)
qed

text \<open>Steps in guest memory.\<close>

lemma user_sleep:
  assumes "lw_inv z" "pc_sleep False (ls_pc z t) = Z_none" "pc_sleep False (ls_pc z' t) = Z_none" "ls_lv2 z' = ls_lv2 z"
  shows "sleep_map (ls_lv2 z') ((sleep_of z)(t := sleep_of z' t))"
proof -
  have "pc_sleep l pc = Z_none" if "pc_sleep False pc = Z_none" for l pc using that by (cases pc) auto
  then have "sleep_of z t = Z_none" "sleep_of z' t = Z_none" using assms(2,3) by (simp_all add: sleep_of_def)
  then have "(sleep_of z)(t := sleep_of z' t) = sleep_of z" by (simp add: fun_upd_idem)
  then show ?thesis using assms(4) lw_invD(1) [OF assms(1)] by simp
qed

lemma user_move:
  assumes i: "lw_inv z" and m: "lmoved z z' t" and e: "ls_lv2 z' = ls_lv2 z" "ls_obj z' = ls_obj z"
    and w: "\<not> waking (ls_pc z t)" "\<not> waking (ls_pc z' t)" "pc_sleep False (ls_pc z t) = Z_none" "pc_sleep False (ls_pc z' t) = Z_none"
    and pc: "lpc_ok z' t (ls_pc z' t)" "is_ppu t" and q: "lw_owners z'" "lw_count z'" "lw_tokens z'"
  shows "lw_inv z'"
proof (rule lw_move [OF i m w(1,2) _ pc user_sleep [OF i w(3,4) e(1)] _ q])
  have ns: "\<not> sleepy_pc (ls_pc z t)" "ls_pc z t \<noteq> L_stopped" using w(3) by (cases "ls_pc z t"; simp)+
  then show "picked z t \<Longrightarrow> sleepy_pc (ls_pc z' t) \<and> \<not> on_queue z' t \<and> F_again \<notin> flags_of (ls_lv2 z') t" using picked_sleepy [OF i] by blast
  have "\<not> on_queue z t" using ns lw_invD(3) [OF i] by (auto simp: lw_queue_def)
  then show "lw_queue z'" using lw_invD(3) [OF i] lmovedD(1) [OF m] e(2) unfolding lw_queue_def by metis
qed

lemmas user_facts = tid_word_eq lmoved_def lw_cas_free_def

lemma no_carry:
  assumes "lw_inv z" "\<not> carries False (ls_pc z t)" "\<not> sleepy_pc (ls_pc z t)"
  shows "ls_tok z \<noteq> T_with t"
proof (cases "retry z")
  case False
  have "carries (on_queue z t) (ls_pc z t) = carries False (ls_pc z t)" using assms(3) by (cases "ls_pc z t") auto
  then show ?thesis using lw_tokensD(6) [OF assms(1) False, of t] assms(2) by simp
qed (use lw_tokensD(1) [OF assms(1)] in simp)

text \<open>A thread moves on without a change of the lock word, or of the number of waiters only.\<close>

lemma step_user:
  assumes i: "lw_inv z" and t: "is_ppu t"
    and c: "n = (if contends (ls_pc z t) = contends pc then lw_waiter (ls_mem z)
      else if contends pc then lw_waiter (ls_mem z) + 1 else lw_waiter (ls_mem z) - 1)"
    and w: "\<not> waking (ls_pc z t)" "\<not> waking pc" "pc_sleep False (ls_pc z t) = Z_none" "pc_sleep False pc = Z_none"
    and k: "carries False pc = carries False (ls_pc z t)" and p: "past_cas pc \<Longrightarrow> lw_owner (ls_mem z) \<noteq> lwmutex_free"
    and ok: "lpc_ok (lgo t pc (z\<lparr>ls_mem := (ls_mem z)\<lparr>lw_waiter := n\<rparr>\<rparr>)) t pc"
  shows "lw_inv (lgo t pc (z\<lparr>ls_mem := (ls_mem z)\<lparr>lw_waiter := n\<rparr>\<rparr>))" (is "lw_inv ?z")
proof (rule user_move [OF i, where t = t])
  show mv: "lmoved z ?z t" by (simp add: lmoved_def)
  have nc: "carries l pc' = carries False pc'" if "pc_sleep False pc' = Z_none" for l pc' using that by (cases pc') auto
  show "lw_tokens ?z"
  proof (rule tokens_move [OF i mv])
    show "\<not> retry z \<Longrightarrow> ls_tok ?z = T_with t \<longleftrightarrow> carries (on_queue ?z t) (ls_pc ?z t)"
      using lw_tokensD(6) [OF i, of t] k nc [OF w(3)] nc [OF w(4)] by simp
  qed (use lw_tokensD [OF i] p in auto)
  show "lw_owners ?z" by (rule owners_same [OF i]) simp_all
  show "lw_count ?z" by (rule count_move [OF i, where t = t]) (simp_all add: c)
qed (use t w ok in simp_all)

lemma step_pc:
  assumes "lw_inv z" "is_ppu t" "contends (ls_pc z t) = contends pc"
    and "\<not> waking (ls_pc z t)" "\<not> waking pc" "pc_sleep False (ls_pc z t) = Z_none" "pc_sleep False pc = Z_none"
    and "carries False pc = carries False (ls_pc z t)" "past_cas pc \<Longrightarrow> lw_owner (ls_mem z) \<noteq> lwmutex_free" "lpc_ok (lgo t pc z) t pc"
  shows "lw_inv (lgo t pc z)"
  using step_user [OF assms(1,2) _ assms(4-9), of "lw_waiter (ls_mem z)"] assms(3,10) by simp

text \<open>The thread becomes the owner of a mutex nobody owns.\<close>

lemma lw_step_obtain:
  assumes i: "lw_inv z" and t: "is_ppu t" and o': "lw_owner (ls_mem z) = lwmutex_free \<or> lw_owner (ls_mem z) = lwmutex_reserved \<and> ls_tok z = T_with t"
    and c: "contends (ls_pc z t) = contends pc" and w: "\<not> waking (ls_pc z t)" "\<not> waking pc" "pc_sleep False (ls_pc z t) = Z_none" "pc_sleep False pc = Z_none"
    and k: "\<not> carries False pc" and p: "\<not> past_cas pc"
    and ok: "lpc_ok (lgo t pc (gain t (z\<lparr>ls_mem := (ls_mem z)\<lparr>lw_owner := tid_word t\<rparr>, ls_tok := T_none\<rparr>))) t pc"
  shows "lw_inv (lgo t pc (gain t (z\<lparr>ls_mem := (ls_mem z)\<lparr>lw_owner := tid_word t\<rparr>, ls_tok := T_none\<rparr>)))" (is "lw_inv ?z")
proof (rule user_move [OF i, where t = t])
  have "lw_owner (ls_mem z) \<noteq> tid_word u" if "is_ppu u" for u using o' tid_word_eq(2,3) [OF that] by auto
  then show mv: "lmoved z ?z t" using tid_word_eq(1) [OF t] by (simp add: lmoved_def)
  have d: "ls_depth z t = 0" using lw_ownersD(1) [OF i, of t] o' tid_word_eq(2,3) [OF t] by fastforce
  have rc: "lw_recursive_count (ls_mem z) = 0" using lw_ownersD(4) [OF i] o' by blast
  show "lw_owners ?z" using d rc t tid_word_eq(2,3) [OF t] by (intro owners_move [OF i mv t]) simp_all
  show "lw_count ?z" by (rule count_move [OF i, where t = t]) (simp_all add: c)
  have nc: "\<not> carries (on_queue z t) pc" using w(4) k by (cases pc) auto
  have T: "ls_tok z \<in> {T_none, T_with t}" using o' lw_tokensD(1,4) [OF i] by (cases "retry z") auto
  have sg: "\<not> retry z \<Longrightarrow> lwm_signaled (ls_obj z) = 0" using lw_tokensD(5) [OF i] T by auto
  show "lw_tokens ?z"
    using lw_tokensD(3) [OF i] sg T tid_word_eq(2,3) [OF t] nc p by (intro tokens_move [OF i mv]) auto
qed (use t w ok in simp_all)

lemma tok_idem: "ls_tok z = T_none \<Longrightarrow> z\<lparr>ls_mem := m, ls_tok := T_none\<rparr> = z\<lparr>ls_mem := m\<rparr>"
  by simp

lemma step_cas_free:
  assumes i: "lw_inv z" and t: "is_ppu t" and op: "lw_cas_free t (ls_mem z) = Some m"
    and "contends (ls_pc z t) = contends pc" "\<not> waking (ls_pc z t)" "\<not> waking pc" "pc_sleep False (ls_pc z t) = Z_none" "pc_sleep False pc = Z_none"
    and "\<not> carries False pc" "\<not> past_cas pc" "pc = L_undo \<or> (\<exists>r. pc = L_ret r)"
  shows "lw_inv (lgo t pc (gain t (z\<lparr>ls_mem := m\<rparr>)))"
proof -
  have m: "lw_owner (ls_mem z) = lwmutex_free" "m = (ls_mem z)\<lparr>lw_owner := tid_word t\<rparr>" using op by (auto simp: lw_cas_free_def split: if_splits)
  then have e: "ls_tok z = T_none" using lw_tokensD(1,4) [OF i] by (cases "retry z") auto
  have "lw_inv (lgo t pc (gain t (z\<lparr>ls_mem := (ls_mem z)\<lparr>lw_owner := tid_word t\<rparr>, ls_tok := T_none\<rparr>)))"
    by (rule lw_step_obtain [OF i t]) (use assms m in auto)
  then show ?thesis unfolding m(2) [symmetric] tok_idem [OF e] .
qed

lemma step_l_fast:
  assumes i: "lw_inv z" and pc: "ls_pc z t = L_idle" and t: "is_ppu t" and op: "lw_acquire t (ls_mem z) = (Some r, m)"
  shows "lw_inv (lgo t (L_ret (ucast r)) ((if r = CELL_OK then gain t else id) (z\<lparr>ls_mem := m\<rparr>)))"
proof (cases "lw_cas_free t (ls_mem z)")
  case (Some m1)
  then have "r = CELL_OK" "m1 = m" using op by (auto simp: lw_acquire_def)
  then show ?thesis using step_cas_free [OF i t, of m "L_ret CELL_OK"] Some pc by (simp add: past_cas_def)
next
  case None
  show ?thesis
  proof (cases "r = CELL_OK")
    case False
    then have "m = ls_mem z" using op None by (auto simp: lw_acquire_def split: if_splits)
    then show ?thesis using False step_pc [OF i t, of "L_ret (ucast r)"] pc by (simp add: past_cas_def)
  next
    case True
    then have o': "lw_owner (ls_mem z) = tid_word t" "lw_recursive_count (ls_mem z) \<noteq> 0xffffffff"
      "m = (ls_mem z)\<lparr>lw_recursive_count := lw_recursive_count (ls_mem z) + 1\<rparr>"
      using op None by (auto simp: lw_acquire_def split: if_splits)
    have d: "ls_depth z t = unat (lw_recursive_count (ls_mem z)) + 1" using lw_ownersD(1,2) [OF i, of t] o'(1) t by simp
    let ?z = "lgo t (L_ret CELL_OK) (gain t (z\<lparr>ls_mem := m\<rparr>))"
    have mv: "lmoved z ?z t" using o' tid_word_eq(1) [OF t] by (auto simp: lmoved_def)
    have "lw_inv ?z"
    proof (rule user_move [OF i mv])
      show "lw_owners ?z" using o' d unat_inc [OF o'(2)] tid_word_eq(2,3) [OF t] by (intro owners_move [OF i mv t]) auto
      show "lw_count ?z" using o'(3) by (intro count_move [OF i, where t = t]) (simp_all add: pc)
      show "lw_tokens ?z"
        using lw_tokensD [OF i] o' pc tid_word_eq(2,3) [OF t] by (intro tokens_move [OF i mv]) (auto simp: past_cas_def)
    qed (use pc t in simp_all)
    then show ?thesis using True by simp
  qed
qed

text \<open>The owner gives the mutex up.\<close>

lemma step_drop:
  assumes i: "lw_inv z" and t: "is_ppu t" and o': "lw_owner (ls_mem z) = tid_word t" "lw_recursive_count (ls_mem z) = 0"
    and pc: "ls_pc z t = L_idle \<and> lw_waiter (ls_mem z) = 0 \<and> v = lwmutex_free \<and> k = T_none \<and> pc = L_ret r
      \<or> ls_pc z t = L_release \<and> (if retry z then v = lwmutex_free \<and> k = T_none \<and> pc = L_unlock True
          else v = lwmutex_reserved \<and> k = T_with t \<and> pc = L_unlock False)"
  shows "lw_inv (lgo t pc (lose t (z\<lparr>ls_mem := (ls_mem z)\<lparr>lw_owner := v\<rparr>, ls_tok := k\<rparr>)))" (is "lw_inv ?z")
proof (rule user_move [OF i, where t = t])
  note w = tid_word_eq [OF t]
  have v: "v \<in> {lwmutex_free, lwmutex_reserved}" using pc by (auto split: if_splits)
  have "v \<noteq> tid_word u" if "is_ppu u" for u using v tid_word_eq(2,3) [OF that] by auto
  then show mv: "lmoved z ?z t" using o' w(1) by (auto simp: lmoved_def)
  have d: "ls_depth z t = 1" using lw_ownersD(1,2) [OF i, of t] o' t by simp
  show "lw_owners ?z" using d o' v w(2,3) by (intro owners_move [OF i mv t]) auto
  show "lw_count ?z" using pc by (intro count_move [OF i, where t = t]) (auto split: if_splits)
  have T: "ls_tok z = T_none" using lw_tokensD(1,4) [OF i] o'(1) w(3) by (cases "retry z") auto
  have sg: "\<not> retry z \<Longrightarrow> lwm_signaled (ls_obj z) = 0" using lw_tokensD(5) [OF i] T by auto
  show "lw_tokens ?z"
    using lw_tokensD(3) [OF i] sg T pc by (intro tokens_move [OF i mv]) (auto simp: past_cas_def split: if_splits)
  show "lpc_ok ?z t (ls_pc ?z t)" using pc by (auto simp: lw_retry_def split: if_splits)
qed (use t pc in \<open>auto split: if_splits\<close>)

lemma step_l_unlock:
  assumes i: "lw_inv z" and pc: "ls_pc z t = L_idle" and t: "is_ppu t" and op: "lw_give_up t (ls_mem z) = (Some r, m)"
  shows "lw_inv (lgo t (L_ret (ucast r)) ((if r = CELL_OK then lose t else id) (z\<lparr>ls_mem := m\<rparr>)))"
proof -
  consider "r = CELL_EPERM" "m = ls_mem z"
    | "r = CELL_OK" "lw_owner (ls_mem z) = tid_word t" "lw_recursive_count (ls_mem z) \<noteq> 0" "m = (ls_mem z)\<lparr>lw_recursive_count := lw_recursive_count (ls_mem z) - 1\<rparr>"
    | "r = CELL_OK" "lw_owner (ls_mem z) = tid_word t" "lw_recursive_count (ls_mem z) = 0" "lw_waiter (ls_mem z) = 0" "m = (ls_mem z)\<lparr>lw_owner := lwmutex_free\<rparr>"
    using op by (auto simp: lw_give_up_def split: if_splits)
  then show ?thesis
  proof cases
    case 1
    then show ?thesis using step_pc [OF i t, of "L_ret (ucast r)"] pc by (simp add: past_cas_def)
  next
    case 2
    have d: "ls_depth z t = unat (lw_recursive_count (ls_mem z)) + 1" using lw_ownersD(1,2) [OF i, of t] 2(2) t by simp
    have c: "unat (lw_recursive_count (ls_mem z)) = unat (lw_recursive_count (ls_mem z) - 1) + 1" using unat_dec [OF 2(3)] 2(3) by (simp add: unat_gt_0)
    let ?z = "lgo t (L_ret CELL_OK) (lose t (z\<lparr>ls_mem := m\<rparr>))"
    have mv: "lmoved z ?z t" using 2 tid_word_eq(1) [OF t] by (auto simp: lmoved_def)
    have "lw_inv ?z"
    proof (rule user_move [OF i mv])
      show "lw_owners ?z" using 2 d c tid_word_eq(2,3) [OF t] by (intro owners_move [OF i mv t]) auto
      show "lw_count ?z" using 2(4) by (intro count_move [OF i, where t = t]) (simp_all add: pc)
      show "lw_tokens ?z"
        using lw_tokensD [OF i] 2 pc tid_word_eq(2,3) [OF t] by (intro tokens_move [OF i mv]) (auto simp: past_cas_def)
    qed (use pc t in simp_all)
    then show ?thesis using 2(1) by simp
  next
    case 3
    have e: "ls_tok z = T_none" using lw_tokensD(1,4) [OF i] 3(2) tid_word_eq(3) [OF t] by (cases "retry z") auto
    have "lw_inv (lgo t (L_ret CELL_OK) (lose t (z\<lparr>ls_mem := m, ls_tok := T_none\<rparr>)))"
      using step_drop [OF i t 3(2,3), of lwmutex_free T_none "L_ret CELL_OK" CELL_OK] pc 3 by simp
    then show ?thesis unfolding tok_idem [OF e] using 3(1) by simp
  qed
qed

lemma take_facts:
  assumes "lw_inv z" "ls_pc z t = L_take"
  shows "lw_owner (ls_mem z) = lwmutex_reserved" "ls_tok z = T_with t"
  using lw_tokensD(4) [OF assms(1)] lw_tokensD(6) [OF assms(1), of t] lw_invD(7) [OF assms(1), of t] assms(2) by auto

lemma back_facts:
  assumes "lw_inv z" "ls_pc z t = L_back rt n r"
  shows "rt \<Longrightarrow> retry z" "r \<in> {CELL_OK, CELL_EBUSY, CELL_ETIMEDOUT}" "retry z \<Longrightarrow> r \<noteq> CELL_OK" "\<not> retry z \<Longrightarrow> r \<noteq> CELL_EBUSY" "is_ppu t"
    "lw_dec (ls_mem z) = (ls_mem z)\<lparr>lw_waiter := lw_waiter (ls_mem z) - 1\<rparr>"
  using lw_invD(7,8) [OF assms(1), of t] lw_incdec(3) [OF assms(1), of t] assms(2) by auto

lemma step_back:
  assumes i: "lw_inv z" and pc: "ls_pc z t = L_back rt n r"
    and p: "\<not> waking pc" "pc_sleep False pc = Z_none" "\<not> contends pc" "carries False pc \<longleftrightarrow> r = CELL_OK" "lpc_ok (lgo t pc (z\<lparr>ls_mem := lw_dec (ls_mem z)\<rparr>)) t pc"
  shows "lw_inv (lgo t pc (z\<lparr>ls_mem := lw_dec (ls_mem z)\<rparr>))"
  using step_user [OF i back_facts(5) [OF i pc], of "lw_waiter (ls_mem z) - 1" pc] p pc back_facts(6) [OF i pc] by (simp add: past_cas_def)

text \<open>System calls: the lock word stays, the kernel object and the scheduler change.\<close>

lemma kernel_move:
  assumes i: "lw_inv z" and m: "lmoved z z' t" and mem: "ls_mem z' = ls_mem z" "ls_depth z' = ls_depth z"
    and w: "\<not> waking (ls_pc z t)" "\<not> waking (ls_pc z' t)" "contends (ls_pc z' t) = contends (ls_pc z t)"
    and p: "past_cas (ls_pc z' t) \<Longrightarrow> past_cas (ls_pc z t)"
    and pk: "picked z t \<Longrightarrow> sleepy_pc (ls_pc z' t) \<and> \<not> on_queue z' t \<and> F_again \<notin> flags_of (ls_lv2 z') t"
    and pc: "lpc_ok z' t (ls_pc z' t)" "is_ppu t" and s: "sleep_map (ls_lv2 z') ((sleep_of z)(t := sleep_of z' t))"
    and q: "lw_queue z'"
    and tk: "retry z \<Longrightarrow> ls_tok z' = T_none \<and> even (lwm_signaled (ls_obj z'))"
      "\<not> retry z \<Longrightarrow> ls_tok z' \<noteq> T_none \<longleftrightarrow> ls_tok z \<noteq> T_none"
      "\<not> retry z \<Longrightarrow> lwm_signaled (ls_obj z') = (if ls_tok z' = T_kernel then 1 else 0)"
      "\<not> retry z \<Longrightarrow> ls_tok z' = T_with t \<longleftrightarrow> carries (on_queue z' t) (ls_pc z' t)"
      "\<And>u. u \<noteq> t \<Longrightarrow> ls_tok z' = T_with u \<longleftrightarrow> ls_tok z = T_with u"
  shows "lw_inv z'"
proof (rule lw_move [OF i m w(1,2) pk pc s q])
  show "lw_owners z'" by (rule owners_same [OF i]) (simp_all add: mem)
  show "lw_count z'" using lmovedD(1) [OF m] by (intro count_move [OF i, where t = t]) (simp_all add: mem w(3))
  show "lw_tokens z'"
    using tk lw_tokensD(2,4) [OF i] lw_tokensD(7) [OF i, of t] p mem by (intro tokens_move [OF i m]) auto
qed

lemma lw_queueD:
  assumes "lw_inv z"
  shows "distinct (lwm_sq (ls_obj z))" "on_queue z t \<Longrightarrow> sleepy_pc (ls_pc z t) \<or> ls_pc z t = L_stopped" "lwm_signaled (ls_obj z) \<noteq> 0 \<Longrightarrow> lwm_sq (ls_obj z) = []"
  using lw_invD(3) [OF assms] unfolding lw_queue_def by blast+

text \<open>Taking the wake-up that is left in the kernel.\<close>

lemma step_signal:
  assumes i: "lw_inv z" and t: "is_ppu t" and pc: "ls_pc z t = L_call rt n \<or> ls_pc z t = L_own rt n"
    and x: "x = (ls_obj z)\<lparr>lwm_signaled := 0\<rparr>" and sg: "sig = lwm_signaled (ls_obj z)" "sig \<noteq> 0"
    and s: "sleep_map s ((sleep_of z)(t := Z_none))" "\<And>u. u \<noteq> t \<Longrightarrow> flags_of s u = flags_of (ls_lv2 z) u \<and> gpr_of s u 3 = gpr_of (ls_lv2 z) u 3"
  shows "lw_inv (lgo t (L_back rt n (signal_code sig)) (z\<lparr>ls_obj := x, ls_lv2 := s, ls_tok := if odd sig then T_with t else ls_tok z\<rparr>))" (is "lw_inv ?z")
proof (rule kernel_move [OF i, where t = t])
  note T = lw_tokensD [OF i]
  have o1: "\<not> retry z \<Longrightarrow> ls_tok z = T_kernel \<and> sig = 1" using T(5) sg by (auto split: if_splits)
  have o2: "retry z \<Longrightarrow> even sig" using T(3) sg by simp
  have np: "\<not> picked z t" using picked_sleepy(1) [OF i, of t] pc by auto
  show "lmoved z ?z t" using s(2) x by (simp add: lmoved_def)
  show "lpc_ok ?z t (ls_pc ?z t)" using lw_invD(7) [OF i, of t] pc o1 o2 by (auto simp: signal_code_def)
  show "sleep_map (ls_lv2 ?z) ((sleep_of z)(t := sleep_of ?z t))" using s(1) by (simp add: sleep_of_def)
  show "lw_queue ?z" using lw_queueD [OF i] x sg by (simp add: lw_queue_def)
  show "picked z t \<Longrightarrow> sleepy_pc (ls_pc ?z t) \<and> \<not> on_queue ?z t \<and> F_again \<notin> flags_of (ls_lv2 ?z) t" using np by simp
  show "ls_tok ?z = T_with u \<longleftrightarrow> ls_tok z = T_with u" if "u \<noteq> t" for u using o1 o2 T(1) that by (cases "retry z") auto
qed (use pc t x lw_tokensD(1,3) [OF i] lw_tokensD(5) [OF i] sg in \<open>auto simp: signal_code_def past_cas_def split: if_splits\<close>)

lemma sig_frame:
  "sleep_map (signal_result t sig s) c = sleep_map s c" "flags_of (signal_result t sig s) u = flags_of s u"
  "u \<noteq> t \<Longrightarrow> gpr (ppus (signal_result t sig s) u) = gpr (ppus s u)"
  by (auto simp: signal_result_def)

lemma step_l_call_signal:
  assumes i: "lw_inv z" and pc: "ls_pc z t = L_call rt n" and op: "lw_poll (ls_obj z) = (sig, x)" "sig \<noteq> 0"
  shows "lw_inv (lgo t (L_back rt n (signal_code sig))
      (z\<lparr>ls_obj := x, ls_lv2 := signal_result t sig (set_gpr t 3 CELL_OK (add_flags t {F_wait} (ls_lv2 z))),
         ls_tok := if odd sig then T_with t else ls_tok z\<rparr>))"
proof (rule step_signal [OF i])
  show "is_ppu t" using lw_invD(8) [OF i, of t] pc by simp
  have "sleep_map (add_flags t {F_wait} (ls_lv2 z)) (sleep_of z)" by (rule sleep_map_keep(2) [OF lw_invD(1) [OF i]]) simp
  then show "sleep_map (signal_result t sig (set_gpr t 3 CELL_OK (add_flags t {F_wait} (ls_lv2 z)))) ((sleep_of z)(t := Z_none))"
    using pc by (simp add: sig_frame sleep_of_def fun_upd_idem)
qed (use op pc in \<open>auto simp: lw_poll_def sig_frame add_flags_def set_gpr_def\<close>)

lemma step_l_call:
  assumes i: "lw_inv z" and pc: "ls_pc z t = L_call rt n" and op: "lw_poll (ls_obj z) = (0, x)" and r: "runs_quietly (ls_lv2 z) t"
  shows "lw_inv (lgo t (L_own rt n)
      (z\<lparr>ls_obj := x, ls_lv2 := set_cancel_sleep t 1 (set_gpr t 3 CELL_OK (add_flags t {F_wait} (ls_lv2 z)))\<rparr>))" (is "lw_inv ?z")
proof (rule kernel_move [OF i, where t = t])
  have x: "x = ls_obj z" using op by (cases "ls_obj z") (auto simp: lw_poll_def)
  have q: "\<not> on_queue z t" "\<not> picked z t" using lw_queueD(2) [OF i, of t] picked_sleepy(1) [OF i, of t] pc by auto
  show "lmoved z ?z t" by (auto simp: lmoved_def x add_flags_def set_gpr_def)
  have "sleep_map (set_gpr t 3 CELL_OK (add_flags t {F_wait} (ls_lv2 z))) (sleep_of z)"
    using sleep_map_keep(2) [OF lw_invD(1) [OF i], of "{F_wait}" t] by simp
  then show "sleep_map (ls_lv2 ?z) ((sleep_of z)(t := sleep_of ?z t))"
    using sleep_map_begin [of _ "sleep_of z" t] nodding_enter [OF r] pc by (simp add: sleep_of_def)
  show "lw_queue ?z" using lw_invD(3) [OF i] q(1) x by (auto simp: lw_queue_def)
  show "picked z t \<Longrightarrow> sleepy_pc (ls_pc ?z t) \<and> \<not> on_queue ?z t \<and> F_again \<notin> flags_of (ls_lv2 ?z) t" using q by simp
  show "\<not> retry z \<Longrightarrow> ls_tok ?z = T_with t \<longleftrightarrow> carries (on_queue ?z t) (ls_pc ?z t)" using lw_tokensD(6) [OF i, of t] pc by simp
  show "lpc_ok ?z t (ls_pc ?z t)" using lw_invD(7) [OF i, of t] pc by (simp add: set_gpr_def)
qed (use pc lw_invD(8) [OF i, of t] lw_tokensD(1,3,5) [OF i] op in \<open>auto simp: past_cas_def lw_poll_def\<close>)

lemma step_l_own_signal:
  assumes i: "lw_inv z" and pc: "ls_pc z t = L_own rt n" and op: "lw_try_own t False (ls_lv2 z) (ls_obj z) = Some (sig, s, x)" "sig \<noteq> 0"
  shows "lw_inv (lgo t (L_back rt n (signal_code sig))
      (z\<lparr>ls_obj := x, ls_lv2 := set_cancel_sleep t 0 (signal_result t sig s), ls_tok := if odd sig then T_with t else ls_tok z\<rparr>))"
proof (rule step_signal [OF i])
  show "is_ppu t" using lw_invD(8) [OF i, of t] pc by simp
  have s: "s = ls_lv2 z" "sig = lwm_signaled (ls_obj z)" "x = (ls_obj z)\<lparr>lwm_signaled := 0\<rparr>" using op by (auto simp: lw_try_own_def split: if_splits)
  then show "x = (ls_obj z)\<lparr>lwm_signaled := 0\<rparr>" "sig = lwm_signaled (ls_obj z)" by simp_all
  show "sleep_map (set_cancel_sleep t 0 (signal_result t sig s)) ((sleep_of z)(t := Z_none))"
    using lw_invD(1) [OF i] s by (intro sleep_map_end) (simp add: sig_frame)
  show "flags_of (set_cancel_sleep t 0 (signal_result t sig s)) u = flags_of (ls_lv2 z) u \<and> gpr_of (set_cancel_sleep t 0 (signal_result t sig s)) u 3 = gpr_of (ls_lv2 z) u 3"
    if "u \<noteq> t" for u using that s by (simp add: sig_frame)
qed (use op pc in auto)

lemma step_l_own:
  assumes i: "lw_inv z" and pc: "ls_pc z t = L_own rt n" and op: "lw_try_own t False (ls_lv2 z) (ls_obj z) = Some (0, s, x)"
  shows "lw_inv (lgo t (L_sleep rt n) (z\<lparr>ls_obj := x, ls_lv2 := s\<rparr>))" (is "lw_inv ?z")
proof (rule kernel_move [OF i, where t = t])
  have s: "lwm_signaled (ls_obj z) = 0" "s = stamp_order t (ls_lv2 z)" "lwm_sq x = t # lwm_sq (ls_obj z)" "lwm_signaled x = 0"
    using op by (auto simp: lw_try_own_def split: if_splits)
  have q: "\<not> on_queue z t" "\<not> picked z t" using lw_queueD(2) [OF i, of t] picked_sleepy(1) [OF i, of t] pc by auto
  show "lmoved z ?z t" using s by (auto simp: lmoved_def)
  have "sleep_of z t = Z_nodding" "sleep_of ?z t = Z_nodding" using pc s by (simp_all add: sleep_of_def enlisted_def)
  then show "sleep_map (ls_lv2 ?z) ((sleep_of z)(t := sleep_of ?z t))"
    using sleep_map_keep(1) [OF lw_invD(1) [OF i], of t] s(2) by (simp add: fun_upd_idem)
  show "lw_queue ?z" using lw_invD(3) [OF i] q(1) s by (auto simp: lw_queue_def)
  show "picked z t \<Longrightarrow> sleepy_pc (ls_pc ?z t) \<and> \<not> on_queue ?z t \<and> F_again \<notin> flags_of (ls_lv2 ?z) t" using q by simp
  show "\<not> retry z \<Longrightarrow> ls_tok ?z = T_with t \<longleftrightarrow> carries (on_queue ?z t) (ls_pc ?z t)" using lw_tokensD(6) [OF i, of t] pc s by simp
  show "lpc_ok ?z t (ls_pc ?z t)" using lw_invD(7) [OF i, of t] pc s by (auto simp: enlisted_def)
  show "\<not> retry z \<Longrightarrow> lwm_signaled (ls_obj ?z) = (if ls_tok ?z = T_kernel then 1 else 0)" using lw_tokensD(5) [OF i] s by (auto split: if_splits)
  show "retry z \<Longrightarrow> ls_tok ?z = T_none \<and> even (lwm_signaled (ls_obj ?z))" using lw_tokensD(1) [OF i] s(4) by simp
qed (use pc lw_invD(8) [OF i, of t] in \<open>auto simp: past_cas_def\<close>)

lemma lw_sleep_facts:
  fixes e :: env
  assumes i: "lw_inv z" and pc: "ls_pc z (cur e) = L_sleep rt n" and op: "obj_sleep e n (ls_lv2 z) = Some (r, s)"
  shows "r \<longleftrightarrow> enlisted z (cur e)" "sleep_map s ((sleep_of z)(cur e := if r then Z_asleep else Z_none))" "same_regs (ls_lv2 z) s"
  using sleep_map_sleep [OF lw_invD(1) [OF i], of e n] op pc by (auto simp: sleep_of_def)

lemma step_l_sleep:
  fixes e :: env
  assumes i: "lw_inv z" and pc: "ls_pc z (cur e) = L_sleep rt n" and op: "obj_sleep e n (ls_lv2 z) = Some (True, s)"
  shows "lw_inv (lgo (cur e) (L_wait rt n) (z\<lparr>ls_lv2 := s\<rparr>))" (is "lw_inv ?z")
proof (rule kernel_move [OF i, where t = "cur e"])
  note f = lw_sleep_facts [OF i pc op] and r = same_regsD [OF lw_sleep_facts(3) [OF i pc op]]
  show m: "lmoved z ?z (cur e)" using r by (simp add: lmoved_def)
  have l: "enlisted ?z (cur e) = enlisted z (cur e)" using lmoved_picked [OF m] pc by (simp add: enlisted_def)
  then show "sleep_map (ls_lv2 ?z) ((sleep_of z)(cur e := sleep_of ?z (cur e)))" using f(1,2) by (simp add: sleep_of_def)
  show "lw_queue ?z" using lw_invD(3) [OF i] by (auto simp: lw_queue_def)
  show "picked z (cur e) \<Longrightarrow> sleepy_pc (ls_pc ?z (cur e)) \<and> \<not> on_queue ?z (cur e) \<and> F_again \<notin> flags_of (ls_lv2 ?z) (cur e)"
    using picked_sleepy [OF i, of "cur e"] r by simp
  show "\<not> retry z \<Longrightarrow> ls_tok ?z = T_with (cur e) \<longleftrightarrow> carries (on_queue ?z (cur e)) (ls_pc ?z (cur e))"
    using lw_tokensD(6) [OF i, of "cur e"] pc by simp
  show "lpc_ok ?z (cur e) (ls_pc ?z (cur e))" using lw_invD(7) [OF i, of "cur e"] pc r l by simp
qed (use pc lw_invD(8) [OF i, of "cur e"] lw_tokensD(1,3,5) [OF i] in \<open>auto simp: past_cas_def\<close>)

text \<open>A thread that has been taken off the queue returns from the system call.\<close>

lemma step_woken:
  assumes i: "lw_inv z" and pc: "ls_pc z t = L_sleep rt n \<or> ls_pc z t = L_wait rt n" and l: "\<not> enlisted z t"
    and s: "sleep_map s ((sleep_of z)(t := Z_none))"
      "\<And>u. u \<noteq> t \<Longrightarrow> (F_again \<in> flags_of s u \<longleftrightarrow> F_again \<in> flags_of (ls_lv2 z) u) \<and> gpr_of s u 3 = gpr_of (ls_lv2 z) u 3"
      "gpr_of s t 3 = gpr_of (ls_lv2 z) t 3"
  shows "lw_inv (lgo t (L_back rt n (gpr_of s t 3)) (z\<lparr>ls_lv2 := s\<rparr>))" (is "lw_inv ?z")
proof (rule kernel_move [OF i, where t = t])
  have q: "\<not> on_queue z t" "\<not> picked z t" using l by (simp_all add: enlisted_def)
  have g: "gpr_of s t 3 = (if retry z then CELL_EBUSY else CELL_OK)" using lw_invD(7) [OF i, of t] pc l s(3) by auto
  show "lmoved z ?z t" using s(2) by (simp add: lmoved_def)
  show "sleep_map (ls_lv2 ?z) ((sleep_of z)(t := sleep_of ?z t))" using s(1) by (simp add: sleep_of_def)
  show "lw_queue ?z" using lw_invD(3) [OF i] q by (auto simp: lw_queue_def)
  show "picked z t \<Longrightarrow> sleepy_pc (ls_pc ?z t) \<and> \<not> on_queue ?z t \<and> F_again \<notin> flags_of (ls_lv2 ?z) t" using q by simp
  show "\<not> retry z \<Longrightarrow> ls_tok ?z = T_with t \<longleftrightarrow> carries (on_queue ?z t) (ls_pc ?z t)" using lw_tokensD(6) [OF i, of t] pc q g by auto
  show "lpc_ok ?z t (ls_pc ?z t)" using lw_invD(7) [OF i, of t] pc g by auto
qed (use pc lw_invD(8) [OF i, of t] lw_tokensD(1,3,5) [OF i] in \<open>auto simp: past_cas_def\<close>)

lemma step_l_cancelled:
  fixes e :: env
  assumes i: "lw_inv z" and pc: "ls_pc z (cur e) = L_sleep rt n" and op: "obj_sleep e n (ls_lv2 z) = Some (False, s)"
  shows "lw_inv (lgo (cur e) (L_back rt n (gpr_of s (cur e) 3)) (z\<lparr>ls_lv2 := s\<rparr>))"
  using step_woken [OF i, of "cur e" rt n s] pc lw_sleep_facts [OF i pc op] same_regsD [OF lw_sleep_facts(3) [OF i pc op]] by simp

lemma wait_break:
  assumes "wait_iter q f t False c s x = Some (W_break, s', x')"
  shows "x' = x" "s' = del_flags t {F_signal} s \<or> s' = s" "flags_of s t = {} \<or> F_signal \<in> flags_of s t \<or> is_stopped (flags_of s t) \<and> \<not> q t x"
  using assms by (auto simp: wait_iter_def split: if_splits)

lemma step_l_break:
  assumes i: "lw_inv z" and pc: "ls_pc z t = L_wait rt n" and l: "ls_lock z = None \<or> \<not> is_stopped (flags_of (ls_lv2 z) t)"
    and op: "wait_iter lw_queued lw_expire t False c (ls_lv2 z) (ls_obj z) = Some (W_break, s, x)"
  shows "lw_inv (lgo t (L_back rt n (gpr_of s t 3)) (z\<lparr>ls_lv2 := s, ls_obj := x\<rparr>))"
proof -
  note w = wait_break [OF op]
  have "\<not> enlisted z t"
  proof
    assume k: "enlisted z t"
    then have "F_signal \<notin> flags_of (ls_lv2 z) t" "F_wait \<in> flags_of (ls_lv2 z) t" using sleep_mapD(2) [OF lw_invD(1) [OF i], of t] pc by (simp_all add: sleep_of_def)
    then have "is_stopped (flags_of (ls_lv2 z) t)" "\<not> on_queue z t" using w(3) by auto
    then show False using k l by (auto simp: enlisted_def picked_def)
  qed
  moreover have "sleep_map s (sleep_of z)" using w(2) lw_invD(1) [OF i] sleep_map_keep(3) [OF lw_invD(1) [OF i]] by auto
  then have "sleep_map s ((sleep_of z)(t := Z_none))" by (rule sleep_map_mono) auto
  ultimately show ?thesis using step_woken [OF i, of t rt n s] pc w(1,2) by (auto simp: del_flags_def)
qed

lemma step_l_stop:
  assumes i: "lw_inv z" and pc: "ls_pc z t = L_wait rt n" and l: "ls_lock z = None"
    and op: "wait_iter lw_queued lw_expire t False c (ls_lv2 z) (ls_obj z) = Some (W_return, s, x)"
  shows "lw_inv (lgo t L_stopped (z\<lparr>ls_lv2 := s, ls_obj := x\<rparr>))" (is "lw_inv ?z")
proof (rule kernel_move [OF i, where t = t])
  note w = wait_iter_stop [OF op]
  have np: "\<not> picked z t" using l by (simp add: picked_def)
  show "lmoved z ?z t" using w by (auto simp: lmoved_def add_flags_def)
  have "sleep_of z t = Z_asleep" "sleep_of ?z t = Z_asleep" using pc w(2) by (simp_all add: sleep_of_def enlisted_def)
  then show "sleep_map (ls_lv2 ?z) ((sleep_of z)(t := sleep_of ?z t))"
    using sleep_map_keep(2) [OF lw_invD(1) [OF i], of "{F_again}" t] w(3) by (simp add: fun_upd_idem)
  show "lw_queue ?z" using lw_invD(3) [OF i] w by (auto simp: lw_queue_def)
  show "picked z t \<Longrightarrow> sleepy_pc (ls_pc ?z t) \<and> \<not> on_queue ?z t \<and> F_again \<notin> flags_of (ls_lv2 ?z) t" using np by simp
  show "\<not> retry z \<Longrightarrow> ls_tok ?z = T_with t \<longleftrightarrow> carries (on_queue ?z t) (ls_pc ?z t)" using lw_tokensD(6) [OF i, of t] pc w by simp
  show "lpc_ok ?z t (ls_pc ?z t)" using w by (simp add: add_flags_def)
qed (use pc lw_invD(8) [OF i, of t] lw_tokensD(1,3,5) [OF i] wait_iter_stop(1) [OF op] in \<open>auto simp: past_cas_def\<close>)

lemma step_l_expire:
  assumes i: "lw_inv z" and pc: "ls_pc z t = L_wait rt n" and l: "ls_lock z = None"
    and op: "lw_expire t (add_flags t {F_wait} (ls_lv2 z)) (ls_obj z) = Some (s, x)"
  shows "lw_inv (lgo t (L_back rt n (gpr_of s t 3)) (z\<lparr>ls_lv2 := s, ls_obj := x\<rparr>))" (is "lw_inv ?z")
proof -
  have np: "\<not> picked z t" using l by (simp add: picked_def)
  have sm: "sleep_map (add_flags t {F_wait} (ls_lv2 z)) ((sleep_of z)(t := Z_none))"
    using sleep_map_keep(2) [OF lw_invD(1) [OF i], of "{F_wait}" t] by (rule sleep_map_mono) auto
  show ?thesis
  proof (cases "on_queue z t")
    case False
    then have "s = add_flags t {F_wait} (ls_lv2 z)" "x = ls_obj z" using op by (auto simp: lw_expire_def unqueue_def split: if_splits)
    then show ?thesis using step_woken [OF i, of t rt n s] pc sm False np by (simp add: enlisted_def add_flags_def)
  next
    case True
    then have s: "s = set_gpr t 3 CELL_ETIMEDOUT (add_flags t {F_wait} (ls_lv2 z))" "x = (ls_obj z)\<lparr>lwm_sq := remove1 t (lwm_sq (ls_obj z))\<rparr>"
      using op by (auto simp: lw_expire_def unqueue_def split: if_splits)
    show ?thesis
    proof (rule kernel_move [OF i, where t = t])
      show "lmoved z ?z t" using s by (auto simp: lmoved_def add_flags_def set_gpr_def)
      have "sleep_of ?z t = Z_none" by (simp add: sleep_of_def)
      then show "sleep_map (ls_lv2 ?z) ((sleep_of z)(t := sleep_of ?z t))" using sm s by simp
      show "lw_queue ?z" using lw_queueD [OF i] s by (auto simp: lw_queue_def)
      show "picked z t \<Longrightarrow> sleepy_pc (ls_pc ?z t) \<and> \<not> on_queue ?z t \<and> F_again \<notin> flags_of (ls_lv2 ?z) t" using np by simp
      show "\<not> retry z \<Longrightarrow> ls_tok ?z = T_with t \<longleftrightarrow> carries (on_queue ?z t) (ls_pc ?z t)"
        using lw_tokensD(6) [OF i, of t] pc s True by (simp add: set_gpr_def)
      show "lpc_ok ?z t (ls_pc ?z t)" using lw_invD(7) [OF i, of t] pc s by (simp add: set_gpr_def)
    qed (use pc lw_invD(8) [OF i, of t] lw_tokensD(1,3,5) [OF i] s in \<open>auto simp: past_cas_def\<close>)
  qed
qed

lemma step_l_poll_ok:
  assumes i: "lw_inv z" and pc: "ls_pc z t = L_poll" and op: "lw_trylock (ls_obj z) = (True, x)"
  shows "lw_inv (lgo t L_take (z\<lparr>ls_obj := x, ls_tok := T_with t\<rparr>))" (is "lw_inv ?z")
proof (rule kernel_move [OF i, where t = t])
  have x: "odd (lwm_signaled (ls_obj z))" "x = (ls_obj z)\<lparr>lwm_signaled := 0\<rparr>" using op by (auto simp: lw_trylock_def split: if_splits)
  have r: "\<not> retry z" "ls_tok z = T_kernel" using lw_tokensD(3,5) [OF i] x(1) by (cases "retry z"; auto split: if_splits)+
  have q: "\<not> on_queue z t" "\<not> picked z t" using lw_queueD(2) [OF i, of t] picked_sleepy(1) [OF i, of t] pc by auto
  show "lmoved z ?z t" using x by (simp add: lmoved_def)
  have "sleep_of ?z t = Z_none" "sleep_of z t = Z_none" using pc by (simp_all add: sleep_of_def)
  then show "sleep_map (ls_lv2 ?z) ((sleep_of z)(t := sleep_of ?z t))" using lw_invD(1) [OF i] by (simp add: fun_upd_idem)
  show "lw_queue ?z" using lw_queueD [OF i] x q by (auto simp: lw_queue_def)
  show "picked z t \<Longrightarrow> sleepy_pc (ls_pc ?z t) \<and> \<not> on_queue ?z t \<and> F_again \<notin> flags_of (ls_lv2 ?z) t" using q by simp
  show "lpc_ok ?z t (ls_pc ?z t)" using r by simp
  show "\<not> retry z \<Longrightarrow> ls_tok ?z \<noteq> T_none \<longleftrightarrow> ls_tok z \<noteq> T_none" using r by simp
  show "retry z \<Longrightarrow> ls_tok ?z = T_none \<and> even (lwm_signaled (ls_obj ?z))" using r by simp
  show "ls_tok ?z = T_with u \<longleftrightarrow> ls_tok z = T_with u" if "u \<noteq> t" for u using r that by simp
  show "\<not> retry z \<Longrightarrow> lwm_signaled (ls_obj ?z) = (if ls_tok ?z = T_kernel then 1 else 0)" using x by simp
qed (use pc lw_invD(8) [OF i, of t] in \<open>auto simp: past_cas_def\<close>)

text \<open>Leaving a wake-up in the kernel: nobody sleeps.\<close>

lemma step_deposit:
  assumes i: "lw_inv z" and pc: "ls_pc z t = L_unlock u2 \<or> ls_pc z t = L_reown u2"
    and x: "lwm_sq (ls_obj z) = []" "x = (ls_obj z)\<lparr>lwm_signaled := lwm_signaled (ls_obj z) OR unlock_bit u2\<rparr>"
  shows "lw_inv (lgo t (L_ret CELL_OK) (z\<lparr>ls_obj := x, ls_tok := if u2 then ls_tok z else T_kernel\<rparr>))" (is "lw_inv ?z")
proof (rule kernel_move [OF i, where t = t])
  note T = lw_tokensD [OF i]
  have u: "u2 = retry z" using lw_invD(7) [OF i, of t] pc by auto
  have k: "\<not> retry z \<Longrightarrow> ls_tok z = T_with t" using T(6) [of t] pc by auto
  have q: "\<not> picked z t" using picked_sleepy(1) [OF i, of t] pc by auto
  show "lmoved z ?z t" using x by (simp add: lmoved_def)
  have "sleep_of ?z t = Z_none" "sleep_of z t = Z_none" using pc by (auto simp: sleep_of_def)
  then show "sleep_map (ls_lv2 ?z) ((sleep_of z)(t := sleep_of ?z t))" using lw_invD(1) [OF i] by (simp add: fun_upd_idem)
  show "lw_queue ?z" using x by (simp add: lw_queue_def)
  show "picked z t \<Longrightarrow> sleepy_pc (ls_pc ?z t) \<and> \<not> on_queue ?z t \<and> F_again \<notin> flags_of (ls_lv2 ?z) t" using q by simp
  show "\<not> retry z \<Longrightarrow> ls_tok ?z \<noteq> T_none \<longleftrightarrow> ls_tok z \<noteq> T_none" using k u by simp
  show "retry z \<Longrightarrow> ls_tok ?z = T_none \<and> even (lwm_signaled (ls_obj ?z))" using T(1,3) u x by (simp add: unlock_bit_def even_or_iff)
  show "ls_tok ?z = T_with v \<longleftrightarrow> ls_tok z = T_with v" if "v \<noteq> t" for v using k u that by (cases "retry z") auto
  show "\<not> retry z \<Longrightarrow> lwm_signaled (ls_obj ?z) = (if ls_tok ?z = T_kernel then 1 else 0)" using x u k T(5) by (simp add: unlock_bit_def)
  show "\<not> retry z \<Longrightarrow> ls_tok ?z = T_with t \<longleftrightarrow> carries (on_queue ?z t) (ls_pc ?z t)" using u by simp
qed (use pc lw_invD(8) [OF i, of t] in \<open>auto simp: past_cas_def\<close>)

lemma lw_reown_cases:
  assumes "lw_reown u2 s y = (r, x)"
  shows "r = None \<Longrightarrow> lwm_sq y = [] \<and> x = y\<lparr>lwm_signaled := lwm_signaled y OR unlock_bit u2\<rparr>" and "r = Some f \<Longrightarrow> f \<in> set (lwm_sq y)"
    and "r = Some f \<Longrightarrow> F_again \<in> flags_of s f \<Longrightarrow> x = y"
    and "r = Some f \<Longrightarrow> F_again \<notin> flags_of s f \<Longrightarrow> x = y\<lparr>lwm_sq := remove1 f (lwm_sq y)\<rparr>"
  using assms sched_pick_in [of "lwm_sq y" "ppus s" "lwm_protocol y"] by (auto simp: lw_reown_def schedule_def Let_def split: if_splits)

lemma step_l_reown_again:
  assumes i: "lw_inv z" and pc: "ls_pc z t = L_reown u2"
  shows "lw_inv (lgo t L_uagain (z\<lparr>ls_obj := ls_obj z, ls_lv2 := add_flags t {F_again} (ls_lv2 z)\<rparr>))" (is "lw_inv ?z")
proof (rule kernel_move [OF i, where t = t])
  have q: "\<not> on_queue z t" "\<not> picked z t" using lw_queueD(2) [OF i, of t] picked_sleepy(1) [OF i, of t] pc by auto
  show "lmoved z ?z t" by (simp add: lmoved_def add_flags_def)
  have "sleep_of ?z t = Z_none" "sleep_of z t = Z_none" using pc by (simp_all add: sleep_of_def)
  then show "sleep_map (ls_lv2 ?z) ((sleep_of z)(t := sleep_of ?z t))"
    using sleep_map_keep(2) [OF lw_invD(1) [OF i], of "{F_again}" t] by (simp add: fun_upd_idem)
  show "lw_queue ?z" using lw_invD(3) [OF i] q by (auto simp: lw_queue_def)
  show "picked z t \<Longrightarrow> sleepy_pc (ls_pc ?z t) \<and> \<not> on_queue ?z t \<and> F_again \<notin> flags_of (ls_lv2 ?z) t" using q by simp
  show "\<not> retry z \<Longrightarrow> ls_tok ?z = T_with t \<longleftrightarrow> carries (on_queue ?z t) (ls_pc ?z t)" using lw_tokensD(6) [OF i, of t] pc by simp
qed (use pc lw_invD(8) [OF i, of t] lw_tokensD(1,3,5) [OF i] in \<open>auto simp: past_cas_def\<close>)

text \<open>A sleeper is taken off the queue, under the lock of the object, and woken.\<close>

lemma lw_inv_same:
  assumes "lw_inv z" "ls_mem z' = ls_mem z" "ls_depth z' = ls_depth z" "\<And>u. u \<noteq> t \<Longrightarrow> ls_pc z' u = ls_pc z u" "contends (ls_pc z' t) = contends (ls_pc z t)"
  shows "lw_owners z'" "lw_count z'"
proof -
  show "lw_owners z'" by (rule owners_same [OF assms(1)]) (simp_all add: assms)
  show "lw_count z'" using assms(2,5) by (intro count_move [OF assms(1,4)]) auto
qed

lemma lw_pcsI:
  assumes "\<And>u. lpc_ok z u (ls_pc z u)" "\<And>u. ls_pc z u \<noteq> L_idle \<Longrightarrow> is_ppu u" "\<And>u. waking (ls_pc z u) \<longleftrightarrow> ls_lock z = Some u"
  shows "lw_pcs z"
  using assms unfolding lw_pcs_def waking_iff by blast

lemma step_l_reown:
  assumes i: "lw_inv z" and pc: "ls_pc z t = L_reown u2" and l: "ls_lock z = None"
    and op: "lw_reown u2 (ls_lv2 z) (ls_obj z) = (Some f, x)" "F_again \<notin> flags_of (ls_lv2 z) f"
  shows "lw_inv (lgo t (L_wake u2 f) (z\<lparr>ls_obj := x, ls_lock := Some t, ls_tok := if u2 then ls_tok z else T_with f\<rparr>))" (is "lw_inv ?z")
proof -
  note T = lw_tokensD [OF i] and Q = lw_queueD [OF i] and P = lw_invD(7) [OF i]
  have x: "on_queue z f" "x = (ls_obj z)\<lparr>lwm_sq := remove1 f (lwm_sq (ls_obj z))\<rparr>" using lw_reown_cases(2,4) [OF op(1)] op(2) by simp_all
  have q: "on_queue ?z u \<longleftrightarrow> on_queue z u \<and> u \<noteq> f" for u using Q(1) x(2) by simp
  have sf: "sleepy_pc (ls_pc z f)" using Q(2) [OF x(1)] P [of f] op(2) by auto
  have ft: "f \<noteq> t" using sf pc by auto
  have u2: "u2 = retry z" using P [of t] pc by simp
  have nw: "\<not> waking (ls_pc z u)" for u using lw_invD(9) [OF i] l by (fastforce simp: waking_iff)
  have lk: "enlisted ?z u = enlisted z u" for u using q l x(1) by (auto simp: enlisted_def picked_def)
  have "sleep_of ?z = sleep_of z"
  proof
    fix u show "sleep_of ?z u = sleep_of z u" unfolding sleep_of_def lk using pc by simp
  qed
  moreover have "ls_lv2 ?z = ls_lv2 z" by simp
  ultimately have sm: "sleep_map (ls_lv2 ?z) (sleep_of ?z)" using lw_invD(1) [OF i] by (simp only:)
  have pcs: "lpc_ok ?z u (ls_pc ?z u)" for u
  proof (cases "u = t")
    case True
    then show ?thesis using u2 ft q op(2) sf by simp
  next
    case False
    have "ls_pc z f \<noteq> L_stopped" using sf by auto
    then have "lpc_ok ?z u (ls_pc z u)" using P [of u] lk q nw [of u] by (cases "ls_pc z u") auto
    then show ?thesis using False by simp
  qed
  have "lw_pcs ?z"
  proof (rule lw_pcsI [OF pcs])
    fix u show "ls_pc ?z u \<noteq> L_idle \<Longrightarrow> is_ppu u" using lw_invD(8) [OF i, of u] pc by (cases "u = t") auto
    show "waking (ls_pc ?z u) \<longleftrightarrow> ls_lock ?z = Some u" using nw [of u] by (cases "u = t") auto
  qed
  moreover have "\<not> on_queue z t" using Q(2) [of t] pc by auto
  then have "lw_queue ?z" using Q x q by (auto simp: lw_queue_def)
  moreover have "lw_tokens ?z"
  proof (cases "retry z")
    case False
    then have tt: "ls_tok z = T_with t" using T(6) [of t] pc by simp
    have "T_with f = T_with u \<longleftrightarrow> carries (on_queue ?z u) (ls_pc ?z u)" for u
      using T(6) [OF False, of u] tt sf q [of u] ft by (cases "u = t"; cases "u = f"; cases "ls_pc z u") auto
    then show ?thesis using False T(4,5) T(7) tt u2 x(2) pc by (auto simp: lw_tokens_def past_cas_def)
  qed (use T(1-3) u2 x(2) in \<open>auto simp: lw_tokens_def\<close>)
  moreover have "lw_owners ?z" "lw_count ?z" using pc by (auto intro!: lw_inv_same [OF i, where t = t])
  ultimately show ?thesis using sm by (simp add: lw_inv_def)
qed

lemma lw_wake_facts:
  assumes i: "lw_inv z" and pc: "ls_pc z c = L_wake u2 f"
  shows "u2 = retry z" "f \<noteq> c" "\<not> on_queue z f" "F_again \<notin> flags_of (ls_lv2 z) f" "sleepy_pc (ls_pc z f)" "picked z u \<longleftrightarrow> u = f"
    "ls_pc z u = L_wake v g \<Longrightarrow> u = c" "sleep_of z f = Z_nodding \<or> sleep_of z f = Z_asleep" "sleep_of z c = Z_none" "enlisted z u \<longleftrightarrow> on_queue z u \<or> u = f"
proof -
  show "u2 = retry z" "f \<noteq> c" "\<not> on_queue z f" "F_again \<notin> flags_of (ls_lv2 z) f" and s: "sleepy_pc (ls_pc z f)" using lw_invD(7) [OF i, of c] pc by auto
  have l: "ls_lock z = Some c" by (rule lw_invD(9) [OF i pc])
  then show "ls_pc z u = L_wake v g \<Longrightarrow> u = c" using lw_invD(9) [OF i] by fastforce
  show p: "picked z u \<longleftrightarrow> u = f" for u using l pc by (auto simp: picked_def)
  show "enlisted z u \<longleftrightarrow> on_queue z u \<or> u = f" using p by (simp add: enlisted_def)
  show "sleep_of z f = Z_nodding \<or> sleep_of z f = Z_asleep" using s p [of f] by (cases "ls_pc z f") (auto simp: sleep_of_def enlisted_def)
  show "sleep_of z c = Z_none" using pc by (simp add: sleep_of_def)
qed

lemma step_l_wake:
  fixes e :: env
  assumes i: "lw_inv z" and pc: "ls_pc z (cur e) = L_wake u2 f" and op: "lw_wake e u2 f (ls_lv2 z) = Some s"
  shows "lw_inv (lgo (cur e) (L_ret CELL_OK) (z\<lparr>ls_lv2 := s, ls_lock := None\<rparr>))" (is "lw_inv ?z")
proof -
  note W = lw_wake_facts [OF i pc] and P = lw_invD(7) [OF i]
  define s0 where "s0 = (if u2 then set_gpr f 3 CELL_EBUSY (ls_lv2 z) else ls_lv2 z)"
  have "sleep_map s0 (sleep_of z)" using lw_invD(1) [OF i] by (simp add: s0_def)
  then obtain s' where s': "obj_awake e f s0 = Some s'" "sleep_map s' ((sleep_of z)(f := if sleep_of z f = Z_nodding then Z_cancelled else Z_woken))" "same_regs s0 s'"
    using sleep_map_awake [of s0 "sleep_of z" f e] W(2,8,9) by auto
  have s: "s' = s" using op W(4) s'(1) by (simp add: lw_wake_def s0_def)
  have g: "gpr_of s u 3 = (if u = f \<and> u2 then CELL_EBUSY else gpr_of (ls_lv2 z) u 3)" "F_again \<in> flags_of s u \<longleftrightarrow> F_again \<in> flags_of (ls_lv2 z) u" for u
    using same_regsD [OF s'(3), of u] s by (auto simp: s0_def)
  have lk: "enlisted ?z u \<longleftrightarrow> on_queue z u" for u by (auto simp: enlisted_def picked_def)
  have "sleep_of ?z u = ((sleep_of z)(f := if sleep_of z f = Z_nodding then Z_cancelled else Z_woken)) u" for u
    using W(2,3,5) lk W(10) pc by (cases "u = f"; cases "ls_pc z u") (auto simp: sleep_of_def)
  then have "sleep_of ?z = (sleep_of z)(f := if sleep_of z f = Z_nodding then Z_cancelled else Z_woken)" by blast
  then have sm: "sleep_map (ls_lv2 ?z) (sleep_of ?z)" using s'(2) s by simp
  have pcs: "lpc_ok ?z u (ls_pc ?z u)" for u
  proof (cases "u = cur e")
    case False
    then have "lpc_ok ?z u (ls_pc z u)"
      using P [of u] lk W(1-3,5,10) W(7) [of u] g [of u] by (cases "u = f"; cases "ls_pc z u") auto
    then show ?thesis using False by simp
  qed simp
  have "lw_pcs ?z"
  proof (rule lw_pcsI [OF pcs])
    fix u show "ls_pc ?z u \<noteq> L_idle \<Longrightarrow> is_ppu u" using lw_invD(8) [OF i, of u] pc by (cases "u = cur e") auto
    show "waking (ls_pc ?z u) \<longleftrightarrow> ls_lock ?z = Some u" using W(7) [of u] by (cases "u = cur e") (auto simp: waking_iff)
  qed
  moreover have "\<not> on_queue z (cur e)" using lw_queueD(2) [OF i, of "cur e"] pc by auto
  then have "lw_queue ?z" using lw_queueD [OF i] by (auto simp: lw_queue_def)
  moreover have "lw_tokens ?z"
  proof (cases "retry z")
    case False
    have "ls_tok z = T_with u \<longleftrightarrow> carries (on_queue z u) (ls_pc ?z u)" for u using lw_tokensD(6) [OF i False, of u] pc by auto
    moreover have "lw_owner (ls_mem z) \<noteq> lwmutex_free" if "past_cas (ls_pc ?z u)" for u
      using lw_tokensD(7) [OF i False, of u] that by (cases "u = cur e") (auto simp: past_cas_def)
    ultimately show ?thesis using False lw_tokensD(4,5) [OF i False] unfolding lw_tokens_def by simp
  qed (use lw_tokensD(1-3) [OF i] in \<open>auto simp: lw_tokens_def\<close>)
  moreover have "lw_owners ?z" "lw_count ?z" using pc by (auto intro!: lw_inv_same [OF i, where t = "cur e"])
  ultimately show ?thesis using sm by (simp add: lw_inv_def)
qed

lemma step_l_other:
  assumes i: "lw_inv z" and o': "others_step (sleep_of z) {t. ls_pc z t \<noteq> L_idle} (ls_lv2 z) s"
  shows "lw_inv (z\<lparr>ls_lv2 := s\<rparr>)" (is "lw_inv ?z")
proof -
  have lk: "enlisted ?z u = enlisted z u" "sleep_of ?z = sleep_of z" for u by (auto simp: enlisted_def picked_def sleep_of_def)
  have "lpc_ok ?z u (ls_pc z u)" for u
  proof (cases "ls_pc z u")
    case (L_wake u2 f)
    have "F_again \<in> flags_of s f \<longleftrightarrow> F_again \<in> flags_of (ls_lv2 z) f" using others_stepD(2) [OF o', of f] lw_wake_facts(8) [OF i L_wake] by blast
    then show ?thesis using L_wake lw_invD(7) [OF i, of u] by simp
  next
    case L_stopped
    then have "sleep_of z u = Z_asleep" by (simp add: sleep_of_def)
    then show ?thesis using others_stepD(2) [OF o', of u] L_stopped lw_invD(7) [OF i, of u] by simp
  qed (use lw_invD(7) [OF i, of u] others_stepD(1) [OF o', of u] lk in auto)
  then have "lw_pcs ?z" using lw_invD(8-10) [OF i] by (intro lw_pcsI) (auto simp: waking_iff)
  moreover have "lw_queue ?z" using lw_invD(3) [OF i] by (simp add: lw_queue_def)
  moreover have "lw_tokens ?z" using lw_invD(6) [OF i] by (simp add: lw_tokens_def)
  moreover have "lw_owners ?z" "lw_count ?z" by (auto intro!: lw_inv_same [OF i])
  ultimately show ?thesis using sleep_map_others [OF lw_invD(1) [OF i] o'] lk(2) by (simp add: lw_inv_def)
qed

lemma lw_inv_step: "lw_step z z' \<Longrightarrow> lw_inv z \<Longrightarrow> lw_inv z'"
proof (induction rule: lw_step.induct)
  case (l_fast z t r m)
  then show ?case by (intro step_l_fast)
next
  case (l_slow z t m n)
  then show ?case by (intro step_pc) (auto simp: past_cas_def)
next
  case (l_spin_ok z t rt k n m)
  then show ?case using lw_invD(8) [OF l_spin_ok(3), of t] by (intro step_cas_free) (auto simp: past_cas_def)
next
  case (l_spin z t rt k n)
  then show ?case using lw_invD(7,8) [OF l_spin(3), of t] by (intro step_pc) (auto simp: past_cas_def)
next
  case (l_join z t rt n)
  then show ?case
    using step_user [OF l_join(2), of t "lw_waiter (ls_mem z) + 1" "L_cas rt n"] lw_invD(7,8) [OF l_join(2), of t] lw_incdec(1) [OF l_join(2)]
    by simp
next
  case (l_cas_ok z t rt n m)
  then show ?case using lw_invD(8) [OF l_cas_ok(3), of t] by (intro step_cas_free) (auto simp: past_cas_def)
next
  case (l_cas z t rt n)
  then show ?case using lw_invD(7,8) [OF l_cas(3), of t] by (intro step_pc) (auto simp: lw_cas_free_def split: if_splits)
next
  case (l_undo z t)
  then show ?case
    using step_user [OF l_undo(2), of t "lw_waiter (ls_mem z) - 1" "L_ret CELL_OK"] lw_invD(8) [OF l_undo(2), of t] lw_incdec(3) [OF l_undo(2), of t]
    by (simp add: past_cas_def)
next
  case (l_granted z t n)
  then show ?case using back_facts [OF l_granted(2,1)] by (intro step_back [OF l_granted(2,1)]) auto
next
  case (l_retry z t n)
  then show ?case using back_facts [OF l_retry(3,1)] by (intro step_back [OF l_retry(3,1)]) (auto simp: lw_retry_def)
next
  case (l_failed z t n r)
  then show ?case by (intro step_back [OF l_failed(4,1)]) auto
next
  case (l_again_own z t n)
  then show ?case using back_facts(1,3) [OF l_again_own(2,1)] by simp
next
  case (l_again_late z t n r d)
  then show ?case by (intro step_back [OF l_again_late(4,1)]) auto
next
  case (l_again z t n r d n')
  then show ?case using back_facts(1,6) [OF l_again(4,1)] by (intro step_back [OF l_again(4,1)]) (auto simp: lw_retry_def)
next
  case (l_take z t)
  then show ?case using take_facts [OF l_take(3,1)] lw_invD(8) [OF l_take(3), of t] by (intro lw_step_obtain) (auto simp: past_cas_def)
next
  case (l_throw z t)
  then show ?case using take_facts [OF l_throw(3,1)] by simp
next
  case (l_try_busy z t m)
  then show ?case by (intro step_pc) (auto simp: past_cas_def)
next
  case (l_try z t m)
  then show ?case by (intro step_pc) (auto simp: past_cas_def)
next
  case (l_poll z t x)
  then show ?case using lw_invD(8) [OF l_poll(3), of t] by (intro step_pc) (auto simp: past_cas_def)
next
  case (l_unlock_slow z t m)
  then have o': "lw_owner (ls_mem z) = tid_word t" "lw_recursive_count (ls_mem z) = 0" by (auto simp: lw_give_up_def split: if_splits)
  then have "ls_depth z t = 1" using lw_ownersD(1,2) [OF l_unlock_slow(4), of t] l_unlock_slow(2) by simp
  then show ?case using l_unlock_slow o' by (intro step_pc) (auto simp: past_cas_def)
next
  case (l_release_retry z t)
  then have e: "ls_tok z = T_none" "is_ppu t" using lw_tokensD(1) [OF l_release_retry(3)] lw_invD(8) [OF l_release_retry(3), of t] by auto
  have "lw_inv (lgo t (L_unlock True) (lose t (z\<lparr>ls_mem := (ls_mem z)\<lparr>lw_owner := lwmutex_free\<rparr>, ls_tok := T_none\<rparr>)))"
    using l_release_retry lw_invD(7) [OF l_release_retry(3), of t] e by (intro step_drop) auto
  then show ?case unfolding tok_idem [OF e(1)] .
next
  case (l_release z t)
  then show ?case using lw_invD(7,8) [OF l_release(3), of t] by (intro step_drop) auto
next
  case (l_signal z t u2 cas x)
  then show ?case by (intro step_deposit [of z t u2]) (auto simp: lw_try_unlock_def split: if_splits)
next
  case (l_signal_slow z t u2 cas x)
  then show ?case using lw_invD(7,8) [OF l_signal_slow(3), of t] by (intro step_pc) (auto simp: past_cas_def)
next
  case (l_reown_none z t u2 x)
  then show ?case using lw_reown_cases(1) [OF l_reown_none(3)] by (intro step_deposit [of z t u2]) auto
next
  case (l_reown_again z t u2 f x)
  then show ?case using step_l_reown_again [of z t u2] lw_reown_cases(3) [OF l_reown_again(3)] by simp
next
  case (l_return z t r)
  then show ?case using lw_invD(8) [OF l_return(2), of t] by (intro step_pc) (auto simp: past_cas_def)
qed (blast intro: step_l_call_signal step_l_call step_l_own_signal step_l_own step_l_sleep step_l_cancelled step_l_break step_l_stop
  step_l_expire step_l_poll_ok step_l_unlock step_l_reown step_l_wake step_l_other)+

definition lw_fresh :: "sys_lwmutex_t \<Rightarrow> bool" where
  "lw_fresh m \<longleftrightarrow> lw_owner m = lwmutex_free \<and> lw_waiter m = 0 \<and> lw_recursive_count m = 0"

definition lw_runs :: "lv2 \<Rightarrow> lv2_lwmutex \<Rightarrow> sys_lwmutex_t \<Rightarrow> lw_sys \<Rightarrow> bool" where
  "lw_runs s x m z \<longleftrightarrow> lw_step\<^sup>*\<^sup>* (lw_start s x m) z"

lemma lw_inv_start:
  assumes "kernel_ready s" "lw_fresh m"
  shows "lw_inv (lw_start s (new_lwmutex protocol control name) m)" (is "lw_inv ?z")
proof -
  have "sleep_of ?z t = Z_none" for t by (simp add: sleep_of_def lw_start_def)
  then have "sleep_map (ls_lv2 ?z) (sleep_of ?z)" using assms(1) by (simp add: sleep_map_def drowsy_def asleep_def lw_start_def)
  moreover have "tid_word t \<noteq> lwmutex_free" if "is_ppu t" for t using tid_word_eq(2) [OF that] .
  ultimately show ?thesis
    using assms(2)
    by (auto simp: lw_inv_def lw_pcs_def lw_queue_def lw_owners_def lw_count_def lw_tokens_def lw_fresh_def lw_start_def new_lwmutex_def past_cas_def)
qed

lemma lw_runs_inv:
  assumes "kernel_ready s" "lw_fresh m" "lw_runs s (new_lwmutex protocol control name) m z"
  shows "lw_inv z"
  using assms(3) unfolding lw_runs_def by (induction rule: rtranclp_induct) (auto intro: lw_inv_start assms lw_inv_step)

section \<open>Properties\<close>

lemma lw_sleep_returns:
  fixes e :: env
  assumes "lw_inv z" "ls_pc z (cur e) = L_sleep rt n"
  shows "obj_sleep e n (ls_lv2 z) \<noteq> None"
proof -
  have "sleep_of z (cur e) = Z_nodding \<or> sleep_of z (cur e) = Z_cancelled" using assms(2) by (simp add: sleep_of_def)
  from sleep_map_sleep [OF lw_invD(1) [OF assms(1)] this, of n] show ?thesis by auto
qed

lemma lw_wake_returns:
  fixes e :: env
  assumes i: "lw_inv z" and pc: "ls_pc z (cur e) = L_wake u2 f"
  shows "lw_wake e u2 f (ls_lv2 z) \<noteq> None"
proof -
  note W = lw_wake_facts [OF i pc]
  have "sleep_map (if u2 then set_gpr f 3 CELL_EBUSY (ls_lv2 z) else ls_lv2 z) (sleep_of z)" using lw_invD(1) [OF i] by simp
  from sleep_map_awake [OF this, of f e] show ?thesis using W(2,4,8,9) by (auto simp: lw_wake_def)
qed

text \<open>C4: Mutual exclusion of lightweight mutexes, for the guest library and the kernel together, for every protocol and under every
  interleaving of lock, trylock, unlock, time-outs and stops. At most one thread holds the mutex; it is the owner recorded in guest
  memory, and the recursion count is one less than its locks. The exception \<^verbatim>\<open>Locking failed\<close> is never thrown: a thread that the kernel
  lets through always finds the mutex reserved. The \<^verbatim>\<open>waiter\<close> field, half of the word that is incremented as a whole, never overflows
  into the owner: it is the number of threads in the contended part of a call.\<close>

theorem lwmutex_exclusion:
  assumes "kernel_ready s" "lw_fresh m" "lw_runs s (new_lwmutex protocol control name) m z"
  shows "(0 < ls_depth z t \<longrightarrow> lw_owner (ls_mem z) = tid_word t \<and> ls_depth z t = unat (lw_recursive_count (ls_mem z)) + 1
      \<and> (0 < ls_depth z u \<longrightarrow> u = t))
    \<and> ls_pc z t \<noteq> L_throw \<and> unat (lw_waiter (ls_mem z)) = card {t. contends (ls_pc z t)}"
proof -
  note i = lw_runs_inv [OF assms]
  have "u = t" if "0 < ls_depth z t" "0 < ls_depth z u"
    using lw_ownersD(1) [OF i that(1)] lw_ownersD(1) [OF i that(2)] tid_word_eq(1) [of t u] by auto
  then show ?thesis using lw_ownersD(1) [OF i, of t] lw_invD(7) [OF i, of t] contenders(2) [OF i] by auto
qed

fun locking :: "lw_pc \<Rightarrow> bool" where
  "locking (L_spin _ _ _) = True"
| "locking L_take = True"
| "locking L_poll = True"
| "locking pc = contends pc"

definition lock_depth :: "lw_sys \<Rightarrow> bool" where
  "lock_depth z \<longleftrightarrow> (\<forall>t. locking (ls_pc z t) \<longrightarrow> (if ls_pc z t = L_undo then 0 < ls_depth z t else ls_depth z t = 0))"

lemma lock_depth_go:
  assumes "lock_depth z" "ls_pc z t = pc0" "ls_pc z1 = ls_pc z" "\<And>u. u \<noteq> t \<Longrightarrow> ls_depth z1 u = ls_depth z u"
    "(locking pc0 \<Longrightarrow> pc0 \<noteq> L_undo \<Longrightarrow> ls_depth z t = 0) \<Longrightarrow> locking pc \<Longrightarrow> if pc = L_undo then 0 < ls_depth z1 t else ls_depth z1 t = 0"
  shows "lock_depth (lgo t pc z1)"
  unfolding lock_depth_def
proof
  fix u show "locking (ls_pc (lgo t pc z1) u) \<longrightarrow> (if ls_pc (lgo t pc z1) u = L_undo then 0 < ls_depth (lgo t pc z1) u else ls_depth (lgo t pc z1) u = 0)"
    using assms by (cases "u = t") (auto simp: lock_depth_def)
qed

lemma lock_depthD: "lock_depth z \<Longrightarrow> locking (ls_pc z t) \<Longrightarrow> ls_pc z t \<noteq> L_undo \<Longrightarrow> ls_depth z t = 0"
  by (auto simp: lock_depth_def)

lemma acquire_none: "lw_inv z \<Longrightarrow> lw_acquire t (ls_mem z) = (None, m) \<Longrightarrow> ls_depth z t = 0"
  using lw_ownersD(1) [of z t] by (fastforce simp: lw_acquire_def split: option.splits if_splits)

lemma lock_depth_step: "lw_step z z' \<Longrightarrow> lw_inv z \<Longrightarrow> lock_depth z \<Longrightarrow> lock_depth z'"
proof (induction rule: lw_step.induct)
  case (l_other z s)
  then show ?case by (simp add: lock_depth_def)
qed (rule lock_depth_go, assumption, assumption; auto dest: acquire_none split: if_splits)+

lemma lw_runs_depth:
  assumes "kernel_ready s" "lw_fresh m" "lw_runs s (new_lwmutex protocol control name) m z"
  shows "lock_depth z"
proof -
  have "lw_inv z \<and> lock_depth z" using assms(3) unfolding lw_runs_def
  proof (induction rule: rtranclp_induct)
    case base
    then show ?case using lw_inv_start [OF assms(1,2)] by (simp add: lock_depth_def lw_start_def)
  qed (auto intro: lw_inv_step lock_depth_step)
  then show ?thesis ..
qed

lemma lw_lock_exit:
  assumes "lw_step z z'" "lw_inv z" "lock_depth z" "locking (ls_pc z t)" "ls_pc z' t = L_ret r"
  shows "r = CELL_OK \<and> 0 < ls_depth z' t \<or> r = CELL_ETIMEDOUT \<and> ls_depth z' t = 0 \<or> r = CELL_EBUSY \<and> ls_pc z t = L_poll"
  using assms
proof (induction rule: lw_step.induct)
  case (l_undo z u)
  then show ?case by (cases "t = u") (auto simp: lock_depth_def)
next
  case (l_failed z u n r)
  then show ?case using back_facts(2-4) [OF l_failed(4,1)] lock_depthD [of z t] by (cases "t = u") auto
next
  case (l_again_late z u n r d)
  then show ?case using lock_depthD [of z t] by (cases "t = u") auto
next
  case (l_again z u n r d n')
  then show ?case using back_facts(2) [OF l_again(4,1)] lock_depthD [of z t] by (cases "t = u") (auto split: if_splits)
qed (auto split: if_splits)

text \<open>C9: What \<^verbatim>\<open>sys_lwmutex_lock\<close> returns once it had to wait, under every interleaving: \<^verbatim>\<open>CELL_OK\<close> exactly as the owner, otherwise
  \<^verbatim>\<open>CELL_ETIMEDOUT\<close> as a thread that does not own the mutex and sleeps in no queue. And no wake-up is lost for the FIFO and priority
  protocols: while a thread sleeps in the kernel, the mutex is not free; it is owned by a thread, or it is reserved and
  some other thread, which does not sleep in the queue, has the permission to take it or to pass it on; the permission is never left
  unused in the kernel.\<close>

theorem lwmutex_lock_outcome:
  assumes "kernel_ready s" "lw_fresh m" "lw_runs s (new_lwmutex protocol control name) m z"
  shows "(lw_step z z' \<and> locking (ls_pc z t) \<and> ls_pc z t \<noteq> L_poll \<and> ls_pc z' t = L_ret r \<longrightarrow>
      r = CELL_OK \<and> lw_owner (ls_mem z') = tid_word t
      \<or> r = CELL_ETIMEDOUT \<and> lw_owner (ls_mem z') \<noteq> tid_word t \<and> \<not> on_queue z' t)
    \<and> (ls_pc z t = L_wait rt n \<longrightarrow> (if enlisted z t then t \<notin> set (g_ppu (ls_lv2 z)) else t \<in> set (g_ppu (ls_lv2 z))))
    \<and> (on_queue z t \<and> \<not> lw_retry (ls_mem z) \<longrightarrow>
        (\<exists>u. 0 < ls_depth z u) \<or> lw_owner (ls_mem z) = lwmutex_reserved \<and> (\<exists>u. u \<noteq> t \<and> ls_tok z = T_with u \<and> \<not> on_queue z u \<and> carries False (ls_pc z u)))"
proof (intro conjI impI)
  note i = lw_runs_inv [OF assms] and d = lw_runs_depth [OF assms]
  assume a: "lw_step z z' \<and> locking (ls_pc z t) \<and> ls_pc z t \<noteq> L_poll \<and> ls_pc z' t = L_ret r"
  then have i': "lw_inv z'" using lw_inv_step i by blast
  have p: "is_ppu t" using a lw_invD(8) [OF i, of t] by (cases "ls_pc z t = L_idle") auto
  have "\<not> on_queue z' t" using lw_queueD(2) [OF i', of t] a by auto
  moreover have "ls_depth z' t = 0 \<Longrightarrow> lw_owner (ls_mem z') \<noteq> tid_word t" using lw_ownersD(2) [OF i' p] by auto
  ultimately show "r = CELL_OK \<and> lw_owner (ls_mem z') = tid_word t \<or> r = CELL_ETIMEDOUT \<and> lw_owner (ls_mem z') \<noteq> tid_word t \<and> \<not> on_queue z' t"
    using lw_lock_exit [OF _ i d, of z' t r] a lw_ownersD(1) [OF i', of t] by auto
next
  note i = lw_runs_inv [OF assms]
  assume "ls_pc z t = L_wait rt n"
  then show "if enlisted z t then t \<notin> set (g_ppu (ls_lv2 z)) else t \<in> set (g_ppu (ls_lv2 z))"
    using sleep_mapD(2,3) [OF lw_invD(1) [OF i], of t] by (auto simp: sleep_of_def)
next
  note i = lw_runs_inv [OF assms]
  assume a: "on_queue z t \<and> \<not> lw_retry (ls_mem z)"
  then have r: "\<not> retry z" and q: "on_queue z t" by simp_all
  note T = lw_tokensD(4-7) [OF i r]
  have "past_cas (ls_pc z t)" using lw_queueD(2) [OF i q] by (cases "ls_pc z t") (auto simp: past_cas_def)
  then have f: "lw_owner (ls_mem z) \<noteq> lwmutex_free" by (rule T(4))
  have "ls_tok z \<noteq> T_kernel" using lw_queueD(3) [OF i] T(2) q by auto
  moreover have "carries (on_queue z u) (ls_pc z u) \<Longrightarrow> \<not> on_queue z u \<and> carries False (ls_pc z u)" for u
    using lw_queueD(2) [OF i, of u] by (cases "ls_pc z u") auto
  ultimately have "lw_owner (ls_mem z) = lwmutex_reserved \<Longrightarrow> \<exists>u. u \<noteq> t \<and> ls_tok z = T_with u \<and> \<not> on_queue z u \<and> carries False (ls_pc z u)"
    using T(1,3) q by (cases "ls_tok z") auto
  moreover have "\<exists>u. 0 < ls_depth z u" if "lw_owner (ls_mem z) \<noteq> lwmutex_reserved" using f that lw_ownersD(2,3) [OF i] by blast
  ultimately show "(\<exists>u. 0 < ls_depth z u) \<or> lw_owner (ls_mem z) = lwmutex_reserved \<and> (\<exists>u. u \<noteq> t \<and> ls_tok z = T_with u \<and> \<not> on_queue z u \<and> carries False (ls_pc z u))"
    by blast
qed

text \<open>A run in which one thread has the mutex and a second one has enqueued itself.\<close>

abbreviation lw_a :: tid where "lw_a \<equiv> 0x1000000"
abbreviation lw_b :: tid where "lw_b \<equiv> 0x1000001"

definition lw_sample :: sys_lwmutex_t where
  "lw_sample = \<lparr>lw_owner = lwmutex_free, lw_waiter = 0, lw_attribute = 0x11, lw_recursive_count = 0, lw_sleep_queue = 0x95000000\<rparr>"

definition boot_running :: lv2 where
  "boot_running = (lv2_boot 2)\<lparr>g_ppu := [lw_b]\<rparr>"

lemma boot_running_ready: "kernel_ready boot_running" "runs_quietly boot_running lw_b"
  by (simp_all add: kernel_ready_def inv_defs boot_running_def lv2_boot_def fresh_thread_def is_ppu_def id_type_def nodding_defs)

lemma lw_runs_step: "lw_runs s x m z \<Longrightarrow> lw_step z z' \<Longrightarrow> lw_runs s x m z'"
  unfolding lw_runs_def by (rule rtranclp.rtrancl_into_rtrancl)

lemma lw_spin_out:
  assumes "lw_runs s x m (lgo t (L_spin rt k n) z)" "lw_owner (ls_mem z) \<noteq> lwmutex_free"
  shows "lw_runs s x m (lgo t (L_spin rt 0 n) z)"
  using assms(1)
proof (induction k)
  case (Suc k)
  have "lw_step (lgo t (L_spin rt (Suc k) n) z) (lgo t (L_spin rt k n) (lgo t (L_spin rt (Suc k) n) z))"
    by (rule l_spin) (simp_all add: lw_cas_free_def assms(2))
  moreover have "lgo t (L_spin rt k n) (lgo t (L_spin rt (Suc k) n) z) = lgo t (L_spin rt k n) z" by (simp add: lgo_def)
  ultimately show ?case using Suc lw_runs_step by metis
qed

lemma lw_sample_locked:
  "lw_runs boot_running (new_lwmutex SYS_SYNC_FIFO 0 0) lw_sample
     (gain lw_a (lw_start boot_running (new_lwmutex SYS_SYNC_FIFO 0 0) (lw_sample\<lparr>lw_owner := tid_word lw_a\<rparr>)))" (is "lw_runs _ _ _ ?locked")
proof -
  let ?z0 = "lw_start boot_running (new_lwmutex SYS_SYNC_FIFO 0 0) lw_sample" and ?m = "lw_sample\<lparr>lw_owner := tid_word lw_a\<rparr>"
  have a: "lw_acquire lw_a (ls_mem ?z0) = (Some CELL_OK, ?m)" by (simp add: lw_start_def lw_acquire_def lw_cas_free_def lw_sample_def)
  have "lw_step ?z0 (lgo lw_a (L_ret CELL_OK) (gain lw_a (?z0\<lparr>ls_mem := ?m\<rparr>)))"
    using l_fast [OF _ _ a] by (simp add: lw_start_def is_ppu_def id_type_def)
  moreover have "lw_runs boot_running (new_lwmutex SYS_SYNC_FIFO 0 0) lw_sample ?z0" by (simp add: lw_runs_def)
  ultimately have r: "lw_runs boot_running (new_lwmutex SYS_SYNC_FIFO 0 0) lw_sample (lgo lw_a (L_ret CELL_OK) (gain lw_a (?z0\<lparr>ls_mem := ?m\<rparr>)))" (is "lw_runs _ _ _ ?z1")
    using lw_runs_step by blast
  have "lw_runs boot_running (new_lwmutex SYS_SYNC_FIFO 0 0) lw_sample (lgo lw_a L_idle ?z1)"
    by (rule lw_runs_step [OF r], rule l_return [of _ _ CELL_OK]) simp
  moreover have "lgo lw_a L_idle ?z1 = ?locked" by (simp add: lgo_def gain_def lw_start_def fun_eq_iff)
  ultimately show ?thesis by simp
qed

theorem lwmutex_exclusion_witness:
  "\<exists>z. lw_runs boot_running (new_lwmutex SYS_SYNC_FIFO 0 0) lw_sample z \<and> ls_depth z lw_a = 1 \<and> lw_owner (ls_mem z) = tid_word lw_a
     \<and> ls_depth z lw_b = 0"
proof -
  let ?z = "gain lw_a (lw_start boot_running (new_lwmutex SYS_SYNC_FIFO 0 0) (lw_sample\<lparr>lw_owner := tid_word lw_a\<rparr>))"
  have "lw_fresh lw_sample" by (simp add: lw_fresh_def lw_sample_def)
  from lwmutex_exclusion [OF boot_running_ready(1) this lw_sample_locked, of lw_a lw_b] show ?thesis
    using lw_sample_locked by (intro exI [of _ ?z]) (simp add: lw_start_def)
qed

lemma lw_sample_waiting:
  obtains z where "lw_runs boot_running (new_lwmutex SYS_SYNC_FIFO 0 0) lw_sample z" "ls_pc z lw_b = L_sleep False 0" "on_queue z lw_b"
    "ls_mem z = lw_sample\<lparr>lw_owner := tid_word lw_a, lw_waiter := 1\<rparr>" "ls_depth z lw_a = 1"
proof -
  let ?x = "new_lwmutex SYS_SYNC_FIFO 0 0"
  define z0 where "z0 = gain lw_a (lw_start boot_running ?x (lw_sample\<lparr>lw_owner := tid_word lw_a\<rparr>))"
  have p: "is_ppu lw_a" "is_ppu lw_b" by (simp_all add: is_ppu_def id_type_def)
  note w = tid_word_eq [OF p(1)]
  have ab: "tid_word lw_a \<noteq> tid_word lw_b" using w(1) [OF p(2)] by simp
  have s0: "ls_pc z0 = (\<lambda>_. L_idle)" "ls_mem z0 = lw_sample\<lparr>lw_owner := tid_word lw_a\<rparr>" "ls_obj z0 = ?x" "ls_lv2 z0 = boot_running" "ls_depth z0 lw_a = 1"
    by (simp_all add: z0_def lw_start_def)
  have "lw_step z0 (lgo lw_b (L_spin False 10 0) z0)"
    by (rule l_slow) (use s0 w p ab in \<open>simp_all add: lw_acquire_def lw_cas_free_def\<close>)
  then have "lw_runs boot_running ?x lw_sample (lgo lw_b (L_spin False 10 0) z0)" using lw_sample_locked lw_runs_step unfolding z0_def by blast
  from lw_spin_out [OF this] have r1: "lw_runs boot_running ?x lw_sample (lgo lw_b (L_spin False 0 0) z0)" (is "lw_runs _ _ _ ?z1") using s0(2) w(2) by simp
  let ?z2 = "lgo lw_b (L_cas False 0) (?z1\<lparr>ls_mem := lw_inc (ls_mem ?z1)\<rparr>)"
  have m: "lw_inc (ls_mem ?z1) = lw_sample\<lparr>lw_owner := tid_word lw_a, lw_waiter := 1\<rparr>" using s0(2) by (simp add: lw_inc_eq lw_sample_def)
  have r2: "lw_runs boot_running ?x lw_sample ?z2" by (rule lw_runs_step [OF r1], rule l_join) simp
  let ?z3 = "lgo lw_b (L_call False 0) ?z2"
  have r3: "lw_runs boot_running ?x lw_sample ?z3" by (rule lw_runs_step [OF r2], rule l_cas) (use m w in \<open>simp_all add: lw_cas_free_def\<close>)
  let ?z4 = "lgo lw_b (L_own False 0) (?z3\<lparr>ls_obj := ?x, ls_lv2 := set_cancel_sleep lw_b 1 (set_gpr lw_b 3 CELL_OK (add_flags lw_b {F_wait} (ls_lv2 ?z3)))\<rparr>)"
  have r4: "lw_runs boot_running ?x lw_sample ?z4"
    by (rule lw_runs_step [OF r3], rule l_call) (use s0 boot_running_ready(2) in \<open>simp_all add: lw_poll_def new_lwmutex_def\<close>)
  obtain s x where o': "lw_try_own lw_b False (ls_lv2 ?z4) (ls_obj ?z4) = Some (0, s, x)" "lw_b \<in> set (lwm_sq x)"
    by (simp add: lw_try_own_def new_lwmutex_def)
  show thesis
  proof (rule that)
    show "lw_runs boot_running ?x lw_sample (lgo lw_b (L_sleep False 0) (?z4\<lparr>ls_obj := x, ls_lv2 := s\<rparr>))"
      by (rule lw_runs_step [OF r4], rule l_own [OF _ o'(1)]) simp
  qed (use o'(2) m s0 in simp_all)
qed

theorem lwmutex_lock_outcome_witness:
  "\<exists>z. lw_runs boot_running (new_lwmutex SYS_SYNC_FIFO 0 0) lw_sample z \<and> on_queue z lw_b \<and> (\<exists>u. 0 < ls_depth z u)"
proof -
  obtain z where z: "lw_runs boot_running (new_lwmutex SYS_SYNC_FIFO 0 0) lw_sample z" "on_queue z lw_b"
    "ls_mem z = lw_sample\<lparr>lw_owner := tid_word lw_a, lw_waiter := 1\<rparr>" by (rule lw_sample_waiting) blast
  have "lw_fresh lw_sample" by (simp add: lw_fresh_def lw_sample_def)
  note o' = lwmutex_lock_outcome [OF boot_running_ready(1) this z(1), where t = lw_b]
  have "\<not> lw_retry (ls_mem z)" "lw_owner (ls_mem z) \<noteq> lwmutex_reserved"
    using z(3) tid_word_eq(3) [of lw_a] by (simp_all add: lw_retry_def lw_sample_def is_ppu_def id_type_def)
  then show ?thesis using o' z(1,2) by blast
qed

end
