(* ===== verification/Sys_Lwcond.thy ===== *)
theory Sys_Lwcond
  imports Sys_Lwmutex Sys_Cond
begin

text \<open>
  The kernel side of lightweight condition variables (\<^verbatim>\<open>kernel/cellos/include/cellos/sys_lwcond.h\<close>,
  \<^verbatim>\<open>kernel/cellos/src/sys_lwcond.cpp\<close>). A signalled thread is woken to lock the lightweight mutex itself (mode 2), is
  handed the mutex (mode 3), or moves on to the sleepers of the mutex (mode 1). \<open>lwcond_waiters\<close> of the mutex and
  \<open>lwmutex_waiters\<close> of the condition variable count the threads inside \<^verbatim>\<open>_sys_lwcond_queue_wait\<close>, which the destruction of
  either waits for.
\<close>

section \<open>Operations on a condition variable and its lightweight mutex\<close>

text \<open>
  The choice of the thread to signal: a given thread or the next one of the queue. The first result is false if
  that thread is being stopped, and then the caller is stopped too.
\<close>

definition lwcond_pick :: "tid option \<Rightarrow> lv2 \<Rightarrow> lv2_lwcond \<Rightarrow> bool \<times> tid option \<times> lv2_lwcond" where
  "lwcond_pick target s c =
     (case target of
        Some t \<Rightarrow>
          if F_again \<in> flags_of s t then (False, None, c)
          else (case unqueue (lwc_sq c) t of
                  (None, _) \<Rightarrow> (True, None, c)
                | (Some f, q) \<Rightarrow> (True, Some f, c\<lparr>lwc_sq := q\<rparr>))
      | None \<Rightarrow>
          (case schedule (ppus s) (lwc_protocol c) (lwc_sq c) of
             (None, _) \<Rightarrow> (True, None, c)
           | (Some f, q) \<Rightarrow> if F_again \<in> flags_of s f then (False, None, c) else (True, Some f, c\<lparr>lwc_sq := q\<rparr>)))"

text \<open>
  What becomes of the chosen thread. Mode 3 with sleepers in the mutex queues it behind them and hands the mutex
  to the next one. The first result is the value of the function, 1 for a signalled thread.
\<close>

definition lwcond_deliver :: "env \<Rightarrow> u32 \<Rightarrow> tid \<Rightarrow> lv2 \<Rightarrow> lv2_lwmutex \<Rightarrow> (bool \<times> lv2 \<times> lv2_lwmutex) option" where
  "lwcond_deliver e mode t s m =
     (if mode = 2 then map_option (\<lambda>s1. (True, s1, m)) (obj_awake e t (set_gpr t 3 CELL_EBUSY s))
      else if mode = 3 \<and> lwm_sq m \<noteq> [] then
        (case lw_try_own t True s m of
           None \<Rightarrow> None
         | Some (_, s1, m1) \<Rightarrow>
             (case lw_reown False s1 m1 of
                (None, _) \<Rightarrow> None
              | (Some f, m2) \<Rightarrow>
                  if F_again \<in> flags_of s1 f then Some (False, add_flags (cur e) {F_again} s1, m2)
                  else map_option (\<lambda>s2. (True, s2, m2)) (obj_awake e f s1)))
      else if mode = 1 then map_option (\<lambda>(_, s1, m1). (True, s1, m1)) (lw_try_own t True s m)
      else map_option (\<lambda>s1. (True, s1, m)) (obj_awake e t s))"

definition lwcond_signal ::
    "env \<Rightarrow> u32 \<Rightarrow> tid option \<Rightarrow> lv2 \<Rightarrow> lv2_lwcond \<Rightarrow> lv2_lwmutex \<Rightarrow> (bool \<times> lv2 \<times> lv2_lwcond \<times> lv2_lwmutex) option" where
  "lwcond_signal e mode target s c m =
     (if lwc_sq c = [] then Some (False, s, c, m)
      else case lwcond_pick target s c of
        (False, _, c1) \<Rightarrow> Some (False, add_flags (cur e) {F_again} s, c1, m)
      | (True, None, c1) \<Rightarrow> Some (False, s, c1, m)
      | (True, Some t, c1) \<Rightarrow> map_option (\<lambda>(ok, s1, m1). (ok, s1, c1, m1)) (lwcond_deliver e mode t s m))"

text \<open>The loop of \<^verbatim>\<open>_sys_lwcond_signal_all\<close> over the detached queue, with the number of signalled threads.\<close>

partial_function (option) lwcond_drain ::
    "u32 \<Rightarrow> u32 \<Rightarrow> u32 \<Rightarrow> tid list \<Rightarrow> lv2 \<Rightarrow> lv2_lwmutex \<Rightarrow> (u32 \<times> lv2 \<times> lv2_lwmutex) option" where
  "lwcond_drain mode protocol n q s m =
     (case schedule (ppus s) protocol q of
        (None, _) \<Rightarrow> Some (n, s, m)
      | (Some t, q1) \<Rightarrow>
          if mode = 1 then
            (case lw_try_own t True s m of
               None \<Rightarrow> None
             | Some (_, s1, m1) \<Rightarrow> lwcond_drain mode protocol (n + 1) q1 s1 m1)
          else lwcond_drain mode protocol (n + 1) q1
                 (append_awake t (if mode = 2 then set_gpr t 3 CELL_EBUSY s else s)) m)"

definition lwcond_signal_all ::
    "env \<Rightarrow> u32 \<Rightarrow> lv2 \<Rightarrow> lv2_lwcond \<Rightarrow> lv2_lwmutex \<Rightarrow> (u32 \<times> lv2 \<times> lv2_lwcond \<times> lv2_lwmutex) option" where
  "lwcond_signal_all e mode s c m =
     (if lwc_sq c = [] then Some (0, s, c, m)
      else if some_again s (lwc_sq c) then Some (0, add_flags (cur e) {F_again} s, c, m)
      else case lwcond_drain mode (lwc_protocol c) 0 (lwc_sq c) s m of
        None \<Rightarrow> None
      | Some (n, s1, m1) \<Rightarrow>
          if n \<noteq> 0 \<and> mode = 2 then map_option (\<lambda>s2. (n, s2, c\<lparr>lwc_sq := []\<rparr>, m1)) (obj_awake_all e s1)
          else Some (n, s1, c\<lparr>lwc_sq := []\<rparr>, m1))"

text \<open>
  The part of \<^verbatim>\<open>_sys_lwcond_queue_wait\<close> under the locks. \<open>restored\<close> is \<^verbatim>\<open>ppu.loaded_from_savestate\<close>, \<open>in_mutex\<close> the
  value read from the savestate, \<open>cas\<close> the outcome of the compare-and-swap of \<^verbatim>\<open>try_unlock\<close>.
\<close>

definition count_waiter :: "lv2_lwcond \<Rightarrow> lv2_lwmutex \<Rightarrow> lv2_lwcond \<times> lv2_lwmutex" where
  "count_waiter c m = (c\<lparr>lwmutex_waiters := lwmutex_waiters c + 1\<rparr>, m\<lparr>lwcond_waiters := lwcond_waiters m + 1\<rparr>)"

definition uncount_waiter :: "lv2_lwcond \<Rightarrow> lv2_lwmutex \<Rightarrow> lv2_lwcond \<times> lv2_lwmutex" where
  "uncount_waiter c m = (c\<lparr>lwmutex_waiters := lwmutex_waiters c - 1\<rparr>, m\<lparr>lwcond_waiters := lwcond_waiters m - 1\<rparr>)"

definition lwcond_enqueue :: "tid \<Rightarrow> bool \<Rightarrow> lv2 \<Rightarrow> lv2_lwcond \<Rightarrow> lv2_lwmutex \<Rightarrow> (lv2 \<times> lv2_lwcond \<times> lv2_lwmutex) option" where
  "lwcond_enqueue t in_mutex s c m =
     (if in_mutex then map_option (\<lambda>(_, s1, m1). (s1, c, m1)) (lw_try_own t True s m)
      else case emplace t (lwc_sq c) s of (q, s1) \<Rightarrow> Some (s1, c\<lparr>lwc_sq := q\<rparr>, m))"

definition lwcond_release ::
    "env \<Rightarrow> bool \<Rightarrow> lv2 \<Rightarrow> lv2_lwcond \<Rightarrow> lv2_lwmutex \<Rightarrow> (bool \<times> lv2 \<times> lv2_lwcond \<times> lv2_lwmutex) option" where
  "lwcond_release e cas s c m =
     (case lw_try_unlock cas False m of
        (True, m1) \<Rightarrow> Some (True, s, c, m1)
      | (False, m1) \<Rightarrow>
          (case lw_reown False s m1 of
             (None, m2) \<Rightarrow> Some (True, s, c, m2)
           | (Some f, m2) \<Rightarrow>
               if F_again \<in> flags_of s f then
                 (case unqueue (lwc_sq c) (cur e) of
                    (None, _) \<Rightarrow> None
                  | (Some _, q) \<Rightarrow>
                      (case uncount_waiter (c\<lparr>lwc_sq := q\<rparr>) m2 of
                         (c1, m3) \<Rightarrow> Some (False, add_flags (cur e) {F_again} s, c1, m3)))
               else Some (True, append_awake f s, c, m2)))"

definition lwcond_wait_begin ::
    "env \<Rightarrow> nat \<Rightarrow> bool \<Rightarrow> bool \<Rightarrow> bool \<Rightarrow> lv2 \<Rightarrow> lv2_lwcond \<Rightarrow> lv2_lwmutex \<Rightarrow> (lv2 \<times> lv2_lwcond \<times> lv2_lwmutex) option" where
  "lwcond_wait_begin e timeout restored in_mutex cas s c m =
     (case count_waiter c m of
        (c1, m1) \<Rightarrow>
          (case lwcond_enqueue (cur e) in_mutex s c1 m1 of
             None \<Rightarrow> None
           | Some (s1, c2, m2) \<Rightarrow>
               (case (if restored then Some (True, s1, c2, m2) else lwcond_release e cas s1 c2 m2) of
                  None \<Rightarrow> None
                | Some (False, s2, c3, m3) \<Rightarrow> Some (s2, c3, m3)
                | Some (True, s2, c3, m3) \<Rightarrow> map_option (\<lambda>(_, s3). (s3, c3, m3)) (obj_sleep e timeout s2))))"

text \<open>The time-out of a waiter, which is in one of the two queues or has been signalled.\<close>

definition lwcond_expire :: "tid \<Rightarrow> lv2 \<Rightarrow> lv2_lwcond \<times> lv2_lwmutex \<Rightarrow> (lv2 \<times> lv2_lwcond \<times> lv2_lwmutex) option" where
  "lwcond_expire t s cm =
     (case cm of (c, m) \<Rightarrow>
        (case unqueue (lwc_sq c) t of
           (Some _, q) \<Rightarrow> Some (set_gpr t 3 CELL_ETIMEDOUT s, c\<lparr>lwc_sq := q\<rparr>, m)
         | (None, _) \<Rightarrow>
             (case unqueue (lwm_sq m) t of
                (Some _, q) \<Rightarrow> Some (set_gpr t 3 CELL_ETIMEDOUT s, c, m\<lparr>lwm_sq := q\<rparr>)
              | (None, _) \<Rightarrow> Some (s, c, m))))"

abbreviation lwcond_queued :: "tid \<Rightarrow> lv2_lwcond \<times> lv2_lwmutex \<Rightarrow> bool" where
  "lwcond_queued t cm \<equiv> t \<in> set (lwc_sq (fst cm)) \<or> t \<in> set (lwm_sq (snd cm))"

section \<open>System calls\<close>

definition new_lwcond :: "u64 \<Rightarrow> u32 \<Rightarrow> u32 \<Rightarrow> u32 \<Rightarrow> lv2_lwcond" where
  "new_lwcond name lwid protocol control =
     \<lparr>obj_exists = 0, lwc_name = name, lwc_lwid = lwid, lwc_protocol = take_bit 8 protocol, lwc_control = control,
      lwmutex_waiters = 0, lwc_sq = []\<rparr>"

definition lwcond_at :: "u32 \<Rightarrow> kernel \<Rightarrow> (nat \<times> lv2_lwcond) option" where
  "lwcond_at v k = (case obj_at lwcond_base_id v k of Some (p, O_lwcond x) \<Rightarrow> Some (p, x) | _ \<Rightarrow> None)"

definition put_lwcond :: "nat \<Rightarrow> lv2_lwcond \<Rightarrow> kernel \<Rightarrow> kernel" where
  "put_lwcond p x k = k\<lparr>store := (store k)(p \<mapsto> O_lwcond x)\<rparr>"

definition sys_lwcond_create_syscall ::
    "env \<Rightarrow> u32 \<Rightarrow> u32 \<Rightarrow> u64 \<Rightarrow> kernel \<Rightarrow> (error_code \<times> u32 option \<times> kernel) option" where
  "sys_lwcond_create_syscall e lwmutex_id control name k =
     (let k1 = enter e k in
      case lwmutex_at lwmutex_id k1 of
        None \<Rightarrow> Some (CELL_ESRCH, None, k1)
      | Some (_, m) \<Rightarrow>
          let protocol = (if lwm_protocol m = SYS_SYNC_RETRY then SYS_SYNC_PRIORITY else lwm_protocol m) in
          (case make_obj lwcond_base_id (\<lambda>_. O_lwcond (new_lwcond name lwmutex_id protocol control)) k1 of
             None \<Rightarrow> None
           | Some (v, k2) \<Rightarrow> if v \<noteq> 0 then Some (CELL_OK, Some v, k2) else Some (CELL_EAGAIN, None, k2)))"

text \<open>The rounds of \<^verbatim>\<open>_sys_lwcond_destroy\<close>, as for a lightweight mutex.\<close>

definition lwcond_destroy_round :: "env \<Rightarrow> u32 \<Rightarrow> nat option \<Rightarrow> kernel \<Rightarrow> (destroy_round \<times> kernel) option" where
  "lwcond_destroy_round e v prev k =
     (case withdraw_obj lwcond_base_id v
             (\<lambda>p k1. case store k1 p of
                Some (O_lwcond x) \<Rightarrow>
                  if prev \<noteq> None \<and> prev \<noteq> Some p then (CELL_ESRCH, k1)
                  else if lwc_sq x \<noteq> [] then (CELL_EBUSY, k1)
                  else
                    (let w = lwmutex_waiters x OR 0x80000000 in
                     (if w \<noteq> 0x80000000 then CELL_EAGAIN else CELL_OK, put_lwcond p (x\<lparr>lwmutex_waiters := w\<rparr>) k1))
              | _ \<Rightarrow> (CELL_ESRCH, k1)) k of
        (None, k1) \<Rightarrow> Some (D_done CELL_ESRCH, k1)
      | (Some (p, err), k1) \<Rightarrow>
          if err = CELL_EAGAIN then map_option (\<lambda>(_, s). (D_wait p, k1\<lparr>sched := s\<rparr>)) (obj_sleep e 0 (sched k1))
          else Some (D_done err, k1))"

definition lwcond_destroy_wait :: "env \<Rightarrow> nat \<Rightarrow> bool \<Rightarrow> kernel \<Rightarrow> (wait_step \<times> kernel) option" where
  "lwcond_destroy_wait e p stopped k =
     (case store k p of
        Some (O_lwcond x) \<Rightarrow>
          if stopped then Some (W_return, k\<lparr>sched := add_flags (cur e) {F_again} (sched k)\<rparr>)
          else if lwmutex_waiters x > 0x80000000 then Some (W_continue, k) else Some (W_break, k)
      | _ \<Rightarrow> None)"

definition sys_lwcond_destroy_syscall :: "env \<Rightarrow> u32 \<Rightarrow> kernel \<Rightarrow> (destroy_round \<times> kernel) option" where
  "sys_lwcond_destroy_syscall e v k = lwcond_destroy_round e v None (enter e k)"

text \<open>
  The condition variable and, unless the mode is 2, the lightweight mutex of a signalling call; \<open>None\<close> is
  \<^verbatim>\<open>CELL_ESRCH\<close>. Mode 2 does not use a mutex; \<open>pair_mutex\<close> then gives an arbitrary one.
\<close>

definition lwcond_pair :: "u32 \<Rightarrow> u32 \<Rightarrow> u32 \<Rightarrow> kernel \<Rightarrow> (nat \<times> lv2_lwcond \<times> (nat \<times> lv2_lwmutex) option) option" where
  "lwcond_pair mode v mv k =
     (case lwcond_at v k of
        None \<Rightarrow> None
      | Some (p, c) \<Rightarrow>
          if mode = 2 then Some (p, c, None)
          else (case lwmutex_at mv k of None \<Rightarrow> None | Some pm \<Rightarrow> Some (p, c, Some pm)))"

definition put_lwcond_pair :: "nat \<Rightarrow> nat option \<Rightarrow> lv2 \<Rightarrow> lv2_lwcond \<Rightarrow> lv2_lwmutex \<Rightarrow> kernel \<Rightarrow> kernel" where
  "put_lwcond_pair p mp s c m k =
     (let k1 = put_lwcond p c (k\<lparr>sched := s\<rparr>) in case mp of None \<Rightarrow> k1 | Some q \<Rightarrow> put_lwmutex q m k1)"

definition pair_mutex :: "(nat \<times> lv2_lwmutex) option \<Rightarrow> lv2_lwmutex" where
  "pair_mutex pm = (case pm of None \<Rightarrow> new_lwmutex 0 0 0 | Some (_, m) \<Rightarrow> m)"

text \<open>
  One round of \<^verbatim>\<open>_sys_lwcond_signal\<close>. \<open>target\<close> is the thread with the given id and whether it exists, \<open>stopped\<close> the
  result of \<^verbatim>\<open>ppu.test_stopped()\<close>. An unknown mode is an exception.
\<close>

definition lwcond_no_signal :: "u32 \<Rightarrow> (tid \<times> bool) option \<Rightarrow> error_code" where
  "lwcond_no_signal mode target =
     (if target = None \<and> mode = 3 then CELL_ENOENT else if target = None \<and> mode = 2 then CELL_OK else CELL_EPERM)"

definition sys_lwcond_signal_syscall ::
    "env \<Rightarrow> u32 \<Rightarrow> u32 \<Rightarrow> (tid \<times> bool) option \<Rightarrow> u32 \<Rightarrow> bool \<Rightarrow> kernel \<Rightarrow> (signal_round \<times> kernel) option" where
  "sys_lwcond_signal_syscall e v mv target mode stopped k =
     (if mode < 1 \<or> mode > 3 then None
      else if stopped then Some (Sig_done CELL_OK, k\<lparr>sched := add_flags (cur e) {F_again} (sched k)\<rparr>)
      else
        let k1 = enter e k in
        if (case target of Some (_, found) \<Rightarrow> \<not> found | None \<Rightarrow> False) then Some (Sig_done CELL_ESRCH, k1)
        else (case lwcond_pair mode v mv k1 of
           None \<Rightarrow> Some (Sig_done CELL_ESRCH, k1)
         | Some (p, c, pm) \<Rightarrow>
             if F_suspend \<in> flags_of (sched k1) (cur e) then Some (Sig_again, k1)
             else map_option (\<lambda>(ok, s, c1, m1).
                      (Sig_done (if ok then CELL_OK else lwcond_no_signal mode target),
                       put_lwcond_pair p (map_option fst pm) s c1 m1 k1))
                    (lwcond_signal e mode (map_option fst target) (sched k1) c (pair_mutex pm))))"

definition sys_lwcond_signal_all_syscall ::
    "env \<Rightarrow> u32 \<Rightarrow> u32 \<Rightarrow> u32 \<Rightarrow> bool \<Rightarrow> kernel \<Rightarrow> (signal_round \<times> kernel) option" where
  "sys_lwcond_signal_all_syscall e v mv mode stopped k =
     (if mode < 1 \<or> mode > 2 then None
      else if stopped then Some (Sig_done CELL_OK, k\<lparr>sched := add_flags (cur e) {F_again} (sched k)\<rparr>)
      else
        let k1 = enter e k in
        (case lwcond_pair mode v mv k1 of
           None \<Rightarrow> Some (Sig_done CELL_ESRCH, k1)
         | Some (p, c, pm) \<Rightarrow>
             if F_suspend \<in> flags_of (sched k1) (cur e) then Some (Sig_again, k1)
             else map_option (\<lambda>(n, s, c1, m1).
                      (Sig_done (if mode = 1 then n else CELL_OK), put_lwcond_pair p (map_option fst pm) s c1 m1 k1))
                    (lwcond_signal_all e mode (sched k1) c (pair_mutex pm))))"

definition sys_lwcond_queue_wait ::
    "env \<Rightarrow> u32 \<Rightarrow> u32 \<Rightarrow> nat \<Rightarrow> bool \<Rightarrow> bool \<Rightarrow> bool \<Rightarrow> kernel \<Rightarrow> (sys_result \<times> kernel) option" where
  "sys_lwcond_queue_wait e v mv timeout restored in_mutex cas k =
     (let k0 = enter e k; k1 = k0\<lparr>sched := set_gpr (cur e) 3 CELL_OK (sched k0)\<rparr> in
      case lwcond_pair 1 v mv k1 of
        None \<Rightarrow> Some (Done CELL_ESRCH, k1)
      | Some (p, c, pm) \<Rightarrow>
          map_option (\<lambda>(s, c1, m1).
              (if F_again \<in> flags_of s (cur e) then Done CELL_OK else Blocked, put_lwcond_pair p (map_option fst pm) s c1 m1 k1))
            (lwcond_wait_begin e timeout restored in_mutex cas (sched k1) c (pair_mutex pm)))"

text \<open>
  One iteration of its loop. \<open>W_return\<close> stands for the \<^verbatim>\<open>break\<close> of a stopped thread that is still queued, which like
  \<open>W_break\<close> leads to the end of the call.
\<close>

definition sys_lwcond_queue_wait_iter ::
    "env \<Rightarrow> nat \<Rightarrow> nat \<Rightarrow> nat \<Rightarrow> bool \<Rightarrow> bool \<Rightarrow> kernel \<Rightarrow> (wait_step \<times> kernel) option" where
  "sys_lwcond_queue_wait_iter e p mp timeout timed_out check_state k =
     (case (store k p, store k mp) of
        (Some (O_lwcond c), Some (O_lwmutex m)) \<Rightarrow>
          map_option (\<lambda>(w, s, c1, m1). (w, put_lwcond_pair p (Some mp) s c1 m1 k))
            (wait_iter lwcond_queued lwcond_expire (cur e) (timeout \<noteq> 0 \<and> timed_out) check_state (sched k) (c, m))
      | _ \<Rightarrow> None)"

text \<open>The end of the call. The results are the returned value and whether the destroyers are notified.\<close>

definition sys_lwcond_queue_wait_end ::
    "env \<Rightarrow> nat \<Rightarrow> nat \<Rightarrow> kernel \<Rightarrow> (error_code \<times> bool \<times> bool \<times> kernel) option" where
  "sys_lwcond_queue_wait_end e p mp k =
     (case (store k p, store k mp) of
        (Some (O_lwcond c), Some (O_lwmutex m)) \<Rightarrow>
          (case uncount_waiter c m of
             (c1, m1) \<Rightarrow> Some (ucast (gpr_of (sched k) (cur e) 3), lwcond_waiters m1 = 0x80000000,
                            lwmutex_waiters c1 = 0x80000000, put_lwcond_pair p (Some mp) (sched k) c1 m1 k))
      | _ \<Rightarrow> None)"

section \<open>Signalled threads are handed on\<close>

text \<open>The threads waiting for the condition variable or the mutex, all asleep and none being stopped.\<close>

definition lwcond_rest :: "lv2 \<Rightarrow> lv2_lwcond \<Rightarrow> lv2_lwmutex \<Rightarrow> tid set \<Rightarrow> bool" where
  "lwcond_rest s c m G \<longleftrightarrow> asleep s (set (lwc_sq c @ lwm_sq m)) G \<and> distinct (lwc_sq c @ lwm_sq m)
     \<and> \<not> some_again s (lwc_sq c @ lwm_sq m)"

lemma lwcond_pick_cases:
  assumes d: "distinct (lwc_sq c)" and a: "\<not> some_again s (lwc_sq c)" and t: "\<forall>t. target = Some t \<longrightarrow> F_again \<notin> flags_of s t"
  shows "(\<exists>t\<in>set (lwc_sq c). (target = None \<or> target = Some t) \<and> lwcond_pick target s c = (True, Some t, c\<lparr>lwc_sq := remove1 t (lwc_sq c)\<rparr>))
    \<or> (case target of None \<Rightarrow> lwc_sq c = [] | Some t \<Rightarrow> t \<notin> set (lwc_sq c)) \<and> lwcond_pick target s c = (True, None, c)"
proof (cases target)
  case None
  obtain r q where sc: "schedule (ppus s) (lwc_protocol c) (lwc_sq c) = (r, q)" by fastforce
  show ?thesis
  proof (cases r)
    case (Some f)
    then have "f \<in> set (lwc_sq c)" "F_again \<notin> flags_of s f" using schedule_cases(2) [OF sc] a by (auto simp: some_again_def)
    then show ?thesis using None Some sc schedule_cases(3) [OF sc, of f] by (auto simp: lwcond_pick_def)
  qed (use None sc schedule_cases(1) [OF sc] in \<open>auto simp: lwcond_pick_def\<close>)
next
  case (Some t)
  then show ?thesis using t by (auto simp: lwcond_pick_def unqueue_def)
qed

lemma lw_try_own_wait: "lwm_signaled m = 0 \<Longrightarrow> lw_try_own t True s m =
    Some (0, stamp_order t s, m\<lparr>lwm_sq := t # lwm_sq m, lwcond_waiters := unmark_destroy (lwcond_waiters m)\<rparr>)"
  by (simp add: lw_try_own_def)

text \<open>
  What has become of the signalled thread \<open>t\<close>: it sleeps in the queue of the mutex (mode 1), runs to lock the mutex
  itself (mode 2), or the mutex has been handed to it or to a thread that waited for it already (mode 3).
\<close>

definition handed_on :: "u32 \<Rightarrow> tid \<Rightarrow> tid set \<Rightarrow> tid set \<Rightarrow> lv2 \<Rightarrow> lv2_lwmutex \<Rightarrow> lv2 \<Rightarrow> lv2_lwmutex \<Rightarrow> bool" where
  "handed_on mode t W G s m s' m' \<longleftrightarrow>
     lwm_signaled m' = lwm_signaled m \<and> (\<forall>u. (u = t \<longrightarrow> mode \<noteq> 2) \<longrightarrow> gpr (ppus s' u) = gpr (ppus s u))
     \<and> (if mode = 1 then lwm_sq m' = t # lwm_sq m \<and> asleep s' W G
        else if mode = 2 then m' = m \<and> gpr_of s' t 3 = CELL_EBUSY \<and> asleep s' (W - {t}) (insert t G)
        else \<exists>f\<in>set (t # lwm_sq m). (lwm_sq m = [] \<or> lwm_protocol m = SYS_SYNC_FIFO \<longrightarrow> f = last (t # lwm_sq m))
               \<and> lwm_sq m' = remove1 f (t # lwm_sq m) \<and> asleep s' (W - {f}) (insert f G))"

lemma lwcond_deliver_spec:
  assumes a: "asleep s W G" "t \<in> W" "set (lwm_sq m) \<subseteq> W" and g: "\<not> some_again s (t # lwm_sq m)"
    and sg: "mode \<noteq> 2 \<Longrightarrow> lwm_signaled m = 0" and mode: "mode \<in> {1, 2, 3}"
  shows "\<exists>s' m'. lwcond_deliver e mode t s m = Some (True, s', m') \<and> handed_on mode t W G s m s' m'"
proof -
  consider "mode = 2" | "mode = 1" | "mode = 3" "lwm_sq m = []" | "mode = 3" "lwm_sq m \<noteq> []" using mode by blast
  then show ?thesis
  proof cases
    case 1
    have "asleep (set_gpr t 3 CELL_EBUSY s) W G" using a(1) by simp
    then obtain s' where s': "obj_awake e t (set_gpr t 3 CELL_EBUSY s) = Some s'" "asleep s' (W - {t}) (insert t G)"
      "same_regs (set_gpr t 3 CELL_EBUSY s) s'" using wake_one_spec a(2) by blast
    then show ?thesis using 1 same_regsD(1) [OF s'(3)] by (simp add: lwcond_deliver_def handed_on_def)
  next
    case 2
    then show ?thesis using sg lw_try_own_wait [of m t s] asleep_emplace(2) [OF a(1), of t]
      by (simp add: lwcond_deliver_def handed_on_def)
  next
    case 3
    obtain s' where s': "obj_awake e t s = Some s'" "asleep s' (W - {t}) (insert t G)" "same_regs s s'"
      using wake_one_spec [OF a(1,2)] by blast
    then show ?thesis using 3 same_regsD(1) [OF s'(3)] by (simp add: lwcond_deliver_def handed_on_def)
  next
    case 4
    let ?s = "stamp_order t s" and ?q = "t # lwm_sq m"
    let ?m = "m\<lparr>lwm_sq := ?q, lwcond_waiters := unmark_destroy (lwcond_waiters m)\<rparr>"
    obtain r q where sc: "schedule (ppus ?s) (lwm_protocol m) ?q = (r, q)" by fastforce
    obtain f where r: "r = Some f" "f \<in> set ?q" using schedule_cases(1,2) [OF sc] by fastforce
    then have ng: "F_again \<notin> flags_of s f" using g by (auto simp: some_again_def)
    then have f: "q = remove1 f ?q" "f = sched_pick (ppus ?s) (lwm_protocol m) ?q"
      using schedule_Some [of "ppus ?s" "lwm_protocol m" ?q f q] sc r(1) by simp_all
    have W: "f \<in> W" using r(2) a by auto
    obtain s' where s': "obj_awake e f ?s = Some s'" "asleep s' (W - {f}) (insert f G)" "same_regs ?s s'"
      using wake_one_spec [OF asleep_emplace(2) [OF a(1)] W] by blast
    have "lwcond_deliver e mode t s m = Some (True, s', ?m\<lparr>lwm_sq := q\<rparr>)"
      using 4 sg ng s'(1) sc r(1) lw_try_own_wait [of m t s] by (simp add: lwcond_deliver_def lw_reown_def)
    moreover have "handed_on mode t W G s m s' (?m\<lparr>lwm_sq := q\<rparr>)"
      using 4 s'(2) same_regsD(1) [OF s'(3)] f r(2) by (auto simp: handed_on_def sched_pick_def)
    ultimately show ?thesis by blast
  qed
qed

text \<open>C34: A call of \<^verbatim>\<open>_sys_lwcond_signal\<close> on sleeping waiters, none of which is being stopped, never fails an \<^verbatim>\<open>ensure\<close>. It
  signals a thread exactly if the queue has one (or the given one); that thread alone leaves the queue, and in mode 1 it sleeps in the
  queue of the mutex, in mode 2 it runs and its wait reports \<^verbatim>\<open>CELL_EBUSY\<close>, in mode 3 the mutex goes to it or to a thread
  queued for the mutex before, which then runs while it is queued. All other threads sleep or run as before.\<close>

theorem lwcond_signal_hands_on:
  assumes r: "lwcond_rest s c m G" and t: "\<forall>t. target = Some t \<longrightarrow> F_again \<notin> flags_of s t"
    and sg: "mode \<noteq> 2 \<longrightarrow> lwm_signaled m = 0" and mode: "mode \<in> {1, 2, 3}"
  shows "\<exists>ok s' c' m'. lwcond_signal e mode target s c m = Some (ok, s', c', m')
    \<and> (ok \<longleftrightarrow> (case target of None \<Rightarrow> lwc_sq c \<noteq> [] | Some t \<Rightarrow> t \<in> set (lwc_sq c)))
    \<and> (\<not> ok \<longrightarrow> s' = s \<and> c' = c \<and> m' = m)
    \<and> (ok \<longrightarrow> (\<exists>t\<in>set (lwc_sq c). (target = None \<or> target = Some t) \<and> c' = c\<lparr>lwc_sq := remove1 t (lwc_sq c)\<rparr>
          \<and> handed_on mode t (set (lwc_sq c @ lwm_sq m)) G s m s' m'))"
proof (cases "lwc_sq c = []")
  case True
  then show ?thesis by (auto simp: lwcond_signal_def split: option.splits)
next
  case False
  have d: "distinct (lwc_sq c)" "\<not> some_again s (lwc_sq c)" using r by (auto simp: lwcond_rest_def some_again_def)
  from lwcond_pick_cases [OF d t] consider
      (pick) u where "u \<in> set (lwc_sq c)" "target = None \<or> target = Some u"
        "lwcond_pick target s c = (True, Some u, c\<lparr>lwc_sq := remove1 u (lwc_sq c)\<rparr>)"
    | (none) "case target of None \<Rightarrow> lwc_sq c = [] | Some t \<Rightarrow> t \<notin> set (lwc_sq c)" "lwcond_pick target s c = (True, None, c)"
    by blast
  then show ?thesis
  proof cases
    case pick
    have "\<exists>s' m'. lwcond_deliver e mode u s m = Some (True, s', m') \<and> handed_on mode u (set (lwc_sq c @ lwm_sq m)) G s m s' m'"
      using r pick(1) sg mode by (intro lwcond_deliver_spec) (auto simp: lwcond_rest_def some_again_def)
    then show ?thesis using pick False by (auto simp: lwcond_signal_def)
  next
    case none
    then show ?thesis using False by (auto simp: lwcond_signal_def split: option.splits)
  qed
qed

theorem lwcond_signal_hands_on_witness:
  "\<exists>s' c' m'. lwcond_signal \<lparr>cur = 0x1000002, e_now = 0, e_tsc = 0\<rparr> 3 None (lv2_boot 2)
      ((new_lwcond 0 0 SYS_SYNC_FIFO 0)\<lparr>lwc_sq := [0x1000001]\<rparr>) ((new_lwmutex SYS_SYNC_FIFO 0 0)\<lparr>lwm_sq := [0x1000000]\<rparr>)
    = Some (True, s', c', m') \<and> lwc_sq c' = [] \<and> lwm_sq m' = [0x1000001] \<and> asleep s' {0x1000001} {0x1000000}"
proof -
  let ?c = "(new_lwcond 0 0 SYS_SYNC_FIFO 0)\<lparr>lwc_sq := [0x1000001]\<rparr>"
  let ?m = "(new_lwmutex SYS_SYNC_FIFO 0 0)\<lparr>lwm_sq := [0x1000000]\<rparr>"
  have "asleep (lv2_boot 2) {0x1000001, 0x1000000} {}" using boot_ready
    by (simp add: asleep_def is_ppu_def id_type_def) (simp add: lv2_boot_def fresh_thread_def)
  then have r: "lwcond_rest (lv2_boot 2) ?c ?m {}"
    by (simp add: lwcond_rest_def some_again_def) (simp add: lv2_boot_def fresh_thread_def)
  have "lwm_signaled ?m = 0" by (simp add: new_lwmutex_def)
  then have "\<exists>s' c' m'. lwcond_signal \<lparr>cur = 0x1000002, e_now = 0, e_tsc = 0\<rparr> 3 None (lv2_boot 2) ?c ?m = Some (True, s', c', m')
      \<and> c' = ?c\<lparr>lwc_sq := []\<rparr> \<and> handed_on 3 0x1000001 {0x1000001, 0x1000000} {} (lv2_boot 2) ?m s' m'"
    using lwcond_signal_hands_on [OF r, of None 3 "\<lparr>cur = 0x1000002, e_now = 0, e_tsc = 0\<rparr>"] by simp metis
  then
  obtain s' c' m' where w: "lwcond_signal \<lparr>cur = 0x1000002, e_now = 0, e_tsc = 0\<rparr> 3 None (lv2_boot 2) ?c ?m = Some (True, s', c', m')"
    "c' = ?c\<lparr>lwc_sq := []\<rparr>" "handed_on 3 0x1000001 {0x1000001, 0x1000000} {} (lv2_boot 2) ?m s' m'"
    by blast
  have p: "lwm_protocol ?m = SYS_SYNC_FIFO" by (simp add: new_lwmutex_def)
  have "\<exists>f\<in>{0x1000001, 0x1000000}. f = 0x1000000 \<and> lwm_sq m' = remove1 f [0x1000001, 0x1000000] \<and> asleep s' ({0x1000001, 0x1000000} - {f}) {f}"
    using w(3) p unfolding handed_on_def by simp
  moreover have "{0x1000001, 0x1000000 :: tid} - {0x1000000} = {0x1000001}" by auto
  ultimately have "lwm_sq m' = [0x1000001] \<and> asleep s' {0x1000001} {0x1000000}" by simp
  then show ?thesis using w(1,2) by simp
qed

text \<open>Signalling all: in mode 1 every waiter moves to the queue of the mutex, in mode 2 every waiter is woken.\<close>

lemma lwcond_drain_Nil [simp]: "lwcond_drain mode pr n [] s m = Some (n, s, m)"
  by (subst lwcond_drain.simps) simp

lemma schedule_obtain:
  assumes "q \<noteq> []" "\<not> some_again s q"
  obtains t where "schedule (ppus s) pr q = (Some t, remove1 t q)" "t \<in> set q" "F_again \<notin> flags_of s t"
proof -
  have "sched_pick (ppus s) pr q \<in> set q" using assms(1) by (rule sched_pick_in)
  then show thesis using that assms by (fastforce simp: schedule_def Let_def some_again_def)
qed

lemma lwcond_drain_queue:
  assumes "distinct q" "\<not> some_again s q" "lwm_signaled m = 0"
  shows "\<exists>us s' w. lwcond_drain 1 pr n q s m = Some (n + of_nat (length q), s', m\<lparr>lwm_sq := us @ lwm_sq m, lwcond_waiters := w\<rparr>)
    \<and> set us = set q \<and> distinct us \<and> same_regs s s' \<and> (\<forall>W G. asleep s W G \<longrightarrow> asleep s' W G)"
  using assms
proof (induction "length q" arbitrary: q s m n)
  case 0
  then show ?case by (intro exI [of _ "[]"] exI [of _ s] exI [of _ "lwcond_waiters m"]) simp
next
  case (Suc k)
  then have "q \<noteq> []" by auto
  then obtain t where t: "schedule (ppus s) pr q = (Some t, remove1 t q)" "t \<in> set q"
    using schedule_obtain Suc(4) by metis
  let ?m = "m\<lparr>lwm_sq := t # lwm_sq m, lwcond_waiters := unmark_destroy (lwcond_waiters m)\<rparr>"
  have "k = length (remove1 t q)" "distinct (remove1 t q)" "\<not> some_again (stamp_order t s) (remove1 t q)" "lwm_signaled ?m = 0"
    using t Suc(2-5) by (auto simp: length_remove1 some_again_def)
  from Suc(1) [OF this, of "n + 1"] obtain us s' w where us:
    "lwcond_drain 1 pr (n + 1) (remove1 t q) (stamp_order t s) ?m
       = Some (n + 1 + of_nat (length (remove1 t q)), s', m\<lparr>lwm_sq := (us @ [t]) @ lwm_sq m, lwcond_waiters := w\<rparr>)"
    "set us = set (remove1 t q)" "distinct us" "same_regs (stamp_order t s) s'" "\<forall>W G. asleep (stamp_order t s) W G \<longrightarrow> asleep s' W G"
    by auto
  have "n + 1 + of_nat (length (remove1 t q)) = n + of_nat (length q)" using t Suc(2) by (simp add: length_remove1 flip: Suc(2))
  then have "lwcond_drain 1 pr n q s m = Some (n + of_nat (length q), s', m\<lparr>lwm_sq := (us @ [t]) @ lwm_sq m, lwcond_waiters := w\<rparr>)"
    using t us(1) Suc(5) by (subst lwcond_drain.simps) (simp add: lw_try_own_def)
  moreover have "set (us @ [t]) = set q" "distinct (us @ [t])" using us t Suc(3) by auto
  moreover have "same_regs s s'" using us(4) by (simp add: same_regs_def)
  ultimately show ?case using us(5) asleep_emplace(2) by blast
qed

lemma lwcond_drain_wake:
  assumes "distinct q" "\<not> some_again s q"
  shows "\<exists>ws s'. lwcond_drain 2 pr n q (append_all vs s) m = Some (n + of_nat (length q), append_all (vs @ ws) s', m) \<and> set ws = set q
    \<and> (\<forall>u. F_again \<in> flags_of s' u \<longleftrightarrow> F_again \<in> flags_of s u)
    \<and> (\<forall>u. gpr (ppus s' u) = (if u \<in> set q then (gpr (ppus s u))(3 := CELL_EBUSY) else gpr (ppus s u)))
    \<and> (\<forall>W G. asleep s W G \<longrightarrow> asleep s' W G)"
  using assms
proof (induction "length q" arbitrary: q s n vs)
  case 0
  then show ?case by (intro exI [of _ "[]"] exI [of _ s]) simp
next
  case (Suc k)
  have pp: "ppus (append_all vs s) = ppus s" by (simp add: append_all_alt)
  have "q \<noteq> []" using Suc(2) by auto
  then obtain t where "schedule (ppus s) pr q = (Some t, remove1 t q)" "t \<in> set q"
    using schedule_obtain Suc(4) by metis
  then have t: "schedule (ppus (append_all vs s)) pr q = (Some t, remove1 t q)" "t \<in> set q" by (simp_all only: pp)
  let ?s = "set_gpr t 3 CELL_EBUSY s"
  have "k = length (remove1 t q)" "distinct (remove1 t q)" "\<not> some_again ?s (remove1 t q)"
    using t Suc(2-4) by (auto simp: length_remove1 some_again_def)
  from Suc(1) [OF this, of "n + 1" "vs @ [t]"] obtain ws s' where ws:
    "lwcond_drain 2 pr (n + 1) (remove1 t q) (append_all (vs @ [t]) ?s) m
       = Some (n + 1 + of_nat (length (remove1 t q)), append_all (vs @ t # ws) s', m)" "set ws = set (remove1 t q)"
    "\<forall>u. F_again \<in> flags_of s' u \<longleftrightarrow> F_again \<in> flags_of ?s u"
    "\<forall>u. gpr (ppus s' u) = (if u \<in> set (remove1 t q) then (gpr (ppus ?s u))(3 := CELL_EBUSY) else gpr (ppus ?s u))"
    "\<forall>W G. asleep ?s W G \<longrightarrow> asleep s' W G" by auto
  have "n + 1 + of_nat (length (remove1 t q)) = n + of_nat (length q)" using t Suc(2) by (simp add: length_remove1 flip: Suc(2))
  moreover have "append_awake t (set_gpr t 3 CELL_EBUSY (append_all vs s)) = append_all (vs @ [t]) ?s"
    by (simp add: append_all_alt append_awake_def set_gpr_def upd_ppu_def)
  ultimately have "lwcond_drain 2 pr n q (append_all vs s) m = Some (n + of_nat (length q), append_all (vs @ t # ws) s', m)"
    using t ws(1) by (subst lwcond_drain.simps) simp
  moreover have "set (t # ws) = set q" using ws(2) t(2) Suc(3) by auto
  ultimately show ?case using ws(3-5) Suc(3) by (intro exI [of _ "t # ws"] exI [of _ s']) auto
qed

lemma few_waiters:
  assumes "asleep s (set q) G" "distinct q"
  shows "length q < 2 ^ 32"
proof -
  have "set q \<subseteq> {..< 0x2000000}" using asleepD(2) [OF assms(1)] by (auto simp: is_ppu_range)
  then show ?thesis using distinct_card [OF assms(2)] card_mono [of "{..< 0x2000000 :: nat}" "set q"] by simp
qed

text \<open>C35: A call of \<^verbatim>\<open>_sys_lwcond_signal_all\<close> on sleeping waiters, none of which is being stopped, terminates, empties the queue and counts the
  waiters. In mode 1 they all sleep in the queue of the mutex, behind the threads queued before; in mode 2 they all run and their
  waits report \<^verbatim>\<open>CELL_EBUSY\<close>. No other thread is touched.\<close>

theorem lwcond_signal_all_moves:
  assumes r: "lwcond_rest s c m G" and sg: "mode \<noteq> 2 \<longrightarrow> lwm_signaled m = 0" and mode: "mode \<in> {1, 2}"
  shows "\<exists>s' m'. lwcond_signal_all e mode s c m = Some (of_nat (length (lwc_sq c)), s', c\<lparr>lwc_sq := []\<rparr>, m')
    \<and> (if mode = 1 then (\<exists>us. lwm_sq m' = us @ lwm_sq m \<and> mset us = mset (lwc_sq c)) \<and> asleep s' (set (lwc_sq c @ lwm_sq m)) G \<and> same_regs s s'
       else m' = m \<and> asleep s' (set (lwm_sq m)) (set (lwc_sq c) \<union> G)
         \<and> (\<forall>u. gpr (ppus s' u) = (if u \<in> set (lwc_sq c) then (gpr (ppus s u))(3 := CELL_EBUSY) else gpr (ppus s u))))"
proof (cases "lwc_sq c = []")
  case True
  then show ?thesis using r by (auto simp: lwcond_signal_all_def lwcond_rest_def)
next
  case False
  have d: "distinct (lwc_sq c)" "\<not> some_again s (lwc_sq c)" and a: "asleep s (set (lwc_sq c @ lwm_sq m)) G" and dj: "distinct (lwc_sq c @ lwm_sq m)"
    using r by (auto simp: lwcond_rest_def some_again_def)
  show ?thesis
  proof (cases "mode = 1")
    case True
    obtain us s' w where us: "lwcond_drain 1 (lwc_protocol c) 0 (lwc_sq c) s m
        = Some (of_nat (length (lwc_sq c)), s', m\<lparr>lwm_sq := us @ lwm_sq m, lwcond_waiters := w\<rparr>)"
      "set us = set (lwc_sq c)" "distinct us" "same_regs s s'" "\<forall>W G. asleep s W G \<longrightarrow> asleep s' W G"
      using lwcond_drain_queue [OF d, of m "lwc_protocol c" 0] sg True by auto
    have "mset us = mset (lwc_sq c)" using us(2,3) d(1) by (simp add: set_eq_iff_mset_eq_distinct)
    then show ?thesis using us a d False True by (auto simp: lwcond_signal_all_def)
  next
    case m2: False
    then have m2: "mode = 2" using mode by simp
    obtain ws s1 where ws: "lwcond_drain 2 (lwc_protocol c) 0 (lwc_sq c) s m = Some (of_nat (length (lwc_sq c)), append_all ws s1, m)"
      "set ws = set (lwc_sq c)" "\<forall>W G. asleep s W G \<longrightarrow> asleep s1 W G"
      "\<forall>u. gpr (ppus s1 u) = (if u \<in> set (lwc_sq c) then (gpr (ppus s u))(3 := CELL_EBUSY) else gpr (ppus s u))"
      using lwcond_drain_wake [OF d, of "lwc_protocol c" 0 "[]" m] by (auto simp: append_all_def)
    obtain s' where s': "obj_awake_all e (append_all ws s1) = Some s'" "asleep s' (set (lwc_sq c @ lwm_sq m) - set ws) (set ws \<union> G)" "same_regs s1 s'"
      using wake_all_spec [of s1 "set (lwc_sq c @ lwm_sq m)" G ws e] ws(2,3) a by auto
    have "set (lwc_sq c @ lwm_sq m) - set ws = set (lwm_sq m)" using dj ws(2) by auto
    moreover have "(of_nat (length (lwc_sq c)) :: u32) \<noteq> 0" 
      using few_waiters [OF a dj] False by (auto simp: word_unat_eq_iff unat_of_nat take_bit_nat_eq_self)
    ultimately show ?thesis using s' ws d False m2 same_regsD(1) [OF s'(3)] by (auto simp: lwcond_signal_all_def)
  qed
qed

theorem lwcond_signal_all_moves_witness:
  "\<exists>s' m'. lwcond_signal_all \<lparr>cur = 0x1000002, e_now = 0, e_tsc = 0\<rparr> 2 (lv2_boot 2)
      ((new_lwcond 0 0 SYS_SYNC_FIFO 0)\<lparr>lwc_sq := [0x1000001, 0x1000000]\<rparr>) (new_lwmutex SYS_SYNC_FIFO 0 0)
    = Some (2, s', new_lwcond 0 0 SYS_SYNC_FIFO 0, m') \<and> asleep s' {} {0x1000001, 0x1000000} \<and> gpr_of s' 0x1000001 3 = CELL_EBUSY"
proof -
  let ?c = "(new_lwcond 0 0 SYS_SYNC_FIFO 0)\<lparr>lwc_sq := [0x1000001, 0x1000000]\<rparr>" and ?m = "new_lwmutex SYS_SYNC_FIFO 0 0"
  have "asleep (lv2_boot 2) {0x1000001, 0x1000000} {}" using boot_ready
    by (simp add: asleep_def is_ppu_range) (simp add: lv2_boot_def fresh_thread_def)
  then have r: "lwcond_rest (lv2_boot 2) ?c ?m {}"
    by (simp add: lwcond_rest_def some_again_def new_lwmutex_def) (simp add: lv2_boot_def fresh_thread_def)
  show ?thesis
    using lwcond_signal_all_moves [OF r, of 2 "\<lparr>cur = 0x1000002, e_now = 0, e_tsc = 0\<rparr>"] by (auto simp: new_lwcond_def new_lwmutex_def)
qed

end
