(* ===== verification/Prx_Lwcond.thy ===== *)
theory Prx_Lwcond
  imports Prx_Lwmutex Sys_Lwcond
begin

text \<open>
  The user side of lightweight condition variables (\<^verbatim>\<open>ps3fw/sys_lwcond_.cpp\<close>), for the configuration without
  \<^verbatim>\<open>hle_lwmutex\<close>. Each function is split at its system call: the part before says with which mode the system call is made,
  the part after gets its result. \<open>m\<close> is the lightweight mutex in guest memory.
\<close>

section \<open>Creation and destruction\<close>

record sys_lwcond_t =
  lc_lwmutex :: u32
  lc_queue :: u32

definition sys_lwcond_create ::
    "bool \<Rightarrow> env \<Rightarrow> u32 \<Rightarrow> u32 \<Rightarrow> sys_lwmutex_t \<Rightarrow> u64 \<Rightarrow> sys_lwcond_t \<Rightarrow> kernel \<Rightarrow> (error_code \<times> sys_lwcond_t \<times> kernel) option" where
  "sys_lwcond_create hle e addr maddr m name c k =
     (case (if hle then
              sys_cond_create e (lw_sleep_queue m)
                \<lparr>ca_pshared = SYS_SYNC_NOT_PROCESS_SHARED, ca_flags = 0, ca_ipc_key = 0, ca_name = name\<rparr> k
            else sys_lwcond_create_syscall e (lw_sleep_queue m) addr name k) of
        None \<Rightarrow> None
      | Some (err, Some v, k1) \<Rightarrow>
          if err \<noteq> 0 then Some (err, c, k1) else Some (CELL_OK, \<lparr>lc_lwmutex = maddr, lc_queue = v\<rparr>, k1)
      | Some (err, None, k1) \<Rightarrow> Some (err, c, k1))"

definition sys_lwcond_destroy ::
    "bool \<Rightarrow> env \<Rightarrow> sys_lwcond_t \<Rightarrow> kernel \<Rightarrow> (destroy_round \<times> sys_lwcond_t \<times> kernel) option" where
  "sys_lwcond_destroy hle e c k =
     (if hle then (case sys_cond_destroy e (lc_queue c) k of (r, k1) \<Rightarrow> Some (D_done r, c, k1))
      else map_option (\<lambda>(r, k1). (r, if r = D_done CELL_OK then c\<lparr>lc_queue := lwmutex_dead\<rparr> else c, k1))
             (sys_lwcond_destroy_syscall e (lc_queue c) k))"

section \<open>Signalling\<close>

datatype lwcond_next = L_return error_code | L_call u32

definition lw_is_retry :: "sys_lwmutex_t \<Rightarrow> bool" where
  "lw_is_retry m \<longleftrightarrow> lw_attribute m AND 0xF = SYS_SYNC_RETRY"

text \<open>\<^verbatim>\<open>lock_var.atomic_op\<close> with which a signaller gives the locked mutex away, and takes it back.\<close>

definition lw_reserve :: "sys_lwmutex_t \<Rightarrow> sys_lwmutex_t" where
  "lw_reserve m = m\<lparr>lw_owner := lwmutex_reserved, lw_waiter := lw_waiter m + 1\<rparr>"

definition lw_take_back :: "tid \<Rightarrow> sys_lwmutex_t \<Rightarrow> sys_lwmutex_t" where
  "lw_take_back t m = m\<lparr>lw_owner := tid_word t, lw_waiter := lw_waiter m - 1\<rparr>"

text \<open>The beginning of \<^verbatim>\<open>sys_lwcond_signal\<close> and \<^verbatim>\<open>sys_lwcond_signal_to\<close>.\<close>

definition lwcond_signal_begin ::
    "env \<Rightarrow> bool \<Rightarrow> sys_lwmutex_t \<Rightarrow> kernel \<Rightarrow> (lwcond_next \<times> sys_lwmutex_t \<times> kernel) option" where
  "lwcond_signal_begin e cas m k =
     (if lw_is_retry m then Some (L_call 2, m, k)
      else if lw_owner m = tid_word (cur e) then Some (L_call 1, lw_inc m, k)
      else map_option (\<lambda>(r, m1, k1).
               if r \<noteq> CELL_OK then (if r \<noteq> CELL_EBUSY then L_return CELL_ESRCH else L_call 2, m1, k1)
               else (L_call 3, lw_reserve m1, k1))
             (sys_lwmutex_trylock False e cas m k))"

text \<open>The end of both; \<open>all_results\<close> for \<^verbatim>\<open>sys_lwcond_signal_to\<close>, which returns every result of the system call.\<close>

definition lwcond_signal_end ::
    "bool \<Rightarrow> env \<Rightarrow> bool \<Rightarrow> u32 \<Rightarrow> error_code \<Rightarrow> sys_lwmutex_t \<Rightarrow> kernel \<Rightarrow> (error_code \<times> sys_lwmutex_t \<times> kernel) option" where
  "lwcond_signal_end all_results e cas mode res m k =
     (if mode = 2 \<or> res = CELL_OK then Some (res, m, k)
      else if mode = 1 then Some (if \<not> all_results \<and> res = CELL_EPERM then CELL_OK else res, lw_dec m, k)
      else map_option (\<lambda>(_, m1, k1). (if \<not> all_results \<and> res = CELL_ENOENT then CELL_OK else res, m1, k1))
             (sys_lwmutex_unlock False e cas (lw_take_back (cur e) m) k))"

text \<open>\<^verbatim>\<open>sys_lwcond_signal_all\<close>; the flag says that the function has locked the mutex.\<close>

definition lwcond_signal_all_begin ::
    "env \<Rightarrow> bool \<Rightarrow> sys_lwmutex_t \<Rightarrow> kernel \<Rightarrow> (bool \<times> lwcond_next \<times> sys_lwmutex_t \<times> kernel) option" where
  "lwcond_signal_all_begin e cas m k =
     (if lw_is_retry m then Some (False, L_call 2, m, k)
      else if lw_owner m = tid_word (cur e) then Some (False, L_call 1, m, k)
      else map_option (\<lambda>(r, m1, k1).
               if r \<noteq> CELL_OK then (False, if r \<noteq> CELL_EBUSY then L_return CELL_ESRCH else L_call 2, m1, k1)
               else (True, L_call 1, m1, k1))
             (sys_lwmutex_trylock False e cas m k))"

definition lw_add_waiters :: "error_code \<Rightarrow> sys_lwmutex_t \<Rightarrow> sys_lwmutex_t" where
  "lw_add_waiters n m = set_all_info (all_info m + ucast n) m"

definition lwcond_signal_all_end ::
    "env \<Rightarrow> bool \<Rightarrow> bool \<Rightarrow> u32 \<Rightarrow> error_code \<Rightarrow> sys_lwmutex_t \<Rightarrow> kernel \<Rightarrow> (error_code \<times> sys_lwmutex_t \<times> kernel) option" where
  "lwcond_signal_all_end e cas locked mode res m k =
     (if mode = 2 then Some (res, m, k)
      else
        let r = (if sint res > 0 then CELL_OK else res); m1 = (if sint res > 0 then lw_add_waiters res m else m) in
        if locked then map_option (\<lambda>(_, m2, k1). (r, m2, k1)) (sys_lwmutex_unlock False e cas m1 k)
        else Some (r, m1, k))"

text \<open>
  \<^verbatim>\<open>sys_lwcond_signal\<close> and \<^verbatim>\<open>sys_lwcond_signal_to\<close> as a whole. \<open>stops\<close> are the results of \<^verbatim>\<open>ppu.test_stopped()\<close> in the rounds of the
  system call; \<open>None\<close> if there are too few of them.
\<close>

fun lwcond_signal_rounds ::
    "env \<Rightarrow> u32 \<Rightarrow> u32 \<Rightarrow> (tid \<times> bool) option \<Rightarrow> u32 \<Rightarrow> bool list \<Rightarrow> kernel \<Rightarrow> (error_code \<times> kernel) option" where
  "lwcond_signal_rounds e v mv target mode [] k = None"
| "lwcond_signal_rounds e v mv target mode (stopped # stops) k =
     (case sys_lwcond_signal_syscall e v mv target mode stopped k of
        None \<Rightarrow> None
      | Some (Sig_done r, k1) \<Rightarrow> Some (r, k1)
      | Some (Sig_again, k1) \<Rightarrow> lwcond_signal_rounds e v mv target mode stops k1)"

definition sys_lwcond_signal ::
    "env \<Rightarrow> (tid \<times> bool) option \<Rightarrow> bool list \<Rightarrow> bool \<Rightarrow> bool \<Rightarrow> sys_lwcond_t \<Rightarrow> sys_lwmutex_t \<Rightarrow> kernel
      \<Rightarrow> (error_code \<times> sys_lwmutex_t \<times> kernel) option" where
  "sys_lwcond_signal e target stops cas cas2 c m k =
     (case lwcond_signal_begin e cas m k of
        None \<Rightarrow> None
      | Some (L_return r, m1, k1) \<Rightarrow> Some (r, m1, k1)
      | Some (L_call mode, m1, k1) \<Rightarrow>
          (case lwcond_signal_rounds e (lc_queue c) (if mode = 2 then 0 else lw_sleep_queue m1) target mode stops k1 of
             None \<Rightarrow> None
           | Some (r, k2) \<Rightarrow> lwcond_signal_end (target \<noteq> None) e cas2 mode r m1 k2))"

section \<open>Waiting\<close>

text \<open>
  \<^verbatim>\<open>sys_lwcond_wait\<close> up to \<^verbatim>\<open>_sys_lwcond_queue_wait\<close>: an error, or the saved recursion count. \<open>saved\<close> is the count
  read from a savestate.
\<close>

definition lwcond_wait_enter :: "tid \<Rightarrow> u32 option \<Rightarrow> sys_lwmutex_t \<Rightarrow> (error_code + u32) \<times> sys_lwmutex_t" where
  "lwcond_wait_enter t saved m =
     (if lw_owner m \<noteq> tid_word t then (Inl CELL_EPERM, m)
      else (Inr (case saved of None \<Rightarrow> lw_recursive_count m | Some v \<Rightarrow> v),
            m\<lparr>lw_owner := lwmutex_reserved, lw_recursive_count := 0\<rparr>))"

text \<open>
  After the system call: it returns, or locks the mutex with \<^verbatim>\<open>sys_lwmutex_lock\<close> and ends with \<open>lwcond_wait_locked\<close>.
  \<open>None\<close> is an exception.
\<close>

datatype lwcond_leave = V_return error_code | V_lock

definition lw_restore :: "tid \<Rightarrow> u32 \<Rightarrow> sys_lwmutex_t \<Rightarrow> sys_lwmutex_t option" where
  "lw_restore t cnt m =
     (if lw_owner m = lwmutex_free \<or> lw_owner m = lwmutex_dead then None
      else Some (m\<lparr>lw_owner := tid_word t, lw_recursive_count := cnt\<rparr>))"

definition lwcond_wait_leave :: "tid \<Rightarrow> u32 \<Rightarrow> error_code \<Rightarrow> sys_lwmutex_t \<Rightarrow> (lwcond_leave \<times> sys_lwmutex_t) option" where
  "lwcond_wait_leave t cnt res m =
     (if res = CELL_OK then map_option (\<lambda>m1. (V_return res, m1)) (lw_restore t cnt (lw_dec m))
      else if res = CELL_ESRCH then map_option (\<lambda>m1. (V_return res, m1)) (lw_restore t cnt m)
      else if res = CELL_EBUSY \<or> res = CELL_ETIMEDOUT then Some (V_lock, m)
      else if res = CELL_EDEADLK then map_option (\<lambda>m1. (V_return CELL_ETIMEDOUT, m1)) (lw_restore t cnt m)
      else None)"

definition lwcond_wait_locked :: "u32 \<Rightarrow> error_code \<Rightarrow> error_code \<Rightarrow> sys_lwmutex_t \<Rightarrow> error_code \<times> sys_lwmutex_t" where
  "lwcond_wait_locked cnt res res2 m =
     (if res2 \<noteq> CELL_OK then (res2, m)
      else (if res = CELL_EBUSY then CELL_OK else res, m\<lparr>lw_recursive_count := cnt\<rparr>))"

section \<open>An interrupted signal\<close>

text \<open>C36: A call of \<^verbatim>\<open>sys_lwcond_signal\<close> on a condition variable whose lightweight mutex is free locks the mutex and reserves it
  before it enters the kernel. If the thread is stopped there, the system call has done nothing but returns \<^verbatim>\<open>CELL_OK\<close>, which the
  function takes for a delivered signal: it returns and leaves the mutex reserved, with a waiter counted and no wake-up pending. From
  then on no thread gets the mutex: locking enters the kernel, \<^verbatim>\<open>sys_lwmutex_trylock\<close> reports \<^verbatim>\<open>CELL_EBUSY\<close> and
  \<^verbatim>\<open>sys_lwmutex_unlock\<close> \<^verbatim>\<open>CELL_EPERM\<close>, and the repeated call does not release it either.\<close>

theorem lwcond_signal_interrupted:
  assumes m: "lw_owner m = lwmutex_free" "\<not> lw_is_retry m" and k: "lwmutex_at (lw_sleep_queue m) k = Some (p, x)" "even (lwm_signaled x)"
    and e: "is_ppu (cur e)"
  shows "\<exists>m' k'. sys_lwcond_signal e None [True] cas cas2 c m k = Some (CELL_OK, m', k')
    \<and> F_again \<in> flags_of (sched k') (cur e) \<and> lw_owner m' = lwmutex_reserved \<and> lw_waiter m' = lw_waiter m + 1
    \<and> lwmutex_at (lw_sleep_queue m') k' = Some (p, x)
    \<and> (\<forall>e' cas. is_ppu (cur e') \<longrightarrow> lw_acquire (cur e') m' = (None, m')
         \<and> map_option (\<lambda>(r, m, _). (r, m)) (sys_lwmutex_trylock False e' cas m' k') = Some (CELL_EBUSY, m')
         \<and> sys_lwmutex_unlock False e' cas m' k' = Some (CELL_EPERM, m', k')
         \<and> map_option (\<lambda>(r, m, _). (r, m)) (lwcond_signal_begin e' cas m' k') = Some (L_call 2, m'))"
proof -
  let ?m1 = "m\<lparr>lw_owner := tid_word (cur e)\<rparr>"
  let ?m = "lw_reserve ?m1" and ?k = "k\<lparr>sched := add_flags (cur e) {F_again} (sched k)\<rparr>"
  have "sys_lwmutex_trylock False e cas m k = Some (CELL_OK, ?m1, k)" using m(1) by (simp add: sys_lwmutex_trylock_def lw_acquire_def lw_cas_free_def)
  then have "lwcond_signal_begin e cas m k = Some (L_call 3, ?m, k)"
    using m tid_word_eq(2) [OF e] by (auto simp: lwcond_signal_begin_def)
  then have 1: "sys_lwcond_signal e None [True] cas cas2 c m k = Some (CELL_OK, ?m, ?k)"
    by (simp add: sys_lwcond_signal_def sys_lwcond_signal_syscall_def lwcond_signal_end_def)
  have at: "lwmutex_at (lw_sleep_queue m) ?k = Some (p, x)" using k(1) by (simp add: lwmutex_at_def)
  have 2: "lw_acquire (cur e') ?m = (None, ?m)
      \<and> map_option (\<lambda>(r, m, _). (r, m)) (sys_lwmutex_trylock False e' cas ?m ?k) = Some (CELL_EBUSY, ?m)
      \<and> sys_lwmutex_unlock False e' cas ?m ?k = Some (CELL_EPERM, ?m, ?k)
      \<and> map_option (\<lambda>(r, m, _). (r, m)) (lwcond_signal_begin e' cas ?m ?k) = Some (L_call 2, ?m)" if "is_ppu (cur e')" for e' cas
  proof -
    have o': "lw_owner ?m = lwmutex_reserved" "tid_word (cur e') \<noteq> lwmutex_reserved" "lw_sleep_queue ?m = lw_sleep_queue m"
      using tid_word_eq(3) [OF that] by (simp_all add: lw_reserve_def)
    then have a: "lw_acquire (cur e') ?m = (None, ?m)" by (simp add: lw_acquire_def lw_cas_free_def)
    have "lwmutex_at (lw_sleep_queue m) (enter e' ?k) = Some (p, x)" using at by (simp add: lwmutex_at_def)
    then have "sys_lwmutex_trylock_syscall e' (lw_sleep_queue m) ?k = (CELL_EBUSY, put_lwmutex p x (enter e' ?k))"
      using k(2) by (simp add: sys_lwmutex_trylock_syscall_def lw_trylock_def)
    then have t: "sys_lwmutex_trylock False e' cas ?m ?k = Some (CELL_EBUSY, ?m, put_lwmutex p x (enter e' ?k))"
      using a o' by (simp add: sys_lwmutex_trylock_def)
    have "\<not> lw_is_retry ?m" using m(2) by (simp add: lw_is_retry_def lw_reserve_def)
    then show ?thesis using a t o' by (simp add: sys_lwmutex_unlock_def lw_give_up_def lwcond_signal_begin_def)
  qed
  show ?thesis using 1 2 at by (intro exI [of _ ?m] exI [of _ ?k] conjI) (auto simp: lw_reserve_def)
qed

text \<open>A kernel with one lightweight mutex, and the mutex in the memory of the application.\<close>

definition lw_kernel :: kernel where
  "lw_kernel = (boot_kernel 2)\<lparr>ids := fill lwmutex_base_id 0 0x95000000 1 0 no_objects, store_top := 1,
     store := [0 \<mapsto> O_lwmutex (new_lwmutex SYS_SYNC_FIFO 0 0)]\<rparr>"

definition lw_memory :: sys_lwmutex_t where
  "lw_memory = \<lparr>lw_owner = lwmutex_free, lw_waiter = 0, lw_attribute = 1, lw_recursive_count = 0, lw_sleep_queue = 0x95000000\<rparr>"

lemma lw_kernel_at: "lwmutex_at 0x95000000 lw_kernel = Some (0, new_lwmutex SYS_SYNC_FIFO 0 0)"
proof -
  have n: "table_inv no_objects" "highest_index no_objects = 0" using no_objects_facts by simp_all
  have f: "fresh_slot lwmutex_base_id 0 0x95000000 no_objects"
    by (simp add: fresh_slot_def slot_id_def slot_base_def no_objects_def empty_map_def empty_key_def)
  show ?thesis using fill_get [OF n(1) _ f, of 1 lwmutex_base_id _ 0] n by (simp add: lwmutex_at_def obj_at_def lw_kernel_def)
qed

theorem lwcond_signal_interrupted_witness:
  "\<exists>m' k'. sys_lwcond_signal \<lparr>cur = 0x1000000, e_now = 0, e_tsc = 0\<rparr> None [True] True True \<lparr>lc_lwmutex = 4, lc_queue = 0x97000000\<rparr> lw_memory lw_kernel
       = Some (CELL_OK, m', k') \<and> lw_owner m' = lwmutex_reserved \<and> lw_acquire 0x1000001 m' = (None, m')"
proof -
  have h: "lw_owner lw_memory = lwmutex_free" "\<not> lw_is_retry lw_memory" "lwmutex_at (lw_sleep_queue lw_memory) lw_kernel = Some (0, new_lwmutex SYS_SYNC_FIFO 0 0)"
    "even (lwm_signaled (new_lwmutex SYS_SYNC_FIFO 0 0))" "is_ppu (cur \<lparr>cur = 0x1000000, e_now = 0, e_tsc = 0\<rparr>)" "is_ppu (cur \<lparr>cur = 0x1000001, e_now = 0, e_tsc = 0\<rparr>)"
    using lw_kernel_at by (simp_all add: lw_memory_def lw_is_retry_def new_lwmutex_def is_ppu_def id_type_def)
  from lwcond_signal_interrupted [OF h(1-5), of True True "\<lparr>lc_lwmutex = 4, lc_queue = 0x97000000\<rparr>"] h(6)
  show ?thesis by fastforce
qed

end
