(* ===== verification/Kernel_Objects.thy ===== *)
theory Kernel_Objects
  imports Sys_Semaphore Sys_Rwlock Sys_Event_Flag Sys_Event Sys_Lwcond
begin

text \<open>
  The objects of the whole kernel. Every system call of the components is a step of the relation \<open>kernel_call\<close>, a
  blocking one with one step per phase. The invariant speaks of the ids, the IPC keys and the \<open>shape\<close> of every stored object:
  its class, its handle count, its key, and for condition variables and mutexes how they refer to each other. Most
  calls leave the shapes alone (\<open>touched\<close>); creation and destruction are composed of a few changes of the tables with one lemma each.
\<close>

section \<open>Shapes\<close>

record shape =
  sh_class :: u32
  sh_exists :: u32
  sh_key :: u64
  sh_mutex :: "nat option"
  sh_conds :: u32

definition obj_class :: "lv2_object \<Rightarrow> u32" where
  "obj_class x =
     (case x of O_sema _ \<Rightarrow> sema_base_id | O_mutex _ \<Rightarrow> mutex_base_id | O_cond _ \<Rightarrow> cond_base_id | O_rwlock _ \<Rightarrow> rwlock_base_id
      | O_event_flag _ \<Rightarrow> event_flag_base_id | O_event_queue _ \<Rightarrow> event_queue_base_id | O_event_port _ \<Rightarrow> event_port_base_id
      | O_lwmutex _ \<Rightarrow> lwmutex_base_id | O_lwcond _ \<Rightarrow> lwcond_base_id)"

definition obj_key :: "lv2_object \<Rightarrow> u64" where
  "obj_key x =
     (case x of O_sema y \<Rightarrow> sem_key y | O_mutex y \<Rightarrow> mtx_key y | O_cond y \<Rightarrow> cond_key y | O_rwlock y \<Rightarrow> rw_key y
      | O_event_flag y \<Rightarrow> ef_key y | O_event_queue y \<Rightarrow> eq_key y | _ \<Rightarrow> 0)"

definition shape_of :: "lv2_object \<Rightarrow> shape" where
  "shape_of x =
     \<lparr>sh_class = obj_class x, sh_exists = get_exists x, sh_key = obj_key x,
      sh_mutex = (case x of O_cond c \<Rightarrow> Some (cond_mutex c) | _ \<Rightarrow> None),
      sh_conds = (case x of O_mutex m \<Rightarrow> cond_count m | _ \<Rightarrow> 0)\<rparr>"

lemmas shape_defs = shape_of_def obj_class_def obj_key_def get_exists_def

type_synonym shapes = "nat \<Rightarrow> shape option"

definition shapes_of :: "object_store \<Rightarrow> shapes" where
  "shapes_of h p = map_option shape_of (h p)"

text \<open>The classes whose objects can be shared, for which the kernel counts handles.\<close>

definition shareable :: "u32 \<Rightarrow> bool" where
  "shareable b \<longleftrightarrow> b \<in> {sema_base_id, mutex_base_id, cond_base_id, rwlock_base_id, event_flag_base_id, event_queue_base_id}"

section \<open>Consistency of the tables\<close>

definition slots :: "nat id_map \<Rightarrow> nat \<Rightarrow> nat set" where
  "slots m p = {i. i < 8192 \<and> vec_data m ! i = Some p}"

definition cond_slots :: "nat id_map \<Rightarrow> shapes \<Rightarrow> nat \<Rightarrow> nat set" where
  "cond_slots m sh q = {i. i < 8192 \<and> (\<exists>p x. vec_data m ! i = Some p \<and> sh p = Some x \<and> sh_mutex x = Some q)}"

definition slots_typed :: "nat id_map \<Rightarrow> shapes \<Rightarrow> bool" where
  "slots_typed m sh \<longleftrightarrow> (\<forall>i<8192. \<forall>p. vec_data m ! i = Some p \<longrightarrow> (\<exists>x. sh p = Some x \<and> sh_class x = m_base (vec_keys m ! i)))"

definition handles_counted :: "nat id_map \<Rightarrow> shapes \<Rightarrow> bool" where
  "handles_counted m sh \<longleftrightarrow> (\<forall>p x. sh p = Some x \<longrightarrow> shareable (sh_class x) \<longrightarrow> unat (sh_exists x) = card (slots m p))"

definition keys_live :: "(u32 \<Rightarrow> u64 \<Rightarrow> nat option option) \<Rightarrow> shapes \<Rightarrow> bool" where
  "keys_live ip sh \<longleftrightarrow> (\<forall>b key p. ip b key = Some (Some p) \<longrightarrow>
     (\<exists>x. sh p = Some x \<and> sh_class x = b \<and> shareable b \<and> sh_key x = key \<and> key \<noteq> 0 \<and> sh_exists x \<noteq> 0))"

definition mutexes_typed :: "shapes \<Rightarrow> bool" where
  "mutexes_typed sh \<longleftrightarrow> (\<forall>p x q. sh p = Some x \<longrightarrow> sh_mutex x = Some q \<longrightarrow>
     sh_class x = cond_base_id \<and> (\<exists>y. sh q = Some y \<and> sh_class y = mutex_base_id))"

definition conds_counted :: "nat id_map \<Rightarrow> shapes \<Rightarrow> bool" where
  "conds_counted m sh \<longleftrightarrow> (\<forall>q y. sh q = Some y \<longrightarrow> sh_class y = mutex_base_id \<longrightarrow>
     unat (sh_conds y) = card (cond_slots m sh q) \<and> (sh_conds y \<noteq> 0 \<longrightarrow> sh_exists y \<noteq> 0))"

definition objects_wf :: "nat id_map \<Rightarrow> (u32 \<Rightarrow> u64 \<Rightarrow> nat option option) \<Rightarrow> shapes \<Rightarrow> bool" where
  "objects_wf m ip sh \<longleftrightarrow> table_inv m \<and> slots_typed m sh \<and> handles_counted m sh \<and> keys_live ip sh \<and> mutexes_typed sh \<and> conds_counted m sh"

lemmas wf_defs = objects_wf_def slots_typed_def handles_counted_def keys_live_def mutexes_typed_def conds_counted_def

lemma finite_slots [simp]: "finite (slots m p)" "finite (cond_slots m sh q)"
  by (simp_all add: slots_def cond_slots_def)

lemma card_slots: "card (slots m p) \<le> 8192" "card (cond_slots m sh q) \<le> 8192"
  using card_mono [of "{..<8192 :: nat}" "slots m p"] card_mono [of "{..<8192 :: nat}" "cond_slots m sh q"]
  by (auto simp: slots_def cond_slots_def)

lemma objects_wfD:
  assumes "objects_wf m ip sh"
  shows "table_inv m"
    and "\<And>i p. i < 8192 \<Longrightarrow> vec_data m ! i = Some p \<Longrightarrow> \<exists>x. sh p = Some x \<and> sh_class x = m_base (vec_keys m ! i)"
    and "\<And>p x. sh p = Some x \<Longrightarrow> shareable (sh_class x) \<Longrightarrow> unat (sh_exists x) = card (slots m p)"
    and "\<And>b key p. ip b key = Some (Some p) \<Longrightarrow>
      \<exists>x. sh p = Some x \<and> sh_class x = b \<and> shareable b \<and> sh_key x = key \<and> key \<noteq> 0 \<and> sh_exists x \<noteq> 0"
    and "\<And>p x q. sh p = Some x \<Longrightarrow> sh_mutex x = Some q \<Longrightarrow> sh_class x = cond_base_id \<and> (\<exists>y. sh q = Some y \<and> sh_class y = mutex_base_id)"
    and "\<And>q y. sh q = Some y \<Longrightarrow> sh_class y = mutex_base_id \<Longrightarrow> unat (sh_conds y) = card (cond_slots m sh q)"
    and "\<And>q y. sh q = Some y \<Longrightarrow> sh_class y = mutex_base_id \<Longrightarrow> sh_conds y \<noteq> 0 \<Longrightarrow> sh_exists y \<noteq> 0"
proof -
  note a = assms [unfolded wf_defs]
  show "table_inv m" using a by blast
  show "\<And>i p. i < 8192 \<Longrightarrow> vec_data m ! i = Some p \<Longrightarrow> \<exists>x. sh p = Some x \<and> sh_class x = m_base (vec_keys m ! i)" using a by blast
  show "\<And>p x. sh p = Some x \<Longrightarrow> shareable (sh_class x) \<Longrightarrow> unat (sh_exists x) = card (slots m p)" using a by blast
  show "\<And>b key p. ip b key = Some (Some p) \<Longrightarrow>
      \<exists>x. sh p = Some x \<and> sh_class x = b \<and> shareable b \<and> sh_key x = key \<and> key \<noteq> 0 \<and> sh_exists x \<noteq> 0" using a by blast
  show "\<And>p x q. sh p = Some x \<Longrightarrow> sh_mutex x = Some q \<Longrightarrow> sh_class x = cond_base_id \<and> (\<exists>y. sh q = Some y \<and> sh_class y = mutex_base_id)"
    using a by blast
  show "\<And>q y. sh q = Some y \<Longrightarrow> sh_class y = mutex_base_id \<Longrightarrow> unat (sh_conds y) = card (cond_slots m sh q)" using a by blast
  show "\<And>q y. sh q = Some y \<Longrightarrow> sh_class y = mutex_base_id \<Longrightarrow> sh_conds y \<noteq> 0 \<Longrightarrow> sh_exists y \<noteq> 0" using a by blast
qed

lemma objects_wfI:
  assumes "table_inv m"
    and "\<And>i p. i < 8192 \<Longrightarrow> vec_data m ! i = Some p \<Longrightarrow> \<exists>x. sh p = Some x \<and> sh_class x = m_base (vec_keys m ! i)"
    and "\<And>p x. sh p = Some x \<Longrightarrow> shareable (sh_class x) \<Longrightarrow> unat (sh_exists x) = card (slots m p)"
    and "\<And>b key p. ip b key = Some (Some p) \<Longrightarrow>
      \<exists>x. sh p = Some x \<and> sh_class x = b \<and> shareable b \<and> sh_key x = key \<and> key \<noteq> 0 \<and> sh_exists x \<noteq> 0"
    and "\<And>p x q. sh p = Some x \<Longrightarrow> sh_mutex x = Some q \<Longrightarrow> sh_class x = cond_base_id \<and> (\<exists>y. sh q = Some y \<and> sh_class y = mutex_base_id)"
    and "\<And>q y. sh q = Some y \<Longrightarrow> sh_class y = mutex_base_id \<Longrightarrow>
      unat (sh_conds y) = card (cond_slots m sh q) \<and> (sh_conds y \<noteq> 0 \<longrightarrow> sh_exists y \<noteq> 0)"
  shows "objects_wf m ip sh"
  using assms unfolding wf_defs by blast

text \<open>The handle count of a referenced object is not zero.\<close>

lemma slot_exists:
  assumes w: "objects_wf m ip sh" and i: "i \<in> slots m p" and x: "sh p = Some x" "shareable (sh_class x)"
  shows "sh_exists x \<noteq> 0"
proof
  assume "sh_exists x = 0"
  then have "card (slots m p) = 0" using objects_wfD(3) [OF w x] by simp
  then show False using i by (simp only: card_eq_0_iff finite_slots) auto
qed

section \<open>Changes of the tables\<close>

text \<open>An object without handles.\<close>

lemma objects_wf_new:
  assumes w: "objects_wf m ip sh" and n: "sh p = None" and x: "sh_exists x = 0" "sh_conds x = 0"
    and q: "\<And>q. sh_mutex x = Some q \<Longrightarrow> sh_class x = cond_base_id \<and> (\<exists>y. sh q = Some y \<and> sh_class y = mutex_base_id)"
  shows "objects_wf m ip (sh(p \<mapsto> x))"
proof -
  note D = objects_wfD [OF w]
  have s: "slots m p = {}" using D(2) n by (fastforce simp: slots_def)
  have c: "cond_slots m (sh(p \<mapsto> x)) q = cond_slots m sh q" for q
    using s by (auto simp: cond_slots_def slots_def split: if_splits)
  have d: "cond_slots m sh p = {}" using D(5) n by (fastforce simp: cond_slots_def)
  show ?thesis
  proof (rule objects_wfI [OF D(1)])
    show "\<exists>x'. (sh(p \<mapsto> x)) p' = Some x' \<and> sh_class x' = m_base (vec_keys m ! i)" if "i < 8192" "vec_data m ! i = Some p'" for i p'
      using D(2) [OF that] n by auto
    show "unat (sh_exists x') = card (slots m p')" if "(sh(p \<mapsto> x)) p' = Some x'" "shareable (sh_class x')" for p' x'
      using D(3) [of p' x'] that x s by (auto split: if_splits)
    show "\<exists>x'. (sh(p \<mapsto> x)) p' = Some x' \<and> sh_class x' = b \<and> shareable b \<and> sh_key x' = key \<and> key \<noteq> 0 \<and> sh_exists x' \<noteq> 0"
      if "ip b key = Some (Some p')" for b key p' using D(4) [OF that] n by (cases "p' = p") auto
    show "sh_class x' = cond_base_id \<and> (\<exists>y. (sh(p \<mapsto> x)) q = Some y \<and> sh_class y = mutex_base_id)"
      if "(sh(p \<mapsto> x)) p' = Some x'" "sh_mutex x' = Some q" for p' x' q
      using D(5) [of p' x' q] that q n by (auto split: if_splits)
    show "unat (sh_conds y) = card (cond_slots m (sh(p \<mapsto> x)) q) \<and> (sh_conds y \<noteq> 0 \<longrightarrow> sh_exists y \<noteq> 0)"
      if "(sh(p \<mapsto> x)) q = Some y" "sh_class y = mutex_base_id" for q y
      using D(6,7) [of q y] that x c d by (auto split: if_splits)
  qed
qed

text \<open>A new id of an object: the object counts it if it can be shared, and the mutex of a condition variable counts it too.\<close>

definition add_handle :: "nat \<Rightarrow> shapes \<Rightarrow> shapes" where
  "add_handle p sh p' =
     map_option (\<lambda>y. y\<lparr>sh_exists := sh_exists y + of_bool (p' = p \<and> shareable (sh_class y)),
                       sh_conds := sh_conds y + of_bool (\<exists>x. sh p = Some x \<and> sh_mutex x = Some p')\<rparr>) (sh p')"

lemma add_handle_Some: "add_handle p sh p' = Some y' \<Longrightarrow> \<exists>y. sh p' = Some y \<and> sh_class y' = sh_class y \<and> sh_key y' = sh_key y \<and> sh_mutex y' = sh_mutex y
    \<and> sh_exists y' = sh_exists y + of_bool (p' = p \<and> shareable (sh_class y))
    \<and> sh_conds y' = sh_conds y + of_bool (\<exists>x. sh p = Some x \<and> sh_mutex x = Some p')"
  by (auto simp: add_handle_def)

lemma unat_of_bool: "unat (c :: u32) \<le> 8192 \<Longrightarrow> unat (c + of_bool P) = unat c + of_bool P"
proof -
  assume "unat c \<le> 8192"
  then have "c \<noteq> 0xffffffff" by auto
  then show ?thesis using unat_inc [of c] by simp
qed

lemma fill_slots:
  assumes "table_inv m" "fresh_slot b i v m"
  shows "slots (fill b i v h p m) p' = (if p' = p then insert i (slots m p') else slots m p')"
    and "i \<notin> slots m p'" "i \<notin> cond_slots m sh q"
    and "j < 8192 \<Longrightarrow> vec_data (fill b i v h p m) ! j = (if j = i then Some p else vec_data m ! j)"
    and "j < 8192 \<Longrightarrow> vec_keys (fill b i v h p m) ! j = (if j = i then \<lparr>m_value = v, m_base = b\<rparr> else vec_keys m ! j)"
proof -
  have i: "i < 8192" "vec_data m ! i = None" "length (vec_data m) = 8192" "length (vec_keys m) = 8192"
    using assms by (auto simp: fresh_slot_def table_inv_def)
  then show "i \<notin> slots m p'" "i \<notin> cond_slots m sh q" by (auto simp: slots_def cond_slots_def)
  show d: "vec_data (fill b i v h p m) ! j = (if j = i then Some p else vec_data m ! j)"
    "vec_keys (fill b i v h p m) ! j = (if j = i then \<lparr>m_value = v, m_base = b\<rparr> else vec_keys m ! j)" if "j < 8192" for j
    using that i by (auto simp: fill_def nth_list_update)
  show "slots (fill b i v h p m) p' = (if p' = p then insert i (slots m p') else slots m p')"
    using i by (auto simp: slots_def d split: if_splits)
qed

lemma cond_slots_handle:
  assumes "table_inv m" "fresh_slot b i v m"
  shows "cond_slots (fill b i v h p m) (add_handle p sh) q
    = (if \<exists>x. sh p = Some x \<and> sh_mutex x = Some q then insert i (cond_slots m sh q) else cond_slots m sh q)"
proof -
  have "i < 8192" "vec_data m ! i = None" using assms by (auto simp: fresh_slot_def table_inv_def)
  moreover have e: "(\<exists>x. add_handle p sh p' = Some x \<and> sh_mutex x = Some q) \<longleftrightarrow> (\<exists>x. sh p' = Some x \<and> sh_mutex x = Some q)" for p'
    by (cases "sh p'") (simp_all add: add_handle_def)
  ultimately show ?thesis unfolding cond_slots_def
    by (auto simp: fill_slots(4) [OF assms] e cong: conj_cong split: if_splits)
qed

lemma objects_wf_handle:
  assumes w: "objects_wf m ip sh" and b: "good_base b" and f: "fresh_slot b i v m" and h: "i < h" "highest_index m \<le> h" "h \<le> 8192"
    and x: "sh p = Some x" "sh_class x = b" and l: "\<And>q y. sh_mutex x = Some q \<Longrightarrow> sh q = Some y \<Longrightarrow> sh_exists y \<noteq> 0"
  shows "objects_wf (fill b i v h p m) ip (add_handle p sh)"
proof -
  note D = objects_wfD [OF w]
  note F = fill_slots [OF D(1) f]
  have ex: "unat (sh_exists y) \<le> 8192" if "sh p' = Some y" "shareable (sh_class y)" for p' y using D(3) [OF that] card_slots(1) by metis
  have co: "unat (sh_conds y) \<le> 8192" if "sh p' = Some y" "sh_class y = mutex_base_id" for p' y using D(6) [OF that] card_slots(2) by metis
  have mut: "shareable mutex_base_id" by (simp add: shareable_def)
  have some: "sh p' = Some y \<Longrightarrow> \<exists>y'. add_handle p sh p' = Some y' \<and> sh_class y' = sh_class y \<and> sh_key y' = sh_key y" for p' y
    by (simp add: add_handle_def)
  show ?thesis
  proof (rule objects_wfI [OF fill_inv [OF D(1) b f h]])
    show "\<exists>x. add_handle p sh p' = Some x \<and> sh_class x = m_base (vec_keys (fill b i v h p m) ! j)"
      if "j < 8192" "vec_data (fill b i v h p m) ! j = Some p'" for j p'
      using that F(4,5) [of j h p] D(2) [of j p'] x some by (fastforce split: if_splits)
    show "unat (sh_exists y') = card (slots (fill b i v h p m) p')" if y': "add_handle p sh p' = Some y'" "shareable (sh_class y')" for p' y'
    proof -
      obtain y where y: "sh p' = Some y" "sh_class y' = sh_class y" "sh_exists y' = sh_exists y + of_bool (p' = p \<and> shareable (sh_class y))"
        using add_handle_Some [OF y'(1)] by blast
      then have "unat (sh_exists y') = card (slots m p') + of_bool (p' = p)"
        using unat_of_bool ex [OF y(1)] D(3) [OF y(1)] y'(2) by simp
      then show ?thesis using F(1) [of h p p'] F(2) [of p'] by (cases "p' = p") simp_all
    qed
    show "\<exists>x. add_handle p sh p' = Some x \<and> sh_class x = c \<and> shareable c \<and> sh_key x = key \<and> key \<noteq> 0 \<and> sh_exists x \<noteq> 0"
      if k: "ip c key = Some (Some p')" for c key p'
    proof -
      obtain y where y: "sh p' = Some y" "sh_class y = c" "shareable c" "sh_key y = key" "key \<noteq> 0" "sh_exists y \<noteq> 0"
        using D(4) [OF k] by blast
      have "unat (sh_exists y + of_bool (p' = p)) \<noteq> 0" using unat_of_bool [OF ex [OF y(1)]] y by (simp add: unat_eq_zero)
      then show ?thesis using y by (cases "p' = p") (auto simp: add_handle_def)
    qed
    show "sh_class y' = cond_base_id \<and> (\<exists>y. add_handle p sh q = Some y \<and> sh_class y = mutex_base_id)"
      if y': "add_handle p sh p' = Some y'" "sh_mutex y' = Some q" for p' y' q
      using add_handle_Some [OF y'(1)] y'(2) D(5) [of p' _ q] some by fastforce
    show "unat (sh_conds y') = card (cond_slots (fill b i v h p m) (add_handle p sh) q) \<and> (sh_conds y' \<noteq> 0 \<longrightarrow> sh_exists y' \<noteq> 0)"
      if y': "add_handle p sh q = Some y'" "sh_class y' = mutex_base_id" for q y'
    proof -
      let ?P = "\<exists>x. sh p = Some x \<and> sh_mutex x = Some q"
      obtain y where y: "sh q = Some y" "sh_class y = mutex_base_id" "sh_conds y' = sh_conds y + of_bool ?P"
        "sh_exists y' = sh_exists y + of_bool (q = p \<and> shareable (sh_class y))"
        using add_handle_Some [OF y'(1)] y'(2) by auto
      have "unat (sh_conds y') = card (cond_slots m sh q) + of_bool ?P"
        using unat_of_bool [OF co [OF y(1,2)]] D(6) [OF y(1,2)] y(3) by simp
      then have "unat (sh_conds y') = card (cond_slots (fill b i v h p m) (add_handle p sh) q)"
        using F(3) [of sh q] by (simp add: cond_slots_handle [OF D(1) f])
      moreover have "sh_exists y \<noteq> 0 \<Longrightarrow> sh_exists y' \<noteq> 0"
        using unat_of_bool [OF ex [OF y(1)]] y(2,4) mut by (metis add_is_0 unat_eq_zero)
      moreover have "sh_exists y \<noteq> 0" if "sh_conds y' \<noteq> 0" 
        using that y(3) D(7) [OF y(1,2)] l [of q y] x(1) y(1) by (cases ?P) auto
      ultimately show ?thesis by blast
    qed
  qed
qed

text \<open>An IPC key, an id that was given up, and a change of the tables that matters to nobody.\<close>

lemma objects_wf_key:
  assumes w: "objects_wf m ip sh" and r: "\<And>p. r = Some p \<Longrightarrow> \<exists>x. sh p = Some x \<and> sh_class x = b \<and> shareable b \<and> sh_key x = key \<and> key \<noteq> 0 \<and> sh_exists x \<noteq> 0"
  shows "objects_wf m (ip(b := (ip b)(key \<mapsto> r))) sh"
proof -
  note D = objects_wfD [OF w]
  show ?thesis
  proof (rule objects_wfI [OF D(1-3)])
    show "\<exists>x. sh p = Some x \<and> sh_class x = c \<and> shareable c \<and> sh_key x = key' \<and> key' \<noteq> 0 \<and> sh_exists x \<noteq> 0"
      if "(ip(b := (ip b)(key \<mapsto> r))) c key' = Some (Some p)" for c key' p using that D(4) r by (auto split: if_splits)
  qed (use D(5-7) in auto)
qed

lemma objects_wf_spoil:
  assumes w: "objects_wf m ip sh" and f: "fresh_slot b i v m" and h: "i < h" "highest_index m \<le> h" "h \<le> 8192"
  shows "objects_wf (spoil i h v m) ip sh"
proof -
  note D = objects_wfD [OF w]
  have i: "i < 8192" "vec_data m ! i = None" "length (vec_keys m) = 8192" using D(1) f by (auto simp: fresh_slot_def table_inv_def)
  have e: "slots (spoil i h v m) = slots m" "cond_slots (spoil i h v m) sh' = cond_slots m sh'" for sh'
    by (auto simp: slots_def cond_slots_def spoil_def fun_eq_iff)
  show ?thesis
  proof (rule objects_wfI [OF spoil_inv [OF D(1) f h]])
    show "\<exists>x. sh p = Some x \<and> sh_class x = m_base (vec_keys (spoil i h v m) ! j)" if "j < 8192" "vec_data (spoil i h v m) ! j = Some p" for j p
      using D(2) [of j p] that i by (cases "j = i") (auto simp: spoil_def)
  qed (use D(3-7) in \<open>auto simp: e\<close>)
qed

text \<open>The end of an id.\<close>

definition drop_handle :: "nat \<Rightarrow> shapes \<Rightarrow> shapes" where
  "drop_handle p sh p' =
     map_option (\<lambda>y. y\<lparr>sh_exists := sh_exists y - of_bool (p' = p \<and> shareable (sh_class y)),
                       sh_conds := sh_conds y - of_bool (\<exists>x. sh p = Some x \<and> sh_mutex x = Some p')\<rparr>) (sh p')"

definition drop_key :: "shape \<Rightarrow> (u32 \<Rightarrow> u64 \<Rightarrow> nat option option) \<Rightarrow> u32 \<Rightarrow> u64 \<Rightarrow> nat option option" where
  "drop_key x ip = (if shareable (sh_class x) \<and> sh_exists x = 1 \<and> sh_key x \<noteq> 0
     then ip(sh_class x := (ip (sh_class x))(sh_key x := None)) else ip)"

lemma drop_handle_Some: "drop_handle p sh p' = Some y' \<Longrightarrow> \<exists>y. sh p' = Some y \<and> sh_class y' = sh_class y \<and> sh_key y' = sh_key y \<and> sh_mutex y' = sh_mutex y
    \<and> sh_exists y' = sh_exists y - of_bool (p' = p \<and> shareable (sh_class y))
    \<and> sh_conds y' = sh_conds y - of_bool (\<exists>x. sh p = Some x \<and> sh_mutex x = Some p')"
  by (auto simp: drop_handle_def)

lemma unat_minus_bool: "(P \<Longrightarrow> (c :: u32) \<noteq> 0) \<Longrightarrow> unat (c - of_bool P) = unat c - of_bool P"
  using unat_dec [of c] by (cases P) simp_all

lemma clear_slots:
  assumes "table_inv m" "i < 8192"
  shows "slots (clear_slot i m) p' = slots m p' - {i}"
    and "cond_slots (clear_slot i m) sh q = cond_slots m sh q - {i}"
    and "j < 8192 \<Longrightarrow> vec_data (clear_slot i m) ! j = (if j = i then None else vec_data m ! j)"
    and "j < 8192 \<Longrightarrow> j \<noteq> i \<Longrightarrow> vec_keys (clear_slot i m) ! j = vec_keys m ! j"
proof -
  have l: "length (vec_data m) = 8192" "length (vec_keys m) = 8192" using assms by (auto simp: table_inv_def)
  show d: "vec_data (clear_slot i m) ! j = (if j = i then None else vec_data m ! j)" if "j < 8192" for j
    using that l by (auto simp: clear_slot_def nth_list_update)
  show "vec_keys (clear_slot i m) ! j = vec_keys m ! j" if "j < 8192" "j \<noteq> i" using that l by (auto simp: clear_slot_def nth_list_update)
  show "slots (clear_slot i m) p' = slots m p' - {i}" by (auto simp: slots_def d split: if_splits)
  show "cond_slots (clear_slot i m) sh q = cond_slots m sh q - {i}" by (auto simp: cond_slots_def d split: if_splits)
qed

lemma cond_slots_drop: "cond_slots m (drop_handle p sh) q = cond_slots m sh q"
proof -
  have "(\<exists>x. drop_handle p sh p' = Some x \<and> sh_mutex x = Some q) \<longleftrightarrow> (\<exists>x. sh p' = Some x \<and> sh_mutex x = Some q)" for p'
    by (cases "sh p'") (simp_all add: drop_handle_def)
  then show ?thesis unfolding cond_slots_def by simp
qed

lemma objects_wf_drop:
  assumes w: "objects_wf m ip sh" and i: "i < 8192" "vec_data m ! i = Some p" and x: "sh p = Some x"
    and l: "sh_class x = mutex_base_id \<Longrightarrow> sh_conds x = 0"
  shows "objects_wf (clear_slot i m) (drop_key x ip) (drop_handle p sh)"
proof -
  note D = objects_wfD [OF w]
  note F = clear_slots [OF D(1) i(1)]
  have sl: "i \<in> slots m p" "p' \<noteq> p \<Longrightarrow> i \<notin> slots m p'" for p' using i by (auto simp: slots_def)
  have cs: "i \<in> cond_slots m sh q \<longleftrightarrow> sh_mutex x = Some q" for q using i x by (auto simp: cond_slots_def)
  have some: "sh p' = Some y \<Longrightarrow> \<exists>y'. drop_handle p sh p' = Some y' \<and> sh_class y' = sh_class y \<and> sh_key y' = sh_key y" for p' y
    by (simp add: drop_handle_def)
  show ?thesis
  proof (rule objects_wfI [OF clear_slot_inv [OF D(1) i(1)]])
    show "\<exists>x. drop_handle p sh p' = Some x \<and> sh_class x = m_base (vec_keys (clear_slot i m) ! j)"
      if "j < 8192" "vec_data (clear_slot i m) ! j = Some p'" for j p'
      using that F(3,4) [of j] D(2) [of j p'] some by (fastforce split: if_splits)
    show "unat (sh_exists y') = card (slots (clear_slot i m) p')" if y': "drop_handle p sh p' = Some y'" "shareable (sh_class y')" for p' y'
    proof -
      obtain y where y: "sh p' = Some y" "sh_class y' = sh_class y" "sh_exists y' = sh_exists y - of_bool (p' = p \<and> shareable (sh_class y))"
        using drop_handle_Some [OF y'(1)] by blast
      have "unat (sh_exists y') = card (slots m p') - of_bool (p' = p)"
        using y y'(2) D(3) [OF y(1)] slot_exists [OF w sl(1)] unat_minus_bool [of "p' = p" "sh_exists y"] by auto
      then show ?thesis using F(1) [of p'] sl(1) sl(2) [of p'] by (cases "p' = p") (simp_all add: card_Diff_singleton)
    qed
    show "\<exists>y'. drop_handle p sh p' = Some y' \<and> sh_class y' = c \<and> shareable c \<and> sh_key y' = key \<and> key \<noteq> 0 \<and> sh_exists y' \<noteq> 0"
      if k: "drop_key x ip c key = Some (Some p')" for c key p'
    proof -
      have "ip c key = Some (Some p')" using k by (auto simp: drop_key_def split: if_splits)
      then obtain y where y: "sh p' = Some y" "sh_class y = c" "shareable c" "sh_key y = key" "key \<noteq> 0" "sh_exists y \<noteq> 0"
        using D(4) by blast
      have "p' = p \<Longrightarrow> sh_exists y \<noteq> 1" using k x y by (auto simp: drop_key_def split: if_splits)
      then have "sh_exists y - of_bool (p' = p) \<noteq> 0" using y(6) by (cases "p' = p") auto
      then show ?thesis using y by (cases "p' = p") (auto simp: drop_handle_def)
    qed
    show "sh_class y' = cond_base_id \<and> (\<exists>y. drop_handle p sh q = Some y \<and> sh_class y = mutex_base_id)"
      if y': "drop_handle p sh p' = Some y'" "sh_mutex y' = Some q" for p' y' q
      using drop_handle_Some [OF y'(1)] y'(2) D(5) [of p' _ q] some by fastforce
    show "unat (sh_conds y') = card (cond_slots (clear_slot i m) (drop_handle p sh) q) \<and> (sh_conds y' \<noteq> 0 \<longrightarrow> sh_exists y' \<noteq> 0)"
      if y': "drop_handle p sh q = Some y'" "sh_class y' = mutex_base_id" for q y'
    proof -
      let ?P = "sh_mutex x = Some q"
      obtain y where y: "sh q = Some y" "sh_class y = mutex_base_id" "sh_conds y' = sh_conds y - of_bool ?P"
        "sh_exists y' = sh_exists y - of_bool (q = p \<and> shareable (sh_class y))"
        using drop_handle_Some [OF y'(1)] y'(2) x by auto
      have c0: "?P \<Longrightarrow> sh_conds y \<noteq> 0"
      proof
        assume "?P" "sh_conds y = 0"
        then have "card (cond_slots m sh q) = 0" using D(6) [OF y(1,2)] by simp
        moreover have "i \<in> cond_slots m sh q" using cs [of q] \<open>?P\<close> by blast
        ultimately show False using card_0_eq [OF finite_slots(2)] by blast
      qed
      have "unat (sh_conds y') = card (cond_slots m sh q) - of_bool ?P"
        using unat_minus_bool [of ?P "sh_conds y"] c0 D(6) [OF y(1,2)] y(3) by simp
      then have "unat (sh_conds y') = card (cond_slots (clear_slot i m) (drop_handle p sh) q)"
        using cs [of q] by (cases ?P) (simp_all add: F(2) cond_slots_drop card_Diff_singleton)
      moreover have "sh_exists y' \<noteq> 0" if "sh_conds y' \<noteq> 0"
      proof (cases "q = p")
        case True
        then have "x = y" using x y(1) by simp
        then have "sh_conds y' = 0" using l y(2,3) D(5) [OF x, of q] by (cases ?P) (auto)
        then show ?thesis using that by simp
      next
        case False
        then show ?thesis using that y(3,4) c0 D(7) [OF y(1,2)] by (cases ?P) auto
      qed
      ultimately show ?thesis by blast
    qed
  qed
qed

text \<open>The mutex of a condition variable that has an id counts it, and has an id too.\<close>

lemma live_count:
  assumes w: "objects_wf m ip sh" and x: "sh p = Some x" "sh_exists x \<noteq> 0" "sh_mutex x = Some q" and y: "sh q = Some y"
  shows "sh_exists y \<noteq> 0 \<and> sh_conds y \<noteq> 0"
proof -
  note D = objects_wfD [OF w]
  have c: "sh_class x = cond_base_id" "sh_class y = mutex_base_id" using D(5) [OF x(1,3)] y by auto
  then have "unat (sh_exists x) = card (slots m p)" using D(3) [OF x(1)] by (simp add: shareable_def)
  moreover have "unat (sh_exists x) \<noteq> 0" using x(2) by (simp add: unat_eq_zero)
  ultimately have "card (slots m p) \<noteq> 0" by simp
  then obtain i where "i \<in> slots m p" by fastforce
  then have "i \<in> cond_slots m sh q" using x by (auto simp: slots_def cond_slots_def)
  then have "card (cond_slots m sh q) \<noteq> 0" using card_0_eq [OF finite_slots(2)] by blast
  then have "sh_conds y \<noteq> 0" using D(6) [OF y c(2)] by auto
  then show ?thesis using D(7) [OF y c(2)] by blast
qed

lemmas live_mutex = live_count [THEN conjunct1]

section \<open>Creation and destruction\<close>

text \<open>The stored ports refer to queues.\<close>

definition ports_typed :: "object_store \<Rightarrow> bool" where
  "ports_typed h \<longleftrightarrow> (\<forall>p x q. h p = Some (O_event_port x) \<longrightarrow> port_queue x = Some q \<longrightarrow>
     (\<exists>y. shapes_of h q = Some y \<and> sh_class y = event_queue_base_id))"

definition kernel_wf :: "kernel \<Rightarrow> bool" where
  "kernel_wf k \<longleftrightarrow> objects_wf (ids k) (ipc k) (shapes_of (store k)) \<and> (\<forall>p\<ge>store_top k. store k p = None) \<and> ports_typed (store k)"

lemma kernel_wfD: "kernel_wf k \<Longrightarrow> objects_wf (ids k) (ipc k) (shapes_of (store k))" "kernel_wf k \<Longrightarrow> kernel_inv k" "kernel_wf k \<Longrightarrow> ports_typed (store k)"
  using objects_wfD(1) by (auto simp: kernel_wf_def kernel_inv_def)

lemma shapes_upd: "shapes_of (h(p \<mapsto> x)) = (shapes_of h)(p \<mapsto> shape_of x)"
  by (auto simp: shapes_of_def)

lemma class_mutex: "sh_class (shape_of x) = mutex_base_id \<longleftrightarrow> (\<exists>y. x = O_mutex y)"
  by (cases x) (simp_all add: shape_defs)

lemma set_exists_shape: "shape_of (set_exists n x) = (shape_of x)\<lparr>sh_exists := n\<rparr>" "obj_class (set_exists n x) = obj_class x"
  by (cases x; simp add: shape_defs set_exists_def)+

lemma shape_sel [simp]: "sh_class (shape_of x) = obj_class x" "sh_exists (shape_of x) = get_exists x"
  by (simp_all add: shape_of_def)

text \<open>What a change of the store must not do to ports.\<close>

definition ports_kept :: "object_store \<Rightarrow> object_store \<Rightarrow> bool" where
  "ports_kept h h' \<longleftrightarrow>
     (\<forall>p x. h' p = Some (O_event_port x) \<longrightarrow> h p = Some (O_event_port x) \<or> port_queue x = None)
     \<and> (\<forall>q y. shapes_of h q = Some y \<longrightarrow> (\<exists>y'. shapes_of h' q = Some y' \<and> sh_class y' = sh_class y))"

lemma ports_kept_typed: "ports_typed h \<Longrightarrow> ports_kept h h' \<Longrightarrow> ports_typed h'"
  unfolding ports_typed_def ports_kept_def by (metis option.distinct(1))

lemma ports_kept_trans: "ports_kept h1 h2 \<Longrightarrow> ports_kept h2 h3 \<Longrightarrow> ports_kept h1 h3"
  unfolding ports_kept_def by metis

lemma ports_kept_put:
  assumes "h p = None \<or> (\<exists>y. h p = Some y \<and> obj_class y = obj_class x)"
    and "\<And>y. x = O_event_port y \<Longrightarrow> port_queue y = None \<or> h p = Some x"
  shows "ports_kept h (h(p \<mapsto> x))"
  using assms by (auto simp: ports_kept_def shapes_upd shapes_of_def)

lemma on_id_create_shapes:
  assumes x: "h p = Some x" "shareable (obj_class x)"
    and q: "\<And>q. sh_mutex (shape_of x) = Some q \<Longrightarrow> q \<noteq> p \<and> (\<exists>m. h q = Some (O_mutex m) \<and> obj_exists m \<noteq> 0)"
  shows "\<exists>h'. on_id_create p h = (CELL_OK, h') \<and> shapes_of h' = add_handle p (shapes_of h) \<and> ports_kept h h' \<and> (\<forall>p'. h p' = None \<longrightarrow> h' p' = None)"
proof (cases "plain x")
  case True
  let ?h = "h(p \<mapsto> set_exists (get_exists x + 1) x)"
  have "sh_mutex (shape_of x) = None" using True by (cases x) (simp_all add: shape_of_def)
  then have "shapes_of ?h = add_handle p (shapes_of h)"
    using x by (auto simp: shapes_upd add_handle_def shapes_of_def set_exists_shape fun_eq_iff map_option_case split: option.splits)
  moreover have "ports_kept h ?h" using x by (intro ports_kept_put) (auto simp: set_exists_shape shareable_def set_exists_def obj_class_def split: lv2_object.splits)
  ultimately show ?thesis using on_id_create_plain [of h p x, OF x(1) True] x(1) by auto
next
  case False
  then obtain c where c: "x = O_cond c" by (cases x) simp_all
  then have "sh_mutex (shape_of x) = Some (cond_mutex c)" by (simp add: shape_of_def)
  then obtain m where m: "cond_mutex c \<noteq> p" "h (cond_mutex c) = Some (O_mutex m)" "obj_exists m \<noteq> 0" using q by blast
  let ?h1 = "h(p \<mapsto> set_exists (get_exists x + 1) x)"
  let ?h = "?h1(cond_mutex c \<mapsto> O_mutex (m\<lparr>cond_count := cond_count m + 1\<rparr>))"
  have "on_id_create p h = (CELL_OK, ?h)"
    using x(1) c m by (simp add: on_id_create_def Let_def obj_check_def get_exists_def set_exists_def)
  moreover have "shapes_of ?h = add_handle p (shapes_of h)"
    using x c m by (auto simp: add_handle_def shapes_of_def fun_eq_iff shape_defs set_exists_def shareable_def option.map_ident split: option.splits)
  moreover have "ports_kept h ?h1" using x(1) c by (intro ports_kept_put) (auto simp: set_exists_def obj_class_def)
  moreover have "ports_kept ?h1 ?h" using m by (intro ports_kept_put) (auto simp: obj_class_def)
  moreover have "\<forall>p'. h p' = None \<longrightarrow> ?h p' = None" using x(1) m(2) by auto
  ultimately show ?thesis using ports_kept_trans by blast
qed

text \<open>The result of the provider of \<^verbatim>\<open>lv2_obj::create\<close>: no id, or one more id of the new object or of the one under the key.\<close>

definition provided :: "u32 \<Rightarrow> u64 \<Rightarrow> nat \<Rightarrow> shapes \<Rightarrow> (u64 \<Rightarrow> nat option option) \<Rightarrow> object_store \<Rightarrow> nat option \<Rightarrow> create_st \<Rightarrow> bool" where
  "provided b key p sh ip h r st \<longleftrightarrow>
     cs_top st = Suc p \<and> ports_kept h (cs_store st) \<and> (\<forall>p'>p. h p' = None \<longrightarrow> cs_store st p' = None)
     \<and> (case r of
          None \<Rightarrow> shapes_of (cs_store st) = sh \<and> cs_ipc st = ip
        | Some q \<Rightarrow> shapes_of (cs_store st) = add_handle q sh
            \<and> (q = p \<and> (cs_ipc st = ip \<or> key \<noteq> 0 \<and> (\<exists>x. sh p = Some x \<and> sh_key x = key) \<and> cs_ipc st = ip(key \<mapsto> Some p))
               \<or> ip key = Some (Some q) \<and> cs_ipc st = ip))"

lemma finalize_shapes:
  assumes x: "cs_store st q = Some x" "shareable (obj_class x)"
    and m: "\<And>q'. sh_mutex (shape_of x) = Some q' \<Longrightarrow> q' \<noteq> q \<and> (\<exists>m. cs_store st q' = Some (O_mutex m) \<and> obj_exists m \<noteq> 0)"
  shows "\<exists>h'. finalize_construct (Some q) st = (Some q, st\<lparr>cs_store := h', cs_error := 0\<rparr>) \<and> shapes_of h' = add_handle q (shapes_of (cs_store st))
    \<and> ports_kept (cs_store st) h' \<and> (\<forall>p'. cs_store st p' = None \<longrightarrow> h' p' = None)"
  using on_id_create_shapes [of "cs_store st" q x, OF x m] by (auto simp: finalize_construct_def)

lemma mutex_stored:
  assumes "shapes_of h q = Some y" "sh_class y = mutex_base_id" "sh_exists y \<noteq> 0"
  shows "\<exists>m. h q = Some (O_mutex m) \<and> obj_exists m \<noteq> 0"
  using assms by (auto simp: shapes_of_def obj_class_def get_exists_def split: lv2_object.splits)

lemma create_provided:
  assumes w: "kernel_wf k" and b: "shareable b"
    and v: "valid_create pshared key flags True"
    and x: "obj_class x = b" "get_exists x = 0" "pshared = SYS_SYNC_PROCESS_SHARED \<Longrightarrow> obj_key x = key"
    and mq: "\<And>q. sh_mutex (shape_of x) = Some q \<Longrightarrow> \<exists>m. store k q = Some (O_mutex m) \<and> obj_exists m \<noteq> 0"
    and mk: "mk lastid = x"
    and p: "create_provider pshared key flags mk lastid \<lparr>cs_store = store k, cs_top = store_top k, cs_ipc = ipc k b,
       cs_error = CELL_EAGAIN, cs_crash = False\<rparr> = (r, st)"
  shows "provided b key (store_top k) ((shapes_of (store k))(store_top k \<mapsto> shape_of x)) (ipc k b) ((store k)(store_top k \<mapsto> x)) r st \<and> \<not> cs_crash st"
proof -
  let ?p = "store_top k" and ?h = "(store k)(store_top k \<mapsto> x)"
  let ?st = "\<lparr>cs_store = ?h, cs_top = Suc ?p, cs_ipc = ipc k b, cs_error = CELL_EAGAIN, cs_crash = False\<rparr>"
  let ?sh = "(shapes_of (store k))(?p \<mapsto> shape_of x)"
  note D = objects_wfD [OF kernel_wfD(1) [OF w]]
  have none: "store k ?p = None" using w by (simp add: kernel_wf_def)
  have sh: "shapes_of ?h = ?sh" by (simp add: shapes_upd)
  have new: "\<exists>h'. finalize_construct (Some ?p) ?st = (Some ?p, ?st\<lparr>cs_store := h', cs_error := 0\<rparr>) \<and> shapes_of h' = add_handle ?p ?sh
    \<and> ports_kept ?h h' \<and> (\<forall>p'. ?h p' = None \<longrightarrow> h' p' = None)"
    using finalize_shapes [of ?st ?p x] x(1) b mq none sh by (fastforce split: if_splits)
  have old: "\<exists>h'. finalize_construct (Some q) ?st = (Some q, ?st\<lparr>cs_store := h', cs_error := 0\<rparr>) \<and> shapes_of h' = add_handle q ?sh
    \<and> ports_kept ?h h' \<and> (\<forall>p'. ?h p' = None \<longrightarrow> h' p' = None)" if q: "ipc k b key = Some (Some q)" for q
  proof -
    obtain y where y: "shapes_of (store k) q = Some y" "sh_class y = b" "sh_exists y \<noteq> 0" using D(4) [OF q] by blast
    then obtain z where z: "store k q = Some z" "y = shape_of z" by (auto simp: shapes_of_def)
    have "q \<noteq> ?p" using z none by auto
    moreover have "q' \<noteq> q \<and> q' \<noteq> ?p \<and> (\<exists>m. store k q' = Some (O_mutex m) \<and> obj_exists m \<noteq> 0)" if m: "sh_mutex (shape_of z) = Some q'" for q'
    proof -
      obtain u where u: "shapes_of (store k) q' = Some u" "sh_class u = mutex_base_id" "sh_class y = cond_base_id" using D(5) [OF y(1)] m z(2) by blast
      have "\<exists>m. store k q' = Some (O_mutex m) \<and> obj_exists m \<noteq> 0"
        using mutex_stored [OF u(1,2)] live_mutex [OF kernel_wfD(1) [OF w] y(1,3) _ u(1)] m z(2) by blast
      moreover have "q' \<noteq> q" using u y(1) by auto
      ultimately show ?thesis using none by auto
    qed
    ultimately show ?thesis using finalize_shapes [of ?st q z] z y(2) b sh by fastforce
  qed
  have keep: "ports_kept ?h ?h" by (simp add: ports_kept_def)
  have key: "key \<noteq> 0" if "pshared = SYS_SYNC_PROCESS_SHARED" using v that by (auto simp: valid_create_def)
  show ?thesis
  proof (cases "pshared = SYS_SYNC_PROCESS_SHARED")
    case False
    then show ?thesis using new p mk by (auto simp: create_provider_def Let_def provided_def)
  next
    case True
    show ?thesis
    proof (cases "\<exists>q. ipc k b key = Some (Some q)")
      case reg: True
      then obtain q h' where q: "ipc k b key = Some (Some q)" and h': "finalize_construct (Some q) ?st = (Some q, ?st\<lparr>cs_store := h', cs_error := 0\<rparr>)"
        "shapes_of h' = add_handle q ?sh" "ports_kept ?h h'" "\<forall>p'. ?h p' = None \<longrightarrow> h' p' = None" using old by blast
      show ?thesis
      proof (cases "flags = SYS_SYNC_NEWLY_CREATED")
        case new: True
        then have "r = None" "st = ?st\<lparr>cs_error := CELL_EEXIST\<rparr>"
          using p q True by (simp_all add: create_provider_def Let_def ipc_add_def mk)
        then show ?thesis using keep sh by (simp add: provided_def)
      next
        case f: False
        then have "(r, st) = finalize_construct (Some q) ?st"
          using p q True by (auto simp: create_provider_def Let_def ipc_add_def ipc_get_def mk split: if_splits)
        then show ?thesis using h' q by (auto simp: provided_def)
      qed
    next
      case free: False
      obtain h' where h': "finalize_construct (Some ?p) ?st = (Some ?p, ?st\<lparr>cs_store := h', cs_error := 0\<rparr>)"
        "shapes_of h' = add_handle ?p ?sh" "ports_kept ?h h'" "\<forall>p'. ?h p' = None \<longrightarrow> h' p' = None" using new by blast
      show ?thesis
      proof (cases "flags = SYS_SYNC_NOT_CREATE")
        case f: True
        then have "r = None" "st = ?st\<lparr>cs_error := CELL_ESRCH\<rparr>"
          using p free True by (auto simp: create_provider_def Let_def ipc_get_def mk split: option.splits)
        then show ?thesis using keep sh by (simp add: provided_def)
      next
        case f: False
        have "r = Some ?p \<and> st = ?st\<lparr>cs_store := h', cs_error := 0, cs_ipc := (ipc k b)(key \<mapsto> Some ?p)\<rparr>"
          using p free True f h'(1) by (cases "ipc k b key"; fastforce simp: create_provider_def Let_def ipc_add_def mk split: option.splits)
        then show ?thesis using h' key [OF True] x(3) [OF True] by (auto simp: provided_def shape_of_def)
      qed
    qed
  qed
qed

lemma create_full:
  assumes t: "kernel_inv k" and b: "good_base b" and f: "\<forall>i<8192. vec_data (ids k) ! i \<noteq> None" and c: "create b pshared key flags mk kz k = Some (err, k')"
  shows "k' = k"
proof -
  have "table_inv (ids k)" using t by (simp add: kernel_inv_def)
  moreover have "\<not> fresh_slot b i v (ids k)" for i v
    using f calculation by (auto simp: fresh_slot_def table_inv_def)
  ultimately have "create_id (lv2_traits b) p 0 (ids k) s = Some (None, ids k, s)" for p :: "u32 \<Rightarrow> create_st \<Rightarrow> nat option \<times> create_st" and s
    using create_new [OF _ b, of "ids k" p s] by blast
  then show ?thesis using c b by (auto simp: create_def idm_import_def invalid_lv2 split: if_splits)
qed

lemma shareable_good: "shareable b \<Longrightarrow> good_base b"
  by (auto simp: shareable_def)

lemma create_wf:
  assumes w: "kernel_wf k" and b: "shareable b"
    and x: "\<And>v. obj_class (mk v) = b \<and> get_exists (mk v) = 0 \<and> sh_conds (shape_of (mk v)) = 0" "\<And>v. pshared = SYS_SYNC_PROCESS_SHARED \<Longrightarrow> obj_key (mk v) = key"
    and mq: "\<And>v q. sh_mutex (shape_of (mk v)) = Some q \<Longrightarrow> b = cond_base_id \<and> (\<exists>m. store k q = Some (O_mutex m) \<and> obj_exists m \<noteq> 0)"
    and c: "create b pshared key flags mk True k = Some (err, k')"
  shows "kernel_wf k'"
proof (cases "valid_create pshared key flags True \<and> (\<exists>i<8192. vec_data (ids k) ! i = None)")
  case False
  then have "k' = k" using c create_full [OF kernel_wfD(2) [OF w] shareable_good [OF b]] by (auto simp: create_def)
  then show ?thesis using w by simp
next
  case True
  then have t: "\<exists>i<8192. vec_data (ids k) ! i = None" "valid_create pshared key flags True" by blast+
  note D = kernel_wfD [OF w]
  show ?thesis
  proof (rule create_cases [OF D(2) shareable_good [OF b] t, where mk = mk])
    fix i v h st r
    let ?p = "store_top k" and ?h = "(store k)(store_top k \<mapsto> mk v)" and ?sh = "(shapes_of (store k))(store_top k \<mapsto> shape_of (mk v))"
    assume i: "fresh_slot b i v (ids k)" "i < h" "highest_index (ids k) \<le> h" "h \<le> 8192" "v \<noteq> 0"
      and pr: "create_provider pshared key flags mk v \<lparr>cs_store = store k, cs_top = store_top k, cs_ipc = ipc k b,
         cs_error = CELL_EAGAIN, cs_crash = False\<rparr> = (r, st)"
      and cr: "create b pshared key flags mk True k = (if cs_crash st then None else
         Some (if r = None then cs_error st else CELL_OK,
           k\<lparr>ids := (case r of Some p \<Rightarrow> fill b i v h p (ids k) | None \<Rightarrow> spoil i h v (ids k)),
             store := cs_store st, store_top := cs_top st, ipc := (ipc k)(b := cs_ipc st)\<rparr>))"
    have P: "provided b key ?p ?sh (ipc k b) ?h r st" "\<not> cs_crash st"
      using create_provided [OF w b t(2) _ _ _ _ refl pr] x mq by blast+
    have k': "k' = k\<lparr>ids := (case r of Some p \<Rightarrow> fill b i v h p (ids k) | None \<Rightarrow> spoil i h v (ids k)),
             store := cs_store st, store_top := cs_top st, ipc := (ipc k)(b := cs_ipc st)\<rparr>" using cr c P(2) by simp
    have np: "store k ?p = None" "shapes_of (store k) ?p = None" using w by (simp_all add: kernel_wf_def shapes_of_def)
    have new: "objects_wf (ids k) (ipc k) ?sh"
    proof (rule objects_wf_new [OF D(1) np(2)])
      fix q assume q: "sh_mutex (shape_of (mk v)) = Some q"
      then obtain m where "store k q = Some (O_mutex m)" using mq by blast
      then show "sh_class (shape_of (mk v)) = cond_base_id \<and> (\<exists>y. shapes_of (store k) q = Some y \<and> sh_class y = mutex_base_id)"
        using mq [OF q] x(1) [of v] by (simp add: shapes_of_def obj_class_def)
    qed (use x(1) [of v] in simp_all)
    have top: "\<forall>p\<ge>store_top k'. store k' p = None" using w P(1) k' by (auto simp: kernel_wf_def provided_def)
    have "ports_kept (store k) ?h" using np(1) x(1) [of v] b by (intro ports_kept_put) (auto simp: shareable_def obj_class_def)
    then have ports: "ports_typed (store k')" using ports_kept_typed [OF D(3)] ports_kept_trans P(1) k' by (auto simp: provided_def)
    have "objects_wf (ids k') (ipc k') (shapes_of (store k'))"
    proof (cases r)
      case None
      then show ?thesis using objects_wf_spoil [OF new i(1-4)] P(1) k' by (simp add: provided_def)
    next
      case (Some q)
      then have q: "shapes_of (store k') = add_handle q ?sh" "ids k' = fill b i v h q (ids k)"
        and q_old: "q = ?p \<and> (ipc k' = ipc k \<or> key \<noteq> 0 \<and> (\<exists>x. ?sh q = Some x \<and> sh_key x = key) \<and> ipc k' = (ipc k)(b := (ipc k b)(key \<mapsto> Some q)))
               \<or> ipc k b key = Some (Some q) \<and> ipc k' = ipc k"
        using P(1) k' by (auto simp: provided_def)
      obtain y where y: "?sh q = Some y" "sh_class y = b" and l: "\<And>q' u. sh_mutex y = Some q' \<Longrightarrow> ?sh q' = Some u \<Longrightarrow> sh_exists u \<noteq> 0"
      proof (cases "q = ?p")
        case True
        have "sh_exists u \<noteq> 0" if m: "sh_mutex (shape_of (mk v)) = Some q'" "?sh q' = Some u" for q' u
        proof -
          obtain m where "store k q' = Some (O_mutex m)" "obj_exists m \<noteq> 0" using mq [OF m(1)] by blast
          then show ?thesis using m(2) np(1) by (auto simp: shapes_of_def get_exists_def split: if_splits)
        qed
        then show thesis using that [of "shape_of (mk v)"] True x(1) [of v] by simp
      next
        case False
        then obtain y where "?sh q = Some y" "sh_class y = b" "sh_exists y \<noteq> 0" using q_old objects_wfD(4) [OF new, of b key q] by blast
        then show thesis using that [of y] live_mutex [OF new, of q y] by blast
      qed
      define S where "S = ?sh"
      have H: "objects_wf (fill b i v h q (ids k)) (ipc k) (add_handle q S)"
        unfolding S_def by (rule objects_wf_handle [OF new shareable_good [OF b] i(1-4) y]) (rule l)
      have "i \<in> slots (fill b i v h q (ids k)) q" using fill_slots(1) [OF objects_wfD(1) [OF new] i(1)] by simp
      moreover obtain z where z: "add_handle q S q = Some z" "sh_class z = b" "sh_key z = sh_key y" using y by (simp add: add_handle_def S_def)
      ultimately have "sh_exists z \<noteq> 0" using slot_exists [OF H] b by blast
      then have "objects_wf (fill b i v h q (ids k)) ((ipc k)(b := (ipc k b)(key \<mapsto> Some q))) (add_handle q S)" if "key \<noteq> 0" "sh_key y = key"
        using that b z by (intro objects_wf_key [OF H]) auto
      then show ?thesis using H q q_old y(1) unfolding S_def by (elim disjE conjE) auto
    qed
    then show ?thesis using top ports by (simp add: kernel_wf_def)
  qed
qed

text \<open>Objects of the other classes have one id and are not counted.\<close>

lemma uncounted:
  assumes "sh p = Some x" "\<not> shareable (sh_class x)" "sh_mutex x = None"
  shows "add_handle p sh = sh" "drop_handle p sh = sh" "drop_key x ip = ip"
  using assms by (auto simp: add_handle_def drop_handle_def drop_key_def fun_eq_iff option.map_ident intro!: map_option_idI split: option.splits)

lemma make_wf:
  assumes w: "kernel_wf k" and b: "good_base b" "\<not> shareable b"
    and x: "\<And>v. obj_class (mk v) = b \<and> get_exists (mk v) = 0" "\<And>v y. mk v = O_event_port y \<Longrightarrow> port_queue y = None"
    and c: "make_obj b mk k = Some (v, k')"
  shows "kernel_wf k'"
proof -
  note D = kernel_wfD [OF w]
  note T = objects_wfD(1) [OF D(1)]
  have m: "sh_mutex (shape_of (mk v)) = None" "sh_conds (shape_of (mk v)) = 0" for v
    using x(1) [of v] b(2) by (auto simp: shape_of_def shareable_def obj_class_def split: lv2_object.splits)
  let ?pr = "\<lambda>lastid (h, top). (Some top, h(top \<mapsto> mk lastid), Suc top)"
  from create_new [OF T b(1), of ?pr "(store k, store_top k)"] show ?thesis
  proof (elim disjE exE conjE)
    assume "create_id (lv2_traits b) ?pr 0 (ids k) (store k, store_top k) = Some (None, ids k, store k, store_top k)"
    then have "k' = k" using c b(1) by (auto simp: make_obj_def idm_import_def invalid_lv2)
    then show ?thesis using w by simp
  next
    fix i u h
    assume i: "fresh_slot b i u (ids k)" "i < h" "highest_index (ids k) \<le> h" "h \<le> 8192"
      and "create_id (lv2_traits b) ?pr 0 (ids k) (store k, store_top k) = (case ?pr u (store k, store_top k) of
         (Some p, s') \<Rightarrow> Some (Some p, fill b i u h p (ids k), s') | (None, s') \<Rightarrow> Some (None, spoil i h u (ids k), s'))"
    then have k': "k' = k\<lparr>ids := fill b i u h (store_top k) (ids k), store := (store k)(store_top k \<mapsto> mk u), store_top := Suc (store_top k)\<rparr>"
      using c b(1) by (auto simp: make_obj_def idm_import_def invalid_lv2)
    have np: "store k (store_top k) = None" "shapes_of (store k) (store_top k) = None" using w by (simp_all add: kernel_wf_def shapes_of_def)
    define S where "S = (shapes_of (store k))(store_top k \<mapsto> shape_of (mk u))"
    have S: "S (store_top k) = Some (shape_of (mk u))" "sh_class (shape_of (mk u)) = b" using x(1) [of u] by (simp_all add: S_def)
    have new: "objects_wf (ids k) (ipc k) S" unfolding S_def by (rule objects_wf_new [OF D(1) np(2)]) (use x(1) [of u] m [of u] in simp_all)
    have "objects_wf (fill b i u h (store_top k) (ids k)) (ipc k) (add_handle (store_top k) S)"
      by (rule objects_wf_handle [OF new b(1) i S]) (use m [of u] in simp)
    then have "objects_wf (ids k') (ipc k') (shapes_of (store k'))"
      using uncounted(1) [of S "store_top k", OF S(1)] b(2) S(2) m by (simp add: k' S_def shapes_upd)
    moreover have "ports_kept (store k) (store k')" unfolding k' using np(1) x(2) [of u] by (auto intro: ports_kept_put)
    ultimately show ?thesis using ports_kept_typed [OF D(3)] w by (auto simp: kernel_wf_def k')
  qed
qed

text \<open>\<open>k1\<close> is \<open>k\<close> after the object \<open>x\<close> at \<open>p\<close> has lost an id that is still to be cleared.\<close>

definition dropped :: "nat \<Rightarrow> lv2_object \<Rightarrow> kernel \<Rightarrow> kernel \<Rightarrow> bool" where
  "dropped p x k k1 \<longleftrightarrow> ids k1 = ids k \<and> ipc k1 = drop_key (shape_of x) (ipc k) \<and> shapes_of (store k1) = drop_handle p (shapes_of (store k))
     \<and> ports_kept (store k) (store k1) \<and> (\<forall>p'\<ge>store_top k1. store k1 p' = None)"

lemma withdraw_wf:
  assumes w: "kernel_wf k" and b: "good_base b" and wd: "withdraw_obj b v f k = (r, k')"
    and f: "\<And>p x err k1. store k p = Some x \<Longrightarrow> obj_class x = b \<Longrightarrow> f p k = (err, k1) \<Longrightarrow> ids k1 = ids k \<and>
      (if err \<noteq> 0 then kernel_wf k1 else dropped p x k k1 \<and> (\<forall>m. x = O_mutex m \<longrightarrow> cond_count m = 0))"
  shows "kernel_wf k'"
proof (cases "idm_get (lv2_traits b) v (ids k)")
  case None
  then show ?thesis using withdraw_unknown [OF objects_wfD(1) [OF kernel_wfD(1) [OF w]] b] wd w by simp
next
  case (Some p)
  note D = objects_wfD [OF kernel_wfD(1) [OF w]]
  obtain i where i: "i < 8192" "vec_data (ids k) ! i = Some p" "vec_keys (ids k) ! i = \<lparr>m_value = v, m_base = b\<rparr>"
    using Some idm_get_iff [OF D(1) b] by blast
  obtain x where x: "store k p = Some x" "obj_class x = b" using D(2) [OF i(1,2)] i(3) by (auto simp: shapes_of_def)
  obtain err k1 where fp: "f p k = (err, k1)" by force
  have F: "ids k1 = ids k" "err \<noteq> 0 \<Longrightarrow> kernel_wf k1" "err = 0 \<Longrightarrow> dropped p x k k1" "err = 0 \<Longrightarrow> x = O_mutex m \<Longrightarrow> cond_count m = 0" for m
    using f [OF x fp] by (auto split: if_splits)
  have g: "get_index (lv2_traits b) v < 8192" "find_index False (lv2_traits b) (get_index (lv2_traits b) v) v (ids k) = Some (i, p)"
    using find_index_get [OF D(1) b, of v i p] i by auto
  have k': "k' = (if err \<noteq> 0 then k1 else k1\<lparr>ids := clear_slot i (ids k)\<rparr>)"
    using wd g fp F(1) by (auto simp: withdraw_obj_def idm_withdraw_if_def Let_def not_le split: if_splits)
  show ?thesis
  proof (cases "err = 0")
    case True
    have "objects_wf (clear_slot i (ids k)) (drop_key (shape_of x) (ipc k)) (drop_handle p (shapes_of (store k)))"
      by (rule objects_wf_drop [OF kernel_wfD(1) [OF w] i(1,2)])
        (use x F(4) [OF True] in \<open>auto simp: shapes_of_def class_mutex shape_of_def obj_class_def split: lv2_object.splits\<close>)
    then show ?thesis using F(3) [OF True] True k' ports_kept_typed [OF kernel_wfD(3) [OF w]] by (auto simp: kernel_wf_def dropped_def)
  qed (use F(2) k' in simp)
qed

section \<open>Calls that leave the shapes alone\<close>

definition touched :: "kernel \<Rightarrow> kernel \<Rightarrow> bool" where
  "touched k k' \<longleftrightarrow> ids k' = ids k \<and> ipc k' = ipc k \<and> store_top k' = store_top k \<and> shapes_of (store k') = shapes_of (store k)
     \<and> (ports_typed (store k) \<longrightarrow> ports_typed (store k'))"

lemma touched_wf: "kernel_wf k \<Longrightarrow> touched k k' \<Longrightarrow> kernel_wf k'"
proof -
  assume a: "kernel_wf k" "touched k k'"
  have "store k' p = None \<longleftrightarrow> store k p = None" for p
  proof -
    have "shapes_of (store k') p = shapes_of (store k) p" using a(2) by (simp add: touched_def)
    then show ?thesis by (auto simp: shapes_of_def map_option_is_None split: option.splits)
  qed
  then show ?thesis using a by (simp add: kernel_wf_def touched_def)
qed

lemma touched_refl [simp]: "touched k k"
  by (simp add: touched_def)

lemma touched_trans: "touched k k1 \<Longrightarrow> touched k1 k2 \<Longrightarrow> touched k k2"
  by (simp add: touched_def)

lemma touched_sched [simp]: "touched k (k1\<lparr>sched := s\<rparr>) = touched k k1" "touched k (enter e k1) = touched k k1"
  by (simp_all add: touched_def enter_def)

text \<open>Replacing an object by one of the same shape.\<close>

lemma touched_put:
  assumes "store k p = Some y" "shape_of x = shape_of y" "\<And>u. x \<noteq> O_event_port u"
  shows "touched k (k\<lparr>store := (store k)(p \<mapsto> x)\<rparr>)"
proof -
  have s: "shapes_of ((store k)(p \<mapsto> x)) = shapes_of (store k)" using assms(1,2) by (auto simp: shapes_of_def fun_eq_iff)
  have "ports_typed ((store k)(p \<mapsto> x))" if "ports_typed (store k)"
    using that assms(3) unfolding ports_typed_def s by (auto split: if_splits)
  then show ?thesis using s by (simp add: touched_def)
qed

lemma touched_puts:
  "touched k0 k \<Longrightarrow> store k p = Some (O_sema y) \<Longrightarrow> obj_exists x = obj_exists y \<Longrightarrow> sem_key x = sem_key y \<Longrightarrow> touched k0 (put_sema p x k)"
  "touched k0 k \<Longrightarrow> store k p = Some (O_mutex y') \<Longrightarrow> obj_exists x' = obj_exists y' \<Longrightarrow> mtx_key x' = mtx_key y' \<Longrightarrow> cond_count x' = cond_count y' \<Longrightarrow> touched k0 (put_mutex p x' k)"
  "touched k0 k \<Longrightarrow> store k p = Some (O_cond c) \<Longrightarrow> obj_exists c' = obj_exists c \<Longrightarrow> cond_key c' = cond_key c \<Longrightarrow> cond_mutex c' = cond_mutex c \<Longrightarrow> touched k0 (put_cond p c' k)"
  "touched k0 k \<Longrightarrow> store k p = Some (O_rwlock r) \<Longrightarrow> obj_exists r' = obj_exists r \<Longrightarrow> rw_key r' = rw_key r \<Longrightarrow> touched k0 (put_rwlock p r' k)"
  "touched k0 k \<Longrightarrow> store k p = Some (O_event_flag f) \<Longrightarrow> obj_exists f' = obj_exists f \<Longrightarrow> ef_key f' = ef_key f \<Longrightarrow> touched k0 (put_event_flag p f' k)"
  "touched k0 k \<Longrightarrow> store k p = Some (O_event_queue q) \<Longrightarrow> obj_exists q' = obj_exists q \<Longrightarrow> eq_key q' = eq_key q \<Longrightarrow> touched k0 (put_event_queue p q' k)"
  "touched k0 k \<Longrightarrow> store k p = Some (O_lwmutex l) \<Longrightarrow> obj_exists l' = obj_exists l \<Longrightarrow> touched k0 (put_lwmutex p l' k)"
  "touched k0 k \<Longrightarrow> store k p = Some (O_lwcond d) \<Longrightarrow> obj_exists d' = obj_exists d \<Longrightarrow> touched k0 (put_lwcond p d' k)"
  by (unfold put_sema_def put_mutex_def put_cond_def put_rwlock_def put_event_flag_def put_event_queue_def put_lwmutex_def put_lwcond_def;
      rule touched_trans, assumption, rule touched_put, assumption; simp add: shape_defs)+

lemma touched_port:
  assumes "touched k0 k" "store k p = Some (O_event_port y)" "obj_exists x = obj_exists y"
    and "\<And>q. port_queue x = Some q \<Longrightarrow> port_queue y = Some q \<or> (\<exists>z. store k q = Some (O_event_queue z))"
  shows "touched k0 (put_event_port p x k)"
proof -
  have s: "shapes_of ((store k)(p \<mapsto> O_event_port x)) = shapes_of (store k)" using assms(2,3) by (auto simp: shapes_of_def fun_eq_iff shape_defs)
  have "ports_typed ((store k)(p \<mapsto> O_event_port x))" if "ports_typed (store k)"
    using that assms unfolding ports_typed_def s by (fastforce simp: shapes_of_def obj_class_def split: if_splits)
  then show ?thesis using s assms(1) by (simp add: touched_def put_event_port_def)
qed

lemma at_store:
  "sema_at v k = Some (p, x) \<Longrightarrow> store k p = Some (O_sema x)"
  "mutex_at v k = Some (p, x') \<Longrightarrow> store k p = Some (O_mutex x')"
  "cond_at v k = Some (p, c, x') \<Longrightarrow> store k p = Some (O_cond c)" "cond_at v k = Some (p, c, x') \<Longrightarrow> store k (cond_mutex c) = Some (O_mutex x')"
  "rwlock_at v k = Some (p, r) \<Longrightarrow> store k p = Some (O_rwlock r)"
  "event_flag_at v k = Some (p, f) \<Longrightarrow> store k p = Some (O_event_flag f)"
  "event_queue_at v k = Some (p, q) \<Longrightarrow> store k p = Some (O_event_queue q)"
  "event_port_at v k = Some (p, u) \<Longrightarrow> store k p = Some (O_event_port u)"
  "lwmutex_at v k = Some (p, l) \<Longrightarrow> store k p = Some (O_lwmutex l)"
  "lwcond_at v k = Some (p, d) \<Longrightarrow> store k p = Some (O_lwcond d)"
  by (auto simp: sema_at_def mutex_at_def cond_at_def rwlock_at_def event_flag_at_def event_queue_at_def event_port_at_def lwmutex_at_def lwcond_at_def
      obj_at_def split: option.splits lv2_object.splits)

end
