(* ===== verification/Kernel_Calls.thy ===== *)
theory Kernel_Calls
  imports Kernel_Objects
begin

text \<open>
  The system calls of all components as steps of one relation on the kernel state, and the invariant of the objects for every one of them.
\<close>

section \<open>Semaphores\<close>

lemmas sema_ops = sema_wait_fast_def sema_dec_def sema_enqueue_def sema_wait_slow_def sema_unqueue_def sema_undo_def sema_expire_def
  sema_trywait_def sema_post_fast_def sema_take_def sema_wake_def sema_post_slow_def

lemma sema_calls_touched:
  "sys_semaphore_wait e v n k = Some (r, k') \<Longrightarrow> touched k k'"
  "sys_semaphore_wait_iter e p n b c k = Some (w, k') \<Longrightarrow> touched k k'"
  "sys_semaphore_trywait e v k = (err, k') \<Longrightarrow> touched k k'"
  "sys_semaphore_post e v cnt k = Some (err, k') \<Longrightarrow> touched k k'"
  "sys_semaphore_get_value e v ptr k = (err, val, k') \<Longrightarrow> touched k k'"
  by (auto simp: sys_semaphore_wait_def sys_semaphore_wait_iter_def sys_semaphore_trywait_def sys_semaphore_post_def sys_semaphore_get_value_def
      wait_iter_def sema_ops Let_def split: option.splits prod.splits if_splits bool.splits lv2_object.splits dest!: at_store intro!: touched_puts)

section \<open>Mutexes and condition variables\<close>

text \<open>What the operations on a mutex leave alone.\<close>

definition same_mutex :: "lv2_mutex \<Rightarrow> lv2_mutex \<Rightarrow> bool" where
  "same_mutex m m' \<longleftrightarrow> obj_exists m' = obj_exists m \<and> mtx_key m' = mtx_key m \<and> cond_count m' = cond_count m"

lemma same_mutex_refl [simp]: "same_mutex m m"
  by (simp add: same_mutex_def)

lemma touched_mutex: "touched k0 k \<Longrightarrow> store k p = Some (O_mutex m) \<Longrightarrow> same_mutex m m' \<Longrightarrow> touched k0 (put_mutex p m' k)"
  by (auto simp: same_mutex_def intro: touched_puts)

lemma try_lock_same: "try_lock cas t x = (r, x1) \<Longrightarrow> same_mutex x x1"
  by (auto simp: try_lock_def same_mutex_def split: if_splits)

lemma mutex_spin_same: "mutex_spin cs t r x = (r1, x1) \<Longrightarrow> same_mutex x x1"
proof (induction cs t r x rule: mutex_spin.induct)
  case (2 cas cs t r x)
  obtain r2 x2 where l: "try_lock cas t x = (r2, x2)" by force
  note s = try_lock_same [OF l]
  show ?case
  proof (cases "r2 = CELL_OK \<or> mtx_sq x2 \<noteq> []")
    case False
    then have "same_mutex x2 x1" using 2 l by auto
    then show ?thesis using s by (simp add: same_mutex_def)
  qed (use 2 l s in auto)
qed (simp add: same_mutex_def)

lemma mutex_ops_same:
  "mutex_attempt cas cs t x = (r, x1) \<Longrightarrow> same_mutex x x1"
  "try_own t s x = (b, s1, x1) \<Longrightarrow> same_mutex x x1"
  "try_unlock cas t x = (r, x1) \<Longrightarrow> same_mutex x x1"
  "reown s x = (f, x1) \<Longrightarrow> same_mutex x x1"
  "mutex_expire t s x = Some (s1, x1) \<Longrightarrow> same_mutex x x1"
proof -
  show "mutex_attempt cas cs t x = (r, x1) \<Longrightarrow> same_mutex x x1"
  proof -
    obtain r2 x2 where l: "try_lock cas t x = (r2, x2)" by force
    assume "mutex_attempt cas cs t x = (r, x1)"
    then have "same_mutex x2 x1" using l by (auto simp: mutex_attempt_def same_mutex_def split: if_splits dest: mutex_spin_same)
    then show ?thesis using try_lock_same [OF l] by (simp add: same_mutex_def)
  qed
qed (auto simp: try_own_def try_unlock_def reown_def mutex_expire_def same_mutex_def split: if_splits option.splits prod.splits)

lemma mutex_slow_same:
  "mutex_lock_slow e n s x = Some (b, s1, x1) \<Longrightarrow> same_mutex x x1"
  "mutex_unlock_slow e s x = Some (s1, x1) \<Longrightarrow> same_mutex x x1"
  by (auto simp: mutex_lock_slow_def mutex_unlock_slow_def split: prod.splits bool.splits option.splits dest: mutex_ops_same)

lemma same_mutex_trans: "same_mutex x y \<Longrightarrow> same_mutex y z \<Longrightarrow> same_mutex x z"
  by (simp add: same_mutex_def)

lemma mutex_calls_touched:
  "sys_mutex_lock e v n cas cs k = Some (r, k') \<Longrightarrow> touched k k'"
  "sys_mutex_lock_iter e p n b c k = Some (w, k') \<Longrightarrow> touched k k'"
  "sys_mutex_trylock e v cas k = (err, k') \<Longrightarrow> touched k k'"
  "sys_mutex_unlock e v cas k = Some (err, k') \<Longrightarrow> touched k k'"
  by (auto simp: sys_mutex_lock_def sys_mutex_lock_iter_def sys_mutex_trylock_def sys_mutex_unlock_def wait_iter_def Let_def
      split: option.splits prod.splits if_splits bool.splits lv2_object.splits
      dest!: at_store mutex_ops_same mutex_slow_same try_lock_same intro!: touched_mutex intro: same_mutex_trans)

lemma own_all_same: "own_all r q s m = Some (r1, s1, m1) \<Longrightarrow> same_mutex m m1"
proof -
  have "own_all r q s m = Some y \<Longrightarrow> same_mutex m (snd (snd y))" for y
  proof (rule own_all.raw_induct [where P = "\<lambda>r q s m y. same_mutex m (snd (snd y))"])
    fix f r q s m y
    assume 1: "\<And>r q s m y. f r q s m = Some y \<Longrightarrow> same_mutex m (snd (snd y))"
      "(case schedule (ppus s) SYS_SYNC_PRIORITY q of (None, _) \<Rightarrow> Some (r, s, m)
        | (Some t, q1) \<Rightarrow> (case try_own t s m of (own, s1, m1) \<Rightarrow>
             if \<not> own then f r q1 s1 m1 else if r \<noteq> None then None else f (Some t) q1 s1 m1)) = Some y"
    obtain x q1 where sc: "schedule (ppus s) SYS_SYNC_PRIORITY q = (x, q1)" by force
    show "same_mutex m (snd (snd y))"
    proof (cases x)
      case (Some t)
      obtain own s1 m1 where o': "try_own t s m = (own, s1, m1)" by (metis prod_cases3)
      have "same_mutex m1 (snd (snd y))" using 1(1) 1(2) [unfolded sc Some] o' by (auto split: if_splits)
      then show ?thesis using same_mutex_trans mutex_ops_same(2) [OF o'] by blast
    qed (use 1(2) sc in auto)
  qed
  then show "own_all r q s m = Some (r1, s1, m1) \<Longrightarrow> same_mutex m m1" by fastforce
qed

lemma cond_ops_same:
  "cond_signal_one e s m q = Some (s1, m1, q1) \<Longrightarrow> same_mutex m m1"
  "cond_signal_each e s m q = Some (s1, m1, q1) \<Longrightarrow> same_mutex m m1"
  "cond_signal_thread e t s m q = Some (b, s1, m1, q1) \<Longrightarrow> same_mutex m m1"
  "cond_wait_begin e n restored sst s m q = Some (r, s1, m1, q1) \<Longrightarrow> same_mutex m m1"
  "cond_wait_iter e start n to cs s m q = Some (w, s1, m1, q1, n1) \<Longrightarrow> same_mutex m m1"
  "cond_wait_end e cnt m = Some m1 \<Longrightarrow> same_mutex m m1"
proof -
  have own: "own_awake e t s m = Some (s1, m1) \<Longrightarrow> same_mutex m m1" for t s m s1 m1
    by (auto simp: own_awake_def split: prod.splits bool.splits dest: mutex_ops_same)
  show "cond_signal_one e s m q = Some (s1, m1, q1) \<Longrightarrow> same_mutex m m1"
    by (auto simp: cond_signal_one_def split: option.splits prod.splits if_splits dest: own)
  show "cond_signal_thread e t s m q = Some (b, s1, m1, q1) \<Longrightarrow> same_mutex m m1"
    by (auto simp: cond_signal_thread_def split: if_splits dest: own)
  show "cond_signal_each e s m q = Some (s1, m1, q1) \<Longrightarrow> same_mutex m m1"
    by (auto simp: cond_signal_each_def split: option.splits prod.splits if_splits dest: own_all_same)
  show "cond_wait_end e cnt m = Some m1 \<Longrightarrow> same_mutex m m1" by (auto simp: cond_wait_end_def same_mutex_def split: if_splits)
  have "same_mutex (m\<lparr>lock_count := 0\<rparr>) m1 = same_mutex m m1" by (simp add: same_mutex_def)
  then show "cond_wait_begin e n restored sst s m q = Some (r, s1, m1, q1) \<Longrightarrow> same_mutex m m1"
    by (auto simp: cond_wait_begin_def Let_def split: option.splits prod.splits if_splits bool.splits dest!: mutex_ops_same)
  have "cond_expire e start s m q = Some (b, s1, m1, q1) \<Longrightarrow> same_mutex m m1" for s b
    by (auto simp: cond_expire_def split: option.splits prod.splits if_splits bool.splits dest: mutex_ops_same)
  then show "cond_wait_iter e start n to cs s m q = Some (w, s1, m1, q1, n1) \<Longrightarrow> same_mutex m m1"
    by (auto simp: cond_wait_iter_def Let_def split: if_splits)
qed

lemma touched_cond:
  assumes "touched k0 k" "store k p = Some (O_cond c)" "store k (cond_mutex c) = Some (O_mutex m)" "same_mutex m m'"
  shows "touched k0 (put_cond_mutex p c s m' q k)"
proof -
  have 1: "touched k0 (put_mutex (cond_mutex c) m' (k\<lparr>sched := s\<rparr>))" using assms by (intro touched_mutex) auto
  have "p \<noteq> cond_mutex c" using assms(2,3) by auto
  then have "store (put_mutex (cond_mutex c) m' (k\<lparr>sched := s\<rparr>)) p = Some (O_cond c)" using assms(2) by (simp add: put_mutex_def)
  then show ?thesis unfolding put_cond_mutex_def using 1 by (intro touched_puts(3)) auto
qed

lemma at_cond: "cond_at v k = Some (p, c, m) \<Longrightarrow> store k p = Some (O_cond c) \<and> store k (cond_mutex c) = Some (O_mutex m)"
  using at_store(3,4) by blast

lemma signal_round_touched:
  assumes "signal_round_at e v stopped none f k = Some (r, k')" "\<And>s m q r s1 m1 q1. f s m q = Some (r, s1, m1, q1) \<Longrightarrow> same_mutex m m1"
  shows "touched k k'"
  using assms(1) by (auto simp: signal_round_at_def Let_def split: if_splits option.splits dest!: at_cond assms(2) intro!: touched_cond)

lemma cond_calls_touched:
  "sys_cond_signal e v stopped k = Some (r, k') \<Longrightarrow> touched k k'"
  "sys_cond_signal_all e v stopped k = Some (r, k') \<Longrightarrow> touched k k'"
  "sys_cond_signal_to e v ex t stopped k = Some (r, k') \<Longrightarrow> touched k k'"
  "sys_cond_wait e v n restored sst k = Some (r', cnt, k') \<Longrightarrow> touched k k'"
  "sys_cond_wait_iter e p start n to cs k = Some (w, n', k') \<Longrightarrow> touched k k'"
  "sys_cond_wait_end e p cnt k = Some (g, k') \<Longrightarrow> touched k k'"
proof -
  show "sys_cond_signal e v stopped k = Some (r, k') \<Longrightarrow> touched k k'" "sys_cond_signal_all e v stopped k = Some (r, k') \<Longrightarrow> touched k k'"
    unfolding sys_cond_signal_def sys_cond_signal_all_def by (erule signal_round_touched; auto dest: cond_ops_same)+
  show "sys_cond_signal_to e v ex t stopped k = Some (r, k') \<Longrightarrow> touched k k'"
    unfolding sys_cond_signal_to_def by (auto split: if_splits dest: cond_ops_same elim!: signal_round_touched)
  show "sys_cond_wait e v n restored sst k = Some (r', cnt, k') \<Longrightarrow> touched k k'"
    by (auto simp: sys_cond_wait_def Let_def split: option.splits dest!: at_cond cond_ops_same(4) intro!: touched_cond)
  show "sys_cond_wait_iter e p start n to cs k = Some (w, n', k') \<Longrightarrow> touched k k'"
    by (auto simp: sys_cond_wait_iter_def split: option.splits lv2_object.splits dest!: cond_ops_same(5) intro!: touched_cond)
  show "sys_cond_wait_end e p cnt k = Some (g, k') \<Longrightarrow> touched k k'"
    by (auto simp: sys_cond_wait_end_def split: option.splits lv2_object.splits dest!: cond_ops_same(6) intro!: touched_mutex)
qed

section \<open>Reader-writer locks, event flags and event queues\<close>

definition same_rwlock :: "lv2_rwlock \<Rightarrow> lv2_rwlock \<Rightarrow> bool" where
  "same_rwlock x x' \<longleftrightarrow> obj_exists x' = obj_exists x \<and> rw_key x' = rw_key x"

lemma touched_rwlock: "touched k0 k \<Longrightarrow> store k p = Some (O_rwlock x) \<Longrightarrow> same_rwlock x x' \<Longrightarrow> touched k0 (put_rwlock p x' k)"
  by (auto simp: same_rwlock_def intro: touched_puts)

lemma same_rwlock_refl [simp]: "same_rwlock x x"
  by (simp add: same_rwlock_def)

lemma rw_ops_same:
  "rw_rlock_fast x = Some x1 \<Longrightarrow> same_rwlock x x1" "rw_rlock_slow e n s x = Some (b, s1, x1) \<Longrightarrow> same_rwlock x x1"
  "rw_rexpire t s x = Some (s1, x1) \<Longrightarrow> same_rwlock x x1" "rw_tryrlock x = (b, x1) \<Longrightarrow> same_rwlock x x1"
  "rw_runlock_fast x = Some x1 \<Longrightarrow> same_rwlock x x1" "rw_runlock_slow e s x = Some (r, s1, x1) \<Longrightarrow> same_rwlock x x1"
  "rw_wlock_fast t x = Some (w, x1) \<Longrightarrow> same_rwlock x x1" "rw_wlock_slow e n s x = Some (w, s1, x1) \<Longrightarrow> same_rwlock x x1"
  "rw_trywlock t x = (w, x1) \<Longrightarrow> same_rwlock x x1" "rw_wunlock_fast t x = (w, x1) \<Longrightarrow> same_rwlock x x1"
  "rw_wunlock_slow e s x = Some (r, s1, x1) \<Longrightarrow> same_rwlock x x1"
  by (auto simp: rw_rlock_fast_def rw_rlock_slow_def rw_rexpire_def rw_tryrlock_def rw_runlock_fast_def rw_runlock_slow_def rw_wlock_fast_def
      rw_wlock_slow_def rw_trywlock_def rw_wunlock_fast_def rw_wunlock_slow_def same_rwlock_def Let_def split: if_splits option.splits prod.splits)

lemma rw_wexpire_same: "rw_wexpire e s x = Some (s1, x1) \<Longrightarrow> same_rwlock x x1"
  by (auto simp: rw_wexpire_def same_rwlock_def Let_def split: if_splits option.splits prod.splits)

lemma same_rwlock_trans: "same_rwlock x y \<Longrightarrow> same_rwlock y z \<Longrightarrow> same_rwlock x z"
  by (simp add: same_rwlock_def)

lemma wait_iter_same:
  assumes "wait_iter q f t to cs s x = Some (w, s1, x1)" "\<And>s s1 x1. f t s x = Some (s1, x1) \<Longrightarrow> P x1" "P x"
  shows "P x1"
  using assms by (auto simp: wait_iter_def split: if_splits)

lemma rwlock_calls_touched:
  "sys_rwlock_rlock e v n k = Some (r, k') \<Longrightarrow> touched k k'"
  "sys_rwlock_rlock_iter e p n b c k = Some (w, k') \<Longrightarrow> touched k k'"
  "sys_rwlock_tryrlock e v k = (err, k') \<Longrightarrow> touched k k'"
  "sys_rwlock_runlock e v k = Some (err, k') \<Longrightarrow> touched k k'"
  "sys_rwlock_wlock e v n k = Some (r, k') \<Longrightarrow> touched k k'"
  "sys_rwlock_wlock_iter e p n b c k = Some (w, k') \<Longrightarrow> touched k k'"
  "sys_rwlock_trywlock e v k = (err, k') \<Longrightarrow> touched k k'"
  "sys_rwlock_wunlock e v k = Some (err, k') \<Longrightarrow> touched k k'"
proof -
  show "sys_rwlock_rlock e v n k = Some (r, k') \<Longrightarrow> touched k k'" "sys_rwlock_tryrlock e v k = (err, k') \<Longrightarrow> touched k k'"
    "sys_rwlock_runlock e v k = Some (err, k') \<Longrightarrow> touched k k'" "sys_rwlock_trywlock e v k = (err, k') \<Longrightarrow> touched k k'"
    by (auto simp: sys_rwlock_rlock_def sys_rwlock_tryrlock_def sys_rwlock_runlock_def sys_rwlock_trywlock_def Let_def
      split: option.splits prod.splits bool.splits dest!: at_store rw_ops_same intro!: touched_rwlock)
  show "sys_rwlock_wlock e v n k = Some (r, k') \<Longrightarrow> touched k k'" "sys_rwlock_wunlock e v k = Some (err, k') \<Longrightarrow> touched k k'"
    by (auto simp: sys_rwlock_wlock_def sys_rwlock_wunlock_def Let_def
      split: option.splits prod.splits if_splits dest!: at_store rw_ops_same intro!: touched_rwlock intro: same_rwlock_trans)
  show "sys_rwlock_rlock_iter e p n b c k = Some (w, k') \<Longrightarrow> touched k k'"
    by (auto simp: sys_rwlock_rlock_iter_def split: option.splits lv2_object.splits dest!: wait_iter_same [where P = "same_rwlock _"] intro: rw_ops_same intro!: touched_rwlock)
  show "sys_rwlock_wlock_iter e p n b c k = Some (w, k') \<Longrightarrow> touched k k'"
    by (auto simp: sys_rwlock_wlock_iter_def split: option.splits lv2_object.splits dest!: wait_iter_same [where P = "same_rwlock _"] intro: rw_wexpire_same intro!: touched_rwlock)
qed

definition same_flag :: "lv2_event_flag \<Rightarrow> lv2_event_flag \<Rightarrow> bool" where
  "same_flag x x' \<longleftrightarrow> obj_exists x' = obj_exists x \<and> ef_key x' = ef_key x"

lemma touched_flag: "touched k0 k \<Longrightarrow> store k p = Some (O_event_flag x) \<Longrightarrow> same_flag x x' \<Longrightarrow> touched k0 (put_event_flag p x' k)"
  by (auto simp: same_flag_def intro: touched_puts)

lemma same_flag_refl [simp]: "same_flag x x"
  by (simp add: same_flag_def)

lemma flag_ops_same:
  "ef_try t bits mode s x = (b, s1, x1) \<Longrightarrow> same_flag x x1"
  "ef_wait_slow e bits mode n s x = Some (err, s1, x1) \<Longrightarrow> same_flag x x1"
  "ef_expire t s x = Some (s1, x1) \<Longrightarrow> same_flag x x1"
  "ef_set_slow e bits vs s x = Some (err, s1, x1) \<Longrightarrow> same_flag x x1"
  "ef_cancel e s x = Some (c, s1, x1) \<Longrightarrow> same_flag x x1"
  by (auto simp: ef_try_def ef_wait_slow_def ef_expire_def ef_set_slow_def ef_cancel_def same_flag_def Let_def split: if_splits option.splits prod.splits bool.splits)

lemma same_flag_trans: "same_flag x y \<Longrightarrow> same_flag y z \<Longrightarrow> same_flag x z"
  by (simp add: same_flag_def)

lemma flag_calls_touched:
  "sys_event_flag_wait e v bits mode n k = Some (r, res, k') \<Longrightarrow> touched k k'"
  "sys_event_flag_wait_iter e p n b c k = Some (w, res, k') \<Longrightarrow> touched k k'"
  "sys_event_flag_trywait e v bits mode k = (err, res, k') \<Longrightarrow> touched k k'"
  "sys_event_flag_set e v bits vs k = Some (err, k') \<Longrightarrow> touched k k'"
  "sys_event_flag_clear e v bits k = (err, k') \<Longrightarrow> touched k k'"
  "sys_event_flag_cancel e v k = Some (err, num, k') \<Longrightarrow> touched k k'"
  "sys_event_flag_get e v ptr k = (err, val, k') \<Longrightarrow> touched k k'"
proof -
  show "sys_event_flag_wait e v bits mode n k = Some (r, res, k') \<Longrightarrow> touched k k'"
    by (auto simp: sys_event_flag_wait_def Let_def split: if_splits option.splits prod.splits bool.splits dest!: at_store flag_ops_same intro!: touched_flag intro: same_flag_trans)
  show "sys_event_flag_wait_iter e p n b c k = Some (w, res, k') \<Longrightarrow> touched k k'"
    by (auto simp: sys_event_flag_wait_iter_def split: option.splits lv2_object.splits dest!: wait_iter_same [where P = "same_flag _"] intro: flag_ops_same intro!: touched_flag)
  show "sys_event_flag_trywait e v bits mode k = (err, res, k') \<Longrightarrow> touched k k'" "sys_event_flag_clear e v bits k = (err, k') \<Longrightarrow> touched k k'"
    "sys_event_flag_get e v ptr k = (err, val, k') \<Longrightarrow> touched k k'"
    by (auto simp: sys_event_flag_trywait_def sys_event_flag_clear_def sys_event_flag_get_def Let_def same_flag_def split: if_splits option.splits prod.splits
        dest!: at_store intro!: touched_flag)
  show "sys_event_flag_set e v bits vs k = Some (err, k') \<Longrightarrow> touched k k'"
    by (auto simp: sys_event_flag_set_def Let_def split: if_splits option.splits dest!: at_store(6) flag_ops_same(4) intro!: touched_flag)
  show "sys_event_flag_cancel e v k = Some (err, num, k') \<Longrightarrow> touched k k'"
    by (auto simp: sys_event_flag_cancel_def Let_def split: option.splits dest!: at_store(6) flag_ops_same(5) intro!: touched_flag)
qed

definition same_queue :: "lv2_event_queue \<Rightarrow> lv2_event_queue \<Rightarrow> bool" where
  "same_queue x x' \<longleftrightarrow> obj_exists x' = obj_exists x \<and> eq_key x' = eq_key x"

lemma touched_queue: "touched k0 k \<Longrightarrow> store k p = Some (O_event_queue x) \<Longrightarrow> same_queue x x' \<Longrightarrow> touched k0 (put_event_queue p x' k)"
  by (auto simp: same_queue_def intro: touched_puts)

lemma same_queue_refl [simp]: "same_queue x x"
  by (simp add: same_queue_def)

lemma queue_ops_same:
  "eq_send e spus port ev s x = Some out \<Longrightarrow> same_queue x (so_queue out)"
  "eq_receive e n s x = Some (b, s1, x1) \<Longrightarrow> same_queue x x1"
  "eq_expire t s x = Some (s1, x1) \<Longrightarrow> same_queue x x1"
  "eq_cancel_all e s x = Some (mail, s1, x1) \<Longrightarrow> same_queue x x1"
  by (auto simp: eq_send_def eq_receive_def eq_expire_def eq_cancel_all_def same_queue_def Let_def split: if_splits option.splits prod.splits list.splits)

lemma queue_calls_touched:
  "sys_event_queue_tryreceive e v sz k = Some (err, evs, k') \<Longrightarrow> touched k k'"
  "sys_event_queue_receive e vsh v n k = Some (r, k') \<Longrightarrow> touched k k'"
  "sys_event_queue_receive_iter e p n b c k = Some (w, k') \<Longrightarrow> touched k k'"
  "sys_event_queue_drain e v k = (err, k') \<Longrightarrow> touched k k'"
proof -
  show "sys_event_queue_tryreceive e v sz k = Some (err, evs, k') \<Longrightarrow> touched k k'" "sys_event_queue_receive e vsh v n k = Some (r, k') \<Longrightarrow> touched k k'"
    "sys_event_queue_drain e v k = (err, k') \<Longrightarrow> touched k k'"
    by (auto simp: sys_event_queue_tryreceive_def sys_event_queue_receive_def sys_event_queue_drain_def Let_def same_queue_def
        split: if_splits option.splits prod.splits dest!: at_store queue_ops_same(2) intro!: touched_queue)
  show "sys_event_queue_receive_iter e p n b c k = Some (w, k') \<Longrightarrow> touched k k'"
    by (auto simp: sys_event_queue_receive_iter_def split: option.splits lv2_object.splits dest!: wait_iter_same [where P = "same_queue _"] intro: queue_ops_same intro!: touched_queue)
qed

lemma port_calls_touched:
  "sys_event_port_connect_local e v qid k = (err, k') \<Longrightarrow> touched k k'"
  "sys_event_port_disconnect e v k = (err, k') \<Longrightarrow> touched k k'"
  "port_send_end e p stopped k = Some (err, k') \<Longrightarrow> touched k k'"
  by (auto simp: sys_event_port_connect_local_def port_connect_def sys_event_port_disconnect_def port_send_end_def Let_def
      split: if_splits option.splits prod.splits lv2_object.splits dest!: at_store intro!: touched_port)

lemma port_connect_ipc_touched:
  assumes w: "kernel_wf k" and c: "sys_event_port_connect_ipc e v key k = (err, k')"
  shows "touched k k'"
proof -
  have q: "\<exists>z. store k q = Some (O_event_queue z)" if "queue_find key (enter e k) = Some q" for q
  proof -
    have "ipc k event_queue_base_id key = Some (Some q)" using that by (auto simp: queue_find_def ipc_get_def enter_def split: if_splits option.splits)
    then have "\<exists>x. shapes_of (store k) q = Some x \<and> sh_class x = event_queue_base_id" using objects_wfD(4) [OF kernel_wfD(1) [OF w]] by blast
    then show ?thesis by (auto simp: shapes_of_def obj_class_def split: lv2_object.splits)
  qed
  show ?thesis using c q
    by (fastforce simp: sys_event_port_connect_ipc_def port_connect_def Let_def split: if_splits option.splits prod.splits dest!: at_store(8) intro!: touched_port)
qed

lemma port_send_touched:
  assumes s: "sys_event_port_send e spus pid restored v d1 d2 d3 k = Some (r, mail, k')"
  shows "touched k k'"
proof (cases "event_port_at v (enter e k)")
  case None
  then show ?thesis using s by (auto simp: sys_event_port_send_def)
next
  case (Some px)
  obtain p x where at: "event_port_at v (enter e k) = Some (p, x)" using Some by (cases px) auto
  have st: "store k p = Some (O_event_port x)" using at_store(8) [OF at] by simp
  show ?thesis
  proof (cases "\<exists>q y. \<not> restored \<and> port_queue x = Some q \<and> store k q = Some (O_event_queue y) \<and> obj_exists y \<noteq> 0")
    case False
    then show ?thesis using s at st by (auto simp: sys_event_port_send_def Let_def split: if_splits option.splits lv2_object.splits intro!: touched_port)
  next
    case True
    then obtain q y where q: "\<not> restored" "port_queue x = Some q" "store k q = Some (O_event_queue y)" "obj_exists y \<noteq> 0" by blast
    then obtain out where out: "eq_send e spus (eq_type y = SYS_PPU_QUEUE) (event_source pid v x, d1, d2, d3) (sched (enter e k)) y = Some out"
      and k': "k' = (let k2 = put_event_queue q (so_queue out) ((enter e k)\<lparr>sched := so_lv2 out\<rparr>) in
         if so_notified out then put_event_port p (x\<lparr>is_busy := is_busy x + 1\<rparr>) k2 else k2)"
      using s at by (auto simp: sys_event_port_send_def Let_def split: if_splits)
    let ?k2 = "put_event_queue q (so_queue out) ((enter e k)\<lparr>sched := so_lv2 out\<rparr>)"
    have 1: "touched k ?k2" using q(3) queue_ops_same(1) [OF out] by (intro touched_queue) auto
    have "store ?k2 p = Some (O_event_port x)" using st q(3) by (auto simp: put_event_queue_def)
    then have "touched k (put_event_port p (x\<lparr>is_busy := is_busy x + 1\<rparr>) ?k2)" using 1 by (intro touched_port) auto
    then show ?thesis using 1 k' by (simp add: Let_def)
  qed
qed

section \<open>Lightweight mutexes and condition variables\<close>

lemma lwmutex_ops_same:
  "lw_poll x = (g, x1) \<Longrightarrow> obj_exists x1 = obj_exists x"
  "lw_try_own t wo s x = Some (g, s1, x1) \<Longrightarrow> obj_exists x1 = obj_exists x"
  "lw_try_unlock cas u2 x = (b, x1) \<Longrightarrow> obj_exists x1 = obj_exists x"
  "lw_reown u2 s x = (f, x1) \<Longrightarrow> obj_exists x1 = obj_exists x"
  "lw_expire t s x = Some (s1, x1) \<Longrightarrow> obj_exists x1 = obj_exists x"
  "lw_trylock x = (b, x1) \<Longrightarrow> obj_exists x1 = obj_exists x"
  by (auto simp: lw_poll_def lw_try_own_def lw_try_unlock_def lw_reown_def lw_expire_def lw_trylock_def split: if_splits option.splits prod.splits)

lemma lw_lock_begin_same: "lw_lock_begin e n s x = Some (b, s1, x1) \<Longrightarrow> obj_exists x1 = obj_exists x"
  by (auto simp: lw_lock_begin_def lw_poll_def split: if_splits option.splits prod.splits dest: lwmutex_ops_same)

lemma lw_unlock_same: "lw_unlock e cas u2 s x = Some (s1, x1) \<Longrightarrow> obj_exists x1 = obj_exists x"
  by (auto simp: lw_unlock_def split: bool.splits option.splits prod.splits dest!: lwmutex_ops_same)

lemma lwmutex_calls_touched:
  "sys_lwmutex_lock_syscall e v n k = Some (r, k') \<Longrightarrow> touched k k'"
  "sys_lwmutex_lock_iter e p n b c k = Some (w, k') \<Longrightarrow> touched k k'"
  "sys_lwmutex_trylock_syscall e v k = (err, k') \<Longrightarrow> touched k k'"
  "sys_lwmutex_unlock_syscall e u2 v cas k = Some (err, k') \<Longrightarrow> touched k k'"
  "lwmutex_destroy_wait e p stopped k = Some (w, k') \<Longrightarrow> touched k k'"
proof -
  show "sys_lwmutex_lock_syscall e v n k = Some (r, k') \<Longrightarrow> touched k k'" "sys_lwmutex_trylock_syscall e v k = (err, k') \<Longrightarrow> touched k k'"
    "sys_lwmutex_unlock_syscall e u2 v cas k = Some (err, k') \<Longrightarrow> touched k k'"
    by (auto simp: sys_lwmutex_lock_syscall_def sys_lwmutex_trylock_syscall_def sys_lwmutex_unlock_syscall_def Let_def split: option.splits prod.splits
        dest!: at_store(9) lw_lock_begin_same lwmutex_ops_same(6) lw_unlock_same intro!: touched_puts(7))
  show "sys_lwmutex_lock_iter e p n b c k = Some (w, k') \<Longrightarrow> touched k k'"
    by (auto simp: sys_lwmutex_lock_iter_def split: option.splits lv2_object.splits
        dest!: wait_iter_same [where P = "\<lambda>x1. obj_exists x1 = obj_exists _"] intro: lwmutex_ops_same(5) intro!: touched_puts(7))
  show "lwmutex_destroy_wait e p stopped k = Some (w, k') \<Longrightarrow> touched k k'"
    by (auto simp: lwmutex_destroy_wait_def split: option.splits lv2_object.splits if_splits)
qed

text \<open>A pair of a condition variable and a mutex, as the results of the operations on both.\<close>

definition same_pair :: "lv2_lwcond \<Rightarrow> lv2_lwmutex \<Rightarrow> lv2_lwcond \<Rightarrow> lv2_lwmutex \<Rightarrow> bool" where
  "same_pair c m c' m' \<longleftrightarrow> obj_exists c' = obj_exists c \<and> obj_exists m' = obj_exists m"

lemma lwcond_drain_same: "lwcond_drain mode pr n q s m = Some (n1, s1, m1) \<Longrightarrow> obj_exists m1 = obj_exists m"
proof -
  have "lwcond_drain mode pr n q s m = Some y \<Longrightarrow> obj_exists (snd (snd y)) = obj_exists m" for y
  proof (rule lwcond_drain.raw_induct [where P = "\<lambda>mode pr n q s m y. obj_exists (snd (snd y)) = obj_exists m"])
    fix f mode pr n q s m y
    assume 1: "\<And>mode pr n q s m y. f mode pr n q s m = Some y \<Longrightarrow> obj_exists (snd (snd y)) = obj_exists m"
      "(case schedule (ppus s) pr q of (None, _) \<Rightarrow> Some (n, s, m)
        | (Some t, q1) \<Rightarrow>
          if mode = 1 then (case lw_try_own t True s m of None \<Rightarrow> None | Some (_, s1, m1) \<Rightarrow> f mode pr (n + 1) q1 s1 m1)
          else f mode pr (n + 1) q1 (append_awake t (if mode = 2 then set_gpr t 3 CELL_EBUSY s else s)) m) = Some y"
    obtain x q1 where sc: "schedule (ppus s) pr q = (x, q1)" by force
    show "obj_exists (snd (snd y)) = obj_exists m"
    proof (cases x)
      case (Some t)
      show ?thesis
      proof (cases "mode = 1")
        case True
        then obtain g s1 m1 where "lw_try_own t True s m = Some (g, s1, m1)" "f mode pr (n + 1) q1 s1 m1 = Some y"
          using 1(2) sc Some by (auto split: option.splits)
        then show ?thesis using 1(1) [of mode pr "n + 1" q1 s1 m1 y] lwmutex_ops_same(2) [of t True s m g s1 m1] by simp
      qed (use 1 sc Some in auto)
    qed (use 1(2) sc in auto)
  qed
  then show "lwcond_drain mode pr n q s m = Some (n1, s1, m1) \<Longrightarrow> obj_exists m1 = obj_exists m" by fastforce
qed

lemma lwcond_deliver_same: "lwcond_deliver e mode t s m = Some (b, s1, m1) \<Longrightarrow> obj_exists m1 = obj_exists m"
proof -
  assume d: "lwcond_deliver e mode t s m = Some (b, s1, m1)"
  consider "mode = 2" | "mode = 3" "lwm_sq m \<noteq> []" | "mode = 1" | "mode \<noteq> 1" "mode \<noteq> 2" "\<not> (mode = 3 \<and> lwm_sq m \<noteq> [])" by blast
  then show ?thesis
  proof cases
    case 2
    then obtain g s2 m2 f m3 where "lw_try_own t True s m = Some (g, s2, m2)" "lw_reown False s2 m2 = (f, m3)" "m1 = m3"
      using d by (auto simp: lwcond_deliver_def split: option.splits prod.splits if_splits)
    then show ?thesis using lwmutex_ops_same(2,4) by metis
  next
    case 3
    then show ?thesis using d lwmutex_ops_same(2) by (auto simp: lwcond_deliver_def)
  qed (use d in \<open>auto simp: lwcond_deliver_def\<close>)
qed

lemma lwcond_pick_same: "lwcond_pick target s c = (b, t, c1) \<Longrightarrow> obj_exists c1 = obj_exists c"
  by (auto simp: lwcond_pick_def split: if_splits option.splits prod.splits)

lemma lwcond_ops_same:
  "lwcond_signal e mode target s c m = Some (ok, s1, c1, m1) \<Longrightarrow> same_pair c m c1 m1"
  "lwcond_signal_all e mode s c m = Some (n, s1, c1, m1) \<Longrightarrow> same_pair c m c1 m1"
  "lwcond_wait_begin e t restored im cas s c m = Some (s1, c1, m1) \<Longrightarrow> same_pair c m c1 m1"
  "lwcond_expire u s (c, m) = Some (s1, c1, m1) \<Longrightarrow> same_pair c m c1 m1"
proof -
  show "lwcond_signal e mode target s c m = Some (ok, s1, c1, m1) \<Longrightarrow> same_pair c m c1 m1"
    by (auto simp: lwcond_signal_def same_pair_def split: if_splits option.splits prod.splits bool.splits dest!: lwcond_pick_same lwcond_deliver_same)
  show "lwcond_signal_all e mode s c m = Some (n, s1, c1, m1) \<Longrightarrow> same_pair c m c1 m1"
    by (auto simp: lwcond_signal_all_def same_pair_def split: if_splits option.splits prod.splits dest!: lwcond_drain_same)
  show "lwcond_expire u s (c, m) = Some (s1, c1, m1) \<Longrightarrow> same_pair c m c1 m1"
    by (auto simp: lwcond_expire_def same_pair_def split: option.splits prod.splits)
  have enq: "lwcond_enqueue t im s c m = Some (s1, c1, m1) \<Longrightarrow> same_pair c m c1 m1" for t im s c m s1 c1 m1
    by (auto simp: lwcond_enqueue_def same_pair_def split: if_splits prod.splits dest!: lwmutex_ops_same)
  have rel: "lwcond_release e cas s c m = Some (b, s1, c1, m1) \<Longrightarrow> same_pair c m c1 m1" for b s c m s1 c1 m1
    by (auto simp: lwcond_release_def same_pair_def uncount_waiter_def split: if_splits option.splits prod.splits bool.splits dest!: lwmutex_ops_same)
  assume "lwcond_wait_begin e t restored im cas s c m = Some (s1, c1, m1)"
  then obtain s2 c2 m2 where 2: "lwcond_enqueue (cur e) im s (fst (count_waiter c m)) (snd (count_waiter c m)) = Some (s2, c2, m2)"
    "same_pair c2 m2 c1 m1"
    by (auto simp: lwcond_wait_begin_def same_pair_def [of c1 m1] split: prod.splits option.splits if_splits bool.splits dest!: rel)
  then show "same_pair c m c1 m1" using enq [OF 2(1)] by (simp add: same_pair_def count_waiter_def)
qed

lemma touched_pair:
  assumes k: "touched k0 k" "store k p = Some (O_lwcond c)" and m: "\<And>q. mp = Some q \<Longrightarrow> store k q = Some (O_lwmutex m)"
    and s: "same_pair c m c' m'"
  shows "touched k0 (put_lwcond_pair p mp s1 c' m' k)"
proof -
  let ?k = "put_lwcond p c' (k\<lparr>sched := s1\<rparr>)"
  have 1: "touched k0 ?k" using k s by (intro touched_puts(8)) (auto simp: same_pair_def)
  have "store ?k q = Some (O_lwmutex m)" if "mp = Some q" for q using m [OF that] k(2) by (auto simp: put_lwcond_def)
  then show ?thesis using 1 s by (auto simp: put_lwcond_pair_def Let_def same_pair_def split: option.splits intro!: touched_puts(7))
qed

lemma lwcond_pair_store:
  assumes "lwcond_pair mode v mv k = Some (p, c, pm)"
  shows "store k p = Some (O_lwcond c)" "map_option fst pm = Some q \<Longrightarrow> store k q = Some (O_lwmutex (pair_mutex pm))"
  using assms by (auto simp: lwcond_pair_def pair_mutex_def split: option.splits if_splits dest: at_store)

lemma pair_touched:
  "lwcond_pair mode v mv k = Some (p, c, pm) \<Longrightarrow> touched k0 k \<Longrightarrow> same_pair c (pair_mutex pm) c' m'
    \<Longrightarrow> touched k0 (put_lwcond_pair p (map_option fst pm) s1 c' m' k)"
  using lwcond_pair_store by (intro touched_pair) auto

lemma lwcond_calls_touched:
  "sys_lwcond_signal_syscall e v mv target mode stopped k = Some (r, k') \<Longrightarrow> touched k k'"
  "sys_lwcond_signal_all_syscall e v mv mode stopped k = Some (r, k') \<Longrightarrow> touched k k'"
  "sys_lwcond_queue_wait e v mv n restored im cas k = Some (r', k') \<Longrightarrow> touched k k'"
  "sys_lwcond_queue_wait_iter e p mp n to cs k = Some (w, k') \<Longrightarrow> touched k k'"
  "sys_lwcond_queue_wait_end e p mp k = Some (err, b1, b2, k') \<Longrightarrow> touched k k'"
  "lwcond_destroy_wait e p stopped k = Some (w, k') \<Longrightarrow> touched k k'"
proof -
  show "sys_lwcond_signal_syscall e v mv target mode stopped k = Some (r, k') \<Longrightarrow> touched k k'"
    by (auto simp: sys_lwcond_signal_syscall_def Let_def split: if_splits option.splits dest!: lwcond_ops_same(1) intro!: pair_touched)
  show "sys_lwcond_signal_all_syscall e v mv mode stopped k = Some (r, k') \<Longrightarrow> touched k k'"
    by (auto simp: sys_lwcond_signal_all_syscall_def Let_def split: if_splits option.splits dest!: lwcond_ops_same(2) intro!: pair_touched)
  show "sys_lwcond_queue_wait e v mv n restored im cas k = Some (r', k') \<Longrightarrow> touched k k'"
    by (auto simp: sys_lwcond_queue_wait_def Let_def split: if_splits option.splits dest!: lwcond_ops_same(3) intro!: pair_touched)
  show "sys_lwcond_queue_wait_iter e p mp n to cs k = Some (w, k') \<Longrightarrow> touched k k'"
    by (auto simp: sys_lwcond_queue_wait_iter_def same_pair_def split: option.splits lv2_object.splits
        dest!: wait_iter_same [where P = "\<lambda>(c1, m1). same_pair _ _ c1 m1"] intro: lwcond_ops_same(4) intro!: touched_pair)
  show "sys_lwcond_queue_wait_end e p mp k = Some (err, b1, b2, k') \<Longrightarrow> touched k k'"
    by (auto simp: sys_lwcond_queue_wait_end_def uncount_waiter_def same_pair_def split: option.splits lv2_object.splits intro!: touched_pair)
  show "lwcond_destroy_wait e p stopped k = Some (w, k') \<Longrightarrow> touched k k'"
    by (auto simp: lwcond_destroy_wait_def split: option.splits lv2_object.splits if_splits)
qed

section \<open>Creation and destruction\<close>

lemma wf_sched [simp]: "kernel_wf (enter e k) = kernel_wf k" "kernel_wf (k\<lparr>sched := s\<rparr>) = kernel_wf k"
  by (simp_all add: kernel_wf_def enter_def)

lemmas new_defs = new_sema_def new_mutex_def new_cond_def new_rwlock_def new_event_flag_def new_event_queue_def new_event_port_def new_lwmutex_def new_lwcond_def

lemma create_calls_wf:
  assumes w: "kernel_wf k"
  shows "sys_semaphore_create e ip a iv mv k = Some (err, i, k') \<Longrightarrow> kernel_wf k'"
    and "sys_mutex_create e ip a' k = Some (err, i, k') \<Longrightarrow> kernel_wf k'"
    and "sys_rwlock_create e ip a'' k = Some (err, i, k') \<Longrightarrow> kernel_wf k'"
    and "sys_event_flag_create e ip fa init k = Some (err, i, k') \<Longrightarrow> kernel_wf k'"
    and "sys_event_queue_create e qa key sz k = Some (err, i, k') \<Longrightarrow> kernel_wf k'"
proof -
  have w': "kernel_wf (enter e k)" using w by simp
  show "sys_semaphore_create e ip a iv mv k = Some (err, i, k') \<Longrightarrow> kernel_wf k'"
    using w' by (auto simp: sys_semaphore_create_def Let_def split: option.splits if_splits elim!: create_wf [OF w', rotated -1] simp: shareable_def shape_defs new_defs get_key_def)
  show "sys_mutex_create e ip a' k = Some (err, i, k') \<Longrightarrow> kernel_wf k'"
    using w' by (auto simp: sys_mutex_create_def Let_def split: option.splits if_splits elim!: create_wf [OF w', rotated -1] simp: shareable_def shape_defs new_defs get_key_def)
  show "sys_rwlock_create e ip a'' k = Some (err, i, k') \<Longrightarrow> kernel_wf k'"
    using w' by (auto simp: sys_rwlock_create_def Let_def split: option.splits if_splits elim!: create_wf [OF w', rotated -1] simp: shareable_def shape_defs new_defs get_key_def)
  show "sys_event_flag_create e ip fa init k = Some (err, i, k') \<Longrightarrow> kernel_wf k'"
    using w' by (auto simp: sys_event_flag_create_def Let_def split: option.splits if_splits elim!: create_wf [OF w', rotated -1] simp: shareable_def shape_defs new_defs get_key_def)
  show "sys_event_queue_create e qa key sz k = Some (err, i, k') \<Longrightarrow> kernel_wf k'"
    using w' by (auto simp: sys_event_queue_create_def Let_def split: option.splits if_splits elim!: create_wf [OF w', rotated -1] simp: shareable_def shape_defs new_defs get_key_def)
qed

lemma at_class:
  assumes w: "kernel_wf k" and at: "obj_at b v k = Some (p, x)" and b: "good_base b"
  shows "obj_class x = b" "shareable b \<Longrightarrow> get_exists x \<noteq> 0"
proof -
  note D = objects_wfD [OF kernel_wfD(1) [OF w]]
  have "idm_get (lv2_traits b) v (ids k) = Some p" "store k p = Some x" using at by (auto simp: obj_at_def split: option.splits)
  then obtain i where i: "i < 8192" "vec_data (ids k) ! i = Some p" "vec_keys (ids k) ! i = \<lparr>m_value = v, m_base = b\<rparr>" and x: "store k p = Some x"
    using idm_get_iff [OF D(1) b] by blast
  show c: "obj_class x = b" using D(2) [OF i(1,2)] i(3) x by (simp add: shapes_of_def)
  show "get_exists x \<noteq> 0" if "shareable b"
    using slot_exists [OF kernel_wfD(1) [OF w], of i p "shape_of x"] i(1,2) x c that by (simp add: slots_def shapes_of_def)
qed

lemma cond_create_wf:
  assumes w: "kernel_wf k" and c: "sys_cond_create e mid a k = Some (err, i, k')"
  shows "kernel_wf k'"
proof (cases "mutex_at mid (enter e k)")
  case None
  then show ?thesis using c w by (auto simp: sys_cond_create_def Let_def)
next
  case (Some px)
  then obtain p x where at: "mutex_at mid (enter e k) = Some (p, x)" by (cases px) auto
  then have "obj_at mutex_base_id mid k = Some (p, O_mutex x)" by (auto simp: mutex_at_def split: option.splits lv2_object.splits)
  then have x: "store k p = Some (O_mutex x)" "obj_exists x \<noteq> 0"
    using at_class(2) [OF w, of mutex_base_id mid p] at_store(2) [OF at] by (simp_all add: shareable_def get_exists_def)
  let ?key = "get_key (ca_pshared a) (ca_ipc_key a)"
  obtain err' where "create cond_base_id (ca_pshared a) ?key (ca_flags a) (\<lambda>_. O_cond (new_cond ?key (ca_name a) mid p)) True (enter e k) = Some (err', k')"
    using c at by (auto simp: sys_cond_create_def Let_def split: option.splits if_splits)
  then show ?thesis
    by (rule create_wf [rotated -1]) (use w x in \<open>auto simp: shareable_def shape_defs new_defs get_key_def\<close>)
qed

lemma make_calls_wf:
  assumes w: "kernel_wf k"
  shows "sys_event_port_create e ty name k = Some (err, i, k') \<Longrightarrow> kernel_wf k'"
    and "sys_lwmutex_create_syscall e pr ctl hn name k = Some (err, i, k') \<Longrightarrow> kernel_wf k'"
    and "sys_lwcond_create_syscall e lid ctl name k = Some (err, i, k') \<Longrightarrow> kernel_wf k'"
proof -
  have w': "kernel_wf (enter e k)" using w by simp
  have port: "make_obj event_port_base_id (\<lambda>_. O_event_port (new_event_port ty name)) (enter e k) = Some (v, k2) \<Longrightarrow> kernel_wf k2" for ty v k2
    by (rule make_wf [OF w']) (auto simp: shareable_def shape_defs new_defs)
  have lwm: "make_obj lwmutex_base_id (\<lambda>_. O_lwmutex (new_lwmutex pr ctl nm)) (enter e k) = Some (v, k2) \<Longrightarrow> kernel_wf k2" for pr v k2 nm
    by (rule make_wf [OF w']) (auto simp: shareable_def shape_defs new_defs)
  have lwc: "make_obj lwcond_base_id (\<lambda>_. O_lwcond (new_lwcond name lid pt ctl)) (enter e k) = Some (v, k2) \<Longrightarrow> kernel_wf k2" for v k2 pt
    by (rule make_wf [OF w']) (auto simp: shareable_def shape_defs new_defs)
  show "sys_event_port_create e ty name k = Some (err, i, k') \<Longrightarrow> kernel_wf k'"
    using w' by (auto simp: sys_event_port_create_def Let_def split: option.splits if_splits dest: port)
  show "sys_lwmutex_create_syscall e pr ctl hn name k = Some (err, i, k') \<Longrightarrow> kernel_wf k'"
    using w' by (auto simp: sys_lwmutex_create_syscall_def Let_def split: option.splits if_splits dest: lwm)
  show "sys_lwcond_create_syscall e lid ctl name k = Some (err, i, k') \<Longrightarrow> kernel_wf k'"
    using w' by (auto simp: sys_lwcond_create_syscall_def Let_def split: option.splits if_splits) (erule lwc)+
qed

text \<open>The end of an id of an object that can be shared.\<close>

lemma destroy_dropped:
  assumes w: "kernel_wf k" and x: "store k p = Some x" "plain x" "shareable (obj_class x)"
  shows "dropped p x k (on_id_destroy (obj_class x) p (obj_key x) k)"
proof -
  have m: "sh_mutex (shape_of x) = None" using x(2) by (cases x) (simp_all add: shape_of_def)
  have "shapes_of ((store k)(p \<mapsto> set_exists (get_exists x - 1) x)) = drop_handle p (shapes_of (store k))"
    using x m by (auto simp: shapes_upd drop_handle_def shapes_of_def set_exists_shape fun_eq_iff map_option_case split: option.splits)
  moreover have "ports_kept (store k) ((store k)(p \<mapsto> set_exists (get_exists x - 1) x))"
    using x by (intro ports_kept_put) (auto simp: set_exists_shape shareable_def set_exists_def obj_class_def split: lv2_object.splits)
  moreover have "ipc (on_id_destroy (obj_class x) p (obj_key x) k) = drop_key (shape_of x) (ipc k)"
    using x by (simp add: on_id_destroy_def drop_key_def Let_def ipc_remove_def shape_of_def)
  ultimately show ?thesis using on_id_destroy_sel(1) [OF x(1)] w x(1) by (auto simp: dropped_def kernel_wf_def on_id_destroy_sel(2,4))
qed

lemma simple_destroy_wf:
  assumes w: "kernel_wf k" and b: "shareable b" "b \<noteq> cond_base_id" and wd: "withdraw_obj b v f k = (r, k')"
    and f: "\<And>p x err k1. store k p = Some x \<Longrightarrow> obj_class x = b \<Longrightarrow> f p k = (err, k1) \<Longrightarrow>
      if err \<noteq> 0 then touched k k1 else k1 = on_id_destroy b p (obj_key x) k \<and> (\<forall>m. x = O_mutex m \<longrightarrow> cond_count m = 0)"
  shows "kernel_wf k'"
proof (rule withdraw_wf [OF w shareable_good [OF b(1)] wd])
  fix p x err k1 assume x: "store k p = Some x" "obj_class x = b" "f p k = (err, k1)"
  have p: "plain x" using x(2) b(2) by (cases x) (simp_all add: obj_class_def)
  show "ids k1 = ids k \<and> (if err \<noteq> 0 then kernel_wf k1 else dropped p x k k1 \<and> (\<forall>m. x = O_mutex m \<longrightarrow> cond_count m = 0))"
    using f [OF x] touched_wf [OF w, of k1] destroy_dropped [OF w x(1) p] b(1) x(2) by (auto simp: touched_def dropped_def split: if_splits)
qed

lemma destroy_calls_wf:
  assumes w: "kernel_wf k"
  shows "sys_semaphore_destroy e v k = (err, k') \<Longrightarrow> kernel_wf k'"
    and "sys_mutex_destroy e v k = (err, k') \<Longrightarrow> kernel_wf k'"
    and "sys_rwlock_destroy e v k = (err, k') \<Longrightarrow> kernel_wf k'"
    and "sys_event_flag_destroy e v k = (err, k') \<Longrightarrow> kernel_wf k'"
proof -
  have w': "kernel_wf (enter e k)" using w by simp
  note d = simple_destroy_wf [OF w', where v = v]
  have obj: "\<exists>r. withdraw_obj b v f (enter e k) = (r, k')" if "(case withdraw_obj b v f (enter e k) of (None, k1) \<Rightarrow> (CELL_ESRCH, k1) | (Some (p, err), k1) \<Rightarrow> (err, k1)) = (err, k')" for b f
    using that by (auto split: prod.splits option.splits)
  show "sys_semaphore_destroy e v k = (err, k') \<Longrightarrow> kernel_wf k'"
    unfolding sys_semaphore_destroy_def
    by (drule obj, erule exE, erule d [rotated 2]) (auto simp: shareable_def obj_class_def obj_key_def split: if_splits lv2_object.splits)
  show "sys_mutex_destroy e v k = (err, k') \<Longrightarrow> kernel_wf k'"
    unfolding sys_mutex_destroy_def
    by (drule obj, erule exE, erule d [rotated 2]) (auto simp: shareable_def obj_class_def obj_key_def split: if_splits lv2_object.splits)
  show "sys_rwlock_destroy e v k = (err, k') \<Longrightarrow> kernel_wf k'"
    unfolding sys_rwlock_destroy_def
    by (drule obj, erule exE, erule d [rotated 2]) (auto simp: shareable_def obj_class_def obj_key_def split: if_splits lv2_object.splits)
  show "sys_event_flag_destroy e v k = (err, k') \<Longrightarrow> kernel_wf k'"
    unfolding sys_event_flag_destroy_def
    by (drule obj, erule exE, erule d [rotated 2]) (auto simp: shareable_def obj_class_def obj_key_def split: if_splits lv2_object.splits)
qed

lemma cond_destroy_wf:
  assumes w: "kernel_wf k" and d: "sys_cond_destroy e v k = (err, k')"
  shows "kernel_wf k'"
proof -
  have w': "kernel_wf (enter e k)" using w by simp
  let ?f = "\<lambda>p k1. case store k1 p of
       Some (O_cond c) \<Rightarrow>
         (case store k1 (cond_mutex c) of
            Some (O_mutex m) \<Rightarrow>
              if cond_sq c \<noteq> [] then (CELL_EBUSY, k1)
              else (CELL_OK, on_id_destroy cond_base_id p (cond_key c) (put_mutex (cond_mutex c) (m\<lparr>cond_count := cond_count m - 1\<rparr>) k1))
          | _ \<Rightarrow> (CELL_ESRCH, k1))
     | _ \<Rightarrow> (CELL_ESRCH, k1)"
  obtain r where wd: "withdraw_obj cond_base_id v ?f (enter e k) = (r, k')"
    using d unfolding sys_cond_destroy_def by (auto split: prod.splits option.splits)
  show ?thesis
  proof (rule withdraw_wf [OF w' good_bases(3) wd])
    fix p x k1 and err :: error_code
    let ?k = "enter e k"
    assume x: "store ?k p = Some x" "obj_class x = cond_base_id" "?f p ?k = (err, k1)"
    then obtain c where c: "x = O_cond c" by (cases x) (simp_all add: obj_class_def)
    show "ids k1 = ids ?k \<and> (if err \<noteq> 0 then kernel_wf k1 else dropped p x ?k k1 \<and> (\<forall>m. x = O_mutex m \<longrightarrow> cond_count m = 0))"
    proof (cases "\<exists>m. store ?k (cond_mutex c) = Some (O_mutex m) \<and> cond_sq c = []")
      case False
      then show ?thesis using x c w by (auto split: option.splits lv2_object.splits if_splits)
    next
      case True
      then obtain m where m: "store k (cond_mutex c) = Some (O_mutex m)" "cond_sq c = []" by auto
      let ?km = "put_mutex (cond_mutex c) (m\<lparr>cond_count := cond_count m - 1\<rparr>) ?k"
      have k1: "err = 0" "k1 = on_id_destroy cond_base_id p (cond_key c) ?km" using x c m by simp_all
      have cp: "cond_mutex c \<noteq> p" using x(1) c m(1) by auto
      have st: "store ?km p = Some x" using x(1) cp by (simp add: put_mutex_def)
      have "shapes_of (store k1) = drop_handle p (shapes_of (store k))"
        using x(1) c m cp unfolding k1(2) on_id_destroy_sel(1) [OF st]
        by (auto simp: put_mutex_def drop_handle_def shapes_of_def fun_eq_iff shape_defs set_exists_def shareable_def option.map_ident split: option.splits)
      moreover have "ports_kept (store k) (store k1)"
      proof -
        have "ports_kept (store k) (store ?km)" unfolding put_mutex_def using m(1) by (auto intro!: ports_kept_put simp: obj_class_def)
        moreover have "ports_kept (store ?km) (store k1)" unfolding k1(2) on_id_destroy_sel(1) [OF st]
          using st c by (intro ports_kept_put) (auto simp: set_exists_def obj_class_def)
        ultimately show ?thesis by (rule ports_kept_trans)
      qed
      moreover have "ipc k1 = drop_key (shape_of x) (ipc k)"
        using c st unfolding k1(2) by (simp add: on_id_destroy_def drop_key_def Let_def ipc_remove_def shape_defs shareable_def put_mutex_def enter_def)
      moreover have "\<forall>p'\<ge>store_top k1. store k1 p' = None"
        using w m(1) x(1) unfolding k1(2) on_id_destroy_sel(1) [OF st] by (auto simp: on_id_destroy_sel put_mutex_def kernel_wf_def enter_def)
      ultimately show ?thesis using k1 c by (auto simp: dropped_def on_id_destroy_sel put_mutex_def enter_def)
    qed
  qed
qed

lemma dropped_uncounted:
  assumes "store k p = Some x" "\<not> shareable (obj_class x)" "touched k k1" "ports_kept (store k) (store k1)" "kernel_wf k"
  shows "dropped p x k k1"
proof -
  have "sh_mutex (shape_of x) = None" using assms(2) by (cases x) (simp_all add: shape_of_def shareable_def obj_class_def)
  then have "drop_handle p (shapes_of (store k)) = shapes_of (store k)" "drop_key (shape_of x) (ipc k) = ipc k"
    using uncounted [of "shapes_of (store k)" p "shape_of x"] assms(1,2) by (simp_all add: shapes_of_def)
  moreover have "\<forall>p'\<ge>store_top k1. store k1 p' = None" using touched_wf [OF assms(5,3)] by (simp add: kernel_wf_def)
  ultimately show ?thesis using assms(3,4) by (simp add: dropped_def touched_def)
qed

lemma lwmutex_destroy_wf:
  assumes w: "kernel_wf k" and d: "lwmutex_destroy_round e v prev k = Some (r, k')"
  shows "kernel_wf k'"
proof -
  let ?f = "\<lambda>p k1. case store k1 p of
      Some (O_lwmutex x) \<Rightarrow>
        if prev \<noteq> None \<and> prev \<noteq> Some p then (CELL_ESRCH, k1)
        else if lwm_sq x \<noteq> [] then (CELL_EBUSY, k1)
        else (let w = lwcond_waiters x OR 0x80000000 in
              (if w \<noteq> 0x80000000 then CELL_EAGAIN else CELL_OK, put_lwmutex p (x\<lparr>lwcond_waiters := w\<rparr>) k1))
    | _ \<Rightarrow> (CELL_ESRCH, k1)"
  obtain q k1 where wd: "withdraw_obj lwmutex_base_id v ?f k = (q, k1)" by force
  have "kernel_wf k1"
  proof (rule withdraw_wf [OF w good_bases(8) wd])
    fix p x k1 and err :: error_code
    assume x: "store k p = Some x" "obj_class x = lwmutex_base_id" "?f p k = (err, k1)"
    then obtain m where m: "x = O_lwmutex m" by (cases x) (simp_all add: obj_class_def)
    have t: "touched k (put_lwmutex p (m\<lparr>lwcond_waiters := u\<rparr>) k)" for u using x(1) m by (intro touched_puts(7)) auto
    have pk: "ports_kept (store k) (store (put_lwmutex p (m\<lparr>lwcond_waiters := u\<rparr>) k))" for u
      unfolding put_lwmutex_def using x(1) m by (auto intro!: ports_kept_put simp: obj_class_def)
    note du = dropped_uncounted [OF x(1) _ t pk w]
    show "ids k1 = ids k \<and> (if err \<noteq> 0 then kernel_wf k1 else dropped p x k k1 \<and> (\<forall>m. x = O_mutex m \<longrightarrow> cond_count m = 0))"
      using x m w touched_wf [OF w t] du by (auto simp: put_lwmutex_def Let_def shareable_def split: if_splits)
  qed
  then show ?thesis using d wd by (auto simp: lwmutex_destroy_round_def split: option.splits if_splits)
qed

lemma lwcond_destroy_wf:
  assumes w: "kernel_wf k" and d: "lwcond_destroy_round e v prev k = Some (r, k')"
  shows "kernel_wf k'"
proof -
  let ?f = "\<lambda>p k1. case store k1 p of
      Some (O_lwcond x) \<Rightarrow>
        if prev \<noteq> None \<and> prev \<noteq> Some p then (CELL_ESRCH, k1)
        else if lwc_sq x \<noteq> [] then (CELL_EBUSY, k1)
        else (let w = lwmutex_waiters x OR 0x80000000 in
              (if w \<noteq> 0x80000000 then CELL_EAGAIN else CELL_OK, put_lwcond p (x\<lparr>lwmutex_waiters := w\<rparr>) k1))
    | _ \<Rightarrow> (CELL_ESRCH, k1)"
  obtain q k1 where wd: "withdraw_obj lwcond_base_id v ?f k = (q, k1)" by force
  have "kernel_wf k1"
  proof (rule withdraw_wf [OF w good_bases(9) wd])
    fix p x k1 and err :: error_code
    assume x: "store k p = Some x" "obj_class x = lwcond_base_id" "?f p k = (err, k1)"
    then obtain m where m: "x = O_lwcond m" by (cases x) (simp_all add: obj_class_def)
    have t: "touched k (put_lwcond p (m\<lparr>lwmutex_waiters := u\<rparr>) k)" for u using x(1) m by (intro touched_puts(8)) auto
    have pk: "ports_kept (store k) (store (put_lwcond p (m\<lparr>lwmutex_waiters := u\<rparr>) k))" for u
      unfolding put_lwcond_def using x(1) m by (auto intro!: ports_kept_put simp: obj_class_def)
    note du = dropped_uncounted [OF x(1) _ t pk w]
    show "ids k1 = ids k \<and> (if err \<noteq> 0 then kernel_wf k1 else dropped p x k k1 \<and> (\<forall>m. x = O_mutex m \<longrightarrow> cond_count m = 0))"
      using x m w touched_wf [OF w t] du by (auto simp: put_lwcond_def Let_def shareable_def split: if_splits)
  qed
  then show ?thesis using d wd by (auto simp: lwcond_destroy_round_def split: option.splits if_splits)
qed

lemma event_destroy_wf:
  assumes w: "kernel_wf k"
  shows "sys_event_port_destroy e v k = (err, k') \<Longrightarrow> kernel_wf k'"
    and "sys_event_queue_destroy e spus v mode k = Some (err, mail, k') \<Longrightarrow> kernel_wf k'"
proof -
  have w': "kernel_wf (enter e k)" using w by simp
  let ?f = "\<lambda>p k1. case store k1 p of
      Some (O_event_port x) \<Rightarrow> if obj_check (port_queue x) (store k1) then (CELL_EISCONN, k1) else (CELL_OK, k1)
    | _ \<Rightarrow> (CELL_ESRCH, k1)"
  assume "sys_event_port_destroy e v k = (err, k')"
  then obtain r where wd: "withdraw_obj event_port_base_id v ?f (enter e k) = (r, k')"
    unfolding sys_event_port_destroy_def by (auto split: prod.splits option.splits)
  show "kernel_wf k'"
  proof (rule withdraw_wf [OF w' good_bases(7) wd])
    fix p x k1 and err :: error_code
    assume x: "store (enter e k) p = Some x" "obj_class x = event_port_base_id" "?f p (enter e k) = (err, k1)"
    then obtain y where y: "x = O_event_port y" by (cases x) (simp_all add: obj_class_def)
    have "dropped p x (enter e k) (enter e k)" using x by (intro dropped_uncounted [OF x(1) _ _ _ w']) (auto simp: shareable_def ports_kept_def)
    then show "ids k1 = ids (enter e k) \<and> (if err \<noteq> 0 then kernel_wf k1 else dropped p x (enter e k) k1 \<and> (\<forall>m. x = O_mutex m \<longrightarrow> cond_count m = 0))"
      using x y w by (auto split: if_splits)
  qed
next
  have w': "kernel_wf (enter e k)" using w by simp
  let ?f = "\<lambda>p k1. case store k1 p of
      Some (O_event_queue x) \<Rightarrow>
        if mode = 0 \<and> eq_head x \<noteq> [] then (CELL_EBUSY, k1)
        else if waiter_again spus (sched k1) x then (CELL_EAGAIN, k1\<lparr>sched := add_flags (cur e) {F_again} (sched k1)\<rparr>)
        else (CELL_OK, on_id_destroy event_queue_base_id p (eq_key x) k1)
    | _ \<Rightarrow> (CELL_ESRCH, k1)"
  obtain r k1 where wd: "withdraw_obj event_queue_base_id v ?f (enter e k) = (r, k1)" by force
  have "kernel_wf k1"
    by (rule simple_destroy_wf [OF w' _ _ wd]) (auto simp: shareable_def obj_class_def obj_key_def split: if_splits lv2_object.splits)
  moreover assume "sys_event_queue_destroy e spus v mode k = Some (err, mail, k')"
  then have "k' = enter e k \<or> touched k1 k'"
    using wd by (auto simp: sys_event_queue_destroy_def Let_def split: if_splits option.splits lv2_object.splits dest!: queue_ops_same(4) intro!: touched_queue)
  ultimately show "kernel_wf k'" using touched_wf w' by blast
qed

section \<open>The kernel as a transition system\<close>

text \<open>
  One rule per system call and per phase of a blocking one, for any caller and any arguments; \<open>k_others\<close> is whatever else
  happens to the threads.
\<close>

inductive kernel_call :: "kernel \<Rightarrow> kernel \<Rightarrow> bool" where
  k_others: "kernel_call k (k\<lparr>sched := s\<rparr>)"
| k_sema_create: "sys_semaphore_create e ip a1 iv mv k = Some (err, i, k') \<Longrightarrow> kernel_call k k'"
| k_sema_destroy: "sys_semaphore_destroy e v k = (err, k') \<Longrightarrow> kernel_call k k'"
| k_sema_wait: "sys_semaphore_wait e v n k = Some (r, k') \<Longrightarrow> kernel_call k k'"
| k_sema_wait_iter: "sys_semaphore_wait_iter e p n b c k = Some (w, k') \<Longrightarrow> kernel_call k k'"
| k_sema_trywait: "sys_semaphore_trywait e v k = (err, k') \<Longrightarrow> kernel_call k k'"
| k_sema_post: "sys_semaphore_post e v cnt k = Some (err, k') \<Longrightarrow> kernel_call k k'"
| k_sema_get: "sys_semaphore_get_value e v ptr k = (err, val, k') \<Longrightarrow> kernel_call k k'"
| k_mutex_create: "sys_mutex_create e ip a2 k = Some (err, i, k') \<Longrightarrow> kernel_call k k'"
| k_mutex_destroy: "sys_mutex_destroy e v k = (err, k') \<Longrightarrow> kernel_call k k'"
| k_mutex_lock: "sys_mutex_lock e v n cas cs k = Some (r, k') \<Longrightarrow> kernel_call k k'"
| k_mutex_lock_iter: "sys_mutex_lock_iter e p n b c k = Some (w, k') \<Longrightarrow> kernel_call k k'"
| k_mutex_trylock: "sys_mutex_trylock e v cas k = (err, k') \<Longrightarrow> kernel_call k k'"
| k_mutex_unlock: "sys_mutex_unlock e v cas k = Some (err, k') \<Longrightarrow> kernel_call k k'"
| k_cond_create: "sys_cond_create e mid a3 k = Some (err, i, k') \<Longrightarrow> kernel_call k k'"
| k_cond_destroy: "sys_cond_destroy e v k = (err, k') \<Longrightarrow> kernel_call k k'"
| k_cond_signal: "sys_cond_signal e v stopped k = Some (sr, k') \<Longrightarrow> kernel_call k k'"
| k_cond_signal_all: "sys_cond_signal_all e v stopped k = Some (sr, k') \<Longrightarrow> kernel_call k k'"
| k_cond_signal_to: "sys_cond_signal_to e v ex t stopped k = Some (sr, k') \<Longrightarrow> kernel_call k k'"
| k_cond_wait: "sys_cond_wait e v n restored sst k = Some (r, rc, k') \<Longrightarrow> kernel_call k k'"
| k_cond_wait_iter: "sys_cond_wait_iter e p start n b c k = Some (w, n', k') \<Longrightarrow> kernel_call k k'"
| k_cond_wait_end: "sys_cond_wait_end e p rc k = Some (g, k') \<Longrightarrow> kernel_call k k'"
| k_rwlock_create: "sys_rwlock_create e ip a4 k = Some (err, i, k') \<Longrightarrow> kernel_call k k'"
| k_rwlock_destroy: "sys_rwlock_destroy e v k = (err, k') \<Longrightarrow> kernel_call k k'"
| k_rlock: "sys_rwlock_rlock e v n k = Some (r, k') \<Longrightarrow> kernel_call k k'"
| k_rlock_iter: "sys_rwlock_rlock_iter e p n b c k = Some (w, k') \<Longrightarrow> kernel_call k k'"
| k_tryrlock: "sys_rwlock_tryrlock e v k = (err, k') \<Longrightarrow> kernel_call k k'"
| k_runlock: "sys_rwlock_runlock e v k = Some (err, k') \<Longrightarrow> kernel_call k k'"
| k_wlock: "sys_rwlock_wlock e v n k = Some (r, k') \<Longrightarrow> kernel_call k k'"
| k_wlock_iter: "sys_rwlock_wlock_iter e p n b c k = Some (w, k') \<Longrightarrow> kernel_call k k'"
| k_trywlock: "sys_rwlock_trywlock e v k = (err, k') \<Longrightarrow> kernel_call k k'"
| k_wunlock: "sys_rwlock_wunlock e v k = Some (err, k') \<Longrightarrow> kernel_call k k'"
| k_flag_create: "sys_event_flag_create e ip a5 init k = Some (err, i, k') \<Longrightarrow> kernel_call k k'"
| k_flag_destroy: "sys_event_flag_destroy e v k = (err, k') \<Longrightarrow> kernel_call k k'"
| k_flag_wait: "sys_event_flag_wait e v bits mode n k = Some (r, res, k') \<Longrightarrow> kernel_call k k'"
| k_flag_wait_iter: "sys_event_flag_wait_iter e p n b c k = Some (w, res, k') \<Longrightarrow> kernel_call k k'"
| k_flag_trywait: "sys_event_flag_trywait e v bits mode k = (err, res, k') \<Longrightarrow> kernel_call k k'"
| k_flag_set: "sys_event_flag_set e v bits vs k = Some (err, k') \<Longrightarrow> kernel_call k k'"
| k_flag_clear: "sys_event_flag_clear e v bits k = (err, k') \<Longrightarrow> kernel_call k k'"
| k_flag_cancel: "sys_event_flag_cancel e v k = Some (err, num, k') \<Longrightarrow> kernel_call k k'"
| k_flag_get: "sys_event_flag_get e v ptr k = (err, pat, k') \<Longrightarrow> kernel_call k k'"
| k_queue_create: "sys_event_queue_create e a6 key sz k = Some (err, i, k') \<Longrightarrow> kernel_call k k'"
| k_queue_destroy: "sys_event_queue_destroy e spus v dmode k = Some (err, mail, k') \<Longrightarrow> kernel_call k k'"
| k_queue_tryreceive: "sys_event_queue_tryreceive e v sz k = Some (err, evs, k') \<Longrightarrow> kernel_call k k'"
| k_queue_receive: "sys_event_queue_receive e vsh v n k = Some (r, k') \<Longrightarrow> kernel_call k k'"
| k_queue_receive_iter: "sys_event_queue_receive_iter e p n b c k = Some (w, k') \<Longrightarrow> kernel_call k k'"
| k_queue_drain: "sys_event_queue_drain e v k = (err, k') \<Longrightarrow> kernel_call k k'"
| k_port_create: "sys_event_port_create e ty name k = Some (err, i, k') \<Longrightarrow> kernel_call k k'"
| k_port_destroy: "sys_event_port_destroy e v k = (err, k') \<Longrightarrow> kernel_call k k'"
| k_port_connect: "sys_event_port_connect_local e v qid k = (err, k') \<Longrightarrow> kernel_call k k'"
| k_port_connect_ipc: "sys_event_port_connect_ipc e v key k = (err, k') \<Longrightarrow> kernel_call k k'"
| k_port_disconnect: "sys_event_port_disconnect e v k = (err, k') \<Longrightarrow> kernel_call k k'"
| k_port_send: "sys_event_port_send e spus pid restored v d1 d2 d3 k = Some (r, mail, k') \<Longrightarrow> kernel_call k k'"
| k_port_send_end: "port_send_end e p stopped k = Some (err, k') \<Longrightarrow> kernel_call k k'"
| k_lwmutex_create: "sys_lwmutex_create_syscall e pr ctl hn name k = Some (err, i, k') \<Longrightarrow> kernel_call k k'"
| k_lwmutex_destroy: "sys_lwmutex_destroy_syscall e v k = Some (dr, k') \<Longrightarrow> kernel_call k k'"
| k_lwmutex_destroy_round: "lwmutex_destroy_round e v prev k = Some (dr, k') \<Longrightarrow> kernel_call k k'"
| k_lwmutex_destroy_wait: "lwmutex_destroy_wait e p stopped k = Some (w, k') \<Longrightarrow> kernel_call k k'"
| k_lwmutex_lock: "sys_lwmutex_lock_syscall e v n k = Some (r, k') \<Longrightarrow> kernel_call k k'"
| k_lwmutex_lock_iter: "sys_lwmutex_lock_iter e p n b c k = Some (w, k') \<Longrightarrow> kernel_call k k'"
| k_lwmutex_trylock: "sys_lwmutex_trylock_syscall e v k = (err, k') \<Longrightarrow> kernel_call k k'"
| k_lwmutex_unlock: "sys_lwmutex_unlock_syscall e u2 v cas k = Some (err, k') \<Longrightarrow> kernel_call k k'"
| k_lwcond_create: "sys_lwcond_create_syscall e lid ctl name k = Some (err, i, k') \<Longrightarrow> kernel_call k k'"
| k_lwcond_destroy: "sys_lwcond_destroy_syscall e v k = Some (dr, k') \<Longrightarrow> kernel_call k k'"
| k_lwcond_destroy_round: "lwcond_destroy_round e v prev k = Some (dr, k') \<Longrightarrow> kernel_call k k'"
| k_lwcond_destroy_wait: "lwcond_destroy_wait e p stopped k = Some (w, k') \<Longrightarrow> kernel_call k k'"
| k_lwcond_signal: "sys_lwcond_signal_syscall e v mv' target lmode stopped k = Some (sr, k') \<Longrightarrow> kernel_call k k'"
| k_lwcond_signal_all: "sys_lwcond_signal_all_syscall e v mv' lmode stopped k = Some (sr, k') \<Longrightarrow> kernel_call k k'"
| k_lwcond_wait: "sys_lwcond_queue_wait e v mv' n restored im cas k = Some (r, k') \<Longrightarrow> kernel_call k k'"
| k_lwcond_wait_iter: "sys_lwcond_queue_wait_iter e p mp n b c k = Some (w, k') \<Longrightarrow> kernel_call k k'"
| k_lwcond_wait_end: "sys_lwcond_queue_wait_end e p mp k = Some (err, nt1, nt2, k') \<Longrightarrow> kernel_call k k'"

lemmas calls_touched = sema_calls_touched mutex_calls_touched cond_calls_touched rwlock_calls_touched flag_calls_touched queue_calls_touched
  port_calls_touched port_send_touched lwmutex_calls_touched lwcond_calls_touched

lemmas calls_wf = create_calls_wf cond_create_wf make_calls_wf destroy_calls_wf cond_destroy_wf event_destroy_wf lwmutex_destroy_wf lwcond_destroy_wf

lemma lw_destroy_wf:
  assumes "kernel_wf k"
  shows "sys_lwmutex_destroy_syscall e v k = Some (r, k') \<Longrightarrow> kernel_wf k'" "sys_lwcond_destroy_syscall e v k = Some (r, k') \<Longrightarrow> kernel_wf k'"
  unfolding sys_lwmutex_destroy_syscall_def sys_lwcond_destroy_syscall_def
  by - (rule lwmutex_destroy_wf [of "enter e k"], simp_all add: assms, rule lwcond_destroy_wf [of "enter e k"], simp_all add: assms)

lemma kernel_call_wf: "kernel_call k k' \<Longrightarrow> kernel_wf k \<Longrightarrow> kernel_wf k'"
  by (induction rule: kernel_call.induct)
    ((erule touched_wf, erule calls_touched) | (erule calls_wf, assumption) | (erule lw_destroy_wf, assumption)
     | (rule touched_wf, assumption, erule (1) port_connect_ipc_touched) | simp)+

lemma boot_wf: "kernel_wf (boot_kernel n)"
  using no_objects_facts unfolding kernel_wf_def
  by (auto simp: boot_kernel_def shapes_of_def ports_typed_def wf_defs no_objects_def empty_map_def)

lemma runs_wf: "kernel_call\<^sup>*\<^sup>* (boot_kernel n) k \<Longrightarrow> kernel_wf k"
  by (induction rule: rtranclp_induct) (use boot_wf kernel_call_wf in auto)

text \<open>What the invariant says of the objects themselves.\<close>

lemma wf_id:
  assumes "kernel_wf k" "good_base b" "idm_get (lv2_traits b) v (ids k) = Some p"
  obtains x where "store k p = Some x" "obj_class x = b" "shareable b \<Longrightarrow> unat (get_exists x) = card (slots (ids k) p)"
proof -
  note D = objects_wfD [OF kernel_wfD(1) [OF assms(1)]]
  obtain i where i: "i < 8192" "vec_data (ids k) ! i = Some p" "vec_keys (ids k) ! i = \<lparr>m_value = v, m_base = b\<rparr>"
    using idm_get_iff [OF D(1) assms(2)] assms(3) by blast
  obtain x where x: "store k p = Some x" "obj_class x = b" using D(2) [OF i(1,2)] i(3) by (auto simp: shapes_of_def shape_of_def)
  then show ?thesis using D(3) [of p "shape_of x"] that by (simp add: shapes_of_def)
qed

lemma wf_key:
  assumes "kernel_wf k" "ipc_get key (ipc k b) = Some p"
  obtains x where "store k p = Some x" "obj_class x = b" "obj_key x = key" "get_exists x \<noteq> 0"
proof -
  have "ipc k b key = Some (Some p)" using assms(2) by (auto simp: ipc_get_def split: option.splits)
  then obtain y where y: "shapes_of (store k) p = Some y" "sh_class y = b" "sh_key y = key" "sh_exists y \<noteq> 0"
    using objects_wfD(4) [OF kernel_wfD(1) [OF assms(1)]] by blast
  from y(1) obtain x where "store k p = Some x" "y = shape_of x" by (auto simp: shapes_of_def)
  with y(2-4) show ?thesis by (intro that [of x]) (simp_all add: shape_of_def)
qed

lemma wf_cond:
  assumes w: "kernel_wf k" and c: "store k p = Some (O_cond c)"
  obtains m where "store k (cond_mutex c) = Some (O_mutex m)"
    "obj_exists c \<noteq> 0 \<Longrightarrow> obj_exists m \<noteq> 0 \<and> cond_count m \<noteq> 0"
proof -
  note D = objects_wfD [OF kernel_wfD(1) [OF w]]
  let ?h = "shapes_of (store k)"
  have s: "?h p = Some (shape_of (O_cond c))" "sh_mutex (shape_of (O_cond c)) = Some (cond_mutex c)" using c by (simp_all add: shapes_of_def shape_of_def)
  then obtain y where y: "?h (cond_mutex c) = Some y" "sh_class y = mutex_base_id" using D(5) by blast
  then obtain m where m: "store k (cond_mutex c) = Some (O_mutex m)" "y = shape_of (O_mutex m)" using class_mutex by (auto simp: shapes_of_def)
  have "obj_exists m \<noteq> 0 \<and> cond_count m \<noteq> 0" if e: "obj_exists c \<noteq> 0"
  proof -
    have e': "sh_exists (shape_of (O_cond c)) \<noteq> 0" using e by (simp add: shape_defs)
    from live_count [OF kernel_wfD(1) [OF w] s(1) e' s(2) y(1)] show ?thesis by (simp add: m(2) shape_defs)
  qed
  then show ?thesis using m(1) that by blast
qed

lemma wf_port:
  assumes "kernel_wf k" "store k p = Some (O_event_port x)" "port_queue x = Some q"
  obtains y where "store k q = Some (O_event_queue y)"
proof -
  obtain z where "shapes_of (store k) q = Some z" "sh_class z = event_queue_base_id"
    using kernel_wfD(3) [OF assms(1)] assms(2,3) unfolding ports_typed_def by blast
  then show ?thesis using that by (auto simp: shapes_of_def shape_of_def obj_class_def split: lv2_object.splits)
qed

lemma counted_mutex_stays:
  assumes w: "kernel_wf k" and m: "mutex_at v k = Some (p, m)" "cond_count m \<noteq> 0"
  shows "fst (sys_mutex_destroy e v k) \<noteq> CELL_OK"
proof -
  have at: "obj_at mutex_base_id v (enter e k) = Some (p, O_mutex m)" "store (enter e k) p = Some (O_mutex m)"
    using m(1) by (auto simp: mutex_at_def obj_at_def split: option.splits lv2_object.splits)
  have "kernel_inv (enter e k)" using kernel_wfD(2) [OF w] by simp
  then show ?thesis
    using m(2) at(2) by (cases "mtx_owner m = 0") (simp_all add: sys_mutex_destroy_def withdraw_busy [OF _ _ at(1)])
qed

text \<open>C3: The tables of the kernel stay well typed. After any sequence of system calls on semaphores, mutexes, condition
  variables, reader-writer locks, event flags, event queues and ports, lightweight mutexes and lightweight condition
  variables (any caller, any arguments, blocking calls phase by phase, whatever the threads do in between): an id of a class refers to a
  stored object of that class, and for the shareable classes the object's handle count is the number of ids that refer
  to it; an IPC key refers to an object of its class that has this key and a handle left; the mutex of a condition variable is a
  mutex, and while the variable has a handle the mutex has one and counts the variable, so that \<^verbatim>\<open>sys_mutex_destroy\<close> refuses; the
  queue of a connected port is an event queue.
\<close>

theorem kernel_well_typed:
  assumes "kernel_call\<^sup>*\<^sup>* (boot_kernel n) k"
  shows "(\<forall>b v p. good_base b \<longrightarrow> idm_get (lv2_traits b) v (ids k) = Some p \<longrightarrow> (\<exists>x. store k p = Some x \<and> obj_class x = b
        \<and> (shareable b \<longrightarrow> unat (get_exists x) = card {i. i < 8192 \<and> vec_data (ids k) ! i = Some p})))
    \<and> (\<forall>key b p. ipc_get key (ipc k b) = Some p \<longrightarrow> (\<exists>x. store k p = Some x \<and> obj_class x = b \<and> obj_key x = key \<and> get_exists x \<noteq> 0))
    \<and> (\<forall>p c. store k p = Some (O_cond c) \<longrightarrow> (\<exists>m. store k (cond_mutex c) = Some (O_mutex m)
        \<and> (obj_exists c \<noteq> 0 \<longrightarrow> obj_exists m \<noteq> 0 \<and> (\<forall>e w. mutex_at w k = Some (cond_mutex c, m) \<longrightarrow> fst (sys_mutex_destroy e w k) \<noteq> CELL_OK))))
    \<and> (\<forall>p x q. store k p = Some (O_event_port x) \<longrightarrow> port_queue x = Some q \<longrightarrow> (\<exists>y. store k q = Some (O_event_queue y)))"
proof (intro conjI allI impI)
  have w: "kernel_wf k" using assms by (rule runs_wf)
  show "\<exists>x. store k p = Some x \<and> obj_class x = b \<and> (shareable b \<longrightarrow> unat (get_exists x) = card {i. i < 8192 \<and> vec_data (ids k) ! i = Some p})"
    if "good_base b" "idm_get (lv2_traits b) v (ids k) = Some p" for b v p
    using wf_id [OF w that] unfolding slots_def by metis
  show "\<exists>x. store k p = Some x \<and> obj_class x = b \<and> obj_key x = key \<and> get_exists x \<noteq> 0" if "ipc_get key (ipc k b) = Some p" for key b p
    using wf_key [OF w that] by metis
  show "\<exists>m. store k (cond_mutex c) = Some (O_mutex m)
        \<and> (obj_exists c \<noteq> 0 \<longrightarrow> obj_exists m \<noteq> 0 \<and> (\<forall>e w. mutex_at w k = Some (cond_mutex c, m) \<longrightarrow> fst (sys_mutex_destroy e w k) \<noteq> CELL_OK))"
    if "store k p = Some (O_cond c)" for p c
    using wf_cond [OF w that] counted_mutex_stays [OF w] by metis
  show "\<exists>y. store k q = Some (O_event_queue y)" if "store k p = Some (O_event_port x)" "port_queue x = Some q" for p x q
    using wf_port [OF w that] by metis
qed

theorem kernel_well_typed_witness:
  "\<exists>k v p x. kernel_call\<^sup>*\<^sup>* (boot_kernel 2) k \<and> sema_at v k = Some (p, x) \<and> obj_exists x = 1
     \<and> card {i. i < 8192 \<and> vec_data (ids k) ! i = Some p} = 1"
proof -
  define e where "e = (\<lparr>cur = 0x1000000, e_now = 0, e_tsc = 0\<rparr> :: env)"
  obtain v k where k: "sys_semaphore_create e True (Some sample_attr) 1 4 (boot_kernel 2) = Some (CELL_OK, Some v, k)"
    "sema_at v k = Some (store_top (boot_kernel 2), (new_sema SYS_SYNC_FIFO 0 0 4 1)\<lparr>obj_exists := 1\<rparr>)"
    by (rule sema_create_private [OF boot_kernel_inv(1) [of 2] boot_kernel_inv(3) [of 2], of sample_attr 1 4 e]) (auto simp: sample_attr_def)
  have r: "kernel_call\<^sup>*\<^sup>* (boot_kernel 2) k" using k_sema_create [OF k(1)] by blast
  have "idm_get (lv2_traits sema_base_id) v (ids k) = Some (store_top (boot_kernel 2))"
    "store k (store_top (boot_kernel 2)) = Some (O_sema ((new_sema SYS_SYNC_FIFO 0 0 4 1)\<lparr>obj_exists := 1\<rparr>))"
    using k(2) by (auto simp: sema_at_def obj_at_def split: option.splits lv2_object.splits)
  then have "card {i. i < 8192 \<and> vec_data (ids k) ! i = Some (store_top (boot_kernel 2))} = 1"
    using kernel_well_typed [OF r, THEN conjunct1, rule_format, of sema_base_id v "store_top (boot_kernel 2)"]
    by (simp add: shareable_def get_exists_def)
  with r k(2) show ?thesis by fastforce
qed

end
