(* ===== verification/Cell_Rtc.thy ===== *)
theory Cell_Rtc
  imports Rpcsx_Prelude
begin

text \<open>
  The real-time clock library (\<^verbatim>\<open>ps3fw/cellRtc.cpp\<close>, \<^verbatim>\<open>rpcsx/fw/ps3/cellRtc.h\<close>): calendar dates, ticks (microseconds since the
  beginning of year 1) and the conversions between them. Arithmetic on ticks and the text formats are in
  \<open>Cell_Rtc_Ticks\<close> and \<open>Cell_Rtc_Text\<close>. Every function that takes guest pointers gets one \<open>bool\<close> per pointer, the result of
  \<^verbatim>\<open>sys_memory_get_page_attribute\<close> for its address; the values behind output pointers are returned. Logging is left out.
\<close>

section \<open>Types and tables\<close>

abbreviation CELL_RTC_ERROR_NOT_INITIALIZED :: u32 where "CELL_RTC_ERROR_NOT_INITIALIZED \<equiv> 0x80010601"
abbreviation CELL_RTC_ERROR_INVALID_POINTER :: u32 where "CELL_RTC_ERROR_INVALID_POINTER \<equiv> 0x80010602"
abbreviation CELL_RTC_ERROR_INVALID_VALUE :: u32 where "CELL_RTC_ERROR_INVALID_VALUE \<equiv> 0x80010603"
abbreviation CELL_RTC_ERROR_INVALID_ARG :: u32 where "CELL_RTC_ERROR_INVALID_ARG \<equiv> 0x80010604"
abbreviation CELL_RTC_ERROR_NO_CLOCK :: u32 where "CELL_RTC_ERROR_NO_CLOCK \<equiv> 0x80010606"
abbreviation CELL_RTC_ERROR_BAD_PARSE :: u32 where "CELL_RTC_ERROR_BAD_PARSE \<equiv> 0x80010607"
abbreviation CELL_RTC_ERROR_INVALID_YEAR :: u32 where "CELL_RTC_ERROR_INVALID_YEAR \<equiv> 0x80010621"
abbreviation CELL_RTC_ERROR_INVALID_MONTH :: u32 where "CELL_RTC_ERROR_INVALID_MONTH \<equiv> 0x80010622"
abbreviation CELL_RTC_ERROR_INVALID_DAY :: u32 where "CELL_RTC_ERROR_INVALID_DAY \<equiv> 0x80010623"
abbreviation CELL_RTC_ERROR_INVALID_HOUR :: u32 where "CELL_RTC_ERROR_INVALID_HOUR \<equiv> 0x80010624"
abbreviation CELL_RTC_ERROR_INVALID_MINUTE :: u32 where "CELL_RTC_ERROR_INVALID_MINUTE \<equiv> 0x80010625"
abbreviation CELL_RTC_ERROR_INVALID_SECOND :: u32 where "CELL_RTC_ERROR_INVALID_SECOND \<equiv> 0x80010626"
abbreviation CELL_RTC_ERROR_INVALID_MICROSECOND :: u32 where "CELL_RTC_ERROR_INVALID_MICROSECOND \<equiv> 0x80010627"

record CellRtcDateTime =
  year :: u16
  month :: u16
  day :: u16
  hour :: u16
  minute :: u16
  second :: u16
  microsecond :: u32

abbreviation RTC_MAGIC_OFFSET :: u64 where "RTC_MAGIC_OFFSET \<equiv> 62135596800000000"
abbreviation RTC_FILETIME_OFFSET :: u64 where "RTC_FILETIME_OFFSET \<equiv> 50491123200000000"
abbreviation RTC_SYSTEM_TIME_MIN :: u64 where "RTC_SYSTEM_TIME_MIN \<equiv> 63082281600000000"
abbreviation RTC_SYSTEM_TIME_MAX :: u64 where "RTC_SYSTEM_TIME_MAX \<equiv> 66238041599999999"

definition DAYS_IN_MONTH :: "u8 list" where
  "DAYS_IN_MONTH = [31, 28, 31, 30, 31, 30, 31, 31, 30, 31, 30, 31]"

definition DAYS_IN_MONTH_LEAP :: "u8 list" where
  "DAYS_IN_MONTH_LEAP = [31, 29, 31, 30, 31, 30, 31, 31, 30, 31, 30, 31]"

definition MONTH_OFFSET :: "u16 list" where
  "MONTH_OFFSET = [0, 31, 59, 90, 120, 151, 181, 212, 243, 273, 304, 334, 0xffff]"

definition MONTH_OFFSET_LEAP :: "u16 list" where
  "MONTH_OFFSET_LEAP = [0, 31, 60, 91, 121, 152, 182, 213, 244, 274, 305, 335, 0xffff]"

definition cellRtcGetTickResolution :: u32 where
  "cellRtcGetTickResolution = 1000000"

definition is_leap_year :: "u32 \<Rightarrow> bool" where
  "is_leap_year y \<longleftrightarrow> y mod 4 = 0 \<and> (y mod 100 \<noteq> 0 \<or> y mod 400 = 0)"

definition month_offset :: "u16 \<Rightarrow> u16 list" where
  "month_offset y = (if is_leap_year (ucast y) then MONTH_OFFSET_LEAP else MONTH_OFFSET)"

definition days_in_month :: "u16 \<Rightarrow> u8 list" where
  "days_in_month y = (if is_leap_year (ucast y) then DAYS_IN_MONTH_LEAP else DAYS_IN_MONTH)"

section \<open>Ticks and dates\<close>

text \<open>
  \<^verbatim>\<open>tick_to_date_time\<close>, in the unsigned 32-bit arithmetic of the code. The day within the year is below 366 for every tick
  (\<open>tick_year_spec\<close>), so that the index into the table of 13 entries is at most 12 and \<^verbatim>\<open>narrow<u16>\<close> is never given a value it
  refuses.
\<close>

definition tick_year :: "u32 \<Rightarrow> u32 \<times> u32" where
  "tick_year days =
     (let year_400 = days div 146097;
          d = days - year_400 * 146097;
          y = (d - d div 1460 + d div 36524 - d div 146096) div 365
      in (year_400 * 400 + y + 1, d - (y * 365 + y div 4 - y div 100 + y div 400)))"

definition tick_month :: "u16 list \<Rightarrow> u32 \<Rightarrow> u32 \<times> u32" where
  "tick_month offset d =
     (let approx = d div 29;
          m = (if ucast (offset ! unat approx) > d then approx - 1 else approx)
      in (m + 1, d - ucast (offset ! unat m)))"

definition tick_to_date_time :: "u64 \<Rightarrow> CellRtcDateTime" where
  "tick_to_date_time tick =
     (case tick_year (ucast (tick div 86400000000)) of
        (years, d) \<Rightarrow>
          case tick_month (month_offset (ucast years)) d of
            (months, d2) \<Rightarrow>
              \<lparr>year = ucast years, month = ucast months, day = ucast (d2 + 1),
               hour = ucast (tick div 3600000000 mod 24), minute = ucast (tick div 60000000 mod 60),
               second = ucast (tick div 1000000 mod 60), microsecond = ucast (tick mod 1000000)\<rparr>)"

text \<open>\<^verbatim>\<open>date_time_to_tick\<close>; the year is promoted to \<^verbatim>\<open>int\<close>, the sum is converted to \<^verbatim>\<open>u32\<close>.\<close>

definition days_in_previous_years :: "u16 \<Rightarrow> u32" where
  "days_in_previous_years y =
     word_of_int (uint y * 365 + (uint y + 3) div 4 - (uint y + 99) div 100 + (uint y + 399) div 400 - 366)"

definition clamp_month :: "u16 \<Rightarrow> u16" where
  "clamp_month m = (if m = 0 then 1 else if m > 12 then 12 else m)"

definition date_time_to_tick :: "CellRtcDateTime \<Rightarrow> u64" where
  "date_time_to_tick d =
     (let days = days_in_previous_years (year d) + ucast (month_offset (year d) ! unat (clamp_month (month d) - 1)) + ucast (day d) - 1
      in ucast (microsecond d) + ucast (second d) * 1000000 + ucast (minute d) * 60 * 1000000 + ucast (hour d) * 60 * 60 * 1000000
         + ucast days * 24 * 60 * 60 * 1000000)"

definition cellRtcCheckValid :: "CellRtcDateTime \<Rightarrow> error_code" where
  "cellRtcCheckValid d =
     (if year d = 0 \<or> year d \<ge> 10000 then CELL_RTC_ERROR_INVALID_YEAR
      else if month d < 1 \<or> month d > 12 then CELL_RTC_ERROR_INVALID_MONTH
      else if day d = 0 \<or> day d > ucast (days_in_month (year d) ! unat (month d - 1)) then CELL_RTC_ERROR_INVALID_DAY
      else if hour d \<ge> 24 then CELL_RTC_ERROR_INVALID_HOUR
      else if minute d \<ge> 60 then CELL_RTC_ERROR_INVALID_MINUTE
      else if second d \<ge> 60 then CELL_RTC_ERROR_INVALID_SECOND
      else if microsecond d \<ge> cellRtcGetTickResolution then CELL_RTC_ERROR_INVALID_MICROSECOND
      else CELL_OK)"

definition cellRtcGetTick :: "bool \<Rightarrow> bool \<Rightarrow> CellRtcDateTime \<Rightarrow> u64 \<Rightarrow> error_code \<times> u64" where
  "cellRtcGetTick time_ok tick_ok d tick =
     (if \<not> time_ok \<or> \<not> tick_ok then (CELL_RTC_ERROR_INVALID_POINTER, tick)
      else if year d \<ge> 10000 \<or> year d = 0 then (CELL_RTC_ERROR_INVALID_VALUE, tick)
      else (CELL_OK, date_time_to_tick d))"

definition cellRtcSetTick :: "bool \<Rightarrow> bool \<Rightarrow> CellRtcDateTime \<Rightarrow> u64 \<Rightarrow> error_code \<times> CellRtcDateTime" where
  "cellRtcSetTick time_ok tick_ok d tick =
     (if \<not> time_ok \<or> \<not> tick_ok then (CELL_RTC_ERROR_INVALID_POINTER, d) else (CELL_OK, tick_to_date_time tick))"

section \<open>The calendar\<close>

text \<open>The reference: the days before a year, counted from year 0 of the table, and the day number of a date.\<close>

definition year_start :: "nat \<Rightarrow> nat" where
  "year_start y = 365 * y + y div 4 + y div 400 - y div 100"

definition leap :: "nat \<Rightarrow> bool" where
  "leap y \<longleftrightarrow> y mod 4 = 0 \<and> (y mod 100 \<noteq> 0 \<or> y mod 400 = 0)"

definition month_start :: "bool \<Rightarrow> nat \<Rightarrow> nat" where
  "month_start l m = (if l then [0, 31, 60, 91, 121, 152, 182, 213, 244, 274, 305, 335, 366] ! m
     else [0, 31, 59, 90, 120, 151, 181, 212, 243, 273, 304, 334, 365] ! m)"

definition civil :: "nat \<Rightarrow> nat \<Rightarrow> nat \<Rightarrow> nat \<Rightarrow> bool" where
  "civil n y m d \<longleftrightarrow> 1 \<le> y \<and> 1 \<le> m \<and> m \<le> 12 \<and> 1 \<le> d \<and> d \<le> month_start (leap y) m - month_start (leap y) (m - 1)
     \<and> n = year_start (y - 1) + month_start (leap y) (m - 1) + (d - 1)"

lemma year_start_eq: "year_start y + y div 100 = 365 * y + y div 4 + y div 400"
  unfolding year_start_def by linarith

lemma year_start_Suc: "year_start (Suc y) = year_start y + (if leap (Suc y) then 366 else 365)"
proof -
  have "Suc y div k = y div k + (if Suc y mod k = 0 then 1 else 0)" for k
    using div_Suc [of y k] by simp
  then have d: "Suc y div 4 = y div 4 + (if Suc y mod 4 = 0 then 1 else 0)" "Suc y div 100 = y div 100 + (if Suc y mod 100 = 0 then 1 else 0)"
    "Suc y div 400 = y div 400 + (if Suc y mod 400 = 0 then 1 else 0)" by blast+
  have "Suc y mod 400 = 0 \<Longrightarrow> Suc y mod 100 = 0" "Suc y mod 100 = 0 \<Longrightarrow> Suc y mod 4 = 0"
    using dvd_trans [of 100 400 "Suc y"] dvd_trans [of 4 100 "Suc y"] by (simp_all add: dvd_eq_mod_eq_0)
  moreover have "a + (q + s) = 365 * Suc y + (p + t) + (r + u) \<Longrightarrow> b + q = 365 * y + p + r \<Longrightarrow> a + s = b + 365 + t + u" for a b p q r s t u :: nat
    by simp
  from this [OF year_start_eq [of "Suc y", unfolded d] year_start_eq [of y]]
  show ?thesis using calculation unfolding leap_def by (simp split: if_splits)
qed

lemma year_start_era: "year_start (400 * e + y) = 146097 * e + year_start y"
proof -
  have "(400 * e + y) div 4 = 100 * e + y div 4" "(400 * e + y) div 100 = 4 * e + y div 100" "(400 * e + y) div 400 = e + y div 400"
    using div_mult_self1 [of 4 y "100 * e"] div_mult_self1 [of 100 y "4 * e"] by (simp_all add: add.commute)
  moreover have "a + (4 * e + q) = 365 * (400 * e + y) + (100 * e + p) + (e + r) \<Longrightarrow> b + q = 365 * y + p + r \<Longrightarrow> a = 146097 * e + b" for a b p q r :: nat
    by (simp add: distrib_left)
  ultimately show ?thesis using year_start_eq [of y] year_start_eq [of "400 * e + y"] by metis
qed

lemma year_start_mono: "y \<le> z \<Longrightarrow> year_start y \<le> year_start z"
  by (induction z rule: dec_induct) (auto simp: year_start_Suc)

lemma year_start_strict: "year_start y < year_start z \<longleftrightarrow> y < z"
proof
  show "year_start y < year_start z" if "y < z" using year_start_mono [of "Suc y" z] that by (simp add: year_start_Suc split: if_splits)
  show "y < z" if "year_start y < year_start z" using year_start_mono [of z y] that by linarith
qed

lemma month_cases:
  assumes "m \<le> (12 :: nat)" "P 0" "P 1" "P 2" "P 3" "P 4" "P 5" "P 6" "P 7" "P 8" "P 9" "P 10" "P 11" "P 12"
  shows "P m"
proof -
  have "m \<in> {0, 1, 2, 3, 4, 5, 6, 7, 8, 9, 10, 11, 12}" using assms(1) by (auto simp: numeral_eq_Suc le_Suc_eq)
  with assms show ?thesis by auto
qed

lemma month_start_Suc: "m < 12 \<Longrightarrow> month_start l m < month_start l (Suc m)"
  by (rule month_cases [of m "\<lambda>m. m < 12 \<longrightarrow> month_start l m < month_start l (Suc m)", THEN mp]) (simp_all add: month_start_def)

lemma month_start_mono: "m \<le> n \<Longrightarrow> n \<le> 12 \<Longrightarrow> month_start l m \<le> month_start l n"
proof (induction n rule: dec_induct)
  case (step n)
  then show ?case using month_start_Suc [of n l] by simp
qed simp

lemma month_start_12: "month_start l 0 = 0" "month_start l 12 = (if l then 366 else 365)"
  by (simp_all add: month_start_def)

text \<open>A day number belongs to one date.\<close>

lemma civil_year: "civil n y m d \<Longrightarrow> year_start (y - 1) \<le> n \<and> n < year_start y"
proof -
  assume c: "civil n y m d"
  then have "month_start (leap y) m \<le> (if leap y then 366 else 365)" using month_start_mono [of m 12 "leap y"] by (simp add: civil_def month_start_12)
  moreover have "month_start (leap y) (m - 1) \<le> month_start (leap y) m" using c month_start_mono [of "m - 1" m "leap y"] by (simp add: civil_def)
  moreover have "year_start y = year_start (y - 1) + (if leap y then 366 else 365)" using year_start_Suc [of "y - 1"] c by (simp add: civil_def)
  moreover have "1 \<le> d" "d \<le> month_start (leap y) m - month_start (leap y) (m - 1)" "n = year_start (y - 1) + month_start (leap y) (m - 1) + (d - 1)"
    using c by (simp_all add: civil_def)
  ultimately show ?thesis by linarith
qed

lemma civil_month:
  assumes "civil n y m d"
  shows "n - year_start (y - 1) = month_start (leap y) (m - 1) + (d - 1)" "n - year_start (y - 1) < month_start (leap y) m"
proof -
  have "1 \<le> d" "d \<le> month_start (leap y) m - month_start (leap y) (m - 1)" "n = year_start (y - 1) + month_start (leap y) (m - 1) + (d - 1)"
    using assms by (simp_all add: civil_def)
  then show "n - year_start (y - 1) = month_start (leap y) (m - 1) + (d - 1)" "n - year_start (y - 1) < month_start (leap y) m" by linarith+
qed

lemma civil_unique:
  assumes "civil n y m d" "civil n y' m' d'"
  shows "y = y' \<and> m = m' \<and> d = d'"
proof -
  have "year_start (y - 1) < year_start y'" "year_start (y' - 1) < year_start y" using civil_year [OF assms(1)] civil_year [OF assms(2)] by simp_all
  then have y: "y = y'" using assms by (simp add: year_start_strict civil_def)
  let ?M = "month_start (leap y)"
  define x where "x = n - year_start (y - 1)"
  have x: "x = ?M (m - 1) + (d - 1)" "x < ?M m" "x = ?M (m' - 1) + (d' - 1)" "x < ?M m'"
    using civil_month [OF assms(1)] civil_month [OF assms(2)] unfolding x_def y by simp_all
  have r: "1 \<le> m" "m \<le> 12" "1 \<le> m'" "m' \<le> 12" "1 \<le> d" "1 \<le> d'" using assms by (simp_all add: civil_def)
  have "\<not> m < m'" using month_start_mono [of m "m' - 1" "leap y"] x(2,3) r(4) by linarith
  moreover have "\<not> m' < m" using month_start_mono [of m' "m - 1" "leap y"] x(1,4) r(2) by linarith
  ultimately have "m = m'" by simp
  then show ?thesis using y x(1,3) r(5,6) by simp
qed

section \<open>From a tick to its date\<close>

text \<open>The year within 400 years: four centuries of 36524 days, of 25 times four years of 1461 days; a leap year is the last of its four years.\<close>

lemma era_split:
  assumes "n < (146097 :: nat)"
  obtains a b c r where "a < 4" "b < 25" "c < 4" "r \<le> 365" "n = 36524 * a + 1461 * b + 365 * c + r" "r = 365 \<Longrightarrow> c = 3 \<and> (b < 24 \<or> a = 3)"
proof -
  define a where "a = min 3 (n div 36524)"
  define m where "m = n - 36524 * a"
  define b where "b = m div 1461"
  define k where "k = m - 1461 * b"
  define c where "c = min 3 (k div 365)"
  have a: "a < 4" "36524 * a \<le> n" "n - 36524 * a \<le> 36524" "n - 36524 * a = 36524 \<Longrightarrow> a = 3"
    using assms unfolding a_def by linarith+
  have b: "b < 25" "1461 * b \<le> m" "k < 1461" "b = 24 \<Longrightarrow> k \<le> 1460" "b = 24 \<Longrightarrow> k = 1460 \<Longrightarrow> m = 36524"
    using a(3) unfolding m_def [symmetric] k_def b_def by linarith+
  have c: "c < 4" "365 * c \<le> k" "k - 365 * c \<le> 365" "k - 365 * c = 365 \<Longrightarrow> c = 3 \<and> k = 1460"
    using b(3) unfolding c_def by linarith+
  have "n = 36524 * a + 1461 * b + 365 * c + (k - 365 * c)" using a(2) b(2) c(2) unfolding k_def m_def by linarith
  moreover have "c = 3 \<and> (b < 24 \<or> a = 3)" if "k - 365 * c = 365" using c(4) [OF that] b(1,5) a(4) unfolding m_def by linarith
  ultimately show ?thesis using that [of a b c "k - 365 * c"] a(1) b(1) c(1,3) by blast
qed

lemma mod_top: "1 \<le> x \<Longrightarrow> x \<le> k \<Longrightarrow> (x + k * a) mod k = 0 \<longleftrightarrow> x = (k :: nat)"
  by (cases "x = k") simp_all

lemma era_year_start:
  assumes "a < 4" "b < 25" "c < (4 :: nat)"
  shows "year_start (100 * a + 4 * b + c) = 36524 * a + 1461 * b + 365 * c" "leap (Suc (100 * a + 4 * b + c)) \<longleftrightarrow> c = 3 \<and> (b < 24 \<or> a = 3)"
proof -
  have "(100 * a + 4 * b + c) div 4 = 25 * a + b" "(100 * a + 4 * b + c) div 100 = a" "(100 * a + 4 * b + c) div 400 = 0" using assms by linarith+
  then show "year_start (100 * a + 4 * b + c) = 36524 * a + 1461 * b + 365 * c"
    using year_start_eq [of "100 * a + 4 * b + c"] by (simp add: distrib_left)
  have "Suc (100 * a + 4 * b + c) mod 4 = 0 \<longleftrightarrow> c = 3"
    using assms mod_top [of "Suc c" 4 "25 * a + b"] by (simp add: add_ac)
  moreover have "Suc (100 * a + 4 * b + c) mod 100 = 0 \<longleftrightarrow> 4 * b + c = 99"
    using assms mod_top [of "Suc (4 * b + c)" 100 a] by (simp add: add_ac)
  moreover have "Suc (100 * a + 4 * b + c) mod 400 = 0 \<longleftrightarrow> 100 * a + 4 * b + c = 399"
    using assms mod_top [of "Suc (100 * a + 4 * b + c)" 400 0] by simp
  moreover have "4 * b + c = 99 \<longleftrightarrow> b = 24 \<and> c = 3" "100 * a + 4 * b + c = 399 \<longleftrightarrow> a = 3 \<and> b = 24 \<and> c = 3"
    using assms by (safe, linarith+)
  ultimately show "leap (Suc (100 * a + 4 * b + c)) \<longleftrightarrow> c = 3 \<and> (b < 24 \<or> a = 3)" using assms(2) unfolding leap_def by auto
qed

lemma era_year:
  assumes "a < 4" "b < 25" "c < 4" "r \<le> 365" "n = 36524 * a + 1461 * b + 365 * c + r" "r = 365 \<Longrightarrow> c = 3 \<and> (b < 24 \<or> a = 3)"
  shows "(n - n div 1460 + n div 36524 - n div 146096) div 365 = 100 * a + 4 * b + (c :: nat)"
proof (cases "n = 146096")
  case True
  then have "a = 3" "b = 24" "c = 3" using assms by linarith+
  then show ?thesis using True by simp
next
  case False
  have n: "n < 36524 * Suc a" using False assms by (cases "r = 365") (simp_all, linarith+)
  then have 1: "n div 36524 = a" "n div 146096 = 0" using assms(1,5) by (auto intro!: div_nat_eqI)
  define q where "q = (24 * a + b + 365 * c + r) div 1460"
  have "n div 1460 = 25 * a + b + q" "1460 * q \<le> 24 * a + b + 365 * c + r" unfolding q_def assms(5) by linarith+
  then have "n - n div 1460 + n div 36524 - n div 146096 = 36500 * a + 1460 * b + 365 * c + r - q" using 1 assms(5) by simp
  moreover have "(36500 * a + 1460 * b + 365 * c + r - q) div 365 = 100 * a + 4 * b + c"
  proof (cases "q = 0")
    case True
    then have "r < 365" using assms q_def by (cases "r = 365") simp_all
    then show ?thesis using True by simp
  next
    case False
    then have "q = 1" "c = 3" "0 < r" using assms(1-4) unfolding q_def by linarith+
    then show ?thesis using assms(4) by (intro div_nat_eqI) simp_all
  qed
  ultimately show ?thesis by simp
qed

lemma unat_bound: "unat (w :: 'a::len word) < 2 ^ LENGTH('a)"
  by (rule unsigned_less)

lemma unat_exact:
  fixes a b :: "'a::len word"
  shows "unat a + unat b < 2 ^ LENGTH('a) \<Longrightarrow> unat (a + b) = unat a + unat b"
    and "unat a * unat b < 2 ^ LENGTH('a) \<Longrightarrow> unat (a * b) = unat a * unat b"
    and "unat b \<le> unat a \<Longrightarrow> unat (a - b) = unat a - unat b"
  by (simp_all add: unat_word_ariths unat_sub word_le_nat_alt)

lemma unat_of_nat_small: "n < 2 ^ LENGTH('a) \<Longrightarrow> unat (of_nat n :: 'a::len word) = n"
  by (simp add: unat_of_nat take_bit_nat_eq_self)

lemma tick_year_spec:
  assumes "tick_year days = (y, d)"
  obtains Y where "unat y = Suc Y" "unat days = year_start Y + unat d" "unat d < (if leap (Suc Y) then 366 else 365)"
proof -
  define N where "N = unat days"
  define E where "E = N div 146097"
  define D where "D = N mod 146097"
  define dd where "dd = days - days div 146097 * 146097"
  have N: "N < 4294967296" "N = 146097 * E + D" "D < 146097" using unsigned_less [of days] unfolding N_def E_def D_def by simp_all
  have dd: "unat dd = D" unfolding dd_def minus_div_mult_eq_mod by (simp add: D_def N_def unat_mod_distrib)
  obtain a b c r where r: "a < 4" "b < 25" "c < 4" "r \<le> 365" "D = 36524 * a + 1461 * b + 365 * c + r" "r = 365 \<Longrightarrow> c = 3 \<and> (b < 24 \<or> a = 3)"
    using era_split [OF N(3)] by blast
  define Y where "Y = 100 * a + 4 * b + c"
  have Y: "(D - D div 1460 + D div 36524 - D div 146096) div 365 = Y" "year_start Y = 36524 * a + 1461 * b + 365 * c" "leap (Suc Y) \<longleftrightarrow> c = 3 \<and> (b < 24 \<or> a = 3)"
    unfolding Y_def using era_year [OF r] era_year_start [OF r(1-3)] by auto
  define yy where "yy = (dd - dd div 1460 + dd div 36524 - dd div 146096) div 365"
  have "unat (dd - dd div 1460) = D - D div 1460" by (simp add: unat_exact unat_div_distrib dd)
  moreover from this have "unat (dd - dd div 1460 + dd div 36524) = D - D div 1460 + D div 36524" using N(3) by (subst unat_exact(1)) (simp_all add: unat_div_distrib dd)
  moreover from this have "unat (dd - dd div 1460 + dd div 36524 - dd div 146096) = D - D div 1460 + D div 36524 - D div 146096"
    by (subst unat_exact(3)) (simp_all add: unat_div_distrib dd)
  ultimately have yy: "unat yy = Y" unfolding yy_def Y(1) [symmetric] by (simp add: unat_div_distrib)
  have Y4: "Y < 400" "365 * Y + Y div 4 + Y div 400 - Y div 100 = year_start Y" using r(1-3) by (simp_all add: Y_def year_start_def)
  define ys where "ys = yy * 365 + yy div 4 - yy div 100 + yy div 400"
  have "unat (yy * 365) = 365 * Y" using Y4(1) by (subst unat_exact(2)) (simp_all add: yy)
  moreover from this have "unat (yy * 365 + yy div 4) = 365 * Y + Y div 4" using Y4(1) by (subst unat_exact(1)) (simp_all add: yy unat_div_distrib)
  moreover from this have "unat (yy * 365 + yy div 4 - yy div 100) = 365 * Y + Y div 4 - Y div 100" by (subst unat_exact(3)) (simp_all add: yy unat_div_distrib)
  ultimately have ys: "unat ys = year_start Y" using Y4 unfolding ys_def by (subst unat_exact(1)) (simp_all add: yy unat_div_distrib)
  have "year_start Y \<le> D" using r(5) Y(2) by simp
  then have d: "unat (dd - ys) = D - year_start Y" by (simp add: unat_exact(3) dd ys)
  have E: "unat (days div 146097) = E" "E < 29399" using N(1,2) by (simp_all add: unat_div_distrib E_def N_def)
  then have "unat (days div 146097 * 400) = E * 400" by (subst unat_exact(2)) simp_all
  moreover from this have "unat (days div 146097 * 400 + yy) = E * 400 + Y" using E Y4(1) by (subst unat_exact(1)) (simp_all add: yy)
  ultimately have y: "unat (days div 146097 * 400 + yy + 1) = Suc (400 * E + Y)" using E Y4(1) by (subst unat_exact(1)) simp_all
  have eq: "y = days div 146097 * 400 + yy + 1" "d = dd - ys" using assms by (simp_all add: tick_year_def Let_def dd_def yy_def ys_def)
  have "leap (Suc (400 * E + Y)) = leap (Suc Y)"
    using mod_mult_self1 [of "Suc Y" "100 * E" 4] mod_mult_self1 [of "Suc Y" "4 * E" 100] mod_mult_self1 [of "Suc Y" E 400]
    unfolding leap_def by (simp add: add_ac)
  moreover have "D - year_start Y = r" using r(5) Y(2) by simp
  ultimately show ?thesis
    using that [of "400 * E + Y"] y d Y(3) r(4,6) N(2) \<open>year_start Y \<le> D\<close> unfolding eq by (simp add: year_start_era flip: N_def) (cases "r = 365"; simp)
qed

lemma is_leap_year_iff: "is_leap_year y \<longleftrightarrow> leap (unat y)"
proof -
  have "y mod 4 = 0 \<longleftrightarrow> unat y mod 4 = 0" "y mod 100 = 0 \<longleftrightarrow> unat y mod 100 = 0" "y mod 400 = 0 \<longleftrightarrow> unat y mod 400 = 0"
    by (simp_all add: unat_mod_distrib flip: unat_eq_0)
  then show ?thesis by (simp add: is_leap_year_def leap_def)
qed

lemma unat_year: "unat (ucast y :: u32) = unat (y :: u16)"
  using unat_bound [of y] by (simp add: unsigned_ucast_eq take_bit_nat_eq_self)

lemma month_offset_nth:
  "m < 12 \<Longrightarrow> unat (month_offset y ! m) = month_start (leap (unat y)) m" "unat (month_offset y ! 12) = 65535"
  by (rule month_cases [of m "\<lambda>m. m < 12 \<longrightarrow> unat (month_offset y ! m) = month_start (leap (unat y)) m", THEN mp])
    (simp_all add: month_offset_def is_leap_year_iff unat_year MONTH_OFFSET_def MONTH_OFFSET_LEAP_def month_start_def)

lemma month_approx:
  assumes "n < (if l then 366 else 365)"
  shows "n div 29 = 12 \<or> n < month_start l (n div 29) \<Longrightarrow> 0 < n div 29 \<and> month_start l (n div 29 - 1) \<le> n \<and> n < month_start l (n div 29)"
    and "n div 29 < 12 \<Longrightarrow> month_start l (n div 29) \<le> n \<Longrightarrow> n < month_start l (Suc (n div 29))"
    and "n div 29 \<le> 12"
proof -
  define m where "m = n div 29"
  have m: "29 * m \<le> n" "n < 29 * m + 29" "m \<le> 12" using assms unfolding m_def by (auto split: if_splits)
  from m(3) show "n div 29 \<le> 12" by (simp add: m_def)
  have "(m = 12 \<or> n < month_start l m \<longrightarrow> 0 < m \<and> month_start l (m - 1) \<le> n \<and> n < month_start l m)
    \<and> (m < 12 \<longrightarrow> month_start l m \<le> n \<longrightarrow> n < month_start l (Suc m))"
    using m(1,2) assms
    by (rule month_cases [OF m(3), of "\<lambda>m. 29 * m \<le> n \<longrightarrow> n < 29 * m + 29 \<longrightarrow> n < (if l then 366 else 365)
      \<longrightarrow> (m = 12 \<or> n < month_start l m \<longrightarrow> 0 < m \<and> month_start l (m - 1) \<le> n \<and> n < month_start l m)
        \<and> (m < 12 \<longrightarrow> month_start l m \<le> n \<longrightarrow> n < month_start l (Suc m))", THEN mp, THEN mp, THEN mp, rotated -3])
      (auto simp: month_start_def)
  then show "n div 29 = 12 \<or> n < month_start l (n div 29) \<Longrightarrow> 0 < n div 29 \<and> month_start l (n div 29 - 1) \<le> n \<and> n < month_start l (n div 29)"
    "n div 29 < 12 \<Longrightarrow> month_start l (n div 29) \<le> n \<Longrightarrow> n < month_start l (Suc (n div 29))"
    unfolding m_def by blast+
qed

lemma unat_ucast_small: "unat w < 2 ^ LENGTH('b) \<Longrightarrow> unat (ucast (w :: 'a::len word) :: 'b::len word) = unat w"
  by (simp add: unsigned_ucast_eq take_bit_nat_eq_self)

lemma month_offset_word: "m \<le> 12 \<Longrightarrow> unat (ucast (month_offset y ! m) :: u32) = unat (month_offset y ! m)"
  using unat_bound [of "month_offset y ! m"] by (intro unat_ucast_small) simp

lemma tick_month_spec:
  assumes d: "unat d < (if leap (unat y) then 366 else 365)" and t: "tick_month (month_offset y) d = (m, d2)"
  obtains M where "M < 12" "unat m = Suc M" "unat d = month_start (leap (unat y)) M + unat d2" "unat d < month_start (leap (unat y)) (Suc M)"
proof -
  define l where "l = leap (unat y)"
  define A where "A = unat d div 29"
  define M where "M = (if A = 12 \<or> unat d < month_start l A then A - 1 else A)"
  note ap = month_approx [OF d, folded l_def A_def]
  have M: "M < 12" "month_start l M \<le> unat d" "unat d < month_start l (Suc M)"
    using ap unfolding M_def by (auto simp: not_less)
  have a: "unat (d div 29) = A" by (simp add: unat_div_distrib A_def)
  have o12: "unat (month_offset y ! A) = (if A = 12 then 65535 else month_start l A)"
    using ap(3) month_offset_nth(1) [of A y] month_offset_nth(2) [of y] by (auto simp: l_def)
  have "unat d < 65535" using d by (auto split: if_splits)
  then have c: "ucast (month_offset y ! unat (d div 29)) > d \<longleftrightarrow> A = 12 \<or> unat d < month_start l A"
    using ap(3) o12 by (simp add: word_less_nat_alt a month_offset_word)
  define w where "w = (if ucast (month_offset y ! unat (d div 29)) > d then d div 29 - 1 else d div 29)"
  have "unat (d div 29 - 1) = A - 1" if "0 < A" using that a by (subst unat_exact(3)) simp_all
  then have w: "unat w = M" unfolding w_def M_def c using ap(1) by (cases "A = 12 \<or> unat d < month_start l A") (simp_all only: if_True if_False a)
  have e: "m = w + 1" "d2 = d - ucast (month_offset y ! M)" using t by (simp_all add: tick_month_def Let_def flip: w_def) (simp add: w)
  have o: "unat (ucast (month_offset y ! M) :: u32) = month_start l M" using M(1) by (simp add: month_offset_word month_offset_nth(1) l_def)
  have "unat m = Suc M" using M(1) w unfolding e by (subst unat_exact(1)) simp_all
  moreover have "unat d = month_start l M + unat d2" using M(2) o unfolding e by (subst unat_exact(3)) simp_all
  ultimately show ?thesis using that [of M] M(1,3) unfolding l_def by blast
qed

lemma tick_to_date_time_spec:
  fixes t :: u64
  assumes "unat t div 86400000000 < year_start 65534"
  defines "d \<equiv> tick_to_date_time t"
  shows "civil (unat t div 86400000000) (unat (year d)) (unat (month d)) (unat (day d))"
    and "unat (hour d) = unat t div 3600000000 mod 24" "unat (minute d) = unat t div 60000000 mod 60"
    and "unat (second d) = unat t div 1000000 mod 60" "unat (microsecond d) = unat t mod 1000000"
proof -
  have "unat t div 86400000000 < 4294967296" using unat_bound [of t] by simp
  then have days: "unat (ucast (t div 86400000000) :: u32) = unat t div 86400000000" by (subst unat_ucast_small) (simp_all add: unat_div_distrib)
  obtain y e where y: "tick_year (ucast (t div 86400000000)) = (y, e)" by force
  obtain m f where m: "tick_month (month_offset (ucast y)) e = (m, f)" by force
  obtain Y where Y: "unat y = Suc Y" "unat t div 86400000000 = year_start Y + unat e" "unat e < (if leap (Suc Y) then 366 else 365)"
    using tick_year_spec [OF y] days by metis
  then have "year_start Y < year_start 65534" using assms(1) by simp
  then have "Suc Y < 65536" by (simp add: year_start_strict)
  then have yy: "unat (ucast y :: u16) = Suc Y" using Y(1) by (subst unat_ucast_small) simp_all
  obtain M where M: "M < 12" "unat m = Suc M" "unat e = month_start (leap (Suc Y)) M + unat f" "unat e < month_start (leap (Suc Y)) (Suc M)"
    using tick_month_spec [OF _ m] Y(3) yy by metis
  have "unat f < 366" using M(3) Y(3) by (auto split: if_splits)
  then have dd: "unat (ucast (f + 1) :: u16) = Suc (unat f)" by (subst unat_ucast_small) (simp_all add: unat_exact)
  have mm: "unat (ucast m :: u16) = Suc M" using M(1,2) by (subst unat_ucast_small) simp_all
  have d: "d = \<lparr>year = ucast y, month = ucast m, day = ucast (f + 1),
               hour = ucast (t div 3600000000 mod 24), minute = ucast (t div 60000000 mod 60),
               second = ucast (t div 1000000 mod 60), microsecond = ucast (t mod 1000000)\<rparr>"
    by (simp add: d_def tick_to_date_time_def y m)
  show "civil (unat t div 86400000000) (unat (year d)) (unat (month d)) (unat (day d))"
    using M Y(2) by (simp add: d yy mm dd civil_def)
  have small: "unat (u mod 24) < 65536" "unat (u mod 60) < 65536" "unat (u mod 1000000) < 4294967296" for u :: u64
    by (simp_all add: unat_mod_distrib less_trans [OF mod_less_divisor])
  show "unat (hour d) = unat t div 3600000000 mod 24" "unat (minute d) = unat t div 60000000 mod 60"
    "unat (second d) = unat t div 1000000 mod 60" "unat (microsecond d) = unat t mod 1000000"
    using small by (simp_all add: d unat_ucast_small) (simp_all add: unat_mod_distrib unat_div_distrib)
qed

section \<open>From a date to its tick\<close>

lemma days_in_previous_years_nat: "1 \<le> unat y \<Longrightarrow> unat (days_in_previous_years y) = year_start (unat y - 1)"
proof -
  assume "1 \<le> unat y"
  then obtain n where n: "unat y = Suc n" by (cases "unat y") simp_all
  have u: "uint y = int n + 1" using n by (simp add: uint_nat)
  have d: "(int n + 1 + 3) div 4 = int (n div 4) + 1" "(int n + 1 + 99) div 100 = int (n div 100) + 1" "(int n + 1 + 399) div 400 = int (n div 400) + 1"
    by (simp_all add: zdiv_int)
  have "int (year_start n) = uint y * 365 + (uint y + 3) div 4 - (uint y + 99) div 100 + (uint y + 399) div 400 - 366"
    using arg_cong [OF year_start_eq [of n], of int] unfolding u d by simp
  then have "days_in_previous_years y = word_of_int (int (year_start n))" unfolding days_in_previous_years_def by simp
  moreover have "n < 65536" using n unat_bound [of y] by simp
  then have "year_start n < 4294967296" unfolding year_start_def by linarith
  ultimately show ?thesis using n by (simp add: take_bit_nat_eq_self unat_of_nat)
qed

lemma days_in_month_nth:
  assumes "1 \<le> m" "m \<le> 12"
  shows "unat (days_in_month y ! (m - 1)) = month_start (leap (unat y)) m - month_start (leap (unat y)) (m - 1)"
  using assms(1)
  by (rule month_cases [OF assms(2), of "\<lambda>m. 1 \<le> m \<longrightarrow> unat (days_in_month y ! (m - 1)) = month_start (leap (unat y)) m - month_start (leap (unat y)) (m - 1)",
      THEN mp, rotated -1])
    (simp_all add: days_in_month_def is_leap_year_iff unat_year DAYS_IN_MONTH_def DAYS_IN_MONTH_LEAP_def month_start_def)

text \<open>What \<^verbatim>\<open>cellRtcCheckValid\<close> accepts.\<close>

lemma cellRtcCheckValid_iff:
  "cellRtcCheckValid d = CELL_OK \<longleftrightarrow>
     (\<exists>n. civil n (unat (year d)) (unat (month d)) (unat (day d))) \<and> unat (year d) < 10000
     \<and> unat (hour d) < 24 \<and> unat (minute d) < 60 \<and> unat (second d) < 60 \<and> unat (microsecond d) < 1000000"
proof -
  have m: "unat (month d - 1) = unat (month d) - 1" if "1 \<le> unat (month d)" using that by (simp add: unat_exact(3))
  have "unat (ucast (days_in_month (year d) ! unat (month d - 1)) :: u16)
      = month_start (leap (unat (year d))) (unat (month d)) - month_start (leap (unat (year d))) (unat (month d) - 1)"
    if "1 \<le> unat (month d)" "unat (month d) \<le> 12"
    using that days_in_month_nth [OF that, of "year d"] unat_bound [of "days_in_month (year d) ! unat (month d - 1)"] m by (subst unat_ucast_small) simp_all
  moreover have "year d = 0 \<longleftrightarrow> unat (year d) = 0" "day d = 0 \<longleftrightarrow> unat (day d) = 0" by (simp_all add: unat_eq_0)
  ultimately show ?thesis
    by (auto simp: cellRtcCheckValid_def civil_def cellRtcGetTickResolution_def word_le_nat_alt word_less_nat_alt not_le not_less less_Suc_eq_le Suc_le_eq split: if_splits)
qed

lemma ucast_nat: "ucast (w :: 'a::len word) = (of_nat (unat w) :: 'b::len word)"
  by simp

lemma date_time_to_tick_spec:
  assumes "civil n (unat (year d)) (unat (month d)) (unat (day d))" "unat (year d) < 10000"
  shows "date_time_to_tick d = of_nat (n * 86400000000 + unat (hour d) * 3600000000 + unat (minute d) * 60000000 + unat (second d) * 1000000 + unat (microsecond d))"
proof -
  let ?l = "leap (unat (year d))"
  have c: "1 \<le> unat (year d)" "1 \<le> unat (month d)" "unat (month d) \<le> 12" "1 \<le> unat (day d)"
    "n = year_start (unat (year d) - 1) + month_start ?l (unat (month d) - 1) + (unat (day d) - 1)" using assms(1) by (simp_all add: civil_def)
  have cl: "clamp_month (month d) = month d" using c(2,3) by (auto simp: clamp_month_def word_less_nat_alt unat_eq_0)
  have m: "unat (month d - 1) = unat (month d) - 1" using c(2) by (simp add: unat_exact(3))
  then have o: "unat (ucast (month_offset (year d) ! unat (month d - 1)) :: u32) = month_start ?l (unat (month d) - 1)"
    using c(2,3) by (simp add: month_offset_word month_offset_nth(1))
  define days :: u32 where "days = days_in_previous_years (year d) + ucast (month_offset (year d) ! unat (month d - 1)) + ucast (day d) - 1"
  have "days = of_nat (year_start (unat (year d) - 1) + month_start ?l (unat (month d) - 1) + unat (day d)) - 1"
    unfolding days_def using arg_cong [OF o, of "of_nat :: nat \<Rightarrow> u32"] arg_cong [OF days_in_previous_years_nat [OF c(1)], of "of_nat :: nat \<Rightarrow> u32"] by simp
  then have "days = of_nat n" using c(4,5) by simp
  moreover have "n < 4294967296" using civil_year [OF assms(1)] year_start_mono [of "unat (year d)" 10000] assms(2) by (simp add: year_start_def)
  ultimately have "unat days = n" by (simp add: unat_of_nat take_bit_nat_eq_self)
  then have w: "ucast days = (of_nat n :: u64)" using ucast_nat [of days] by metis
  show ?thesis unfolding date_time_to_tick_def cl Let_def days_def [symmetric] w unfolding ucast_nat by (simp add: ac_simps)
qed

lemma time_of_day:
  fixes n h i j u :: nat
  assumes "h < 24" "i < 60" "j < 60" "u < 1000000"
  defines "t \<equiv> n * 86400000000 + h * 3600000000 + i * 60000000 + j * 1000000 + u"
  shows "t div 86400000000 = n" "t div 3600000000 mod 24 = h" "t div 60000000 mod 60 = i" "t div 1000000 mod 60 = j" "t mod 1000000 = u"
proof -
  have dm: "(k * c + r) div c = k" "(k * c + r) mod c = r" if "r < c" for k c r :: nat using that by (simp_all add: div_nat_eqI)
  have 1: "t = (((n * 24 + h) * 60 + i) * 60 + j) * 1000000 + u" unfolding t_def by (simp add: distrib_right)
  show "t mod 1000000 = u" unfolding 1 using assms(4) by (rule dm)
  have 2: "t div 1000000 = ((n * 24 + h) * 60 + i) * 60 + j" unfolding 1 using assms(4) by (rule dm)
  show "t div 1000000 mod 60 = j" unfolding 2 using assms(3) by (rule dm)
  have 3: "t div 60000000 = (n * 24 + h) * 60 + i" using dm(1) [OF assms(3)] div_mult2_eq [of t 1000000 60] by (simp add: 2)
  show "t div 60000000 mod 60 = i" unfolding 3 using assms(2) by (rule dm)
  have 4: "t div 3600000000 = n * 24 + h" using dm(1) [OF assms(2)] div_mult2_eq [of t 60000000 60] by (simp add: 3)
  show "t div 3600000000 mod 24 = h" unfolding 4 using assms(1) by (rule dm)
  show "t div 86400000000 = n" using dm(1) [OF assms(1)] div_mult2_eq [of t 3600000000 24] by (simp add: 4)
qed

lemma time_of_day_sum:
  "(t :: nat) = t div 86400000000 * 86400000000 + t div 3600000000 mod 24 * 3600000000 + t div 60000000 mod 60 * 60000000
     + t div 1000000 mod 60 * 1000000 + t mod 1000000"
proof -
  define a where "a = t div 1000000"
  define b where "b = a div 60"
  define c where "c = b div 60"
  have d: "t div 60000000 = b" "t div 3600000000 = c" "t div 86400000000 = c div 24"
    using div_mult2_eq [of t 1000000 60] div_mult2_eq [of t 60000000 60] div_mult2_eq [of t 3600000000 24] unfolding a_def b_def c_def by simp_all
  have "t = a * 1000000 + t mod 1000000" "a = b * 60 + a mod 60" "b = c * 60 + b mod 60" "c = c div 24 * 24 + c mod 24"
    unfolding a_def b_def c_def by (simp_all only: div_mult_mod_eq)
  moreover have "t = a * 1000000 + t' \<Longrightarrow> a = b * 60 + a' \<Longrightarrow> b = c * 60 + b' \<Longrightarrow> c = e * 24 + c' \<Longrightarrow>
      t = e * 86400000000 + c' * 3600000000 + b' * 60000000 + a' * 1000000 + t'" for a' b' c' e t' :: nat
    by simp
  ultimately show ?thesis unfolding d a_def [symmetric] by blast
qed

lemma valid_tick:
  assumes v: "cellRtcCheckValid d = CELL_OK"
  obtains n where "civil n (unat (year d)) (unat (month d)) (unat (day d))" "n < 3652059"
    "unat (date_time_to_tick d) = n * 86400000000 + unat (hour d) * 3600000000 + unat (minute d) * 60000000 + unat (second d) * 1000000 + unat (microsecond d)"
proof -
  obtain n where c: "civil n (unat (year d)) (unat (month d)) (unat (day d))" and r: "unat (year d) < 10000" "unat (hour d) < 24" "unat (minute d) < 60"
    "unat (second d) < 60" "unat (microsecond d) < 1000000"
    using v unfolding cellRtcCheckValid_iff by blast
  have n: "n < 3652059" using civil_year [OF c] year_start_mono [of "unat (year d)" 9999] r(1) by (simp add: year_start_def)
  let ?t = "n * 86400000000 + unat (hour d) * 3600000000 + unat (minute d) * 60000000 + unat (second d) * 1000000 + unat (microsecond d)"
  have "?t < 18446744073709551616" using n r(2-) by linarith
  then have "unat (of_nat ?t :: u64) = ?t" by (intro unat_of_nat_small) simp
  then show ?thesis using that [OF c n] unfolding date_time_to_tick_spec [OF c r(1)] by blast
qed

lemma valid_tick_bound:
  assumes v: "cellRtcCheckValid d = CELL_OK"
  shows "unat (date_time_to_tick d) < 315537897600000000"
proof -
  have "unat (hour d) < 24" "unat (minute d) < 60" "unat (second d) < 60" "unat (microsecond d) < 1000000" using v unfolding cellRtcCheckValid_iff by blast+
  then show ?thesis using valid_tick [OF v] by fastforce
qed

lemma date_eqI: "unat (year d) = unat (year e) \<Longrightarrow> unat (month d) = unat (month e) \<Longrightarrow> unat (day d) = unat (day e) \<Longrightarrow> unat (hour d) = unat (hour e)
    \<Longrightarrow> unat (minute d) = unat (minute e) \<Longrightarrow> unat (second d) = unat (second e) \<Longrightarrow> unat (microsecond d) = unat (microsecond e) \<Longrightarrow> d = (e :: CellRtcDateTime)"
  by (simp add: word_unat_eq_iff CellRtcDateTime.equality)

lemma tick_of_valid:
  assumes v: "cellRtcCheckValid d = CELL_OK"
  shows "tick_to_date_time (date_time_to_tick d) = d"
proof -
  let ?t = "date_time_to_tick d"
  obtain n where n: "civil n (unat (year d)) (unat (month d)) (unat (day d))" "n < 3652059"
    "unat ?t = n * 86400000000 + unat (hour d) * 3600000000 + unat (minute d) * 60000000 + unat (second d) * 1000000 + unat (microsecond d)"
    using valid_tick [OF v] by blast
  have r: "unat (hour d) < 24" "unat (minute d) < 60" "unat (second d) < 60" "unat (microsecond d) < 1000000" using v unfolding cellRtcCheckValid_iff by blast+
  note td = time_of_day [OF r, of n, folded n(3)]
  have "unat ?t div 86400000000 < year_start 65534" using td(1) n(2) by (simp add: year_start_def)
  note sp = tick_to_date_time_spec [OF this, unfolded td]
  show ?thesis using civil_unique [OF sp(1) n(1)] sp(2-) by (intro date_eqI) simp_all
qed

lemma valid_of_tick:
  fixes t :: u64
  assumes "unat t < 315537897600000000"
  shows "cellRtcCheckValid (tick_to_date_time t) = CELL_OK" "date_time_to_tick (tick_to_date_time t) = t"
proof -
  let ?d = "tick_to_date_time t"
  have n: "unat t div 86400000000 < 3652059" using assms by (simp add: div_less_iff_less_mult)
  then have "unat t div 86400000000 < year_start 65534" by (simp add: year_start_def)
  note sp = tick_to_date_time_spec [OF this]
  have "year_start (unat (year ?d) - 1) < year_start 9999" using civil_year [OF sp(1)] n by (simp add: year_start_def [of 9999])
  then have y: "unat (year ?d) < 10000" by (simp add: year_start_strict)
  show v: "cellRtcCheckValid ?d = CELL_OK" using sp y unfolding cellRtcCheckValid_iff by auto
  show "date_time_to_tick ?d = t"
    unfolding date_time_to_tick_spec [OF sp(1) y] sp(2-) time_of_day_sum [symmetric] by simp
qed

text \<open>C14: Dates and ticks correspond one to one. \<^verbatim>\<open>cellRtcGetTick\<close> gives every date that \<^verbatim>\<open>cellRtcCheckValid\<close> accepts (years 1 to 9999
  of the Gregorian calendar, to the microsecond) a tick below 315537897600000000, from which \<^verbatim>\<open>cellRtcSetTick\<close> gets the date
  back; and every tick below that bound is converted to a valid date, from which \<^verbatim>\<open>cellRtcGetTick\<close> gets the tick back.
\<close>

theorem rtc_roundtrip:
  "(cellRtcCheckValid d = CELL_OK \<longrightarrow> (\<exists>t. cellRtcGetTick True True d t0 = (CELL_OK, t) \<and> unat t < 315537897600000000 \<and> cellRtcSetTick True True d0 t = (CELL_OK, d)))
   \<and> (unat t < 315537897600000000 \<longrightarrow> (\<exists>d. cellRtcSetTick True True d0 t = (CELL_OK, d) \<and> cellRtcCheckValid d = CELL_OK \<and> cellRtcGetTick True True d t0 = (CELL_OK, t)))"
proof -
  have g: "cellRtcGetTick True True d t0 = (CELL_OK, date_time_to_tick d)" if "cellRtcCheckValid d = CELL_OK" for d
    using that by (auto simp: cellRtcGetTick_def cellRtcCheckValid_def split: if_splits)
  then show ?thesis using tick_of_valid valid_of_tick valid_tick_bound by (simp add: cellRtcSetTick_def)
qed

theorem rtc_roundtrip_witness:
  "cellRtcGetTick True True \<lparr>year = 2024, month = 2, day = 29, hour = 23, minute = 59, second = 59, microsecond = 999999\<rparr> 0 = (CELL_OK, 63844847999999999)
   \<and> cellRtcSetTick True True \<lparr>year = 1, month = 1, day = 1, hour = 0, minute = 0, second = 0, microsecond = 0\<rparr> 63844847999999999
     = (CELL_OK, \<lparr>year = 2024, month = 2, day = 29, hour = 23, minute = 59, second = 59, microsecond = 999999\<rparr>)"
proof -
  let ?d = "\<lparr>year = 2024, month = 2, day = 29, hour = 23, minute = 59, second = 59, microsecond = 999999\<rparr> :: CellRtcDateTime"
  let ?e = "\<lparr>year = 1, month = 1, day = 1, hour = 0, minute = 0, second = 0, microsecond = 0\<rparr> :: CellRtcDateTime"
  have "cellRtcCheckValid ?d = CELL_OK" by code_simp
  with rtc_roundtrip [of ?d 0 ?e 0] obtain t where "cellRtcGetTick True True ?d 0 = (CELL_OK, t)" "cellRtcSetTick True True ?e t = (CELL_OK, ?d)" by blast
  moreover have "cellRtcGetTick True True ?d 0 = (CELL_OK, 63844847999999999)" by code_simp
  ultimately show ?thesis by simp
qed

end
