(* ===== verification/Cell_Rtc_Ticks.thy ===== *)
theory Cell_Rtc_Ticks
  imports Cell_Rtc
begin

text \<open>
  The rest of \<^verbatim>\<open>ps3fw/cellRtc.cpp\<close> without its text formats: arithmetic on ticks, the current time, time zones, and the DOS, Unix,
  system and Windows time stamps. What the system calls \<^verbatim>\<open>sys_time_get_current_time\<close>, \<^verbatim>\<open>sys_time_get_timezone\<close>,
  \<^verbatim>\<open>sys_time_set_current_time\<close>, \<^verbatim>\<open>sys_time_set_timezone\<close> and \<^verbatim>\<open>sys_ss_secure_rtc\<close> return is an argument. Signed arguments are integers.
\<close>

section \<open>Arithmetic on ticks\<close>

text \<open>Division and remainder of C++, which round towards zero.\<close>

definition c_div :: "int \<Rightarrow> int \<Rightarrow> int" where
  "c_div a b = sgn a * sgn b * (\<bar>a\<bar> div \<bar>b\<bar>)"

definition c_mod :: "int \<Rightarrow> int \<Rightarrow> int" where
  "c_mod a b = a - c_div a b * b"

definition tick_add :: "bool \<Rightarrow> bool \<Rightarrow> u64 \<Rightarrow> u64 \<Rightarrow> int \<Rightarrow> error_code \<times> u64" where
  "tick_add ok0 ok1 t0 t1 delta =
     (if \<not> ok0 \<or> \<not> ok1 then (CELL_RTC_ERROR_INVALID_POINTER, t0) else (CELL_OK, t1 + word_of_int delta))"

definition cellRtcTickAddTicks :: "bool \<Rightarrow> bool \<Rightarrow> u64 \<Rightarrow> u64 \<Rightarrow> int \<Rightarrow> error_code \<times> u64" where
  "cellRtcTickAddTicks ok0 ok1 t0 t1 add = tick_add ok0 ok1 t0 t1 add"

definition cellRtcTickAddMicroseconds :: "bool \<Rightarrow> bool \<Rightarrow> u64 \<Rightarrow> u64 \<Rightarrow> int \<Rightarrow> error_code \<times> u64" where
  "cellRtcTickAddMicroseconds ok0 ok1 t0 t1 add = tick_add ok0 ok1 t0 t1 add"

definition cellRtcTickAddSeconds :: "bool \<Rightarrow> bool \<Rightarrow> u64 \<Rightarrow> u64 \<Rightarrow> int \<Rightarrow> error_code \<times> u64" where
  "cellRtcTickAddSeconds ok0 ok1 t0 t1 add = tick_add ok0 ok1 t0 t1 (add * uint cellRtcGetTickResolution)"

definition cellRtcTickAddMinutes :: "bool \<Rightarrow> bool \<Rightarrow> u64 \<Rightarrow> u64 \<Rightarrow> int \<Rightarrow> error_code \<times> u64" where
  "cellRtcTickAddMinutes ok0 ok1 t0 t1 add = tick_add ok0 ok1 t0 t1 (add * 60 * uint cellRtcGetTickResolution)"

definition cellRtcTickAddHours :: "bool \<Rightarrow> bool \<Rightarrow> u64 \<Rightarrow> u64 \<Rightarrow> int \<Rightarrow> error_code \<times> u64" where
  "cellRtcTickAddHours ok0 ok1 t0 t1 add = tick_add ok0 ok1 t0 t1 (add * 60 * 60 * uint cellRtcGetTickResolution)"

definition cellRtcTickAddDays :: "bool \<Rightarrow> bool \<Rightarrow> u64 \<Rightarrow> u64 \<Rightarrow> int \<Rightarrow> error_code \<times> u64" where
  "cellRtcTickAddDays ok0 ok1 t0 t1 add = tick_add ok0 ok1 t0 t1 (add * 60 * 60 * 24 * uint cellRtcGetTickResolution)"

definition cellRtcTickAddWeeks :: "bool \<Rightarrow> bool \<Rightarrow> u64 \<Rightarrow> u64 \<Rightarrow> int \<Rightarrow> error_code \<times> u64" where
  "cellRtcTickAddWeeks ok0 ok1 t0 t1 add = tick_add ok0 ok1 t0 t1 (add * 60 * 60 * 24 * 7 * uint cellRtcGetTickResolution)"

text \<open>
  The days of the month a date is moved to; a month that does not exist gives the error code, as a negative number,
  whose lower half then becomes the day. \<open>move_date\<close> is the end of \<^verbatim>\<open>cellRtcTickAddMonths\<close> and \<^verbatim>\<open>cellRtcTickAddYears\<close>.
\<close>

definition month_days :: "u16 \<Rightarrow> u16 \<Rightarrow> int" where
  "month_days y m =
     (if y = 0 \<or> m < 1 \<or> m > 12 then sint CELL_RTC_ERROR_INVALID_ARG else uint (days_in_month y ! unat (m - 1)))"

definition move_date :: "bool \<Rightarrow> u64 \<Rightarrow> CellRtcDateTime \<Rightarrow> u16 \<Rightarrow> u16 \<Rightarrow> u64" where
  "move_date ok0 t0 d y m =
     (let d1 = (if month_days y m < uint (day d) then d\<lparr>day := word_of_int (month_days y m)\<rparr> else d)
      in snd (cellRtcGetTick True ok0 (d1\<lparr>month := m, year := y\<rparr>) t0))"

definition cellRtcTickAddMonths :: "bool \<Rightarrow> bool \<Rightarrow> u64 \<Rightarrow> u64 \<Rightarrow> int \<Rightarrow> error_code \<times> u64" where
  "cellRtcTickAddMonths ok0 ok1 t0 t1 add =
     (if \<not> ok0 \<or> \<not> ok1 then (CELL_RTC_ERROR_INVALID_POINTER, t0)
      else
        let d = tick_to_date_time t1;
            total_months = s32 (uint (year d) * 12 + uint (month d) + add - 1);
            new_year = (word_of_int (c_div total_months 12) :: u16);
            new_month = (word_of_int (total_months - uint new_year * 12 + 1) :: u16)
        in (CELL_OK, move_date ok0 t0 d new_year new_month))"

definition cellRtcTickAddYears :: "bool \<Rightarrow> bool \<Rightarrow> u64 \<Rightarrow> u64 \<Rightarrow> int \<Rightarrow> error_code \<times> u64" where
  "cellRtcTickAddYears ok0 ok1 t0 t1 add =
     (if \<not> ok0 \<or> \<not> ok1 then (CELL_RTC_ERROR_INVALID_POINTER, t0)
      else
        let d = tick_to_date_time t1; new_year = (word_of_int (uint (year d) + add) :: u16)
        in (CELL_OK, move_date ok0 t0 d new_year (month d)))"

definition cellRtcCompareTick :: "u64 \<Rightarrow> u64 \<Rightarrow> int" where
  "cellRtcCompareTick t0 t1 = (if t1 \<le> t0 then (if t1 < t0 then 1 else 0) else -1)"

section \<open>The current time and time zones\<close>

definition now_tick :: "int \<Rightarrow> int \<Rightarrow> u64" where
  "now_tick sec nsec = word_of_int (c_div nsec 1000 + sec * uint cellRtcGetTickResolution) + RTC_MAGIC_OFFSET"

definition cellRtcGetCurrentTick :: "bool \<Rightarrow> error_code \<times> int \<times> int \<Rightarrow> u64 \<Rightarrow> error_code \<times> u64" where
  "cellRtcGetCurrentTick ok now t =
     (if \<not> ok then (CELL_RTC_ERROR_INVALID_POINTER, t)
      else case now of (ret, sec, nsec) \<Rightarrow> if sint ret < 0 then (ret, t) else (CELL_OK, now_tick sec nsec))"

definition cellRtcGetCurrentClock :: "bool \<Rightarrow> bool \<Rightarrow> error_code \<times> int \<times> int \<Rightarrow> CellRtcDateTime \<Rightarrow> int \<Rightarrow> error_code \<times> CellRtcDateTime" where
  "cellRtcGetCurrentClock ok var_ok now d time_zone =
     (if \<not> ok \<or> \<not> var_ok then (CELL_RTC_ERROR_INVALID_POINTER, d)
      else case now of (ret, sec, nsec) \<Rightarrow>
        if sint ret < 0 then (ret, d)
        else
          let t = now_tick sec nsec; t1 = snd (cellRtcTickAddMinutes var_ok var_ok t t time_zone)
          in (CELL_OK, snd (cellRtcSetTick ok var_ok d t1)))"

definition cellRtcGetCurrentClockLocalTime ::
    "bool \<Rightarrow> bool \<Rightarrow> error_code \<times> int \<times> int \<Rightarrow> error_code \<times> int \<times> int \<Rightarrow> CellRtcDateTime \<Rightarrow> error_code \<times> CellRtcDateTime" where
  "cellRtcGetCurrentClockLocalTime ok var_ok zone now d =
     (if \<not> ok then (CELL_RTC_ERROR_INVALID_POINTER, d)
      else case zone of (ret, timezone, summertime) \<Rightarrow>
        if sint ret < 0 then (ret, d) else cellRtcGetCurrentClock ok var_ok now d (s32 (timezone + summertime)))"

definition cellRtcConvertUtcToLocalTime :: "error_code \<times> int \<times> int \<Rightarrow> bool \<Rightarrow> bool \<Rightarrow> u64 \<Rightarrow> u64 \<Rightarrow> error_code \<times> u64" where
  "cellRtcConvertUtcToLocalTime zone utc_ok local_ok utc local =
     (case zone of (ret, timezone, summertime) \<Rightarrow>
        if -1 < sint ret then cellRtcTickAddMinutes local_ok utc_ok local utc (s32 (timezone + summertime)) else (ret, local))"

definition cellRtcConvertLocalTimeToUtc :: "error_code \<times> int \<times> int \<Rightarrow> bool \<Rightarrow> bool \<Rightarrow> u64 \<Rightarrow> u64 \<Rightarrow> error_code \<times> u64" where
  "cellRtcConvertLocalTimeToUtc zone local_ok utc_ok local utc =
     (case zone of (ret, timezone, summertime) \<Rightarrow>
        if -1 < sint ret then cellRtcTickAddMinutes utc_ok local_ok utc local (s32 (- s32 (timezone + summertime))) else (ret, utc))"

definition cellRtcGetCurrentSecureTick :: "bool \<Rightarrow> error_code \<times> u64 \<times> u64 \<Rightarrow> u64 \<Rightarrow> error_code \<times> u64" where
  "cellRtcGetCurrentSecureTick ok secure t =
     (if \<not> ok then (CELL_RTC_ERROR_INVALID_POINTER, t)
      else case secure of (ret, time, status) \<Rightarrow>
        if sint ret \<ge> 0 then (ret, RTC_SYSTEM_TIME_MIN + time * ucast cellRtcGetTickResolution)
        else if ret = 0x8001050f then
          (if status = 1 \<or> status = 8 then CELL_RTC_ERROR_NO_CLOCK
           else if status = 2 then CELL_RTC_ERROR_NOT_INITIALIZED
           else if status = 4 then CELL_RTC_ERROR_INVALID_VALUE else ret, RTC_SYSTEM_TIME_MIN)
        else (ret, RTC_SYSTEM_TIME_MIN))"

text \<open>Setting the clock: \<open>set_time\<close>, \<open>set_zone\<close> and \<open>secure_rtc\<close> are the system calls.\<close>

definition cellRtcSetCurrentSecureTick :: "(u64 \<Rightarrow> u64 \<Rightarrow> error_code) \<Rightarrow> u64 option \<Rightarrow> error_code" where
  "cellRtcSetCurrentSecureTick secure_rtc tick =
     (case tick of
        None \<Rightarrow> CELL_RTC_ERROR_INVALID_POINTER
      | Some t \<Rightarrow>
          if t > RTC_SYSTEM_TIME_MAX then CELL_RTC_ERROR_INVALID_VALUE
          else secure_rtc 0x3003 ((t - RTC_SYSTEM_TIME_MIN) div ucast cellRtcGetTickResolution))"

definition cellRtcSetCurrentTick :: "(u64 \<Rightarrow> u64 \<Rightarrow> error_code) \<Rightarrow> u64 option \<Rightarrow> error_code" where
  "cellRtcSetCurrentTick set_time tick =
     (case tick of
        None \<Rightarrow> CELL_RTC_ERROR_INVALID_POINTER
      | Some t \<Rightarrow>
          if t < RTC_MAGIC_OFFSET then CELL_RTC_ERROR_INVALID_VALUE
          else
            let unix_time = t - RTC_MAGIC_OFFSET;
                ret = set_time (unix_time div ucast cellRtcGetTickResolution) (unix_time mod ucast cellRtcGetTickResolution * 1000)
            in if sint ret \<ge> 0 then CELL_OK else ret)"

definition cellRtcSetConf :: "(u32 \<Rightarrow> u32 \<Rightarrow> error_code) \<Rightarrow> u32 \<Rightarrow> u32 \<Rightarrow> error_code" where
  "cellRtcSetConf set_zone timezone summertime = set_zone timezone summertime"

section \<open>Time stamps\<close>

definition cellRtcGetDosTime :: "bool \<Rightarrow> bool \<Rightarrow> CellRtcDateTime \<Rightarrow> u32 \<Rightarrow> error_code \<times> u32" where
  "cellRtcGetDosTime ok dos_ok d dos =
     (if \<not> ok \<or> \<not> dos_ok then (CELL_RTC_ERROR_INVALID_POINTER, dos)
      else if year d < 1980 then (-1, 0)
      else if year d \<ge> 2108 then (-1, 0xff9fbf7d)
      else
        let ymd = push_bit 9 ((ucast (year d) - 1980) AND 0x7f) OR push_bit 5 (ucast (month d) AND 0xf) OR (ucast (day d) AND 0x1f);
            hms = push_bit 11 (ucast (hour d) AND 0x1f) OR push_bit 5 (ucast (minute d) AND 0x3f) OR (drop_bit 1 (ucast (second d)) AND 0x1f)
        in (CELL_OK, push_bit 16 ymd OR hms))"

definition cellRtcSetDosTime :: "bool \<Rightarrow> CellRtcDateTime \<Rightarrow> u32 \<Rightarrow> error_code \<times> CellRtcDateTime" where
  "cellRtcSetDosTime ok d dos =
     (if \<not> ok then (CELL_RTC_ERROR_INVALID_POINTER, d)
      else
        let hms = dos AND 0xffff; ymd = drop_bit 16 dos
        in (CELL_OK, \<lparr>year = ucast (drop_bit 9 ymd + 1980), month = ucast (drop_bit 5 ymd AND 0xf), day = ucast (ymd AND 0x1f),
              hour = ucast (drop_bit 11 hms), minute = ucast (drop_bit 5 hms AND 0x3f), second = ucast (push_bit 1 hms AND 0x3e), microsecond = 0\<rparr>))"

text \<open>The tick of a date in a variable of the function, which is zero before.\<close>

definition local_tick :: "bool \<Rightarrow> CellRtcDateTime \<Rightarrow> u64" where
  "local_tick ok d = snd (cellRtcGetTick ok True d 0)"

definition cellRtcGetSystemTime :: "bool \<Rightarrow> bool \<Rightarrow> CellRtcDateTime \<Rightarrow> u64 \<Rightarrow> error_code \<times> u64" where
  "cellRtcGetSystemTime ok out_ok d stamp =
     (if \<not> ok \<or> \<not> out_ok then (CELL_RTC_ERROR_INVALID_POINTER, stamp)
      else
        let t = local_tick ok d in
        if t < RTC_SYSTEM_TIME_MIN then (CELL_RTC_ERROR_INVALID_VALUE, 0)
        else if t \<ge> RTC_SYSTEM_TIME_MAX + ucast cellRtcGetTickResolution then
          (CELL_RTC_ERROR_INVALID_VALUE, (RTC_SYSTEM_TIME_MAX - RTC_SYSTEM_TIME_MIN) div ucast cellRtcGetTickResolution)
        else (CELL_OK, (t - RTC_SYSTEM_TIME_MIN) div ucast cellRtcGetTickResolution))"

definition cellRtcGetTime_t :: "bool \<Rightarrow> bool \<Rightarrow> CellRtcDateTime \<Rightarrow> u64 \<Rightarrow> error_code \<times> u64" where
  "cellRtcGetTime_t ok out_ok d stamp =
     (if \<not> ok \<or> \<not> out_ok then (CELL_RTC_ERROR_INVALID_POINTER, stamp)
      else
        let t = local_tick ok d in
        if t < RTC_MAGIC_OFFSET then (CELL_RTC_ERROR_INVALID_VALUE, 0)
        else (CELL_OK, (t - RTC_MAGIC_OFFSET) div ucast cellRtcGetTickResolution))"

definition cellRtcGetWin32FileTime :: "bool \<Rightarrow> bool \<Rightarrow> CellRtcDateTime \<Rightarrow> u64 \<Rightarrow> error_code \<times> u64" where
  "cellRtcGetWin32FileTime ok out_ok d stamp =
     (if \<not> ok \<or> \<not> out_ok then (CELL_RTC_ERROR_INVALID_POINTER, stamp)
      else
        let t = local_tick ok d in
        if t < RTC_FILETIME_OFFSET then (CELL_RTC_ERROR_INVALID_VALUE, 0)
        else (CELL_OK, (t - RTC_FILETIME_OFFSET) * 10))"

definition cellRtcSetTime_t :: "bool \<Rightarrow> CellRtcDateTime \<Rightarrow> u64 \<Rightarrow> error_code \<times> CellRtcDateTime" where
  "cellRtcSetTime_t ok d stamp =
     (if \<not> ok then (CELL_RTC_ERROR_INVALID_POINTER, d)
      else (CELL_OK, snd (cellRtcSetTick ok True d (stamp * ucast cellRtcGetTickResolution + RTC_MAGIC_OFFSET))))"

definition cellRtcSetSystemTime :: "bool \<Rightarrow> CellRtcDateTime \<Rightarrow> u64 \<Rightarrow> error_code \<times> CellRtcDateTime" where
  "cellRtcSetSystemTime ok d stamp =
     (if \<not> ok then (CELL_RTC_ERROR_INVALID_POINTER, d)
      else (CELL_OK, snd (cellRtcSetTick ok True d (stamp * ucast cellRtcGetTickResolution + RTC_SYSTEM_TIME_MIN))))"

definition cellRtcSetWin32FileTime :: "bool \<Rightarrow> CellRtcDateTime \<Rightarrow> u64 \<Rightarrow> error_code \<times> CellRtcDateTime" where
  "cellRtcSetWin32FileTime ok d stamp =
     (if \<not> ok then (CELL_RTC_ERROR_INVALID_POINTER, d) else cellRtcSetTick ok True d (stamp div 10 + RTC_FILETIME_OFFSET))"

section \<open>Questions about the calendar\<close>

definition cellRtcIsLeapYear :: "int \<Rightarrow> error_code" where
  "cellRtcIsLeapYear y =
     (if y < 1 then CELL_RTC_ERROR_INVALID_ARG else if is_leap_year (word_of_int y) then 1 else 0)"

definition cellRtcGetDaysInMonth :: "int \<Rightarrow> int \<Rightarrow> error_code" where
  "cellRtcGetDaysInMonth y m =
     (if y \<le> 0 \<or> m \<le> 0 \<or> m > 12 then CELL_RTC_ERROR_INVALID_ARG
      else ucast ((if is_leap_year (word_of_int y) then DAYS_IN_MONTH_LEAP else DAYS_IN_MONTH) ! nat (m - 1)))"

definition cellRtcGetDayOfWeek :: "int \<Rightarrow> int \<Rightarrow> int \<Rightarrow> int" where
  "cellRtcGetDayOfWeek y m d =
     (let y' = (if m = 1 \<or> m = 2 then y - 1 else y); m' = (if m = 1 \<or> m = 2 then m + 12 else m)
      in c_mod (c_div (m' * 13 + 8) 5 + y' + c_div y' 4 - c_div y' 100 + c_div y' 400 + d) 7)"

section \<open>Days of the week\<close>

lemma c_div_pos: "0 \<le> a \<Longrightarrow> 0 < b \<Longrightarrow> c_div a b = a div b"
  by (cases "a = 0") (simp_all add: c_div_def)

lemma c_mod_pos: "0 \<le> a \<Longrightarrow> 0 < b \<Longrightarrow> c_mod a b = a mod b"
  by (simp add: c_mod_def c_div_pos minus_div_mult_eq_mod)

lemma c_div_nat: "c_div (int a) (numeral k) = int (a div numeral k)"
  by (simp add: c_div_pos zdiv_int)

text \<open>The leap days up to and including a year; the days before a year modulo 7.\<close>

definition leap_days :: "nat \<Rightarrow> nat" where
  "leap_days y = year_start y - 365 * y"

lemma year_start_leap_days: "year_start y = 365 * y + leap_days y" "leap_days y + y div 100 = y div 4 + y div 400"
proof -
  have "y div 100 \<le> y div 4" by linarith
  then show "year_start y = 365 * y + leap_days y" "leap_days y + y div 100 = y div 4 + y div 400"
    by (simp_all add: leap_days_def year_start_def add.assoc)
qed

lemma leap_days_Suc: "leap_days (Suc y) = leap_days y + (if leap (Suc y) then 1 else 0)"
  using year_start_Suc [of y] year_start_leap_days(1) [of y] year_start_leap_days(1) [of "Suc y"] by (simp split: if_splits)

lemma month_weekday:
  assumes "1 \<le> m" "m \<le> 12"
  shows "((if m \<le> 2 then m + 12 else m) * 13 + 8) div 5 mod 7 = (month_start l (m - 1) + (if m \<le> 2 then 0 else 6 - (if l then 1 else 0))) mod 7"
  using assms(1)
  by (rule month_cases [OF assms(2), of "\<lambda>m. 1 \<le> m \<longrightarrow> ((if m \<le> 2 then m + 12 else m) * 13 + 8) div 5 mod 7
      = (month_start l (m - 1) + (if m \<le> 2 then 0 else 6 - (if l then 1 else 0))) mod 7", THEN mp, rotated -1])
    (simp_all add: month_start_def)

lemma day_of_week_civil:
  assumes c: "civil n y m d"
  shows "cellRtcGetDayOfWeek (int y) (int m) (int d) = int ((n + 1) mod 7)"
proof -
  have r: "1 \<le> y" "1 \<le> m" "m \<le> 12" "1 \<le> d" and n: "n = year_start (y - 1) + month_start (leap y) (m - 1) + (d - 1)" using c by (simp_all add: civil_def)
  define M where "M = (if m \<le> 2 then m + 12 else m)"
  define Y where "Y = (if m \<le> 2 then y - 1 else y)"
  have w0: "cellRtcGetDayOfWeek (int y) (int m) (int d) = c_mod (c_div (int (M * 13 + 8)) 5 + int Y + c_div (int Y) 4 - c_div (int Y) 100 + c_div (int Y) 400 + int d) 7"
    using r(1,2) by (simp add: cellRtcGetDayOfWeek_def Let_def M_def Y_def of_nat_diff)
  have e: "a + int Y + int (Y div 4) - int (Y div 100) + int (Y div 400) + int d = a + int (Y + leap_days Y) + int d" for a
    using arg_cong [OF year_start_leap_days(2) [of Y], of int] by simp
  have w: "cellRtcGetDayOfWeek (int y) (int m) (int d) = int (((M * 13 + 8) div 5 + (Y + leap_days Y) + d) mod 7)"
    unfolding w0 c_div_nat e by (simp add: c_mod_pos zmod_int)
  have L: "Y + leap_days Y = (y - 1) + leap_days (y - 1) + (if m \<le> 2 then 0 else 1 + (if leap y then 1 else 0))"
    using r(1) leap_days_Suc [of "y - 1"] by (simp add: Y_def)
  define x where "x = (if m \<le> 2 then 0 else 6 - (if leap y then 1 else 0) :: nat)"
  define z where "z = (if m \<le> 2 then 0 else 1 + (if leap y then 1 else 0) :: nat)"
  have xz: "x + z = 0 \<or> x + z = 7" by (simp add: x_def z_def)
  have "((M * 13 + 8) div 5) mod 7 = (month_start (leap y) (m - 1) + x) mod 7" using month_weekday [OF r(2,3), of "leap y"] by (simp add: M_def x_def)
  then have "((M * 13 + 8) div 5 + (Y + leap_days Y) + d) mod 7 = (month_start (leap y) (m - 1) + x + (Y + leap_days Y) + d) mod 7"
    by (intro mod_add_cong refl)
  also have "\<dots> = (y - 1 + leap_days (y - 1) + month_start (leap y) (m - 1) + d + (x + z)) mod 7" unfolding L z_def by (simp add: ac_simps)
  also have "\<dots> = (y - 1 + leap_days (y - 1) + month_start (leap y) (m - 1) + d) mod 7" using xz by auto
  also have "\<dots> = (n + 1) mod 7"
  proof -
    have "n + 1 = 7 * (52 * (y - 1)) + (y - 1 + leap_days (y - 1) + month_start (leap y) (m - 1) + d)" using n r(4) year_start_leap_days(1) [of "y - 1"] by simp
    then show ?thesis by (simp only: mod_mult_self4)
  qed
  finally show ?thesis using w by simp
qed

text \<open>C37: The day of the week \<^verbatim>\<open>cellRtcGetDayOfWeek\<close> computes with its closed formula is the one found by counting days: for every
  valid date it is the number of days since the first day of year 1, a Monday, modulo 7, Sunday being 0.
\<close>

theorem rtc_day_of_week:
  assumes "cellRtcCheckValid d = CELL_OK"
  shows "cellRtcGetDayOfWeek (uint (year d)) (uint (month d)) (uint (day d)) = (uint (date_time_to_tick d) div 86400000000 + 1) mod 7"
proof -
  obtain n where n: "civil n (unat (year d)) (unat (month d)) (unat (day d))"
    "unat (date_time_to_tick d) = n * 86400000000 + unat (hour d) * 3600000000 + unat (minute d) * 60000000 + unat (second d) * 1000000 + unat (microsecond d)"
    using valid_tick [OF assms] by blast
  have "unat (hour d) < 24" "unat (minute d) < 60" "unat (second d) < 60" "unat (microsecond d) < 1000000" using assms unfolding cellRtcCheckValid_iff by blast+
  from time_of_day(1) [OF this, of n, folded n(2)] have "uint (date_time_to_tick d) div 86400000000 = int n" by (metis zdiv_int of_nat_numeral uint_nat)
  then show ?thesis using day_of_week_civil [OF n(1)] by (simp add: zmod_int add.commute)
qed

theorem rtc_day_of_week_witness:
  "cellRtcGetDayOfWeek 2024 2 29 = 4
   \<and> (uint (date_time_to_tick \<lparr>year = 2024, month = 2, day = 29, hour = 12, minute = 0, second = 0, microsecond = 0\<rparr>) div 86400000000 + 1) mod 7 = 4"
proof -
  have v: "cellRtcCheckValid \<lparr>year = 2024, month = 2, day = 29, hour = 12, minute = 0, second = 0, microsecond = 0\<rparr> = CELL_OK" by code_simp
  have "cellRtcGetDayOfWeek 2024 2 29 = 4" by code_simp
  then show ?thesis using rtc_day_of_week [OF v] by simp
qed

section \<open>Adding months\<close>

definition moved_date :: "u16 \<Rightarrow> u16 \<Rightarrow> CellRtcDateTime \<Rightarrow> CellRtcDateTime" where
  "moved_date y m d = d\<lparr>year := y, month := m, day := min (day d) (ucast (days_in_month y ! unat (m - 1)))\<rparr>"

lemma days_in_month_word:
  assumes "1 \<le> unat m" "unat m \<le> 12"
  shows "unat (days_in_month y ! unat (m - 1 :: u16)) = month_start (leap (unat y)) (unat m) - month_start (leap (unat y)) (unat m - 1)"
    "unat (ucast (days_in_month y ! unat (m - 1)) :: u16) = unat (days_in_month y ! unat (m - 1))" "28 \<le> unat (days_in_month y ! unat (m - 1))"
proof -
  have m: "unat (m - 1) = unat m - 1" using assms(1) by (simp add: unat_exact(3))
  show 1: "unat (days_in_month y ! unat (m - 1)) = month_start (leap (unat y)) (unat m) - month_start (leap (unat y)) (unat m - 1)"
    unfolding m by (rule days_in_month_nth [OF assms])
  show "unat (ucast (days_in_month y ! unat (m - 1)) :: u16) = unat (days_in_month y ! unat (m - 1))"
    using unat_bound [of "days_in_month y ! unat (m - 1)"] by (intro unat_ucast_small) simp
  have "28 \<le> month_start l k - month_start l (k - 1)" if "1 \<le> k" "k \<le> 12" for l k
    using that(1) by (rule month_cases [OF that(2), of "\<lambda>k. 1 \<le> k \<longrightarrow> 28 \<le> month_start l k - month_start l (k - 1)", THEN mp, rotated -1])
      (simp_all add: month_start_def)
  then show "28 \<le> unat (days_in_month y ! unat (m - 1))" using 1 assms by simp
qed

lemma moved_valid:
  assumes v: "cellRtcCheckValid d = CELL_OK" and y: "1 \<le> unat y" "unat y < 10000" and m: "1 \<le> unat m" "unat m \<le> 12"
  shows "cellRtcCheckValid (moved_date y m d) = CELL_OK" "snd (cellRtcGetTick True True (moved_date y m d) t0) = date_time_to_tick (moved_date y m d)"
    "move_date True t0 d y m = date_time_to_tick (moved_date y m d)"
proof -
  note w = days_in_month_word [OF m, of y]
  have d: "1 \<le> unat (day d)" "unat (hour d) < 24" "unat (minute d) < 60" "unat (second d) < 60" "unat (microsecond d) < 1000000"
    using v unfolding cellRtcCheckValid_iff civil_def by blast+
  have "unat (min (day d) (ucast (days_in_month y ! unat (m - 1)))) = min (unat (day d)) (unat (days_in_month y ! unat (m - 1)))"
    using w(2) by (simp add: min_def word_le_nat_alt)
  then have "\<exists>n. civil n (unat y) (unat m) (unat (min (day d) (ucast (days_in_month y ! unat (m - 1)))))"
    using y(1) m d(1) w by (auto simp: civil_def)
  then show 1: "cellRtcCheckValid (moved_date y m d) = CELL_OK" using y(2) d(2-) unfolding cellRtcCheckValid_iff by (simp add: moved_date_def)
  show 2: "snd (cellRtcGetTick True True (moved_date y m d) t0) = date_time_to_tick (moved_date y m d)"
    using 1 by (auto simp: cellRtcGetTick_def cellRtcCheckValid_def split: if_splits)
  have md: "month_days y m = uint (ucast (days_in_month y ! unat (m - 1)) :: u16)"
    using y(1) m w(2) by (auto simp: month_days_def word_less_nat_alt unat_eq_0 uint_nat simp del: of_nat_unat)
  have "(if month_days y m < uint (day d) then d\<lparr>day := word_of_int (month_days y m)\<rparr> else d)\<lparr>month := m, year := y\<rparr> = moved_date y m d"
    unfolding md moved_date_def by (auto simp: min_def not_less word_le_def)
  then show "move_date True t0 d y m = date_time_to_tick (moved_date y m d)" unfolding move_date_def Let_def using 2 by simp
qed

lemma add_months:
  assumes v: "cellRtcCheckValid d = CELL_OK" and y: "1 \<le> unat y" "unat y < 10000" and m: "1 \<le> unat m" "unat m \<le> 12"
  shows "cellRtcTickAddMonths True True t0 (date_time_to_tick d) (12 * (uint y - uint (year d)) + (uint m - uint (month d)))
    = (CELL_OK, date_time_to_tick (moved_date y m d))"
proof -
  have i: "1 \<le> uint m" "uint m \<le> 12" "1 \<le> uint y" "uint y < 10000" using y m by (simp_all add: uint_nat del: of_nat_unat)
  let ?k = "12 * uint y + uint m - 1"
  have "uint (year d) * 12 + uint (month d) + (12 * (uint y - uint (year d)) + (uint m - uint (month d))) - 1 = ?k" by simp
  moreover have "s32 ?k = ?k" using i by (intro s32_id) simp_all
  moreover have "?k = (uint m - 1) + uint y * 12" by simp
  then have "?k div 12 = uint y" using i by simp
  then have "word_of_int (c_div ?k 12) = y" using i by (simp add: c_div_pos)
  moreover have "(word_of_int (?k - uint y * 12 + 1) :: u16) = m" by simp
  ultimately show ?thesis
    unfolding cellRtcTickAddMonths_def Let_def tick_of_valid [OF v] using moved_valid(3) [OF assms] by simp
qed

lemma moved_back: "cellRtcCheckValid d = CELL_OK \<Longrightarrow> unat (day d) \<le> 28 \<Longrightarrow> 1 \<le> unat m \<Longrightarrow> unat m \<le> 12 \<Longrightarrow>
    moved_date (year d) (month d) (moved_date y m d) = d"
proof -
  assume a: "cellRtcCheckValid d = CELL_OK" "unat (day d) \<le> 28" "1 \<le> unat m" "unat m \<le> 12"
  then have r: "1 \<le> unat (month d)" "unat (month d) \<le> 12" unfolding cellRtcCheckValid_iff civil_def by blast+
  have "min (day d) (ucast (days_in_month y ! unat (m - 1))) = day d" if "1 \<le> unat m" "unat m \<le> 12" for y and m :: u16
    using days_in_month_word(2,3) [OF that, of y] a(2) by (simp add: min_def word_le_nat_alt)
  then show ?thesis using a(3,4) r by (simp add: moved_date_def)
qed

text \<open>C38: Adding months moves a date to the month that many months away and keeps the day, or takes the last day of a shorter month; the
  time of day stays, and the result is a valid date. As long as the day exists in every month, subtracting the months again
  gives back the tick. \<^verbatim>\<open>cellRtcTickAddYears\<close> does the same with whole years.
\<close>

theorem rtc_add_months:
  assumes v: "cellRtcCheckValid d = CELL_OK" and y: "1 \<le> unat y" "unat y < 10000" and m: "1 \<le> unat m" "unat m \<le> 12"
    and n: "n = 12 * (uint y - uint (year d)) + (uint m - uint (month d))"
  defines "d' \<equiv> d\<lparr>year := y, month := m, day := min (day d) (ucast (days_in_month y ! unat (m - 1)))\<rparr>"
  shows "cellRtcTickAddMonths True True t0 (date_time_to_tick d) n = (CELL_OK, date_time_to_tick d') \<and> cellRtcCheckValid d' = CELL_OK
    \<and> (unat (day d) \<le> 28 \<longrightarrow> cellRtcTickAddMonths True True t0 (date_time_to_tick d') (- n) = (CELL_OK, date_time_to_tick d))
    \<and> (m = month d \<longrightarrow> cellRtcTickAddYears True True t0 (date_time_to_tick d) (uint y - uint (year d)) = (CELL_OK, date_time_to_tick d'))"
proof (intro conjI impI)
  have d': "d' = moved_date y m d" by (simp add: d'_def moved_date_def)
  show "cellRtcTickAddMonths True True t0 (date_time_to_tick d) n = (CELL_OK, date_time_to_tick d')" unfolding d' n by (rule add_months [OF v y m])
  show v': "cellRtcCheckValid d' = CELL_OK" unfolding d' by (rule moved_valid [OF v y m])
  show "cellRtcTickAddMonths True True t0 (date_time_to_tick d') (- n) = (CELL_OK, date_time_to_tick d)" if "unat (day d) \<le> 28"
  proof -
    have r: "1 \<le> unat (year d)" "unat (year d) < 10000" "1 \<le> unat (month d)" "unat (month d) \<le> 12" using v unfolding cellRtcCheckValid_iff civil_def by blast+
    have "- n = 12 * (uint (year d) - uint (year d')) + (uint (month d) - uint (month d'))" unfolding n d' moved_date_def by simp
    then show ?thesis using add_months [OF v' r] moved_back [OF v that m] by (simp add: d')
  qed
  show "cellRtcTickAddYears True True t0 (date_time_to_tick d) (uint y - uint (year d)) = (CELL_OK, date_time_to_tick d')" if "m = month d"
    unfolding cellRtcTickAddYears_def Let_def tick_of_valid [OF v] using moved_valid(3) [OF v y m] that by (simp add: d')
qed

theorem rtc_add_months_witness:
  "\<exists>t. cellRtcTickAddMonths True True 0
     (date_time_to_tick \<lparr>year = 2023, month = 12, day = 31, hour = 1, minute = 2, second = 3, microsecond = 4\<rparr>) 2 = (CELL_OK, t)
   \<and> t = date_time_to_tick \<lparr>year = 2024, month = 2, day = 29, hour = 1, minute = 2, second = 3, microsecond = 4\<rparr>"
proof -
  let ?d = "\<lparr>year = 2023, month = 12, day = 31, hour = 1, minute = 2, second = 3, microsecond = 4\<rparr> :: CellRtcDateTime"
  have v: "cellRtcCheckValid ?d = CELL_OK" by code_simp
  have "min 31 (ucast (days_in_month 2024 ! unat (2 - 1 :: u16))) = (29 :: u16)" by code_simp
  then show ?thesis using rtc_add_months [OF v, of 2024 2 2 0] by simp
qed

section \<open>Round trips of the time stamps\<close>

lemma masks:
  "w AND 0x1f = take_bit 5 w" "w AND 0xf = take_bit 4 w" "w AND 0x3f = take_bit 6 w" "w AND 0x7f = take_bit 7 w" "w AND 0xffff = take_bit 16 w" for w :: u32
  by (simp_all add: take_bit_eq_mask mask_numeral)

text \<open>The fields of a DOS time stamp.\<close>

lemma dos_fields:
  fixes Y M D h m s :: u32
  defines "dos \<equiv> push_bit 16 (push_bit 9 (take_bit 7 Y) OR push_bit 5 (take_bit 4 M) OR take_bit 5 D) OR (push_bit 11 (take_bit 5 h) OR push_bit 5 (take_bit 6 m) OR take_bit 5 s)"
  shows "drop_bit 9 (drop_bit 16 dos) = take_bit 7 Y" "take_bit 4 (drop_bit 5 (drop_bit 16 dos)) = take_bit 4 M" "take_bit 5 (drop_bit 16 dos) = take_bit 5 D"
    "drop_bit 11 (take_bit 16 dos) = take_bit 5 h" "take_bit 6 (drop_bit 5 (take_bit 16 dos)) = take_bit 6 m" "push_bit 1 (take_bit 16 dos) AND 0x3e = push_bit 1 (take_bit 5 s)"
proof -
  show "drop_bit 9 (drop_bit 16 dos) = take_bit 7 Y" unfolding dos_def by (rule bit_word_eqI) (auto simp: bit_simps)
  show "take_bit 4 (drop_bit 5 (drop_bit 16 dos)) = take_bit 4 M" unfolding dos_def by (rule bit_word_eqI) (auto simp: bit_simps)
  show "take_bit 5 (drop_bit 16 dos) = take_bit 5 D" unfolding dos_def by (rule bit_word_eqI) (auto simp: bit_simps)
  show "drop_bit 11 (take_bit 16 dos) = take_bit 5 h" unfolding dos_def by (rule bit_word_eqI) (auto simp: bit_simps)
  show "take_bit 6 (drop_bit 5 (take_bit 16 dos)) = take_bit 6 m"
  proof (rule bit_word_eqI)
    show "bit (take_bit 6 (drop_bit 5 (take_bit 16 dos))) n = bit (take_bit 6 m) n" for n
      unfolding dos_def by (cases "n < 6") (simp_all add: bit_simps)
  qed
  have "take_bit 5 (take_bit 16 dos) = take_bit 5 s" unfolding dos_def by (rule bit_word_eqI) (auto simp: bit_simps)
  moreover have "push_bit 1 (take_bit 16 dos) AND 0x3e = push_bit 1 (take_bit 5 (take_bit 16 dos))"
  proof -
    have m: "(0x3e :: u32) = push_bit 1 (mask 5)" by (simp add: mask_numeral)
    show ?thesis unfolding m by (simp only: push_bit_and [symmetric] take_bit_eq_mask [of 5])
  qed
  ultimately show "push_bit 1 (take_bit 16 dos) AND 0x3e = push_bit 1 (take_bit 5 s)" by simp
qed

text \<open>Whole seconds above a multiple of a second.\<close>

lemma whole_seconds:
  fixes t c :: u64
  assumes "unat c \<le> unat t" "unat c = k * 1000000"
  shows "(t - c) div 1000000 * 1000000 + c = t - t mod 1000000"
proof -
  have "unat t mod 1000000 = (unat t - unat c) mod 1000000"
  proof -
    have "unat t = (unat t - unat c) + k * 1000000" using assms by simp
    then show ?thesis by (metis mod_mult_self1)
  qed
  then have "t mod 1000000 = (t - c) mod 1000000" using assms(1) by (simp add: word_unat_eq_iff unat_mod_distrib unat_exact(3))
  then show ?thesis unfolding minus_mod_eq_div_mult [symmetric] by simp
qed

lemma truncated_tick:
  assumes "cellRtcCheckValid d = CELL_OK"
  shows "date_time_to_tick d - date_time_to_tick d mod 1000000 = date_time_to_tick (d\<lparr>microsecond := 0\<rparr>)" "cellRtcCheckValid (d\<lparr>microsecond := 0\<rparr>) = CELL_OK"
proof -
  obtain n where n: "unat (date_time_to_tick d) = n * 86400000000 + unat (hour d) * 3600000000 + unat (minute d) * 60000000 + unat (second d) * 1000000 + unat (microsecond d)"
    using valid_tick [OF assms] by blast
  have r: "unat (hour d) < 24" "unat (minute d) < 60" "unat (second d) < 60" "unat (microsecond d) < 1000000" using assms unfolding cellRtcCheckValid_iff by blast+
  have "date_time_to_tick d mod 1000000 = ucast (microsecond d)"
    using time_of_day(5) [OF r, of n] unat_ucast_small [of "microsecond d", where 'b = 64] r(4) by (simp add: word_unat_eq_iff unat_mod_distrib n)
  moreover have "date_time_to_tick d = ucast (microsecond d) + date_time_to_tick (d\<lparr>microsecond := 0\<rparr>)" by (simp add: date_time_to_tick_def Let_def)
  ultimately show "date_time_to_tick d - date_time_to_tick d mod 1000000 = date_time_to_tick (d\<lparr>microsecond := 0\<rparr>)" by simp
  show "cellRtcCheckValid (d\<lparr>microsecond := 0\<rparr>) = CELL_OK" using assms unfolding cellRtcCheckValid_iff by simp
qed

lemma take_bit_small: "unat w < 2 ^ n \<Longrightarrow> take_bit n w = (w :: 'a::len word)"
  by (simp add: word_unat_eq_iff unsigned_take_bit_eq take_bit_nat_eq_self)

lemma valid_day_le: "cellRtcCheckValid d = CELL_OK \<Longrightarrow> unat (month d) \<le> 12 \<and> unat (day d) \<le> 31"
proof -
  assume "cellRtcCheckValid d = CELL_OK"
  then have c: "1 \<le> unat (month d)" "unat (month d) \<le> 12" "unat (day d) \<le> month_start (leap (unat (year d))) (unat (month d)) - month_start (leap (unat (year d))) (unat (month d) - 1)"
    unfolding cellRtcCheckValid_iff civil_def by blast+
  have "month_start l k - month_start l (k - 1) \<le> 31" if "k \<le> 12" for l k
    by (rule month_cases [OF that]) (simp_all add: month_start_def)
  then show ?thesis using c le_trans by blast
qed

lemma dos_roundtrip:
  assumes v: "cellRtcCheckValid d = CELL_OK" and y: "1980 \<le> year d" "year d < 2108"
  shows "\<exists>s. cellRtcGetDosTime True True d s1 = (CELL_OK, s)
    \<and> cellRtcSetDosTime True d0 s = (CELL_OK, d\<lparr>second := push_bit 1 (drop_bit 1 (second d)), microsecond := 0\<rparr>)"
proof -
  have r: "unat (month d) \<le> 12" "unat (day d) \<le> 31" "unat (hour d) < 24" "unat (minute d) < 60" "unat (second d) < 60"
    using v valid_day_le [OF v] unfolding cellRtcCheckValid_iff by blast+
  have u: "unat (ucast w :: u32) = unat w" for w :: u16 by (rule unat_year)
  have "unat (ucast (year d) - 1980 :: u32) = unat (year d) - 1980" using y(1) by (subst unat_exact(3)) (simp_all add: u word_le_nat_alt)
  then have Y: "take_bit 7 (ucast (year d) - 1980 :: u32) = ucast (year d) - 1980" using y(2) by (intro take_bit_small) (simp add: word_less_nat_alt)
  have t: "take_bit 4 (ucast (month d) :: u32) = ucast (month d)" "take_bit 5 (ucast (day d) :: u32) = ucast (day d)" "take_bit 5 (ucast (hour d) :: u32) = ucast (hour d)"
    "take_bit 6 (ucast (minute d) :: u32) = ucast (minute d)" "take_bit 5 (drop_bit 1 (ucast (second d) :: u32)) = drop_bit 1 (ucast (second d))"
    using r by (intro take_bit_small; simp add: u unat_div_distrib drop_bit_eq_div)+
  have b: "(ucast (push_bit 1 (drop_bit 1 (ucast (second d) :: u32))) :: u16) = push_bit 1 (drop_bit 1 (second d))"
    by (rule bit_word_eqI) (simp only: bit_simps, auto simp: bit_simps)
  have uu: "(ucast (ucast w :: u32) :: u16) = w" for w by (rule bit_word_eqI) (auto simp: bit_simps)
  let ?dos = "push_bit 16 (push_bit 9 (take_bit 7 (ucast (year d) - 1980)) OR push_bit 5 (take_bit 4 (ucast (month d))) OR take_bit 5 (ucast (day d)))
    OR (push_bit 11 (take_bit 5 (ucast (hour d))) OR push_bit 5 (take_bit 6 (ucast (minute d))) OR take_bit 5 (drop_bit 1 (ucast (second d)))) :: u32"
  have "\<not> year d < 1980" "\<not> 2108 \<le> year d" using y by simp_all
  then have "cellRtcGetDosTime True True d s1 = (CELL_OK, ?dos)" unfolding cellRtcGetDosTime_def masks Let_def by simp
  moreover have "cellRtcSetDosTime True d0 ?dos = (CELL_OK, d\<lparr>second := push_bit 1 (drop_bit 1 (second d)), microsecond := 0\<rparr>)"
    unfolding cellRtcSetDosTime_def masks Let_def unfolding dos_fields unfolding Y t b by (cases d) (simp add: uu)
  ultimately show ?thesis by blast
qed

lemma local_tick_valid: "cellRtcCheckValid d = CELL_OK \<Longrightarrow> local_tick True d = date_time_to_tick d"
  by (auto simp: local_tick_def cellRtcGetTick_def cellRtcCheckValid_def split: if_splits)

text \<open>C39: The time stamps of a valid date are inverted by the functions that set a date from a time stamp, as far as their
  resolution goes: Unix time and system time without the microseconds, Windows file time exactly, DOS time without the
  microseconds and with an even second; each for the dates it can represent.
\<close>

theorem rtc_stamps_roundtrip:
  assumes v: "cellRtcCheckValid d = CELL_OK"
  shows "(RTC_MAGIC_OFFSET \<le> date_time_to_tick d \<longrightarrow>
      (\<exists>s. cellRtcGetTime_t True True d s0 = (CELL_OK, s) \<and> cellRtcSetTime_t True d0 s = (CELL_OK, d\<lparr>microsecond := 0\<rparr>)))
    \<and> (RTC_SYSTEM_TIME_MIN \<le> date_time_to_tick d \<and> date_time_to_tick d \<le> RTC_SYSTEM_TIME_MAX \<longrightarrow>
      (\<exists>s. cellRtcGetSystemTime True True d s0 = (CELL_OK, s) \<and> cellRtcSetSystemTime True d0 s = (CELL_OK, d\<lparr>microsecond := 0\<rparr>)))
    \<and> (RTC_FILETIME_OFFSET \<le> date_time_to_tick d \<longrightarrow>
      (\<exists>s. cellRtcGetWin32FileTime True True d s0 = (CELL_OK, s) \<and> cellRtcSetWin32FileTime True d0 s = (CELL_OK, d)))
    \<and> (1980 \<le> year d \<and> year d < 2108 \<longrightarrow>
      (\<exists>s. cellRtcGetDosTime True True d s1 = (CELL_OK, s)
         \<and> cellRtcSetDosTime True d0 s = (CELL_OK, d\<lparr>second := push_bit 1 (drop_bit 1 (second d)), microsecond := 0\<rparr>)))"
proof (intro conjI impI)
  let ?t = "date_time_to_tick d"
  note lt = local_tick_valid [OF v] and tr = truncated_tick [OF v]
  have w: "tick_to_date_time ((?t - c) div 1000000 * 1000000 + c) = d\<lparr>microsecond := 0\<rparr>" if "c \<le> ?t" "unat c = k * 1000000" for c k
    using that whole_seconds [of c ?t k] tr tick_of_valid by (simp add: word_le_nat_alt)
  show "\<exists>s. cellRtcGetTime_t True True d s0 = (CELL_OK, s) \<and> cellRtcSetTime_t True d0 s = (CELL_OK, d\<lparr>microsecond := 0\<rparr>)" if "RTC_MAGIC_OFFSET \<le> ?t"
    using that w [OF that, of 62135596800] by (simp add: cellRtcGetTime_t_def cellRtcSetTime_t_def lt Let_def cellRtcSetTick_def cellRtcGetTickResolution_def not_less)
  show "\<exists>s. cellRtcGetSystemTime True True d s0 = (CELL_OK, s) \<and> cellRtcSetSystemTime True d0 s = (CELL_OK, d\<lparr>microsecond := 0\<rparr>)"
    if a: "RTC_SYSTEM_TIME_MIN \<le> ?t \<and> ?t \<le> RTC_SYSTEM_TIME_MAX"
  proof -
    have "\<not> ?t < RTC_SYSTEM_TIME_MIN" "\<not> RTC_SYSTEM_TIME_MAX + ucast cellRtcGetTickResolution \<le> ?t"
      using a by (simp_all add: cellRtcGetTickResolution_def word_le_nat_alt word_less_nat_alt)
    then show ?thesis using w [of RTC_SYSTEM_TIME_MIN 63082281600] a
      by (simp add: cellRtcGetSystemTime_def cellRtcSetSystemTime_def lt Let_def cellRtcSetTick_def) (simp add: cellRtcGetTickResolution_def)
  qed
  show "\<exists>s. cellRtcGetWin32FileTime True True d s0 = (CELL_OK, s) \<and> cellRtcSetWin32FileTime True d0 s = (CELL_OK, d)" if a: "RTC_FILETIME_OFFSET \<le> ?t"
  proof -
    have "unat (?t - RTC_FILETIME_OFFSET) \<le> unat ?t" using a by (simp add: unat_exact(3) word_le_nat_alt)
    moreover have "unat ?t < 315537897600000000" using valid_tick_bound [OF v] .
    ultimately have "unat ((?t - RTC_FILETIME_OFFSET) * 10) = unat (?t - RTC_FILETIME_OFFSET) * 10" by (subst unat_exact(2)) simp_all
    then have "(?t - RTC_FILETIME_OFFSET) * 10 div 10 = ?t - RTC_FILETIME_OFFSET" by (simp add: word_unat_eq_iff unat_div_distrib)
    then show ?thesis using a tick_of_valid [OF v] by (simp add: cellRtcGetWin32FileTime_def cellRtcSetWin32FileTime_def lt Let_def cellRtcSetTick_def not_less)
  qed
  show "\<exists>s. cellRtcGetDosTime True True d s1 = (CELL_OK, s)
         \<and> cellRtcSetDosTime True d0 s = (CELL_OK, d\<lparr>second := push_bit 1 (drop_bit 1 (second d)), microsecond := 0\<rparr>)"
    if "1980 \<le> year d \<and> year d < 2108" using dos_roundtrip [OF v] that by blast
qed

theorem rtc_stamps_roundtrip_witness:
  "\<exists>s. cellRtcGetTime_t True True \<lparr>year = 2024, month = 2, day = 29, hour = 12, minute = 34, second = 56, microsecond = 789\<rparr> 0 = (CELL_OK, s)
     \<and> cellRtcSetTime_t True \<lparr>year = 1, month = 1, day = 1, hour = 0, minute = 0, second = 0, microsecond = 0\<rparr> s
       = (CELL_OK, \<lparr>year = 2024, month = 2, day = 29, hour = 12, minute = 34, second = 56, microsecond = 0\<rparr>)"
proof -
  let ?d = "\<lparr>year = 2024, month = 2, day = 29, hour = 12, minute = 34, second = 56, microsecond = 789\<rparr> :: CellRtcDateTime"
  have v: "cellRtcCheckValid ?d = CELL_OK" "RTC_MAGIC_OFFSET \<le> date_time_to_tick ?d" by code_simp+
  show ?thesis
    using rtc_stamps_roundtrip [OF v(1), THEN conjunct1, THEN mp, OF v(2), of 0 "\<lparr>year = 1, month = 1, day = 1, hour = 0, minute = 0, second = 0, microsecond = 0\<rparr>"]
    by simp
qed

end
