(* ===== verification/Cell_Rtc_Text.thy ===== *)
theory Cell_Rtc_Text
  imports Cell_Rtc_Ticks "HOL-Library.Monad_Syntax"
begin

text \<open>
  The text formats of \<^verbatim>\<open>ps3fw/cellRtc.cpp\<close>: printing ticks in the formats of RFC 2822 and RFC 3339, and parsing these and the format of
  \<^verbatim>\<open>asctime\<close>. A string in guest memory is a function from positions to bytes; a printed string is the list of bytes
  written from its beginning, the closing zero included. A parser that fails with \<^verbatim>\<open>CELL_RTC_ERROR_BAD_PARSE\<close> is \<open>None\<close>.
\<close>

section \<open>Characters\<close>

type_synonym guest_text = "nat \<Rightarrow> u8"

definition bytes :: "string \<Rightarrow> u8 list" where
  "bytes s = map of_char s"

definition isdigit :: "u8 \<Rightarrow> bool" where
  "isdigit c \<longleftrightarrow> of_char CHR ''0'' \<le> c \<and> c \<le> of_char CHR ''9''"

definition isblank :: "u8 \<Rightarrow> bool" where
  "isblank c \<longleftrightarrow> c = of_char CHR '' '' \<or> c = 9"

definition tolower :: "u8 \<Rightarrow> u8" where
  "tolower c = (if of_char CHR ''A'' \<le> c \<and> c \<le> of_char CHR ''Z'' then c + 0x20 else c)"

definition toupper :: "u8 \<Rightarrow> u8" where
  "toupper c = (if of_char CHR ''a'' \<le> c \<and> c \<le> of_char CHR ''z'' then c - 0x20 else c)"

definition ascii :: "u8 \<Rightarrow> u8" where
  "ascii n = n + of_char CHR ''0''"

definition digit :: "u8 \<Rightarrow> int" where
  "digit c = sint (c - of_char CHR ''0'')"

definition WEEKDAY_NAMES :: "u8 list list" where
  "WEEKDAY_NAMES = map bytes [''sunday'', ''monday'', ''tuesday'', ''wednesday'', ''thursday'', ''friday'', ''saturday'']"

definition MONTH_NAMES :: "u8 list list" where
  "MONTH_NAMES = map bytes [''january'', ''february'', ''march'', ''april'', ''may'', ''june'', ''july'', ''august'', ''september'',
     ''october'', ''november'', ''december'']"

definition TIME_ZONE_NAMES :: "u8 list list" where
  "TIME_ZONE_NAMES = map bytes [''gmt'', ''est'', ''edt'', ''cst'', ''cdt'', ''mst'', ''mdt'', ''pst'', ''pdt'', ''nzdt'', ''nzst'', ''idle'', ''nzt'',
     ''aesst'', ''acsst'', ''cadt'', ''sadt'', ''aest'', ''east'', ''gst'', ''ligt'', ''acst'', ''sast'', ''cast'', ''awsst'', ''jst'', ''kst'', ''wdt'',
     ''mt'', ''awst'', ''cct'', ''wadt'', ''wst'', ''jt'', ''wast'', ''it'', ''bt'', ''eetdst'', ''eet'', ''cetdst'', ''fwt'', ''ist'', ''mest'', ''metdst'',
     ''sst'', ''bst'', ''cet'', ''dnt'', ''fst'', ''met'', ''mewt'', ''mez'', ''nor'', ''set'', ''swt'', ''wetdst'', ''wet'', ''wat'', ''ndt'', ''adt'', ''nft'',
     ''nst'', ''ast'', ''ydt'', ''hdt'', ''yst'', ''ahst'', ''cat'', ''nt'', ''idlw'']"

definition TIME_ZONE_VALUES :: "int list" where
  "TIME_ZONE_VALUES = [0, -10, -8, -12, -10, -14, -12, -16, -14, 26, 24, 24, 24, 22, 21, 21, 21, 20, 20, 20, 20, 19, 19, 19, 18, 18, 18, 18,
     17, 16, 16, 16, 16, 15, 14, 7, 6, 6, 4, 4, 4, 4, 4, 4, 4, 2, 2, 2, 2, 2, 2, 2, 2, 2, 2, 2, 0, -2, -3, -6, -5, -5, -8, -16, -18, -18, -20, -20, -22, -24]"

section \<open>Printing\<close>

definition print2 :: "u16 \<Rightarrow> u8 list" where
  "print2 n = [ascii (ucast (n div 10)), ascii (ucast (n mod 10))]"

definition print4 :: "u16 \<Rightarrow> u8 list" where
  "print4 n = [ascii (ucast (n div 1000)), ascii (ucast (n div 100 mod 10)), ascii (ucast (n div 10 mod 10)), ascii (ucast (n mod 10))]"

text \<open>The sign and the hours and minutes of a time zone; \<open>tz\<close> is negated as \<^verbatim>\<open>s32\<close>.\<close>

definition zone_sign :: "int \<Rightarrow> u8" where
  "zone_sign tz = (if tz < 0 then of_char CHR ''-'' else of_char CHR ''+'')"

definition zone_abs :: "int \<Rightarrow> int" where
  "zone_abs tz = (if tz < 0 then s32 (- tz) else tz)"

definition zone_hours :: "int \<Rightarrow> u32" where
  "zone_hours tz = word_of_int (c_mod (c_div (zone_abs tz) 60) 100)"

definition zone_minutes :: "int \<Rightarrow> u32" where
  "zone_minutes tz = word_of_int (c_mod (zone_abs tz) 60)"

definition zone_print2 :: "u32 \<Rightarrow> u8 list" where
  "zone_print2 n = [ascii (ucast (n div 10)), ascii (ucast (n mod 10))]"

definition print_rfc2822 :: "CellRtcDateTime \<Rightarrow> int \<Rightarrow> u8 list" where
  "print_rfc2822 d tz =
     (let weekday = WEEKDAY_NAMES ! nat (cellRtcGetDayOfWeek (uint (year d)) (uint (month d)) (uint (day d)));
          name = MONTH_NAMES ! (unat (month d) - 1)
      in [toupper (weekday ! 0), weekday ! 1, weekday ! 2] @ bytes '', '' @ print2 (day d) @ bytes '' ''
         @ [toupper (name ! 0), name ! 1, name ! 2] @ bytes '' '' @ print4 (year d) @ bytes '' ''
         @ print2 (hour d) @ bytes '':'' @ print2 (minute d) @ bytes '':'' @ print2 (second d) @ bytes '' ''
         @ [zone_sign tz] @ zone_print2 (zone_hours tz) @ zone_print2 (zone_minutes tz) @ [0])"

definition print_rfc3339 :: "CellRtcDateTime \<Rightarrow> int \<Rightarrow> u8 list" where
  "print_rfc3339 d tz =
     print4 (year d) @ bytes ''-'' @ print2 (month d) @ bytes ''-'' @ print2 (day d) @ bytes ''T''
     @ print2 (hour d) @ bytes '':'' @ print2 (minute d) @ bytes '':'' @ print2 (second d) @ bytes ''.''
     @ [ascii (ucast (microsecond d div 100000)), ascii (ucast (microsecond d div 10000 mod 10))]
     @ (if tz = 0 then bytes ''Z'' else [zone_sign tz] @ zone_print2 (zone_hours tz) @ bytes '':'' @ zone_print2 (zone_minutes tz)) @ [0]"

text \<open>The tick of the time zone as a date; what both functions print.\<close>

definition zone_date :: "u64 \<Rightarrow> int \<Rightarrow> CellRtcDateTime" where
  "zone_date utc tz = tick_to_date_time (snd (cellRtcTickAddMinutes True True utc utc tz))"

definition cellRtcFormatRfc2822 :: "bool \<Rightarrow> bool \<Rightarrow> u64 \<Rightarrow> int \<Rightarrow> error_code \<times> u8 list" where
  "cellRtcFormatRfc2822 text_ok utc_ok utc tz =
     (if \<not> text_ok \<or> \<not> utc_ok then (CELL_RTC_ERROR_INVALID_POINTER, [])
      else
        let d = zone_date utc tz; ret = cellRtcCheckValid d
        in if ret \<noteq> CELL_OK then (ret, []) else (CELL_OK, print_rfc2822 d tz))"

definition cellRtcFormatRfc3339 :: "bool \<Rightarrow> bool \<Rightarrow> u64 \<Rightarrow> int \<Rightarrow> error_code \<times> u8 list" where
  "cellRtcFormatRfc3339 text_ok utc_ok utc tz =
     (if \<not> text_ok \<or> \<not> utc_ok then (CELL_RTC_ERROR_INVALID_POINTER, [])
      else
        let d = zone_date utc tz; ret = cellRtcCheckValid d
        in if ret \<noteq> CELL_OK then (ret, []) else (CELL_OK, print_rfc3339 d tz))"

definition cellRtcFormatRfc2822LocalTime :: "bool \<Rightarrow> bool \<Rightarrow> error_code \<times> int \<times> int \<Rightarrow> u64 \<Rightarrow> error_code \<times> u8 list" where
  "cellRtcFormatRfc2822LocalTime text_ok utc_ok zone utc =
     (if \<not> text_ok \<or> \<not> utc_ok then (CELL_RTC_ERROR_INVALID_POINTER, [])
      else case zone of (ret, timezone, summertime) \<Rightarrow>
        if sint ret < 0 then (ret, []) else cellRtcFormatRfc2822 text_ok utc_ok utc (s32 (timezone + summertime)))"

definition cellRtcFormatRfc3339LocalTime :: "bool \<Rightarrow> bool \<Rightarrow> error_code \<times> int \<times> int \<Rightarrow> u64 \<Rightarrow> error_code \<times> u8 list" where
  "cellRtcFormatRfc3339LocalTime text_ok utc_ok zone utc =
     (if \<not> text_ok \<or> \<not> utc_ok then (CELL_RTC_ERROR_INVALID_POINTER, [])
      else case zone of (ret, timezone, summertime) \<Rightarrow>
        if sint ret < 0 then (ret, []) else cellRtcFormatRfc3339 text_ok utc_ok utc (s32 (timezone + summertime)))"

section \<open>Parsing\<close>

definition expect :: "bool \<Rightarrow> unit option" where
  "expect b = (if b then Some () else None)"

definition rtcParseComponent :: "guest_text \<Rightarrow> nat \<Rightarrow> u8 \<Rightarrow> (u16 \<times> nat) option" where
  "rtcParseComponent s pos delimiter =
     (if delimiter \<noteq> 0 \<and> s pos \<noteq> delimiter then None
      else
        let p = (if delimiter \<noteq> 0 then Suc pos else pos) in
        if \<not> isdigit (s p) then None
        else if isdigit (s (Suc p)) then Some (word_of_int (digit (s p) * 10 + digit (s (Suc p))), Suc (Suc p))
        else Some (word_of_int (digit (s p)), Suc p))"

fun match_length :: "guest_text \<Rightarrow> nat \<Rightarrow> u8 list \<Rightarrow> nat" where
  "match_length s pos [] = 0"
| "match_length s pos (c # cs) = (if tolower (s pos) = c then Suc (match_length s (Suc pos) cs) else 0)"

text \<open>\<^verbatim>\<open>rtcParseName\<close>: the number of names before the one that matches, and the position behind it.\<close>

fun rtcParseName :: "guest_text \<Rightarrow> nat \<Rightarrow> bool \<Rightarrow> u8 list list \<Rightarrow> nat \<times> nat" where
  "rtcParseName s pos allow_short [] = (0, pos)"
| "rtcParseName s pos allow_short (name # names) =
     (let n = match_length s pos name in
      if n = length name then (0, pos + length name)
      else if allow_short \<and> n \<ge> 3 then (0, pos + 3)
      else (case rtcParseName s pos allow_short names of (i, p) \<Rightarrow> (Suc i, p)))"

definition number4 :: "guest_text \<Rightarrow> nat \<Rightarrow> int" where
  "number4 s p = digit (s p) * 1000 + digit (s (p + 1)) * 100 + digit (s (p + 2)) * 10 + digit (s (p + 3))"

definition number2 :: "guest_text \<Rightarrow> nat \<Rightarrow> int" where
  "number2 s p = digit (s p) * 10 + digit (s (p + 1))"

definition space_or_hyphen :: "u8 \<Rightarrow> bool" where
  "space_or_hyphen c \<longleftrightarrow> c = of_char CHR '' '' \<or> c = of_char CHR ''-''"

text \<open>The year of RFC 2822, with two or four digits.\<close>

definition parse_year :: "guest_text \<Rightarrow> nat \<Rightarrow> (u16 \<times> nat) option" where
  "parse_year s p =
     (if \<not> isdigit (s p) \<or> \<not> isdigit (s (p + 1)) then None
      else if \<not> isdigit (s (p + 2)) \<or> \<not> isdigit (s (p + 3)) then
        (let y = (word_of_int (number2 s p) :: u16) in Some (y + (if y < 50 then 2000 else 1900), p + 2))
      else Some (word_of_int (number4 s p), p + 4))"

text \<open>The time zone of RFC 2822 in minutes, at the position behind the space.\<close>

definition military_zone :: "u8 \<Rightarrow> int option" where
  "military_zone letter =
     (if of_char CHR ''A'' \<le> letter \<and> letter \<le> of_char CHR ''M'' \<and> letter \<noteq> of_char CHR ''J'' then Some (sint (letter - of_char CHR ''A'') * 60)
      else if of_char CHR ''N'' \<le> letter \<and> letter \<le> of_char CHR ''Y'' then Some (sint (of_char CHR ''N'' - letter) * 60)
      else if letter \<noteq> of_char CHR ''Z'' then None
      else Some 0)"

definition parse_zone :: "guest_text \<Rightarrow> nat \<Rightarrow> int option" where
  "parse_zone s p =
     (if s p = of_char CHR ''+'' \<or> s p = of_char CHR ''-'' then
        let tz = (if isdigit (s (p + 1)) \<and> isdigit (s (p + 2)) \<and> isdigit (s (p + 3)) \<and> isdigit (s (p + 4))
                  then number4 s (p + 1) div 100 * 60 + number4 s (p + 1) mod 60 else -1)
        in Some (if s p = of_char CHR ''-'' then - tz else tz)
      else if s p \<noteq> of_char CHR ''U'' \<and> s (p + 1) \<noteq> of_char CHR ''T'' then
        (case rtcParseName s p False TIME_ZONE_NAMES of
           (i, q) \<Rightarrow> if i < length TIME_ZONE_NAMES then Some (TIME_ZONE_VALUES ! i * 30) else military_zone (toupper (s q)))
      else Some 0)"

definition parse_rfc2822 :: "guest_text \<Rightarrow> nat \<Rightarrow> (CellRtcDateTime \<times> int) option" where
  "parse_rfc2822 s pos = do {
     (dy, p1) \<leftarrow> rtcParseComponent s pos 0;
     expect (space_or_hyphen (s p1));
     let (mi, p2) = rtcParseName s (p1 + 1) True MONTH_NAMES;
     expect (mi < length MONTH_NAMES);
     expect (space_or_hyphen (s p2));
     (yr, p3) \<leftarrow> parse_year s (p2 + 1);
     (hr, p4) \<leftarrow> rtcParseComponent s p3 (of_char CHR '' '');
     expect (hr \<le> 25);
     (mn, p5) \<leftarrow> rtcParseComponent s p4 (of_char CHR '':'');
     (sc, p6) \<leftarrow> (if s p5 \<noteq> of_char CHR '' '' then rtcParseComponent s p5 (of_char CHR '':'') else Some (0, p5 + 1));
     tz \<leftarrow> (if s p6 = of_char CHR '' '' then parse_zone s (p6 + 1) else Some 0);
     Some (\<lparr>year = yr, month = of_nat mi + 1, day = dy, hour = hr, minute = mn, second = sc, microsecond = 0\<rparr>, tz)
   }"

text \<open>A parsed date becomes a tick; the error of \<^verbatim>\<open>cellRtcGetTick\<close> is ignored.\<close>

definition store_tick :: "CellRtcDateTime \<Rightarrow> int \<Rightarrow> u64 \<Rightarrow> u64" where
  "store_tick d minutes utc =
     (let t = snd (cellRtcGetTick True True d utc) in snd (cellRtcTickAddMinutes True True t t minutes))"

definition rtcParseRfc2822 :: "guest_text \<Rightarrow> nat \<Rightarrow> u64 \<Rightarrow> error_code \<times> u64" where
  "rtcParseRfc2822 s pos utc =
     (case parse_rfc2822 s pos of
        None \<Rightarrow> (CELL_RTC_ERROR_BAD_PARSE, utc)
      | Some (d, tz) \<Rightarrow> (CELL_OK, store_tick d (- tz) utc))"

text \<open>The digits behind the decimal point; the loop ends at the first byte that is not a digit.\<close>

partial_function (option) parse_fraction :: "guest_text \<Rightarrow> nat \<Rightarrow> u32 \<Rightarrow> u32 \<Rightarrow> (u32 \<times> nat) option" where
  "parse_fraction s pos mul us =
     (if isdigit (s pos) then parse_fraction s (Suc pos) (mul div 10) (us + word_of_int (digit (s pos)) * mul) else Some (us, pos))"

definition field2 :: "guest_text \<Rightarrow> nat \<Rightarrow> u16" where
  "field2 s p = (if isdigit (s p) \<and> isdigit (s (p + 1)) then word_of_int (number2 s p) else 0xffff)"

definition field4 :: "guest_text \<Rightarrow> nat \<Rightarrow> u16" where
  "field4 s p =
     (if isdigit (s p) \<and> isdigit (s (p + 1)) \<and> isdigit (s (p + 2)) \<and> isdigit (s (p + 3)) then word_of_int (number4 s p) else 0xffff)"

text \<open>The offset at the end of RFC 3339, in minutes to add.\<close>

definition parse_offset :: "guest_text \<Rightarrow> nat \<Rightarrow> int option" where
  "parse_offset s p =
     (if s p = of_char CHR ''Z'' \<or> s p = of_char CHR ''z'' then Some 0
      else if s p = of_char CHR ''+'' \<or> s p = of_char CHR ''-'' then
        (if isdigit (s (p + 1)) \<and> isdigit (s (p + 2)) \<and> s (p + 3) = of_char CHR '':'' \<and> isdigit (s (p + 4)) \<and> isdigit (s (p + 5))
         then let m = number2 s (p + 1) * 60 + number2 s (p + 4) in Some (if s p = of_char CHR ''+'' then - m else m)
         else None)
      else None)"

definition rfc3339_date :: "guest_text \<Rightarrow> u32 \<Rightarrow> CellRtcDateTime" where
  "rfc3339_date s us =
     \<lparr>year = field4 s 0, month = field2 s 5, day = field2 s 8, hour = field2 s 11, minute = field2 s 14, second = field2 s 17, microsecond = us\<rparr>"

definition cellRtcParseRfc3339 :: "bool \<Rightarrow> bool \<Rightarrow> guest_text \<Rightarrow> u64 \<Rightarrow> (error_code \<times> u64) option" where
  "cellRtcParseRfc3339 utc_ok text_ok s utc =
     (if \<not> utc_ok \<or> \<not> text_ok then Some (CELL_RTC_ERROR_INVALID_POINTER, utc)
      else if s 4 \<noteq> of_char CHR ''-'' then Some (CELL_RTC_ERROR_INVALID_YEAR, utc)
      else if s 7 \<noteq> of_char CHR ''-'' then Some (CELL_RTC_ERROR_INVALID_MONTH, utc)
      else if s 10 \<noteq> of_char CHR ''T'' \<and> s 10 \<noteq> of_char CHR ''t'' then Some (CELL_RTC_ERROR_INVALID_DAY, utc)
      else if s 13 \<noteq> of_char CHR '':'' then Some (CELL_RTC_ERROR_INVALID_HOUR, utc)
      else if s 16 \<noteq> of_char CHR '':'' then Some (CELL_RTC_ERROR_INVALID_MINUTE, utc)
      else
        (case (if s 19 = of_char CHR ''.'' then parse_fraction s 20 100000 0 else Some (0, 19)) of
           None \<Rightarrow> None
         | Some (us, pos) \<Rightarrow>
             Some (case parse_offset s pos of
                     None \<Rightarrow> (CELL_RTC_ERROR_BAD_PARSE, utc)
                   | Some minutes \<Rightarrow> (CELL_OK, store_tick (rfc3339_date s us) minutes utc))))"

partial_function (option) skip_blanks :: "guest_text \<Rightarrow> nat \<Rightarrow> nat option" where
  "skip_blanks s pos = (if isblank (s pos) then skip_blanks s (Suc pos) else Some pos)"

text \<open>
  The day of \<^verbatim>\<open>asctime\<close>. Behind a second space the code accepts every byte up to \<open>9\<close>, compared as a signed character, and
  sign-extends it.
\<close>

definition parse_asctime_day :: "guest_text \<Rightarrow> nat \<Rightarrow> (u16 \<times> nat) option" where
  "parse_asctime_day s p =
     (if s p = of_char CHR '' '' then
        (if sint (s (p + 1)) > sint (of_char CHR ''9'' :: u8) then None else Some (scast (s (p + 1)) - of_char CHR ''0'', p + 2))
      else if isdigit (s p) then
        (if isdigit (s (p + 1)) then Some (word_of_int (digit (s p) * 10 + digit (s (p + 1))), p + 2) else Some (word_of_int (digit (s p)), p + 1))
      else None)"

definition parse_asctime :: "guest_text \<Rightarrow> nat \<Rightarrow> nat \<Rightarrow> CellRtcDateTime option" where
  "parse_asctime s mi p0 = do {
     expect (s p0 = of_char CHR '' '');
     (dy, p1) \<leftarrow> parse_asctime_day s (p0 + 1);
     (hr, p2) \<leftarrow> rtcParseComponent s p1 (of_char CHR '' '');
     (mn, p3) \<leftarrow> rtcParseComponent s p2 (of_char CHR '':'');
     (sc, p4) \<leftarrow> rtcParseComponent s p3 (of_char CHR '':'');
     expect (s p4 = of_char CHR '' '');
     expect (isdigit (s (p4 + 1)) \<and> isdigit (s (p4 + 2)) \<and> isdigit (s (p4 + 3)) \<and> isdigit (s (p4 + 4)));
     Some \<lparr>year = word_of_int (number4 s (p4 + 1)), month = of_nat mi + 1, day = dy, hour = hr, minute = mn, second = sc, microsecond = 0\<rparr>
   }"

definition cellRtcParseDateTime :: "bool \<Rightarrow> bool \<Rightarrow> guest_text \<Rightarrow> u64 \<Rightarrow> (error_code \<times> u64) option" where
  "cellRtcParseDateTime utc_ok text_ok s utc =
     (if \<not> utc_ok \<or> \<not> text_ok then Some (CELL_RTC_ERROR_INVALID_POINTER, utc)
      else
        (case skip_blanks s 0 of
           None \<Rightarrow> None
         | Some p \<Rightarrow>
             if isdigit (s p) \<and> isdigit (s (p + 1)) \<and> isdigit (s (p + 2)) \<and> isdigit (s (p + 3))
             then cellRtcParseRfc3339 utc_ok text_ok (\<lambda>i. s (p + i)) utc
             else
               (case rtcParseName s p True WEEKDAY_NAMES of
                  (wi, p1) \<Rightarrow>
                    if wi = length WEEKDAY_NAMES then Some (CELL_RTC_ERROR_BAD_PARSE, utc)
                    else
                      (case skip_blanks s (if s p1 = of_char CHR '','' then p1 + 1 else p1) of
                         None \<Rightarrow> None
                       | Some p2 \<Rightarrow>
                           Some (case rtcParseName s p2 True MONTH_NAMES of
                                   (mi, p3) \<Rightarrow>
                                     if mi = length MONTH_NAMES then rtcParseRfc2822 s p3 utc
                                     else
                                       (case parse_asctime s mi p3 of
                                          None \<Rightarrow> (CELL_RTC_ERROR_BAD_PARSE, utc)
                                        | Some d \<Rightarrow> (CELL_OK, snd (cellRtcGetTick True True d utc))))))))"

section \<open>Digits\<close>

lemma digit_ascii:
  assumes "unat n < 10"
  shows "isdigit (ascii n)" "digit (ascii n) = int (unat n)" "\<not> isblank (ascii n)" "ascii n \<noteq> 0"
proof -
  have "unat n \<in> {0, 1, 2, 3, 4, 5, 6, 7, 8, 9}" using assms by auto
  then have "n \<in> {0, 1, 2, 3, 4, 5, 6, 7, 8, 9}" by (auto simp: word_unat_eq_iff)
  then show "isdigit (ascii n)" "digit (ascii n) = int (unat n)" "\<not> isblank (ascii n)" "ascii n \<noteq> 0"
    by (auto simp: isdigit_def ascii_def digit_def isblank_def)
qed

lemma print2_digits:
  fixes n :: u16
  assumes "unat n < 100"
  shows "\<exists>a b. print2 n = [a, b] \<and> isdigit a \<and> isdigit b \<and> digit a * 10 + digit b = uint n"
proof -
  have u: "unat (ucast (n div 10) :: u8) = unat n div 10" "unat (ucast (n mod 10) :: u8) = unat n mod 10"
    using assms by (subst unat_ucast_small; simp add: unat_div_distrib unat_mod_distrib less_trans [OF mod_less_divisor])+
  have "unat n div 10 < 10" "int (unat n div 10) * 10 + int (unat n mod 10) = uint n" using assms by (simp_all add: zdiv_int zmod_int)
  then show ?thesis using u unfolding print2_def by (simp add: digit_ascii)
qed

lemma zone_print2_digits:
  fixes n :: u32
  assumes "unat n < 100"
  shows "\<exists>a b. zone_print2 n = [a, b] \<and> isdigit a \<and> isdigit b \<and> digit a * 10 + digit b = uint n"
proof -
  have u: "unat (ucast (n div 10) :: u8) = unat n div 10" "unat (ucast (n mod 10) :: u8) = unat n mod 10"
    using assms by (subst unat_ucast_small; simp add: unat_div_distrib unat_mod_distrib less_trans [OF mod_less_divisor])+
  have "unat n div 10 < 10" "int (unat n div 10) * 10 + int (unat n mod 10) = uint n" using assms by (simp_all add: zdiv_int zmod_int)
  then show ?thesis using u unfolding zone_print2_def by (simp add: digit_ascii)
qed

lemma print4_digits:
  assumes "unat n < 10000"
  shows "\<exists>a b c e. print4 n = [a, b, c, e] \<and> isdigit a \<and> isdigit b \<and> isdigit c \<and> isdigit e
    \<and> digit a * 1000 + digit b * 100 + digit c * 10 + digit e = uint n"
proof -
  have u: "unat (ucast (n div 1000) :: u8) = unat n div 1000" "unat (ucast (n div 100 mod 10) :: u8) = unat n div 100 mod 10"
    "unat (ucast (n div 10 mod 10) :: u8) = unat n div 10 mod 10" "unat (ucast (n mod 10) :: u8) = unat n mod 10"
    using assms by (subst unat_ucast_small; simp add: unat_div_distrib unat_mod_distrib less_trans [OF mod_less_divisor])+
  have "unat n div 1000 < 10" using assms by simp
  moreover have "k div 1000 * 1000 + k div 100 mod 10 * 100 + k div 10 mod 10 * 10 + k mod 10 = k" for k :: nat
  proof -
    have "k div 100 = k div 10 div 10" "k div 1000 = k div 10 div 10 div 10" by (simp_all flip: div_mult2_eq)
    moreover have "k = a * 10 + r \<Longrightarrow> a = b * 10 + q \<Longrightarrow> b = c * 10 + p \<Longrightarrow> c * 1000 + p * 100 + q * 10 + r = k" for a b c p q r :: nat by simp
    ultimately show ?thesis by (metis div_mult_mod_eq)
  qed
  from arg_cong [OF this [of "unat n"], of int]
  have "int (unat n div 1000) * 1000 + int (unat n div 100 mod 10) * 100 + int (unat n div 10 mod 10) * 10 + int (unat n mod 10) = uint n" by simp
  ultimately show ?thesis using u unfolding print4_def by (simp add: digit_ascii)
qed

lemma hundredths_digits:
  fixes n :: u32
  assumes "unat n < 1000000"
  shows "\<exists>a b. [ascii (ucast (n div 100000)), ascii (ucast (n div 10000 mod 10))] = [a, b] \<and> isdigit a \<and> isdigit b
    \<and> word_of_int (digit a) * 100000 + word_of_int (digit b) * 10000 = n - n mod 10000"
proof -
  have u: "unat (ucast (n div 100000) :: u8) = unat n div 100000" "unat (ucast (n div 10000 mod 10) :: u8) = unat n div 10000 mod 10"
    using assms by (subst unat_ucast_small; simp add: unat_div_distrib unat_mod_distrib less_trans [OF mod_less_divisor])+
  have l: "unat n div 100000 < 10" using assms by simp
  have "unat n = unat n div 100000 * 100000 + unat n div 10000 mod 10 * 10000 + unat n mod 10000"
  proof -
    have "unat n div 100000 = unat n div 10000 div 10" by (simp flip: div_mult2_eq)
    moreover have "k = a * 10000 + r \<Longrightarrow> a = b * 10 + q \<Longrightarrow> k = b * 100000 + q * 10000 + r" for k a b q r :: nat by simp
    ultimately show ?thesis by (metis div_mult_mod_eq)
  qed
  from arg_cong [OF this, of "of_nat :: nat \<Rightarrow> u32"]
  have "n = of_nat (unat n div 100000) * 100000 + of_nat (unat n div 10000 mod 10) * 10000 + of_nat (unat n mod 10000)" by simp
  moreover have "of_nat (unat n mod 10000) = n mod 10000" by (simp add: word_unat_eq_iff unat_mod_distrib unat_of_nat take_bit_nat_eq_self less_trans [OF mod_less_divisor])
  ultimately have "of_nat (unat n div 100000) * 100000 + of_nat (unat n div 10000 mod 10) * 10000 = n - n mod 10000" by (metis add_diff_cancel_right')
  then show ?thesis using u l by (simp add: digit_ascii)
qed

section \<open>Reading back what was printed\<close>

definition in_memory :: "u8 list \<Rightarrow> guest_text \<Rightarrow> guest_text" where
  "in_memory xs rest i = (if i < length xs then xs ! i else rest i)"

lemma in_memory_append: "in_memory (xs @ ys) rest i = (if i < length xs then xs ! i else in_memory ys (\<lambda>j. rest (length xs + j)) (i - length xs))"
  by (auto simp: in_memory_def nth_append)

lemma field2_read: "isdigit (s p) \<Longrightarrow> isdigit (s (p + 1)) \<Longrightarrow> digit (s p) * 10 + digit (s (p + 1)) = uint n \<Longrightarrow> field2 s p = n"
  by (simp add: field2_def number2_def)

lemma field4_read:
  "isdigit (s p) \<Longrightarrow> isdigit (s (p + 1)) \<Longrightarrow> isdigit (s (p + 2)) \<Longrightarrow> isdigit (s (p + 3)) \<Longrightarrow>
    digit (s p) * 1000 + digit (s (p + 1)) * 100 + digit (s (p + 2)) * 10 + digit (s (p + 3)) = uint n \<Longrightarrow> field4 s p = n"
  unfolding field4_def number4_def by (simp only: if_True simp_thms word_of_int_uint)

lemma zone_range:
  assumes "-6000 < tz" "tz < 6000"
  shows "unat (zone_hours tz) < 100" "unat (zone_minutes tz) < 100" "uint (zone_hours tz) * 60 + uint (zone_minutes tz) = \<bar>tz\<bar>"
    "uint (zone_hours tz) = \<bar>tz\<bar> div 60" "uint (zone_minutes tz) = \<bar>tz\<bar> mod 60"
proof -
  have a: "zone_abs tz = \<bar>tz\<bar>" using assms by (simp add: zone_abs_def s32_id)
  have "\<bar>tz\<bar> div 60 < 100" "0 \<le> \<bar>tz\<bar> div 60" using assms by auto
  then have h: "zone_hours tz = word_of_int (\<bar>tz\<bar> div 60)" by (simp add: zone_hours_def a c_div_pos c_mod_pos)
  have m: "zone_minutes tz = word_of_int (\<bar>tz\<bar> mod 60)" by (simp add: zone_minutes_def a c_mod_pos)
  have s: "uint (word_of_int k :: u32) = k" if "0 \<le> k" "k < 100" for k using that by (simp add: uint_word_of_int_eq take_bit_int_eq_self)
  have r: "0 \<le> \<bar>tz\<bar> mod 60" "\<bar>tz\<bar> mod 60 < 100" by (simp_all add: less_trans [OF pos_mod_bound])
  show 1: "uint (zone_hours tz) = \<bar>tz\<bar> div 60" using h s \<open>\<bar>tz\<bar> div 60 < 100\<close> by simp
  show 2: "uint (zone_minutes tz) = \<bar>tz\<bar> mod 60" using m s r by simp
  show "uint (zone_hours tz) * 60 + uint (zone_minutes tz) = \<bar>tz\<bar>" unfolding 1 2 by simp
  show "unat (zone_hours tz) < 100" "unat (zone_minutes tz) < 100" using 1 2 \<open>\<bar>tz\<bar> div 60 < 100\<close> r(2) unfolding unat_eq_nat_uint by linarith+
qed

lemma parse_offset_printed:
  assumes "-6000 < tz" "tz < 6000"
    and s: "\<And>i. i < 6 \<Longrightarrow> i < length z \<Longrightarrow> s (p + i) = z ! i"
    and z: "z = (if tz = 0 then bytes ''Z'' else [zone_sign tz] @ zone_print2 (zone_hours tz) @ bytes '':'' @ zone_print2 (zone_minutes tz)) @ [0]"
  shows "parse_offset s p = Some (- tz)" "\<not> isdigit (s p)"
proof -
  obtain a b c e where d: "zone_print2 (zone_hours tz) = [a, b]" "isdigit a" "isdigit b" "digit a * 10 + digit b = uint (zone_hours tz)"
    "zone_print2 (zone_minutes tz) = [c, e]" "isdigit c" "isdigit e" "digit c * 10 + digit e = uint (zone_minutes tz)"
    using zone_print2_digits zone_range(1,2) [OF assms(1,2)] by metis
  show "parse_offset s p = Some (- tz)"
  proof (cases "tz = 0")
    case True
    then show ?thesis using s [of 0] z by (simp add: parse_offset_def bytes_def)
  next
    case False
    then have "z = [zone_sign tz, a, b, 0x3a, c, e, 0]" using z d by (simp add: bytes_def)
    then have "s p = zone_sign tz" "s (p + 1) = a" "s (p + 2) = b" "s (p + 3) = 0x3a" "s (p + 4) = c" "s (p + 5) = e"
      using s [of 0] s [of 1] s [of 2] s [of 3] s [of 4] s [of 5] by simp_all
    moreover have "number2 s (p + 1) * 60 + number2 s (p + 4) = \<bar>tz\<bar>"
      using calculation d zone_range(3) [OF assms(1,2)] by (simp add: number2_def add.commute [of 5])
    ultimately show ?thesis using d(2,3,6,7) by (simp add: parse_offset_def zone_sign_def)
  qed
  show "\<not> isdigit (s p)" using s [of 0] z by (auto simp: bytes_def zone_sign_def isdigit_def)
qed

lemma parse_fraction_two:
  assumes "isdigit (s p)" "isdigit (s (Suc p))" "\<not> isdigit (s (Suc (Suc p)))"
  shows "parse_fraction s p 100000 0 = Some (word_of_int (digit (s p)) * 100000 + word_of_int (digit (s (Suc p))) * 10000, Suc (Suc p))"
  using assms by (simp add: parse_fraction.simps [of s p] parse_fraction.simps [of s "Suc p"] parse_fraction.simps [of s "Suc (Suc p)"])

lemma parse_rfc3339_printed:
  assumes v: "cellRtcCheckValid d = CELL_OK" and tz: "-6000 < tz" "tz < 6000"
  shows "cellRtcParseRfc3339 True True (in_memory (print_rfc3339 d tz) rest) utc
    = Some (CELL_OK, store_tick (d\<lparr>microsecond := microsecond d - microsecond d mod 10000\<rparr>) (- tz) utc)"
    and "isdigit (in_memory (print_rfc3339 d tz) rest 0) \<and> isdigit (in_memory (print_rfc3339 d tz) rest 1) \<and> isdigit (in_memory (print_rfc3339 d tz) rest 2)
      \<and> isdigit (in_memory (print_rfc3339 d tz) rest 3)"
proof -
  have r: "unat (year d) < 10000" "unat (month d) < 100" "unat (day d) < 100" "unat (hour d) < 100" "unat (minute d) < 100" "unat (second d) < 100" "unat (microsecond d) < 1000000"
    using v valid_day_le [OF v] unfolding cellRtcCheckValid_iff by auto
  obtain y1 y2 y3 y4 where y: "print4 (year d) = [y1, y2, y3, y4]" "isdigit y1" "isdigit y2" "isdigit y3" "isdigit y4"
    "digit y1 * 1000 + digit y2 * 100 + digit y3 * 10 + digit y4 = uint (year d)" using print4_digits [OF r(1)] by blast
  obtain m1 m2 where m: "print2 (month d) = [m1, m2]" "isdigit m1" "isdigit m2" "digit m1 * 10 + digit m2 = uint (month d)" using print2_digits [OF r(2)] by blast
  obtain d1 d2 where d: "print2 (day d) = [d1, d2]" "isdigit d1" "isdigit d2" "digit d1 * 10 + digit d2 = uint (day d)" using print2_digits [OF r(3)] by blast
  obtain h1 h2 where h: "print2 (hour d) = [h1, h2]" "isdigit h1" "isdigit h2" "digit h1 * 10 + digit h2 = uint (hour d)" using print2_digits [OF r(4)] by blast
  obtain i1 i2 where i: "print2 (minute d) = [i1, i2]" "isdigit i1" "isdigit i2" "digit i1 * 10 + digit i2 = uint (minute d)" using print2_digits [OF r(5)] by blast
  obtain s1 s2 where s: "print2 (second d) = [s1, s2]" "isdigit s1" "isdigit s2" "digit s1 * 10 + digit s2 = uint (second d)" using print2_digits [OF r(6)] by blast
  obtain f1 f2 where f: "[ascii (ucast (microsecond d div 100000)), ascii (ucast (microsecond d div 10000 mod 10))] = [f1, f2]" "isdigit f1" "isdigit f2"
    "word_of_int (digit f1) * 100000 + word_of_int (digit f2) * 10000 = microsecond d - microsecond d mod 10000" using hundredths_digits [OF r(7)] by blast
  define z where "z = (if tz = 0 then bytes ''Z'' else [zone_sign tz] @ zone_print2 (zone_hours tz) @ bytes '':'' @ zone_print2 (zone_minutes tz)) @ [0]"
  define M where "M = in_memory (print_rfc3339 d tz) rest"
  have p: "print_rfc3339 d tz = [y1, y2, y3, y4, 0x2d, m1, m2, 0x2d, d1, d2, 0x54, h1, h2, 0x3a, i1, i2, 0x3a, s1, s2, 0x2e, f1, f2] @ z"
    unfolding print_rfc3339_def y m d h i s f(1) z_def by (simp add: bytes_def)
  have M: "M 0 = y1" "M 1 = y2" "M 2 = y3" "M 3 = y4" "M 4 = 0x2d" "M 5 = m1" "M 6 = m2" "M 7 = 0x2d" "M 8 = d1" "M 9 = d2" "M 10 = 0x54" "M 11 = h1" "M 12 = h2"
    "M 13 = 0x3a" "M 14 = i1" "M 15 = i2" "M 16 = 0x3a" "M 17 = s1" "M 18 = s2" "M 19 = 0x2e" "M 20 = f1" "M 21 = f2"
    unfolding M_def p in_memory_append by simp_all
  have "M (22 + j) = z ! j" if "j < length z" for j unfolding M_def p in_memory_append using that by (simp add: in_memory_def)
  note off = parse_offset_printed [OF tz, of z M 22, OF this z_def]
  have fr: "parse_fraction M 20 100000 0 = Some (microsecond d - microsecond d mod 10000, 22)"
    using parse_fraction_two [of M 20] f M(21,22) off(2) by simp
  have "rfc3339_date M us = d\<lparr>microsecond := us\<rparr>" for us
    using field4_read [of M 0 "year d"] field2_read [of M 5 "month d"] field2_read [of M 8 "day d"] field2_read [of M 11 "hour d"]
      field2_read [of M 14 "minute d"] field2_read [of M 17 "second d"] y(2-) m(2-) d(2-) h(2-) i(2-) s(2-)
    by (simp only: rfc3339_date_def M add_0 numeral_plus_one arith_simps) simp
  then show "cellRtcParseRfc3339 True True (in_memory (print_rfc3339 d tz) rest) utc
    = Some (CELL_OK, store_tick (d\<lparr>microsecond := microsecond d - microsecond d mod 10000\<rparr>) (- tz) utc)"
    unfolding M_def [symmetric] by (simp add: cellRtcParseRfc3339_def M fr off(1))
  show "isdigit (in_memory (print_rfc3339 d tz) rest 0) \<and> isdigit (in_memory (print_rfc3339 d tz) rest 1) \<and> isdigit (in_memory (print_rfc3339 d tz) rest 2)
      \<and> isdigit (in_memory (print_rfc3339 d tz) rest 3)" unfolding M_def [symmetric] M using y by simp
qed

lemma store_tick_valid: "cellRtcCheckValid d = CELL_OK \<Longrightarrow> store_tick d minutes utc = date_time_to_tick d + word_of_int (minutes * 60000000)"
  by (auto simp: store_tick_def cellRtcGetTick_def cellRtcCheckValid_def cellRtcTickAddMinutes_def tick_add_def cellRtcGetTickResolution_def mult.assoc split: if_splits)

lemma zone_tick:
  assumes "0 \<le> uint utc + tz * 60000000" "uint utc + tz * 60000000 < 315537897600000000"
  defines "l \<equiv> utc + word_of_int (tz * 60000000)"
  shows "uint l = uint utc + tz * 60000000" "zone_date utc tz = tick_to_date_time l" "cellRtcCheckValid (tick_to_date_time l) = CELL_OK"
    "date_time_to_tick (tick_to_date_time l) = l" "microsecond (tick_to_date_time l) = ucast (l mod 1000000)"
proof -
  have "l = word_of_int (uint utc + tz * 60000000)" by (simp add: l_def)
  then show l: "uint l = uint utc + tz * 60000000" using assms(1,2) by (simp only: uint_word_of_int_eq) (simp add: take_bit_int_eq_self)
  show "zone_date utc tz = tick_to_date_time l"
    by (simp add: zone_date_def cellRtcTickAddMinutes_def tick_add_def cellRtcGetTickResolution_def l_def mult.assoc)
  have "unat l < 315537897600000000" using assms(2) l by (simp add: unat_eq_nat_uint)
  from valid_of_tick [OF this] show "cellRtcCheckValid (tick_to_date_time l) = CELL_OK" "date_time_to_tick (tick_to_date_time l) = l" .
  show "microsecond (tick_to_date_time l) = ucast (l mod 1000000)" by (simp add: tick_to_date_time_def split: prod.splits)
qed

text \<open>Cutting the microseconds in a time zone cuts them in universal time.\<close>

lemma truncated_zone:
  fixes k :: u32
  assumes r: "0 \<le> uint utc + tz * 60000000" "uint utc + tz * 60000000 < 315537897600000000" and k: "unat k dvd 1000000"
  defines "d \<equiv> zone_date utc tz"
  shows "cellRtcCheckValid (d\<lparr>microsecond := microsecond d - microsecond d mod k\<rparr>) = CELL_OK"
    "date_time_to_tick (d\<lparr>microsecond := microsecond d - microsecond d mod k\<rparr>) + word_of_int (- tz * 60000000) = utc - utc mod ucast k"
proof -
  define l where "l = utc + word_of_int (tz * 60000000)"
  define m where "m = microsecond d"
  have z: "uint l = uint utc + tz * 60000000" "cellRtcCheckValid d = CELL_OK" "date_time_to_tick d = l" "m = ucast (l mod 1000000)"
    using zone_tick [OF r] unfolding l_def m_def d_def by simp_all
  have m: "unat m < 1000000" using z(2) unfolding m_def cellRtcCheckValid_iff by blast
  have "unat (m - m mod k) \<le> unat m" by (simp add: unat_exact(3) unat_mod_distrib)
  then show "cellRtcCheckValid (d\<lparr>microsecond := microsecond d - microsecond d mod k\<rparr>) = CELL_OK"
    using z(2) m unfolding cellRtcCheckValid_iff m_def by simp
  have u: "unat (ucast w :: u64) = unat w" for w :: u32 using unat_bound [of w] by (intro unat_ucast_small) simp
  then have "ucast (m - m mod k) = (ucast m - ucast (m mod k) :: u64)" by (simp add: word_unat_eq_iff unat_exact(3) unat_mod_distrib)
  then have "date_time_to_tick (d\<lparr>microsecond := m - m mod k\<rparr>) = date_time_to_tick d - ucast (m mod k)" unfolding m_def by (simp add: date_time_to_tick_def Let_def)
  moreover have "(ucast (m mod k) :: u64) = utc mod ucast k"
  proof -
    have "unat (l mod 1000000) = unat l mod 1000000" by (simp add: unat_mod_distrib)
    then have "unat m = unat l mod 1000000" unfolding z(4) by (subst unat_ucast_small) (simp_all add: less_trans [OF mod_less_divisor])
    then have "unat m mod unat k = unat l mod unat k" using k by (simp add: mod_mod_cancel)
    also have "int (unat l mod unat k) = int (unat utc mod unat k)"
    proof -
      have "int (unat k) dvd int 1000000" using k by (simp only: int_dvd_int_iff)
      moreover have "int 1000000 dvd tz * 60000000" by simp
      ultimately have "tz * 60000000 mod int (unat k) = 0" using dvd_trans dvd_imp_mod_0 by blast
      then have "(uint utc + tz * 60000000) mod int (unat k) = uint utc mod int (unat k)" using mod_add_right_eq [of "uint utc" "tz * 60000000" "int (unat k)"] by simp
      then show ?thesis unfolding zmod_int uint_nat [symmetric] z(1) by simp
    qed
    finally show ?thesis by (simp add: word_unat_eq_iff unat_mod_distrib u)
  qed
  ultimately show "date_time_to_tick (d\<lparr>microsecond := microsecond d - microsecond d mod k\<rparr>) + word_of_int (- tz * 60000000) = utc - utc mod ucast k"
    using z(3) by (simp add: m_def [symmetric] l_def)
qed

text \<open>C20: A tick printed by \<^verbatim>\<open>cellRtcFormatRfc3339\<close> for any time zone up to 100 hours away is read back by \<^verbatim>\<open>cellRtcParseRfc3339\<close>, and by
  \<^verbatim>\<open>cellRtcParseDateTime\<close>, as the same tick, cut to the hundredths of a second that are printed; whatever lies behind the string in
  memory.
\<close>

theorem rtc_rfc3339_roundtrip:
  assumes tz: "-6000 < tz" "tz < 6000" and r: "0 \<le> uint utc + tz * 60000000" "uint utc + tz * 60000000 < 315537897600000000"
  shows "\<exists>txt. cellRtcFormatRfc3339 True True utc tz = (CELL_OK, txt)
    \<and> cellRtcParseRfc3339 True True (\<lambda>i. if i < length txt then txt ! i else rest i) utc0 = Some (CELL_OK, utc - utc mod 10000)
    \<and> cellRtcParseDateTime True True (\<lambda>i. if i < length txt then txt ! i else rest i) utc0 = Some (CELL_OK, utc - utc mod 10000)"
proof -
  let ?d = "zone_date utc tz"
  let ?s = "in_memory (print_rfc3339 ?d tz) rest"
  have v: "cellRtcCheckValid ?d = CELL_OK" using zone_tick [OF r] by simp
  note p = parse_rfc3339_printed [OF v tz, of rest]
  have "unat (10000 :: u32) dvd 1000000" by simp
  from truncated_zone [OF r this] have "store_tick (?d\<lparr>microsecond := microsecond ?d - microsecond ?d mod 10000\<rparr>) (- tz) utc0 = utc - utc mod 10000"
    by (simp add: store_tick_valid)
  with p(1) [of utc0] have 3: "cellRtcParseRfc3339 True True ?s utc0 = Some (CELL_OK, utc - utc mod 10000)" by simp
  have "\<not> isblank (?s 0)" using p(2) by (auto simp: isdigit_def isblank_def)
  then have "skip_blanks ?s 0 = Some 0" by (simp add: skip_blanks.simps)
  then have "cellRtcParseDateTime True True ?s utc0 = Some (CELL_OK, utc - utc mod 10000)"
    using p(2) 3 by (simp add: cellRtcParseDateTime_def numeral_2_eq_2)
  with 3 v show ?thesis by (auto simp: cellRtcFormatRfc3339_def in_memory_def [abs_def])
qed

theorem rtc_rfc3339_roundtrip_witness:
  "\<exists>txt. cellRtcFormatRfc3339 True True 63844847999999999 (-90) = (CELL_OK, txt)
    \<and> cellRtcParseRfc3339 True True (\<lambda>i. if i < length txt then txt ! i else 7) 0 = Some (CELL_OK, 63844847999990000)"
  using rtc_rfc3339_roundtrip [of "-90" 63844847999999999 "\<lambda>_. 7" 0] by auto

section \<open>Reading back RFC 2822\<close>

lemma weekday_parsed:
  assumes "w < 7" "s 0 = toupper (WEEKDAY_NAMES ! w ! 0)" "s (Suc 0) = WEEKDAY_NAMES ! w ! 1" "s (Suc (Suc 0)) = WEEKDAY_NAMES ! w ! 2" "s (Suc (Suc (Suc 0))) = of_char CHR '',''"
  shows "rtcParseName s 0 True WEEKDAY_NAMES = (w, 3) \<and> \<not> isblank (s 0) \<and> \<not> isdigit (s 0)"
proof -
  have "w = 0 \<or> w = 1 \<or> w = 2 \<or> w = 3 \<or> w = 4 \<or> w = 5 \<or> w = 6" using assms(1) by linarith
  then show ?thesis
    using assms(2-) by (elim disjE) (simp_all add: WEEKDAY_NAMES_def bytes_def toupper_def tolower_def isblank_def isdigit_def)
qed

lemma month_parsed:
  assumes "1 \<le> m" "m \<le> 12" "s p = toupper (MONTH_NAMES ! (m - 1) ! 0)" "s (Suc p) = MONTH_NAMES ! (m - 1) ! 1" "s (Suc (Suc p)) = MONTH_NAMES ! (m - 1) ! 2"
    "s (Suc (Suc (Suc p))) = of_char CHR '' ''"
  shows "rtcParseName s p True MONTH_NAMES = (m - 1, p + 3)"
proof -
  have "m = 1 \<or> m = 2 \<or> m = 3 \<or> m = 4 \<or> m = 5 \<or> m = 6 \<or> m = 7 \<or> m = 8 \<or> m = 9 \<or> m = 10 \<or> m = 11 \<or> m = 12" using assms(1,2) by presburger
  then show ?thesis
    using assms(3-) by (elim disjE) (simp_all add: MONTH_NAMES_def bytes_def toupper_def tolower_def)
qed

lemma no_month_parsed: "isdigit (s p) \<Longrightarrow> rtcParseName s p True MONTH_NAMES = (12, p)"
proof -
  assume d: "isdigit (s p)"
  then have "tolower (s p) = s p" by (auto simp: isdigit_def tolower_def word_le_nat_alt)
  then have "tolower (s p) \<le> 0x39" using d by (simp add: isdigit_def)
  then have "tolower (s p) \<noteq> c" if "0x39 < c" for c using that by auto
  then show ?thesis by (simp add: MONTH_NAMES_def bytes_def)
qed

lemma component_read:
  "isdigit (s p) \<Longrightarrow> isdigit (s (p + 1)) \<Longrightarrow> digit (s p) * 10 + digit (s (p + 1)) = uint n \<Longrightarrow> rtcParseComponent s p 0 = Some (n, p + 2)"
  "c \<noteq> 0 \<Longrightarrow> s p = c \<Longrightarrow> isdigit (s (p + 1)) \<Longrightarrow> isdigit (s (p + 2)) \<Longrightarrow> digit (s (p + 1)) * 10 + digit (s (p + 2)) = uint n \<Longrightarrow>
    rtcParseComponent s p c = Some (n, p + 3)"
  by (simp_all add: rtcParseComponent_def Let_def del: of_int_add of_int_mult)

text \<open>The time zone that is read back: the hours and minutes are taken apart with a remainder modulo 60.\<close>

definition zone_read :: "int \<Rightarrow> int" where
  "zone_read tz = sgn tz * (\<bar>tz\<bar> div 60 * 60 + (\<bar>tz\<bar> div 60 * 100 + \<bar>tz\<bar> mod 60) mod 60)"

lemma parse_zone_printed:
  assumes tz: "-6000 < tz" "tz < 6000" and s: "s p = zone_sign tz"
    and h: "zone_print2 (zone_hours tz) = [s (p + 1), s (p + 2)]" and m: "zone_print2 (zone_minutes tz) = [s (p + 3), s (p + 4)]"
  shows "parse_zone s p = Some (zone_read tz)"
proof -
  have d: "isdigit (s (p + 1))" "isdigit (s (p + 2))" "digit (s (p + 1)) * 10 + digit (s (p + 2)) = \<bar>tz\<bar> div 60"
    "isdigit (s (p + 3))" "isdigit (s (p + 4))" "digit (s (p + 3)) * 10 + digit (s (p + 4)) = \<bar>tz\<bar> mod 60"
    using zone_print2_digits [OF zone_range(1) [OF tz]] zone_print2_digits [OF zone_range(2) [OF tz]] zone_range(4,5) [OF tz] unfolding h m by auto
  define H where "H = \<bar>tz\<bar> div 60"
  define M where "M = \<bar>tz\<bar> mod 60"
  have "number4 s (p + 1) = H * 100 + M" using d(3,6) unfolding number4_def H_def M_def by (simp add: numeral_eq_Suc)
  moreover have "0 \<le> M" "M < 60" by (simp_all add: M_def)
  ultimately have "number4 s (p + 1) div 100 = H" "number4 s (p + 1) mod 60 = (H * 100 + M) mod 60" by simp_all
  then have "parse_zone s p = Some (if tz < 0 then - (H * 60 + (H * 100 + M) mod 60) else H * 60 + (H * 100 + M) mod 60)"
    using d(1,2,4,5) s by (cases "tz < 0") (simp_all add: parse_zone_def Let_def zone_sign_def)
  moreover have "zone_read tz = (if tz < 0 then - (H * 60 + (H * 100 + M) mod 60) else H * 60 + (H * 100 + M) mod 60)"
    by (cases tz "0 :: int" rule: linorder_cases) (simp_all add: zone_read_def H_def M_def)
  ultimately show ?thesis by simp
qed

lemma day_of_week_range:
  assumes "cellRtcCheckValid d = CELL_OK"
  shows "\<exists>n. cellRtcGetDayOfWeek (uint (year d)) (uint (month d)) (uint (day d)) = int (n mod 7)"
proof -
  obtain n where "civil n (unat (year d)) (unat (month d)) (unat (day d))" using assms unfolding cellRtcCheckValid_iff by blast
  from day_of_week_civil [OF this] show ?thesis by (intro exI [of _ "n + 1"]) simp
qed

lemma parse_rfc2822_printed:
  assumes v: "cellRtcCheckValid d = CELL_OK" and tz: "-6000 < tz" "tz < 6000"
  shows "cellRtcParseDateTime True True (in_memory (print_rfc2822 d tz) rest) utc
    = Some (CELL_OK, store_tick (d\<lparr>microsecond := 0\<rparr>) (- zone_read tz) utc)"
proof -
  have r: "unat (year d) < 10000" "unat (day d) < 100" "unat (hour d) < 100" "unat (minute d) < 100" "unat (second d) < 100"
    "1 \<le> unat (month d)" "unat (month d) \<le> 12" "unat (hour d) < 24"
    using v valid_day_le [OF v] unfolding cellRtcCheckValid_iff civil_def by auto
  define w where "w = nat (cellRtcGetDayOfWeek (uint (year d)) (uint (month d)) (uint (day d)))"
  have w: "w < 7" using day_of_week_range [OF v] unfolding w_def by auto
  obtain y1 y2 y3 y4 where y: "print4 (year d) = [y1, y2, y3, y4]" "isdigit y1" "isdigit y2" "isdigit y3" "isdigit y4"
    "digit y1 * 1000 + digit y2 * 100 + digit y3 * 10 + digit y4 = uint (year d)" using print4_digits [OF r(1)] by blast
  obtain d1 d2 where d: "print2 (day d) = [d1, d2]" "isdigit d1" "isdigit d2" "digit d1 * 10 + digit d2 = uint (day d)" using print2_digits [OF r(2)] by blast
  obtain h1 h2 where h: "print2 (hour d) = [h1, h2]" "isdigit h1" "isdigit h2" "digit h1 * 10 + digit h2 = uint (hour d)" using print2_digits [OF r(3)] by blast
  obtain i1 i2 where i: "print2 (minute d) = [i1, i2]" "isdigit i1" "isdigit i2" "digit i1 * 10 + digit i2 = uint (minute d)" using print2_digits [OF r(4)] by blast
  obtain s1 s2 where s: "print2 (second d) = [s1, s2]" "isdigit s1" "isdigit s2" "digit s1 * 10 + digit s2 = uint (second d)" using print2_digits [OF r(5)] by blast
  obtain z1 z2 z3 z4 where z: "zone_print2 (zone_hours tz) = [z1, z2]" "zone_print2 (zone_minutes tz) = [z3, z4]" by (simp add: zone_print2_def)
  define M where "M = in_memory (print_rfc2822 d tz) rest"
  let ?W = "WEEKDAY_NAMES ! w" and ?N = "MONTH_NAMES ! (unat (month d) - 1)"
  have p: "print_rfc2822 d tz = [toupper (?W ! 0), ?W ! 1, ?W ! 2, 0x2c, 0x20, d1, d2, 0x20, toupper (?N ! 0), ?N ! 1, ?N ! 2, 0x20, y1, y2, y3, y4, 0x20,
      h1, h2, 0x3a, i1, i2, 0x3a, s1, s2, 0x20, zone_sign tz, z1, z2, z3, z4, 0]"
    unfolding print_rfc2822_def Let_def y d h i s z w_def [symmetric] by (simp add: bytes_def)
  have M: "M 0 = toupper (?W ! 0)" "M 1 = ?W ! 1" "M 2 = ?W ! 2" "M 3 = 0x2c" "M 4 = 0x20" "M 5 = d1" "M 6 = d2" "M 7 = 0x20" "M 8 = toupper (?N ! 0)" "M 9 = ?N ! 1"
    "M 10 = ?N ! 2" "M 11 = 0x20" "M 12 = y1" "M 13 = y2" "M 14 = y3" "M 15 = y4" "M 16 = 0x20" "M 17 = h1" "M 18 = h2" "M 19 = 0x3a" "M 20 = i1" "M 21 = i2" "M 22 = 0x3a"
    "M 23 = s1" "M 24 = s2" "M 25 = 0x20" "M 26 = zone_sign tz" "M 27 = z1" "M 28 = z2" "M 29 = z3" "M 30 = z4"
    unfolding M_def p in_memory_def by simp_all
  have 1: "rtcParseName M 0 True WEEKDAY_NAMES = (w, 3)" "\<not> isblank (M 0)" "\<not> isdigit (M 0)"
    using weekday_parsed [OF w, of M] M(1-4) by (simp_all add: numeral_eq_Suc)
  have 2: "rtcParseName M 8 True MONTH_NAMES = (unat (month d) - 1, 11)"
    using month_parsed [OF r(6,7), of M 8] M(9-12) by (simp add: numeral_eq_Suc)
  have 3: "rtcParseName M 5 True MONTH_NAMES = (12, 5)" using no_month_parsed [of M 5] d(2) M(6) by simp
  have "\<not> isblank (M 5)" using d(2) M(6) by (auto simp: isdigit_def isblank_def)
  then have b: "skip_blanks M 0 = Some 0" "skip_blanks M 4 = Some 5"
    using 1(2) M(5) by (simp_all add: skip_blanks.simps [of M 0] skip_blanks.simps [of M 4] skip_blanks.simps [of M 5] isblank_def)
  have c: "rtcParseComponent M 5 0 = Some (day d, 7)" "rtcParseComponent M 16 0x20 = Some (hour d, 19)" "rtcParseComponent M 19 0x3a = Some (minute d, 22)"
    "rtcParseComponent M 22 0x3a = Some (second d, 25)"
    using component_read(1) [of M 5 "day d"] component_read(2) [of "0x20" M 16 "hour d"] component_read(2) [of "0x3a" M 19 "minute d"]
      component_read(2) [of "0x3a" M 22 "second d"] M d h i s by simp_all
  have y': "parse_year M 12 = Some (year d, 16)" using y M by (simp add: parse_year_def number4_def del: of_int_add of_int_mult)
  have z': "parse_zone M 26 = Some (zone_read tz)" using parse_zone_printed [OF tz, of M 26] M z by simp
  have l: "length WEEKDAY_NAMES = 7" "length MONTH_NAMES = 12" by (simp_all add: WEEKDAY_NAMES_def MONTH_NAMES_def)
  have m: "of_nat (unat (month d) - 1) + 1 = month d" using r(6) by (simp add: of_nat_diff)
  have "hour d \<le> 25" using r(8) by (simp add: word_le_nat_alt)
  then have "parse_rfc2822 M 5 = Some (d\<lparr>microsecond := 0\<rparr>, zone_read tz)"
    using r(6,7) 2 m by (simp add: parse_rfc2822_def c y' z' M expect_def space_or_hyphen_def l)
  then show ?thesis
    using w 1 3 unfolding M_def [symmetric] by (simp add: cellRtcParseDateTime_def b M rtcParseRfc2822_def l)
qed

lemma zone_read_diff:
  "tz - zone_read tz = sgn tz * (\<bar>tz\<bar> mod 60 - (\<bar>tz\<bar> div 60 * 100 + \<bar>tz\<bar> mod 60) mod 60)"
proof -
  have "tz = sgn tz * (\<bar>tz\<bar> div 60 * 60 + \<bar>tz\<bar> mod 60)" unfolding div_mult_mod_eq by (simp add: sgn_mult_abs)
  then have "tz - zone_read tz = sgn tz * (\<bar>tz\<bar> div 60 * 60 + \<bar>tz\<bar> mod 60) - zone_read tz" by simp
  then show ?thesis by (simp only: zone_read_def right_diff_distrib distrib_left)
qed

lemma zone_remainder:
  fixes h m :: int
  assumes "0 \<le> m" "m < 60"
  shows "m - (h * 100 + m) mod 60 = 0 \<longleftrightarrow> h mod 3 = 0" "\<bar>m - (h * 100 + m) mod 60\<bar> < 60"
proof -
  have "m = (h * 100 + m) mod 60 \<longleftrightarrow> (h * 100 + m) mod 60 = m mod 60" using assms by auto
  also have "\<dots> \<longleftrightarrow> 20 * 3 dvd 20 * (5 * h)" by (simp add: mod_eq_dvd_iff mult.commute)
  also have "\<dots> \<longleftrightarrow> 3 dvd h" unfolding dvd_mult_cancel_left by simp presburger
  finally show "m - (h * 100 + m) mod 60 = 0 \<longleftrightarrow> h mod 3 = 0" by (simp add: dvd_eq_mod_eq_0)
  have "0 \<le> x mod 60 \<and> x mod 60 < 60" for x :: int by simp
  from this [of "h * 100 + m"] show "\<bar>m - (h * 100 + m) mod 60\<bar> < 60" using assms unfolding abs_less_iff by linarith
qed

lemma zone_read_exact: "tz - zone_read tz = 0 \<longleftrightarrow> \<bar>tz\<bar> div 60 mod 3 = 0"
  unfolding zone_read_diff mult_eq_0_iff using zone_remainder(1) [of "\<bar>tz\<bar> mod 60" "\<bar>tz\<bar> div 60"] by (cases "tz = 0") (simp_all add: sgn_eq_0_iff)

lemma zone_read_bound: "\<bar>tz - zone_read tz\<bar> < 60"
  unfolding zone_read_diff abs_mult using zone_remainder(2) [of "\<bar>tz\<bar> mod 60" "\<bar>tz\<bar> div 60"] by (cases "tz = 0") (simp_all add: abs_sgn_eq)

lemma minutes_word_zero:
  assumes "\<bar>n\<bar> < 60"
  shows "(word_of_int (n * 60000000) :: u64) = 0 \<longleftrightarrow> n = 0"
proof
  assume "(word_of_int (n * 60000000) :: u64) = 0"
  then have "(2 :: int) ^ 64 dvd n * 60000000" using word_of_int_eq_0_iff [of "n * 60000000", where ?'a = 64] by simp
  moreover have "\<bar>n * 60000000\<bar> < 2 ^ 64" using assms by (simp add: abs_mult)
  ultimately show "n = 0" using dvd_imp_le_int [of "n * 60000000" "2 ^ 64"] by auto
qed simp

text \<open>C40: A tick printed by \<^verbatim>\<open>cellRtcFormatRfc2822\<close> is accepted by \<^verbatim>\<open>cellRtcParseDateTime\<close> and gives the tick without its fraction of a
  second, moved by the difference between the time zone \<^verbatim>\<open>tz\<close> and the one read: the parser takes the four digits of the zone as
  hours and a remainder modulo 60, not 100. The difference is less than an hour, and the round trip is exact if and only if the hours
  of the zone are divisible by three.\<close>

theorem rtc_rfc2822_roundtrip:
  assumes tz: "-6000 < tz" "tz < 6000" and r: "0 \<le> uint utc + tz * 60000000" "uint utc + tz * 60000000 < 315537897600000000"
  shows "\<exists>txt t. cellRtcFormatRfc2822 True True utc tz = (CELL_OK, txt)
    \<and> cellRtcParseDateTime True True (\<lambda>i. if i < length txt then txt ! i else rest i) utc0 = Some (CELL_OK, t)
    \<and> t = utc - utc mod 1000000 + word_of_int ((tz - zone_read tz) * 60000000) \<and> \<bar>tz - zone_read tz\<bar> < 60
    \<and> (t = utc - utc mod 1000000 \<longleftrightarrow> \<bar>tz\<bar> div 60 mod 3 = 0)"
proof -
  let ?d = "zone_date utc tz"
  have v: "cellRtcCheckValid ?d = CELL_OK" using zone_tick [OF r] by simp
  have "unat (1000000 :: u32) dvd 1000000" by simp
  note k = truncated_zone [OF r this]
  have "unat (microsecond ?d) < 1000000" using v unfolding cellRtcCheckValid_iff by simp
  then have "microsecond ?d mod 1000000 = microsecond ?d" by (simp add: word_unat_eq_iff unat_mod_distrib)
  then have m: "?d\<lparr>microsecond := microsecond ?d - microsecond ?d mod 1000000\<rparr> = ?d\<lparr>microsecond := 0\<rparr>" by simp
  have u: "ucast (1000000 :: u32) = (1000000 :: u64)" by simp
  have w: "word_of_int (- zone_read tz * 60000000) = word_of_int (- tz * 60000000) + (word_of_int ((tz - zone_read tz) * 60000000) :: u64)"
    unfolding wi_hom_add by (rule arg_cong [where f = word_of_int]) simp
  have t: "store_tick (?d\<lparr>microsecond := 0\<rparr>) (- zone_read tz) utc0 = utc - utc mod 1000000 + word_of_int ((tz - zone_read tz) * 60000000)"
    using k unfolding m u by (simp only: store_tick_valid w add.assoc [symmetric])
  with parse_rfc2822_printed [OF v tz, of rest utc0] v show ?thesis
    using minutes_word_zero [OF zone_read_bound, of tz] zone_read_bound [of tz] zone_read_exact [of tz]
    by (simp add: cellRtcFormatRfc2822_def in_memory_def [abs_def] del: of_int_mult of_int_diff)
qed

theorem rtc_rfc2822_roundtrip_witness:
  "\<exists>txt t. cellRtcFormatRfc2822 True True 63844847999999999 60 = (CELL_OK, txt)
    \<and> cellRtcParseDateTime True True (\<lambda>i. if i < length txt then txt ! i else 7) 0 = Some (CELL_OK, t)
    \<and> t = 63844845599000000"
  using rtc_rfc2822_roundtrip [of 60 63844847999999999 "\<lambda>_. 7" 0] by (auto simp: zone_read_def)

end
