(* ===== verification/Spec2Isabelle.thy ===== *)
theory Spec2Isabelle
  imports Sys_Semaphore Mutex_Threads Rwlock_Threads Event_Flag_Service Event_Threads Cond_Threads Lwmutex_Threads
    Prx_Lwcond Kernel_Calls Cell_Rtc_Text
begin

text \<open>
  Verification of the synchronisation kernel and the clock library of rpcsx, an emulator of the PlayStation 3 (and 4).

  \<^bold>\<open>The program.\<close> rpcsx runs the threads of a guest program (\<^verbatim>\<open>ppu_thread\<close>) as host threads and gives them the system calls of the
  guest's kernel, lv2 (\<^verbatim>\<open>src/kernel/cellos\<close>), and the libraries of the guest's firmware (\<^verbatim>\<open>src/ps3fw\<close>). The parts treated here:

  \<^item> the thread scheduler (\<^verbatim>\<open>kernel/cellos/src/lv2.cpp\<close>), which decides which guest threads run, keeps their time-outs and wakes them;
  \<^item> the intrusive queues of sleeping threads, the base class of kernel objects and the sharing of objects by IPC keys
    (\<^verbatim>\<open>kernel/cellos/include/cellos/sys_sync.h\<close>, \<^verbatim>\<open>rpcs3/Emu/IPC.h\<close>);
  \<^item> the table of object ids (\<^verbatim>\<open>rpcs3/Emu/IdManager.h\<close>, \<^verbatim>\<open>IdManager.cpp\<close>);
  \<^item> the synchronisation objects and their system calls: semaphores, mutexes, condition variables, reader-writer locks, event flags, event
    queues and ports, lightweight mutexes and lightweight condition variables (\<^verbatim>\<open>kernel/cellos/src/sys_*.cpp\<close>);
  \<^item> the guest side of the lightweight objects (\<^verbatim>\<open>ps3fw/sys_lwmutex_.cpp\<close>, \<^verbatim>\<open>ps3fw/sys_lwcond_.cpp\<close>), which keeps the lock word in guest
    memory and calls the kernel only under contention;
  \<^item> the real-time clock library (\<^verbatim>\<open>ps3fw/cellRtc.cpp\<close>), which does not depend on the others.

  A system call looks up its object by id, changes the object under the object's host mutex or by compare-and-swap, and calls
  the scheduler to put its caller to sleep or to wake the threads it has taken off a queue.

  \<^bold>\<open>The model.\<close> A thread is its id. Threads, scheduler variables and objects are records (\<open>ppu_thread\<close> and the scheduler state of
  \<open>Lv2_Thread\<close>, the objects and \<open>kernel\<close> of \<open>Lv2_Object\<close>), flag words are sets of flags, ids and bit patterns are words, signed guest
  integers are integers with \<open>s32\<close> and \<open>s64\<close> written where they wrap. A failed \<^verbatim>\<open>ensure\<close>, an exception, a null pointer and a loop that
  does not end are \<open>None\<close>; error codes are the values of the code. The clock and the calling thread are arguments (\<open>env\<close>). A definition has the name of the function
  it translates, or of the part of a function when the function is cut at the points where other threads can run.

  \<^bold>\<open>Theories.\<close>

  \<^item> \<open>Rpcsx_Prelude\<close>: machine types, error codes, shared lemmas and the collections \<open>lv2_simps\<close> and \<open>wrap_simps\<close>.
  \<^item> \<open>Lv2_Thread\<close>, \<open>Lv2_Scheduler\<close>: \<^verbatim>\<open>sleep_unlocked\<close>, \<^verbatim>\<open>awake_unlocked\<close>, \<^verbatim>\<open>schedule_all\<close> and the operations built from them. The invariant
    \<open>sched_inv\<close> (run queue duplicate-free and in order of priority, time-outs in order, the counter of pending suspensions exact) is kept by
    every operation, no \<^verbatim>\<open>ensure\<close> fails under it, and the threads that run are the first of the run queue.
  \<^item> \<open>Lv2_Queue\<close>: \<^verbatim>\<open>unqueue\<close>, \<^verbatim>\<open>schedule\<close> and \<^verbatim>\<open>emplace\<close> on a heap of \<^verbatim>\<open>next_cpu\<close> pointers and on lists. The pointer programs return and refine
    the list functions; the locale \<open>sleep_queue\<close> is the contract of both, interpreted for both.
  \<^item> \<open>Lv2_Waiters\<close>, \<open>Lv2_Running\<close>, \<open>Lv2_Drowsy\<close>: what one scheduler call does to the threads that sleep on an object, that execute, or
    that are about to sleep. The theories on interleavings rest on these.
  \<^item> \<open>Id_Manager\<close>: ids resolve to what was stored, stale ids are rejected, creation fails only when the table is full. The
    locale \<open>handle_table\<close> is the contract, interpreted for the table of lv2 objects.
  \<^item> \<open>Lv2_Object\<close>: creation with and without IPC keys, handle counts, destruction, the wait loop the blocking calls share.
  \<^item> \<open>Sys_Semaphore\<close>, \<open>Sys_Mutex\<close>, \<open>Sys_Rwlock\<close>, \<open>Sys_Event_Flag\<close>, \<open>Sys_Event\<close>, \<open>Sys_Cond\<close>, \<open>Sys_Lwmutex\<close>, \<open>Sys_Lwcond\<close>: the objects, the
    atomic parts of their operations and the system calls. \<open>Prx_Lwmutex\<close> and \<open>Prx_Lwcond\<close>: the functions of the guest library.
  \<^item> \<open>Mutex_Threads\<close>, \<open>Rwlock_Threads\<close>, \<open>Event_Threads\<close>, \<open>Cond_Threads\<close>, \<open>Lwmutex_Threads\<close> and the end of \<open>Sys_Semaphore\<close>: any
    number of threads on one object, as an inductive step relation over program counters and ghost state, with an invariant. They show mutual
    exclusion, conservation of units and events, that a waiter is not lost, which result a blocking call returns,
    and that no \<^verbatim>\<open>ensure\<close> fails under any interleaving.
  \<^item> \<open>Event_Flag_Service\<close>: \<^verbatim>\<open>sys_event_flag_set\<close> against a specification of who is served.
  \<^item> \<open>Kernel_Objects\<close>, \<open>Kernel_Calls\<close>: all system calls as steps of one relation \<open>kernel_call\<close> on the kernel, and the typing of ids, keys
    and references between objects as an invariant of every run from boot.
  \<^item> \<open>Cell_Rtc\<close>, \<open>Cell_Rtc_Ticks\<close>, \<open>Cell_Rtc_Text\<close>: dates and ticks, arithmetic and time stamps, text formats. The conversions are proved
    inverse through a reference calendar (\<open>civil\<close>), the closed formulas are proved against counting, and printed text is parsed back. Text
    in guest memory is a function from positions to bytes, and each pointer of a call is represented by whether its page is accessible.

  \<^bold>\<open>Choices.\<close> There is no fuel: walks over pointer lists, loops that empty a queue and loops over guest text are \<open>partial_function\<close>s,
  shown to return where the code relies on it; all other loops are total functions. A part of a call that runs under a host mutex is one step where no lock-free
  access of another thread can see its inside; each theory on interleavings says where it is cut and why. The step of a time-out
  includes the rescheduling of the thread in \<^verbatim>\<open>check_state\<close> that follows a wake-up by the time-out queue. A compare-and-swap that may fail
  spuriously or by interference has its outcome as an argument, a retry loop is one more step. A thread that is
  stopped for a savestate is modelled by \<^verbatim>\<open>cpu_flag::again\<close> and the value it saves. Objects are never reclaimed in the store; \<^verbatim>\<open>shared_ptr\<close>
  keeps them alive in the code as long as a thread refers to them.

  \<^bold>\<open>Not modelled.\<close> In the parts above: logging, savestate serialisation of objects and tables, notification of memory
  reservations, \<^verbatim>\<open>wait_timeout\<close> and \<^verbatim>\<open>ppu_state\<close> of the scheduler (host sleeping and debug output), SPU threads as waiters of event queues
  (a parameter), and the order of memory accesses: atomic accesses are sequentially consistent. Of the rest of the emulator: the interpreters,
  analysers and recompilers of PPU and SPU code, whose meaning is that of generated host code; the graphics back ends (RSX,
  Vulkan, OpenGL, the GCN shader translator) and the audio, video, input and network code, whose correctness is their effect on devices and
  external services; the memory manager, which works on host page mappings; loaders and cryptography,
  the PlayStation 4 kernel (\<^verbatim>\<open>kernel/orbis\<close>), the other system calls and firmware modules, which neither share state with these parts nor are
  called by them except as stated; host utilities, the Android front end, tools, tests, generated and vendored code.
\<close>

end
